(* ===== verification/Prelude.thy ===== *)
theory Prelude
  imports Main "HOL-Library.Word"
begin

text \<open>
  Shared vocabulary of the development: the fixed-width integers of
  \<^verbatim>\<open>src/lib/stdint.h\<close>, the ways in which kernel code can go wrong, the
  sequencing of fallible operations, and the generic lemmas on words and lists that
  every component uses. The collections \<open>wf_intros\<close> and \<open>abs_simps\<close> gather,
  component by component, the preservation lemmas of the invariants and the equations
  of the abstraction functions.
\<close>

unbundle bit_operations_syntax

named_theorems wf_intros "an operation keeps the invariant of its component"
named_theorems abs_simps "what an operation does to the abstraction of its component"

subsection \<open>Fixed-width integers\<close>

type_synonym u8 = "8 word"
type_synonym u16 = "16 word"
type_synonym u32 = "32 word"

text \<open>The C type \<^verbatim>\<open>char\<close> is a byte here; \<open>c_char\<close> gives the code of a literal.\<close>

definition c_char :: "char \<Rightarrow> u8" where
  "c_char c = of_char c"

text \<open>Little-endian numbers of a structure in memory, at a byte offset.\<close>

definition le16 :: "u8 list \<Rightarrow> nat \<Rightarrow> u16" where
  "le16 bs i = ucast (bs ! i) OR push_bit 8 (ucast (bs ! (i + 1)))"

definition le32 :: "u8 list \<Rightarrow> nat \<Rightarrow> u32" where
  "le32 bs i = ucast (bs ! i) OR push_bit 8 (ucast (bs ! (i + 1))) OR push_bit 16 (ucast (bs ! (i + 2))) OR push_bit 24 (ucast (bs ! (i + 3)))"

definition c_string :: "string \<Rightarrow> u8 list" where
  "c_string s = map c_char s"

subsection \<open>Faults and fallible results\<close>

text \<open>
  \<open>Panic\<close> is a failed \<^verbatim>\<open>ASSERT\<close> or a \<^verbatim>\<open>PANIC\<close>: \<^verbatim>\<open>panic_spin\<close> of
  \<^verbatim>\<open>src/kernel/debug.c\<close> disables interrupts, prints the condition and spins for
  ever, so nothing after it runs. \<open>OutOfBounds\<close> is an access outside the array the
  pointer belongs to and \<open>NullDeref\<close> a dereference of \<^verbatim>\<open>NULL\<close>: the C code has
  no defined meaning there. \<open>PageFault\<close> is an access to a virtual address that is not mapped, and \<open>Corrupted\<close> a list operation
  on a node that is already linked, after which the nodes no longer form a list.
\<close>

datatype fault = Panic string | OutOfBounds | NullDeref | PageFault | Corrupted

type_synonym 'a res = "fault + 'a"

definition andthen :: "'a res \<Rightarrow> ('a \<Rightarrow> 'b res) \<Rightarrow> 'b res" where
  "andthen r f = (case r of Inl e \<Rightarrow> Inl e | Inr x \<Rightarrow> f x)"

definition assert_c :: "string \<Rightarrow> bool \<Rightarrow> unit res" where
  "assert_c msg b = (if b then Inr () else Inl (Panic msg))"

definition rd :: "'a list \<Rightarrow> nat \<Rightarrow> 'a res" where
  "rd xs i = (if i < length xs then Inr (xs ! i) else Inl OutOfBounds)"

definition wr :: "'a list \<Rightarrow> nat \<Rightarrow> 'a \<Rightarrow> 'a list res" where
  "wr xs i x = (if i < length xs then Inr (xs[i := x]) else Inl OutOfBounds)"

lemma andthen_simps [simp]:
  "andthen (Inr x) f = f x"
  "andthen (Inl e) f = Inl e"
  by (simp_all add: andthen_def)

lemma andthen_Inr_iff: "andthen r f = Inr y \<longleftrightarrow> (\<exists>x. r = Inr x \<and> f x = Inr y)"
  by (cases r) auto

lemma andthen_assoc: "andthen (andthen r f) g = andthen r (\<lambda>x. andthen (f x) g)"
  by (cases r) simp_all

lemma andthen_cong [fundef_cong]:
  "r = r' \<Longrightarrow> (\<And>x. r' = Inr x \<Longrightarrow> f x = g x) \<Longrightarrow> andthen r f = andthen r' g"
  by (cases r') simp_all

text \<open>As a congruence rule it makes the simplifier run a program from its first step on.\<close>

lemma andthen_weak_cong: "r = r' \<Longrightarrow> andthen r f = andthen r' f"
  by simp

lemma assert_c_True [simp]: "assert_c msg True = Inr ()"
  by (simp add: assert_c_def)

lemma assert_c_False [simp]: "assert_c msg False = Inl (Panic msg)"
  by (simp add: assert_c_def)

lemma assert_c_Inr_iff [simp]: "assert_c msg b = Inr u \<longleftrightarrow> b"
  by (simp add: assert_c_def)

lemma rd_in [simp]: "i < length xs \<Longrightarrow> rd xs i = Inr (xs ! i)"
  by (simp add: rd_def)

lemma rd_out [simp]: "\<not> i < length xs \<Longrightarrow> rd xs i = Inl OutOfBounds"
  by (simp add: rd_def)

lemma wr_in [simp]: "i < length xs \<Longrightarrow> wr xs i x = Inr (xs[i := x])"
  by (simp add: wr_def)

lemma wr_out [simp]: "\<not> i < length xs \<Longrightarrow> wr xs i x = Inl OutOfBounds"
  by (simp add: wr_def)

text \<open>
  A run of code whose loops may not end: \<open>None\<close> if it does not return. Loops are defined by
  \<^theory_text>\<open>partial_function (option)\<close> on top of \<open>bindr\<close>, the sequencing of such runs.
\<close>

type_synonym 'a run = "'a res option"

definition bindr :: "'a run \<Rightarrow> ('a \<Rightarrow> 'b run) \<Rightarrow> 'b run" where
  "bindr r f = Option.bind r (\<lambda>x. case x of Inl e \<Rightarrow> Some (Inl e) | Inr y \<Rightarrow> f y)"

lemma bindr_simps [simp]:
  "bindr (Some (Inr x)) f = f x"
  "bindr (Some (Inl e)) f = Some (Inl e)"
  "bindr None f = None"
  by (simp_all add: bindr_def)

lemma bindr_assoc: "bindr (bindr r f) g = bindr r (\<lambda>x. bindr (f x) g)"
proof (cases r)
  case (Some x)
  then show ?thesis by (cases x) simp_all
qed simp

lemma bindr_Inr_iff: "bindr r f = Some (Inr y) \<longleftrightarrow> (\<exists>x. r = Some (Inr x) \<and> f x = Some (Inr y))"
proof (cases r)
  case (Some x)
  then show ?thesis by (cases x) simp_all
qed simp

lemma bindr_weak_cong: "r = r' \<Longrightarrow> bindr r f = bindr r' f"
  by simp

lemma bindr_mono [partial_function_mono]:
  assumes "mono_option r" "\<And>y. mono_option (\<lambda>f. g y f)"
  shows "mono_option (\<lambda>f. bindr (r f) (\<lambda>y. g y f))"
  unfolding bindr_def
proof (intro bind_mono assms(1))
  fix y
  show "mono_option (\<lambda>f. case y of Inl e \<Rightarrow> Some (Inl e) | Inr y \<Rightarrow> g y f)"
    using assms(2) by (cases y) (simp_all add: option.const_mono)
qed

subsection \<open>Words\<close>

lemma unat_Suc_lt:
  assumes "(j :: 'a::len word) < n"
  shows "unat (j + 1) = Suc (unat j)"
proof -
  from assms have "unat j < unat n" by (simp add: word_less_nat_alt)
  with unsigned_less [of n, where ?'a = nat] have "unat j + 1 < 2 ^ LENGTH('a)" by linarith
  then show ?thesis by (simp add: unat_word_ariths)
qed

lemma unat_add_lt:
  "unat a + unat b < 2 ^ LENGTH('a) \<Longrightarrow> unat (a + b :: 'a::len word) = unat a + unat b"
  by (simp add: unat_word_ariths)

lemma unat_of_nat_lt: "n < 2 ^ LENGTH('a) \<Longrightarrow> unat (word_of_nat n :: 'a::len word) = n"
  by (simp add: unsigned_of_nat take_bit_nat_eq_self)

lemma unat_nat32: "n < 4294967296 \<Longrightarrow> unat (word_of_nat n :: u32) = n"
  by (rule unat_of_nat_lt) simp

lemma of_nat_inj32: "i < 4294967296 \<Longrightarrow> j < 4294967296 \<Longrightarrow> word_of_nat i = (word_of_nat j :: u32) \<longleftrightarrow> i = j"
  using unat_nat32 by metis

lemma unat_minus_of_nat: "0 < k \<Longrightarrow> k < 2 ^ 32 \<Longrightarrow> unat (- word_of_nat k :: u32) = 2 ^ 32 - k"
  using unat_sub_if' [of "0 :: u32" "word_of_nat k"] by (simp add: unat_of_nat)

lemma unat_u32_lt: "unat (x :: u32) < 4294967296"
  using unsigned_less [of x] by simp

lemma unat_u16_lt: "unat (x :: u16) < 65536"
  using unsigned_less [of x] by simp

lemma unat_u8_lt: "unat (x :: u8) < 256"
  using unsigned_less [of x] by simp

lemma and_exp_ne_0: "(x AND 2 ^ k \<noteq> (0 :: 'a::len word)) \<longleftrightarrow> bit x k"
  by (auto simp: bit_eq_iff [where ?'a = "'a word"] bit_and_iff bit_exp_iff dest: bit_imp_le_length)

text \<open>The hexadecimal masks of the sources, for reasoning bit by bit.\<close>

lemma mask_literals:
  "0xF = (mask 4 :: 'a::len word)" "0xFF = (mask 8 :: 'a::len word)"
  "0xFFF = (mask 12 :: 'a::len word)" "0xFFFF = (mask 16 :: 'a::len word)"
  "0x3FF = (mask 10 :: 'a::len word)"
  "0xF0 = (push_bit 4 (mask 4) :: 'a::len word)"
  "0xFF0000 = (push_bit 16 (mask 8) :: 'a::len word)"
  "0xF0000 = (push_bit 16 (mask 4) :: 'a::len word)"
  "0xFFFF0000 = (push_bit 16 (mask 16) :: 'a::len word)"
  "0xFFFFF000 = (push_bit 12 (mask 20) :: 'a::len word)"
  "0xFFC00000 = (push_bit 22 (mask 10) :: 'a::len word)"
  "0x003FF000 = (push_bit 12 (mask 10) :: 'a::len word)"
  by (simp_all add: mask_eq_exp_minus_1 push_bit_eq_mult)

end
