(* ===== verification/Bitmap.thy ===== *)
theory Bitmap
  imports Prelude
begin

text \<open>
  The bitmaps of \<^verbatim>\<open>src/lib/kernel/bitmap.c\<close>. A bitmap is an array of bytes and
  its length in bytes; slot \<open>idx\<close> is bit \<open>idx mod 8\<close> of byte \<open>idx div 8\<close>. The C
  array has no bounds checks, so every access is a fallible \<open>rd\<close> or \<open>wr\<close>.
\<close>

record bitmap =
  bm_len :: u32
  bm_bits :: "u8 list"

definition bitmap_init :: "bitmap \<Rightarrow> bitmap" where
  "bitmap_init mp = mp\<lparr>bm_bits := replicate (unat (bm_len mp)) 0 @ drop (unat (bm_len mp)) (bm_bits mp)\<rparr>"

definition bitmap_check_idx :: "bitmap \<Rightarrow> u32 \<Rightarrow> bool res" where
  "bitmap_check_idx mp idx =
     andthen (rd (bm_bits mp) (unat (idx div 8)))
       (\<lambda>b. Inr (b AND push_bit (unat (idx mod 8)) 1 \<noteq> 0))"

text \<open>The inner loop of \<^verbatim>\<open>bitmap_apply_cnt\<close>: are slots \<open>i + j\<close>, \dots, \<open>i + cnt - 1\<close> free?\<close>

function bitmap_run_free :: "bitmap \<Rightarrow> u32 \<Rightarrow> u32 \<Rightarrow> u32 \<Rightarrow> bool res" where
  "bitmap_run_free mp i j cnt =
     (if j < cnt
      then andthen (bitmap_check_idx mp (i + j))
             (\<lambda>used. if used then Inr False else bitmap_run_free mp i (j + 1) cnt)
      else Inr True)"
  by pat_completeness auto
termination
  by (relation "measure (\<lambda>(mp, i, j, cnt). unat cnt - unat j)")
    (auto simp: unat_Suc_lt word_less_nat_alt)

declare bitmap_run_free.simps [simp del]

text \<open>
  The outer loop: the bound is \<^verbatim>\<open>mp->len - cnt\<close> in 32-bit unsigned arithmetic,
  with \<^verbatim>\<open>len\<close> in bytes, and the loop variable is compared with it unsigned.
\<close>

function bitmap_scan :: "bitmap \<Rightarrow> u32 \<Rightarrow> u32 \<Rightarrow> u32 res" where
  "bitmap_scan mp cnt i =
     (if i < bm_len mp - cnt
      then andthen (bitmap_check_idx mp i)
             (\<lambda>used. if used then bitmap_scan mp cnt (i + 1)
                else andthen (bitmap_run_free mp i 1 cnt)
                       (\<lambda>free. if free then Inr i else bitmap_scan mp cnt (i + 1)))
      else Inr (- 1))"
  by pat_completeness auto
termination
  by (relation "measure (\<lambda>(mp, cnt, i). unat (bm_len mp - cnt) - unat i)")
    (auto simp: unat_Suc_lt word_less_nat_alt)

declare bitmap_scan.simps [simp del]

definition bitmap_apply_cnt :: "bitmap \<Rightarrow> u32 \<Rightarrow> u32 res" where
  "bitmap_apply_cnt mp cnt = bitmap_scan mp cnt 0"

definition bitmap_set_idx :: "bitmap \<Rightarrow> u32 \<Rightarrow> u8 \<Rightarrow> bitmap res" where
  "bitmap_set_idx mp idx value =
     andthen (assert_c ''(value == 0) || (value == 1)'' (value = 0 \<or> value = 1)) (\<lambda>_.
     andthen (rd (bm_bits mp) (unat (idx div 8))) (\<lambda>b.
     andthen (wr (bm_bits mp) (unat (idx div 8))
                (if value = 0 then b AND NOT (push_bit (unat (idx mod 8)) 1)
                 else b OR push_bit (unat (idx mod 8)) 1)) (\<lambda>bs.
     Inr (mp\<lparr>bm_bits := bs\<rparr>))))"

text \<open>
  The marking loops of \<^verbatim>\<open>vaddr_get\<close> and \<^verbatim>\<open>vaddr_remove\<close>: slots
  \<open>start + count\<close> up to \<open>start + cnt - 1\<close> get \<open>value\<close>.
\<close>

function bitmap_set_run :: "bitmap \<Rightarrow> u32 \<Rightarrow> u32 \<Rightarrow> u32 \<Rightarrow> u8 \<Rightarrow> bitmap res" where
  "bitmap_set_run mp start count cnt value =
     (if count < cnt
      then andthen (bitmap_set_idx mp (start + count) value)
             (\<lambda>mp'. bitmap_set_run mp' start (count + 1) cnt value)
      else Inr mp)"
  by pat_completeness auto
termination
  by (relation "measure (\<lambda>(mp, start, count, cnt, value). unat cnt - unat count)")
    (auto simp: unat_Suc_lt word_less_nat_alt)

declare bitmap_set_run.simps [simp del]

subsection \<open>Invariant and abstraction\<close>

text \<open>A well-formed bitmap owns exactly \<^verbatim>\<open>len\<close> bytes; its abstraction says which slots are in use.\<close>

definition wf_bitmap :: "bitmap \<Rightarrow> bool" where
  "wf_bitmap mp \<longleftrightarrow> length (bm_bits mp) = unat (bm_len mp)"

definition bm_slots :: "bitmap \<Rightarrow> nat" where
  "bm_slots mp = 8 * unat (bm_len mp)"

definition bm_used :: "bitmap \<Rightarrow> nat \<Rightarrow> bool" where
  "bm_used mp k = bit (bm_bits mp ! (k div 8)) (k mod 8)"

definition free_run :: "bitmap \<Rightarrow> nat \<Rightarrow> nat \<Rightarrow> bool" where
  "free_run mp n i \<longleftrightarrow> list_all (\<lambda>k. \<not> bm_used mp (i + k)) [0..<n]"

lemma free_run_iff: "free_run mp n i \<longleftrightarrow> (\<forall>k<n. \<not> bm_used mp (i + k))"
  by (auto simp: free_run_def list_all_iff)

lemma free_run_split:
  "0 < n \<Longrightarrow> free_run mp n i \<longleftrightarrow> \<not> bm_used mp i \<and> (\<forall>k. 1 \<le> k \<and> k < n \<longrightarrow> \<not> bm_used mp (i + k))"
  unfolding free_run_iff by (metis add.right_neutral less_one linorder_not_less)

lemma bitmap_check_idx_used:
  assumes "wf_bitmap mp" and "unat idx < bm_slots mp"
  shows "bitmap_check_idx mp idx = Inr (bm_used mp (unat idx))"
  using assms
  by (simp add: bitmap_check_idx_def wf_bitmap_def bm_slots_def bm_used_def unat_div unat_mod
      and_exp_ne_0 less_mult_imp_div_less mult.commute)

lemma bitmap_init_free:
  assumes "wf_bitmap mp" and "k < bm_slots mp"
  shows "\<not> bm_used (bitmap_init mp) k"
  using assms
  by (simp add: bitmap_init_def bm_used_def wf_bitmap_def bm_slots_def less_mult_imp_div_less
      mult.commute)

lemma wf_bitmap_init [wf_intros]: "wf_bitmap mp \<Longrightarrow> wf_bitmap (bitmap_init mp)"
  by (simp add: wf_bitmap_def bitmap_init_def)

lemma bitmap_set_idx_spec:
  assumes wf: "wf_bitmap mp" and idx: "unat idx < bm_slots mp" and v: "value = 0 \<or> value = 1"
  obtains mp' where "bitmap_set_idx mp idx value = Inr mp'" and "wf_bitmap mp'"
    and "bm_slots mp' = bm_slots mp" and "bm_len mp' = bm_len mp"
    and "\<And>k. bm_used mp' k = (if k = unat idx then value = 1 else bm_used mp k)"
proof -
  let ?i = "unat idx div 8" and ?j = "unat idx mod 8"
  let ?b = "bm_bits mp ! ?i"
  let ?nb = "if value = 0 then ?b AND NOT (2 ^ ?j) else ?b OR 2 ^ ?j"
  let ?mp = "mp\<lparr>bm_bits := (bm_bits mp)[?i := ?nb]\<rparr>"
  from wf idx have i: "?i < length (bm_bits mp)"
    by (simp add: wf_bitmap_def bm_slots_def less_mult_imp_div_less mult.commute)
  have run: "bitmap_set_idx mp idx value = Inr ?mp"
    using i v by (auto simp: bitmap_set_idx_def unat_div unat_mod)
  have bit_nb: "bit ?nb m = (if m = ?j then value = 1 else bit ?b m)" if "m < 8" for m
    using v that by (auto simp: bit_and_iff bit_or_iff bit_not_iff bit_exp_iff)
  have used: "bm_used ?mp k = (if k = unat idx then value = 1 else bm_used mp k)" for k
  proof (cases "k div 8 = ?i")
    case True
    then have "k mod 8 = ?j \<longleftrightarrow> k = unat idx" by (metis div_mult_mod_eq)
    with True i bit_nb [of "k mod 8"] show ?thesis by (simp add: bm_used_def)
  next
    case False
    with i show ?thesis by (auto simp: bm_used_def)
  qed
  show ?thesis
    by (rule that [OF run _ _ _ used]) (use wf in \<open>simp_all add: wf_bitmap_def bm_slots_def\<close>)
qed

subsection \<open>The search for a free run\<close>

lemma bitmap_run_free_spec:
  assumes "wf_bitmap mp" and "unat i + unat cnt \<le> unat (bm_len mp)"
  shows "bitmap_run_free mp i j cnt =
    Inr (\<forall>k. unat j \<le> k \<and> k < unat cnt \<longrightarrow> \<not> bm_used mp (unat i + k))"
  using assms
proof (induction mp i j cnt rule: bitmap_run_free.induct)
  case (1 mp i j cnt)
  show ?case
  proof (cases "j < cnt")
    case True
    then have jc: "unat j < unat cnt" by (simp add: word_less_nat_alt)
    with "1.prems" have ij: "unat (i + j) = unat i + unat j"
      by (intro unat_add_lt) (use unat_u32_lt [of "bm_len mp"] in simp)
    with jc "1.prems" have chk: "bitmap_check_idx mp (i + j) = Inr (bm_used mp (unat i + unat j))"
      by (subst bitmap_check_idx_used) (simp_all add: bm_slots_def)
    show ?thesis
    proof (cases "bm_used mp (unat i + unat j)")
      case used: True
      have "bitmap_run_free mp i j cnt = Inr False"
        by (subst bitmap_run_free.simps) (simp add: True chk used)
      with jc used show ?thesis by auto
    next
      case free: False
      have "bitmap_run_free mp i j cnt = bitmap_run_free mp i (j + 1) cnt"
        by (subst bitmap_run_free.simps) (simp add: True chk free)
      also have "\<dots> = Inr (\<forall>k. Suc (unat j) \<le> k \<and> k < unat cnt \<longrightarrow> \<not> bm_used mp (unat i + k))"
        using "1.IH" [OF True chk] "1.prems" free by (simp add: unat_Suc_lt [OF True])
      also have "(\<forall>k. Suc (unat j) \<le> k \<and> k < unat cnt \<longrightarrow> \<not> bm_used mp (unat i + k)) \<longleftrightarrow>
          (\<forall>k. unat j \<le> k \<and> k < unat cnt \<longrightarrow> \<not> bm_used mp (unat i + k))"
        using free by (metis Suc_leD Suc_leI le_neq_implies_less)
      finally show ?thesis .
    qed
  next
    case False
    then have "unat cnt \<le> unat j" by (simp add: word_less_nat_alt)
    then show ?thesis using False by (subst bitmap_run_free.simps) auto
  qed
qed

text \<open>
  The reference the search is compared with: the first slot below \<open>len - cnt\<close> (a
  count of bytes) at which \<open>cnt\<close> consecutive slots are free.
\<close>

definition first_fit :: "bitmap \<Rightarrow> nat \<Rightarrow> nat \<Rightarrow> nat option" where
  "first_fit mp n i = find (free_run mp n) [i..<unat (bm_len mp) - n]"

definition fit_result :: "nat option \<Rightarrow> u32" where
  "fit_result r = (case r of None \<Rightarrow> - 1 | Some i \<Rightarrow> word_of_nat i)"

lemma first_fit_step:
  "i < unat (bm_len mp) - n \<Longrightarrow>
   first_fit mp n i = (if free_run mp n i then Some i else first_fit mp n (Suc i))"
  by (simp add: first_fit_def upt_conv_Cons)

lemma bitmap_scan_first_fit:
  assumes "wf_bitmap mp" and "0 < cnt" and "cnt \<le> bm_len mp"
  shows "bitmap_scan mp cnt i = Inr (fit_result (first_fit mp (unat cnt) (unat i)))"
  using assms
proof (induction mp cnt i rule: bitmap_scan.induct)
  case (1 mp cnt i)
  have bound: "unat (bm_len mp - cnt) = unat (bm_len mp) - unat cnt"
    using "1.prems" by (simp add: unat_sub)
  have cnt0: "0 < unat cnt" using "1.prems" by (simp add: word_less_nat_alt)
  show ?case
  proof (cases "i < bm_len mp - cnt")
    case True
    then have ib: "unat i < unat (bm_len mp) - unat cnt"
      using bound by (simp add: word_less_nat_alt)
    have chk: "bitmap_check_idx mp i = Inr (bm_used mp (unat i))"
      using "1.prems" ib by (intro bitmap_check_idx_used) (simp_all add: bm_slots_def)
    have run: "bitmap_run_free mp i 1 cnt =
        Inr (\<forall>k. 1 \<le> k \<and> k < unat cnt \<longrightarrow> \<not> bm_used mp (unat i + k))"
      using "1.prems" ib by (subst bitmap_run_free_spec) simp_all
    have Suc: "unat (i + 1) = Suc (unat i)" by (rule unat_Suc_lt [OF True])
    show ?thesis
    proof (cases "free_run mp (unat cnt) (unat i)")
      case free: True
      then have "bitmap_scan mp cnt i = Inr i"
        using run by (subst bitmap_scan.simps) (simp add: True chk free_run_split [OF cnt0])
      with ib free show ?thesis by (simp add: first_fit_step fit_result_def)
    next
      case busy: False
      then have "bitmap_scan mp cnt i = bitmap_scan mp cnt (i + 1)"
        using run by (subst bitmap_scan.simps) (auto simp add: True chk free_run_split [OF cnt0])
      moreover have "bitmap_scan mp cnt (i + 1) =
          Inr (fit_result (first_fit mp (unat cnt) (Suc (unat i))))"
      proof (cases "bm_used mp (unat i)")
        case u: True
        show ?thesis using "1.IH"(1) [OF True chk] u "1.prems" Suc by simp
      next
        case u: False
        show ?thesis
          using "1.IH"(2) [OF True chk _ run] u busy "1.prems" Suc
          by (simp add: free_run_split [OF cnt0])
      qed
      ultimately show ?thesis using ib busy by (simp add: first_fit_step)
    qed
  next
    case False
    then have "unat (bm_len mp) - unat cnt \<le> unat i"
      using bound by (simp add: word_less_nat_alt)
    with False show ?thesis
      by (subst bitmap_scan.simps) (simp add: first_fit_def fit_result_def)
  qed
qed

text \<open>C36.
  \<^verbatim>\<open>bitmap_apply_cnt\<close> computes the first fit: for a positive count that does not
  exceed the byte length it never faults, and returns the least start below
  \<open>len - cnt\<close> whose \<open>cnt\<close> slots are all free, or \<open>-1\<close> when there is none.
\<close>

theorem bitmap_apply_cnt_first_fit:
  assumes "wf_bitmap mp" and "0 < cnt" and "cnt \<le> bm_len mp"
  shows "bitmap_apply_cnt mp cnt = Inr (fit_result (first_fit mp (unat cnt) 0))"
  using bitmap_scan_first_fit [OF assms, of 0] by (simp add: bitmap_apply_cnt_def)

theorem bitmap_apply_cnt_first_fit_witness:
  "bitmap_apply_cnt \<lparr>bm_len = 4, bm_bits = [5, 0, 0, 0]\<rparr> 2 =
     Inr (fit_result (first_fit \<lparr>bm_len = 4, bm_bits = [5, 0, 0, 0]\<rparr> (unat (2 :: u32)) 0))"
  by (rule bitmap_apply_cnt_first_fit) (simp_all add: wf_bitmap_def)

lemma first_fit_Some:
  assumes "first_fit mp n 0 = Some i"
  shows "i < unat (bm_len mp) - n" and "free_run mp n i" and "\<And>j. j < i \<Longrightarrow> \<not> free_run mp n j"
proof -
  from assms obtain k where k: "k < unat (bm_len mp) - n" "free_run mp n k" "i = k"
    "\<forall>j<k. \<not> free_run mp n j"
    by (auto simp: first_fit_def find_Some_iff)
  then show "i < unat (bm_len mp) - n" "free_run mp n i" "\<And>j. j < i \<Longrightarrow> \<not> free_run mp n j"
    by auto
qed

lemma first_fit_None:
  "first_fit mp n 0 = None \<longleftrightarrow> (\<forall>i < unat (bm_len mp) - n. \<not> free_run mp n i)"
  by (auto simp: first_fit_def find_None_iff)

lemma fit_result_Some:
  assumes "first_fit mp n 0 = Some i"
  shows "unat (fit_result (Some i)) = i" and "fit_result (Some i) \<noteq> - 1"
proof -
  have i: "i < unat (bm_len mp)" using first_fit_Some(1) [OF assms] by simp
  then have lt: "i < 4294967295" using unat_u32_lt [of "bm_len mp"] by simp
  then show u: "unat (fit_result (Some i)) = i"
    by (simp add: fit_result_def unat_of_nat)
  have "unat (- 1 :: u32) = 4294967295" by (simp add: unsigned_minus_1_eq_mask mask_eq_exp_minus_1)
  with u lt show "fit_result (Some i) \<noteq> - 1" by auto
qed

text \<open>
  Only the first \<open>len - 1\<close> slots of a bitmap with \<open>8 * len\<close> slots can ever be
  handed out one at a time: once they are in use the search for a single slot reports
  failure, whatever the other \<open>7 * len + 1\<close> slots hold. (\<^verbatim>\<open>len\<close> counts bytes, the
  loop of \<^verbatim>\<open>bitmap_apply_cnt\<close> uses it as a bound on bit indices.)
\<close>

theorem bitmap_apply_cnt_upper_slots_lost:
  assumes "wf_bitmap mp" and "1 \<le> bm_len mp"
    and "\<forall>k < unat (bm_len mp) - 1. bm_used mp k"
  shows "bitmap_apply_cnt mp 1 = Inr (- 1)"
proof -
  have "first_fit mp 1 0 = None"
    using assms(3) by (auto simp: first_fit_None free_run_iff)
  then show ?thesis
    using bitmap_scan_first_fit [OF assms(1) _ assms(2), of 0]
    by (simp add: bitmap_apply_cnt_def fit_result_def)
qed

theorem bitmap_apply_cnt_upper_slots_lost_witness:
  "bitmap_apply_cnt \<lparr>bm_len = 4, bm_bits = [7, 0, 0, 0]\<rparr> 1 = Inr (- 1)"
proof (rule bitmap_apply_cnt_upper_slots_lost)
  show "\<forall>k < unat (bm_len \<lparr>bm_len = 4, bm_bits = [7, 0, 0, 0]\<rparr>) - 1.
      bm_used \<lparr>bm_len = 4, bm_bits = [7, 0, 0, 0]\<rparr> k"
    by (auto simp: bm_used_def less_Suc_eq numeral_3_eq_3 bit_iff_odd)
qed (simp_all add: wf_bitmap_def)

lemma bitmap_check_idx_out:
  "wf_bitmap mp \<Longrightarrow> bm_slots mp \<le> unat idx \<Longrightarrow> bitmap_check_idx mp idx = Inl OutOfBounds"
  by (auto simp: bitmap_check_idx_def wf_bitmap_def bm_slots_def unat_div)

lemma bitmap_run_free_total:
  "wf_bitmap mp \<Longrightarrow> bitmap_run_free mp i j cnt \<in> {Inl OutOfBounds, Inr True, Inr False}"
proof (induction mp i j cnt rule: bitmap_run_free.induct)
  case (1 mp i j cnt)
  consider (out) "bitmap_check_idx mp (i + j) = Inl OutOfBounds"
    | (set) "bitmap_check_idx mp (i + j) = Inr True"
    | (clear) "bitmap_check_idx mp (i + j) = Inr False"
    using bitmap_check_idx_used [OF "1.prems", of "i + j"] bitmap_check_idx_out [OF "1.prems", of "i + j"]
    by (cases "unat (i + j) < bm_slots mp"; cases "bm_used mp (unat (i + j))") auto
  then show ?case
  proof cases
    case clear
    show ?thesis
      using "1.IH" [OF _ clear] "1.prems" by (cases "j < cnt") (simp_all add: clear bitmap_run_free.simps [of mp i j])
  qed (simp_all add: bitmap_run_free.simps [of mp i j])
qed

lemma bitmap_scan_overrun:
  assumes "wf_bitmap mp" and "bm_slots mp < unat (bm_len mp - cnt)" and "unat i \<le> bm_slots mp"
  shows "bitmap_scan mp cnt i = Inl OutOfBounds \<or>
    (\<exists>r. bitmap_scan mp cnt i = Inr r \<and> unat r < bm_slots mp)"
  using assms
proof (induction mp cnt i rule: bitmap_scan.induct)
  case (1 mp cnt i)
  then have lt: "i < bm_len mp - cnt" by (simp add: word_less_nat_alt)
  show ?case
  proof (cases "unat i < bm_slots mp")
    case True
    then have chk: "bitmap_check_idx mp i = Inr (bm_used mp (unat i))"
      using "1.prems" by (intro bitmap_check_idx_used) simp_all
    note unfold = bitmap_scan.simps [of mp cnt i]
    consider (used) "bm_used mp (unat i)"
      | (out) "\<not> bm_used mp (unat i)" "bitmap_run_free mp i 1 cnt = Inl OutOfBounds"
      | (fit) "\<not> bm_used mp (unat i)" "bitmap_run_free mp i 1 cnt = Inr True"
      | (busy) "\<not> bm_used mp (unat i)" "bitmap_run_free mp i 1 cnt = Inr False"
      using bitmap_run_free_total [OF "1.prems"(1), of i 1 cnt] by auto
    then show ?thesis
    proof cases
      case used
      with "1.IH"(1) [OF lt chk] "1.prems" True show ?thesis
        by (simp add: unfold lt chk unat_Suc_lt [OF lt])
    next
      case busy
      with "1.IH"(2) [OF lt chk _ busy(2)] "1.prems" True show ?thesis
        by (simp add: unfold lt chk unat_Suc_lt [OF lt])
    qed (use True in \<open>simp_all add: unfold lt chk\<close>)
  next
    case False
    then have "bitmap_scan mp cnt i = Inl OutOfBounds"
      using "1.prems" by (subst bitmap_scan.simps) (simp add: lt bitmap_check_idx_out)
    then show ?thesis ..
  qed
qed

text \<open>When more slots are asked for than the bitmap has bytes, the bound \<open>len - cnt\<close>
  wraps around and the search never reports failure: it finds a run or it leaves the
  array. The hypotheses cover the page bitmaps of the kernel, whose requests stay
  below the 3840 pages that \<^verbatim>\<open>malloc_page\<close> admits.
\<close>

theorem bitmap_apply_cnt_overrun:
  assumes "wf_bitmap mp" and "bm_len mp < cnt" and "cnt < 3840" and "bm_len mp \<le> 65536"
  shows "bitmap_apply_cnt mp cnt = Inl OutOfBounds \<or>
    (\<exists>r. bitmap_apply_cnt mp cnt = Inr r \<and> unat r < bm_slots mp)"
proof -
  have "unat (bm_len mp - cnt) = unat (bm_len mp) + 4294967296 - unat cnt"
    using assms(2) by (simp add: unat_sub_if' word_less_nat_alt)
  moreover have "unat cnt < 3840" "unat (bm_len mp) \<le> 65536"
    using assms(3,4) by (simp_all add: word_less_nat_alt word_le_nat_alt)
  ultimately have "bm_slots mp < unat (bm_len mp - cnt)"
    by (simp add: bm_slots_def)
  then show ?thesis
    using bitmap_scan_overrun [OF assms(1), of cnt 0] by (simp add: bitmap_apply_cnt_def)
qed

theorem bitmap_apply_cnt_overrun_witness:
  "bitmap_apply_cnt \<lparr>bm_len = 1, bm_bits = [255]\<rparr> 2 = Inl OutOfBounds \<or>
    (\<exists>r. bitmap_apply_cnt \<lparr>bm_len = 1, bm_bits = [255]\<rparr> 2 = Inr r \<and>
         unat r < bm_slots \<lparr>bm_len = 1, bm_bits = [255]\<rparr>)"
  by (rule bitmap_apply_cnt_overrun) (simp_all add: wf_bitmap_def)

subsection \<open>Marking runs of slots\<close>

lemma bitmap_set_run_spec:
  assumes "wf_bitmap mp" and "unat start + unat cnt \<le> bm_slots mp"
    and "unat start + unat cnt < 2 ^ 32" and "value = 0 \<or> value = 1"
  shows "\<exists>mp'. bitmap_set_run mp start count cnt value = Inr mp' \<and> wf_bitmap mp' \<and>
    bm_slots mp' = bm_slots mp \<and> bm_len mp' = bm_len mp \<and>
    (\<forall>k. bm_used mp' k =
       (if unat start + unat count \<le> k \<and> k < unat start + unat cnt then value = 1 else bm_used mp k))"
  using assms
proof (induction mp start count cnt "value" rule: bitmap_set_run.induct)
  case (1 mp start count cnt "value")
  show ?case
  proof (cases "count < cnt")
    case True
    then have cc: "unat count < unat cnt" by (simp add: word_less_nat_alt)
    with "1.prems" have sc: "unat (start + count) = unat start + unat count"
      by (intro unat_add_lt) simp
    from cc sc "1.prems" have "unat (start + count) < bm_slots mp" by simp
    then obtain mp1 where mp1: "bitmap_set_idx mp (start + count) value = Inr mp1" "wf_bitmap mp1"
      "bm_slots mp1 = bm_slots mp" "bm_len mp1 = bm_len mp"
      "\<And>k. bm_used mp1 k = (if k = unat (start + count) then value = 1 else bm_used mp k)"
      using bitmap_set_idx_spec [OF "1.prems"(1) _ "1.prems"(4)] by blast
    have "bitmap_set_run mp start count cnt value = bitmap_set_run mp1 start (count + 1) cnt value"
      by (subst bitmap_set_run.simps) (simp add: True mp1(1))
    moreover obtain mp2 where "bitmap_set_run mp1 start (count + 1) cnt value = Inr mp2" "wf_bitmap mp2"
      "bm_slots mp2 = bm_slots mp1" "bm_len mp2 = bm_len mp1"
      "\<And>k. bm_used mp2 k = (if unat start + Suc (unat count) \<le> k \<and> k < unat start + unat cnt
           then value = 1 else bm_used mp1 k)"
      using "1.IH" [OF True mp1(1)] "1.prems" mp1 by (auto simp: unat_Suc_lt [OF True])
    ultimately show ?thesis using mp1 sc cc by (auto simp: not_le not_less)
  next
    case False
    then have "unat cnt \<le> unat count" by (simp add: word_less_nat_alt)
    with False "1.prems" show ?thesis by (subst bitmap_set_run.simps) auto
  qed
qed

subsection \<open>The interface to the allocators\<close>

text \<open>
  What the page allocator, the virtual-address allocator and the pid pool rely on: a
  pool of numbered slots with a search for a run of free slots and a way to mark one.
\<close>

locale slot_pool =
  fixes wf :: "'m \<Rightarrow> bool"
    and slots :: "'m \<Rightarrow> nat"
    and fits :: "'m \<Rightarrow> u32 \<Rightarrow> bool"
    and used :: "'m \<Rightarrow> nat \<Rightarrow> bool"
    and find_run :: "'m \<Rightarrow> u32 \<Rightarrow> u32 res"
    and mark :: "'m \<Rightarrow> u32 \<Rightarrow> u8 \<Rightarrow> 'm res"
  assumes find_total: "wf m \<Longrightarrow> fits m n \<Longrightarrow> \<exists>i. find_run m n = Inr i"
    and find_sound: "wf m \<Longrightarrow> fits m n \<Longrightarrow> find_run m n = Inr i \<Longrightarrow> i \<noteq> - 1 \<Longrightarrow>
      unat i + unat n \<le> slots m \<and> unat i + unat n < 2 ^ 32 \<and> (\<forall>k < unat n. \<not> used m (unat i + k))"
    and mark_ok: "wf m \<Longrightarrow> unat i < slots m \<Longrightarrow> v = 0 \<or> v = 1 \<Longrightarrow>
      \<exists>m'. mark m i v = Inr m' \<and> wf m' \<and> slots m' = slots m \<and> fits m' = fits m \<and>
        used m' = (used m)(unat i := (v = 1))"
begin

lemma claim_fresh:
  assumes "wf m" and "fits m 1" and "find_run m 1 = Inr i" and "i \<noteq> - 1"
  shows "\<exists>m'. mark m i 1 = Inr m' \<and> wf m' \<and> slots m' = slots m \<and> fits m' = fits m \<and>
    unat i < slots m \<and> \<not> used m (unat i) \<and> used m' = (used m)(unat i := True)"
proof -
  have i: "unat i < slots m" "\<not> used m (unat i)"
    using find_sound [OF assms] by auto
  with mark_ok [OF assms(1) i(1), of 1] show ?thesis by auto
qed

lemma claim_release:
  assumes "wf m" and "fits m 1" and "find_run m 1 = Inr i" and "i \<noteq> - 1"
  shows "\<exists>m' m''. mark m i 1 = Inr m' \<and> mark m' i 0 = Inr m'' \<and> used m'' = used m"
proof -
  obtain m' where m': "mark m i 1 = Inr m'" "wf m'" "slots m' = slots m" "unat i < slots m"
    "\<not> used m (unat i)" "used m' = (used m)(unat i := True)"
    using claim_fresh [OF assms] by blast
  then obtain m'' where "mark m' i 0 = Inr m''" "used m'' = (used m')(unat i := False)"
    using mark_ok [of m' i 0] by auto
  with m' show ?thesis by (auto simp: fun_eq_iff)
qed

end

definition bm_fits :: "bitmap \<Rightarrow> u32 \<Rightarrow> bool" where
  "bm_fits mp n \<longleftrightarrow> 0 < n \<and> n \<le> bm_len mp"

interpretation bm: slot_pool wf_bitmap bm_slots bm_fits bm_used bitmap_apply_cnt bitmap_set_idx
proof
  fix m n
  assume "wf_bitmap m" "bm_fits m n"
  then show "\<exists>i. bitmap_apply_cnt m n = Inr i"
    using bitmap_scan_first_fit [of m n 0] by (simp add: bitmap_apply_cnt_def bm_fits_def)
next
  fix m n i
  assume m: "wf_bitmap m" "bm_fits m n" "bitmap_apply_cnt m n = Inr i" "i \<noteq> - 1"
  then have i: "i = fit_result (first_fit m (unat n) 0)"
    using bitmap_scan_first_fit [of m n 0] by (simp add: bitmap_apply_cnt_def bm_fits_def)
  with m(4) obtain k where k: "first_fit m (unat n) 0 = Some k"
    by (cases "first_fit m (unat n) 0") (auto simp: fit_result_def)
  then have "k + unat n < unat (bm_len m)" "unat i = k"
    using i first_fit_Some(1) [OF k] fit_result_Some(1) [OF k] by simp_all
  with first_fit_Some(2) [OF k] show "unat i + unat n \<le> bm_slots m \<and> unat i + unat n < 2 ^ 32 \<and>
      (\<forall>k < unat n. \<not> bm_used m (unat i + k))"
    using unat_u32_lt [of "bm_len m"] by (simp add: bm_slots_def free_run_iff)
next
  fix m and i :: u32 and v :: u8
  assume "wf_bitmap m" "unat i < bm_slots m" "v = 0 \<or> v = 1"
  then obtain m' where "bitmap_set_idx m i v = Inr m'" "wf_bitmap m'" "bm_slots m' = bm_slots m"
    "bm_len m' = bm_len m" "\<And>k. bm_used m' k = (if k = unat i then v = 1 else bm_used m k)"
    using bitmap_set_idx_spec by blast
  then show "\<exists>m'. bitmap_set_idx m i v = Inr m' \<and> wf_bitmap m' \<and> bm_slots m' = bm_slots m \<and>
      bm_fits m' = bm_fits m \<and> bm_used m' = (bm_used m)(unat i := (v = 1))"
    by (auto simp: bm_fits_def fun_eq_iff)
qed

text \<open>\<^verbatim>\<open>bitmap_set_idx\<close> and \<^verbatim>\<open>bitmap_check_idx\<close> obey the read-after-write laws:
  inside the bitmap a slot that was set reads back as written, and every other slot
  reads as before.
\<close>

theorem bitmap_check_after_set:
  assumes "wf_bitmap mp" and "unat i < bm_slots mp" and "unat j < bm_slots mp"
    and "value = 0 \<or> value = 1"
  shows "\<exists>mp'. bitmap_set_idx mp i value = Inr mp' \<and>
    bitmap_check_idx mp' j = (if j = i then Inr (value = 1) else bitmap_check_idx mp j)"
proof -
  obtain mp' where "bitmap_set_idx mp i value = Inr mp'" "wf_bitmap mp'" "bm_slots mp' = bm_slots mp"
    "bm_used mp' = (bm_used mp)(unat i := (value = 1))"
    using bm.mark_ok [OF assms(1,2,4)] by blast
  with assms show ?thesis
    by (auto simp: bitmap_check_idx_used word_unat_eq_iff)
qed

theorem bitmap_check_after_set_witness:
  "\<exists>mp'. bitmap_set_idx \<lparr>bm_len = 2, bm_bits = [0, 3]\<rparr> 9 0 = Inr mp' \<and>
    bitmap_check_idx mp' 8 = (if (8 :: u32) = 9 then Inr ((0 :: u8) = 1)
      else bitmap_check_idx \<lparr>bm_len = 2, bm_bits = [0, 3]\<rparr> 8)"
  by (rule bitmap_check_after_set) (simp_all add: wf_bitmap_def bm_slots_def)

end
