(* ===== verification/Interrupt.thy ===== *)
theory Interrupt
  imports Prelude
begin

text \<open>
  \<^verbatim>\<open>src/kernel/interrupt.c\<close> and \<^verbatim>\<open>src/userprog/tss.c\<close>: the interrupt flag of
  the processor and the functions that save and restore it, the interrupt descriptor
  table and the table of handlers, and the segment descriptors and task-state segment
  that \<^verbatim>\<open>tss_init\<close> installs. The inline assembly is modelled by its effect:
  \<^verbatim>\<open>sti\<close> and \<^verbatim>\<open>cli\<close> set and clear bit 9 of \<^verbatim>\<open>eflags\<close>, \<^verbatim>\<open>pushfl\<close>
  reads it.
\<close>

subsection \<open>The interrupt flag\<close>

datatype intr_status = INTR_OFF | INTR_ON

record cpu =
  eflags :: u32

definition EFLAGS_IF :: u32 where "EFLAGS_IF = 0x200"

definition intr_get_status :: "cpu \<Rightarrow> intr_status" where
  "intr_get_status c = (if EFLAGS_IF AND eflags c \<noteq> 0 then INTR_ON else INTR_OFF)"

definition intr_enable :: "cpu \<Rightarrow> intr_status \<times> cpu" where
  "intr_enable c =
     (let old_status = intr_get_status c
      in if old_status = INTR_OFF then (old_status, c\<lparr>eflags := eflags c OR EFLAGS_IF\<rparr>)
         else (old_status, c))"

definition intr_disable :: "cpu \<Rightarrow> intr_status \<times> cpu" where
  "intr_disable c =
     (let old_status = intr_get_status c
      in if old_status = INTR_ON then (old_status, c\<lparr>eflags := eflags c AND NOT EFLAGS_IF\<rparr>)
         else (old_status, c))"

definition intr_set_status :: "intr_status \<Rightarrow> cpu \<Rightarrow> intr_status \<times> cpu" where
  "intr_set_status status c = (if status = INTR_ON then intr_enable c else intr_disable c)"

subsection \<open>Interrupt descriptors and handlers\<close>

record gate_desc =
  func_offset_low_16bit :: u16
  gd_selector :: u16
  gd_dcount :: u8
  gd_attribute :: u8
  func_offset_high_16bit :: u16

definition IDT_DESC_CNT :: nat where "IDT_DESC_CNT = 0x81"
definition SELECTOR_KERNEL_CODE :: u16 where "SELECTOR_KERNEL_CODE = push_bit 3 1 + push_bit 2 0 + 0"
definition SELECTOR_KERNEL_DATA :: u16 where "SELECTOR_KERNEL_DATA = push_bit 3 2 + push_bit 2 0 + 0"
definition IDT_DESC_ATTR_DPL0 :: u8 where "IDT_DESC_ATTR_DPL0 = push_bit 7 1 + push_bit 5 0 + 0xE"
definition IDT_DESC_ATTR_DPL3 :: u8 where "IDT_DESC_ATTR_DPL3 = push_bit 7 1 + push_bit 5 3 + 0xE"

definition make_idt_desc :: "u32 \<Rightarrow> u8 \<Rightarrow> gate_desc" where
  "make_idt_desc func attribute =
     \<lparr>func_offset_low_16bit = ucast (func AND 0x0000FFFF),
      gd_selector = SELECTOR_KERNEL_CODE,
      gd_dcount = 0,
      gd_attribute = attribute,
      func_offset_high_16bit = ucast (drop_bit 16 (func AND 0xFFFF0000))\<rparr>"

text \<open>\<open>intr_entry_table\<close> and \<open>syscall_handler\<close> are the assembly entry points of \<^verbatim>\<open>kernel.asm\<close>.\<close>

definition idt_init :: "(nat \<Rightarrow> u32) \<Rightarrow> u32 \<Rightarrow> gate_desc list" where
  "idt_init intr_entry_table syscall_handler =
     (map (\<lambda>i. make_idt_desc (intr_entry_table i) IDT_DESC_ATTR_DPL0) [0..<IDT_DESC_CNT])
       [IDT_DESC_CNT - 1 := make_idt_desc syscall_handler IDT_DESC_ATTR_DPL3]"

text \<open>The processor takes the handler's address from the two halves of a gate.\<close>

definition gate_target :: "gate_desc \<Rightarrow> u32" where
  "gate_target g = ucast (func_offset_low_16bit g) OR push_bit 16 (ucast (func_offset_high_16bit g))"

definition gate_dpl :: "gate_desc \<Rightarrow> u8" where
  "gate_dpl g = drop_bit 5 (gd_attribute g) AND 3"

subsection \<open>Segment descriptors\<close>

record gdt_desc =
  limit_low_word :: u16
  base_low_word :: u16
  base_mid_byte :: u8
  attr_low_byte :: u8
  limit_high_attr_high :: u8
  base_high_byte :: u8

definition make_gdt_desc :: "u32 \<Rightarrow> u32 \<Rightarrow> u8 \<Rightarrow> u8 \<Rightarrow> gdt_desc" where
  "make_gdt_desc desc_addr limit attr_low attr_high =
     \<lparr>limit_low_word = ucast (limit AND 0x0000ffff),
      base_low_word = ucast (desc_addr AND 0x0000ffff),
      base_mid_byte = ucast (drop_bit 16 (desc_addr AND 0x00ff0000)),
      attr_low_byte = attr_low,
      limit_high_attr_high = ucast (drop_bit 16 (limit AND 0x000f0000) + ucast attr_high),
      base_high_byte = ucast (drop_bit 24 desc_addr)\<rparr>"

definition GDT_ATTR_HIGH :: u8 where
  "GDT_ATTR_HIGH = push_bit 7 1 + push_bit 6 1 + push_bit 5 0 + push_bit 4 0"
definition GDT_CODE_ATTR_LOW_DPL3 :: u8 where
  "GDT_CODE_ATTR_LOW_DPL3 = push_bit 7 1 + push_bit 5 3 + push_bit 4 1 + 8"
definition GDT_DATA_ATTR_LOW_DPL3 :: u8 where
  "GDT_DATA_ATTR_LOW_DPL3 = push_bit 7 1 + push_bit 5 3 + push_bit 4 1 + 2"
definition TSS_ATTR_HIGH :: u8 where
  "TSS_ATTR_HIGH = push_bit 7 1 + push_bit 6 0 + push_bit 5 0 + push_bit 4 0 + 0x0"
definition TSS_ATTR_LOW :: u8 where
  "TSS_ATTR_LOW = push_bit 7 1 + push_bit 5 0 + push_bit 4 0 + 9"

text \<open>How the processor reads a descriptor: base, limit and privilege level.\<close>

definition desc_base :: "gdt_desc \<Rightarrow> u32" where
  "desc_base d = ucast (base_low_word d) OR push_bit 16 (ucast (base_mid_byte d))
     OR push_bit 24 (ucast (base_high_byte d))"

definition desc_limit :: "gdt_desc \<Rightarrow> u32" where
  "desc_limit d = ucast (limit_low_word d) OR push_bit 16 (ucast (limit_high_attr_high d AND 0x0f))"

definition desc_attr_high :: "gdt_desc \<Rightarrow> u8" where
  "desc_attr_high d = limit_high_attr_high d AND 0xf0"

definition desc_dpl :: "gdt_desc \<Rightarrow> u8" where
  "desc_dpl d = drop_bit 5 (attr_low_byte d) AND 3"

record tss =
  tss_backlink :: u32
  tss_esp0 :: u32
  tss_ss0 :: u32
  tss_esp1 :: u32
  tss_ss1 :: u32
  tss_esp2 :: u32
  tss_ss2 :: u32
  tss_cr3 :: u32
  tss_eip :: u32
  tss_eflags :: u32
  tss_eax :: u32
  tss_ecx :: u32
  tss_edx :: u32
  tss_ebx :: u32
  tss_esp :: u32
  tss_ebp :: u32
  tss_esi :: u32
  tss_edi :: u32
  tss_es :: u32
  tss_cs :: u32
  tss_ss :: u32
  tss_ds :: u32
  tss_fs :: u32
  tss_gs :: u32
  tss_ldt :: u32
  tss_trace :: u32
  tss_io_base :: u32

text \<open>The structure has 27 words of 4 bytes; \<open>tss_zero\<close> is what \<^verbatim>\<open>memset\<close> leaves.\<close>

definition tss_size :: u32 where "tss_size = 27 * 4"

definition tss_zero :: tss where
  "tss_zero = \<lparr>tss_backlink = 0, tss_esp0 = 0, tss_ss0 = 0, tss_esp1 = 0, tss_ss1 = 0, tss_esp2 = 0,
     tss_ss2 = 0, tss_cr3 = 0, tss_eip = 0, tss_eflags = 0, tss_eax = 0, tss_ecx = 0, tss_edx = 0,
     tss_ebx = 0, tss_esp = 0, tss_ebp = 0, tss_esi = 0, tss_edi = 0, tss_es = 0, tss_cs = 0,
     tss_ss = 0, tss_ds = 0, tss_fs = 0, tss_gs = 0, tss_ldt = 0, tss_trace = 0, tss_io_base = 0\<rparr>"

definition update_tss_esp :: "u32 \<Rightarrow> tss \<Rightarrow> tss" where
  "update_tss_esp thread t = t\<lparr>tss_esp0 := thread + 4096\<rparr>"

text \<open>
  \<^verbatim>\<open>tss_init\<close> for a task-state segment at \<open>tss_addr\<close>: descriptors 4, 5 and 6 of the
  table at 0xc0000900 (8 bytes each, hence the addresses 0xc0000920, ...28 and ...30) and
  the operand of \<^verbatim>\<open>lgdt\<close>.
\<close>

definition tss_init :: "u32 \<Rightarrow> gdt_desc list \<Rightarrow> tss \<times> gdt_desc list \<times> 64 word" where
  "tss_init tss_addr gdt =
     (tss_zero\<lparr>tss_ss0 := ucast SELECTOR_KERNEL_DATA, tss_io_base := tss_size\<rparr>,
      gdt[4 := make_gdt_desc tss_addr (tss_size - 1) TSS_ATTR_LOW TSS_ATTR_HIGH,
          5 := make_gdt_desc 0 0xfffff GDT_CODE_ATTR_LOW_DPL3 GDT_ATTR_HIGH,
          6 := make_gdt_desc 0 0xfffff GDT_DATA_ATTR_LOW_DPL3 GDT_ATTR_HIGH],
      (8 * 7 - 1) OR push_bit 16 (ucast (0xc0000900 :: u32)))"

subsection \<open>The interrupt flag is restored\<close>

lemma intr_get_status_enable [simp]: "intr_get_status (snd (intr_enable c)) = INTR_ON"
  by (simp add: intr_enable_def intr_get_status_def EFLAGS_IF_def Let_def)

lemma fst_intr_disable [simp]: "fst (intr_disable c) = intr_get_status c"
  by (simp add: intr_disable_def Let_def)

lemma EFLAGS_IF_bit: "EFLAGS_IF = 2 ^ 9"
  by (simp add: EFLAGS_IF_def)

lemma IF_set_iff: "intr_get_status c = INTR_ON \<longleftrightarrow> bit (eflags c) 9"
  unfolding intr_get_status_def EFLAGS_IF_bit
  by (subst and.commute, subst and_exp_ne_0) simp

lemma IF_clear_iff: "intr_get_status c = INTR_OFF \<longleftrightarrow> \<not> bit (eflags c) 9"
  using IF_set_iff [of c] by (cases "intr_get_status c") auto

lemma intr_get_status_disable [simp]: "intr_get_status (snd (intr_disable c)) = INTR_OFF"
  by (auto simp: intr_disable_def Let_def IF_clear_iff IF_set_iff EFLAGS_IF_def bit_simps)

lemma clear_set_bit: "bit x k \<Longrightarrow> (x AND NOT (2 ^ k)) OR 2 ^ k = (x :: 'a::len word)"
  by (rule bit_word_eqI) (auto simp: bit_and_iff bit_or_iff bit_not_iff bit_exp_iff)

lemma intr_restore [simp]: "snd (intr_set_status (intr_get_status c) (snd (intr_disable c))) = c"
proof (cases "intr_get_status c")
  case INTR_OFF
  then show ?thesis
    by (simp add: intr_set_status_def intr_disable_def)
next
  case INTR_ON
  then have b: "bit (eflags c) 9" by (simp add: IF_set_iff)
  have off: "snd (intr_disable c) = c\<lparr>eflags := eflags c AND NOT EFLAGS_IF\<rparr>"
    using INTR_ON by (simp add: intr_disable_def)
  have "snd (intr_enable (snd (intr_disable c))) = c"
    using intr_get_status_disable [of c] clear_set_bit [OF b]
    by (simp add: intr_enable_def off EFLAGS_IF_bit)
  with INTR_ON show ?thesis
    by (simp add: intr_set_status_def)
qed

text \<open>
  Every critical section of the kernel is bracketed by \<^verbatim>\<open>old = intr_disable()\<close> and
  \<^verbatim>\<open>intr_set_status(old)\<close>. The bracket turns interrupts off in between and gives
  back exactly the \<^verbatim>\<open>eflags\<close> it found, whether they were on or off, so critical
  sections nest.
\<close>

theorem intr_disable_restore:
  "intr_get_status (snd (intr_disable c)) = INTR_OFF \<and>
   snd (intr_set_status (fst (intr_disable c)) (snd (intr_disable c))) = c"
  by simp

subsection \<open>Descriptors decode to what they were made from\<close>

lemma gate_target_make [simp]: "gate_target (make_idt_desc func attribute) = func"
proof (rule bit_word_eqI)
  fix n
  assume "n < LENGTH(32)"
  then have "n < 16 \<or> 16 \<le> n \<and> n < 32" by auto
  then show "bit (gate_target (make_idt_desc func attribute)) n = bit func n"
    by (auto simp: gate_target_def make_idt_desc_def mask_literals bit_simps)
qed

lemma gate_dpl_make [simp]: "gate_dpl (make_idt_desc func attribute) = drop_bit 5 attribute AND 3"
  by (simp add: gate_dpl_def make_idt_desc_def)

text \<open>  After \<^verbatim>\<open>idt_init\<close> the table has 0x81 gates; gate 0x80 leads to
  \<^verbatim>\<open>syscall_handler\<close> and may be used from privilege level 3, every other gate
  leads to its assembly entry point and is reserved to level 0.
\<close>

theorem idt_init_gates:
  "length (idt_init entry sysh) = 0x81 \<and>
   gate_target (idt_init entry sysh ! 0x80) = sysh \<and> gate_dpl (idt_init entry sysh ! 0x80) = 3 \<and>
   (\<forall>i < 0x80. gate_target (idt_init entry sysh ! i) = entry i \<and> gate_dpl (idt_init entry sysh ! i) = 0)"
  by (simp add: idt_init_def IDT_DESC_CNT_def IDT_DESC_ATTR_DPL0_def IDT_DESC_ATTR_DPL3_def)

theorem idt_init_gates_witness:
  "gate_target (idt_init (\<lambda>i. 0xC0001500 + word_of_nat i) 0xC0001700 ! 0x21) = 0xC0001521 \<and>
   gate_target (idt_init (\<lambda>i. 0xC0001500 + word_of_nat i) 0xC0001700 ! 0x80) = 0xC0001700"
  using idt_init_gates[of "\<lambda>i. 0xC0001500 + word_of_nat i" "0xC0001700"] by simp

lemma desc_base_make [simp]: "desc_base (make_gdt_desc addr limit al ah) = addr"
proof (rule bit_word_eqI)
  fix n
  assume "n < LENGTH(32)"
  then have "n < 16 \<or> 16 \<le> n \<and> n < 24 \<or> 24 \<le> n \<and> n < 32" by auto
  then show "bit (desc_base (make_gdt_desc addr limit al ah)) n = bit addr n"
    by (auto simp: desc_base_def make_gdt_desc_def mask_literals bit_simps)
qed

lemma desc_high_byte:
  assumes "ah AND 0x0f = 0"
  shows "limit_high_attr_high (make_gdt_desc addr limit al ah) = ucast (drop_bit 16 (limit AND 0x000f0000)) OR ah"
proof -
  have "drop_bit 16 (limit AND 0x000f0000) AND (ucast ah :: u32) = 0"
  proof (rule bit_word_eqI)
    fix n
    have "\<not> bit ah n" if "n < 4"
    proof -
      have "bit (ah AND 0x0f) n = bit (0 :: u8) n" by (simp add: assms)
      with that show ?thesis by (simp add: mask_literals bit_simps)
    qed
    then show "bit (drop_bit 16 (limit AND 0x000f0000) AND (ucast ah :: u32)) n = bit (0 :: u32) n"
      by (auto simp: mask_literals bit_simps)
  qed
  then have "drop_bit 16 (limit AND 0x000f0000) + (ucast ah :: u32) =
      drop_bit 16 (limit AND 0x000f0000) OR ucast ah"
    by (rule disjunctive_add_eq_or)
  then show ?thesis
    by (simp add: make_gdt_desc_def) (rule bit_word_eqI, auto simp: bit_simps)
qed

lemma limit_low_word_make: "limit_low_word (make_gdt_desc addr limit al ah) = ucast (limit AND 0xffff)"
  by (simp add: make_gdt_desc_def)

lemma desc_limit_make:
  assumes "ah AND 0x0f = 0"
  shows "desc_limit (make_gdt_desc addr limit al ah) = limit AND 0xfffff"
proof (rule bit_word_eqI)
  fix n
  assume "n < LENGTH(32)"
  have ah: "\<not> bit ah k" if "k < 4" for k
  proof -
    have "bit (ah AND 0x0f) k = bit (0 :: u8) k" by (simp add: assms)
    with that show ?thesis by (simp add: mask_literals bit_simps)
  qed
  have m20: "(0xfffff :: u32) = mask 20" by (simp add: mask_eq_exp_minus_1)
  have "n < 16 \<or> 16 \<le> n \<and> n < 20 \<or> 20 \<le> n" by auto
  then show "bit (desc_limit (make_gdt_desc addr limit al ah)) n = bit (limit AND 0xfffff) n"
    using ah [of "n - 16"]
    by (auto simp: desc_limit_def desc_high_byte [OF assms] limit_low_word_make m20 mask_literals bit_simps)
qed

lemma desc_dpl_make [simp]: "desc_dpl (make_gdt_desc addr limit al ah) = drop_bit 5 al AND 3"
  by (simp add: desc_dpl_def make_gdt_desc_def)

text \<open>
  The descriptors that \<^verbatim>\<open>tss_init\<close> installs decode as intended: entry 4 describes
  the task-state segment (its address, its size less one, level 0), entries 5 and 6 are
  the flat 4 GB user segments of level 3, the other entries are untouched, and the
  limit of the loaded table covers exactly the seven descriptors.
\<close>

theorem tss_init_descriptors:
  assumes "length gdt = 7" and "tss_init tss_addr gdt = (t, gdt', operand)"
  shows "desc_base (gdt' ! 4) = tss_addr \<and> desc_limit (gdt' ! 4) = tss_size - 1 \<and> desc_dpl (gdt' ! 4) = 0 \<and>
    (\<forall>i \<in> {5, 6}. desc_base (gdt' ! i) = 0 \<and> desc_limit (gdt' ! i) = 0xfffff \<and> desc_dpl (gdt' ! i) = 3) \<and>
    (\<forall>i < 4. gdt' ! i = gdt ! i) \<and> length gdt' = 7 \<and>
    tss_ss0 t = 0x10 \<and> operand AND 0xffff = 8 * 7 - 1 \<and> drop_bit 16 operand = 0xc0000900"
  using assms
  by (auto simp: tss_init_def desc_limit_make TSS_ATTR_HIGH_def TSS_ATTR_LOW_def GDT_ATTR_HIGH_def tss_size_def
      GDT_CODE_ATTR_LOW_DPL3_def GDT_DATA_ATTR_LOW_DPL3_def SELECTOR_KERNEL_DATA_def)

theorem tss_init_descriptors_witness:
  "let gdt = replicate 7 (make_gdt_desc 0 0 0 0); (t, gdt', operand) = tss_init 0xc0012340 gdt
   in desc_base (gdt' ! 4) = 0xc0012340 \<and> desc_limit (gdt' ! 4) = tss_size - 1 \<and> tss_ss0 t = 0x10"
  using tss_init_descriptors [of "replicate 7 (make_gdt_desc 0 0 0 0)" "0xc0012340"]
  by (simp add: tss_init_def)

end
