(* ===== verification/Klist.thy ===== *)
theory Klist
  imports Interrupt
begin

text \<open>
  The doubly linked lists of \<^verbatim>\<open>src/lib/kernel/list.c\<close>, on an explicit store. A
  \<^verbatim>\<open>struct list_node\<close> at address \<open>n\<close> is the pair of fields \<open>prev_of m n\<close> and
  \<open>next_of m n\<close>; a \<^verbatim>\<open>struct list\<close> at address \<open>l\<close> is its head node at \<open>l\<close> and its
  tail node 8 bytes further. The store also carries the processor, because inserting
  and removing switch interrupts off and restore them. Following \<^verbatim>\<open>NULL\<close> is the
  fault \<open>NullDeref\<close>. The two loops that walk a list do not return on a list without
  tail, so they are partial functions.
\<close>

record lmem =
  prev_of :: "u32 \<Rightarrow> u32"
  next_of :: "u32 \<Rightarrow> u32"
  lm_cpu :: cpu

definition NULL :: u32 where "NULL = 0"

text \<open>The head node is at the address of the list itself.\<close>

abbreviation list_tail :: "u32 \<Rightarrow> u32" where "list_tail l \<equiv> l + 8"

definition set_prev :: "u32 \<Rightarrow> u32 \<Rightarrow> lmem \<Rightarrow> lmem res" where
  "set_prev n v m = (if n = NULL then Inl NullDeref else Inr (m\<lparr>prev_of := (prev_of m)(n := v)\<rparr>))"

definition set_next :: "u32 \<Rightarrow> u32 \<Rightarrow> lmem \<Rightarrow> lmem res" where
  "set_next n v m = (if n = NULL then Inl NullDeref else Inr (m\<lparr>next_of := (next_of m)(n := v)\<rparr>))"

definition get_prev :: "u32 \<Rightarrow> lmem \<Rightarrow> u32 res" where
  "get_prev n m = (if n = NULL then Inl NullDeref else Inr (prev_of m n))"

definition get_next :: "u32 \<Rightarrow> lmem \<Rightarrow> u32 res" where
  "get_next n m = (if n = NULL then Inl NullDeref else Inr (next_of m n))"

text \<open>\<open>critical f\<close> is the bracket \<^verbatim>\<open>old = intr_disable(); f; intr_set_status(old)\<close>.\<close>

definition critical :: "(lmem \<Rightarrow> lmem res) \<Rightarrow> lmem \<Rightarrow> lmem res" where
  "critical f m =
     (let (old_status, c) = intr_disable (lm_cpu m)
      in andthen (f (m\<lparr>lm_cpu := c\<rparr>)) (\<lambda>m'.
         Inr (m'\<lparr>lm_cpu := snd (intr_set_status old_status (lm_cpu m'))\<rparr>)))"

definition list_init :: "u32 \<Rightarrow> lmem \<Rightarrow> lmem res" where
  "list_init l m =
     andthen (set_prev l NULL m) (\<lambda>m.
     andthen (set_next l (list_tail l) m) (\<lambda>m.
     andthen (set_prev (list_tail l) l m) (\<lambda>m.
     set_next (list_tail l) NULL m)))"

definition list_insert_before :: "u32 \<Rightarrow> u32 \<Rightarrow> lmem \<Rightarrow> lmem res" where
  "list_insert_before src node = critical (\<lambda>m.
     andthen (get_prev src m) (\<lambda>p.
     andthen (set_next p node m) (\<lambda>m.
     andthen (get_prev src m) (\<lambda>p.
     andthen (set_prev node p m) (\<lambda>m.
     andthen (set_next node src m) (\<lambda>m.
     set_prev src node m))))))"

definition list_push :: "u32 \<Rightarrow> u32 \<Rightarrow> lmem \<Rightarrow> lmem res" where
  "list_push l node m =
     andthen (get_next l m) (\<lambda>first. list_insert_before first node m)"

definition list_append :: "u32 \<Rightarrow> u32 \<Rightarrow> lmem \<Rightarrow> lmem res" where
  "list_append l node m = list_insert_before (list_tail l) node m"

definition list_remove :: "u32 \<Rightarrow> lmem \<Rightarrow> lmem res" where
  "list_remove node = critical (\<lambda>m.
     andthen (get_prev node m) (\<lambda>p.
     andthen (get_next node m) (\<lambda>n.
     andthen (set_next p n m) (\<lambda>m.
     andthen (get_next node m) (\<lambda>n.
     andthen (get_prev node m) (\<lambda>p.
     set_prev n p m))))))"

definition list_pop :: "u32 \<Rightarrow> lmem \<Rightarrow> (u32 \<times> lmem) res" where
  "list_pop l m =
     andthen (get_next l m) (\<lambda>node.
     andthen (list_remove node m) (\<lambda>m. Inr (node, m)))"

partial_function (option) node_find_from :: "lmem \<Rightarrow> u32 \<Rightarrow> u32 \<Rightarrow> u32 \<Rightarrow> bool res option" where
  "node_find_from m tail obj_node node =
     (if node \<noteq> tail then
        if node = obj_node then Some (Inr True)
        else case get_next node m of Inl e \<Rightarrow> Some (Inl e) | Inr n \<Rightarrow> node_find_from m tail obj_node n
      else Some (Inr False))"

definition node_find :: "u32 \<Rightarrow> u32 \<Rightarrow> lmem \<Rightarrow> bool res option" where
  "node_find l obj_node m =
     (case get_next l m of Inl e \<Rightarrow> Some (Inl e)
      | Inr n \<Rightarrow> node_find_from m (list_tail l) obj_node n)"

definition list_empty :: "u32 \<Rightarrow> lmem \<Rightarrow> bool res" where
  "list_empty l m = andthen (get_next l m) (\<lambda>n. Inr (n = list_tail l))"

text \<open>
  \<^verbatim>\<open>list_traversal\<close> calls back for every node; the callback may change the state
  \<open>'s\<close> of its owner and answers whether to stop.
\<close>

partial_function (option) list_traverse_from ::
  "lmem \<Rightarrow> u32 \<Rightarrow> (u32 \<Rightarrow> 's \<Rightarrow> bool \<times> 's) \<Rightarrow> u32 \<Rightarrow> 's \<Rightarrow> (u32 \<times> 's) res option" where
  "list_traverse_from m tail func node s =
     (if node \<noteq> tail then
        (let (stop, s') = func node s
         in if stop then Some (Inr (node, s'))
            else case get_next node m of Inl e \<Rightarrow> Some (Inl e)
                 | Inr n \<Rightarrow> list_traverse_from m tail func n s')
      else Some (Inr (NULL, s)))"

definition list_traversal ::
  "u32 \<Rightarrow> (u32 \<Rightarrow> 's \<Rightarrow> bool \<times> 's) \<Rightarrow> lmem \<Rightarrow> 's \<Rightarrow> (u32 \<times> 's) res option" where
  "list_traversal l func m s =
     (case get_next l m of Inl e \<Rightarrow> Some (Inl e)
      | Inr node \<Rightarrow>
         (case list_empty l m of Inl e \<Rightarrow> Some (Inl e)
          | Inr none \<Rightarrow>
             if none then Some (Inr (NULL, s)) else list_traverse_from m (list_tail l) func node s))"

partial_function (option) list_len_from :: "lmem \<Rightarrow> u32 \<Rightarrow> u32 \<Rightarrow> u32 \<Rightarrow> u32 res option" where
  "list_len_from m tail node n =
     (if node \<noteq> tail then
        case get_next node m of Inl e \<Rightarrow> Some (Inl e) | Inr nx \<Rightarrow> list_len_from m tail nx (n + 1)
      else Some (Inr n))"

definition list_len :: "u32 \<Rightarrow> lmem \<Rightarrow> u32 res option" where
  "list_len l m =
     (case get_next l m of Inl e \<Rightarrow> Some (Inl e)
      | Inr node \<Rightarrow> list_len_from m (list_tail l) node 0)"

subsection \<open>The lists a store holds\<close>

text \<open>
  \<open>linked m ns\<close>: neighbours of the chain \<open>ns\<close> point at each other. \<open>dll m l xs\<close>: the
  list at \<open>l\<close> holds the nodes \<open>xs\<close>, in order, between its head and its tail.
\<close>

fun linked :: "lmem \<Rightarrow> u32 list \<Rightarrow> bool" where
  "linked m (a # b # ns) \<longleftrightarrow> next_of m a = b \<and> prev_of m b = a \<and> linked m (b # ns)"
| "linked m _ \<longleftrightarrow> True"

definition chain :: "u32 \<Rightarrow> u32 list \<Rightarrow> u32 list" where
  "chain l xs = l # xs @ [list_tail l]"

definition dll :: "lmem \<Rightarrow> u32 \<Rightarrow> u32 list \<Rightarrow> bool" where
  "dll m l xs \<longleftrightarrow> linked m (chain l xs) \<and> distinct (chain l xs) \<and> NULL \<notin> set (chain l xs) \<and>
     prev_of m l = NULL \<and> next_of m (list_tail l) = NULL"

lemma linked_cong:
  assumes "\<And>n. n \<in> set ns \<Longrightarrow> prev_of m' n = prev_of m n" and "\<And>n. n \<in> set ns \<Longrightarrow> next_of m' n = next_of m n"
  shows "linked m' ns = linked m ns"
  using assms
proof (induction m' ns rule: linked.induct)
  case (1 m' a b ns)
  have "linked m' (b # ns) = linked m (b # ns)"
    by (rule "1.IH") (simp_all add: "1.prems")
  moreover have "next_of m' a = next_of m a" "prev_of m' b = prev_of m b"
    by (simp_all add: "1.prems")
  ultimately show ?case by (simp only: linked.simps)
qed simp_all

lemma linked_append:
  "linked m (as @ a # b # bs) \<longleftrightarrow>
     linked m (as @ [a]) \<and> next_of m a = b \<and> prev_of m b = a \<and> linked m (b # bs)"
proof (induction as)
  case (Cons x as)
  then show ?case by (cases as) auto
qed simp

lemma linked_snoc2: "linked m (as @ [a, b]) \<longleftrightarrow> linked m (as @ [a]) \<and> next_of m a = b \<and> prev_of m b = a"
  using linked_append [of m as a b "[]"] by simp

lemma dll_congI:
  assumes "dll m l xs"
    and "\<And>n. n \<in> set (chain l xs) \<Longrightarrow> prev_of m' n = prev_of m n"
    and "\<And>n. n \<in> set (chain l xs) \<Longrightarrow> next_of m' n = next_of m n"
  shows "dll m' l xs"
proof -
  have "linked m' (chain l xs) = linked m (chain l xs)"
    by (rule linked_cong) (simp_all add: assms(2,3))
  moreover have "prev_of m' l = prev_of m l"
    "next_of m' (list_tail l) = next_of m (list_tail l)"
    by (simp_all add: assms(2,3) chain_def)
  ultimately show ?thesis using assms(1) by (simp add: dll_def)
qed

lemma chain_notin: "node \<notin> set (chain l xs) \<longleftrightarrow> node \<noteq> l \<and> node \<noteq> list_tail l \<and> node \<notin> set xs"
  by (auto simp: chain_def)

text \<open>Splicing a node into a chain, and out of it again.\<close>

definition spliced :: "u32 \<Rightarrow> u32 \<Rightarrow> u32 \<Rightarrow> lmem \<Rightarrow> lmem" where
  "spliced p node src m =
     m\<lparr>next_of := (next_of m)(p := node, node := src), prev_of := (prev_of m)(node := p, src := node)\<rparr>"

definition unspliced :: "u32 \<Rightarrow> u32 \<Rightarrow> lmem \<Rightarrow> lmem" where
  "unspliced p n m = m\<lparr>next_of := (next_of m)(p := n), prev_of := (prev_of m)(n := p)\<rparr>"

lemma linked_take_frame:
  assumes "linked m (as @ [p])" and "distinct (as @ [p])"
    and "\<And>n. n \<in> set as \<Longrightarrow> next_of m' n = next_of m n"
    and "\<And>n. n \<in> set (as @ [p]) \<Longrightarrow> prev_of m' n = prev_of m n"
  shows "linked m' (as @ [p])"
  using assms
proof (induction as)
  case (Cons a as)
  then show ?case by (cases as) auto
qed simp

lemma linked_drop_frame:
  assumes "linked m (s # bs)" and "distinct (s # bs)"
    and "\<And>n. n \<in> set (s # bs) \<Longrightarrow> next_of m' n = next_of m n"
    and "\<And>n. n \<in> set bs \<Longrightarrow> prev_of m' n = prev_of m n"
  shows "linked m' (s # bs)"
  using assms
proof (induction bs arbitrary: s)
  case (Cons b bs)
  then show ?case by simp
qed simp

lemma linked_spliced:
  assumes "linked m (as @ p # s # bs)" and "distinct (as @ p # s # bs)"
    and "node \<notin> set (as @ p # s # bs)"
  shows "linked (spliced p node s m) (as @ p # node # s # bs)"
proof -
  let ?m = "spliced p node s m"
  from assms(1) have l: "linked m (as @ [p])" and r: "linked m (s # bs)"
    by (simp_all add: linked_append)
  have "linked ?m (as @ [p])"
    by (rule linked_take_frame [OF l]) (use assms(2,3) in \<open>auto simp: spliced_def\<close>)
  moreover have "linked ?m (s # bs)"
    by (rule linked_drop_frame [OF r]) (use assms(2,3) in \<open>auto simp: spliced_def\<close>)
  moreover have "next_of ?m p = node" "prev_of ?m node = p" "next_of ?m node = s" "prev_of ?m s = node"
    using assms(2,3) by (auto simp: spliced_def)
  ultimately show ?thesis by (simp add: linked_append)
qed

lemma linked_unspliced:
  assumes "linked m (as @ p # node # s # bs)" and "distinct (as @ p # node # s # bs)"
  shows "linked (unspliced p s m) (as @ p # s # bs)"
proof -
  let ?m = "unspliced p s m"
  from assms(1) have l: "linked m (as @ [p])" and r: "linked m (s # bs)"
    by (simp_all add: linked_append)
  have "linked ?m (as @ [p])"
    by (rule linked_take_frame [OF l]) (use assms(2) in \<open>auto simp: unspliced_def\<close>)
  moreover have "linked ?m (s # bs)"
    by (rule linked_drop_frame [OF r]) (use assms(2) in \<open>auto simp: unspliced_def\<close>)
  moreover have "next_of ?m p = s" "prev_of ?m s = p"
    using assms(2) by (auto simp: unspliced_def)
  ultimately show ?thesis by (simp add: linked_append)
qed

lemma critical_Inr:
  assumes "f (m\<lparr>lm_cpu := snd (intr_disable (lm_cpu m))\<rparr>) = Inr m'"
    and "lm_cpu m' = snd (intr_disable (lm_cpu m))"
  shows "critical f m = Inr (m'\<lparr>lm_cpu := lm_cpu m\<rparr>)"
  using assms by (simp add: critical_def Let_def split_beta)

lemma critical_Inl:
  "f (m\<lparr>lm_cpu := snd (intr_disable (lm_cpu m))\<rparr>) = Inl e \<Longrightarrow> critical f m = Inl e"
  by (simp add: critical_def Let_def split_beta)

lemma list_insert_before_splice:
  assumes "src \<noteq> NULL" and "prev_of m src \<noteq> NULL" and "node \<noteq> NULL" and "node \<noteq> src"
  shows "list_insert_before src node m = Inr (spliced (prev_of m src) node src m)"
  unfolding list_insert_before_def
  by (subst critical_Inr [where m' = "(spliced (prev_of m src) node src m)\<lparr>lm_cpu := snd (intr_disable (lm_cpu m))\<rparr>"])
    (use assms in \<open>simp_all add: get_prev_def set_next_def set_prev_def spliced_def\<close>)

lemma list_remove_unsplice:
  assumes "node \<noteq> NULL" and "prev_of m node \<noteq> NULL" and "next_of m node \<noteq> NULL"
    and "prev_of m node \<noteq> node"
  shows "list_remove node m = Inr (unspliced (prev_of m node) (next_of m node) m)"
  unfolding list_remove_def
  by (subst critical_Inr [where m' = "(unspliced (prev_of m node) (next_of m node) m)\<lparr>lm_cpu := snd (intr_disable (lm_cpu m))\<rparr>"])
    (use assms in \<open>simp_all add: get_prev_def get_next_def set_next_def set_prev_def unspliced_def\<close>)


subsection \<open>Refinement: the operations on stores are operations on lists\<close>

text \<open>What an operation on one list leaves alone: every node outside \<open>ns\<close>, and the interrupt flag.\<close>

definition frame_outside :: "u32 set \<Rightarrow> lmem \<Rightarrow> lmem \<Rightarrow> bool" where
  "frame_outside ns m m' \<longleftrightarrow> lm_cpu m' = lm_cpu m \<and>
     (\<forall>n. n \<notin> ns \<longrightarrow> prev_of m' n = prev_of m n \<and> next_of m' n = next_of m n)"

lemma dll_frame: "dll m l xs \<Longrightarrow> frame_outside ns m m' \<Longrightarrow> set (chain l xs) \<inter> ns = {} \<Longrightarrow> dll m' l xs"
  by (erule dll_congI) (auto simp: frame_outside_def)

lemma dll_split:
  assumes "dll m l (as @ bs)"
  shows "prev_of m (hd (bs @ [list_tail l])) = last (l # as)"
    and "next_of m (last (l # as)) = hd (bs @ [list_tail l])"
proof -
  obtain cs c where c: "l # as = cs @ [c]" by (cases "l # as" rule: rev_cases) auto
  obtain d ds where d: "bs @ [list_tail l] = d # ds" by (cases "bs @ [list_tail l]") auto
  have "chain l (as @ bs) = cs @ c # d # ds"
    using c d by (simp add: chain_def)
  then show "prev_of m (hd (bs @ [list_tail l])) = last (l # as)"
    and "next_of m (last (l # as)) = hd (bs @ [list_tail l])"
    using assms c d by (simp_all add: dll_def linked_append)
qed

lemma dll_insert:
  assumes dll: "dll m l (as @ bs)" and fresh: "node \<notin> set (chain l (as @ bs))" "node \<noteq> NULL"
  shows "\<exists>m'. list_insert_before (hd (bs @ [list_tail l])) node m = Inr m' \<and> dll m' l (as @ node # bs) \<and>
    frame_outside (set (chain l (as @ node # bs))) m m'"
proof -
  obtain cs c where c: "l # as = cs @ [c]" by (cases "l # as" rule: rev_cases) auto
  obtain d ds where d: "bs @ [list_tail l] = d # ds" by (cases "bs @ [list_tail l]") auto
  have ch: "chain l (as @ bs) = cs @ c # d # ds" "chain l (as @ node # bs) = cs @ c # node # d # ds"
    using c d by (simp_all add: chain_def)
  have prev: "prev_of m d = c"
    using dll ch by (simp add: dll_def linked_append)
  let ?m = "spliced c node d m"
  have run: "list_insert_before d node m = Inr ?m"
    using list_insert_before_splice [of d m node] dll fresh ch prev by (auto simp: dll_def)
  have lk: "linked ?m (cs @ c # node # d # ds)"
    using linked_spliced [of m cs c d ds node] dll fresh ch by (auto simp: dll_def)
  have "l \<in> set (cs @ [c])" "list_tail l \<in> set (d # ds)"
    using c d by (metis list.set_intros(1), metis in_set_conv_decomp)
  then have "prev_of ?m l = NULL" "next_of ?m (list_tail l) = NULL"
    using dll fresh ch by (auto simp: dll_def spliced_def)
  then have "dll ?m l (as @ node # bs)"
    using dll fresh lk unfolding dll_def ch by auto
  moreover have "frame_outside (set (chain l (as @ node # bs))) m ?m"
    unfolding ch by (auto simp: frame_outside_def spliced_def)
  ultimately show ?thesis using run d by auto
qed

lemma dll_delete:
  assumes dll: "dll m l (as @ node # bs)"
  shows "\<exists>m'. list_remove node m = Inr m' \<and> dll m' l (as @ bs) \<and>
    frame_outside (set (chain l (as @ node # bs))) m m'"
proof -
  obtain cs c where c: "l # as = cs @ [c]" by (cases "l # as" rule: rev_cases) auto
  obtain d ds where d: "bs @ [list_tail l] = d # ds" by (cases "bs @ [list_tail l]") auto
  have ch: "chain l (as @ bs) = cs @ c # d # ds" "chain l (as @ node # bs) = cs @ c # node # d # ds"
    using c d by (simp_all add: chain_def)
  have nb: "prev_of m node = c" "next_of m node = d"
    using dll ch by (simp_all add: dll_def linked_append)
  let ?m = "unspliced c d m"
  have run: "list_remove node m = Inr ?m"
    using list_remove_unsplice [of node m] dll ch nb by (auto simp: dll_def)
  have lk: "linked ?m (cs @ c # d # ds)"
    using linked_unspliced [of m cs c node d ds] dll ch by (auto simp: dll_def)
  have "l \<in> set (cs @ [c])" "list_tail l \<in> set (d # ds)"
    using c d by (metis list.set_intros(1), metis in_set_conv_decomp)
  then have "prev_of ?m l = NULL" "next_of ?m (list_tail l) = NULL"
    using dll ch by (auto simp: dll_def unspliced_def)
  then have "dll ?m l (as @ bs)"
    using dll lk unfolding dll_def ch by auto
  moreover have "frame_outside (set (chain l (as @ node # bs))) m ?m"
    unfolding ch by (auto simp: frame_outside_def unspliced_def)
  ultimately show ?thesis using run by auto
qed

lemma dll_head: "dll m l xs \<Longrightarrow> get_next l m = Inr (hd (xs @ [list_tail l]))"
  using dll_split(2) [of m l "[]" xs] by (auto simp: get_next_def dll_def chain_def)

lemma dll_init:
  assumes "l \<noteq> NULL" and "list_tail l \<noteq> NULL"
  shows "\<exists>m'. list_init l m = Inr m' \<and> dll m' l [] \<and> frame_outside {l, list_tail l} m m'"
  using assms
  by (auto simp: list_init_def set_prev_def set_next_def dll_def chain_def frame_outside_def NULL_def)

lemma dll_push:
  assumes "dll m l xs" and "node \<notin> set (chain l xs)" and "node \<noteq> NULL"
  shows "\<exists>m'. list_push l node m = Inr m' \<and> dll m' l (node # xs) \<and> frame_outside (set (chain l (node # xs))) m m'"
  using dll_insert [of m l "[]" xs node] assms by (simp add: list_push_def dll_head)

lemma dll_append:
  assumes "dll m l xs" and "node \<notin> set (chain l xs)" and "node \<noteq> NULL"
  shows "\<exists>m'. list_append l node m = Inr m' \<and> dll m' l (xs @ [node]) \<and> frame_outside (set (chain l (xs @ [node]))) m m'"
  using dll_insert [of m l xs "[]" node] assms by (simp add: list_append_def)

lemma dll_remove:
  assumes "dll m l xs" and "node \<in> set xs"
  shows "\<exists>m'. list_remove node m = Inr m' \<and> dll m' l (remove1 node xs) \<and> frame_outside (set (chain l xs)) m m'"
proof -
  from assms(2) obtain as bs where xs: "xs = as @ node # bs" and "node \<notin> set as"
    by (meson split_list_first)
  then have "remove1 node xs = as @ bs" by (simp add: remove1_append)
  then show ?thesis using dll_delete [of m l as node bs] assms(1) xs by simp
qed

lemma dll_pop:
  assumes "dll m l (x # xs)"
  shows "\<exists>m'. list_pop l m = Inr (x, m') \<and> dll m' l xs \<and> frame_outside (set (chain l (x # xs))) m m'"
  using dll_delete [of m l "[]" x xs] assms by (auto simp: list_pop_def dll_head)

lemma dll_next_suffix:
  assumes "dll m l (as @ x # bs)"
  shows "get_next x m = Inr (hd (bs @ [list_tail l]))" and "x \<noteq> list_tail l"
proof -
  have "last (l # as @ [x]) = x" by simp
  then show "get_next x m = Inr (hd (bs @ [list_tail l]))"
    using dll_split(2) [of m l "as @ [x]" bs] assms by (auto simp: get_next_def dll_def chain_def)
  show "x \<noteq> list_tail l" using assms by (auto simp: dll_def chain_def)
qed

lemma node_find_from_dll:
  assumes "dll m l (as @ bs)"
  shows "node_find_from m (list_tail l) obj (hd (bs @ [list_tail l])) = Some (Inr (obj \<in> set bs))"
  using assms
proof (induction bs arbitrary: as)
  case Nil
  then show ?case by (simp add: node_find_from.simps)
next
  case (Cons b bs)
  from Cons.prems have dll: "dll m l ((as @ [b]) @ bs)" by simp
  show ?case
    using dll_next_suffix [OF Cons.prems] Cons.IH [OF dll]
    by (subst node_find_from.simps) auto
qed

lemma list_len_from_dll:
  assumes "dll m l (as @ bs)"
  shows "list_len_from m (list_tail l) (hd (bs @ [list_tail l])) n = Some (Inr (n + word_of_nat (length bs)))"
  using assms
proof (induction bs arbitrary: as n)
  case Nil
  then show ?case by (simp add: list_len_from.simps)
next
  case (Cons b bs)
  from Cons.prems have dll: "dll m l ((as @ [b]) @ bs)" by simp
  show ?case
    using dll_next_suffix [OF Cons.prems] Cons.IH [OF dll, of "n + 1"]
    by (subst list_len_from.simps) (simp add: algebra_simps)
qed

text \<open>The traversal as a function on lists: the reference for \<^verbatim>\<open>list_traversal\<close>.\<close>

fun traverse :: "(u32 \<Rightarrow> 's \<Rightarrow> bool \<times> 's) \<Rightarrow> u32 list \<Rightarrow> 's \<Rightarrow> u32 \<times> 's" where
  "traverse func [] s = (NULL, s)"
| "traverse func (x # xs) s = (let (stop, s') = func x s in if stop then (x, s') else traverse func xs s')"

lemma list_traverse_from_dll:
  assumes "dll m l (as @ bs)"
  shows "list_traverse_from m (list_tail l) func (hd (bs @ [list_tail l])) s = Some (Inr (traverse func bs s))"
  using assms
proof (induction bs arbitrary: as s)
  case Nil
  then show ?case by (simp add: list_traverse_from.simps)
next
  case (Cons b bs)
  from Cons.prems have dll: "dll m l ((as @ [b]) @ bs)" by simp
  show ?case
    using dll_next_suffix [OF Cons.prems] Cons.IH [OF dll]
    by (subst list_traverse_from.simps) (simp add: split_beta Let_def)
qed

lemma list_empty_dll:
  assumes "dll m l xs"
  shows "list_empty l m = Inr (xs = [])"
proof -
  have "hd (xs @ [list_tail l]) = list_tail l \<longleftrightarrow> xs = []"
    using assms by (cases xs) (auto simp: dll_def chain_def)
  then show ?thesis by (simp add: list_empty_def dll_head [OF assms])
qed

text \<open>C4.
  The list operations refine operations on sequences. On a store in which the list at
  \<open>l\<close> holds \<open>xs\<close>, pushing, appending and removing a node and popping the first one
  succeed; afterwards the list holds \<open>node # xs\<close>, \<open>xs @ [node]\<close>, \<open>xs\<close> without the
  node, or the tail of \<open>xs\<close>. Nodes outside the list and the interrupt flag are as
  before, so every list with other nodes still holds what it held.
\<close>

theorem list_ops_refine:
  assumes "dll m l xs" and "node \<noteq> NULL"
  shows "(node \<notin> set (chain l xs) \<longrightarrow> (\<exists>m'. list_push l node m = Inr m' \<and> dll m' l (node # xs) \<and>
      frame_outside (set (chain l (node # xs))) m m')) \<and>
    (node \<notin> set (chain l xs) \<longrightarrow> (\<exists>m'. list_append l node m = Inr m' \<and> dll m' l (xs @ [node]) \<and>
      frame_outside (set (chain l (xs @ [node]))) m m')) \<and>
    (node \<in> set xs \<longrightarrow> (\<exists>m'. list_remove node m = Inr m' \<and> dll m' l (remove1 node xs) \<and>
      frame_outside (set (chain l xs)) m m')) \<and>
    (xs \<noteq> [] \<longrightarrow> (\<exists>m'. list_pop l m = Inr (hd xs, m') \<and> dll m' l (tl xs) \<and>
      frame_outside (set (chain l xs)) m m'))"
  using dll_push [OF assms(1)] dll_append [OF assms(1)] dll_remove [OF assms(1)] assms
    dll_pop [of m l "hd xs" "tl xs"] by (cases xs) simp_all

lemma dll_example:
  "dll \<lparr>prev_of = (\<lambda>n. if n = 108 then 100 else 0), next_of = (\<lambda>n. if n = 100 then 108 else 0),
     lm_cpu = \<lparr>eflags = 0x202\<rparr>\<rparr> 100 []"
  by (simp add: dll_def chain_def NULL_def)

theorem list_ops_refine_witness:
  "\<exists>m'. list_append 100 200 \<lparr>prev_of = (\<lambda>n. if n = 108 then 100 else 0),
       next_of = (\<lambda>n. if n = 100 then 108 else 0), lm_cpu = \<lparr>eflags = 0x202\<rparr>\<rparr> = Inr m' \<and>
     dll m' 100 [200]"
  using list_ops_refine [OF dll_example, of 200] by (auto simp: chain_def NULL_def)

text \<open>  The walks of \<^verbatim>\<open>list.c\<close> end on every list the store holds, and answer as the
  sequence does: \<^verbatim>\<open>node_find\<close> decides membership, \<^verbatim>\<open>list_len\<close> counts modulo
  \<open>2 ^ 32\<close>, \<^verbatim>\<open>list_empty\<close> tests for emptiness and \<^verbatim>\<open>list_traversal\<close> visits the
  nodes in order until the callback stops it.
\<close>

theorem list_walks_terminate:
  assumes "dll m l xs"
  shows "node_find l obj m = Some (Inr (obj \<in> set xs)) \<and>
    list_len l m = Some (Inr (word_of_nat (length xs))) \<and>
    list_empty l m = Inr (xs = []) \<and>
    list_traversal l func m s = Some (Inr (traverse func xs s))"
  using node_find_from_dll [of m l "[]" xs obj] list_len_from_dll [of m l "[]" xs 0]
    list_traverse_from_dll [of m l "[]" xs func s] assms
  by (cases xs) (simp_all add: node_find_def list_len_def list_traversal_def dll_head list_empty_dll)

theorem list_walks_terminate_witness:
  "node_find 100 7 \<lparr>prev_of = (\<lambda>n. if n = 108 then 100 else 0),
     next_of = (\<lambda>n. if n = 100 then 108 else 0), lm_cpu = \<lparr>eflags = 0x202\<rparr>\<rparr> = Some (Inr False)"
  using list_walks_terminate [OF dll_example, of 7 "\<lambda>_ u. (True, ())" "()"] by simp

text \<open>\<^verbatim>\<open>list_pop\<close> does not check for emptiness: on an empty list it unlinks the tail
  sentinel and follows its \<^verbatim>\<open>NULL\<close> successor. Every caller has to test
  \<^verbatim>\<open>list_empty\<close> first, as the scheduler and the semaphores do.
\<close>

theorem list_pop_empty_faults:
  assumes "dll m l []"
  shows "list_pop l m = Inl NullDeref"
proof -
  have "list_remove (list_tail l) m = Inl NullDeref"
    unfolding list_remove_def
    by (rule critical_Inl)
      (use assms in \<open>auto simp: dll_def chain_def get_prev_def get_next_def set_next_def set_prev_def\<close>)
  then show ?thesis by (simp add: list_pop_def dll_head [OF assms])
qed

theorem list_pop_empty_faults_witness:
  "list_pop 100 \<lparr>prev_of = (\<lambda>n. if n = 108 then 100 else 0), next_of = (\<lambda>n. if n = 100 then 108 else 0),
     lm_cpu = \<lparr>eflags = 0x202\<rparr>\<rparr> = Inl NullDeref"
  by (rule list_pop_empty_faults [OF dll_example])

subsection \<open>The interface to the scheduler and the semaphores\<close>

locale node_queue =
  fixes rep :: "'m \<Rightarrow> 'l \<Rightarrow> 'n list \<Rightarrow> bool"
    and addable :: "'l \<Rightarrow> 'n list \<Rightarrow> 'n \<Rightarrow> bool"
    and push :: "'l \<Rightarrow> 'n \<Rightarrow> 'm \<Rightarrow> 'm res"
    and append :: "'l \<Rightarrow> 'n \<Rightarrow> 'm \<Rightarrow> 'm res"
    and pop :: "'l \<Rightarrow> 'm \<Rightarrow> ('n \<times> 'm) res"
  assumes push_rep: "rep m l xs \<Longrightarrow> addable l xs n \<Longrightarrow> \<exists>m'. push l n m = Inr m' \<and> rep m' l (n # xs)"
    and append_rep: "rep m l xs \<Longrightarrow> addable l xs n \<Longrightarrow> \<exists>m'. append l n m = Inr m' \<and> rep m' l (xs @ [n])"
    and pop_rep: "rep m l (x # xs) \<Longrightarrow> \<exists>m'. pop l m = Inr (x, m') \<and> rep m' l xs"
    and popped_addable: "rep m l (x # xs) \<Longrightarrow> addable l xs x"
begin

text \<open>Round robin: taking the first node and appending it rotates the queue.\<close>

lemma rotate:
  assumes "rep m l (x # xs)"
  shows "\<exists>m' m''. pop l m = Inr (x, m') \<and> append l x m' = Inr m'' \<and> rep m'' l (xs @ [x])"
proof -
  obtain m' where "pop l m = Inr (x, m')" "rep m' l xs" using pop_rep [OF assms] by blast
  moreover from this obtain m'' where "append l x m' = Inr m''" "rep m'' l (xs @ [x])"
    using append_rep popped_addable [OF assms] by blast
  ultimately show ?thesis by blast
qed

text \<open>A node pushed in front (as \<^verbatim>\<open>thread_unblock\<close> does) is the next one popped.\<close>

lemma push_pop:
  assumes "rep m l xs" and "addable l xs n"
  shows "\<exists>m' m''. push l n m = Inr m' \<and> pop l m' = Inr (n, m'') \<and> rep m'' l xs"
  using push_rep [OF assms] pop_rep by blast

end

interpretation kl: node_queue dll "\<lambda>l xs n. n \<notin> set (chain l xs) \<and> n \<noteq> NULL" list_push list_append list_pop
proof
  fix m l x xs
  assume "dll m l (x # xs)"
  then show "x \<notin> set (chain l xs) \<and> x \<noteq> NULL" by (auto simp: dll_def chain_def)
qed (use dll_push dll_append dll_pop in blast)+

text \<open>The rotation the time slice relies on: on a non-empty list, \<^verbatim>\<open>list_pop\<close> followed by
  \<^verbatim>\<open>list_append\<close> of the popped node moves the first node to the end, and a node
  inserted by \<^verbatim>\<open>list_push\<close> is the next one popped.
\<close>

theorem list_pop_append_rotates:
  assumes "dll m l (x # xs)"
  shows "(\<exists>m' m''. list_pop l m = Inr (x, m') \<and> list_append l x m' = Inr m'' \<and> dll m'' l (xs @ [x])) \<and>
    (\<forall>n. n \<notin> set (chain l (x # xs)) \<and> n \<noteq> NULL \<longrightarrow>
       (\<exists>m' m''. list_push l n m = Inr m' \<and> list_pop l m' = Inr (n, m'') \<and> dll m'' l (x # xs)))"
  using kl.rotate [OF assms] kl.push_pop [OF assms] by blast

lemma dll_example1:
  "dll \<lparr>prev_of = (\<lambda>n. if n = 108 then 200 else if n = 200 then 100 else 0),
     next_of = (\<lambda>n. if n = 100 then 200 else if n = 200 then 108 else 0), lm_cpu = \<lparr>eflags = 0x202\<rparr>\<rparr> 100 [200]"
  by (simp add: dll_def chain_def NULL_def)

theorem list_pop_append_rotates_witness:
  "\<exists>m m' m''. dll m 100 [200] \<and> list_pop 100 m = Inr (200, m') \<and> list_append 100 200 m' = Inr m'' \<and> dll m'' 100 [200]"
  using list_pop_append_rotates [OF dll_example1] dll_example1 by auto

end
