(* ===== verification/Cstring.thy ===== *)
theory Cstring
  imports Prelude
begin

text \<open>
  \<^verbatim>\<open>src/lib/string.c\<close> on a flat 32-bit byte memory. Pointers are addresses and
  advance modulo \<open>2 ^ 32\<close>. The functions that stop at a terminating zero do not return
  when there is none, so they are partial; \<^verbatim>\<open>char\<close> is signed, as on the target.
\<close>

type_synonym bmem = "u32 \<Rightarrow> u8"

function memset :: "u32 \<Rightarrow> u8 \<Rightarrow> u32 \<Rightarrow> bmem \<Rightarrow> bmem" where
  "memset dst data sz m = (if sz = 0 then m else memset (dst + 1) data (sz - 1) (m(dst := data)))"
  by pat_completeness auto
termination
  by (relation "measure (\<lambda>(dst, data, sz, m). unat sz)") (auto simp: measure_unat)

function memcpy :: "u32 \<Rightarrow> u32 \<Rightarrow> u32 \<Rightarrow> bmem \<Rightarrow> bmem" where
  "memcpy dst src sz m = (if sz = 0 then m else memcpy (dst + 1) (src + 1) (sz - 1) (m(dst := m src)))"
  by pat_completeness auto
termination
  by (relation "measure (\<lambda>(dst, src, sz, m). unat sz)") (auto simp: measure_unat)

declare memset.simps [simp del] memcpy.simps [simp del]

partial_function (option) strcpy_loop :: "u32 \<Rightarrow> u32 \<Rightarrow> bmem \<Rightarrow> bmem option" where
  "strcpy_loop dst src m =
     (let m' = m(dst := m src) in if m src \<noteq> 0 then strcpy_loop (dst + 1) (src + 1) m' else Some m')"

definition strcpy :: "u32 \<Rightarrow> u32 \<Rightarrow> bmem \<Rightarrow> (u32 \<times> bmem) option" where
  "strcpy dst src m = map_option (\<lambda>m'. (dst, m')) (strcpy_loop dst src m)"

text \<open>\<open>skip_string p m\<close> is the loop \<^verbatim>\<open>while (*p++);\<close>: the address after the terminator.\<close>

partial_function (option) skip_string :: "u32 \<Rightarrow> bmem \<Rightarrow> u32 option" where
  "skip_string p m = (if m p \<noteq> 0 then skip_string (p + 1) m else Some (p + 1))"

definition strlen :: "u32 \<Rightarrow> bmem \<Rightarrow> u32 option" where
  "strlen str m = map_option (\<lambda>p. p - str - 1) (skip_string str m)"

partial_function (option) strcmp :: "u32 \<Rightarrow> u32 \<Rightarrow> bmem \<Rightarrow> int option" where
  "strcmp a b m =
     (if m a \<noteq> 0 \<and> m a = m b then strcmp (a + 1) (b + 1) m
      else if sint (m a) < sint (m b) then Some (- 1)
      else if sint (m a) > sint (m b) then Some 1
      else Some 0)"

definition strcat :: "u32 \<Rightarrow> u32 \<Rightarrow> bmem \<Rightarrow> (u32 \<times> bmem) option" where
  "strcat dst src m =
     (case skip_string dst m of None \<Rightarrow> None
      | Some str \<Rightarrow> map_option (\<lambda>m'. (dst, m')) (strcpy_loop (str - 1) src m))"

function memcmp :: "u32 \<Rightarrow> u32 \<Rightarrow> u32 \<Rightarrow> bmem \<Rightarrow> int" where
  "memcmp a b sz m =
     (if sz = 0 then 0
      else if m a \<noteq> m b then (if sint (m a) > sint (m b) then 1 else - 1)
      else memcmp (a + 1) (b + 1) (sz - 1) m)"
  by pat_completeness auto
termination
  by (relation "measure (\<lambda>(a, b, sz, m). unat sz)") (auto simp: measure_unat)

declare memcmp.simps [simp del]

subsection \<open>Regions and strings in memory\<close>

text \<open>\<open>in_region p n a\<close>: the address \<open>a\<close> is one of the \<open>n\<close> bytes from \<open>p\<close> on.\<close>

definition in_region :: "u32 \<Rightarrow> nat \<Rightarrow> u32 \<Rightarrow> bool" where
  "in_region p n a \<longleftrightarrow> unat (a - p) < n"

definition disjoint_regions :: "u32 \<Rightarrow> nat \<Rightarrow> u32 \<Rightarrow> nat \<Rightarrow> bool" where
  "disjoint_regions p n q k \<longleftrightarrow> (\<forall>a. \<not> (in_region p n a \<and> in_region q k a))"

text \<open>\<open>cstr m p s\<close>: a zero-terminated string \<open>s\<close> starts at \<open>p\<close>.\<close>

fun cstr :: "bmem \<Rightarrow> u32 \<Rightarrow> u8 list \<Rightarrow> bool" where
  "cstr m p [] \<longleftrightarrow> m p = 0"
| "cstr m p (c # cs) \<longleftrightarrow> m p = c \<and> c \<noteq> 0 \<and> cstr m (p + 1) cs"

lemma in_region_Suc: "Suc n \<le> 2 ^ 32 \<Longrightarrow> in_region p (Suc n) a \<longleftrightarrow> a = p \<or> in_region (p + 1) n a"
proof -
  assume n: "Suc n \<le> 2 ^ 32"
  show ?thesis
  proof (cases "a = p")
    case False
    then have "a - p \<noteq> 0" by simp
    then have "unat (a - (p + 1)) = unat (a - p) - 1" and "0 < unat (a - p)"
      using unat_minus_one [of "a - p"] by (simp_all add: algebra_simps unat_gt_0)
    with False show ?thesis by (auto simp: in_region_def)
  qed (simp add: in_region_def)
qed

lemma word_diff_Suc_lt:
  assumes "(a :: u32) \<noteq> p" and "n \<noteq> 0"
  shows "a - (p + 1) < n - 1 \<longleftrightarrow> a - p < n"
proof -
  have "unat (a - p - 1) = unat (a - p) - 1" "0 < unat (a - p)"
    using assms(1) unat_minus_one [of "a - p"] by (simp_all add: unat_gt_0)
  moreover have "unat (n - 1) = unat n - 1" "0 < unat n"
    using assms(2) unat_minus_one [of n] by (simp_all add: unat_gt_0)
  ultimately show ?thesis by (simp add: word_less_nat_alt diff_diff_eq) arith
qed

lemma memset_apply: "memset dst data sz m a = (if a - dst < sz then data else m a)"
proof (induction dst data sz m rule: memset.induct)
  case (1 dst data sz m)
  show ?case
  proof (cases "sz = 0")
    case False
    then have "memset dst data sz m = memset (dst + 1) data (sz - 1) (m(dst := data))"
      by (subst memset.simps) simp
    then have "memset dst data sz m a = (if a - (dst + 1) < sz - 1 then data else (m(dst := data)) a)"
      using "1.IH" [OF False] by (simp only:)
    moreover have "a - (dst + 1) < sz - 1 \<longleftrightarrow> a - dst < sz" if "a \<noteq> dst"
      by (rule word_diff_Suc_lt [OF that False])
    ultimately show ?thesis using False by (auto simp: word_gt_0)
  qed (simp add: memset.simps)
qed


lemma memcpy_apply:
  assumes "disjoint_regions dst (unat sz) src (unat sz)"
  shows "memcpy dst src sz m a = (if a - dst < sz then m (src + (a - dst)) else m a)"
  using assms
proof (induction dst src sz m rule: memcpy.induct)
  case (1 dst src sz m)
  show ?case
  proof (cases "sz = 0")
    case False
    let ?m = "m(dst := m src)"
    have Suc: "unat sz = Suc (unat (sz - 1))"
      using False unat_minus_one [of sz] by (simp add: unat_gt_0)
    have bound: "Suc (unat (sz - 1)) \<le> 2 ^ 32" using Suc unat_u32_lt [of sz] by simp
    have reg: "in_region p (unat sz) x \<longleftrightarrow> x = p \<or> in_region (p + 1) (unat (sz - 1)) x" for p x
      unfolding Suc by (rule in_region_Suc [OF bound])
    have dj: "disjoint_regions (dst + 1) (unat (sz - 1)) (src + 1) (unat (sz - 1))"
      using "1.prems" by (auto simp: disjoint_regions_def reg)
    have step: "memcpy dst src sz m = memcpy (dst + 1) (src + 1) (sz - 1) ?m"
      using False by (subst memcpy.simps) simp
    have IH: "memcpy dst src sz m a = (if a - (dst + 1) < sz - 1 then ?m (src + 1 + (a - (dst + 1))) else ?m a)"
      unfolding step by (rule "1.IH" [OF False dj])
    have out: "src + (a - dst) \<noteq> dst" if "a - dst < sz"
    proof
      assume eq: "src + (a - dst) = dst"
      then have "dst - src = a - dst" by (metis add_diff_cancel_left')
      then have "in_region src (unat sz) dst"
        using that by (simp only: in_region_def word_less_nat_alt)
      moreover have "in_region dst (unat sz) dst"
        using Suc by (simp add: in_region_def)
      ultimately show False using "1.prems" by (auto simp: disjoint_regions_def)
    qed
    show ?thesis
    proof (cases "a = dst")
      case True
      have "\<not> dst - (dst + 1) < sz - 1"
        by (simp add: not_less word_n1_ge)
      then show ?thesis using IH True False by (simp add: word_gt_0)
    next
      case ne: False
      have "a - (dst + 1) < sz - 1 \<longleftrightarrow> a - dst < sz" by (rule word_diff_Suc_lt [OF ne False])
      then show ?thesis using IH ne out by (simp add: algebra_simps)
    qed
  qed (simp add: memcpy.simps)
qed

subsection \<open>Strings\<close>

lemma cstr_frame: "(\<And>a. in_region p (Suc (length s)) a \<Longrightarrow> m' a = m a) \<Longrightarrow> length s < 2 ^ 32 \<Longrightarrow> cstr m' p s = cstr m p s"
proof (induction s arbitrary: p)
  case Nil
  then show ?case by (simp add: in_region_def)
next
  case (Cons c s)
  have reg: "in_region p (Suc (Suc (length s))) a \<longleftrightarrow> a = p \<or> in_region (p + 1) (Suc (length s)) a" for a
    using Cons.prems(2) by (simp add: in_region_Suc)
  have "cstr m' (p + 1) s = cstr m (p + 1) s"
    by (rule Cons.IH) (use Cons.prems reg in auto)
  then show ?case using Cons.prems(1) [of p] by (simp add: reg)
qed

lemma skip_string_cstr: "cstr m p s \<Longrightarrow> skip_string p m = Some (p + word_of_nat (length s) + 1)"
proof (induction s arbitrary: p)
  case Nil
  then show ?case by (simp add: skip_string.simps)
next
  case (Cons c s)
  then have "skip_string p m = skip_string (p + 1) m" by (subst skip_string.simps) auto
  with Cons show ?case by (simp add: algebra_simps)
qed

lemma strcpy_loop_cstr:
  assumes "cstr m src s" and "length s < 2 ^ 32"
    and "disjoint_regions dst (Suc (length s)) src (Suc (length s))"
  shows "\<exists>m'. strcpy_loop dst src m = Some m' \<and> cstr m' dst s \<and>
    (\<forall>a. \<not> in_region dst (Suc (length s)) a \<longrightarrow> m' a = m a)"
  using assms
proof (induction s arbitrary: dst src m)
  case Nil
  then show ?case by (subst strcpy_loop.simps) (auto simp: in_region_def)
next
  case (Cons c s)
  let ?m = "m(dst := m src)"
  have reg: "in_region p (Suc (Suc (length s))) a \<longleftrightarrow> a = p \<or> in_region (p + 1) (Suc (length s)) a" for p a
    using Cons.prems(2) by (simp add: in_region_Suc)
  have "cstr ?m (src + 1) s = cstr m (src + 1) s"
    by (rule cstr_frame) (use Cons.prems(2,3) in \<open>auto simp: disjoint_regions_def reg\<close>)
  then have src: "cstr ?m (src + 1) s" using Cons.prems(1) by simp
  have "disjoint_regions (dst + 1) (Suc (length s)) (src + 1) (Suc (length s))"
    using Cons.prems(3) by (auto simp: disjoint_regions_def reg)
  moreover have "length s < 2 ^ 32" using Cons.prems(2) by simp
  ultimately obtain m' where m': "strcpy_loop (dst + 1) (src + 1) ?m = Some m'" "cstr m' (dst + 1) s"
    "\<forall>a. \<not> in_region (dst + 1) (Suc (length s)) a \<longrightarrow> m' a = ?m a"
    using Cons.IH [OF src] by blast
  have "\<not> in_region (dst + 1) (Suc (length s)) dst"
    using Cons.prems(2) by (simp add: in_region_def unsigned_minus_1_eq_mask mask_eq_exp_minus_1)
  then have "m' dst = c" using m'(3) Cons.prems(1) by simp
  moreover have "strcpy_loop dst src m = Some m'"
    using m'(1) Cons.prems(1) by (subst strcpy_loop.simps) (simp add: Let_def)
  ultimately show ?case using m' Cons.prems(1) reg by auto
qed

text \<open>The order \<^verbatim>\<open>strcmp\<close> computes: the first difference decides, the end counts as 0.\<close>

fun str_order :: "u8 list \<Rightarrow> u8 list \<Rightarrow> int" where
  "str_order [] [] = 0"
| "str_order (c # cs) [] = (if sint c < 0 then - 1 else 1)"
| "str_order [] (d # ds) = (if 0 < sint d then - 1 else 1)"
| "str_order (c # cs) (d # ds) =
     (if c = d then str_order cs ds else if sint c < sint d then - 1 else 1)"

lemma sint_inject: "sint (c :: u8) = sint d \<Longrightarrow> c = d"
  by (rule signed_word_eqI)

lemma sint_neq: "(c :: u8) \<noteq> d \<Longrightarrow> \<not> sint c < sint d \<Longrightarrow> sint d < sint c"
  by (metis linorder_neqE_linordered_idom sint_inject)

lemma strcmp_cstr:
  "cstr m a s \<Longrightarrow> cstr m b t \<Longrightarrow> strcmp a b m = Some (str_order s t)"
proof (induction s t arbitrary: a b rule: str_order.induct)
  case (4 c cs d ds)
  then show ?case
    by (subst strcmp.simps) (auto dest: sint_neq sint_inject)
next
  case (2 c cs)
  then show ?case
    using sint_neq [of c 0] by (subst strcmp.simps) auto
next
  case (3 d ds)
  then show ?case
    using sint_neq [of d 0] by (subst strcmp.simps) auto
qed (simp add: strcmp.simps)

lemma cstr_appendI:
  assumes "\<And>i. i < length s \<Longrightarrow> m (p + word_of_nat i) = s ! i \<and> s ! i \<noteq> 0"
    and "cstr m (p + word_of_nat (length s)) t"
  shows "cstr m p (s @ t)"
  using assms
proof (induction s arbitrary: p)
  case (Cons c s)
  have "cstr m (p + 1) (s @ t)"
  proof (rule Cons.IH)
    fix i assume "i < length s"
    with Cons.prems(1) [of "Suc i"] show "m (p + 1 + word_of_nat i) = s ! i \<and> s ! i \<noteq> 0"
      by (simp add: algebra_simps)
  qed (use Cons.prems(2) in \<open>simp add: algebra_simps\<close>)
  with Cons.prems(1) [of 0] show ?case by simp
qed simp

lemma cstr_nth: "cstr m p s \<Longrightarrow> i < length s \<Longrightarrow> m (p + word_of_nat i) = s ! i \<and> s ! i \<noteq> 0"
proof (induction s arbitrary: p i)
  case (Cons c s)
  show ?case
  proof (cases i)
    case (Suc j)
    then show ?thesis using Cons.IH [of "p + 1" j] Cons.prems by (simp add: add.assoc)
  qed (use Cons.prems in auto)
qed simp

lemma str_order_0_iff: "0 \<notin> set s \<Longrightarrow> 0 \<notin> set t \<Longrightarrow> str_order s t = 0 \<longleftrightarrow> s = t"
  by (induction s t rule: str_order.induct) auto

lemma cstr_no_zero: "cstr m p s \<Longrightarrow> 0 \<notin> set s"
  by (induction s arbitrary: p) auto

lemma memcmp_zero_iff:
  "memcmp a b sz m = 0 \<longleftrightarrow> (\<forall>i < unat sz. m (a + word_of_nat i) = m (b + word_of_nat i))"
proof (induction a b sz m rule: memcmp.induct)
  case (1 a b sz m)
  show ?case
  proof (cases "sz = 0")
    case False
    then have Suc: "unat sz = Suc (unat (sz - 1))"
      using unat_minus_one [of sz] by (simp add: unat_gt_0)
    show ?thesis
      using False "1.IH" unfolding Suc All_less_Suc2
      by (subst memcmp.simps) (auto simp: algebra_simps)
  qed (simp add: memcmp.simps)
qed

text \<open>
  \<^verbatim>\<open>strlen\<close> and \<^verbatim>\<open>strcpy\<close> return on every zero-terminated string: the length is
  the number of bytes before the terminator, and copying into a region that does not
  overlap the source leaves the same string at the destination, returns the
  destination and changes no byte outside it (the terminator included).
\<close>

theorem strlen_strcpy_correct:
  assumes "cstr m src s" and "length s < 2 ^ 32"
    and "disjoint_regions dst (Suc (length s)) src (Suc (length s))"
  shows "strlen src m = Some (word_of_nat (length s)) \<and>
    (\<exists>m'. strcpy dst src m = Some (dst, m') \<and> cstr m' dst s \<and> cstr m' src s \<and>
       (\<forall>a. \<not> in_region dst (Suc (length s)) a \<longrightarrow> m' a = m a))"
proof -
  obtain m' where m': "strcpy_loop dst src m = Some m'" "cstr m' dst s"
    "\<forall>a. \<not> in_region dst (Suc (length s)) a \<longrightarrow> m' a = m a"
    using strcpy_loop_cstr [OF assms] by blast
  have "cstr m' src s = cstr m src s"
    by (rule cstr_frame) (use m'(3) assms in \<open>auto simp: disjoint_regions_def\<close>)
  with m' assms(1) show ?thesis
    by (simp add: strlen_def skip_string_cstr strcpy_def)
qed

lemma disjoint_example: "disjoint_regions 100 3 200 3"
proof -
  have "\<not> (unat (x + 100) < 3 \<and> unat x < 3)" for x :: u32
    by (auto simp: unat_word_ariths)
  then have "\<not> (unat (a - 200 + 100) < 3 \<and> unat (a - 200) < 3)" for a :: u32 .
  then show ?thesis by (auto simp: disjoint_regions_def in_region_def)
qed

theorem strlen_strcpy_correct_witness:
  "strlen 200 ((\<lambda>_. 0)(200 := 72, 201 := 105)) = Some 2"
  using strlen_strcpy_correct [of "(\<lambda>_. 0)(200 := 72, 201 := 105)" 200 "[72, 105]" 100] disjoint_example
  by (simp add: numeral_3_eq_3)

text \<open>  \<^verbatim>\<open>strcmp\<close> returns on any two strings and compares them in lexicographic order of
  signed characters; in particular it answers 0 exactly for equal strings.
\<close>

theorem strcmp_correct:
  assumes "cstr m a s" and "cstr m b t"
  shows "strcmp a b m = Some (str_order s t) \<and> (strcmp a b m = Some 0 \<longleftrightarrow> s = t)"
  using strcmp_cstr [OF assms] str_order_0_iff cstr_no_zero [OF assms(1)] cstr_no_zero [OF assms(2)] by simp

theorem strcmp_correct_witness:
  "strcmp 10 20 ((\<lambda>_. 0)(10 := 108, 11 := 115, 20 := 108)) = Some (str_order [108, 115] [108])"
  using strcmp_correct [of "(\<lambda>_. 0)(10 := 108, 11 := 115, 20 := 108)" 10 "[108, 115]" 20 "[108]"] by simp

text \<open>
  \<^verbatim>\<open>strcat\<close> appends: when the room after the first string does not overlap the
  second one, the destination afterwards holds their concatenation.
\<close>

theorem strcat_correct:
  assumes "cstr m dst s" and "cstr m src t" and "length s + length t < 2 ^ 32"
    and "disjoint_regions (dst + word_of_nat (length s)) (Suc (length t)) src (Suc (length t))"
  shows "\<exists>m'. strcat dst src m = Some (dst, m') \<and> cstr m' dst (s @ t) \<and>
    (\<forall>a. \<not> in_region (dst + word_of_nat (length s)) (Suc (length t)) a \<longrightarrow> m' a = m a)"
proof -
  let ?stop = "dst + word_of_nat (length s)"
  obtain m' where m': "strcpy_loop ?stop src m = Some m'" "cstr m' ?stop t"
    "\<forall>a. \<not> in_region ?stop (Suc (length t)) a \<longrightarrow> m' a = m a"
    using strcpy_loop_cstr [OF assms(2) _ assms(4)] assms(3) by auto
  have "m' (dst + word_of_nat i) = s ! i \<and> s ! i \<noteq> 0" if "i < length s" for i
  proof -
    have "dst + word_of_nat i - ?stop = - word_of_nat (length s - i)"
      using that by (simp add: of_nat_diff)
    moreover have "unat (- word_of_nat (length s - i) :: u32) = 2 ^ 32 - (length s - i)"
      by (rule unat_minus_of_nat) (use that assms(3) in auto)
    ultimately have "\<not> in_region ?stop (Suc (length t)) (dst + word_of_nat i)"
      using that assms(3) by (simp add: in_region_def)
    then show ?thesis using m'(3) cstr_nth [OF assms(1) that] by simp
  qed
  then have "cstr m' dst (s @ t)" using m'(2) by (rule cstr_appendI)
  moreover have "strcat dst src m = Some (dst, m')"
    using m'(1) skip_string_cstr [OF assms(1)] by (simp add: strcat_def)
  ultimately show ?thesis using m'(3) by blast
qed

theorem strcat_correct_witness:
  "\<exists>m'. strcat 98 200 ((\<lambda>_. 0)(98 := 65, 99 := 66, 200 := 72, 201 := 105)) = Some (98, m') \<and>
     cstr m' 98 [65, 66, 72, 105]"
  using strcat_correct [of "(\<lambda>_. 0)(98 := 65, 99 := 66, 200 := 72, 201 := 105)" 98 "[65, 66]" 200 "[72, 105]"]
    disjoint_example
  by (auto simp: numeral_3_eq_3)

text \<open>
  \<^verbatim>\<open>memset\<close> writes exactly the \<open>sz\<close> bytes from \<open>dst\<close> on, \<^verbatim>\<open>memcpy\<close> copies
  between regions that do not overlap and changes nothing else, and \<^verbatim>\<open>memcmp\<close>
  answers 0 exactly when the two blocks agree byte for byte; so a copied block compares
  equal to its source.
\<close>

theorem mem_functions_correct:
  assumes "disjoint_regions dst (unat sz) src (unat sz)"
  shows "memset dst data sz m = (\<lambda>a. if a - dst < sz then data else m a) \<and>
    memcpy dst src sz m = (\<lambda>a. if a - dst < sz then m (src + (a - dst)) else m a) \<and>
    (memcmp dst src sz m = 0 \<longleftrightarrow> (\<forall>i < unat sz. m (dst + word_of_nat i) = m (src + word_of_nat i))) \<and>
    memcmp dst src sz (memcpy dst src sz m) = 0"
proof -
  have "memcpy dst src sz m (dst + word_of_nat i) = memcpy dst src sz m (src + word_of_nat i)"
    if i: "i < unat sz" for i
  proof -
    have lt: "unat (word_of_nat i :: u32) < unat sz"
      using i unat_u32_lt [of sz] by (simp add: unat_of_nat)
    then have "in_region src (unat sz) (src + word_of_nat i)" by (simp add: in_region_def)
    then have "\<not> src + word_of_nat i - dst < sz"
      using assms by (auto simp: disjoint_regions_def in_region_def word_less_nat_alt)
    then show ?thesis using lt by (simp add: memcpy_apply [OF assms] word_less_nat_alt)
  qed
  then show ?thesis
    by (auto simp: memset_apply memcpy_apply [OF assms] memcmp_zero_iff)
qed

theorem mem_functions_correct_witness:
  "memcmp 100 200 (3 :: u32) (memcpy 100 200 3 ((\<lambda>_. 0)(200 := 72, 201 := 105))) = 0"
proof -
  have "disjoint_regions 100 (unat (3 :: u32)) 200 (unat (3 :: u32))" using disjoint_example by simp
  from mem_functions_correct [OF this] show ?thesis by blast
qed

end
