(* ===== verification/Sched.thy ===== *)
theory Sched
  imports Bitmap Klist
begin

text \<open>
  Threads and the scheduler: \<^verbatim>\<open>src/thread/thread.c\<close>, with
  \<^verbatim>\<open>process_activate\<close> and \<^verbatim>\<open>page_dir_activate\<close> of
  \<^verbatim>\<open>src/userprog/process.c\<close>.

  A thread is named by the address of its control block. The ready list and the list of
  all threads are the sequences of threads whose \<^verbatim>\<open>general_node\<close> and
  \<^verbatim>\<open>all_list_node\<close> the lists of theory \<open>Klist\<close> hold; that theory shows that
  \<^verbatim>\<open>list.c\<close> implements the operations on sequences used here.

  \<^verbatim>\<open>switch_to\<close> abandons the caller in the middle of \<^verbatim>\<open>schedule\<close> and continues the
  next thread where it was left. What a thread does first when it is continued is to
  restore an interrupt status: the caller of \<^verbatim>\<open>schedule\<close> passes \<^verbatim>\<open>old_status\<close> to
  \<^verbatim>\<open>intr_set_status\<close>, a preempted thread returns from the timer interrupt with
  interrupts on, a new thread calls \<^verbatim>\<open>intr_enable\<close> in \<^verbatim>\<open>kernel_thread\<close>. The field
  \<open>resume_status\<close> of a control block is that status, kept on the thread's kernel
  stack.
\<close>

datatype task_status =
  TASK_RUNNING | TASK_READY | TASK_BLOCKED | TASK_WAITING | TASK_HANGING | TASK_DIED

record thread_stack =
  ts_ebp :: u32
  ts_ebx :: u32
  ts_edi :: u32
  ts_esi :: u32
  ts_eip :: u32
  ts_unused_retaddr :: u32
  ts_func :: u32
  ts_func_arg :: u32

record pcb =
  self_kstack :: u32
  pid :: u16
  status :: task_status
  name :: "u8 list"
  priority :: u8
  ticks :: u8
  elapsed_ticks :: u32
  pg_dir :: u32
  parent_pid :: u16
  exit_status :: u8
  stack_magic :: u32
  kstack :: thread_stack
  resume_status :: intr_status

text \<open>Semaphores and locks (\<^verbatim>\<open>src/thread/sync.h\<close>); their operations are in theory \<open>Sync\<close>.\<close>

record semaphore =
  sema_value :: u8
  waiters :: "u32 list"

record lock =
  holder :: u32
  lock_sema :: semaphore
  holder_repeat_cnt :: u32

record kstate =
  pcbs :: "u32 \<Rightarrow> pcb"
  running_thread :: u32
  main_thread :: u32
  idle_thread :: u32
  thread_ready_list :: "u32 list"
  thread_all_list :: "u32 list"
  pid_bitmap :: bitmap
  pid_lock :: lock
  k_cpu :: cpu
  k_cr3 :: u32
  k_tss :: tss
  k_vir2phy :: "u32 \<Rightarrow> u32"

definition STACK_MAGIC :: u32 where "STACK_MAGIC = 0x12345678"

definition upd_pcb :: "u32 \<Rightarrow> (pcb \<Rightarrow> pcb) \<Rightarrow> kstate \<Rightarrow> kstate" where
  "upd_pcb t f s = s\<lparr>pcbs := (pcbs s)(t := f (pcbs s t))\<rparr>"

abbreviation status_of :: "kstate \<Rightarrow> u32 \<Rightarrow> task_status" where
  "status_of s t \<equiv> status (pcbs s t)"

definition set_status :: "u32 \<Rightarrow> task_status \<Rightarrow> kstate \<Rightarrow> kstate" where
  "set_status t st = upd_pcb t (\<lambda>p. p\<lparr>status := st\<rparr>)"

definition k_intr_disable :: "kstate \<Rightarrow> intr_status \<times> kstate" where
  "k_intr_disable s = (fst (intr_disable (k_cpu s)), s\<lparr>k_cpu := snd (intr_disable (k_cpu s))\<rparr>)"

definition k_intr_set_status :: "intr_status \<Rightarrow> kstate \<Rightarrow> kstate" where
  "k_intr_set_status st s = s\<lparr>k_cpu := snd (intr_set_status st (k_cpu s))\<rparr>"

subsection \<open>Switching threads\<close>

definition page_dir_activate :: "u32 \<Rightarrow> kstate \<Rightarrow> kstate" where
  "page_dir_activate t s =
     s\<lparr>k_cr3 := (if pg_dir (pcbs s t) \<noteq> NULL then k_vir2phy s (pg_dir (pcbs s t)) else 0x100000)\<rparr>"

definition process_activate :: "u32 \<Rightarrow> kstate \<Rightarrow> kstate res" where
  "process_activate t s =
     andthen (assert_c ''thread != NULL'' (t \<noteq> NULL)) (\<lambda>_.
     let s1 = page_dir_activate t s;
         s2 = (if pg_dir (pcbs s1 t) \<noteq> NULL then s1\<lparr>k_tss := update_tss_esp t (k_tss s1)\<rparr> else s1)
     in andthen (assert_c ''thread->status == TASK_RUNNING'' (status_of s2 t = TASK_RUNNING)) (\<lambda>_. Inr s2))"

definition thread_unblock :: "u32 \<Rightarrow> kstate \<Rightarrow> kstate res" where
  "thread_unblock t s =
     andthen (assert_c ''TASK_BLOCKED || TASK_WAITING || TASK_HANGING''
       (status_of s t = TASK_BLOCKED \<or> status_of s t = TASK_WAITING \<or> status_of s t = TASK_HANGING)) (\<lambda>_.
     let (old_status, s) = k_intr_disable s
     in if status_of s t \<noteq> TASK_READY
        then andthen (assert_c ''!node_find(&thread_ready_list, &thread->general_node)''
               (t \<notin> set (thread_ready_list s))) (\<lambda>_.
             Inr (k_intr_set_status old_status
                    (set_status t TASK_READY (s\<lparr>thread_ready_list := t # thread_ready_list s\<rparr>))))
        else Inr (k_intr_set_status old_status s))"

text \<open>
  \<^verbatim>\<open>switch_to\<close>: the outgoing thread remembers what it restores when it is continued,
  the incoming one restores its own.
\<close>

definition switch_to :: "intr_status \<Rightarrow> u32 \<Rightarrow> u32 \<Rightarrow> kstate \<Rightarrow> kstate" where
  "switch_to ret now nxt s =
     (let s1 = upd_pcb now (\<lambda>p. p\<lparr>resume_status := ret\<rparr>) s
      in k_intr_set_status (resume_status (pcbs s1 nxt)) (s1\<lparr>running_thread := nxt\<rparr>))"

text \<open>\<^verbatim>\<open>schedule\<close>: the current thread goes back to the queue if its time slice is used up; the idle
  thread is woken if nobody is ready; the head of the queue is popped and switched to.\<close>

definition requeue_running :: "u32 \<Rightarrow> kstate \<Rightarrow> kstate res" where
  "requeue_running now s =
     (if status_of s now = TASK_RUNNING
      then andthen (assert_c ''!node_find(&thread_ready_list, &now->general_node)''
             (now \<notin> set (thread_ready_list s))) (\<lambda>_.
           Inr (upd_pcb now (\<lambda>p. p\<lparr>ticks := priority p, status := TASK_READY\<rparr>)
                  (s\<lparr>thread_ready_list := thread_ready_list s @ [now]\<rparr>)))
      else Inr s)"

definition dispatch :: "intr_status \<Rightarrow> u32 \<Rightarrow> kstate \<Rightarrow> kstate res" where
  "dispatch ret now s =
     andthen (assert_c ''list_empty(&thread_ready_list) == false'' (thread_ready_list s \<noteq> [])) (\<lambda>_.
     let nxt = hd (thread_ready_list s);
         s1 = set_status nxt TASK_RUNNING (s\<lparr>thread_ready_list := tl (thread_ready_list s)\<rparr>)
     in andthen (process_activate nxt s1) (\<lambda>s2. Inr (switch_to ret now nxt s2)))"

definition schedule :: "intr_status \<Rightarrow> kstate \<Rightarrow> kstate res" where
  "schedule ret s =
     andthen (assert_c ''intr_get_status() == INTR_OFF'' (intr_get_status (k_cpu s) = INTR_OFF)) (\<lambda>_.
     andthen (requeue_running (running_thread s) s) (\<lambda>s1.
     andthen (if thread_ready_list s1 = [] then thread_unblock (idle_thread s1) s1 else Inr s1) (\<lambda>s2.
     dispatch ret (running_thread s) s2)))"

definition thread_yield :: "kstate \<Rightarrow> kstate res" where
  "thread_yield s =
     (let now = running_thread s; (old_status, s) = k_intr_disable s
      in andthen (assert_c ''!node_find(&thread_ready_list, &now->general_node)''
           (now \<notin> set (thread_ready_list s))) (\<lambda>_.
         schedule old_status
           (set_status now TASK_READY (s\<lparr>thread_ready_list := thread_ready_list s @ [now]\<rparr>))))"

definition thread_block :: "task_status \<Rightarrow> kstate \<Rightarrow> kstate res" where
  "thread_block st s =
     andthen (assert_c ''TASK_BLOCKED || TASK_WAITING || TASK_HANGING''
       (st = TASK_BLOCKED \<or> st = TASK_WAITING \<or> st = TASK_HANGING)) (\<lambda>_.
     let (old_status, s) = k_intr_disable s
     in schedule old_status (set_status (running_thread s) st s))"

subsection \<open>The scheduling invariant\<close>

text \<open>
  \<open>queue_inv\<close> holds whenever \<^verbatim>\<open>schedule\<close> may be called: the ready list holds exactly
  the ready threads, each once, at most the current thread is marked as running, and the
  idle thread is running, ready or blocked. \<open>sched_inv\<close> adds that the current thread is
  alive and marked as running.
\<close>

definition queue_inv :: "kstate \<Rightarrow> bool" where
  "queue_inv s \<longleftrightarrow>
     distinct (thread_ready_list s) \<and> distinct (thread_all_list s) \<and>
     NULL \<notin> set (thread_all_list s) \<and>
     set (thread_ready_list s) \<subseteq> set (thread_all_list s) \<and>
     (\<forall>t \<in> set (thread_all_list s). status_of s t = TASK_READY \<longleftrightarrow> t \<in> set (thread_ready_list s)) \<and>
     (\<forall>t \<in> set (thread_all_list s). status_of s t = TASK_RUNNING \<longrightarrow> t = running_thread s) \<and>
     (status_of s (running_thread s) = TASK_RUNNING \<longrightarrow> running_thread s \<in> set (thread_all_list s)) \<and>
     idle_thread s \<in> set (thread_all_list s) \<and>
     status_of s (idle_thread s) \<in> {TASK_RUNNING, TASK_READY, TASK_BLOCKED}"

definition sched_inv :: "kstate \<Rightarrow> bool" where
  "sched_inv s \<longleftrightarrow> queue_inv s \<and> status_of s (running_thread s) = TASK_RUNNING"

lemma queue_invD:
  assumes "queue_inv s"
  shows "distinct (thread_ready_list s)" "distinct (thread_all_list s)" "NULL \<notin> set (thread_all_list s)"
    "set (thread_ready_list s) \<subseteq> set (thread_all_list s)" "idle_thread s \<in> set (thread_all_list s)"
    "\<And>t. t \<in> set (thread_all_list s) \<Longrightarrow> status_of s t = TASK_READY \<longleftrightarrow> t \<in> set (thread_ready_list s)"
    "\<And>t. t \<in> set (thread_all_list s) \<Longrightarrow> status_of s t = TASK_RUNNING \<Longrightarrow> t = running_thread s"
    "status_of s (running_thread s) = TASK_RUNNING \<Longrightarrow> running_thread s \<in> set (thread_all_list s)"
    "status_of s (idle_thread s) \<in> {TASK_RUNNING, TASK_READY, TASK_BLOCKED}"
  using assms unfolding queue_inv_def by blast+

lemma sched_invI:
  assumes "distinct (thread_ready_list s)" "distinct (thread_all_list s)" "NULL \<notin> set (thread_all_list s)"
    and "set (thread_ready_list s) \<subseteq> set (thread_all_list s)" "idle_thread s \<in> set (thread_all_list s)"
    and "\<And>t. t \<in> set (thread_all_list s) \<Longrightarrow> status_of s t = TASK_READY \<longleftrightarrow> t \<in> set (thread_ready_list s)"
    and "\<And>t. t \<in> set (thread_all_list s) \<Longrightarrow> status_of s t = TASK_RUNNING \<Longrightarrow> t = running_thread s"
    and "running_thread s \<in> set (thread_all_list s)" "status_of s (running_thread s) = TASK_RUNNING"
    and "status_of s (idle_thread s) \<in> {TASK_RUNNING, TASK_READY, TASK_BLOCKED}"
  shows "sched_inv s"
  unfolding sched_inv_def queue_inv_def using assms by blast

lemma queue_invI:
  assumes "distinct (thread_ready_list s)" "distinct (thread_all_list s)" "NULL \<notin> set (thread_all_list s)"
    and "set (thread_ready_list s) \<subseteq> set (thread_all_list s)" "idle_thread s \<in> set (thread_all_list s)"
    and "\<And>t. t \<in> set (thread_all_list s) \<Longrightarrow> status_of s t = TASK_READY \<longleftrightarrow> t \<in> set (thread_ready_list s)"
    and "\<And>t. t \<in> set (thread_all_list s) \<Longrightarrow> status_of s t = TASK_RUNNING \<Longrightarrow> t = running_thread s"
    and "status_of s (running_thread s) = TASK_RUNNING \<Longrightarrow> running_thread s \<in> set (thread_all_list s)"
    and "status_of s (idle_thread s) \<in> {TASK_RUNNING, TASK_READY, TASK_BLOCKED}"
  shows "queue_inv s"
  unfolding queue_inv_def using assms by blast

lemma running_not_queued:
  assumes "queue_inv s" and "status_of s (running_thread s) = TASK_RUNNING"
  shows "running_thread s \<notin> set (thread_ready_list s)"
  by (metis queue_invD(6) queue_invD(8) assms task_status.distinct(1))

lemma upd_pcb_simps [simp]:
  "running_thread (upd_pcb t f s) = running_thread s"
  "main_thread (upd_pcb t f s) = main_thread s"
  "idle_thread (upd_pcb t f s) = idle_thread s"
  "thread_ready_list (upd_pcb t f s) = thread_ready_list s"
  "thread_all_list (upd_pcb t f s) = thread_all_list s"
  "pid_bitmap (upd_pcb t f s) = pid_bitmap s"
  "pid_lock (upd_pcb t f s) = pid_lock s"
  "k_cpu (upd_pcb t f s) = k_cpu s"
  "k_cr3 (upd_pcb t f s) = k_cr3 s"
  "k_tss (upd_pcb t f s) = k_tss s"
  "k_vir2phy (upd_pcb t f s) = k_vir2phy s"
  "pcbs (upd_pcb t f s) = (pcbs s)(t := f (pcbs s t))"
  "upd_pcb t f (s\<lparr>thread_ready_list := l\<rparr>) = (upd_pcb t f s)\<lparr>thread_ready_list := l\<rparr>"
  by (simp_all add: upd_pcb_def)

lemma set_status_simps [simp]:
  "running_thread (set_status t st s) = running_thread s"
  "main_thread (set_status t st s) = main_thread s"
  "idle_thread (set_status t st s) = idle_thread s"
  "thread_ready_list (set_status t st s) = thread_ready_list s"
  "thread_all_list (set_status t st s) = thread_all_list s"
  "pid_bitmap (set_status t st s) = pid_bitmap s"
  "pid_lock (set_status t st s) = pid_lock s"
  "k_cpu (set_status t st s) = k_cpu s"
  "k_cr3 (set_status t st s) = k_cr3 s"
  "k_tss (set_status t st s) = k_tss s"
  "k_vir2phy (set_status t st s) = k_vir2phy s"
  "pcbs (set_status t st s) = (pcbs s)(t := pcbs s t\<lparr>status := st\<rparr>)"
  "set_status t st (s\<lparr>thread_ready_list := l\<rparr>) = (set_status t st s)\<lparr>thread_ready_list := l\<rparr>"
  by (simp_all add: set_status_def)

lemma set_status_twice [simp]: "set_status t st (set_status t st' s) = set_status t st s"
  by (simp add: set_status_def upd_pcb_def)

lemmas sched_defs = upd_pcb_def set_status_def k_intr_disable_def k_intr_set_status_def switch_to_def
  page_dir_activate_def Let_def split_beta

text \<open>The list the next thread is taken from.\<close>

definition candidates :: "kstate \<Rightarrow> u32 list" where
  "candidates s =
     (let r = (if status_of s (running_thread s) = TASK_RUNNING then thread_ready_list s @ [running_thread s]
               else thread_ready_list s)
      in if r = [] then [idle_thread s] else r)"

lemma candidates_nonempty [simp]: "candidates s \<noteq> []"
  by (simp add: candidates_def Let_def)

lemma thread_unblock_ok:
  assumes "status_of s t \<in> {TASK_BLOCKED, TASK_WAITING, TASK_HANGING}" and "t \<notin> set (thread_ready_list s)"
  shows "thread_unblock t s =
    Inr (set_status t TASK_READY (s\<lparr>thread_ready_list := t # thread_ready_list s\<rparr>))"
  using assms by (auto simp: thread_unblock_def sched_defs)

text \<open>What \<^verbatim>\<open>process_activate\<close> does when it does not panic.\<close>

definition activated :: "u32 \<Rightarrow> kstate \<Rightarrow> kstate" where
  "activated t s =
     s\<lparr>k_cr3 := (if pg_dir (pcbs s t) \<noteq> NULL then k_vir2phy s (pg_dir (pcbs s t)) else 0x100000),
       k_tss := (if pg_dir (pcbs s t) \<noteq> NULL then update_tss_esp t (k_tss s) else k_tss s)\<rparr>"

lemma process_activate_ok:
  "t \<noteq> NULL \<Longrightarrow> status_of s t = TASK_RUNNING \<Longrightarrow> process_activate t s = Inr (activated t s)"
  by (simp add: process_activate_def sched_defs activated_def)

lemma dispatch_ok:
  assumes "thread_ready_list s = nxt # rest" and "nxt \<noteq> NULL"
  shows "dispatch ret now s =
    Inr (switch_to ret now nxt (activated nxt (set_status nxt TASK_RUNNING (s\<lparr>thread_ready_list := rest\<rparr>))))"
  using assms by (simp add: dispatch_def process_activate_ok Let_def)

definition requeued :: "kstate \<Rightarrow> kstate" where
  "requeued s = (if status_of s (running_thread s) = TASK_RUNNING
     then upd_pcb (running_thread s) (\<lambda>p. p\<lparr>ticks := priority p, status := TASK_READY\<rparr>) s else s)"

definition scheduled :: "intr_status \<Rightarrow> kstate \<Rightarrow> kstate" where
  "scheduled ret s =
     (let nxt = hd (candidates s)
      in switch_to ret (running_thread s) nxt
           (activated nxt (set_status nxt TASK_RUNNING ((requeued s)\<lparr>thread_ready_list := tl (candidates s)\<rparr>))))"

lemma queue_inv_idle_ready:
  assumes "queue_inv s" and "thread_ready_list s = []" and "status_of s (running_thread s) \<noteq> TASK_RUNNING"
  shows "status_of s (idle_thread s) = TASK_BLOCKED" "idle_thread s \<noteq> NULL"
  using assms by (auto simp: queue_inv_def)

lemma candidates_alive:
  assumes "queue_inv s"
  shows "set (candidates s) \<subseteq> set (thread_all_list s)"
  using assms by (auto simp: candidates_def queue_inv_def Let_def)

lemma requeue_running_ok:
  assumes "queue_inv s"
  shows "requeue_running (running_thread s) s =
    Inr ((requeued s)\<lparr>thread_ready_list :=
      thread_ready_list s @ (if status_of s (running_thread s) = TASK_RUNNING then [running_thread s] else [])\<rparr>)"
proof (cases "status_of s (running_thread s) = TASK_RUNNING")
  case True
  then have "running_thread s \<notin> set (thread_ready_list s)"
    by (rule running_not_queued[OF assms])
  then show ?thesis
    by (simp add: requeue_running_def requeued_def True)
qed (simp add: requeue_running_def requeued_def)

lemma schedule_runs:
  assumes inv: "queue_inv s" and off: "intr_get_status (k_cpu s) = INTR_OFF"
  shows "schedule ret s = Inr (scheduled ret s)"
proof -
  obtain nxt rest where c: "candidates s = nxt # rest"
    using candidates_nonempty by (meson neq_Nil_conv)
  have alive: "nxt \<noteq> NULL"
    using candidates_alive[OF inv] inv c by (auto simp: queue_inv_def)
  let ?q = "thread_ready_list s @ (if status_of s (running_thread s) = TASK_RUNNING then [running_thread s] else [])"
  let ?s1 = "(requeued s)\<lparr>thread_ready_list := ?q\<rparr>"
  have "\<exists>s2. (if thread_ready_list ?s1 = [] then thread_unblock (idle_thread ?s1) ?s1 else Inr ?s1) = Inr s2 \<and>
      thread_ready_list s2 = nxt # rest \<and>
      set_status nxt TASK_RUNNING (s2\<lparr>thread_ready_list := rest\<rparr>) =
      set_status nxt TASK_RUNNING ((requeued s)\<lparr>thread_ready_list := rest\<rparr>)"
  proof (cases "?q = []")
    case True
    then have r: "thread_ready_list s = []" "status_of s (running_thread s) \<noteq> TASK_RUNNING"
      by (auto split: if_splits)
    note idle = queue_inv_idle_ready[OF inv r]
    have "nxt = idle_thread s" "rest = []"
      using c r by (auto simp: candidates_def)
    then show ?thesis
      using r idle by (simp add: requeued_def thread_unblock_ok)
  next
    case False
    then have "?q = nxt # rest"
      using c by (auto simp: candidates_def Let_def split: if_splits)
    then show ?thesis
      by simp
  qed
  then show ?thesis
    using off by (auto simp: schedule_def requeue_running_ok[OF inv] dispatch_ok alive scheduled_def c
        simp del: set_status_simps(13) cong: andthen_weak_cong)
qed

lemma activated_simps [simp]:
  "running_thread (activated t s) = running_thread s"
  "main_thread (activated t s) = main_thread s"
  "idle_thread (activated t s) = idle_thread s"
  "thread_ready_list (activated t s) = thread_ready_list s"
  "thread_all_list (activated t s) = thread_all_list s"
  "pid_bitmap (activated t s) = pid_bitmap s"
  "pid_lock (activated t s) = pid_lock s"
  "k_cpu (activated t s) = k_cpu s"
  "k_vir2phy (activated t s) = k_vir2phy s"
  "pcbs (activated t s) = pcbs s"
  by (simp_all add: activated_def)

lemma scheduled_simps [simp]:
  "running_thread (scheduled ret s) = hd (candidates s)"
  "main_thread (scheduled ret s) = main_thread s"
  "idle_thread (scheduled ret s) = idle_thread s"
  "thread_ready_list (scheduled ret s) = tl (candidates s)"
  "thread_all_list (scheduled ret s) = thread_all_list s"
  "pid_bitmap (scheduled ret s) = pid_bitmap s"
  "pid_lock (scheduled ret s) = pid_lock s"
  "k_vir2phy (scheduled ret s) = k_vir2phy s"
  by (simp_all add: scheduled_def requeued_def switch_to_def k_intr_set_status_def Let_def)

lemma scheduled_status:
  "status_of (scheduled ret s) t =
    (if t = hd (candidates s) then TASK_RUNNING
     else if t = running_thread s \<and> status_of s t = TASK_RUNNING then TASK_READY else status_of s t)"
  by (simp add: scheduled_def requeued_def switch_to_def k_intr_set_status_def Let_def)

lemma scheduled_pcb:
  "t \<noteq> running_thread s \<Longrightarrow> t \<noteq> hd (candidates s) \<Longrightarrow> pcbs (scheduled ret s) t = pcbs s t"
  by (simp add: scheduled_def requeued_def switch_to_def k_intr_set_status_def Let_def)

lemma intr_get_status_set [simp]: "intr_get_status (snd (intr_set_status st c)) = st"
  by (cases st) (simp_all add: intr_set_status_def)

lemma scheduled_intr:
  "intr_get_status (k_cpu (scheduled ret s)) =
    (if hd (candidates s) = running_thread s then ret else resume_status (pcbs s (hd (candidates s))))"
  by (simp add: scheduled_def requeued_def switch_to_def k_intr_set_status_def Let_def)

lemma scheduled_resume:
  "resume_status (pcbs (scheduled ret s) t) = (if t = running_thread s then ret else resume_status (pcbs s t))"
  by (simp add: scheduled_def requeued_def switch_to_def k_intr_set_status_def Let_def)

lemma scheduled_magic [simp]: "stack_magic (pcbs (scheduled ret s) t) = stack_magic (pcbs s t)"
  by (simp add: scheduled_def requeued_def switch_to_def k_intr_set_status_def Let_def)

text \<open>The hardware context of the next thread: its page directory, and its kernel stack in the TSS.\<close>

lemma scheduled_context:
  "k_cr3 (scheduled ret s) = (if pg_dir (pcbs s (hd (candidates s))) \<noteq> NULL
     then k_vir2phy s (pg_dir (pcbs s (hd (candidates s)))) else 0x100000)"
  "pg_dir (pcbs s (hd (candidates s))) \<noteq> NULL \<Longrightarrow>
     k_tss (scheduled ret s) = update_tss_esp (hd (candidates s)) (k_tss s)"
  by (auto simp: scheduled_def requeued_def activated_def switch_to_def k_intr_set_status_def Let_def)

lemma candidates_distinct:
  assumes "queue_inv s"
  shows "distinct (candidates s)"
  using queue_invD(1)[OF assms] running_not_queued[OF assms]
  by (auto simp: candidates_def Let_def)

lemma candidates_set:
  assumes inv: "queue_inv s" and t: "t \<in> set (thread_all_list s)"
  shows "t \<in> set (candidates s) \<longleftrightarrow> status_of s t \<in> {TASK_READY, TASK_RUNNING} \<or>
    (t = idle_thread s \<and> thread_ready_list s = [] \<and> status_of s (running_thread s) \<noteq> TASK_RUNNING)"
  using queue_invD(6,7)[OF inv t] by (auto simp: candidates_def Let_def)

lemma scheduled_inv:
  assumes inv: "queue_inv s"
  shows "sched_inv (scheduled ret s)"
proof -
  obtain nxt rest where c: "candidates s = nxt # rest"
    using candidates_nonempty by (meson neq_Nil_conv)
  have d: "nxt \<notin> set rest" "distinct rest"
    using candidates_distinct[OF inv] c by simp_all
  have sub: "nxt \<in> set (thread_all_list s)" "set rest \<subseteq> set (thread_all_list s)"
    using candidates_alive[OF inv] c by simp_all
  have only_idle: "rest = []" if "thread_ready_list s = []" "status_of s (running_thread s) \<noteq> TASK_RUNNING"
    using that c by (simp add: candidates_def)
  have ready: "status_of (scheduled ret s) t = TASK_READY \<longleftrightarrow> t \<in> set rest"
    if "t \<in> set (thread_all_list s)" for t
    using candidates_set[OF inv that] queue_invD(7)[OF inv that] d(1) only_idle
    by (auto simp: scheduled_status c)
  have running: "t = nxt"
    if "t \<in> set (thread_all_list s)" "status_of (scheduled ret s) t = TASK_RUNNING" for t
    using that queue_invD(7)[OF inv that(1)] by (auto simp: scheduled_status c split: if_splits)
  have idle: "status_of (scheduled ret s) (idle_thread s) \<in> {TASK_RUNNING, TASK_READY, TASK_BLOCKED}"
    using queue_invD(9)[OF inv] by (auto simp: scheduled_status)
  show ?thesis
  proof (rule sched_invI)
    fix t assume "t \<in> set (thread_all_list (scheduled ret s))"
    then show "status_of (scheduled ret s) t = TASK_READY \<longleftrightarrow> t \<in> set (thread_ready_list (scheduled ret s))"
      using ready by (simp add: c)
  next
    fix t assume "t \<in> set (thread_all_list (scheduled ret s))" "status_of (scheduled ret s) t = TASK_RUNNING"
    then show "t = running_thread (scheduled ret s)"
      using running by (simp add: c)
  qed (use d sub idle queue_invD(2,3,5)[OF inv] in \<open>simp_all add: c scheduled_status\<close>)
qed

text \<open>Marking the current thread as no longer running leaves a state that may be scheduled.\<close>

lemma queue_inv_off [simp]: "queue_inv (s\<lparr>k_cpu := c\<rparr>) = queue_inv s"
  by (simp add: queue_inv_def)

lemma sched_inv_intr [simp]: "sched_inv (s\<lparr>k_cpu := c\<rparr>) = sched_inv s"
  by (simp add: sched_inv_def)

lemma queue_inv_suspend:
  assumes inv: "sched_inv s" and st: "st \<notin> {TASK_RUNNING, TASK_READY}"
    and idle: "running_thread s = idle_thread s \<Longrightarrow> st = TASK_BLOCKED"
  shows "queue_inv (set_status (running_thread s) st s)"
proof -
  have q: "queue_inv s" and r: "status_of s (running_thread s) = TASK_RUNNING"
    using inv by (simp_all add: sched_inv_def)
  show ?thesis
  proof (rule queue_invI)
    fix t assume t: "t \<in> set (thread_all_list (set_status (running_thread s) st s))"
    then have t': "t \<in> set (thread_all_list s)" by simp
    note facts = queue_invD(6)[OF q t'] running_not_queued[OF q r] st
    show "(status_of (set_status (running_thread s) st s) t = TASK_READY) =
        (t \<in> set (thread_ready_list (set_status (running_thread s) st s)))"
      using facts by auto
    show "t = running_thread (set_status (running_thread s) st s)"
      if "status_of (set_status (running_thread s) st s) t = TASK_RUNNING"
      using that queue_invD(7)[OF q t'] by (auto split: if_splits)
  qed (use queue_invD(1-5,9)[OF q] st idle in auto)
qed

lemma queue_inv_yield:
  assumes inv: "sched_inv s"
  shows "queue_inv (set_status (running_thread s) TASK_READY
    (s\<lparr>thread_ready_list := thread_ready_list s @ [running_thread s]\<rparr>))"
proof -
  have q: "queue_inv s" and r: "status_of s (running_thread s) = TASK_RUNNING"
    using inv by (simp_all add: sched_inv_def)
  show ?thesis
  proof (rule queue_invI, goal_cases)
    case (6 t)
    then have t: "t \<in> set (thread_all_list s)" by simp
    show ?case
      using queue_invD(6)[OF q t] by auto
  next
    case (7 t)
    then have t: "t \<in> set (thread_all_list s)" by simp
    show ?case
      using 7 queue_invD(7)[OF q t] by (auto split: if_splits)
  qed (use queue_invD(1-5,8,9)[OF q] r running_not_queued[OF q r] in auto)
qed

text \<open>The threads that wait for something keep waiting when the processor is given away.\<close>

definition keeps_suspended :: "kstate \<Rightarrow> kstate \<Rightarrow> bool" where
  "keeps_suspended s s' \<longleftrightarrow> (\<forall>u \<in> set (thread_all_list s). u \<noteq> idle_thread s \<longrightarrow> u \<noteq> running_thread s \<longrightarrow>
     status_of s u \<notin> {TASK_READY, TASK_RUNNING} \<longrightarrow> status_of s' u = status_of s u)"

lemma scheduled_keeps_suspended:
  assumes inv: "queue_inv s" and u: "u \<in> set (thread_all_list s)" "u \<noteq> idle_thread s"
    "status_of s u \<notin> {TASK_READY, TASK_RUNNING}"
  shows "status_of (scheduled ret s) u = status_of s u"
proof -
  have "u \<notin> set (candidates s)"
    using candidates_set[OF inv u(1)] u by simp
  then have "u \<noteq> hd (candidates s)"
    by (metis candidates_nonempty list.set_sel(1))
  then show ?thesis
    using u(3) by (simp add: scheduled_status)
qed

lemma thread_yield_spec:
  assumes inv: "sched_inv s"
  shows "\<exists>s'. thread_yield s = Inr s' \<and> sched_inv s' \<and> thread_all_list s' = thread_all_list s \<and>
    idle_thread s' = idle_thread s \<and> (\<forall>u. stack_magic (pcbs s' u) = stack_magic (pcbs s u)) \<and>
    keeps_suspended s s' \<and>
    running_thread s' # thread_ready_list s' = thread_ready_list s @ [running_thread s]"
proof -
  let ?s = "set_status (running_thread s) TASK_READY
    (s\<lparr>k_cpu := snd (intr_disable (k_cpu s)), thread_ready_list := thread_ready_list s @ [running_thread s]\<rparr>)"
  have q: "queue_inv s" and r: "status_of s (running_thread s) = TASK_RUNNING"
    using inv by (simp_all add: sched_inv_def)
  have "queue_inv ?s"
    using queue_inv_yield[of "s\<lparr>k_cpu := snd (intr_disable (k_cpu s))\<rparr>"] inv by simp
  moreover have "thread_yield s = schedule (intr_get_status (k_cpu s)) ?s"
    using running_not_queued[OF q r] by (simp add: thread_yield_def k_intr_disable_def Let_def)
  moreover have "candidates ?s = thread_ready_list s @ [running_thread s]"
    by (simp add: candidates_def)
  moreover have "keeps_suspended s (scheduled (intr_get_status (k_cpu s)) ?s)" if "queue_inv ?s"
    using scheduled_keeps_suspended[OF that] by (simp add: keeps_suspended_def)
  ultimately show ?thesis
    using schedule_runs[of ?s] scheduled_inv[of ?s] by simp
qed

lemma thread_block_spec:
  assumes inv: "sched_inv s" and st: "st \<in> {TASK_BLOCKED, TASK_WAITING, TASK_HANGING}"
    and idle: "running_thread s = idle_thread s \<Longrightarrow> st = TASK_BLOCKED"
  shows "\<exists>s'. thread_block st s = Inr s' \<and> sched_inv s' \<and> thread_all_list s' = thread_all_list s \<and>
    idle_thread s' = idle_thread s \<and> (\<forall>u. stack_magic (pcbs s' u) = stack_magic (pcbs s u)) \<and>
    keeps_suspended s s' \<and>
    (running_thread s \<noteq> running_thread s' \<longrightarrow> status_of s' (running_thread s) = st) \<and>
    resume_status (pcbs s' (running_thread s)) = intr_get_status (k_cpu s) \<and>
    running_thread s' # thread_ready_list s' =
      (if thread_ready_list s = [] then [idle_thread s] else thread_ready_list s)"
proof -
  let ?s = "set_status (running_thread s) st (s\<lparr>k_cpu := snd (intr_disable (k_cpu s))\<rparr>)"
  have "queue_inv ?s"
    using queue_inv_suspend[of "s\<lparr>k_cpu := snd (intr_disable (k_cpu s))\<rparr>" st] inv st idle by auto
  moreover have "thread_block st s = schedule (intr_get_status (k_cpu s)) ?s"
    using st by (auto simp: thread_block_def k_intr_disable_def)
  moreover have "candidates ?s = (if thread_ready_list s = [] then [idle_thread s] else thread_ready_list s)"
    using st by (auto simp: candidates_def)
  moreover have "resume_status (pcbs (scheduled (intr_get_status (k_cpu s)) ?s) (running_thread s)) = intr_get_status (k_cpu s)"
    by (simp add: scheduled_resume)
  moreover have "status_of (scheduled (intr_get_status (k_cpu s)) ?s) (running_thread s) = st"
    if "running_thread s \<noteq> hd (candidates ?s)"
    using that st by (auto simp: scheduled_status)
  moreover have "keeps_suspended s (scheduled (intr_get_status (k_cpu s)) ?s)" if "queue_inv ?s"
    using scheduled_keeps_suspended[OF that] by (simp add: keeps_suspended_def)
  ultimately show ?thesis
    using schedule_runs[of ?s] scheduled_inv[of ?s] by simp
qed

lemma thread_block_suspends:
  assumes inv: "sched_inv s" and t: "running_thread s \<noteq> idle_thread s" and b: "thread_block TASK_BLOCKED s = Inr s'"
  shows "sched_inv s' \<and> running_thread s' \<noteq> running_thread s \<and> status_of s' (running_thread s) = TASK_BLOCKED \<and>
    running_thread s \<in> set (thread_all_list s') \<and>
    resume_status (pcbs s' (running_thread s)) = intr_get_status (k_cpu s)"
proof -
  let ?t = "running_thread s"
  have q: "queue_inv s" "status_of s ?t = TASK_RUNNING"
    using inv by (simp_all add: sched_inv_def)
  have s': "sched_inv s'" "thread_all_list s' = thread_all_list s"
    "?t \<noteq> running_thread s' \<longrightarrow> status_of s' ?t = TASK_BLOCKED"
    "resume_status (pcbs s' ?t) = intr_get_status (k_cpu s)"
    "running_thread s' # thread_ready_list s' = (if thread_ready_list s = [] then [idle_thread s] else thread_ready_list s)"
    using thread_block_spec[OF inv, of TASK_BLOCKED] b by auto
  have "running_thread s' \<in> set (if thread_ready_list s = [] then [idle_thread s] else thread_ready_list s)"
    by (simp only: s'(5)[symmetric] list.set_intros)
  then have "running_thread s' \<noteq> ?t"
    using t running_not_queued[OF q] by (auto split: if_splits)
  then show ?thesis
    using s' queue_invD(8)[OF q(1) q(2)] by simp
qed

lemma thread_unblock_spec:
  assumes inv: "sched_inv s" and t: "t \<in> set (thread_all_list s)"
    and st: "status_of s t \<in> {TASK_BLOCKED, TASK_WAITING, TASK_HANGING}"
  shows "\<exists>s'. thread_unblock t s = Inr s' \<and> sched_inv s' \<and> thread_all_list s' = thread_all_list s \<and>
    idle_thread s' = idle_thread s \<and> (\<forall>u. stack_magic (pcbs s' u) = stack_magic (pcbs s u)) \<and>
    (\<forall>u. u \<noteq> t \<longrightarrow> status_of s' u = status_of s u) \<and> k_cpu s' = k_cpu s \<and> running_thread s' = running_thread s \<and>
    thread_ready_list s' = t # thread_ready_list s"
proof -
  have q: "queue_inv s" and r: "status_of s (running_thread s) = TASK_RUNNING"
    using inv by (simp_all add: sched_inv_def)
  have nq: "t \<notin> set (thread_ready_list s)"
    using queue_invD(6)[OF q t] st by auto
  have "sched_inv (set_status t TASK_READY (s\<lparr>thread_ready_list := t # thread_ready_list s\<rparr>))"
  proof (rule sched_invI, goal_cases)
    case (6 u)
    then have u: "u \<in> set (thread_all_list s)" by simp
    show ?case
      using queue_invD(6)[OF q u] by auto
  next
    case (7 u)
    then have u: "u \<in> set (thread_all_list s)" by simp
    show ?case
      using 7 queue_invD(7)[OF q u] by (auto split: if_splits)
  qed (use queue_invD(1-5,8,9)[OF q] r nq t st in auto)
  then show ?thesis
    by (simp add: thread_unblock_ok[OF st nq])
qed

subsection \<open>Round robin\<close>

primrec yields :: "nat \<Rightarrow> kstate \<Rightarrow> kstate res" where
  "yields 0 s = Inr s"
| "yields (Suc n) s = andthen (yields n s) thread_yield"

text \<open>
  C37. Voluntary switching is fair: from any state of the scheduler in which the invariant holds, every
  number of calls of \<^verbatim>\<open>thread_yield\<close> runs without a panic, keeps the invariant, and rotates
  the cycle formed by the running thread and the ready list, so the thread at position \<open>i\<close> of the
  ready list runs after \<open>i + 1\<close> calls.
\<close>

theorem thread_yield_round_robin:
  assumes "sched_inv s"
  shows "\<exists>s'. yields n s = Inr s' \<and> sched_inv s' \<and> thread_all_list s' = thread_all_list s \<and>
    running_thread s' # thread_ready_list s' = rotate n (running_thread s # thread_ready_list s)"
proof (induction n)
  case 0
  then show ?case
    using assms by simp
next
  case (Suc n)
  then obtain s' where s': "yields n s = Inr s'" "sched_inv s'" "thread_all_list s' = thread_all_list s"
    "running_thread s' # thread_ready_list s' = rotate n (running_thread s # thread_ready_list s)"
    by blast
  obtain s'' where "thread_yield s' = Inr s''" "sched_inv s''" "thread_all_list s'' = thread_all_list s'"
    "running_thread s'' # thread_ready_list s'' = thread_ready_list s' @ [running_thread s']"
    using thread_yield_spec[OF s'(2)] by blast
  moreover have "rotate (Suc n) (running_thread s # thread_ready_list s) =
      thread_ready_list s' @ [running_thread s']"
    using s'(4)[symmetric] by (simp add: rotate_Suc)
  ultimately show ?case
    using s'(1,3) by simp
qed

text \<open>A concrete kernel with three threads: the main thread runs, the idle thread and one more are ready.\<close>

definition pcb0 :: pcb where
  "pcb0 = \<lparr>self_kstack = 0, pid = 0, status = TASK_READY, name = [], priority = 10, ticks = 10,
     elapsed_ticks = 0, pg_dir = 0, parent_pid = - 1, exit_status = 0, stack_magic = STACK_MAGIC,
     kstack = \<lparr>ts_ebp = 0, ts_ebx = 0, ts_edi = 0, ts_esi = 0, ts_eip = 0, ts_unused_retaddr = 0, ts_func = 0, ts_func_arg = 0\<rparr>,
     resume_status = INTR_ON\<rparr>"

definition kstate0 :: kstate where
  "kstate0 = \<lparr>pcbs = (\<lambda>_. pcb0)(0x1000 := pcb0\<lparr>status := TASK_RUNNING\<rparr>), running_thread = 0x1000,
     main_thread = 0x1000, idle_thread = 0x2000, thread_ready_list = [0x2000, 0x3000],
     thread_all_list = [0x1000, 0x2000, 0x3000], pid_bitmap = \<lparr>bm_len = 128, bm_bits = replicate 128 0\<rparr>,
     pid_lock = \<lparr>holder = 0, lock_sema = \<lparr>sema_value = 1, waiters = []\<rparr>, holder_repeat_cnt = 0\<rparr>,
     k_cpu = \<lparr>eflags = 0x200\<rparr>, k_cr3 = 0, k_tss = tss_zero, k_vir2phy = id\<rparr>"

lemma kstate0_inv: "sched_inv kstate0"
  by (simp add: sched_inv_def queue_inv_def kstate0_def pcb0_def NULL_def)

theorem thread_yield_round_robin_witness:
  "\<exists>s'. yields 2 kstate0 = Inr s' \<and> sched_inv s' \<and> running_thread s' = 0x3000 \<and>
    thread_ready_list s' = [0x1000, 0x2000]"
  using thread_yield_round_robin[OF kstate0_inv, of 2]
  by (auto simp: kstate0_def numeral_2_eq_2 rotate1_def)

text \<open>
  Blocking and waking never break the scheduler: in a state in which the invariant holds,
  \<^verbatim>\<open>thread_block\<close> passes every assertion on its way, leaves the caller out of the ready list
  with the status it asked for, and continues the head of the ready list, or the idle thread when that
  list is empty; \<^verbatim>\<open>thread_unblock\<close> of a thread that waits puts it at the front of the ready list,
  without changing who runs or whether interrupts are on. The invariant holds afterwards.
\<close>

theorem thread_block_unblock_safe:
  assumes "sched_inv s"
  shows "(st \<in> {TASK_BLOCKED, TASK_WAITING, TASK_HANGING} \<longrightarrow>
      (running_thread s = idle_thread s \<longrightarrow> st = TASK_BLOCKED) \<longrightarrow>
      (\<exists>s'. thread_block st s = Inr s' \<and> sched_inv s' \<and>
        (running_thread s \<noteq> running_thread s' \<longrightarrow> status_of s' (running_thread s) = st) \<and>
        running_thread s' # thread_ready_list s' =
          (if thread_ready_list s = [] then [idle_thread s] else thread_ready_list s))) \<and>
    (t \<in> set (thread_all_list s) \<longrightarrow> status_of s t \<in> {TASK_BLOCKED, TASK_WAITING, TASK_HANGING} \<longrightarrow>
      (\<exists>s'. thread_unblock t s = Inr s' \<and> sched_inv s' \<and> k_cpu s' = k_cpu s \<and>
        running_thread s' = running_thread s \<and> thread_ready_list s' = t # thread_ready_list s))"
  using thread_block_spec[OF assms] thread_unblock_spec[OF assms] by blast

theorem thread_block_unblock_safe_witness:
  "(\<exists>s'. thread_block TASK_BLOCKED kstate0 = Inr s' \<and> sched_inv s' \<and> running_thread s' = 0x2000 \<and>
      thread_ready_list s' = [0x3000]) \<and>
   (\<exists>s'. thread_unblock 0x3000 (kstate0\<lparr>thread_ready_list := [0x2000],
      pcbs := (pcbs kstate0)(0x3000 := pcb0\<lparr>status := TASK_WAITING\<rparr>)\<rparr>) = Inr s' \<and> sched_inv s' \<and>
      thread_ready_list s' = [0x3000, 0x2000])"
proof -
  let ?s = "kstate0\<lparr>thread_ready_list := [0x2000],
      pcbs := (pcbs kstate0)(0x3000 := pcb0\<lparr>status := TASK_WAITING\<rparr>)\<rparr>"
  have "sched_inv ?s"
    by (simp add: sched_inv_def queue_inv_def kstate0_def pcb0_def NULL_def)
  then show ?thesis
    using thread_block_unblock_safe[OF kstate0_inv, of TASK_BLOCKED 0] thread_block_unblock_safe[of ?s TASK_BLOCKED "0x3000"]
    by (auto simp: kstate0_def)
qed

end
