(* ===== verification/Timer.thy ===== *)
theory Timer
  imports Sched
begin

text \<open>
  The clock: \<^verbatim>\<open>src/device/timer.c\<close>. The timer interrupt charges the running thread for a tick and
  calls \<^verbatim>\<open>schedule\<close> when its time slice is used up; the programming of the counter is the
  sequence of bytes written to the ports; sleeping is a loop of \<^verbatim>\<open>thread_yield\<close> calls.

  The theory ends with the step relation of the scheduler: what threads and the clock do to it, and the
  invariant of every state that can be reached.
\<close>

subsection \<open>Programming the counter\<close>

definition frequency_set :: "u8 \<Rightarrow> u8 \<Rightarrow> u8 \<Rightarrow> u8 \<Rightarrow> u16 \<Rightarrow> (u16 \<times> u8) list" where
  "frequency_set counter_port counter_no rwl counter_mode counter_value =
     [(0x43, push_bit 6 counter_no OR push_bit 4 rwl OR push_bit 1 counter_mode),
      (ucast counter_port, ucast counter_value),
      (ucast counter_port, drop_bit 8 (ucast counter_value))]"

definition COUNTER0_VALUE :: u16 where "COUNTER0_VALUE = word_of_nat (1193180 div 100)"

definition timer_init_ports :: "(u16 \<times> u8) list" where
  "timer_init_ports = frequency_set 0x40 0 3 2 COUNTER0_VALUE"

subsection \<open>The interrupt handler\<close>

record tstate =
  kern :: kstate
  ticks_total :: u32
  FHL_count :: u32
  corner_char :: u8

definition FHL_char :: "u32 \<Rightarrow> u8" where
  "FHL_char n = (if n = 0 then 0x7C else if n = 1 then 0x2F else 0x5C)"

definition charge_tick :: "kstate \<Rightarrow> kstate res" where
  "charge_tick s =
     (let now = running_thread s
      in andthen (assert_c ''now_thread->stack_magic == 0x12345678'' (stack_magic (pcbs s now) = STACK_MAGIC)) (\<lambda>_.
         let s1 = upd_pcb now (\<lambda>p. p\<lparr>elapsed_ticks := elapsed_ticks p + 1\<rparr>) s
         in if ticks (pcbs s1 now) = 0 then schedule INTR_ON s1
            else Inr (upd_pcb now (\<lambda>p. p\<lparr>ticks := ticks p - 1\<rparr>) s1)))"

definition intr_timer_handler :: "tstate \<Rightarrow> tstate res" where
  "intr_timer_handler ts =
     (let n = (FHL_count ts + 1) mod 3
      in andthen (charge_tick (kern ts)) (\<lambda>k.
         Inr (ts\<lparr>FHL_count := n, corner_char := FHL_char n, kern := k, ticks_total := ticks_total ts + 1\<rparr>)))"

text \<open>
  The interrupt as the running thread sees it: it is delivered only while interrupts are on, entering
  the gate turns them off, and returning to the interrupted thread turns them on again. When the handler
  switched to another thread, that one has restored its own status.
\<close>

definition timer_interrupt :: "tstate \<Rightarrow> tstate res" where
  "timer_interrupt ts =
     (if intr_get_status (k_cpu (kern ts)) = INTR_OFF then Inr ts
      else andthen (intr_timer_handler (ts\<lparr>kern := snd (k_intr_disable (kern ts))\<rparr>)) (\<lambda>ts1.
        if running_thread (kern ts1) = running_thread (kern ts)
        then Inr (ts1\<lparr>kern := k_intr_set_status INTR_ON (kern ts1)\<rparr>) else Inr ts1))"

subsection \<open>Sleeping\<close>

definition ms_sleep_ticks :: "u32 \<Rightarrow> u32 res" where
  "ms_sleep_ticks ms =
     (let sleep_ticks = (ms + 10 - 1) div 10
      in andthen (assert_c ''sleep_ticks > 0'' (sleep_ticks > 0)) (\<lambda>_. Inr sleep_ticks))"

text \<open>
  \<^verbatim>\<open>ticks_to_sleep\<close>: the loop reads the clock, which runs on while the thread has yielded. The list
  holds the readings of \<open>ticks\<close> the loop makes; the result is the number of yields, and \<open>None\<close> means that
  the loop is still waiting after the last reading.
\<close>

fun ticks_to_sleep :: "u32 \<Rightarrow> u32 \<Rightarrow> u32 list \<Rightarrow> nat option" where
  "ticks_to_sleep start_tick sleep_ticks [] = None"
| "ticks_to_sleep start_tick sleep_ticks (now # later) =
     (if now - start_tick < sleep_ticks
      then map_option Suc (ticks_to_sleep start_tick sleep_ticks later) else Some 0)"

subsection \<open>What the counter is loaded with\<close>

text \<open>The reload value the chip sees: low byte first, then high byte.\<close>

definition reload_value :: "(u16 \<times> u8) list \<Rightarrow> u16 option" where
  "reload_value ports = (case ports of [_, (p, lo), (q, hi)] \<Rightarrow>
     if p = q then Some (ucast lo OR push_bit 8 (ucast hi)) else None | _ \<Rightarrow> None)"

text \<open>
  \<^verbatim>\<open>frequency_set\<close> casts the counter value to a byte before it shifts, so the high byte it writes is
  always 0 and the counter is loaded with the value modulo 256; \<^verbatim>\<open>timer_init\<close>, which asks for
  11931 pulses per interrupt (100 Hz), programs 155.
\<close>

theorem frequency_set_high_byte_lost:
  "reload_value (frequency_set port no rwl mode v) = Some (v AND 0xFF) \<and>
   COUNTER0_VALUE = 11931 \<and> reload_value timer_init_ports = Some 155"
proof -
  have "drop_bit 8 (ucast v :: u8) = 0" for v :: u16
    by (rule bit_word_eqI) (auto simp: bit_simps dest: bit_imp_le_length)
  moreover have "ucast (ucast v :: u8) = v AND 0xFF" for v :: u16
    by (rule bit_word_eqI) (auto simp: bit_simps mask_literals)
  ultimately show ?thesis
    by (simp add: reload_value_def frequency_set_def timer_init_ports_def COUNTER0_VALUE_def)
qed

subsection \<open>Sleeping lasts as long as asked for\<close>

lemma ticks_to_sleep_sound:
  assumes "ticks_to_sleep start n readings = Some k"
  shows "k < length readings \<and> readings ! k - start \<ge> n \<and> (\<forall>i < k. readings ! i - start < n)"
  using assms
proof (induction start n readings arbitrary: k rule: ticks_to_sleep.induct)
  case (2 start n now later)
  show ?case
  proof (cases "now - start < n")
    case True
    then obtain j where j: "ticks_to_sleep start n later = Some j" "k = Suc j"
      using 2(2) by auto
    then show ?thesis
      using 2(1)[OF True j(1)] True by (auto simp: nth_Cons split: nat.splits)
  next
    case False
    then show ?thesis
      using 2(2) by simp
  qed
qed simp

lemma ticks_to_sleep_returns:
  assumes "r \<in> set readings" and "r - start \<ge> n"
  shows "\<exists>k. ticks_to_sleep start n readings = Some k"
  using assms by (induction readings) (auto simp: not_less)

subsection \<open>Time slices\<close>

definition magic_inv :: "kstate \<Rightarrow> bool" where
  "magic_inv s \<longleftrightarrow> (\<forall>t \<in> set (thread_all_list s). stack_magic (pcbs s t) = STACK_MAGIC)"

lemma queue_inv_upd:
  assumes "\<And>p. status (f p) = status p"
  shows "queue_inv (upd_pcb t f s) = queue_inv s" and "sched_inv (upd_pcb t f s) = sched_inv s"
    and "candidates (upd_pcb t f s) = candidates s"
proof -
  have "status_of (upd_pcb t f s) u = status_of s u" for u
    using assms by simp
  then show "queue_inv (upd_pcb t f s) = queue_inv s" "sched_inv (upd_pcb t f s) = sched_inv s"
    "candidates (upd_pcb t f s) = candidates s"
    unfolding sched_inv_def queue_inv_def candidates_def Let_def by (simp_all del: upd_pcb_simps(12))
qed

lemma candidates_cpu [simp]: "candidates (s\<lparr>k_cpu := c\<rparr>) = candidates s"
  by (simp add: candidates_def Let_def)

lemma sched_inv_running:
  "sched_inv s \<Longrightarrow> running_thread s \<in> set (thread_all_list s) \<and> status_of s (running_thread s) = TASK_RUNNING"
  using queue_invD(8) by (auto simp: sched_inv_def)

lemma timer_interrupt_within_slice:
  assumes inv: "sched_inv (kern ts)" "magic_inv (kern ts)" and on: "intr_get_status (k_cpu (kern ts)) = INTR_ON"
    and tk: "ticks (pcbs (kern ts) (running_thread (kern ts))) \<noteq> 0"
  shows "timer_interrupt ts = Inr (ts\<lparr>FHL_count := (FHL_count ts + 1) mod 3,
      corner_char := FHL_char ((FHL_count ts + 1) mod 3), ticks_total := ticks_total ts + 1,
      kern := k_intr_set_status INTR_ON (upd_pcb (running_thread (kern ts))
        (\<lambda>p. p\<lparr>elapsed_ticks := elapsed_ticks p + 1, ticks := ticks p - 1\<rparr>)
        ((kern ts)\<lparr>k_cpu := snd (intr_disable (k_cpu (kern ts)))\<rparr>))\<rparr>)"
proof -
  have "stack_magic (pcbs (kern ts) (running_thread (kern ts))) = STACK_MAGIC"
    using inv sched_inv_running by (auto simp: magic_inv_def)
  then show ?thesis
    using on tk by (simp add: timer_interrupt_def intr_timer_handler_def charge_tick_def k_intr_disable_def
        upd_pcb_def k_intr_set_status_def Let_def)
qed

lemma timer_interrupt_slice_used_up:
  assumes inv: "sched_inv (kern ts)" "magic_inv (kern ts)" and on: "intr_get_status (k_cpu (kern ts)) = INTR_ON"
    and tk: "ticks (pcbs (kern ts) (running_thread (kern ts))) = 0"
  shows "\<exists>ts'. timer_interrupt ts = Inr ts' \<and> sched_inv (kern ts') \<and> magic_inv (kern ts') \<and>
    ticks_total ts' = ticks_total ts + 1 \<and> thread_all_list (kern ts') = thread_all_list (kern ts) \<and>
    idle_thread (kern ts') = idle_thread (kern ts) \<and> keeps_suspended (kern ts) (kern ts') \<and>
    running_thread (kern ts') # thread_ready_list (kern ts') =
      thread_ready_list (kern ts) @ [running_thread (kern ts)] \<and>
    ticks (pcbs (kern ts') (running_thread (kern ts))) = priority (pcbs (kern ts) (running_thread (kern ts)))"
proof -
  let ?t = "running_thread (kern ts)"
  let ?s = "upd_pcb ?t (\<lambda>p. p\<lparr>elapsed_ticks := elapsed_ticks p + 1\<rparr>)
    ((kern ts)\<lparr>k_cpu := snd (intr_disable (k_cpu (kern ts)))\<rparr>)"
  have magic: "stack_magic (pcbs (kern ts) ?t) = STACK_MAGIC"
    using inv sched_inv_running by (auto simp: magic_inv_def)
  have q: "queue_inv ?s"
    using inv(1) by (simp add: queue_inv_upd sched_inv_def)
  have charged: "charge_tick (snd (k_intr_disable (kern ts))) = Inr (scheduled INTR_ON ?s)"
    using magic tk schedule_runs[OF q] by (simp add: charge_tick_def k_intr_disable_def Let_def)
  have c: "candidates ?s = thread_ready_list (kern ts) @ [?t]"
    using sched_inv_running[OF inv(1)] by (simp add: queue_inv_upd) (simp add: candidates_def)
  have tk': "ticks (pcbs (scheduled INTR_ON ?s) ?t) = priority (pcbs (kern ts) ?t)"
    using sched_inv_running[OF inv(1)]
    by (simp add: scheduled_def requeued_def switch_to_def k_intr_set_status_def Let_def)
  have all: "sched_inv (scheduled INTR_ON ?s)" "magic_inv (scheduled INTR_ON ?s)"
    using scheduled_inv[OF q] inv(2) by (simp_all add: magic_inv_def)
  have ks: "keeps_suspended (kern ts) (scheduled INTR_ON ?s)"
    using scheduled_keeps_suspended[OF q] by (simp add: keeps_suspended_def)
  obtain x xs where x: "thread_ready_list (kern ts) @ [?t] = x # xs"
    by (meson neq_Nil_conv snoc_eq_iff_butlast)
  then show ?thesis
    using on charged c tk' all ks
    by (auto simp: timer_interrupt_def intr_timer_handler_def k_intr_set_status_def magic_inv_def
        keeps_suspended_def Let_def)
qed

lemma ucast_Suc_pred: "n \<noteq> 0 \<Longrightarrow> (ucast n :: u32) = 1 + ucast (n - 1)" for n :: u8
proof -
  assume "n \<noteq> 0"
  then have "unat n = Suc (unat (n - 1))"
    by (simp add: unat_minus_one unat_gt_0)
  then have "(word_of_nat (unat n) :: u32) = 1 + word_of_nat (unat (n - 1))"
    by (simp only: of_nat_Suc)
  then show ?thesis
    by simp
qed

primrec interrupts :: "nat \<Rightarrow> tstate \<Rightarrow> tstate res" where
  "interrupts 0 ts = Inr ts"
| "interrupts (Suc n) ts = andthen (timer_interrupt ts) (interrupts n)"

text \<open>
  C38. Preemption: while interrupts are on, a thread that has \<open>n\<close> ticks left keeps the processor for the
  next \<open>n\<close> timer interrupts, and the one after that switches to the head of the ready list, puts the
  thread at its end and refills its time slice from its priority; no assertion fails on the way and the
  clock has advanced by \<open>n + 1\<close>.
\<close>

theorem time_slice_preemption:
  assumes "sched_inv (kern ts)" and "magic_inv (kern ts)" and "intr_get_status (k_cpu (kern ts)) = INTR_ON"
    and "ticks (pcbs (kern ts) (running_thread (kern ts))) = n"
  shows "\<exists>ts'. interrupts (unat n + 1) ts = Inr ts' \<and> sched_inv (kern ts') \<and> magic_inv (kern ts') \<and>
    ticks_total ts' = ticks_total ts + 1 + ucast n \<and>
    running_thread (kern ts') # thread_ready_list (kern ts') =
      thread_ready_list (kern ts) @ [running_thread (kern ts)] \<and>
    ticks (pcbs (kern ts') (running_thread (kern ts))) = priority (pcbs (kern ts) (running_thread (kern ts)))"
  using assms
proof (induction "unat n" arbitrary: n ts)
  case 0
  then have "n = 0"
    by (simp add: unat_eq_0)
  then show ?case
    using timer_interrupt_slice_used_up[OF 0(2-4)] 0 by auto
next
  case (Suc m)
  have n0: "n \<noteq> 0"
    using Suc(2) by auto
  have n: "n \<noteq> 0" "unat (n - 1) = m"
    using unat_minus_one[OF n0] Suc(2) n0 by simp_all
  let ?t = "running_thread (kern ts)"
  let ?ts = "ts\<lparr>FHL_count := (FHL_count ts + 1) mod 3,
      corner_char := FHL_char ((FHL_count ts + 1) mod 3), ticks_total := ticks_total ts + 1,
      kern := k_intr_set_status INTR_ON (upd_pcb ?t
        (\<lambda>p. p\<lparr>elapsed_ticks := elapsed_ticks p + 1, ticks := ticks p - 1\<rparr>)
        ((kern ts)\<lparr>k_cpu := snd (intr_disable (k_cpu (kern ts)))\<rparr>))\<rparr>"
  have step: "timer_interrupt ts = Inr ?ts"
    using timer_interrupt_within_slice Suc(3-6) n by simp
  have "sched_inv (kern ?ts)" "magic_inv (kern ?ts)" "intr_get_status (k_cpu (kern ?ts)) = INTR_ON"
    "ticks (pcbs (kern ?ts) (running_thread (kern ?ts))) = n - 1"
    using Suc(3-6) by (simp_all add: k_intr_set_status_def queue_inv_upd magic_inv_def)
  from Suc(1)[OF n(2)[symmetric] this] obtain ts' where
    "interrupts (unat (n - 1) + 1) ?ts = Inr ts'" "sched_inv (kern ts')" "magic_inv (kern ts')"
    "ticks_total ts' = ticks_total ?ts + 1 + ucast (n - 1)"
    "running_thread (kern ts') # thread_ready_list (kern ts') = thread_ready_list (kern ts) @ [?t]"
    "ticks (pcbs (kern ts') ?t) = priority (pcbs (kern ts) ?t)"
    by (auto simp: k_intr_set_status_def)
  moreover have "(ucast n :: u32) = 1 + ucast (n - 1)"
    by (simp only: ucast_Suc_pred[OF n0])
  ultimately show ?case
    using step Suc(2) n(2) by simp
qed

theorem time_slice_preemption_witness:
  "\<exists>ts'. interrupts 11 \<lparr>kern = kstate0, ticks_total = 5, FHL_count = 0, corner_char = 0\<rparr> = Inr ts' \<and>
    running_thread (kern ts') = 0x2000 \<and> thread_ready_list (kern ts') = [0x3000, 0x1000] \<and> ticks_total ts' = 16"
proof -
  let ?ts = "\<lparr>kern = kstate0, ticks_total = 5, FHL_count = 0, corner_char = 0\<rparr>"
  have "magic_inv kstate0" "intr_get_status (k_cpu kstate0) = INTR_ON"
    "ticks (pcbs kstate0 (running_thread kstate0)) = 10"
    by (simp_all add: magic_inv_def kstate0_def pcb0_def intr_get_status_def EFLAGS_IF_def)
  then show ?thesis
    using time_slice_preemption[of ?ts 10] kstate0_inv by (auto simp: kstate0_def)
qed

subsection \<open>The scheduler as a state machine\<close>

text \<open>What can happen to the scheduler: the running thread yields, blocks itself, or wakes a thread; the clock ticks.\<close>

inductive sys_step :: "tstate \<Rightarrow> tstate \<Rightarrow> bool" where
  yield: "thread_yield (kern ts) = Inr k \<Longrightarrow> sys_step ts (ts\<lparr>kern := k\<rparr>)"
| block: "st \<in> {TASK_BLOCKED, TASK_WAITING, TASK_HANGING} \<Longrightarrow>
    (running_thread (kern ts) = idle_thread (kern ts) \<Longrightarrow> st = TASK_BLOCKED) \<Longrightarrow>
    thread_block st (kern ts) = Inr k \<Longrightarrow> sys_step ts (ts\<lparr>kern := k\<rparr>)"
| unblock: "t \<in> set (thread_all_list (kern ts)) \<Longrightarrow>
    status_of (kern ts) t \<in> {TASK_BLOCKED, TASK_WAITING, TASK_HANGING} \<Longrightarrow>
    thread_unblock t (kern ts) = Inr k \<Longrightarrow> sys_step ts (ts\<lparr>kern := k\<rparr>)"
| tick: "timer_interrupt ts = Inr ts' \<Longrightarrow> sys_step ts ts'"

inductive_cases sys_stepE: "sys_step ts ts'"

abbreviation sys_inv :: "tstate \<Rightarrow> bool" where
  "sys_inv ts \<equiv> sched_inv (kern ts) \<and> magic_inv (kern ts)"

lemma timer_interrupt_inv:
  assumes "sys_inv ts"
  shows "\<exists>ts'. timer_interrupt ts = Inr ts' \<and> sys_inv ts' \<and>
    thread_all_list (kern ts') = thread_all_list (kern ts) \<and> idle_thread (kern ts') = idle_thread (kern ts) \<and>
    keeps_suspended (kern ts) (kern ts')"
proof (cases "intr_get_status (k_cpu (kern ts))")
  case INTR_OFF
  then show ?thesis
    using assms by (simp add: timer_interrupt_def keeps_suspended_def)
next
  case INTR_ON
  show ?thesis
  proof (cases "ticks (pcbs (kern ts) (running_thread (kern ts))) = 0")
    case True
    then show ?thesis
      using timer_interrupt_slice_used_up[OF _ _ INTR_ON True] assms by blast
  next
    case False
    then show ?thesis
      using timer_interrupt_within_slice[OF _ _ INTR_ON False] assms
      by (simp add: k_intr_set_status_def queue_inv_upd magic_inv_def keeps_suspended_def)
  qed
qed

lemma sys_step_inv:
  assumes "sys_step ts ts'" and "sys_inv ts"
  shows "sys_inv ts' \<and> thread_all_list (kern ts') = thread_all_list (kern ts)"
  using assms(1)
proof (cases rule: sys_step.cases)
  case (yield k)
  then show ?thesis
    using thread_yield_spec[of "kern ts"] assms(2) by (auto simp: magic_inv_def)
next
  case (block st k)
  then show ?thesis
    using thread_block_spec[of "kern ts" st] assms(2) by (auto simp: magic_inv_def)
next
  case (unblock t k)
  then show ?thesis
    using thread_unblock_spec[of "kern ts" t] assms(2) by (auto simp: magic_inv_def)
next
  case tick
  then show ?thesis
    using timer_interrupt_inv[OF assms(2)] by auto
qed

lemma sys_reachable_inv:
  assumes "sys_step\<^sup>*\<^sup>* ts ts'" and "sys_inv ts"
  shows "sys_inv ts' \<and> thread_all_list (kern ts') = thread_all_list (kern ts)"
  using assms(1)
proof (induction rule: rtranclp_induct)
  case (step ts1 ts2)
  then show ?case
    using sys_step_inv[OF step(2)] by simp
qed (simp add: assms(2))



end
