(* ===== verification/Sync.thy ===== *)
theory Sync
  imports Timer
begin

text \<open>
  Semaphores and locks: \<^verbatim>\<open>src/thread/sync.c\<close>. An operation that has to wait leaves the processor in
  the middle of its loop; its outcome is then \<open>Blocked\<close>, with the state in which the next thread
  continues, and the loop goes on with \<open>semaphore_down_iter\<close> when the thread is resumed.

  The second half is the lock protocol: threads that run \<^verbatim>\<open>lock_acquire\<close> and \<^verbatim>\<open>lock_release\<close> on one
  lock, one atomic action at a time, preempted by the clock between any two of them.
\<close>

datatype 'a progress = Done 'a | Blocked 'a

definition semaphore_init :: "u8 \<Rightarrow> semaphore" where
  "semaphore_init v = \<lparr>sema_value = v, waiters = []\<rparr>"

definition lock_init :: lock where
  "lock_init = \<lparr>holder = NULL, lock_sema = semaphore_init 1, holder_repeat_cnt = 0\<rparr>"

definition semaphore_down_iter :: "intr_status \<Rightarrow> semaphore \<Rightarrow> kstate \<Rightarrow> (semaphore \<times> kstate) progress res" where
  "semaphore_down_iter old_status sema s =
     (if sema_value sema = 0
      then andthen (assert_c ''!node_find(&sema->waiters, &running_thread()->general_node)''
             (running_thread s \<notin> set (waiters sema))) (\<lambda>_.
           let sema1 = sema\<lparr>waiters := waiters sema @ [running_thread s]\<rparr>
           in andthen (thread_block TASK_BLOCKED s) (\<lambda>s1. Inr (Blocked (sema1, s1))))
      else let sema1 = sema\<lparr>sema_value := sema_value sema - 1\<rparr>
           in andthen (assert_c ''sema->value == 0'' (sema_value sema1 = 0)) (\<lambda>_.
              Inr (Done (sema1, k_intr_set_status old_status s))))"

definition semaphore_down :: "semaphore \<Rightarrow> kstate \<Rightarrow> (semaphore \<times> kstate) progress res" where
  "semaphore_down sema s = (let (old_status, s1) = k_intr_disable s in semaphore_down_iter old_status sema s1)"

definition semaphore_up :: "semaphore \<Rightarrow> kstate \<Rightarrow> (semaphore \<times> kstate) res" where
  "semaphore_up sema s =
     (let (old_status, s1) = k_intr_disable s
      in andthen
        (case waiters sema of [] \<Rightarrow> Inr (sema, s1)
         | blocked_thread # rest \<Rightarrow> andthen (thread_unblock blocked_thread s1) (\<lambda>s2.
             Inr (sema\<lparr>waiters := rest\<rparr>, s2))) (\<lambda>(sema1, s2).
         Inr (sema1\<lparr>sema_value := sema_value sema1 + 1\<rparr>, k_intr_set_status old_status s2)))"

text \<open>What \<^verbatim>\<open>lock_acquire\<close> does once it has the semaphore.\<close>

definition lock_take :: "lock \<Rightarrow> kstate \<Rightarrow> lock res" where
  "lock_take l s =
     (let l1 = l\<lparr>holder := running_thread s\<rparr>
      in andthen (assert_c ''lock->holder_repeat_cnt == 0'' (holder_repeat_cnt l1 = 0)) (\<lambda>_.
         Inr (l1\<lparr>holder_repeat_cnt := 1\<rparr>)))"

definition lock_acquire :: "lock \<Rightarrow> kstate \<Rightarrow> (lock \<times> kstate) progress res" where
  "lock_acquire l s =
     (if holder l \<noteq> running_thread s
      then andthen (semaphore_down (lock_sema l) s) (\<lambda>r. case r of
             Blocked (sema, s1) \<Rightarrow> Inr (Blocked (l\<lparr>lock_sema := sema\<rparr>, s1))
           | Done (sema, s1) \<Rightarrow> andthen (lock_take (l\<lparr>lock_sema := sema\<rparr>) s1) (\<lambda>l1. Inr (Done (l1, s1))))
      else Inr (Done (l\<lparr>holder_repeat_cnt := holder_repeat_cnt l + 1\<rparr>, s)))"

definition lock_release :: "lock \<Rightarrow> kstate \<Rightarrow> (lock \<times> kstate) res" where
  "lock_release l s =
     (if holder_repeat_cnt l > 1 then Inr (l\<lparr>holder_repeat_cnt := holder_repeat_cnt l - 1\<rparr>, s)
      else andthen (assert_c ''lock->holder_repeat_cnt == 1'' (holder_repeat_cnt l = 1)) (\<lambda>_.
        let l1 = l\<lparr>holder := NULL, holder_repeat_cnt := 0\<rparr>
        in andthen (semaphore_up (lock_sema l1) s) (\<lambda>(sema, s1). Inr (l1\<lparr>lock_sema := sema\<rparr>, s1))))"

subsection \<open>One thread at a time: the operations run to completion\<close>

text \<open>The lock of a thread that holds it once, with nobody waiting.\<close>

definition locked_by :: "u32 \<Rightarrow> lock" where
  "locked_by t = lock_init\<lparr>holder := t, lock_sema := semaphore_init 0, holder_repeat_cnt := 1\<rparr>"

lemma k_intr_disable_restore [simp]:
  "k_intr_set_status (fst (k_intr_disable s)) (snd (k_intr_disable s)) = s"
  by (simp add: k_intr_disable_def k_intr_set_status_def)

lemma lock_acquire_uncontended:
  "running_thread s \<noteq> NULL \<Longrightarrow> lock_acquire lock_init s = Inr (Done (locked_by (running_thread s), s))"
  by (simp add: lock_acquire_def lock_init_def semaphore_init_def semaphore_down_def semaphore_down_iter_def
      k_intr_disable_def k_intr_set_status_def lock_take_def locked_by_def Let_def)

lemma lock_release_uncontended: "lock_release (locked_by t) s = Inr (lock_init, s)"
  by (simp add: lock_release_def locked_by_def lock_init_def semaphore_init_def semaphore_up_def
      k_intr_disable_def k_intr_set_status_def Let_def)

subsection \<open>The lock protocol under preemption\<close>

text \<open>
  Where a thread is in the code of the two functions: outside of them and not holding the lock; past the
  test of \<^verbatim>\<open>lock->holder\<close>; in the loop of \<^verbatim>\<open>semaphore_down\<close>; before and after the assignment of
  \<^verbatim>\<open>lock->holder\<close>; holding the lock; past the first and the second assignment of \<^verbatim>\<open>lock_release\<close>.
\<close>

datatype lpc = Out | Checked | InLoop intr_status | Got | Owner | Inside | Rel1 | Rel2

datatype lact = Acquire | Release | Continue

record lsys =
  l_k :: kstate
  l_lock :: lock
  l_pc :: "u32 \<Rightarrow> lpc"

abbreviation (input) goto :: "lsys \<Rightarrow> lpc \<Rightarrow> lsys" where
  "goto x p \<equiv> x\<lparr>l_pc := (l_pc x)(running_thread (l_k x) := p)\<rparr>"

definition after_down :: "lsys \<Rightarrow> intr_status \<Rightarrow> (semaphore \<times> kstate) progress \<Rightarrow> lsys" where
  "after_down x old r = (case r of
      Blocked (sema, k) \<Rightarrow> (goto x (InLoop old))\<lparr>l_lock := (l_lock x)\<lparr>lock_sema := sema\<rparr>, l_k := k\<rparr>
    | Done (sema, k) \<Rightarrow> (goto x Got)\<lparr>l_lock := (l_lock x)\<lparr>lock_sema := sema\<rparr>, l_k := k\<rparr>)"

text \<open>
  The next atomic action of the running thread: \<open>Acquire\<close> and \<open>Release\<close> call a function of the lock,
  \<open>Continue\<close> goes on with the one it is in.
\<close>

definition lock_move :: "lact \<Rightarrow> lsys \<Rightarrow> lsys res" where
  "lock_move a x =
     (let t = running_thread (l_k x); l = l_lock x
      in case (l_pc x t, a) of
        (Out, Acquire) \<Rightarrow>
          if holder l \<noteq> t then Inr (goto x Checked)
          else Inr (x\<lparr>l_lock := l\<lparr>holder_repeat_cnt := holder_repeat_cnt l + 1\<rparr>\<rparr>)
      | (Inside, Acquire) \<Rightarrow>
          if holder l \<noteq> t then Inr (goto x Checked)
          else Inr (x\<lparr>l_lock := l\<lparr>holder_repeat_cnt := holder_repeat_cnt l + 1\<rparr>\<rparr>)
      | (Checked, Continue) \<Rightarrow>
          andthen (semaphore_down (lock_sema l) (l_k x)) (\<lambda>r.
          Inr (after_down x (intr_get_status (k_cpu (l_k x))) r))
      | (InLoop old, Continue) \<Rightarrow>
          andthen (semaphore_down_iter old (lock_sema l) (l_k x)) (\<lambda>r. Inr (after_down x old r))
      | (Got, Continue) \<Rightarrow> Inr ((goto x Owner)\<lparr>l_lock := l\<lparr>holder := t\<rparr>\<rparr>)
      | (Owner, Continue) \<Rightarrow>
          andthen (assert_c ''lock->holder_repeat_cnt == 0'' (holder_repeat_cnt l = 0)) (\<lambda>_.
          Inr ((goto x Inside)\<lparr>l_lock := l\<lparr>holder_repeat_cnt := 1\<rparr>\<rparr>))
      | (Inside, Release) \<Rightarrow>
          if holder_repeat_cnt l > 1
          then Inr (x\<lparr>l_lock := l\<lparr>holder_repeat_cnt := holder_repeat_cnt l - 1\<rparr>\<rparr>)
          else andthen (assert_c ''lock->holder_repeat_cnt == 1'' (holder_repeat_cnt l = 1)) (\<lambda>_.
            Inr ((goto x Rel1)\<lparr>l_lock := l\<lparr>holder := NULL\<rparr>\<rparr>))
      | (Rel1, Continue) \<Rightarrow> Inr ((goto x Rel2)\<lparr>l_lock := l\<lparr>holder_repeat_cnt := 0\<rparr>\<rparr>)
      | (Rel2, Continue) \<Rightarrow>
          andthen (semaphore_up (lock_sema l) (l_k x)) (\<lambda>(sema, k).
          Inr ((goto x Out)\<lparr>l_lock := l\<lparr>lock_sema := sema\<rparr>, l_k := k\<rparr>))
      | _ \<Rightarrow> Inr x)"

text \<open>
  The idle thread takes no locks, and a thread does not nest its acquisitions 2^32 deep: these are the
  conditions of the first rule. A thread may also be preempted, sleep for other reasons while it is
  outside of the waiting loop, and be woken from that.
\<close>

definition nesting_bounded :: "lact \<Rightarrow> lsys \<Rightarrow> bool" where
  "nesting_bounded a x \<longleftrightarrow> (a = Acquire \<longrightarrow> holder_repeat_cnt (l_lock x) \<noteq> - 1)"

inductive lock_step :: "lsys \<Rightarrow> lsys \<Rightarrow> bool" where
  move: "running_thread (l_k x) \<noteq> idle_thread (l_k x) \<Longrightarrow> nesting_bounded a x \<Longrightarrow>
    lock_move a x = Inr x' \<Longrightarrow> lock_step x x'"
| yield: "thread_yield (l_k x) = Inr k \<Longrightarrow> lock_step x (x\<lparr>l_k := k\<rparr>)"
| tick: "kern ts = l_k x \<Longrightarrow> timer_interrupt ts = Inr ts' \<Longrightarrow> lock_step x (x\<lparr>l_k := kern ts'\<rparr>)"
| sleep: "st \<in> {TASK_BLOCKED, TASK_WAITING, TASK_HANGING} \<Longrightarrow>
    (running_thread (l_k x) = idle_thread (l_k x) \<Longrightarrow> st = TASK_BLOCKED) \<Longrightarrow>
    thread_block st (l_k x) = Inr k \<Longrightarrow> lock_step x (x\<lparr>l_k := k\<rparr>)"
| wake: "t \<in> set (thread_all_list (l_k x)) \<Longrightarrow> t \<notin> set (waiters (lock_sema (l_lock x))) \<Longrightarrow>
    status_of (l_k x) t \<in> {TASK_BLOCKED, TASK_WAITING, TASK_HANGING} \<Longrightarrow>
    thread_unblock t (l_k x) = Inr k \<Longrightarrow> lock_step x (x\<lparr>l_k := k\<rparr>)"

text \<open>A thread owns the lock from the decrement of the semaphore to the increment.\<close>

definition owning :: "lpc \<Rightarrow> bool" where
  "owning p \<longleftrightarrow> p \<in> {Got, Owner, Inside, Rel1, Rel2}"

definition owner_state :: "lpc \<Rightarrow> u32 \<Rightarrow> lock \<Rightarrow> bool" where
  "owner_state p t l \<longleftrightarrow> (case p of
      Got \<Rightarrow> holder l = NULL \<and> holder_repeat_cnt l = 0
    | Owner \<Rightarrow> holder l = t \<and> holder_repeat_cnt l = 0
    | Inside \<Rightarrow> holder l = t \<and> holder_repeat_cnt l > 0
    | Rel1 \<Rightarrow> holder l = NULL \<and> holder_repeat_cnt l = 1
    | Rel2 \<Rightarrow> holder l = NULL \<and> holder_repeat_cnt l = 0
    | _ \<Rightarrow> False)"

definition lock_state_ok :: "(u32 \<Rightarrow> lpc) \<Rightarrow> lock \<Rightarrow> bool" where
  "lock_state_ok pc l \<longleftrightarrow>
     ((\<forall>t. \<not> owning (pc t)) \<and> sema_value (lock_sema l) = 1 \<and> holder l = NULL \<and> holder_repeat_cnt l = 0) \<or>
     (\<exists>t. (\<forall>u. owning (pc u) \<longleftrightarrow> u = t) \<and> sema_value (lock_sema l) = 0 \<and> owner_state (pc t) t l)"

definition waiting_ok :: "kstate \<Rightarrow> (u32 \<Rightarrow> lpc) \<Rightarrow> u32 list \<Rightarrow> bool" where
  "waiting_ok k pc ws \<longleftrightarrow> distinct ws \<and>
     (\<forall>w \<in> set ws. w \<in> set (thread_all_list k) \<and> w \<noteq> idle_thread k \<and> status_of k w = TASK_BLOCKED \<and>
        (\<exists>old. pc w = InLoop old))"

definition lock_inv :: "lsys \<Rightarrow> bool" where
  "lock_inv x \<longleftrightarrow> sched_inv (l_k x) \<and> magic_inv (l_k x) \<and>
     waiting_ok (l_k x) (l_pc x) (waiters (lock_sema (l_lock x))) \<and> lock_state_ok (l_pc x) (l_lock x)"

subsubsection \<open>The state of the lock follows the owner\<close>

lemma lock_state_free:
  assumes "lock_state_ok pc l" and "\<not> owning (pc t)" and "\<not> owning p"
    and "holder l' = holder l" "holder_repeat_cnt l' = holder_repeat_cnt l"
      "sema_value (lock_sema l') = sema_value (lock_sema l)"
  shows "lock_state_ok (pc(t := p)) l'"
proof -
  have own: "owner_state q u l' = owner_state q u l" for q u
    using assms(4,5) by (cases q) (simp_all add: owner_state_def)
  have "owning ((pc(t := p)) u) = owning (pc u)" for u
    using assms(2,3) by simp
  moreover have "owner_state ((pc(t := p)) u) u l' = owner_state (pc u) u l" if "owning (pc u)" for u
    using that assms(2) own by (cases "u = t") auto
  ultimately show ?thesis
    using assms(1,4-6) unfolding lock_state_ok_def by (simp del: fun_upd_apply) blast
qed

lemma lock_state_taken:
  assumes "lock_state_ok pc l" and "sema_value (lock_sema l) \<noteq> 0"
    and "holder l' = holder l" "holder_repeat_cnt l' = holder_repeat_cnt l"
      "sema_value (lock_sema l') = 0"
  shows "lock_state_ok (pc(t := Got)) l'"
proof -
  have "\<forall>u. \<not> owning (pc u)" "holder l = NULL" "holder_repeat_cnt l = 0"
    using assms(1,2) unfolding lock_state_ok_def by auto
  then have "(\<forall>u. owning ((pc(t := Got)) u) \<longleftrightarrow> u = t) \<and> owner_state ((pc(t := Got)) t) t l'"
    using assms(3,4) by (simp add: owner_state_def owning_def)
  then show ?thesis
    using assms(5) unfolding lock_state_ok_def by blast
qed

lemma lock_state_owner:
  assumes "lock_state_ok pc l" and "owning (pc t)" and "owning p" and "owner_state p t l'"
    and "sema_value (lock_sema l') = sema_value (lock_sema l)"
  shows "lock_state_ok (pc(t := p)) l'"
proof -
  have "\<forall>u. owning (pc u) \<longleftrightarrow> u = t" "sema_value (lock_sema l) = 0"
    using assms(1,2) unfolding lock_state_ok_def by auto
  then have "(\<forall>u. owning ((pc(t := p)) u) \<longleftrightarrow> u = t) \<and> owner_state ((pc(t := p)) t) t l'"
    using assms(3,4) by simp
  then show ?thesis
    using assms(5) \<open>sema_value (lock_sema l) = 0\<close> unfolding lock_state_ok_def by auto
qed

lemma lock_state_released:
  assumes "lock_state_ok pc l" and "pc t = Rel2" and "\<not> owning p"
    and "holder l' = holder l" "holder_repeat_cnt l' = holder_repeat_cnt l" "sema_value (lock_sema l') = 1"
  shows "lock_state_ok (pc(t := p)) l'"
proof -
  have "owning (pc t)"
    using assms(2) by (simp add: owning_def)
  then have "\<forall>u. owning (pc u) \<longleftrightarrow> u = t" and "owner_state (pc t) t l"
    using assms(1) unfolding lock_state_ok_def by auto
  moreover from this(2) have "holder l = NULL" "holder_repeat_cnt l = 0"
    using assms(2) by (simp_all add: owner_state_def)
  ultimately have "\<forall>u. \<not> owning ((pc(t := p)) u)"
    using assms(3) by simp
  then show ?thesis
    using assms(4-6) \<open>holder l = NULL\<close> \<open>holder_repeat_cnt l = 0\<close> unfolding lock_state_ok_def by simp
qed

lemma lock_state_ownerD:
  assumes "lock_state_ok pc l" and "owning (pc t)"
  shows "owner_state (pc t) t l" and "sema_value (lock_sema l) = 0"
  using assms unfolding lock_state_ok_def by auto

lemma lock_state_value:
  assumes "lock_state_ok pc l"
  shows "sema_value (lock_sema l) = 0 \<or> sema_value (lock_sema l) = 1"
  using assms unfolding lock_state_ok_def by auto

lemma lock_state_holder:
  assumes "lock_state_ok pc l" and "\<not> owning (pc t)" and "t \<noteq> NULL"
  shows "holder l \<noteq> t"
proof
  assume h: "holder l = t"
  then obtain u where "owning (pc u)" "u \<noteq> t" "owner_state (pc u) u l"
    using assms unfolding lock_state_ok_def by auto
  then show False
    using h assms(3) by (cases "pc u") (auto simp: owner_state_def)
qed

subsubsection \<open>The waiting threads stay blocked until they are woken\<close>

lemma waiting_ok_keeps:
  assumes "waiting_ok k pc ws" and "sched_inv k" and "keeps_suspended k k'"
    and "thread_all_list k' = thread_all_list k" "idle_thread k' = idle_thread k"
  shows "waiting_ok k' pc ws"
proof -
  have r: "status_of k (running_thread k) = TASK_RUNNING"
    using assms(2) by (simp add: sched_inv_def)
  have "status_of k' w = TASK_BLOCKED" if "w \<in> set ws" for w
  proof -
    have w: "w \<in> set (thread_all_list k)" "w \<noteq> idle_thread k" "status_of k w = TASK_BLOCKED"
      using assms(1) that by (auto simp: waiting_ok_def)
    moreover from w(3) r have "w \<noteq> running_thread k"
      by auto
    ultimately show ?thesis
      using assms(3) by (auto simp: keeps_suspended_def)
  qed
  then show ?thesis
    using assms(1,4,5) by (auto simp: waiting_ok_def)
qed

lemma waiting_ok_pc:
  assumes "waiting_ok k pc ws" and "t \<notin> set ws \<or> (\<exists>old. p = InLoop old)"
  shows "waiting_ok k (pc(t := p)) ws"
  using assms by (auto simp: waiting_ok_def)

lemma running_not_waiting:
  assumes "waiting_ok k pc ws" and "sched_inv k"
  shows "running_thread k \<notin> set ws"
  using assms by (auto simp: waiting_ok_def sched_inv_def)

lemma magic_inv_keeps:
  assumes "magic_inv k" and "thread_all_list k' = thread_all_list k"
    and "\<forall>u. stack_magic (pcbs k' u) = stack_magic (pcbs k u)"
  shows "magic_inv k'"
  using assms by (simp add: magic_inv_def)

lemma thread_block_waiting:
  assumes inv: "sched_inv k" "magic_inv k" "waiting_ok k pc ws" and t: "running_thread k \<noteq> idle_thread k"
  shows "\<exists>k'. thread_block TASK_BLOCKED k = Inr k' \<and> sched_inv k' \<and> magic_inv k' \<and>
    waiting_ok k' (pc(running_thread k := InLoop old)) (ws @ [running_thread k])"
proof -
  let ?t = "running_thread k"
  obtain k' where k': "thread_block TASK_BLOCKED k = Inr k'" "thread_all_list k' = thread_all_list k"
    "idle_thread k' = idle_thread k" "\<forall>u. stack_magic (pcbs k' u) = stack_magic (pcbs k u)" "keeps_suspended k k'"
    using thread_block_spec[OF inv(1), of TASK_BLOCKED] by blast
  note suspended = thread_block_suspends[OF inv(1) t k'(1)]
  have "waiting_ok k' (pc(?t := InLoop old)) ws"
    using waiting_ok_keeps[OF inv(3,1) k'(5,2,3)] waiting_ok_pc by blast
  then have "waiting_ok k' (pc(?t := InLoop old)) (ws @ [?t])"
    using running_not_waiting[OF inv(3,1)] suspended t k'(2,3) by (auto simp: waiting_ok_def)
  then show ?thesis
    using k'(1) suspended magic_inv_keeps[OF inv(2) k'(2,4)] by blast
qed

lemma semaphore_down_iter_spec:
  assumes inv: "sched_inv k" "magic_inv k" "waiting_ok k pc (waiters (lock_sema l))"
    and t: "running_thread k \<noteq> idle_thread k" and ok: "lock_state_ok pc l" "\<not> owning (pc (running_thread k))"
  shows "(\<exists>sema k'. semaphore_down_iter old (lock_sema l) k = Inr (Blocked (sema, k')) \<and> sched_inv k' \<and> magic_inv k' \<and>
      waiting_ok k' (pc(running_thread k := InLoop old)) (waiters sema) \<and>
      lock_state_ok (pc(running_thread k := InLoop old)) (l\<lparr>lock_sema := sema\<rparr>)) \<or>
    (\<exists>sema k'. semaphore_down_iter old (lock_sema l) k = Inr (Done (sema, k')) \<and> sched_inv k' \<and> magic_inv k' \<and>
      waiting_ok k' (pc(running_thread k := Got)) (waiters sema) \<and>
      lock_state_ok (pc(running_thread k := Got)) (l\<lparr>lock_sema := sema\<rparr>))"
proof (cases "sema_value (lock_sema l) = 0")
  case True
  obtain k' where "thread_block TASK_BLOCKED k = Inr k'" "sched_inv k'" "magic_inv k'"
    "waiting_ok k' (pc(running_thread k := InLoop old)) (waiters (lock_sema l) @ [running_thread k])"
    using thread_block_waiting[OF inv t] by blast
  moreover have "lock_state_ok (pc(running_thread k := InLoop old))
      (l\<lparr>lock_sema := (lock_sema l)\<lparr>waiters := waiters (lock_sema l) @ [running_thread k]\<rparr>\<rparr>)"
    using ok by (rule lock_state_free) (simp_all add: owning_def)
  ultimately show ?thesis
    using True running_not_waiting[OF inv(3,1)] by (simp add: semaphore_down_iter_def)
next
  case False
  then have v: "sema_value (lock_sema l) = 1"
    using lock_state_value[OF ok(1)] by simp
  have "lock_state_ok (pc(running_thread k := Got)) (l\<lparr>lock_sema := (lock_sema l)\<lparr>sema_value := 0\<rparr>\<rparr>)"
    using ok(1) False by (rule lock_state_taken) simp_all
  moreover have "waiting_ok (k_intr_set_status old k) (pc(running_thread k := Got)) (waiters (lock_sema l))"
    using waiting_ok_pc[OF inv(3)] running_not_waiting[OF inv(3,1)]
    by (auto simp: waiting_ok_def k_intr_set_status_def)
  moreover have "sched_inv (k_intr_set_status old k)" "magic_inv (k_intr_set_status old k)"
    using inv by (simp_all add: k_intr_set_status_def magic_inv_def)
  ultimately show ?thesis
    using v by (simp add: semaphore_down_iter_def)
qed

lemma semaphore_up_spec:
  assumes inv: "sched_inv k" "magic_inv k" "waiting_ok k pc (waiters sema)"
  shows "\<exists>k'. semaphore_up sema k = Inr (\<lparr>sema_value = sema_value sema + 1, waiters = tl (waiters sema)\<rparr>, k') \<and>
    sched_inv k' \<and> magic_inv k' \<and> waiting_ok k' pc (tl (waiters sema)) \<and> k_cpu k' = k_cpu k \<and>
    running_thread k' = running_thread k \<and>
    thread_ready_list k' = (case waiters sema of [] \<Rightarrow> thread_ready_list k | w # _ \<Rightarrow> w # thread_ready_list k)"
proof (cases "waiters sema")
  case Nil
  then show ?thesis
    using inv by (cases sema) (simp add: semaphore_up_def k_intr_disable_def k_intr_set_status_def)
next
  case (Cons w ws)
  let ?k = "snd (k_intr_disable k)"
  have k: "?k = k\<lparr>k_cpu := snd (intr_disable (k_cpu k))\<rparr>" "fst (k_intr_disable k) = intr_get_status (k_cpu k)"
    by (simp_all add: k_intr_disable_def)
  have w: "w \<in> set (thread_all_list ?k)" "status_of ?k w \<in> {TASK_BLOCKED, TASK_WAITING, TASK_HANGING}"
    "w \<notin> set ws"
    using inv(3) Cons by (auto simp: waiting_ok_def k)
  obtain k' where k': "thread_unblock w ?k = Inr k'" "sched_inv k'" "thread_all_list k' = thread_all_list ?k"
    "idle_thread k' = idle_thread ?k" "\<forall>u. stack_magic (pcbs k' u) = stack_magic (pcbs ?k u)"
    "\<forall>u. u \<noteq> w \<longrightarrow> status_of k' u = status_of ?k u" "k_cpu k' = k_cpu ?k" "running_thread k' = running_thread ?k"
    "thread_ready_list k' = w # thread_ready_list ?k"
    using thread_unblock_spec[of ?k w] w inv(1) by (auto simp: k)
  have "waiting_ok k' pc ws"
    using inv(3) Cons k'(3,4,6) w(3) by (auto simp: waiting_ok_def k)
  moreover have "magic_inv k'"
    using inv(2) k'(3,5) by (simp add: magic_inv_def k)
  ultimately show ?thesis
    using Cons k' by (cases sema)
      (simp add: semaphore_up_def k_intr_disable_def k_intr_set_status_def waiting_ok_def magic_inv_def)
qed

subsubsection \<open>Every action keeps the invariant and passes its assertions\<close>

lemma lock_invD:
  assumes "lock_inv x"
  shows "sched_inv (l_k x)" "magic_inv (l_k x)" "waiting_ok (l_k x) (l_pc x) (waiters (lock_sema (l_lock x)))"
    "lock_state_ok (l_pc x) (l_lock x)"
  using assms by (simp_all add: lock_inv_def)

lemma lock_inv_goto:
  assumes inv: "lock_inv x" and own: "owning (l_pc x (running_thread (l_k x)))" "owning p"
    and l: "owner_state p (running_thread (l_k x)) l" "lock_sema l = lock_sema (l_lock x)"
  shows "lock_inv ((goto x p)\<lparr>l_lock := l\<rparr>)"
  using lock_invD[OF inv] lock_state_owner[OF lock_invD(4)[OF inv] own l(1)] l(2)
    waiting_ok_pc[OF lock_invD(3)[OF inv]] running_not_waiting[OF lock_invD(3,1)[OF inv]]
  by (simp add: lock_inv_def)

lemma lock_inv_count:
  assumes inv: "lock_inv x" and inside: "l_pc x (running_thread (l_k x)) = Inside"
    and l: "holder l = holder (l_lock x)" "holder_repeat_cnt l > 0" "lock_sema l = lock_sema (l_lock x)"
  shows "lock_inv (x\<lparr>l_lock := l\<rparr>)"
proof -
  have own: "owning Inside"
    by (simp add: owning_def)
  have "owner_state Inside (running_thread (l_k x)) l"
    using lock_state_ownerD(1)[OF lock_invD(4)[OF inv], of "running_thread (l_k x)"] inside l own
    by (simp add: owner_state_def)
  then have "lock_inv ((goto x Inside)\<lparr>l_lock := l\<rparr>)"
    using lock_inv_goto[OF inv] inside own l(3) by simp
  moreover have "goto x Inside = x"
    using inside[symmetric] by (simp add: fun_upd_idem)
  ultimately show ?thesis
    by simp
qed

lemma after_down_inv:
  assumes inv: "lock_inv x" and t: "running_thread (l_k x) \<noteq> idle_thread (l_k x)"
    and out: "\<not> owning (l_pc x (running_thread (l_k x)))"
    and k: "k = l_k x \<or> k = snd (k_intr_disable (l_k x))"
  shows "\<exists>r. semaphore_down_iter old (lock_sema (l_lock x)) k = Inr r \<and> lock_inv (after_down x old r)"
proof -
  have k': "sched_inv k" "magic_inv k" "waiting_ok k (l_pc x) (waiters (lock_sema (l_lock x)))"
    "running_thread k \<noteq> idle_thread k" "running_thread k = running_thread (l_k x)"
    using k lock_invD(1-3)[OF inv] t by (auto simp: k_intr_disable_def magic_inv_def waiting_ok_def)
  then show ?thesis
    using semaphore_down_iter_spec[OF k'(1-4) lock_invD(4)[OF inv], of old] out
    by (auto simp: after_down_def lock_inv_def)
qed

lemma sched_inv_running_not_NULL: "sched_inv s \<Longrightarrow> running_thread s \<noteq> NULL"
  by (metis queue_invD(3) sched_inv_def sched_inv_running)

lemma lock_move_out:
  assumes inv: "lock_inv x" and pc: "\<not> owning (l_pc x (running_thread (l_k x)))"
    and t: "running_thread (l_k x) \<noteq> idle_thread (l_k x)"
  shows "\<exists>x'. lock_move a x = Inr x' \<and> lock_inv x'"
proof -
  let ?t = "running_thread (l_k x)"
  have h: "holder (l_lock x) \<noteq> ?t"
    using lock_state_holder[OF lock_invD(4)[OF inv] pc sched_inv_running_not_NULL[OF lock_invD(1)[OF inv]]] .
  have "lock_state_ok ((l_pc x)(?t := Checked)) (l_lock x)"
    using lock_invD(4)[OF inv] pc by (rule lock_state_free) (simp_all add: owning_def)
  then have checked: "lock_inv (goto x Checked)"
    using lock_invD[OF inv] waiting_ok_pc[OF lock_invD(3)[OF inv]] running_not_waiting[OF lock_invD(3,1)[OF inv]]
    by (simp add: lock_inv_def)
  show ?thesis
  proof (cases "l_pc x ?t")
    case Out
    then show ?thesis
      using h checked inv by (cases a) (simp_all add: lock_move_def Let_def)
  next
    case Checked
    then show ?thesis
      using after_down_inv[OF inv t pc, of "snd (k_intr_disable (l_k x))" "intr_get_status (k_cpu (l_k x))"] inv
      by (cases a) (auto simp: lock_move_def Let_def semaphore_down_def k_intr_disable_def)
  next
    case (InLoop old)
    then show ?thesis
      using after_down_inv[OF inv t pc, of "l_k x" old] inv by (cases a) (auto simp: lock_move_def Let_def)
  qed (use pc in \<open>simp_all add: owning_def\<close>)
qed

lemma lock_move_inside:
  assumes inv: "lock_inv x" and pc: "l_pc x (running_thread (l_k x)) = Inside" and b: "nesting_bounded a x"
  shows "\<exists>x'. lock_move a x = Inr x' \<and> lock_inv x'"
proof -
  let ?t = "running_thread (l_k x)" and ?n = "holder_repeat_cnt (l_lock x)"
  have own: "owning (l_pc x ?t)"
    using pc by (simp add: owning_def)
  have h: "holder (l_lock x) = ?t" "?n > 0"
    using lock_state_ownerD(1)[OF lock_invD(4)[OF inv] own] pc by (simp_all add: owner_state_def)
  show ?thesis
  proof (cases a)
    case Acquire
    then have "?n + 1 > 0"
      using b by (metis nesting_bounded_def add.commute add_eq_0_iff word_gt_0)
    then have "lock_inv (x\<lparr>l_lock := (l_lock x)\<lparr>holder_repeat_cnt := ?n + 1\<rparr>\<rparr>)"
      using lock_inv_count[OF inv pc] by simp
    then show ?thesis
      using Acquire h pc by (simp add: lock_move_def Let_def)
  next
    case Release
    show ?thesis
    proof (cases "?n > 1")
      case True
      then have "?n - 1 > 0"
        by (metis word_gt_0 eq_iff_diff_eq_0 less_irrefl)
      then have "lock_inv (x\<lparr>l_lock := (l_lock x)\<lparr>holder_repeat_cnt := ?n - 1\<rparr>\<rparr>)"
        using lock_inv_count[OF inv pc] by simp
      then show ?thesis
        using Release True pc by (simp add: lock_move_def Let_def)
    next
      case False
      then have n: "?n = 1"
        using h(2) by (simp add: word_less_nat_alt word_unat_eq_iff)
      have "lock_inv ((goto x Rel1)\<lparr>l_lock := (l_lock x)\<lparr>holder := NULL\<rparr>\<rparr>)"
        using lock_inv_goto[OF inv own, of Rel1] n by (simp add: owning_def owner_state_def)
      then show ?thesis
        using Release n pc by (simp add: lock_move_def Let_def)
    qed
  next
    case Continue
    then show ?thesis
      using inv pc by (simp add: lock_move_def Let_def)
  qed
qed

lemma lock_move_owner:
  assumes inv: "lock_inv x" and own: "owning (l_pc x (running_thread (l_k x)))"
    and pc: "l_pc x (running_thread (l_k x)) \<noteq> Inside"
  shows "\<exists>x'. lock_move a x = Inr x' \<and> lock_inv x'"
proof -
  let ?t = "running_thread (l_k x)"
  note os = lock_state_ownerD[OF lock_invD(4)[OF inv] own]
  show ?thesis
  proof (cases "l_pc x ?t")
    case Got
    have "lock_inv ((goto x Owner)\<lparr>l_lock := (l_lock x)\<lparr>holder := ?t\<rparr>\<rparr>)"
      using lock_inv_goto[OF inv own, of Owner] os Got by (simp add: owning_def owner_state_def)
    then show ?thesis
      using Got inv by (cases a) (simp_all add: lock_move_def Let_def)
  next
    case Owner
    have "lock_inv ((goto x Inside)\<lparr>l_lock := (l_lock x)\<lparr>holder_repeat_cnt := 1\<rparr>\<rparr>)"
      using lock_inv_goto[OF inv own, of Inside] os Owner by (simp add: owning_def owner_state_def)
    then show ?thesis
      using Owner inv os by (cases a) (simp_all add: lock_move_def owner_state_def Let_def)
  next
    case Rel1
    have "lock_inv ((goto x Rel2)\<lparr>l_lock := (l_lock x)\<lparr>holder_repeat_cnt := 0\<rparr>\<rparr>)"
      using lock_inv_goto[OF inv own, of Rel2] os Rel1 by (simp add: owning_def owner_state_def)
    then show ?thesis
      using Rel1 inv by (cases a) (simp_all add: lock_move_def Let_def)
  next
    case Rel2
    let ?sema = "lock_sema (l_lock x)"
    let ?sema' = "\<lparr>sema_value = sema_value ?sema + 1, waiters = tl (waiters ?sema)\<rparr>"
    obtain k where k: "semaphore_up ?sema (l_k x) = Inr (?sema', k)" "sched_inv k" "magic_inv k"
      "waiting_ok k (l_pc x) (tl (waiters ?sema))" "running_thread k = ?t"
      using semaphore_up_spec[OF lock_invD(1-3)[OF inv]] by blast
    have "lock_state_ok ((l_pc x)(?t := Out)) ((l_lock x)\<lparr>lock_sema := ?sema'\<rparr>)"
      using lock_invD(4)[OF inv] Rel2 by (rule lock_state_released) (simp_all add: owning_def os)
    moreover have "waiting_ok k ((l_pc x)(?t := Out)) (tl (waiters ?sema))"
      using waiting_ok_pc[OF k(4)] running_not_waiting[OF k(4,2)] k(5) by auto
    ultimately have "lock_inv ((goto x Out)\<lparr>l_lock := (l_lock x)\<lparr>lock_sema := ?sema'\<rparr>, l_k := k\<rparr>)"
      using k by (simp add: lock_inv_def)
    then show ?thesis
      using Rel2 inv k(1) by (cases a) (simp_all add: lock_move_def Let_def)
  qed (use own pc in \<open>simp_all add: owning_def\<close>)
qed

lemma lock_move_ok:
  assumes "lock_inv x" and "running_thread (l_k x) \<noteq> idle_thread (l_k x)" and "nesting_bounded a x"
  shows "\<exists>x'. lock_move a x = Inr x' \<and> lock_inv x'"
  using lock_move_out[OF assms(1) _ assms(2)] lock_move_inside[OF assms(1) _ assms(3)] lock_move_owner[OF assms(1)]
  by blast

lemma lock_inv_switch:
  assumes inv: "lock_inv x" and "sched_inv k" "thread_all_list k = thread_all_list (l_k x)"
    "idle_thread k = idle_thread (l_k x)" "keeps_suspended (l_k x) k" "magic_inv k"
  shows "lock_inv (x\<lparr>l_k := k\<rparr>)"
  using assms waiting_ok_keeps[OF lock_invD(3,1)[OF inv] assms(5,3,4)] lock_invD[OF inv]
  by (simp add: lock_inv_def)

lemma lock_step_inv:
  assumes "lock_step x x'" and "lock_inv x"
  shows "lock_inv x'"
  using assms
proof (cases rule: lock_step.cases)
  case (move a)
  then show ?thesis
    using lock_move_ok[OF assms(2)] by force
next
  case (yield k)
  then show ?thesis
    using thread_yield_spec[OF lock_invD(1)[OF assms(2)]] lock_inv_switch[OF assms(2), of k]
      magic_inv_keeps[OF lock_invD(2)[OF assms(2)], of k] by auto
next
  case (tick ts ts')
  then show ?thesis
    using timer_interrupt_inv[of ts] lock_inv_switch[OF assms(2), of "kern ts'"] lock_invD(1,2)[OF assms(2)] by auto
next
  case (sleep st k)
  then show ?thesis
    using thread_block_spec[OF lock_invD(1)[OF assms(2)], of st] lock_inv_switch[OF assms(2), of k]
      magic_inv_keeps[OF lock_invD(2)[OF assms(2)], of k] by auto
next
  case (wake t k)
  then obtain k' where k': "thread_unblock t (l_k x) = Inr k'" "sched_inv k'"
    "thread_all_list k' = thread_all_list (l_k x)" "idle_thread k' = idle_thread (l_k x)"
    "\<forall>u. stack_magic (pcbs k' u) = stack_magic (pcbs (l_k x) u)"
    "\<forall>u. u \<noteq> t \<longrightarrow> status_of k' u = status_of (l_k x) u"
    using thread_unblock_spec[OF lock_invD(1)[OF assms(2)] wake(2,4)] by blast
  have "waiting_ok k' (l_pc x) (waiters (lock_sema (l_lock x)))"
    using lock_invD(3)[OF assms(2)] wake(3) k' unfolding waiting_ok_def by auto
  then show ?thesis
    using k' wake(1,5) lock_invD[OF assms(2)] magic_inv_keeps[OF _ k'(3,5)] by (simp add: lock_inv_def)
qed

lemma lock_reachable_inv: "lock_step\<^sup>*\<^sup>* x x' \<Longrightarrow> lock_inv x \<Longrightarrow> lock_inv x'"
  by (induction rule: rtranclp_induct) (auto intro: lock_step_inv)

definition lock_start :: "kstate \<Rightarrow> lsys" where
  "lock_start k = \<lparr>l_k = k, l_lock = lock_init, l_pc = (\<lambda>_. Out)\<rparr>"

lemma lock_start_inv: "sched_inv k \<Longrightarrow> magic_inv k \<Longrightarrow> lock_inv (lock_start k)"
  by (simp add: lock_start_def lock_inv_def lock_init_def semaphore_init_def waiting_ok_def lock_state_ok_def owning_def)



text \<open>
  Waking up: in every state of the protocol that satisfies its invariant (all reachable ones do), the
  threads in the list of waiters are blocked and registered once each, and when the owner makes its last step, the
  longest waiting thread is moved to the front of the ready list, the semaphore is free again, and the
  caller keeps the processor and its interrupt status.
\<close>

theorem lock_release_wakes_first_waiter:
  assumes inv: "lock_inv x"
    and pc: "l_pc x (running_thread (l_k x)) = Rel2" and ws: "waiters (lock_sema (l_lock x)) = w # ws"
  shows "\<exists>x'. lock_move Continue x = Inr x' \<and> status_of (l_k x) w = TASK_BLOCKED \<and>
    status_of (l_k x') w = TASK_READY \<and> thread_ready_list (l_k x') = w # thread_ready_list (l_k x) \<and>
    waiters (lock_sema (l_lock x')) = ws \<and> w \<notin> set ws \<and> sema_value (lock_sema (l_lock x')) = 1 \<and>
    running_thread (l_k x') = running_thread (l_k x) \<and> k_cpu (l_k x') = k_cpu (l_k x)"
proof -
  have v: "sema_value (lock_sema (l_lock x)) = 0"
    using lock_state_ownerD(2)[OF lock_invD(4)[OF inv], of "running_thread (l_k x)"] pc by (simp add: owning_def)
  obtain k' where k': "semaphore_up (lock_sema (l_lock x)) (l_k x) = Inr (\<lparr>sema_value = 1, waiters = ws\<rparr>, k')"
    "sched_inv k'" "k_cpu k' = k_cpu (l_k x)" "running_thread k' = running_thread (l_k x)"
    "thread_ready_list k' = w # thread_ready_list (l_k x)"
    using semaphore_up_spec[OF lock_invD(1-3)[OF inv]] ws v by auto
  have w: "status_of (l_k x) w = TASK_BLOCKED" "w \<notin> set ws"
    using lock_invD(3)[OF inv] ws by (auto simp: waiting_ok_def)
  have "w \<in> set (thread_ready_list k')"
    using k'(5) by simp
  then have "status_of k' w = TASK_READY"
    using k'(2) queue_invD(4,6)[of k'] by (auto simp: sched_inv_def)
  then show ?thesis
    using k' w pc by (simp add: lock_move_def Let_def)
qed

theorem lock_release_wakes_first_waiter_witness:
  "\<exists>x x'. lock_inv x \<and> waiters (lock_sema (l_lock x)) = [0x3000] \<and> lock_move Continue x = Inr x' \<and>
    thread_ready_list (l_k x') = [0x3000, 0x2000] \<and> sema_value (lock_sema (l_lock x')) = 1"
proof -
  let ?k = "kstate0\<lparr>thread_ready_list := [0x2000],
      pcbs := (pcbs kstate0)(0x3000 := pcb0\<lparr>status := TASK_BLOCKED\<rparr>)\<rparr>"
  let ?x = "\<lparr>l_k = ?k, l_lock = \<lparr>holder = NULL, lock_sema = \<lparr>sema_value = 0, waiters = [0x3000]\<rparr>, holder_repeat_cnt = 0\<rparr>,
      l_pc = (\<lambda>_. Out)(0x1000 := Rel2, 0x3000 := InLoop INTR_ON)\<rparr>"
  have "sched_inv ?k"
    by (simp add: sched_inv_def queue_inv_def kstate0_def pcb0_def NULL_def)
  moreover have "magic_inv ?k"
    by (simp add: magic_inv_def kstate0_def pcb0_def)
  moreover have "waiting_ok ?k (l_pc ?x) [0x3000]"
    by (simp add: waiting_ok_def kstate0_def)
  moreover have "lock_state_ok (l_pc ?x) (l_lock ?x)"
    unfolding lock_state_ok_def by (intro disjI2 exI[of _ "0x1000"]) (simp add: owning_def owner_state_def)
  ultimately have "lock_inv ?x"
    by (simp add: lock_inv_def)
  moreover have "l_pc ?x (running_thread (l_k ?x)) = Rel2" "waiters (lock_sema (l_lock ?x)) = [0x3000]"
    "thread_ready_list (l_k ?x) = [0x2000]"
    by (simp_all add: kstate0_def)
  ultimately show ?thesis
    using lock_release_wakes_first_waiter[of ?x "0x3000" "[]"] by auto
qed

end
