(* ===== verification/Ioqueue.thy ===== *)
theory Ioqueue
  imports Sync "HOL-Library.Signed_Division"
begin

text \<open>
  The ring buffer between the keyboard and the threads that read it: \<^verbatim>\<open>src/device/ioqueue.c\<close>.
  A call that finds the buffer empty (or full) waits inside its loop; the outcome \<open>WaitLock\<close> means that
  the caller is suspended in \<^verbatim>\<open>lock_acquire\<close>, \<open>WaitData\<close> that it is suspended in \<^verbatim>\<open>ioq_wait\<close>. The
  functions \<open>ioq_getchar_resume\<close> and \<open>ioq_putchar_resume\<close> are the rest of the loop after \<^verbatim>\<open>ioq_wait\<close>
  returns. The lock itself and the waiting inside of it are the subject of theory \<open>Sync\<close>.
\<close>

definition BUF_SIZE :: int where "BUF_SIZE = 64"

record ioqueue =
  ioq_lock :: lock
  producer :: u32
  consumer :: u32
  buf :: "u8 list"
  ioq_head :: int
  ioq_tail :: int

datatype 'a ioq_outcome = Ready 'a ioqueue kstate | WaitLock ioqueue kstate | WaitData ioqueue kstate

definition ioqueue_init :: "ioqueue \<Rightarrow> ioqueue" where
  "ioqueue_init q = q\<lparr>ioq_lock := lock_init, producer := NULL, consumer := NULL, ioq_head := 0, ioq_tail := 0\<rparr>"

definition get_next_pos :: "int \<Rightarrow> int" where
  "get_next_pos pos = (pos + 1) smod BUF_SIZE"

definition is_ioq_full :: "ioqueue \<Rightarrow> kstate \<Rightarrow> bool res" where
  "is_ioq_full q s =
     andthen (assert_c ''intr_get_status() == INTR_OFF'' (intr_get_status (k_cpu s) = INTR_OFF)) (\<lambda>_.
     Inr (get_next_pos (ioq_head q) = ioq_tail q))"

definition is_ioq_empty :: "ioqueue \<Rightarrow> kstate \<Rightarrow> bool res" where
  "is_ioq_empty q s =
     andthen (assert_c ''intr_get_status() == INTR_OFF'' (intr_get_status (k_cpu s) = INTR_OFF)) (\<lambda>_.
     Inr (ioq_head q = ioq_tail q))"

text \<open>\<^verbatim>\<open>ioq_wait\<close> and \<^verbatim>\<open>wakeup\<close> get the address of a field; here they return its new value.\<close>

definition ioq_wait :: "u32 \<Rightarrow> kstate \<Rightarrow> (u32 \<times> kstate) res" where
  "ioq_wait waiter s =
     andthen (assert_c ''*waiter == NULL && waiter != NULL'' (waiter = NULL)) (\<lambda>_.
     andthen (thread_block TASK_BLOCKED s) (\<lambda>s1. Inr (running_thread s, s1)))"

definition wakeup :: "u32 \<Rightarrow> kstate \<Rightarrow> (u32 \<times> kstate) res" where
  "wakeup waiter s =
     andthen (assert_c ''*waiter != NULL'' (waiter \<noteq> NULL)) (\<lambda>_.
     andthen (thread_unblock waiter s) (\<lambda>s1. Inr (NULL, s1)))"

definition rd_int :: "'a list \<Rightarrow> int \<Rightarrow> 'a res" where
  "rd_int xs i = (if i < 0 then Inl OutOfBounds else rd xs (nat i))"

definition wr_int :: "'a list \<Rightarrow> int \<Rightarrow> 'a \<Rightarrow> 'a list res" where
  "wr_int xs i v = (if i < 0 then Inl OutOfBounds else wr xs (nat i) v)"

text \<open>One round of the loop of \<^verbatim>\<open>ioq_getchar\<close>, and what follows the loop.\<close>

definition ioq_getchar_loop :: "ioqueue \<Rightarrow> kstate \<Rightarrow> u8 ioq_outcome res" where
  "ioq_getchar_loop q s =
     andthen (is_ioq_empty q s) (\<lambda>is_empty.
     if is_empty
     then andthen (lock_acquire (ioq_lock q) s) (\<lambda>r. case r of
            Blocked (l, s1) \<Rightarrow> Inr (WaitLock (q\<lparr>ioq_lock := l\<rparr>) s1)
          | Done (l, s1) \<Rightarrow> andthen (ioq_wait (consumer q) s1) (\<lambda>(w, s2).
              Inr (WaitData (q\<lparr>ioq_lock := l, consumer := w\<rparr>) s2)))
     else andthen (rd_int (buf q) (ioq_tail q)) (\<lambda>c.
          let q1 = q\<lparr>ioq_tail := get_next_pos (ioq_tail q)\<rparr>
          in if producer q1 \<noteq> NULL
             then andthen (wakeup (producer q1) s) (\<lambda>(w, s1). Inr (Ready c (q1\<lparr>producer := w\<rparr>) s1))
             else Inr (Ready c q1 s)))"

definition ioq_getchar :: "ioqueue \<Rightarrow> kstate \<Rightarrow> u8 ioq_outcome res" where
  "ioq_getchar q s =
     andthen (assert_c ''intr_get_status() == INTR_OFF'' (intr_get_status (k_cpu s) = INTR_OFF)) (\<lambda>_.
     ioq_getchar_loop q s)"

definition ioq_getchar_resume :: "ioqueue \<Rightarrow> kstate \<Rightarrow> u8 ioq_outcome res" where
  "ioq_getchar_resume q s =
     andthen (lock_release (ioq_lock q) s) (\<lambda>(l, s1). ioq_getchar_loop (q\<lparr>ioq_lock := l\<rparr>) s1)"

definition ioq_putchar_loop :: "ioqueue \<Rightarrow> u8 \<Rightarrow> kstate \<Rightarrow> unit ioq_outcome res" where
  "ioq_putchar_loop q c s =
     andthen (is_ioq_full q s) (\<lambda>full.
     if full
     then andthen (lock_acquire (ioq_lock q) s) (\<lambda>r. case r of
            Blocked (l, s1) \<Rightarrow> Inr (WaitLock (q\<lparr>ioq_lock := l\<rparr>) s1)
          | Done (l, s1) \<Rightarrow> andthen (ioq_wait (producer q) s1) (\<lambda>(w, s2).
              Inr (WaitData (q\<lparr>ioq_lock := l, producer := w\<rparr>) s2)))
     else andthen (wr_int (buf q) (ioq_head q) c) (\<lambda>b.
          let q1 = q\<lparr>buf := b, ioq_head := get_next_pos (ioq_head q)\<rparr>
          in if consumer q1 \<noteq> NULL
             then andthen (wakeup (consumer q1) s) (\<lambda>(w, s1). Inr (Ready () (q1\<lparr>consumer := w\<rparr>) s1))
             else Inr (Ready () q1 s)))"

definition ioq_putchar :: "ioqueue \<Rightarrow> u8 \<Rightarrow> kstate \<Rightarrow> unit ioq_outcome res" where
  "ioq_putchar q c s =
     andthen (assert_c ''intr_get_status() == INTR_OFF'' (intr_get_status (k_cpu s) = INTR_OFF)) (\<lambda>_.
     ioq_putchar_loop q c s)"

text \<open>The writer acquires the lock a second time where the reader releases it.\<close>

definition ioq_putchar_resume :: "ioqueue \<Rightarrow> u8 \<Rightarrow> kstate \<Rightarrow> unit ioq_outcome res" where
  "ioq_putchar_resume q c s =
     andthen (lock_acquire (ioq_lock q) s) (\<lambda>r. case r of
       Blocked (l, s1) \<Rightarrow> Inr (WaitLock (q\<lparr>ioq_lock := l\<rparr>) s1)
     | Done (l, s1) \<Rightarrow> ioq_putchar_loop (q\<lparr>ioq_lock := l\<rparr>) c s1)"

subsection \<open>The buffer as a queue\<close>

definition wf_ioq :: "ioqueue \<Rightarrow> bool" where
  "wf_ioq q \<longleftrightarrow> length (buf q) = 64 \<and> 0 \<le> ioq_head q \<and> ioq_head q < 64 \<and> 0 \<le> ioq_tail q \<and> ioq_tail q < 64"

definition ioq_count :: "ioqueue \<Rightarrow> nat" where
  "ioq_count q = nat ((ioq_head q - ioq_tail q) mod 64)"

definition ioq_slot :: "ioqueue \<Rightarrow> nat \<Rightarrow> nat" where
  "ioq_slot q i = nat ((ioq_tail q + int i) mod 64)"

definition ioq_contents :: "ioqueue \<Rightarrow> u8 list" where
  "ioq_contents q = map (\<lambda>i. buf q ! ioq_slot q i) [0..<ioq_count q]"

lemma mod_64_wrap:
  "0 \<le> (x::int) \<Longrightarrow> x < 64 \<Longrightarrow> x mod 64 = x"
  "64 \<le> x \<Longrightarrow> x < 128 \<Longrightarrow> x mod 64 = x - 64"
  "- 64 \<le> x \<Longrightarrow> x < 0 \<Longrightarrow> x mod 64 = x + 64"
proof -
  show "0 \<le> x \<Longrightarrow> x < 64 \<Longrightarrow> x mod 64 = x"
    by (rule mod_pos_pos_trivial)
  show "64 \<le> x \<Longrightarrow> x < 128 \<Longrightarrow> x mod 64 = x - 64"
    using mod_pos_pos_trivial[of "x - 64" 64] by simp
  show "- 64 \<le> x \<Longrightarrow> x < 0 \<Longrightarrow> x mod 64 = x + 64"
    using mod_pos_pos_trivial[of "x + 64" 64] by simp
qed

lemma get_next_pos_eq: "0 \<le> p \<Longrightarrow> p < 64 \<Longrightarrow> get_next_pos p = (if p = 63 then 0 else p + 1)"
  by (simp add: get_next_pos_def BUF_SIZE_def signed_modulo_int_def sgn_if)

lemma ioq_count_eq:
  assumes "wf_ioq q"
  shows "int (ioq_count q) = (if ioq_tail q \<le> ioq_head q then ioq_head q - ioq_tail q else ioq_head q - ioq_tail q + 64)"
  using assms mod_64_wrap(1,3)[of "ioq_head q - ioq_tail q"] by (auto simp: wf_ioq_def ioq_count_def)

lemma length_ioq_contents [simp]: "length (ioq_contents q) = ioq_count q"
  by (simp add: ioq_contents_def)

lemma ioq_empty_iff: "wf_ioq q \<Longrightarrow> ioq_head q = ioq_tail q \<longleftrightarrow> ioq_contents q = []"
  using ioq_count_eq[of q] by (auto simp: wf_ioq_def simp flip: length_0_conv split: if_splits)

lemma ioq_full_iff: "wf_ioq q \<Longrightarrow> get_next_pos (ioq_head q) = ioq_tail q \<longleftrightarrow> ioq_count q = 63"
  using ioq_count_eq[of q] by (auto simp: wf_ioq_def get_next_pos_eq split: if_splits)

lemma ioq_count_le: "wf_ioq q \<Longrightarrow> ioq_count q \<le> 63"
  using ioq_count_eq[of q] by (auto simp: wf_ioq_def split: if_splits)

lemma ioq_slot_eq:
  assumes "wf_ioq q" and "i < 64"
  shows "int (ioq_slot q i) = (if ioq_tail q + int i < 64 then ioq_tail q + int i else ioq_tail q + int i - 64)"
  using assms mod_64_wrap(1,2)[of "ioq_tail q + int i"] by (auto simp: wf_ioq_def ioq_slot_def)

definition ioq_pushed :: "u8 \<Rightarrow> ioqueue \<Rightarrow> ioqueue" where
  "ioq_pushed c q = q\<lparr>buf := (buf q)[nat (ioq_head q) := c], ioq_head := get_next_pos (ioq_head q)\<rparr>"

definition ioq_popped :: "ioqueue \<Rightarrow> ioqueue" where
  "ioq_popped q = q\<lparr>ioq_tail := get_next_pos (ioq_tail q)\<rparr>"

lemma ioq_pushed_contents:
  assumes wf: "wf_ioq q" and room: "ioq_count q < 63"
  shows "wf_ioq (ioq_pushed c q)" and "ioq_contents (ioq_pushed c q) = ioq_contents q @ [c]"
proof -
  let ?q = "ioq_pushed c q"
  show wf': "wf_ioq ?q"
    using wf by (auto simp: wf_ioq_def ioq_pushed_def get_next_pos_eq)
  have b: "0 \<le> ioq_head q" "ioq_head q < 64" "0 \<le> ioq_tail q" "ioq_tail q < 64"
    using wf by (simp_all add: wf_ioq_def)
  have hd': "ioq_head ?q = (if ioq_head q = 63 then 0 else ioq_head q + 1)" "ioq_tail ?q = ioq_tail q"
    using b by (simp_all add: ioq_pushed_def get_next_pos_eq)
  note cnt = ioq_count_eq[OF wf]
  have cnt': "ioq_count ?q = Suc (ioq_count q)"
    using cnt room ioq_count_eq[OF wf'] hd' b by (auto split: if_splits)
  have slot: "ioq_slot ?q i = ioq_slot q i" for i
    by (simp add: ioq_slot_def hd')
  have new: "ioq_slot q (ioq_count q) = nat (ioq_head q)"
    using ioq_slot_eq[OF wf, of "ioq_count q"] room cnt b by (auto split: if_splits)
  have old: "ioq_slot q i \<noteq> nat (ioq_head q)" if "i < ioq_count q" for i
    using ioq_slot_eq[OF wf, of i] room cnt b that by (auto split: if_splits)
  have "nat (ioq_head q) < length (buf q)"
    using wf by (simp add: wf_ioq_def nat_less_iff)
  then have "buf ?q ! nat (ioq_head q) = c"
    by (simp add: ioq_pushed_def)
  moreover have "buf ?q ! ioq_slot q i = buf q ! ioq_slot q i" if "i < ioq_count q" for i
    using old[OF that, symmetric] by (simp add: ioq_pushed_def)
  ultimately show "ioq_contents ?q = ioq_contents q @ [c]"
    by (simp add: ioq_contents_def cnt' slot new)
qed

lemma ioq_popped_contents:
  assumes wf: "wf_ioq q" and ne: "ioq_contents q \<noteq> []"
  shows "wf_ioq (ioq_popped q)" and "ioq_contents q = buf q ! nat (ioq_tail q) # ioq_contents (ioq_popped q)"
proof -
  let ?q = "ioq_popped q"
  show wf': "wf_ioq ?q"
    using wf by (auto simp: wf_ioq_def ioq_popped_def get_next_pos_eq)
  have b: "0 \<le> ioq_head q" "ioq_head q < 64" "0 \<le> ioq_tail q" "ioq_tail q < 64"
    using wf by (simp_all add: wf_ioq_def)
  have tl': "ioq_tail ?q = (if ioq_tail q = 63 then 0 else ioq_tail q + 1)" "ioq_head ?q = ioq_head q"
    using b by (simp_all add: ioq_popped_def get_next_pos_eq)
  have pos: "0 < ioq_count q"
    using ne by (simp flip: length_greater_0_conv)
  have cnt: "ioq_count q = Suc (ioq_count ?q)"
    using pos ioq_count_eq[OF wf] ioq_count_eq[OF wf'] tl' b by (auto split: if_splits)
  have slot: "ioq_slot q (Suc i) = ioq_slot ?q i" if "i < ioq_count ?q" for i
    using ioq_slot_eq[OF wf, of "Suc i"] ioq_slot_eq[OF wf', of i] that cnt ioq_count_le[OF wf] tl' b
    by (auto split: if_splits)
  have "ioq_slot q 0 = nat (ioq_tail q)"
    using b by (simp add: ioq_slot_def)
  then have "ioq_contents q = buf q ! nat (ioq_tail q) # map (\<lambda>i. buf q ! ioq_slot ?q i) [0..<ioq_count ?q]"
    using slot by (simp add: ioq_contents_def cnt map_upt_Suc del: upt_Suc)
  then show "ioq_contents q = buf q ! nat (ioq_tail q) # ioq_contents ?q"
    by (simp add: ioq_contents_def) (simp add: ioq_popped_def)
qed

subsection \<open>The operations on the buffer\<close>

text \<open>A waiter field is empty or names a thread that is blocked.\<close>

definition waiter_ok :: "kstate \<Rightarrow> u32 \<Rightarrow> bool" where
  "waiter_ok s w \<longleftrightarrow> w = NULL \<or> (w \<in> set (thread_all_list s) \<and> status_of s w = TASK_BLOCKED)"

lemma wakeup_ok:
  assumes "sched_inv s" and "waiter_ok s w" and "w \<noteq> NULL"
  shows "\<exists>s'. wakeup w s = Inr (NULL, s') \<and> sched_inv s' \<and> k_cpu s' = k_cpu s \<and>
    running_thread s' = running_thread s \<and> thread_ready_list s' = w # thread_ready_list s"
proof -
  have "w \<in> set (thread_all_list s)" "status_of s w \<in> {TASK_BLOCKED, TASK_WAITING, TASK_HANGING}"
    using assms(2,3) by (auto simp: waiter_ok_def)
  from thread_unblock_spec[OF assms(1) this] show ?thesis
    using assms(3) by (auto simp: wakeup_def)
qed

lemma ioq_putchar_ok:
  assumes wf: "wf_ioq q" and off: "intr_get_status (k_cpu s) = INTR_OFF" and room: "ioq_count q < 63"
    and inv: "sched_inv s" "waiter_ok s (consumer q)"
  shows "\<exists>s'. ioq_putchar q c s = Inr (Ready () ((ioq_pushed c q)\<lparr>consumer := NULL\<rparr>) s') \<and> sched_inv s' \<and>
    k_cpu s' = k_cpu s \<and> running_thread s' = running_thread s \<and>
    thread_ready_list s' = (if consumer q = NULL then thread_ready_list s else consumer q # thread_ready_list s)"
proof -
  have full: "get_next_pos (ioq_head q) \<noteq> ioq_tail q"
    using ioq_full_iff[OF wf] room by simp
  have h: "0 \<le> ioq_head q" "nat (ioq_head q) < length (buf q)"
    using wf by (auto simp: wf_ioq_def)
  show ?thesis
  proof (cases "consumer q = NULL")
    case True
    then have "(ioq_pushed c q)\<lparr>consumer := NULL\<rparr> = ioq_pushed c q"
      by (simp add: ioq_pushed_def)
    then show ?thesis
      using True full h off inv by (simp add: ioq_putchar_def ioq_putchar_loop_def is_ioq_full_def wr_int_def ioq_pushed_def)
  next
    case False
    obtain s' where s': "wakeup (consumer q) s = Inr (NULL, s')" "sched_inv s'" "k_cpu s' = k_cpu s"
      "running_thread s' = running_thread s" "thread_ready_list s' = consumer q # thread_ready_list s"
      using wakeup_ok[OF inv False] by blast
    then show ?thesis
      using False full h off by (simp add: ioq_putchar_def ioq_putchar_loop_def is_ioq_full_def wr_int_def ioq_pushed_def)
  qed
qed

lemma ioq_getchar_loop_ok:
  assumes wf: "wf_ioq q" and off: "intr_get_status (k_cpu s) = INTR_OFF" and c: "ioq_contents q = c # cs"
    and inv: "sched_inv s" "waiter_ok s (producer q)"
  shows "\<exists>s'. ioq_getchar_loop q s = Inr (Ready c ((ioq_popped q)\<lparr>producer := NULL\<rparr>) s') \<and> sched_inv s' \<and>
    k_cpu s' = k_cpu s \<and> running_thread s' = running_thread s \<and>
    thread_ready_list s' = (if producer q = NULL then thread_ready_list s else producer q # thread_ready_list s)"
proof -
  have ne: "ioq_head q \<noteq> ioq_tail q"
    using ioq_empty_iff[OF wf] c by simp
  have h: "0 \<le> ioq_tail q" "nat (ioq_tail q) < length (buf q)"
    using wf by (auto simp: wf_ioq_def)
  have b: "buf q ! nat (ioq_tail q) = c"
    using ioq_popped_contents(2)[OF wf] c by simp
  show ?thesis
  proof (cases "producer q = NULL")
    case True
    then have "(ioq_popped q)\<lparr>producer := NULL\<rparr> = ioq_popped q"
      by (simp add: ioq_popped_def)
    then show ?thesis
      using True ne h b off inv by (simp add: ioq_getchar_loop_def is_ioq_empty_def rd_int_def ioq_popped_def)
  next
    case False
    obtain s' where s': "wakeup (producer q) s = Inr (NULL, s')" "sched_inv s'" "k_cpu s' = k_cpu s"
      "running_thread s' = running_thread s" "thread_ready_list s' = producer q # thread_ready_list s"
      using wakeup_ok[OF inv False] by blast
    then show ?thesis
      using False ne h b off by (simp add: ioq_getchar_loop_def is_ioq_empty_def rd_int_def ioq_popped_def)
  qed
qed

lemma ioq_update_waiters [simp]:
  "ioq_contents (q\<lparr>producer := w\<rparr>) = ioq_contents q" "wf_ioq (q\<lparr>producer := w\<rparr>) = wf_ioq q"
  "ioq_contents (q\<lparr>consumer := w\<rparr>) = ioq_contents q" "wf_ioq (q\<lparr>consumer := w\<rparr>) = wf_ioq q"
  "ioq_contents (q\<lparr>ioq_lock := l\<rparr>) = ioq_contents q" "wf_ioq (q\<lparr>ioq_lock := l\<rparr>) = wf_ioq q"
  by (simp_all add: ioq_contents_def wf_ioq_def ioq_count_def ioq_slot_def)


definition ioq0 :: ioqueue where
  "ioq0 = \<lparr>ioq_lock = lock_init, producer = NULL, consumer = NULL, buf = replicate 64 0, ioq_head = 0, ioq_tail = 0\<rparr>"

definition kstate0_off :: kstate where
  "kstate0_off = kstate0\<lparr>k_cpu := \<lparr>eflags = 0\<rparr>\<rparr>"

lemma kstate0_off_inv: "sched_inv kstate0_off" "intr_get_status (k_cpu kstate0_off) = INTR_OFF" "magic_inv kstate0_off"
  using kstate0_inv by (simp_all add: kstate0_off_def intr_get_status_def magic_inv_def) (simp add: kstate0_def pcb0_def)

lemma ioq0_wf: "wf_ioq ioq0" "ioq_contents ioq0 = []"
  by (simp_all add: wf_ioq_def ioq0_def ioq_contents_def ioq_count_def)


subsection \<open>What a queue of characters promises its clients\<close>

fun pop_n :: "('q \<Rightarrow> 'c) \<Rightarrow> ('q \<Rightarrow> 'q) \<Rightarrow> nat \<Rightarrow> 'q \<Rightarrow> 'c list" where
  "pop_n front pop 0 q = []"
| "pop_n front pop (Suc n) q = front q # pop_n front pop n (pop q)"

locale bounded_fifo =
  fixes wf :: "'q \<Rightarrow> bool" and contents :: "'q \<Rightarrow> 'c list" and cap :: nat
    and push :: "'c \<Rightarrow> 'q \<Rightarrow> 'q" and pop :: "'q \<Rightarrow> 'q" and front :: "'q \<Rightarrow> 'c"
  assumes push_wf: "wf q \<Longrightarrow> length (contents q) < cap \<Longrightarrow> wf (push c q)"
    and push_contents: "wf q \<Longrightarrow> length (contents q) < cap \<Longrightarrow> contents (push c q) = contents q @ [c]"
    and pop_wf: "wf q \<Longrightarrow> contents q \<noteq> [] \<Longrightarrow> wf (pop q)"
    and pop_contents: "wf q \<Longrightarrow> contents q \<noteq> [] \<Longrightarrow> contents q = front q # contents (pop q)"
begin

lemma push_all:
  assumes "wf q" and "length (contents q) + length cs \<le> cap"
  shows "wf (fold push cs q) \<and> contents (fold push cs q) = contents q @ cs"
  using assms by (induction cs arbitrary: q) (auto simp: push_wf push_contents)

lemma pop_all:
  assumes "wf q" and "n \<le> length (contents q)"
  shows "pop_n front pop n q = take n (contents q)"
  using assms
proof (induction n arbitrary: q)
  case (Suc n)
  then have ne: "contents q \<noteq> []"
    by auto
  have "contents q = front q # contents (pop q)"
    using pop_contents Suc(2) ne .
  then have "n \<le> length (contents (pop q))" "take (Suc n) (contents q) = front q # take n (contents (pop q))"
    using Suc(3) by (metis length_Cons Suc_le_mono, metis take_Suc_Cons)
  then show ?case
    using Suc(1)[OF pop_wf[OF Suc(2) ne]] by simp
qed simp

lemma transfer:
  assumes "wf q" and "contents q = []" and "length cs \<le> cap"
  shows "pop_n front pop (length cs) (fold push cs q) = cs"
  using push_all[of q cs] pop_all[of "fold push cs q" "length cs"] assms by simp

end

interpretation ioq: bounded_fifo wf_ioq ioq_contents 63 ioq_pushed ioq_popped "\<lambda>q. buf q ! nat (ioq_tail q)"
  by unfold_locales (simp_all add: ioq_pushed_contents ioq_popped_contents(1), simp add: ioq_popped_contents(2)[symmetric])

subsection \<open>Waiting for a character\<close>

lemma ioq_getchar_waits:
  assumes wf: "wf_ioq q" and e: "ioq_contents q = []" and off: "intr_get_status (k_cpu s) = INTR_OFF"
    and inv: "sched_inv s" and l: "ioq_lock q = lock_init" and w: "consumer q = NULL"
  shows "\<exists>s'. ioq_getchar q s = Inr (WaitData (q\<lparr>ioq_lock := locked_by (running_thread s), consumer := running_thread s\<rparr>) s') \<and>
    thread_block TASK_BLOCKED s = Inr s'"
proof -
  obtain s' where s': "thread_block TASK_BLOCKED s = Inr s'"
    using thread_block_spec[OF inv, of TASK_BLOCKED] by blast
  then show ?thesis
    using ioq_empty_iff[OF wf] e off l w lock_acquire_uncontended[OF sched_inv_running_not_NULL[OF inv]]
    by (simp add: ioq_getchar_def ioq_getchar_loop_def is_ioq_empty_def ioq_wait_def)
qed

text \<open>
  A reader that finds the buffer empty does not lose a wake-up: \<^verbatim>\<open>ioq_getchar\<close> registers the caller and
  blocks it; the next \<^verbatim>\<open>ioq_putchar\<close> in the thread that then runs puts it first in the ready list and
  clears the registration; and when the reader is continued, with interrupts off as it left them, it
  releases the lock of the buffer and returns that character, leaving buffer and lock as they were before.
\<close>

theorem ioq_blocked_reader_gets_character:
  assumes q: "wf_ioq q" "ioq_contents q = []" "ioq_lock q = lock_init" "consumer q = NULL" "producer q = NULL"
    and s: "sched_inv s" "intr_get_status (k_cpu s) = INTR_OFF" "running_thread s \<noteq> idle_thread s"
  shows "\<exists>q1 s1. ioq_getchar q s = Inr (WaitData q1 s1) \<and> sched_inv s1 \<and> consumer q1 = running_thread s \<and>
    status_of s1 (running_thread s) = TASK_BLOCKED \<and> resume_status (pcbs s1 (running_thread s)) = INTR_OFF \<and>
    (intr_get_status (k_cpu s1) = INTR_OFF \<longrightarrow>
      (\<exists>q2 s2. ioq_putchar q1 c s1 = Inr (Ready () q2 s2) \<and> consumer q2 = NULL \<and> sched_inv s2 \<and>
        thread_ready_list s2 = running_thread s # thread_ready_list s1 \<and>
        (\<forall>s3. sched_inv s3 \<longrightarrow> running_thread s3 = running_thread s \<longrightarrow> intr_get_status (k_cpu s3) = INTR_OFF \<longrightarrow>
          (\<exists>q3. ioq_getchar_resume q2 s3 = Inr (Ready c q3 s3) \<and> ioq_contents q3 = [] \<and> wf_ioq q3 \<and>
            ioq_lock q3 = lock_init))))"
proof -
  let ?t = "running_thread s"
  obtain s1 where s1: "ioq_getchar q s = Inr (WaitData (q\<lparr>ioq_lock := locked_by ?t, consumer := ?t\<rparr>) s1)"
    "thread_block TASK_BLOCKED s = Inr s1"
    using ioq_getchar_waits[OF q(1,2) s(2,1) q(3,4)] by blast
  have blk: "sched_inv s1" "status_of s1 ?t = TASK_BLOCKED" "?t \<in> set (thread_all_list s1)"
    "resume_status (pcbs s1 ?t) = INTR_OFF"
    using thread_block_suspends[OF s(1,3) s1(2)] s(2) by simp_all
  let ?q1 = "q\<lparr>ioq_lock := locked_by ?t, consumer := ?t\<rparr>"
  have wf1: "wf_ioq ?q1" "ioq_contents ?q1 = []" "ioq_count ?q1 < 63"
    using q(1,2) by (simp_all add: flip: length_ioq_contents)
  have w1: "waiter_ok s1 (consumer ?q1)"
    using blk by (simp add: waiter_ok_def)
  let ?q2 = "(ioq_pushed c ?q1)\<lparr>consumer := NULL\<rparr>"
  have wf2: "wf_ioq ?q2" "ioq_contents ?q2 = [c]"
    using ioq_pushed_contents[OF wf1(1,3), of c] wf1(2) by simp_all
  have put: "\<exists>s2. ioq_putchar ?q1 c s1 = Inr (Ready () ?q2 s2) \<and> sched_inv s2 \<and>
      thread_ready_list s2 = ?t # thread_ready_list s1" if "intr_get_status (k_cpu s1) = INTR_OFF"
    using ioq_putchar_ok[OF wf1(1) that wf1(3) blk(1) w1, of c] sched_inv_running_not_NULL[OF s(1)] by auto
  have resume: "\<exists>q3. ioq_getchar_resume ?q2 s3 = Inr (Ready c q3 s3) \<and> ioq_contents q3 = [] \<and> wf_ioq q3 \<and>
      ioq_lock q3 = lock_init"
    if s3: "sched_inv s3" "intr_get_status (k_cpu s3) = INTR_OFF" for s3
  proof -
    let ?q3 = "?q2\<lparr>ioq_lock := lock_init\<rparr>"
    have rel: "lock_release (ioq_lock ?q2) s3 = Inr (lock_init, s3)"
      by (simp add: ioq_pushed_def lock_release_uncontended)
    have prod: "producer ?q3 = NULL"
      by (simp add: ioq_pushed_def q(5))
    have ne: "ioq_head ?q3 \<noteq> ioq_tail ?q3"
      using ioq_empty_iff[of ?q3] wf2 by simp
    have get: "ioq_getchar_loop ?q3 s3 = Inr (Ready c (ioq_popped ?q3) s3)"
      using ne prod s3(2) ioq_popped_contents(2)[of ?q3] wf2
      by (simp add: ioq_getchar_loop_def is_ioq_empty_def rd_int_def ioq_popped_def wf_ioq_def nat_less_iff)
    show ?thesis
      using rel get ioq_popped_contents[of ?q3] wf2 by (simp add: ioq_getchar_resume_def) (simp add: ioq_popped_def)
  qed
  show ?thesis
    using s1(1) blk put resume by auto
qed

theorem ioq_blocked_reader_gets_character_witness:
  "\<exists>q1 s1. ioq_getchar ioq0 kstate0_off = Inr (WaitData q1 s1) \<and> consumer q1 = 0x1000 \<and>
    status_of s1 0x1000 = TASK_BLOCKED \<and> resume_status (pcbs s1 0x1000) = INTR_OFF"
proof -
  have "running_thread kstate0_off = 0x1000" "idle_thread kstate0_off = 0x2000"
    "ioq_lock ioq0 = lock_init" "consumer ioq0 = NULL" "producer ioq0 = NULL"
    by (simp_all add: kstate0_off_def kstate0_def ioq0_def)
  then show ?thesis
    using ioq_blocked_reader_gets_character[OF ioq0_wf _ _ _ kstate0_off_inv(1,2), of 0] by auto
qed

text \<open>
  C40. A writer that had to wait leaves the buffer locked for ever: \<^verbatim>\<open>ioq_putchar\<close> acquires the lock again
  after \<^verbatim>\<open>ioq_wait\<close> where \<^verbatim>\<open>ioq_getchar\<close> releases it, so when it is continued and finds room it returns with
  the lock held twice by its thread, and every other thread that acquires the lock is suspended.
\<close>

theorem ioq_putchar_leaks_lock:
  assumes q: "wf_ioq q" "length (ioq_contents q) = 63" "ioq_lock q = lock_init" "producer q = NULL"
    and s: "sched_inv s" "intr_get_status (k_cpu s) = INTR_OFF"
    and q2: "wf_ioq q2" "length (ioq_contents q2) < 63" "ioq_lock q2 = locked_by (running_thread s)" "consumer q2 = NULL"
    and s2: "running_thread s2 = running_thread s" "intr_get_status (k_cpu s2) = INTR_OFF"
    and s3: "sched_inv s3" "running_thread s3 \<noteq> running_thread s"
  shows "(\<exists>q1 s1. ioq_putchar q c s = Inr (WaitData q1 s1) \<and> ioq_lock q1 = locked_by (running_thread s)) \<and>
    (\<exists>q3. ioq_putchar_resume q2 c s2 = Inr (Ready () q3 s2) \<and> ioq_contents q3 = ioq_contents q2 @ [c] \<and>
      holder (ioq_lock q3) = running_thread s \<and> holder_repeat_cnt (ioq_lock q3) = 2 \<and>
      (\<exists>l s4. lock_acquire (ioq_lock q3) s3 = Inr (Blocked (l, s4)) \<and> waiters (lock_sema l) = [running_thread s3]))"
proof -
  let ?t = "running_thread s"
  have full: "get_next_pos (ioq_head q) = ioq_tail q"
    using ioq_full_iff[OF q(1)] q(2) by simp
  obtain s1 where "thread_block TASK_BLOCKED s = Inr s1"
    using thread_block_spec[OF s(1), of TASK_BLOCKED] by blast
  then have wait: "\<exists>q1 s1. ioq_putchar q c s = Inr (WaitData q1 s1) \<and> ioq_lock q1 = locked_by ?t"
    using full q s(2) lock_acquire_uncontended[OF sched_inv_running_not_NULL[OF s(1)]]
    by (simp add: ioq_putchar_def ioq_putchar_loop_def is_ioq_full_def ioq_wait_def)
  let ?l = "(locked_by ?t)\<lparr>holder_repeat_cnt := 2\<rparr>"
  let ?q3 = "ioq_pushed c (q2\<lparr>ioq_lock := ?l\<rparr>)"
  have again: "lock_acquire (ioq_lock q2) s2 = Inr (Done (?l, s2))"
    using q2(3) s2(1) by (simp add: lock_acquire_def locked_by_def)
  have "get_next_pos (ioq_head q2) \<noteq> ioq_tail q2" "0 \<le> ioq_head q2" "nat (ioq_head q2) < length (buf q2)"
    using ioq_full_iff[OF q2(1)] q2(1,2) by (auto simp: wf_ioq_def)
  then have put: "ioq_putchar_resume q2 c s2 = Inr (Ready () ?q3 s2)"
    using again q2(4) s2(2)
    by (simp add: ioq_putchar_resume_def ioq_putchar_loop_def is_ioq_full_def wr_int_def ioq_pushed_def)
  have "ioq_contents ?q3 = ioq_contents q2 @ [c]"
    using ioq_pushed_contents(2)[of "q2\<lparr>ioq_lock := ?l\<rparr>" c] q2(1,2) by (simp add: ioq_count_def)
  moreover have "\<exists>s4. thread_block TASK_BLOCKED (snd (k_intr_disable s3)) = Inr s4"
    using thread_block_spec[of "snd (k_intr_disable s3)" TASK_BLOCKED] s3(1) by (auto simp: k_intr_disable_def)
  then have "\<exists>l s4. lock_acquire ?l s3 = Inr (Blocked (l, s4)) \<and> waiters (lock_sema l) = [running_thread s3]"
    using s3(2) by (auto simp: lock_acquire_def semaphore_down_def semaphore_down_iter_def locked_by_def
        lock_init_def semaphore_init_def k_intr_disable_def)
  ultimately show ?thesis
    using wait put by (simp add: ioq_pushed_def locked_by_def)
qed

definition ioq_full_ex :: ioqueue where
  "ioq_full_ex = ioq0\<lparr>ioq_head := 63\<rparr>"

theorem ioq_putchar_leaks_lock_witness:
  "\<exists>q3. ioq_putchar_resume (ioq0\<lparr>ioq_lock := locked_by 0x1000\<rparr>) 65 kstate0_off = Inr (Ready () q3 kstate0_off) \<and>
    holder (ioq_lock q3) = 0x1000 \<and> holder_repeat_cnt (ioq_lock q3) = 2"
proof -
  let ?q2 = "ioq0\<lparr>ioq_lock := locked_by 0x1000\<rparr>"
  obtain k where k: "thread_yield kstate0 = Inr k" "sched_inv k" "running_thread k # thread_ready_list k = [0x2000, 0x3000, 0x1000]"
    using thread_yield_spec[OF kstate0_inv] by (auto simp: kstate0_def)
  have "wf_ioq ioq_full_ex" "ioq_count ioq_full_ex = 63" "ioq_lock ioq_full_ex = lock_init" "producer ioq_full_ex = NULL"
    by (simp_all add: ioq_full_ex_def ioq0_def wf_ioq_def ioq_count_def)
  moreover have "running_thread kstate0_off = 0x1000"
    by (simp add: kstate0_off_def kstate0_def)
  moreover have "wf_ioq ?q2" "ioq_contents ?q2 = []" "consumer ?q2 = NULL" "ioq_lock ?q2 = locked_by 0x1000"
    using ioq0_wf by simp_all (simp add: ioq0_def)
  moreover have "running_thread k = 0x2000"
    using k(3) by simp
  ultimately show ?thesis
    using ioq_putchar_leaks_lock[of ioq_full_ex kstate0_off ?q2 kstate0_off k 65] kstate0_off_inv(1,2) k(2)
    by (auto simp flip: length_ioq_contents)
qed

end
