(* ===== verification/Keyboard.thy ===== *)
theory Keyboard
  imports Ioqueue
begin

text \<open>
  The keyboard driver: \<^verbatim>\<open>src/device/keyboard.c\<close>. The handler is run with interrupts off, once per byte
  of a scan code; \<open>kb_screen\<close> records what it echoes with \<^verbatim>\<open>put_char\<close> and \<^verbatim>\<open>put_str\<close>.
\<close>

record kbd =
  ctrl_status :: bool
  shift_status :: bool
  alt_status :: bool
  caps_lock_status :: bool
  ext_scancode :: bool
  keyboard_ioq :: ioqueue
  exec_flag :: bool
  release_flag :: bool
  kb_screen :: "u8 list"

definition key2 :: "char \<Rightarrow> char \<Rightarrow> u8 \<times> u8" where
  "key2 plain shifted = (c_char plain, c_char shifted)"

definition keymap :: "(u8 \<times> u8) list" where
  "keymap = [
     (0, 0), (27, 27), key2 CHR ''1'' CHR ''!'', key2 CHR ''2'' CHR ''@'',
     key2 CHR ''3'' CHR ''#'', key2 CHR ''4'' CHR ''$'', key2 CHR ''5'' CHR ''%'', key2 CHR ''6'' CHR ''^'',
     key2 CHR ''7'' CHR ''&'', key2 CHR ''8'' CHR ''*'', key2 CHR ''9'' CHR ''('', key2 CHR ''0'' CHR '')'',
     key2 CHR ''-'' CHR ''_'', key2 CHR ''='' CHR ''+'', (8, 8), (9, 9),
     key2 CHR ''q'' CHR ''Q'', key2 CHR ''w'' CHR ''W'', key2 CHR ''e'' CHR ''E'', key2 CHR ''r'' CHR ''R'',
     key2 CHR ''t'' CHR ''T'', key2 CHR ''y'' CHR ''Y'', key2 CHR ''u'' CHR ''U'', key2 CHR ''i'' CHR ''I'',
     key2 CHR ''o'' CHR ''O'', key2 CHR ''p'' CHR ''P'', key2 CHR ''['' CHR ''{'', key2 CHR '']'' CHR ''}'',
     (13, 13), (0, 0), key2 CHR ''a'' CHR ''A'', key2 CHR ''s'' CHR ''S'',
     key2 CHR ''d'' CHR ''D'', key2 CHR ''f'' CHR ''F'', key2 CHR ''g'' CHR ''G'', key2 CHR ''h'' CHR ''H'',
     key2 CHR ''j'' CHR ''J'', key2 CHR ''k'' CHR ''K'', key2 CHR ''l'' CHR ''L'', key2 CHR '';'' CHR '':'',
     (39, 34), (96, c_char CHR ''~''), (0, 0), (92, c_char CHR ''|''),
     key2 CHR ''z'' CHR ''Z'', key2 CHR ''x'' CHR ''X'', key2 CHR ''c'' CHR ''C'', key2 CHR ''v'' CHR ''V'',
     key2 CHR ''b'' CHR ''B'', key2 CHR ''n'' CHR ''N'', key2 CHR ''m'' CHR ''M'', key2 CHR '','' CHR ''<'',
     key2 CHR ''.'' CHR ''>'', key2 CHR ''/'' CHR ''?'', (0, 0), key2 CHR ''*'' CHR ''*'',
     (0, 0), (32, 32), (0, 0)]"

definition shift_l_make :: u16 where "shift_l_make = 0x2a"
definition shift_r_make :: u16 where "shift_r_make = 0x36"
definition alt_l_make :: u16 where "alt_l_make = 0x38"
definition alt_r_make :: u16 where "alt_r_make = 0xe038"
definition ctrl_l_make :: u16 where "ctrl_l_make = 0x1d"
definition ctrl_r_make :: u16 where "ctrl_r_make = 0xe01d"
definition caps_lock_make :: u16 where "caps_lock_make = 0x3a"

lemmas make_codes = shift_l_make_def shift_r_make_def alt_l_make_def alt_r_make_def ctrl_l_make_def ctrl_r_make_def
  caps_lock_make_def

text \<open>The branch of the handler for a key that goes up.\<close>

definition key_up :: "u16 \<Rightarrow> kbd \<Rightarrow> kbd" where
  "key_up make_code kb =
     (if make_code = ctrl_l_make \<or> make_code = ctrl_r_make then kb\<lparr>ctrl_status := False\<rparr>
      else if make_code = shift_l_make \<or> make_code = shift_r_make then kb\<lparr>shift_status := False\<rparr>
      else if make_code = alt_l_make \<or> make_code = alt_r_make then kb\<lparr>alt_status := False\<rparr>
      else kb)"

definition two_char_key :: "u16 \<Rightarrow> bool" where
  "two_char_key scancode \<longleftrightarrow> scancode < 0x0e \<or> scancode = 0x29 \<or> scancode = 0x1a \<or> scancode = 0x1b \<or>
     scancode = 0x2b \<or> scancode = 0x27 \<or> scancode = 0x28 \<or> scancode = 0x33 \<or> scancode = 0x34 \<or> scancode = 0x35"

definition key_shifted :: "u16 \<Rightarrow> bool \<Rightarrow> bool \<Rightarrow> bool" where
  "key_shifted scancode shift_down_last caps_lock_last =
     (if two_char_key scancode then shift_down_last
      else if shift_down_last \<and> caps_lock_last then False
      else if shift_down_last \<or> caps_lock_last then True else False)"

text \<open>Echo a character and put it into the buffer. The queue is not full, so the call does not wait.\<close>

definition kbd_put :: "u8 \<Rightarrow> kbd \<Rightarrow> kstate \<Rightarrow> (kbd \<times> kstate) res" where
  "kbd_put c kb s =
     (let kb1 = kb\<lparr>kb_screen := kb_screen kb @ [c]\<rparr>
      in andthen (ioq_putchar (keyboard_ioq kb1) c s) (\<lambda>r. case r of
           Ready _ q s1 \<Rightarrow> Inr (kb1\<lparr>keyboard_ioq := q\<rparr>, s1)
         | WaitLock q s1 \<Rightarrow> Inr (kb1\<lparr>keyboard_ioq := q\<rparr>, s1)
         | WaitData q s1 \<Rightarrow> Inr (kb1\<lparr>keyboard_ioq := q\<rparr>, s1)))"

definition key_char :: "u8 \<Rightarrow> kbd \<Rightarrow> kstate \<Rightarrow> (kbd \<times> kstate) res" where
  "key_char cur_char kb s =
     (if \<not> exec_flag kb
      then andthen (is_ioq_full (keyboard_ioq kb) s) (\<lambda>full. if \<not> full then kbd_put cur_char kb s else Inr (kb, s))
      else if cur_char = 27 then Inr (kb\<lparr>release_flag := True\<rparr>, s)
      else andthen (is_ioq_full (keyboard_ioq kb) s) (\<lambda>full. if \<not> full then kbd_put cur_char kb s else Inr (kb, s)))"

definition key_control :: "u16 \<Rightarrow> kbd \<Rightarrow> kbd" where
  "key_control scancode kb =
     (if scancode = ctrl_l_make \<or> scancode = ctrl_r_make then kb\<lparr>ctrl_status := True\<rparr>
      else if scancode = shift_l_make \<or> scancode = shift_r_make then kb\<lparr>shift_status := True\<rparr>
      else if scancode = alt_l_make \<or> scancode = alt_r_make then kb\<lparr>alt_status := True\<rparr>
      else if scancode = caps_lock_make then kb\<lparr>caps_lock_status := \<not> caps_lock_status kb\<rparr>
      else kb)"

definition key_down :: "u16 \<Rightarrow> bool \<Rightarrow> bool \<Rightarrow> kbd \<Rightarrow> kstate \<Rightarrow> (kbd \<times> kstate) res" where
  "key_down scancode shift_down_last caps_lock_last kb s =
     (let shift = key_shifted scancode shift_down_last caps_lock_last;
          scancode = scancode AND 0x00ff;
          index = unat (ucast scancode :: u8)
      in andthen (rd keymap index) (\<lambda>row.
         let cur_char = (if shift then snd row else fst row)
         in if cur_char \<noteq> 0 then key_char cur_char kb s else Inr (key_control scancode kb, s)))"

definition intr_keyboard_handler :: "u8 \<Rightarrow> kbd \<Rightarrow> kstate \<Rightarrow> (kbd \<times> kstate) res" where
  "intr_keyboard_handler inb kb s =
     (let shift_down_last = shift_status kb; caps_lock_last = caps_lock_status kb; scancode = ucast inb :: u16
      in if scancode = 0xe0 then Inr (kb\<lparr>ext_scancode := True\<rparr>, s)
         else let (scancode, kb) = (if ext_scancode kb then (0xe000 OR scancode, kb\<lparr>ext_scancode := False\<rparr>) else (scancode, kb))
         in if scancode AND 0x0080 \<noteq> 0 then Inr (key_up (scancode AND 0xff7f) kb, s)
         else if (scancode > 0x00 \<and> scancode < 0x3b) \<or> scancode = alt_r_make \<or> scancode = ctrl_r_make
         then key_down scancode shift_down_last caps_lock_last kb s
         else Inr (kb\<lparr>kb_screen := kb_screen kb @ c_string ''unknown key'' @ [10]\<rparr>, s))"

definition keyboard_init :: "kbd \<Rightarrow> kbd" where
  "keyboard_init kb = kb\<lparr>keyboard_ioq := ioqueue_init (keyboard_ioq kb)\<rparr>"

subsection \<open>What is typed\<close>

text \<open>Keys and their effect, without scan codes and flags.\<close>

datatype key = KCtrl | KShift | KAlt | KCaps | KLetter u8 u8 | KSymbol u8 u8 | KNone

definition key_of :: "bool \<Rightarrow> u8 \<Rightarrow> key" where
  "key_of ext code =
     (if ext then if code = 0x1d then KCtrl else if code = 0x38 then KAlt else KNone
      else if code = 0 \<or> code \<ge> 0x3b then KNone
      else if code = 0x1d then KCtrl
      else if code = 0x2a \<or> code = 0x36 then KShift
      else if code = 0x38 then KAlt
      else if code = 0x3a then KCaps
      else (let (plain, shifted) = keymap ! unat code
            in if two_char_key (ucast code) then KSymbol plain shifted else KLetter plain shifted))"

record mods =
  m_shift :: bool
  m_caps :: bool
  m_ext :: bool

definition mods_of :: "kbd \<Rightarrow> mods" where
  "mods_of kb = \<lparr>m_shift = shift_status kb, m_caps = caps_lock_status kb, m_ext = ext_scancode kb\<rparr>"

definition key_press :: "key \<Rightarrow> mods \<Rightarrow> mods \<times> u8 option" where
  "key_press k m = (case k of
      KShift \<Rightarrow> (m\<lparr>m_shift := True\<rparr>, None)
    | KCaps \<Rightarrow> (m\<lparr>m_caps := \<not> m_caps m\<rparr>, None)
    | KLetter lower upper \<Rightarrow> (m, Some (if m_shift m \<noteq> m_caps m then upper else lower))
    | KSymbol plain shifted \<Rightarrow> (m, Some (if m_shift m then shifted else plain))
    | _ \<Rightarrow> (m, None))"

definition key_release :: "key \<Rightarrow> mods \<Rightarrow> mods" where
  "key_release k m = (case k of KShift \<Rightarrow> m\<lparr>m_shift := False\<rparr> | _ \<Rightarrow> m)"

definition kbd_byte :: "u8 \<Rightarrow> mods \<Rightarrow> mods \<times> u8 option" where
  "kbd_byte b m =
     (if b = 0xe0 then (m\<lparr>m_ext := True\<rparr>, None)
      else let k = key_of (m_ext m) (b AND 0x7f); m1 = m\<lparr>m_ext := False\<rparr>
      in if bit b 7 then (key_release k m1, None) else key_press k m1)"

fun kbd_text :: "u8 list \<Rightarrow> mods \<Rightarrow> u8 list" where
  "kbd_text [] m = []"
| "kbd_text (b # bs) m = (case kbd_byte b m of (m1, None) \<Rightarrow> kbd_text bs m1 | (m1, Some c) \<Rightarrow> c # kbd_text bs m1)"

text \<open>The comparisons of the handler in terms of the byte read.\<close>

lemma unat_scan: "unat (ucast b :: u16) = unat b" for b :: u8
  using unat_u8_lt[of b] by (simp add: unsigned_ucast_eq take_bit_nat_eq_self)

lemma bit_masks:
  "bit (0xe000 :: u16) n \<longleftrightarrow> 13 \<le> n \<and> n < 16" "bit (0xff :: u16) n \<longleftrightarrow> n < 8" "bit (0x7f :: u8) n \<longleftrightarrow> n < 7"
  "bit (0xff7f :: u16) n \<longleftrightarrow> n < 16 \<and> n \<noteq> 7"
proof -
  have "(0xe000 :: u16) = push_bit 13 (mask 3)" "(0xff :: u16) = mask 8" "(0x7f :: u8) = mask 7"
    "(0xff7f :: u16) = NOT (2 ^ 7)"
    by (simp_all add: mask_eq_exp_minus_1)
  then show "bit (0xe000 :: u16) n \<longleftrightarrow> 13 \<le> n \<and> n < 16" "bit (0xff :: u16) n \<longleftrightarrow> n < 8"
    "bit (0x7f :: u8) n \<longleftrightarrow> n < 7" "bit (0xff7f :: u16) n \<longleftrightarrow> n < 16 \<and> n \<noteq> 7"
    by (auto simp only: bit_push_bit_iff bit_mask_iff bit_exp_iff bit_not_iff possible_bit_word) auto
qed

lemmas bit_word_ops = bit_and_iff bit_or_iff bit_not_iff bit_unsigned_iff possible_bit_word

lemma scan_ext_add: "(0xe000 OR ucast b :: u16) = 0xe000 + ucast b" for b :: u8
  by (intro disjunctive_add_eq_or[symmetric] bit_word_eqI) (auto simp: bit_word_ops bit_masks simp del: bit_numeral_word_iff dest: bit_imp_le_length)

lemma unat_scan_ext: "unat (0xe000 OR ucast b :: u16) = 0xe000 + unat b" for b :: u8
proof -
  have "unat (0xe000 :: u16) + unat (ucast b :: u16) < 2 ^ 16"
    using unat_u8_lt[of b] by (simp add: unat_scan)
  then show ?thesis
    unfolding scan_ext_add by (subst unat_add_lt) (simp_all add: unat_scan)
qed

lemma scan_break: "((ucast b :: u16) AND 0x80 \<noteq> 0) = bit b 7" "((0xe000 OR ucast b :: u16) AND 0x80 \<noteq> 0) = bit b 7"
  for b :: u8
proof -
  have m: "w AND 0x80 \<noteq> 0 \<longleftrightarrow> bit w 7" for w :: u16
    using and_exp_ne_0[of w 7] by simp
  show "((ucast b :: u16) AND 0x80 \<noteq> 0) = bit b 7"
    by (simp add: m bit_simps)
  have "\<not> bit (0xe000 :: u16) 7"
    by simp
  then show "((0xe000 OR ucast b :: u16) AND 0x80 \<noteq> 0) = bit b 7"
    unfolding m by (simp add: bit_or_iff bit_simps)
qed

lemma scan_make: "(ucast b :: u16) AND 0xff7f = ucast (b AND 0x7f)"
  "(0xe000 OR ucast b :: u16) AND 0xff7f = 0xe000 OR ucast (b AND 0x7f)" for b :: u8
proof -
  have n: "bit b n \<Longrightarrow> n \<noteq> 7 \<Longrightarrow> n < 7" for n
    using bit_imp_le_length[of b n] by simp
  show "(ucast b :: u16) AND 0xff7f = ucast (b AND 0x7f)"
    "(0xe000 OR ucast b :: u16) AND 0xff7f = 0xe000 OR ucast (b AND 0x7f)"
    by (rule bit_word_eqI, auto simp: bit_word_ops bit_masks n simp del: bit_numeral_word_iff)+
qed

lemma scan_low: "(ucast b :: u16) AND 0xff = ucast b" "(0xe000 OR ucast b :: u16) AND 0xff = ucast b" "ucast (ucast b :: u16) = b"
  for b :: u8
  by (rule bit_word_eqI, auto simp: bit_word_ops bit_masks simp del: bit_numeral_word_iff dest: bit_imp_le_length)+

lemma scan_7bit: "b AND 0x7f = b" if "\<not> bit b 7" for b :: u8
proof (rule bit_word_eqI)
  fix n assume "n < LENGTH(8)"
  then have "n < 7 \<or> n = 7"
    by auto
  then show "bit (b AND 0x7f) n = bit b n"
    using that by (auto simp: bit_word_ops bit_masks simp del: bit_numeral_word_iff)
qed

lemmas scan_compare = word_unat_eq_iff word_less_nat_alt word_le_nat_alt unat_scan unat_scan_ext

lemma keymap_rows:
  "length keymap = 59"
  "\<forall>i \<in> {0x1d, 0x2a, 0x36, 0x38, 0x3a}. keymap ! i = (0, 0)"
  by (simp_all add: keymap_def)

lemma keymap_chars:
  "\<forall>i \<in> {1..<59}. i \<in> {0x1d, 0x2a, 0x36, 0x38, 0x3a} \<or> (fst (keymap ! i) \<noteq> 0 \<and> snd (keymap ! i) \<noteq> 0)"
  by (simp add: keymap_def key2_def c_char_def atLeastLessThan_nat_numeral)

lemma key_shifted_eq: "key_shifted sc sh caps = (if two_char_key sc then sh else sh \<noteq> caps)"
  by (auto simp: key_shifted_def)

lemma key_up_spec:
  "mods_of (key_up (if ext then 0xe000 OR ucast c else ucast c) kb) = key_release (key_of ext c) (mods_of kb) \<and>
   keyboard_ioq (key_up sc kb) = keyboard_ioq kb \<and> exec_flag (key_up sc kb) = exec_flag kb"
  for c :: u8
  by (auto simp: key_up_def mods_of_def key_release_def key_of_def make_codes scan_compare Let_def split: prod.splits)

lemma key_control_spec:
  assumes "key_of False c \<in> {KCtrl, KShift, KAlt, KCaps}"
  shows "mods_of (key_control (ucast c) kb) = fst (key_press (key_of False c) (mods_of kb)) \<and>
    keyboard_ioq (key_control (ucast c) kb) = keyboard_ioq kb \<and> exec_flag (key_control (ucast c) kb) = exec_flag kb"
  using assms
  by (auto simp: key_control_def mods_of_def key_press_def key_of_def make_codes scan_compare Let_def
      split: prod.splits if_splits)

lemma two_char_key_char: "two_char_key (ucast c) \<Longrightarrow> c \<notin> {0x1d, 0x2a, 0x36, 0x38, 0x3a}" for c :: u8
  by (auto simp: two_char_key_def scan_compare)

lemma key_down_plain:
  assumes "0 < c" "c < 0x3b"
  shows "case key_press (key_of False c) (mods_of kb) of
      (m, None) \<Rightarrow> key_down (ucast c) (shift_status kb) (caps_lock_status kb) kb s = Inr (key_control (ucast c) kb, s) \<and>
        key_of False c \<in> {KCtrl, KShift, KAlt, KCaps}
    | (m, Some ch) \<Rightarrow> key_down (ucast c) (shift_status kb) (caps_lock_status kb) kb s = key_char ch kb s \<and> m = mods_of kb"
proof -
  have i: "unat c \<in> {1..<59}"
    using assms by (simp add: word_less_nat_alt Suc_le_eq)
  have idx: "unat (ucast (ucast c AND 0xff :: u16) :: u8) = unat c" "ucast c AND 0xff = (ucast c :: u16)"
    "unat (ucast (ucast c :: u16) :: u8) = unat c"
    by (simp_all add: scan_low)
  have rd: "rd keymap (unat c) = Inr (keymap ! unat c)"
    using i by (simp add: keymap_rows)
  show ?thesis
  proof (cases "c \<in> {0x1d, 0x2a, 0x36, 0x38, 0x3a}")
    case True
    then have "keymap ! unat c = (0, 0)"
      using keymap_rows(2) by auto
    moreover have "key_of False c \<in> {KCtrl, KShift, KAlt, KCaps}"
      using True by (auto simp: key_of_def)
    moreover from this have "snd (key_press (key_of False c) (mods_of kb)) = None"
      by (auto simp: key_press_def)
    ultimately show ?thesis
      using rd by (auto simp: key_down_def idx Let_def split: prod.splits option.splits)
  next
    case False
    then have "unat c \<notin> {0x1d, 0x2a, 0x36, 0x38, 0x3a}"
      by (auto simp: word_unat_eq_iff)
    then have nz: "fst (keymap ! unat c) \<noteq> 0" "snd (keymap ! unat c) \<noteq> 0"
      using keymap_chars i by blast+
    obtain x y where xy: "keymap ! unat c = (x, y)"
      by fastforce
    have "key_of False c = (if two_char_key (ucast c) then KSymbol x y else KLetter x y)"
      using False assms xy by (auto simp: key_of_def)
    then show ?thesis
      using rd nz xy by (simp add: key_down_def idx key_press_def key_shifted_eq mods_of_def Let_def)
  qed
qed

lemma key_down_ext:
  fixes c :: u8
  assumes "c = 0x38 \<or> c = 0x1d"
  shows "\<exists>kb'. key_down (0xe000 OR ucast c) sh caps kb s = Inr (kb', s) \<and> mods_of kb' = mods_of kb \<and>
    keyboard_ioq kb' = keyboard_ioq kb \<and> exec_flag kb' = exec_flag kb"
proof -
  have "keymap ! unat c = (0, 0)" "unat c < length keymap"
    using assms keymap_rows by auto
  then show ?thesis
    using assms by (auto simp: key_down_def scan_low key_control_def make_codes mods_of_def Let_def)
qed

lemma handler_spec:
  "case kbd_byte b (mods_of kb) of
     (m, None) \<Rightarrow> \<exists>kb'. intr_keyboard_handler b kb s = Inr (kb', s) \<and> mods_of kb' = m \<and>
       keyboard_ioq kb' = keyboard_ioq kb \<and> exec_flag kb' = exec_flag kb
   | (m, Some c) \<Rightarrow> intr_keyboard_handler b kb s = key_char c (kb\<lparr>ext_scancode := False\<rparr>) s \<and>
       mods_of (kb\<lparr>ext_scancode := False\<rparr>) = m"
proof (cases "b = 0xe0")
  case True
  then show ?thesis
    by (simp add: intr_keyboard_handler_def kbd_byte_def mods_of_def)
next
  case b: False
  have ne: "(ucast b :: u16) \<noteq> 0xe0"
    using b by (simp add: scan_compare)
  let ?kb = "kb\<lparr>ext_scancode := False\<rparr>"
  have m: "(mods_of kb)\<lparr>m_ext := False\<rparr> = mods_of ?kb" "m_ext (mods_of kb) = ext_scancode kb"
    by (simp_all add: mods_of_def)
  have kbF: "\<not> ext_scancode kb \<Longrightarrow> ?kb = kb"
    by simp
  show ?thesis
  proof (cases "bit b 7")
    case True
    then show ?thesis
      using key_up_spec[of "ext_scancode kb" "b AND 0x7f" ?kb] b ne
      by (cases "ext_scancode kb") (simp_all add: intr_keyboard_handler_def kbd_byte_def scan_break scan_make m kbF Let_def)
  next
    case up: False
    note c7 = scan_7bit[OF up]
    show ?thesis
    proof (cases "ext_scancode kb")
      case True
      have "((0xe000 OR ucast b :: u16) > 0 \<and> (0xe000 OR ucast b :: u16) < 0x3b) \<or> (0xe000 OR ucast b :: u16) = alt_r_make \<or>
          (0xe000 OR ucast b :: u16) = ctrl_r_make \<longleftrightarrow> b = 0x38 \<or> b = 0x1d"
        by (auto simp: scan_compare make_codes)
      then show ?thesis
        using key_down_ext[of b "shift_status kb" "caps_lock_status kb" ?kb s] b ne True up
        by (auto simp: intr_keyboard_handler_def kbd_byte_def scan_break c7 m key_of_def key_press_def Let_def)
          (auto simp: mods_of_def)
    next
      case False
      have r: "((ucast b :: u16) > 0 \<and> (ucast b :: u16) < 0x3b) \<or> (ucast b :: u16) = alt_r_make \<or>
          (ucast b :: u16) = ctrl_r_make \<longleftrightarrow> 0 < b \<and> b < 0x3b"
        using unat_u8_lt[of b] by (auto simp: scan_compare make_codes)
      note kb = kbF[OF False]
      show ?thesis
      proof (cases "0 < b \<and> b < 0x3b")
        case True
        then show ?thesis
          using key_down_plain[of b kb s] key_control_spec[of b kb] b ne up r False
          by (auto simp: intr_keyboard_handler_def kbd_byte_def scan_break c7 m kb Let_def split: prod.splits option.splits)
      next
        case None: False
        then have "key_of False b = KNone"
          by (auto simp: key_of_def not_less)
        then show ?thesis
          using None b ne up r False
          by (auto simp: intr_keyboard_handler_def kbd_byte_def scan_break c7 m kb key_press_def Let_def)
            (auto simp: mods_of_def)
      qed
    qed
  qed
qed

text \<open>What the driver relies on: interrupts are off, the buffer is sound, and its reader, if any, is blocked.\<close>

definition kbd_ok :: "kbd \<Rightarrow> kstate \<Rightarrow> bool" where
  "kbd_ok kb s \<longleftrightarrow> \<not> exec_flag kb \<and> wf_ioq (keyboard_ioq kb) \<and> intr_get_status (k_cpu s) = INTR_OFF \<and> sched_inv s \<and>
     waiter_ok s (consumer (keyboard_ioq kb))"

lemma key_char_spec:
  assumes ok: "kbd_ok kb s"
  shows "\<exists>kb' s'. key_char c kb s = Inr (kb', s') \<and> kbd_ok kb' s' \<and> mods_of kb' = mods_of kb \<and>
    ioq_contents (keyboard_ioq kb') = take 63 (ioq_contents (keyboard_ioq kb) @ [c])"
proof -
  let ?q = "keyboard_ioq kb"
  have wf: "wf_ioq ?q" and off: "intr_get_status (k_cpu s) = INTR_OFF" and inv: "sched_inv s" "waiter_ok s (consumer ?q)"
    and nf: "\<not> exec_flag kb"
    using ok by (simp_all add: kbd_ok_def)
  show ?thesis
  proof (cases "ioq_count ?q = 63")
    case True
    then show ?thesis
      using ok ioq_full_iff[OF wf] nf off by (simp add: key_char_def is_ioq_full_def)
  next
    case False
    then have room: "ioq_count ?q < 63"
      using ioq_count_le[OF wf] by simp
    obtain s' where s': "ioq_putchar ?q c s = Inr (Ready () ((ioq_pushed c ?q)\<lparr>consumer := NULL\<rparr>) s')" "sched_inv s'"
      "k_cpu s' = k_cpu s"
      using ioq_putchar_ok[OF wf off room inv] by blast
    have p: "wf_ioq (ioq_pushed c ?q)" "ioq_contents (ioq_pushed c ?q) = ioq_contents ?q @ [c]"
      using ioq_pushed_contents[OF wf room] by simp_all
    have "take 63 (ioq_contents ?q @ [c]) = ioq_contents ?q @ [c]"
      using room by simp
    then show ?thesis
      using s' p nf off ioq_full_iff[OF wf] False
      by (simp add: key_char_def is_ioq_full_def kbd_put_def kbd_ok_def waiter_ok_def mods_of_def)
  qed
qed

fun kbd_run :: "u8 list \<Rightarrow> kbd \<Rightarrow> kstate \<Rightarrow> (kbd \<times> kstate) res" where
  "kbd_run [] kb s = Inr (kb, s)"
| "kbd_run (b # bs) kb s = andthen (intr_keyboard_handler b kb s) (\<lambda>(kb1, s1). kbd_run bs kb1 s1)"

lemma take_take_append: "take n (take n xs @ ys) = take n (xs @ ys)"
  by (cases "length xs \<le> n") simp_all

text \<open>
  C10. What is typed is what is read: a sequence of keyboard interrupts, one per byte of a scan code, passes
  all assertions and appends to the keyboard buffer exactly the text the keys spell, in order: a letter
  key gives its upper case form when exactly one of shift and caps lock is active, a key with two symbols
  looks at shift only, releases and modifier keys give nothing, and the second byte of an extended code
  is not taken for a plain key. Characters beyond the 63rd unread one are dropped and nothing else is lost.
\<close>

theorem keyboard_delivers_text:
  assumes "kbd_ok kb s"
  shows "\<exists>kb' s'. kbd_run bs kb s = Inr (kb', s') \<and> kbd_ok kb' s' \<and>
    ioq_contents (keyboard_ioq kb') = take 63 (ioq_contents (keyboard_ioq kb) @ kbd_text bs (mods_of kb))"
  using assms
proof (induction bs arbitrary: kb s)
  case Nil
  then show ?case
    using ioq_count_le[of "keyboard_ioq kb"] by (simp add: kbd_ok_def)
next
  case (Cons b bs)
  obtain m oc where m: "kbd_byte b (mods_of kb) = (m, oc)"
    by fastforce
  show ?case
  proof (cases oc)
    case None
    obtain kb1 where kb1: "intr_keyboard_handler b kb s = Inr (kb1, s)" "mods_of kb1 = m"
      "keyboard_ioq kb1 = keyboard_ioq kb" "exec_flag kb1 = exec_flag kb"
      using handler_spec[of b kb s] m None by auto
    then have "kbd_ok kb1 s"
      using Cons(2) by (simp add: kbd_ok_def)
    from Cons(1)[OF this] show ?thesis
      using kb1 m None by simp
  next
    case (Some c)
    have h: "intr_keyboard_handler b kb s = key_char c (kb\<lparr>ext_scancode := False\<rparr>) s"
      "mods_of (kb\<lparr>ext_scancode := False\<rparr>) = m"
      using handler_spec[of b kb s] m Some by auto
    have "kbd_ok (kb\<lparr>ext_scancode := False\<rparr>) s"
      using Cons(2) by (simp add: kbd_ok_def)
    from key_char_spec[OF this, of c] obtain kb1 s1 where kb1: "intr_keyboard_handler b kb s = Inr (kb1, s1)" "kbd_ok kb1 s1"
      "mods_of kb1 = m" "ioq_contents (keyboard_ioq kb1) = take 63 (ioq_contents (keyboard_ioq kb) @ [c])"
      using h by auto
    obtain kb' s' where r: "kbd_run bs kb1 s1 = Inr (kb', s')" "kbd_ok kb' s'"
      "ioq_contents (keyboard_ioq kb') = take 63 (ioq_contents (keyboard_ioq kb1) @ kbd_text bs m)"
      using Cons(1)[OF kb1(2)] kb1(3) by blast
    have "take 63 (take 63 (ioq_contents (keyboard_ioq kb) @ [c]) @ kbd_text bs m) =
        take 63 (ioq_contents (keyboard_ioq kb) @ c # kbd_text bs m)"
      using take_take_append[of 63 "ioq_contents (keyboard_ioq kb) @ [c]"] by simp
    then show ?thesis
      using r kb1(1,4) m Some by simp
  qed
qed

definition kbd0 :: kbd where
  "kbd0 = \<lparr>ctrl_status = False, shift_status = False, alt_status = False, caps_lock_status = False, ext_scancode = False,
     keyboard_ioq = ioq0, exec_flag = False, release_flag = False, kb_screen = []\<rparr>"

lemma kbd0_ok: "kbd_ok kbd0 kstate0_off"
  using kstate0_off_inv ioq0_wf by (simp add: kbd_ok_def kbd0_def waiter_ok_def) (simp add: ioq0_def)

text \<open>Shift down, the key L, shift up, the key S: the text is \<open>Ls\<close>.\<close>

theorem keyboard_delivers_text_witness:
  "\<exists>kb' s'. kbd_run [0x2a, 0x26, 0xaa, 0x1f] kbd0 kstate0_off = Inr (kb', s') \<and>
    ioq_contents (keyboard_ioq kb') = c_string ''Ls''"
proof -
  have b: "bit (0xaa :: u8) 7" "\<not> bit (0x2a :: u8) 7" "\<not> bit (0x26 :: u8) 7" "\<not> bit (0x1f :: u8) 7"
    by simp_all
  have "kbd_text [0x2a, 0x26, 0xaa, 0x1f] (mods_of kbd0) = c_string ''Ls''"
    using b by (simp add: kbd_byte_def key_of_def key_press_def key_release_def mods_of_def kbd0_def keymap_def key2_def
        two_char_key_def c_string_def Let_def)
  moreover have "ioq_contents (keyboard_ioq kbd0) = []"
    using ioq0_wf by (simp add: kbd0_def)
  ultimately show ?thesis
    using keyboard_delivers_text[OF kbd0_ok, of "[0x2a, 0x26, 0xaa, 0x1f]"] by (auto simp: c_string_def)
qed

end
