(* ===== verification/Paging.thy ===== *)
theory Paging
  imports Klist
begin

text \<open>
  Page tables: the part of \<^verbatim>\<open>src/kernel/memory.c\<close> that reads and writes them. Physical memory is a
  map from word-aligned physical addresses to 32-bit words. \<open>translate\<close> is what the memory management
  unit does with a virtual address: it walks the page directory found through \<^verbatim>\<open>cr3\<close>. The kernel sees its own
  page tables through the last entry of the directory, which points to the directory itself;
  \<^verbatim>\<open>pte_ptr\<close> and \<^verbatim>\<open>pde_ptr\<close> compute the virtual addresses at which they appear. The translation cache
  is not modelled: \<^verbatim>\<open>invlpg\<close> has no effect here.
\<close>

record pmem =
  ram :: "u32 \<Rightarrow> u32"
  cr3_reg :: u32

definition PG_P_1 :: u32 where "PG_P_1 = 1"
definition PG_RW_W :: u32 where "PG_RW_W = 2"
definition PG_US_U :: u32 where "PG_US_U = 4"
definition PG_SIZE :: u32 where "PG_SIZE = 4096"

definition PDE_IDX :: "u32 \<Rightarrow> u32" where
  "PDE_IDX addr = drop_bit 22 (addr AND 0xffc00000)"

definition PTE_IDX :: "u32 \<Rightarrow> u32" where
  "PTE_IDX addr = drop_bit 12 (addr AND 0x003ff000)"

definition pte_ptr :: "u32 \<Rightarrow> u32" where
  "pte_ptr vaddr = 0xffc00000 + drop_bit 10 (vaddr AND 0xffc00000) + PTE_IDX vaddr * 4"

definition pde_ptr :: "u32 \<Rightarrow> u32" where
  "pde_ptr vaddr = 0xfffff000 + PDE_IDX vaddr * 4"

subsection \<open>The memory management unit\<close>

definition frame :: "u32 \<Rightarrow> u32" where "frame e = e AND 0xfffff000"

definition present :: "u32 \<Rightarrow> bool" where "present e \<longleftrightarrow> e AND 1 \<noteq> 0"

definition pde_addr :: "pmem \<Rightarrow> u32 \<Rightarrow> u32" where
  "pde_addr m v = frame (cr3_reg m) + drop_bit 22 v * 4"

definition pte_addr :: "pmem \<Rightarrow> u32 \<Rightarrow> u32" where
  "pte_addr m v = frame (ram m (pde_addr m v)) + (drop_bit 12 v AND 0x3ff) * 4"

definition translate :: "pmem \<Rightarrow> u32 \<Rightarrow> u32 option" where
  "translate m v =
     (if \<not> present (ram m (pde_addr m v)) then None
      else if \<not> present (ram m (pte_addr m v)) then None
      else Some (frame (ram m (pte_addr m v)) + (v AND 0xfff)))"

definition load :: "u32 \<Rightarrow> pmem \<Rightarrow> u32 res" where
  "load v m = (case translate m v of None \<Rightarrow> Inl PageFault | Some p \<Rightarrow> Inr (ram m p))"

definition store :: "u32 \<Rightarrow> u32 \<Rightarrow> pmem \<Rightarrow> pmem res" where
  "store v x m = (case translate m v of None \<Rightarrow> Inl PageFault | Some p \<Rightarrow> Inr (m\<lparr>ram := (ram m)(p := x)\<rparr>))"

text \<open>\<^verbatim>\<open>memset(page, 0, PG_SIZE)\<close> for a page-aligned address.\<close>

definition clear_page :: "u32 \<Rightarrow> pmem \<Rightarrow> pmem res" where
  "clear_page v m = (case translate m v of None \<Rightarrow> Inl PageFault
     | Some p \<Rightarrow> Inr (m\<lparr>ram := (\<lambda>a. if frame a = frame p then 0 else ram m a)\<rparr>))"

subsection \<open>Entries\<close>

text \<open>\<open>palloc_frame\<close> is what the call of \<^verbatim>\<open>palloc\<close> for a new page table returns; the pools are in theory \<open>Memory\<close>.\<close>

definition page_table_set :: "u32 \<Rightarrow> u32 \<Rightarrow> pmem \<Rightarrow> pmem res" where
  "page_table_set vaddr page_phyaddr m =
     andthen (load (pte_ptr vaddr) m) (\<lambda>pte.
     andthen (assert_c ''!(*pte & PG_P_1)'' (pte AND PG_P_1 = 0)) (\<lambda>_.
     store (pte_ptr vaddr) (page_phyaddr OR PG_US_U OR PG_RW_W OR PG_P_1) m))"

definition page_table_new :: "u32 \<Rightarrow> u32 \<Rightarrow> pmem \<Rightarrow> pmem res" where
  "page_table_new vaddr pde_phyaddr m =
     andthen (store (pde_ptr vaddr) (pde_phyaddr OR PG_US_U OR PG_RW_W OR PG_P_1) m) (\<lambda>m1.
     clear_page (pte_ptr vaddr AND 0xfffff000) m1)"

definition addr_vir2phy :: "u32 \<Rightarrow> pmem \<Rightarrow> u32 res" where
  "addr_vir2phy vaddr m =
     andthen (load (pte_ptr vaddr) m) (\<lambda>pte. Inr ((pte AND 0xfffff000) + (vaddr AND 0xfff)))"

definition page_table_pte_remove :: "u32 \<Rightarrow> pmem \<Rightarrow> pmem res" where
  "page_table_pte_remove vaddr m =
     andthen (load (pte_ptr vaddr) m) (\<lambda>pte. store (pte_ptr vaddr) (pte AND NOT PG_P_1) m)"

subsection \<open>The fields of an address\<close>

abbreviation pdi :: "u32 \<Rightarrow> u32" where "pdi v \<equiv> drop_bit 22 v"
abbreviation pti :: "u32 \<Rightarrow> u32" where "pti v \<equiv> drop_bit 12 v AND 0x3ff"
abbreviation page_off :: "u32 \<Rightarrow> u32" where "page_off v \<equiv> v AND 0xfff"

lemma unat_and_mask: "unat (v AND mask n :: 'a::len word) = unat v mod 2 ^ n"
  by (simp only: take_bit_eq_mask[symmetric] unsigned_take_bit_eq) (simp add: take_bit_eq_mod)

lemma unat_pdi: "unat (pdi v) = unat v div 4194304"
  by (simp only: unat_drop_bit_eq) (simp add: drop_bit_eq_div)

lemma unat_pti: "unat (pti v) = unat v div 4096 mod 1024"
  unfolding mask_literals unat_and_mask unat_drop_bit_eq by (simp add: drop_bit_eq_div)

lemma unat_off: "unat (page_off v) = unat v mod 4096"
  unfolding mask_literals unat_and_mask by simp

lemma frame_off: "frame e + page_off e = e"
proof -
  have "frame e OR page_off e = e"
    unfolding frame_def mask_literals by (rule bit_word_eqI) (auto simp: bit_simps)
  moreover have "frame e AND page_off e = 0"
    unfolding frame_def mask_literals by (rule bit_word_eqI) (auto simp: bit_simps)
  ultimately show ?thesis
    by (simp add: disjunctive_add_eq_or)
qed

lemma unat_frame: "unat (frame e) = unat e div 4096 * 4096"
proof -
  have "frame e = e - page_off e"
    using frame_off[of e] by (metis add_diff_cancel_right')
  then have "unat (frame e) = unat e - unat e mod 4096"
    using unat_sub[of "page_off e" e] by (simp add: word_le_nat_alt unat_off)
  then show ?thesis
    by (simp add: minus_mod_eq_div_mult)
qed

lemma PDE_IDX_eq: "PDE_IDX v = pdi v"
  unfolding PDE_IDX_def mask_literals by (rule bit_word_eqI) (auto simp: bit_simps dest: bit_imp_le_length)

lemma PTE_IDX_eq: "PTE_IDX v = pti v"
  unfolding PTE_IDX_def mask_literals by (rule bit_word_eqI) (auto simp: bit_simps)

lemma unat_high: "unat (drop_bit 10 (v AND 0xffc00000)) = unat v div 4194304 * 4096" for v :: u32
proof -
  have "drop_bit 10 (v AND 0xffc00000) = push_bit 12 (pdi v)"
    unfolding mask_literals by (rule bit_word_eqI) (auto simp: bit_simps dest: bit_imp_le_length)
  moreover have "unat (push_bit 12 (pdi v)) = unat (pdi v) * 4096"
    using unat_u32_lt[of v] by (simp only: unsigned_push_bit_eq)
      (simp add: push_bit_eq_mult unat_pdi take_bit_nat_eq_self)
  ultimately show ?thesis
    by (simp add: unat_pdi)
qed

lemma unat_mult_4: "unat x < 1024 \<Longrightarrow> unat (x * 4) = unat x * 4" for x :: u32
  by (subst unat_mult_lem[THEN iffD1]) simp_all

lemma pti_lt: "unat (pti v) < 1024" and pdi_lt: "unat (pdi v) < 1024"
  using unat_u32_lt[of v] by (simp_all add: unat_pti unat_pdi)

lemma unat_pte_ptr: "unat (pte_ptr v) = 0xffc00000 + unat v div 4194304 * 4096 + unat v div 4096 mod 1024 * 4"
proof -
  let ?a = "0xffc00000 :: u32" and ?b = "drop_bit 10 (v AND 0xffc00000)" and ?c = "pti v * 4"
  have c: "unat ?c = unat v div 4096 mod 1024 * 4"
    using unat_mult_4[OF pti_lt] by (simp add: unat_pti)
  have "unat v div 4194304 < 1024" "unat v div 4096 mod 1024 < 1024"
    using unat_u32_lt[of v] by simp_all
  then have lt: "unat ?a + unat ?b + unat ?c < 2 ^ 32"
    unfolding unat_high c by simp
  then have ab: "unat (?a + ?b) = unat ?a + unat ?b"
    by (intro unat_add_lt) simp
  then have "unat (?a + ?b + ?c) = unat ?a + unat ?b + unat ?c"
    using lt by (subst unat_add_lt) simp_all
  then show ?thesis
    unfolding pte_ptr_def PTE_IDX_eq unat_high c by simp
qed

lemma unat_pde_ptr: "unat (pde_ptr v) = 0xfffff000 + unat v div 4194304 * 4"
proof -
  have c: "unat (pdi v * 4) = unat v div 4194304 * 4"
    using unat_mult_4[OF pdi_lt] by (simp add: unat_pdi)
  have "unat (0xfffff000 + pdi v * 4) = unat (0xfffff000 :: u32) + unat (pdi v * 4)"
    using unat_u32_lt[of v] by (intro unat_add_lt) (simp add: c)
  then show ?thesis
    unfolding pde_ptr_def PDE_IDX_eq c by simp
qed

text \<open>Where the tables appear: \<^verbatim>\<open>pte_ptr\<close> selects the last directory entry, then the entry of the directory
  that belongs to the address, then the entry of the table; \<^verbatim>\<open>pde_ptr\<close> selects the last entry twice.\<close>

lemma div_mod_split: "(r::nat) < k \<Longrightarrow> n = q * k + r \<Longrightarrow> n div k = q \<and> n mod k = r"
  by simp

lemma pte_ptr_fields: "pdi (pte_ptr v) = 1023" "pti (pte_ptr v) = pdi v" "page_off (pte_ptr v) = pti v * 4"
proof -
  define d p where "d = unat v div 4194304" and "p = unat v div 4096 mod 1024"
  have b: "d < 1024" "p < 1024"
    using unat_u32_lt[of v] by (simp_all add: d_def p_def)
  have u: "unat (pte_ptr v) = 4290772992 + d * 4096 + p * 4"
    by (simp add: unat_pte_ptr d_def p_def)
  have "unat (pte_ptr v) div 4194304 = 1023"
    using div_mod_split[of "d * 4096 + p * 4" 4194304 _ 1023] u b by simp
  moreover have "unat (pte_ptr v) div 4096 = 1023 * 1024 + d \<and> unat (pte_ptr v) mod 4096 = p * 4"
    using u b by (intro div_mod_split) simp_all
  moreover have "(1023 * 1024 + d) mod 1024 = d"
    using div_mod_split[of d 1024 "1023 * 1024 + d" 1023] b by simp
  ultimately have "unat (pte_ptr v) div 4194304 = 1023" "unat (pte_ptr v) div 4096 mod 1024 = d" "unat (pte_ptr v) mod 4096 = p * 4"
    by simp_all
  then show "pdi (pte_ptr v) = 1023" "pti (pte_ptr v) = pdi v" "page_off (pte_ptr v) = pti v * 4"
    using unat_mult_4[OF pti_lt, of v]
    by (simp_all only: word_unat_eq_iff unat_pdi unat_pti unat_off) (simp_all add: d_def p_def)
qed

lemma pde_ptr_fields: "pdi (pde_ptr v) = 1023" "pti (pde_ptr v) = 1023" "page_off (pde_ptr v) = pdi v * 4"
proof -
  define d where "d = unat v div 4194304"
  have b: "d < 1024"
    using unat_u32_lt[of v] by (simp add: d_def)
  have u: "unat (pde_ptr v) = 4294963200 + d * 4"
    by (simp add: unat_pde_ptr d_def)
  have "unat (pde_ptr v) div 4194304 = 1023"
    using div_mod_split[of "1023 * 4096 + d * 4" 4194304 _ 1023] u b by simp
  moreover have "unat (pde_ptr v) div 4096 = 1023 * 1024 + 1023 \<and> unat (pde_ptr v) mod 4096 = d * 4"
    using u b by (intro div_mod_split) simp_all
  ultimately have "unat (pde_ptr v) div 4194304 = 1023" "unat (pde_ptr v) div 4096 mod 1024 = 1023" "unat (pde_ptr v) mod 4096 = d * 4"
    by simp_all
  then show "pdi (pde_ptr v) = 1023" "pti (pde_ptr v) = 1023" "page_off (pde_ptr v) = pdi v * 4"
    using unat_mult_4[OF pdi_lt, of v]
    by (simp_all only: word_unat_eq_iff unat_pdi unat_pti unat_off) (simp_all add: d_def)
qed

lemma frame_fields: "pdi (frame v) = pdi v" "pti (frame v) = pti v" "page_off (frame v) = 0" "frame (frame v) = frame v"
  by (simp_all only: word_unat_eq_iff unat_pdi unat_pti unat_off unat_frame) (simp_all add: div_mult2_eq[symmetric, of _ 4096 1024, simplified])

subsection \<open>The recursive mapping\<close>

text \<open>
  The page directory in use: \<^verbatim>\<open>cr3\<close> points to it, its last entry points back to it, different entries
  that are present point to different tables, and none but the last points to the directory.
\<close>

definition pd_entry :: "pmem \<Rightarrow> u32 \<Rightarrow> u32" where
  "pd_entry m i = ram m (frame (cr3_reg m) + i * 4)"

definition wf_pd :: "pmem \<Rightarrow> bool" where
  "wf_pd m \<longleftrightarrow> present (pd_entry m 1023) \<and> frame (pd_entry m 1023) = frame (cr3_reg m) \<and>
     (\<forall>i < 1024. \<forall>j < 1024. present (pd_entry m i) \<longrightarrow> present (pd_entry m j) \<longrightarrow>
        frame (pd_entry m i) = frame (pd_entry m j) \<longrightarrow> i = j)"

text \<open>
  The directory the loader leaves (\<^verbatim>\<open>src/boot/loader.asm\<close>) is not of this form: its entries 0 and 768 share a table, so that the first megabyte is
  mapped twice. What only needs the last entry and different tables for the entries of the kernel is proved for \<open>kernel_pd\<close>, which holds of both.
\<close>

definition kernel_pd :: "pmem \<Rightarrow> bool" where
  "kernel_pd m \<longleftrightarrow> present (pd_entry m 1023) \<and> frame (pd_entry m 1023) = frame (cr3_reg m) \<and>
     (\<forall>i < 1024. \<forall>j < 1024. 768 \<le> i \<longrightarrow> 768 \<le> j \<longrightarrow> present (pd_entry m i) \<longrightarrow> present (pd_entry m j) \<longrightarrow>
        frame (pd_entry m i) = frame (pd_entry m j) \<longrightarrow> i = j)"

lemma wf_kernel_pd: "wf_pd m \<Longrightarrow> kernel_pd m"
  by (auto simp: wf_pd_def kernel_pd_def)

lemma pde_addr_entry: "ram m (pde_addr m v) = pd_entry m (pdi v)"
  by (simp add: pde_addr_def pd_entry_def)

lemma kernel_pde_ptr:
  assumes "kernel_pd m"
  shows "translate m (pde_ptr v) = Some (pde_addr m v)"
proof -
  have "ram m (pte_addr m (pde_ptr v)) = pd_entry m 1023"
    using assms by (simp add: pte_addr_def pde_addr_entry pde_ptr_fields kernel_pd_def) (simp add: pd_entry_def)
  then show ?thesis
    using assms by (simp add: translate_def pde_addr_entry pde_ptr_fields kernel_pd_def) (simp add: pde_addr_def)
qed

lemmas translate_pde_ptr = kernel_pde_ptr[OF wf_kernel_pd]

lemma kernel_pte_ptr:
  assumes "kernel_pd m" and "present (pd_entry m (pdi v))"
  shows "translate m (pte_ptr v) = Some (pte_addr m v)"
proof -
  have "ram m (pte_addr m (pte_ptr v)) = pd_entry m (pdi v)"
    using assms by (simp add: pte_addr_def pde_addr_entry pte_ptr_fields kernel_pd_def) (simp add: pd_entry_def)
  then show ?thesis
    using assms by (simp add: translate_def pde_addr_entry pte_ptr_fields kernel_pd_def) (simp add: pte_addr_def pde_addr_entry)
qed

lemmas translate_pte_ptr = kernel_pte_ptr[OF wf_kernel_pd]

lemma entry_addr:
  assumes "unat x < 1024"
  shows "unat (frame f + x * 4) = unat (frame f) + unat x * 4" "frame (frame f + x * 4) = frame f"
    "page_off (frame f + x * 4) = x * 4"
proof -
  define q where "q = unat f div 4096"
  have q: "q < 1048576" "unat (frame f) = q * 4096"
    using unat_u32_lt[of f] by (simp_all add: q_def unat_frame)
  then show u: "unat (frame f + x * 4) = unat (frame f) + unat x * 4"
    using assms by (subst unat_add_lt) (simp_all add: unat_mult_4)
  have "unat (frame f + x * 4) div 4096 = q \<and> unat (frame f + x * 4) mod 4096 = unat x * 4"
    using assms by (intro div_mod_split) (simp_all add: u q)
  then show "frame (frame f + x * 4) = frame f" "page_off (frame f + x * 4) = x * 4"
    using assms by (simp_all only: word_unat_eq_iff unat_frame unat_off) (simp_all add: q_def unat_mult_4)
qed

lemma entry_inj:
  assumes "frame f + x * 4 = frame g + y * 4" and "unat x < 1024" and "unat y < 1024"
  shows "frame f = frame g" and "x = y"
proof -
  show f: "frame f = frame g"
    using assms entry_addr(2) by metis
  then show "x = y"
    using assms(1) entry_addr(1)[OF assms(2), of f] entry_addr(1)[OF assms(3), of g] by (simp add: word_unat_eq_iff)
qed

lemma unat_1024: "unat x < 1024 \<longleftrightarrow> x < 1024" for x :: u32
  by (simp add: word_less_nat_alt)

lemma wf_pdD:
  assumes "wf_pd m"
  shows "present (pd_entry m 1023)" "frame (pd_entry m 1023) = frame (cr3_reg m)"
    "\<And>i j. unat i < 1024 \<Longrightarrow> unat j < 1024 \<Longrightarrow> present (pd_entry m i) \<Longrightarrow> present (pd_entry m j) \<Longrightarrow>
      frame (pd_entry m i) = frame (pd_entry m j) \<Longrightarrow> i = j"
  using assms unfolding wf_pd_def unat_1024 by blast+

lemma table_not_pd:
  assumes "wf_pd m" and "present (pd_entry m i)" and "unat i < 1024" and "i \<noteq> 1023"
  shows "frame (pd_entry m i) \<noteq> frame (cr3_reg m)"
  using wf_pdD(1,2)[OF assms(1)] wf_pdD(3)[OF assms(1,3), of 1023] assms(2,4) by auto

lemma present_entry: "present (p OR PG_US_U OR PG_RW_W OR PG_P_1)" "frame (frame p OR PG_US_U OR PG_RW_W OR PG_P_1) = frame p"
proof -
  have "present e \<longleftrightarrow> bit e 0" for e
    using and_exp_ne_0[of e 0] by (simp add: present_def)
  then show "present (p OR PG_US_U OR PG_RW_W OR PG_P_1)"
    by (simp add: PG_P_1_def bit_or_iff)
  have "(PG_US_U OR PG_RW_W OR PG_P_1) = mask 3"
    by (simp add: PG_P_1_def PG_US_U_def PG_RW_W_def mask_eq_exp_minus_1)
  then have "frame p OR PG_US_U OR PG_RW_W OR PG_P_1 = frame p OR mask 3"
    by (simp add: or.assoc)
  then show "frame (frame p OR PG_US_U OR PG_RW_W OR PG_P_1) = frame p"
    unfolding frame_def mask_literals by (simp only: ) (rule bit_word_eqI, auto simp: bit_simps)
qed

lemma kernel_addr_vir2phy:
  assumes "kernel_pd m" and "translate m v = Some p"
  shows "addr_vir2phy v m = Inr p"
  using assms(2) kernel_pte_ptr[OF assms(1), of v]
  by (auto simp: translate_def addr_vir2phy_def load_def frame_def pde_addr_entry split: if_splits)

lemmas addr_vir2phy_translate = kernel_addr_vir2phy[OF wf_kernel_pd]

text \<open>
  C11. The recursive mapping works: in a page directory whose last entry points to itself, be it the one the loader leaves or that of a process, the virtual address
  \<^verbatim>\<open>pde_ptr(v)\<close> reads the directory entry of \<^verbatim>\<open>v\<close>, the address \<^verbatim>\<open>pte_ptr(v)\<close> reads its page table entry
  when that table is present, and \<^verbatim>\<open>addr_vir2phy\<close> agrees with the translation of the processor on
  every mapped address.
\<close>

theorem recursive_mapping_correct:
  assumes "kernel_pd m"
  shows "load (pde_ptr v) m = Inr (ram m (pde_addr m v)) \<and>
    (present (ram m (pde_addr m v)) \<longrightarrow> load (pte_ptr v) m = Inr (ram m (pte_addr m v))) \<and>
    (\<forall>p. translate m v = Some p \<longrightarrow> addr_vir2phy v m = Inr p)"
proof -
  have "load (pte_ptr v) m = Inr (ram m (pte_addr m v))" if "present (ram m (pde_addr m v))"
    using kernel_pte_ptr[OF assms] that by (simp add: load_def pde_addr_entry)
  then show ?thesis
    using kernel_pde_ptr[OF assms] kernel_addr_vir2phy[OF assms] by (simp add: load_def)
qed

text \<open>A directory at 1 MB whose first entry points to a table that maps the first page to 2 MB.\<close>

definition pmem0 :: pmem where
  "pmem0 = \<lparr>ram = (\<lambda>_. 0)(0x100000 := 0x101007, 0x100ffc := 0x100007, 0x101000 := 0x200007), cr3_reg = 0x100000\<rparr>"

lemma pmem0_entry: "pd_entry pmem0 i = (if i = 0 then 0x101007 else if i = 1023 then 0x100007 else 0)" if "i < 1024"
proof -
  have i: "unat i < 1024"
    using that by (simp add: unat_1024)
  have f: "frame 0x100000 = 0x100000"
    by (simp add: frame_def)
  have a: "unat (0x100000 + i * 4) = 0x100000 + unat i * 4"
    using entry_addr(1)[OF i, of "0x100000"] by (simp add: f)
  have "0x100000 + i * 4 = 0x100000 \<longleftrightarrow> i = 0" "0x100000 + i * 4 = 0x100ffc \<longleftrightarrow> i = 1023" "0x100000 + i * 4 \<noteq> 0x101000"
    unfolding word_unat_eq_iff a using i by auto
  then show ?thesis
    by (simp add: pd_entry_def pmem0_def f)
qed

lemma pmem0_wf: "wf_pd pmem0"
proof -
  have "frame (cr3_reg pmem0) = 0x100000"
    by (simp add: pmem0_def frame_def)
  then show ?thesis
    unfolding wf_pd_def by (auto simp: pmem0_entry present_def frame_def split: if_splits)
qed

text \<open>
  What \<^verbatim>\<open>setup_page\<close> of \<^verbatim>\<open>src/boot/loader.asm\<close> leaves: the directory at 1 MB, whose entries 0 and 768 point to the first table, 769 to 1022 to the tables behind it and the
  last one to the directory; the first 256 entries of the first table map the first megabyte.
\<close>

definition boot_entry :: "u32 \<Rightarrow> u32" where
  "boot_entry i = (if i = 0 \<or> i = 768 then 0x101007 else if i = 1023 then 0x100007 else if 769 \<le> i then 0x102007 + (i - 769) * 0x1000 else 0)"

definition setup_page :: "pmem \<Rightarrow> pmem" where
  "setup_page m = m\<lparr>ram := (\<lambda>a. if frame a = 0x100000 then boot_entry (drop_bit 2 (page_off a))
     else if frame a = 0x101000 \<and> page_off a < 1024 then drop_bit 2 (page_off a) * 0x1000 OR 7 else ram m a), cr3_reg := 0x100000\<rparr>"

lemma drop_2_mult_4: "unat i < 1024 \<Longrightarrow> drop_bit 2 (i * 4) = i" for i :: u32
  by (simp add: word_unat_eq_iff drop_bit_eq_div unat_div unat_mult_4)

lemma setup_page_entry: "unat i < 1024 \<Longrightarrow> pd_entry (setup_page m) i = boot_entry i"
proof -
  assume i: "unat i < 1024"
  have f: "frame 0x100000 = 0x100000"
    by (simp add: frame_def)
  have e: "frame (0x100000 + i * 4) = 0x100000" "page_off (0x100000 + i * 4) = i * 4"
    using entry_addr(2,3)[OF i, of "0x100000"] by (simp_all add: f)
  have r: "ram (setup_page m) a = boot_entry (drop_bit 2 (page_off a))" if "frame a = 0x100000" for a
    using that by (simp add: setup_page_def)
  have "pd_entry (setup_page m) i = ram (setup_page m) (0x100000 + i * 4)"
    by (simp add: pd_entry_def setup_page_def f)
  then show ?thesis
    by (simp only: r[OF e(1)] e(2) drop_2_mult_4[OF i])
qed

lemma setup_page_table:
  assumes "768 \<le> i" "i < 1024"
  shows "unat (frame (pd_entry (setup_page m) i)) = (if i = 1023 then 0x100000 else 0x101000 + (unat i - 768) * 0x1000)"
proof -
  have i: "unat i < 1024" "768 \<le> unat i"
    using assms by (simp_all add: word_le_nat_alt word_less_nat_alt)
  show ?thesis
  proof (cases "769 \<le> i \<and> i \<noteq> 1023")
    case True
    have s: "unat (i - 769) = unat i - 769"
      using True by (simp add: unat_sub)
    have "unat ((i - 769) * 0x1000) = (unat i - 769) * 0x1000"
      using i s by (subst unat_mult_lem[THEN iffD1]) simp_all
    then have "unat (0x102007 + (i - 769) * 0x1000) = 0x102007 + (unat i - 769) * 0x1000"
      using i by (subst unat_add_lt) simp_all
    moreover have "769 \<le> unat i"
      using True by (simp add: word_le_nat_alt)
    moreover have "i \<noteq> 0" "i \<noteq> 768"
      using True by auto
    ultimately show ?thesis
      using True setup_page_entry[OF i(1), of m] by (auto simp: unat_frame boot_entry_def)
  next
    case False
    then have "i = 768 \<or> i = 1023"
      using assms i by (auto simp: word_le_nat_alt word_unat_eq_iff)
    then show ?thesis
      using setup_page_entry[OF i(1), of m] by (auto simp: unat_frame boot_entry_def)
  qed
qed

lemma setup_page_kernel: "kernel_pd (setup_page m)"
proof -
  have "i = j" if "i < 1024" "j < 1024" "768 \<le> i" "768 \<le> j" "frame (pd_entry (setup_page m) i) = frame (pd_entry (setup_page m) j)" for i j
    using setup_page_table[OF that(3,1), of m] setup_page_table[OF that(4,2), of m] that
    by (auto simp: word_unat_eq_iff word_le_nat_alt word_less_nat_alt split: if_splits)
  moreover have "pd_entry (setup_page m) 1023 = 0x100007" "cr3_reg (setup_page m) = 0x100000"
    using setup_page_entry[of 1023 m] by (simp_all add: setup_page_def boot_entry_def)
  ultimately show ?thesis
    unfolding kernel_pd_def by (simp add: present_def frame_def)
qed

theorem recursive_mapping_correct_witness: "addr_vir2phy 0xc0001123 (setup_page pmem0) = Inr 0x1123"
proof -
  have "translate (setup_page pmem0) 0xc0001123 = Some 0x1123"
    by (simp add: translate_def pde_addr_def pte_addr_def setup_page_def boot_entry_def frame_def present_def)
  then show ?thesis
    using recursive_mapping_correct[OF setup_page_kernel[of pmem0], of "0xc0001123"] by simp
qed

subsection \<open>Changing one entry\<close>

definition same_page :: "u32 \<Rightarrow> u32 \<Rightarrow> bool" where
  "same_page v w \<longleftrightarrow> drop_bit 12 v = drop_bit 12 w"

lemma page_number: "n div 4096 = n div 4194304 * 1024 + n div 4096 mod 1024" for n :: nat
  using div_mult_mod_eq[of "n div 4096" 1024] by (simp add: div_mult2_eq[symmetric])

lemma same_page_fields: "same_page v w \<longleftrightarrow> pdi v = pdi w \<and> pti v = pti w"
proof
  assume "same_page v w"
  then have "unat v div 4096 = unat w div 4096"
    unfolding same_page_def word_unat_eq_iff unat_drop_bit_eq by (simp add: drop_bit_eq_div)
  then show "pdi v = pdi w \<and> pti v = pti w"
    unfolding word_unat_eq_iff unat_pdi unat_pti using div_mult2_eq[of "unat v" 4096 1024] div_mult2_eq[of "unat w" 4096 1024] by simp
next
  assume "pdi v = pdi w \<and> pti v = pti w"
  then have "unat v div 4194304 = unat w div 4194304" "unat v div 4096 mod 1024 = unat w div 4096 mod 1024"
    unfolding word_unat_eq_iff unat_pdi unat_pti by simp_all
  then have "unat v div 4096 = unat w div 4096"
    using page_number[of "unat v"] page_number[of "unat w"] by simp
  then show "same_page v w"
    unfolding same_page_def word_unat_eq_iff unat_drop_bit_eq by (simp add: drop_bit_eq_div)
qed

text \<open>Writing an entry of a page table other than the directory.\<close>

definition set_pte :: "u32 \<Rightarrow> u32 \<Rightarrow> pmem \<Rightarrow> pmem" where
  "set_pte v e m = m\<lparr>ram := (ram m)(pte_addr m v := e)\<rparr>"

lemma set_pte_pd:
  assumes "wf_pd m" and "present (pd_entry m (pdi v))" and "pdi v \<noteq> 1023" and "unat i < 1024"
  shows "pd_entry (set_pte v e m) i = pd_entry m i"
proof -
  have "frame (pd_entry m (pdi v)) \<noteq> frame (cr3_reg m)"
    using table_not_pd[OF assms(1,2) pdi_lt assms(3)] .
  then have "frame (cr3_reg m) + i * 4 \<noteq> pte_addr m v"
    using entry_inj(1)[of "cr3_reg m" i "pd_entry m (pdi v)" "pti v"] assms(4) pti_lt[of v]
    by (auto simp: pte_addr_def pde_addr_entry)
  then show ?thesis
    by (simp add: pd_entry_def set_pte_def)
qed

lemma set_pte_spec:
  assumes m: "wf_pd m" "present (pd_entry m (pdi v))" "pdi v \<noteq> 1023"
  shows "wf_pd (set_pte v e m)" "\<And>i. unat i < 1024 \<Longrightarrow> pd_entry (set_pte v e m) i = pd_entry m i"
    "\<And>w. same_page v w \<Longrightarrow> ram (set_pte v e m) (pte_addr (set_pte v e m) w) = e"
    "\<And>w. \<not> same_page v w \<Longrightarrow> pdi w \<noteq> 1023 \<Longrightarrow> translate (set_pte v e m) w = translate m w"
    "\<And>w. same_page v w \<Longrightarrow> translate (set_pte v e m) w = (if present e then Some (frame e + page_off w) else None)"
proof -
  let ?m = "set_pte v e m"
  show pd: "pd_entry ?m i = pd_entry m i" if "unat i < 1024" for i
    using set_pte_pd[OF m that] .
  have cr3: "cr3_reg ?m = cr3_reg m"
    by (simp add: set_pte_def)
  show "wf_pd ?m"
    using m(1) pd unfolding wf_pd_def unat_1024[symmetric] cr3 by simp
  have pa: "pte_addr ?m w = pte_addr m w" for w
    using pd[OF pdi_lt] by (simp add: pte_addr_def pde_addr_entry)
  show same: "ram ?m (pte_addr ?m w) = e" if "same_page v w" for w
  proof -
    have "pte_addr m w = pte_addr m v"
      using that by (simp add: same_page_fields pte_addr_def pde_addr_entry)
    then show ?thesis
      by (simp only: pa) (simp add: set_pte_def)
  qed
  show "translate ?m w = translate m w" if w: "\<not> same_page v w" "pdi w \<noteq> 1023" for w
  proof (cases "present (pd_entry m (pdi w))")
    case True
    have "pte_addr m w \<noteq> pte_addr m v"
    proof
      assume "pte_addr m w = pte_addr m v"
      then have "frame (pd_entry m (pdi w)) = frame (pd_entry m (pdi v))" "pti w = pti v"
        using entry_inj[of "pd_entry m (pdi w)" "pti w" "pd_entry m (pdi v)" "pti v"] pti_lt[of v] pti_lt[of w] by (simp_all add: pte_addr_def pde_addr_entry)
      then show False
        using wf_pdD(3)[OF m(1) pdi_lt pdi_lt True m(2)] w(1) by (simp add: same_page_fields)
    qed
    then have "ram ?m (pte_addr m w) = ram m (pte_addr m w)"
      by (simp add: set_pte_def)
    then show ?thesis
      using pd[OF pdi_lt] by (simp add: translate_def pde_addr_entry pa)
  next
    case False
    then show ?thesis
      using pd[OF pdi_lt] by (simp add: translate_def pde_addr_entry)
  qed
  show "translate ?m w = (if present e then Some (frame e + page_off w) else None)" if "same_page v w" for w
  proof -
    have "present (pd_entry ?m (pdi w))"
      using pd[OF pdi_lt] m(2) that by (simp add: same_page_fields)
    then show ?thesis
      using same[OF that] by (simp add: translate_def pde_addr_entry)
  qed
qed

lemma page_table_set_ok:
  assumes m: "wf_pd m" "present (pd_entry m (pdi v))" and free: "translate m v = None"
  shows "page_table_set v p m = Inr (set_pte v (p OR PG_US_U OR PG_RW_W OR PG_P_1) m)"
proof -
  have "\<not> present (ram m (pte_addr m v))"
    using free m(2) by (simp add: translate_def pde_addr_entry split: if_splits)
  then show ?thesis
    using translate_pte_ptr[OF m] by (simp add: page_table_set_def load_def store_def set_pte_def present_def PG_P_1_def)
qed

lemma page_table_pte_remove_ok:
  assumes m: "wf_pd m" "present (pd_entry m (pdi v))"
  shows "page_table_pte_remove v m = Inr (set_pte v (ram m (pte_addr m v) AND NOT PG_P_1) m)"
  using translate_pte_ptr[OF m] by (simp add: page_table_pte_remove_def load_def store_def set_pte_def)

lemma not_present_cleared: "\<not> present (e AND NOT PG_P_1)"
proof -
  have "e AND NOT PG_P_1 AND 1 = 0"
    by (rule bit_word_eqI) (auto simp: bit_simps PG_P_1_def)
  then show ?thesis
    by (simp add: present_def and.assoc)
qed

subsection \<open>A new page table\<close>

text \<open>A frame that is neither the directory nor one of its tables.\<close>

definition unused_frame :: "u32 \<Rightarrow> pmem \<Rightarrow> bool" where
  "unused_frame f m \<longleftrightarrow> frame f = f \<and> (\<forall>i < 1024. present (pd_entry m i) \<longrightarrow> frame (pd_entry m i) \<noteq> f)"

definition new_table :: "u32 \<Rightarrow> u32 \<Rightarrow> pmem \<Rightarrow> pmem" where
  "new_table v f m = m\<lparr>ram := (\<lambda>a. if frame a = f then 0
     else if a = pde_addr m v then f OR PG_US_U OR PG_RW_W OR PG_P_1 else ram m a)\<rparr>"

lemma new_table_pd:
  assumes m: "wf_pd m" and f: "unused_frame f m" and i: "unat i < 1024"
  shows "pd_entry (new_table v f m) i = (if i = pdi v then f OR PG_US_U OR PG_RW_W OR PG_P_1 else pd_entry m i)"
proof -
  have "frame (cr3_reg m) \<noteq> f"
    using wf_pdD(1,2)[OF m] f unfolding unused_frame_def unat_1024[symmetric] by auto
  then have "frame (frame (cr3_reg m) + i * 4) \<noteq> f"
    using entry_addr(2)[OF i] by simp
  moreover have "frame (cr3_reg m) + i * 4 = pde_addr m v \<longleftrightarrow> i = pdi v"
    using entry_inj(2)[of "cr3_reg m" i "cr3_reg m" "pdi v"] i pdi_lt[of v] by (auto simp: pde_addr_def)
  ultimately show ?thesis
    by (simp add: pd_entry_def new_table_def)
qed

lemma new_table_spec:
  assumes m: "wf_pd m" and f: "unused_frame f m" and v: "\<not> present (pd_entry m (pdi v))"
  shows "wf_pd (new_table v f m)" "present (pd_entry (new_table v f m) (pdi v))"
    "\<And>w. pdi w \<noteq> 1023 \<Longrightarrow> translate (new_table v f m) w = translate m w"
proof -
  let ?m = "new_table v f m" and ?e = "f OR PG_US_U OR PG_RW_W OR PG_P_1"
  note pd = new_table_pd[OF m f]
  have ff: "frame f = f"
    using f by (simp add: unused_frame_def)
  have e: "present ?e" "frame ?e = f"
    using present_entry[of f] ff by simp_all
  have v1023: "pdi v \<noteq> 1023"
    using wf_pdD(1)[OF m] v by auto
  have cr3: "cr3_reg ?m = cr3_reg m"
    by (simp add: new_table_def)
  have fresh: "frame (pd_entry m i) \<noteq> f" if "unat i < 1024" "present (pd_entry m i)" for i
    using f that unfolding unused_frame_def unat_1024 by auto
  show "present (pd_entry ?m (pdi v))"
    using pd[OF pdi_lt] e by simp
  have inj: "i = j" if "unat i < 1024" "unat j < 1024" "present (pd_entry ?m i)" "present (pd_entry ?m j)"
    "frame (pd_entry ?m i) = frame (pd_entry ?m j)" for i j
    using that fresh[of i] fresh[of j] e wf_pdD(3)[OF m, of i j] by (auto simp: pd split: if_splits)
  have last: "pd_entry ?m 1023 = pd_entry m 1023"
    using pd[of 1023] v1023 by simp
  show "wf_pd ?m"
    using wf_pdD(1,2)[OF m] inj unfolding wf_pd_def unat_1024[symmetric] last cr3 by blast
  show "translate ?m w = translate m w" if w: "pdi w \<noteq> 1023" for w
  proof (cases "pdi w = pdi v")
    case True
    have "frame (pte_addr ?m w) = f"
      using entry_addr(2)[OF pti_lt, of f w] True e ff by (simp add: pte_addr_def pde_addr_entry pd[OF pdi_lt])
    then have "ram ?m (pte_addr ?m w) = 0"
      by (simp add: new_table_def)
    then show ?thesis
      using True v by (simp add: translate_def pde_addr_entry present_def)
  next
    case False
    then have pdw: "pd_entry ?m (pdi w) = pd_entry m (pdi w)"
      by (simp add: pd[OF pdi_lt])
    have "ram ?m (pte_addr m w) = ram m (pte_addr m w)" if p: "present (pd_entry m (pdi w))"
    proof -
      have "frame (pte_addr m w) = frame (pd_entry m (pdi w))"
        using entry_addr(2)[OF pti_lt] by (simp add: pte_addr_def pde_addr_entry)
      moreover have "frame (pde_addr m v) = frame (cr3_reg m)"
        using entry_addr(2)[OF pdi_lt] by (simp add: pde_addr_def)
      ultimately show ?thesis
        using fresh[OF pdi_lt p] table_not_pd[OF m p pdi_lt w] by (auto simp: new_table_def)
    qed
    then show ?thesis
      using pdw by (auto simp: translate_def pde_addr_entry pte_addr_def)
  qed
qed

lemma page_table_new_ok:
  assumes m: "wf_pd m" and f: "unused_frame f m" and v: "\<not> present (pd_entry m (pdi v))"
  shows "page_table_new v f m = Inr (new_table v f m)"
proof -
  let ?e = "f OR PG_US_U OR PG_RW_W OR PG_P_1"
  let ?m = "m\<lparr>ram := (ram m)(pde_addr m v := ?e)\<rparr>"
  have ff: "frame f = f" and e: "present ?e" "frame ?e = f"
    using f present_entry[of f] by (simp_all add: unused_frame_def)
  have v1023: "pdi v \<noteq> 1023"
    using wf_pdD(1)[OF m] v by auto
  have pd: "pd_entry ?m i = (if i = pdi v then ?e else pd_entry m i)" if "unat i < 1024" for i
    using entry_inj(2)[of "cr3_reg m" i "cr3_reg m" "pdi v"] that pdi_lt[of v] by (auto simp: pde_addr_def pd_entry_def)
  let ?w = "frame (pte_ptr v)"
  have w: "pdi ?w = 1023" "pti ?w = pdi v" "page_off ?w = 0"
    by (simp_all add: frame_fields pte_ptr_fields)
  have pte: "ram ?m (pte_addr ?m ?w) = ?e"
  proof -
    have "pte_addr ?m ?w = frame (cr3_reg m) + pdi v * 4"
      using wf_pdD(2)[OF m] v1023 by (simp only: pte_addr_def pde_addr_entry w) (simp add: pd)
    then show ?thesis
      by (simp add: pde_addr_def)
  qed
  have "present (pd_entry ?m (pdi ?w))"
    using wf_pdD(1)[OF m] v1023 by (simp only: w) (simp add: pd)
  then have "translate ?m ?w = Some f"
    using e by (simp only: translate_def pde_addr_entry pte w) simp
  then show ?thesis
    using translate_pde_ptr[OF m] ff
    by (simp add: page_table_new_def store_def clear_page_def new_table_def frame_def[symmetric] fun_eq_iff)
qed

subsection \<open>Words of a page, and frames that hold no table\<close>

lemma translate_word:
  assumes "frame v = v" and "unat x < 1024" and "translate m v = Some f"
  shows "translate m (v + x * 4) = Some (f + x * 4)"
proof -
  have e: "frame (v + x * 4) = v" "page_off (v + x * 4) = x * 4"
    using entry_addr(2,3)[OF assms(2), of v] assms(1) by simp_all
  have p: "pdi (v + x * 4) = pdi v" "pti (v + x * 4) = pti v"
    using frame_fields(1,2)[of "v + x * 4"] e(1) by simp_all
  have o: "page_off v = 0"
    using frame_fields(3)[of v] assms(1) by simp
  show ?thesis
    using assms(3) unfolding translate_def pte_addr_def pde_addr_def p e(2) o by (simp split: if_splits)
qed

lemma translate_pd: "kernel_pd m \<Longrightarrow> translate m 0xfffff000 = Some (frame (cr3_reg m))"
  using kernel_pde_ptr[of m 0] by (simp add: pde_ptr_def PDE_IDX_def pde_addr_def)

text \<open>Memories that differ only in one frame that holds none of the tables in use.\<close>

lemma kernel_differ_in_unused:
  assumes m: "kernel_pd m" "unused_frame f m" and d: "cr3_reg m' = cr3_reg m" "\<forall>a. frame a \<noteq> f \<longrightarrow> ram m' a = ram m a"
  shows "\<And>i. unat i < 1024 \<Longrightarrow> pd_entry m' i = pd_entry m i" "kernel_pd m'" "unused_frame f m'" "\<And>w. translate m' w = translate m w"
proof -
  have "present (pd_entry m 1023)" "frame (pd_entry m 1023) = frame (cr3_reg m)"
    using m(1) by (simp_all add: kernel_pd_def)
  then have "frame (cr3_reg m) \<noteq> f"
    using m(2) unfolding unused_frame_def unat_1024[symmetric] by auto
  then show pd: "pd_entry m' i = pd_entry m i" if "unat i < 1024" for i
    using d entry_addr(2)[OF that, of "cr3_reg m"] by (simp add: pd_entry_def)
  show "kernel_pd m'"
    using m(1) pd unfolding kernel_pd_def unat_1024[symmetric] d(1) by simp
  show "unused_frame f m'"
    using m(2) pd unfolding unused_frame_def unat_1024[symmetric] by simp
  have pte: "ram m' (pte_addr m w) = ram m (pte_addr m w)" if "present (pd_entry m (pdi w))" for w
  proof -
    have "frame (pd_entry m (pdi w)) \<noteq> f"
      using m(2) that pdi_lt[of w] unfolding unused_frame_def unat_1024 by auto
    then show ?thesis
      using d(2) entry_addr(2)[OF pti_lt, of "pd_entry m (pdi w)" w] by (simp add: pte_addr_def pde_addr_entry)
  qed
  show "translate m' w = translate m w" for w
    using pte[of w] pd[OF pdi_lt, of w] by (simp add: translate_def pte_addr_def pde_addr_entry)
qed

lemma differ_in_unused:
  assumes m: "wf_pd m" "unused_frame f m" and d: "cr3_reg m' = cr3_reg m" "\<forall>a. frame a \<noteq> f \<longrightarrow> ram m' a = ram m a"
  shows "\<And>i. unat i < 1024 \<Longrightarrow> pd_entry m' i = pd_entry m i" "wf_pd m'" "unused_frame f m'" "\<And>w. translate m' w = translate m w"
proof -
  note k = kernel_differ_in_unused[OF wf_kernel_pd[OF m(1)] m(2) d]
  show "\<And>i. unat i < 1024 \<Longrightarrow> pd_entry m' i = pd_entry m i" "unused_frame f m'" "\<And>w. translate m' w = translate m w"
    by (fact k)+
  show "wf_pd m'"
    using m(1) k(1) unfolding wf_pd_def unat_1024[symmetric] d(1) by simp
qed

end
