(* ===== verification/Memory.thy ===== *)
theory Memory
  imports Paging Sync
begin

text \<open>
  Page allocation: the pools of physical frames and of virtual pages of \<^verbatim>\<open>src/kernel/memory.c\<close>. The
  state holds what the functions read and write: physical memory and the page directory in use, the two
  pools of frames, the kernel's virtual addresses, and those of the running process
  (\<^verbatim>\<open>running_thread()->userprog_vaddr\<close> and \<^verbatim>\<open>->pg_dir\<close>). The functions that take a pool's lock may be
  suspended in it: their outcome is then \<open>Suspend\<close>.
\<close>

datatype pool_flag = PF_KERNEL | PF_USER

record pool =
  pool_bitmap :: bitmap
  phy_addr_start :: u32
  pool_size :: u32
  pool_lock :: lock

record virtual_addr =
  vaddr_bitmap :: bitmap
  vaddr_start :: u32

record mem =
  mm :: pmem
  kernel_pool :: pool
  user_pool :: pool
  kernel_vaddr :: virtual_addr
  user_vaddr :: virtual_addr
  now_pg_dir :: u32

datatype 'a mcall = Return 'a mem kstate | Suspend mem kstate

definition KERNEL_HEAP_START :: u32 where "KERNEL_HEAP_START = 0xc0100000"
definition MEM_BITMAP_BASE :: u32 where "MEM_BITMAP_BASE = 0xc009a000"

abbreviation pool_of :: "pool_flag \<Rightarrow> mem \<Rightarrow> pool" where
  "pool_of pf m \<equiv> (case pf of PF_KERNEL \<Rightarrow> kernel_pool m | PF_USER \<Rightarrow> user_pool m)"

definition set_pool :: "pool_flag \<Rightarrow> pool \<Rightarrow> mem \<Rightarrow> mem" where
  "set_pool pf p m = (case pf of PF_KERNEL \<Rightarrow> m\<lparr>kernel_pool := p\<rparr> | PF_USER \<Rightarrow> m\<lparr>user_pool := p\<rparr>)"

subsection \<open>Virtual pages\<close>

definition vaddr_claim :: "virtual_addr \<Rightarrow> u32 \<Rightarrow> (u32 \<times> virtual_addr) option res" where
  "vaddr_claim va cnt =
     andthen (bitmap_apply_cnt (vaddr_bitmap va) cnt) (\<lambda>idx_bit_start.
     if idx_bit_start = - 1 then Inr None
     else andthen (bitmap_set_run (vaddr_bitmap va) idx_bit_start 0 cnt 1) (\<lambda>bm.
       Inr (Some (vaddr_start va + idx_bit_start * PG_SIZE, va\<lparr>vaddr_bitmap := bm\<rparr>))))"

definition vaddr_get :: "pool_flag \<Rightarrow> u32 \<Rightarrow> mem \<Rightarrow> (u32 \<times> mem) res" where
  "vaddr_get pf cnt m = (case pf of
      PF_KERNEL \<Rightarrow> andthen (vaddr_claim (kernel_vaddr m) cnt) (\<lambda>r. case r of
        None \<Rightarrow> Inr (NULL, m) | Some (v, va) \<Rightarrow> Inr (v, m\<lparr>kernel_vaddr := va\<rparr>))
    | PF_USER \<Rightarrow> andthen (vaddr_claim (user_vaddr m) cnt) (\<lambda>r. case r of
        None \<Rightarrow> Inr (NULL, m)
      | Some (v, va) \<Rightarrow> andthen (assert_c ''(uint32_t)vaddr_start < (0xc0000000 - PG_SIZE)'' (v < 0xc0000000 - PG_SIZE)) (\<lambda>_.
          Inr (v, m\<lparr>user_vaddr := va\<rparr>))))"

definition vaddr_remove :: "pool_flag \<Rightarrow> u32 \<Rightarrow> u32 \<Rightarrow> mem \<Rightarrow> mem res" where
  "vaddr_remove pf vaddr cnt m = (case pf of
      PF_KERNEL \<Rightarrow> andthen (bitmap_set_run (vaddr_bitmap (kernel_vaddr m)) ((vaddr - vaddr_start (kernel_vaddr m)) div PG_SIZE) 0 cnt 0)
        (\<lambda>bm. Inr (m\<lparr>kernel_vaddr := (kernel_vaddr m)\<lparr>vaddr_bitmap := bm\<rparr>\<rparr>))
    | PF_USER \<Rightarrow> andthen (bitmap_set_run (vaddr_bitmap (user_vaddr m)) ((vaddr - vaddr_start (user_vaddr m)) div PG_SIZE) 0 cnt 0)
        (\<lambda>bm. Inr (m\<lparr>user_vaddr := (user_vaddr m)\<lparr>vaddr_bitmap := bm\<rparr>\<rparr>)))"

subsection \<open>Frames\<close>

definition palloc :: "pool \<Rightarrow> (u32 \<times> pool) res" where
  "palloc p =
     andthen (bitmap_apply_cnt (pool_bitmap p) 1) (\<lambda>idx.
     if idx = - 1 then Inr (NULL, p)
     else andthen (bitmap_set_idx (pool_bitmap p) idx 1) (\<lambda>bm.
       Inr (idx * PG_SIZE + phy_addr_start p, p\<lparr>pool_bitmap := bm\<rparr>)))"

definition pfree :: "u32 \<Rightarrow> mem \<Rightarrow> mem res" where
  "pfree pg_phy_addr m =
     (let pf = (if pg_phy_addr \<ge> phy_addr_start (user_pool m) then PF_USER else PF_KERNEL);
          p = pool_of pf m;
          idx = (pg_phy_addr - phy_addr_start p) div PG_SIZE
      in andthen (bitmap_set_idx (pool_bitmap p) idx 0) (\<lambda>bm. Inr (set_pool pf (p\<lparr>pool_bitmap := bm\<rparr>) m)))"

definition free_one_phy_page :: "u32 \<Rightarrow> mem \<Rightarrow> mem res" where
  "free_one_phy_page pg_phy_addr m =
     (let pf = (if pg_phy_addr \<ge> phy_addr_start (user_pool m) then PF_USER else PF_KERNEL);
          p = pool_of pf m;
          idx = (pg_phy_addr - phy_addr_start p) div PG_SIZE
      in andthen (bitmap_set_idx (pool_bitmap p) idx 0) (\<lambda>bm. Inr (set_pool pf (p\<lparr>pool_bitmap := bm\<rparr>) m)))"

text \<open>Every access of \<^verbatim>\<open>page_table_add\<close> to the tables goes through the recursive mapping.\<close>

definition page_table_add :: "u32 \<Rightarrow> u32 \<Rightarrow> mem \<Rightarrow> mem res" where
  "page_table_add vaddr page_phyaddr m =
     andthen (load (pde_ptr vaddr) (mm m)) (\<lambda>pde.
     if pde AND PG_P_1 \<noteq> 0
     then andthen (page_table_set vaddr page_phyaddr (mm m)) (\<lambda>mm1. Inr (m\<lparr>mm := mm1\<rparr>))
     else andthen (palloc (kernel_pool m)) (\<lambda>(pde_phyaddr, kp).
          andthen (page_table_new vaddr pde_phyaddr (mm m)) (\<lambda>mm1.
          andthen (page_table_set vaddr page_phyaddr mm1) (\<lambda>mm2. Inr (m\<lparr>mm := mm2, kernel_pool := kp\<rparr>)))))"

subsection \<open>Pages\<close>

text \<open>The loop of \<^verbatim>\<open>malloc_page\<close>; \<^verbatim>\<open>false\<close> in the result stands for the early return of \<^verbatim>\<open>NULL\<close>.\<close>

fun malloc_page_loop :: "pool_flag \<Rightarrow> nat \<Rightarrow> u32 \<Rightarrow> mem \<Rightarrow> (bool \<times> mem) res" where
  "malloc_page_loop pf 0 vaddr m = Inr (True, m)"
| "malloc_page_loop pf (Suc n) vaddr m =
     andthen (palloc (pool_of pf m)) (\<lambda>(page_phyaddr, p).
     let m1 = set_pool pf p m
     in if page_phyaddr = NULL then Inr (False, m1)
        else andthen (page_table_add vaddr page_phyaddr m1) (malloc_page_loop pf n (vaddr + PG_SIZE)))"

definition malloc_page :: "pool_flag \<Rightarrow> u32 \<Rightarrow> mem \<Rightarrow> (u32 \<times> mem) res" where
  "malloc_page pf cnt m =
     andthen (assert_c ''cnt > 0 && cnt < 3840'' (cnt > 0 \<and> cnt < 3840)) (\<lambda>_.
     andthen (vaddr_get pf cnt m) (\<lambda>(vaddr, m1).
     if vaddr = NULL then Inr (NULL, m1)
     else andthen (malloc_page_loop pf (unat cnt) vaddr m1) (\<lambda>(ok, m2). Inr (if ok then vaddr else NULL, m2))))"

text \<open>\<^verbatim>\<open>memset(vaddr, 0, cnt * PG_SIZE)\<close> for page-aligned \<^verbatim>\<open>vaddr\<close>.\<close>

fun clear_pages :: "nat \<Rightarrow> u32 \<Rightarrow> pmem \<Rightarrow> pmem res" where
  "clear_pages 0 v m = Inr m"
| "clear_pages (Suc n) v m = andthen (clear_page v m) (clear_pages n (v + PG_SIZE))"

definition lock_pool :: "pool_flag \<Rightarrow> mem \<Rightarrow> kstate \<Rightarrow> unit mcall res" where
  "lock_pool pf m s =
     andthen (lock_acquire (pool_lock (pool_of pf m)) s) (\<lambda>r. case r of
       Blocked (l, s1) \<Rightarrow> Inr (Suspend (set_pool pf ((pool_of pf m)\<lparr>pool_lock := l\<rparr>) m) s1)
     | Done (l, s1) \<Rightarrow> Inr (Return () (set_pool pf ((pool_of pf m)\<lparr>pool_lock := l\<rparr>) m) s1))"

definition unlock_pool :: "pool_flag \<Rightarrow> mem \<Rightarrow> kstate \<Rightarrow> (mem \<times> kstate) res" where
  "unlock_pool pf m s =
     andthen (lock_release (pool_lock (pool_of pf m)) s) (\<lambda>(l, s1).
     Inr (set_pool pf ((pool_of pf m)\<lparr>pool_lock := l\<rparr>) m, s1))"

definition while_locked :: "pool_flag \<Rightarrow> (mem \<Rightarrow> ('a \<times> mem) res) \<Rightarrow> mem \<Rightarrow> kstate \<Rightarrow> 'a mcall res" where
  "while_locked pf body m s =
     andthen (lock_pool pf m s) (\<lambda>r. case r of
       Suspend m1 s1 \<Rightarrow> Inr (Suspend m1 s1)
     | Return _ m1 s1 \<Rightarrow> andthen (body m1) (\<lambda>(x, m2).
         andthen (unlock_pool pf m2 s1) (\<lambda>(m3, s3). Inr (Return x m3 s3))))"

definition get_pages :: "pool_flag \<Rightarrow> u32 \<Rightarrow> mem \<Rightarrow> (u32 \<times> mem) res" where
  "get_pages pf cnt m =
     andthen (malloc_page pf cnt m) (\<lambda>(vaddr, m1).
     if vaddr \<noteq> NULL then andthen (clear_pages (unat cnt) vaddr (mm m1)) (\<lambda>mm1. Inr (vaddr, m1\<lparr>mm := mm1\<rparr>))
     else Inr (vaddr, m1))"

definition get_kernel_pages :: "u32 \<Rightarrow> mem \<Rightarrow> kstate \<Rightarrow> u32 mcall res" where
  "get_kernel_pages cnt = while_locked PF_KERNEL (get_pages PF_KERNEL cnt)"

definition get_user_pages :: "u32 \<Rightarrow> mem \<Rightarrow> kstate \<Rightarrow> u32 mcall res" where
  "get_user_pages cnt = while_locked PF_USER (get_pages PF_USER cnt)"

definition map_one :: "pool_flag \<Rightarrow> u32 \<Rightarrow> mem \<Rightarrow> (u32 \<times> mem) res" where
  "map_one pf vaddr m =
     andthen (palloc (pool_of pf m)) (\<lambda>(page_phyaddr, p).
     let m1 = set_pool pf p m
     in if page_phyaddr = NULL then Inr (NULL, m1)
        else andthen (page_table_add vaddr page_phyaddr m1) (\<lambda>m2. Inr (vaddr, m2)))"

definition get_one_page :: "pool_flag \<Rightarrow> u32 \<Rightarrow> mem \<Rightarrow> kstate \<Rightarrow> u32 mcall res" where
  "get_one_page pf vaddr = while_locked pf (\<lambda>m.
     andthen
      (if now_pg_dir m \<noteq> NULL \<and> pf = PF_USER
       then andthen (assert_c ''vaddr >= now->userprog_vaddr.vaddr_start'' (vaddr \<ge> vaddr_start (user_vaddr m))) (\<lambda>_.
            andthen (bitmap_set_idx (vaddr_bitmap (user_vaddr m)) ((vaddr - vaddr_start (user_vaddr m)) div PG_SIZE) 1) (\<lambda>bm.
            Inr (m\<lparr>user_vaddr := (user_vaddr m)\<lparr>vaddr_bitmap := bm\<rparr>\<rparr>)))
       else if now_pg_dir m = NULL \<and> pf = PF_KERNEL
       then andthen (assert_c ''vaddr > kernel_vaddr.vaddr_start'' (vaddr > vaddr_start (kernel_vaddr m))) (\<lambda>_.
            andthen (bitmap_set_idx (vaddr_bitmap (kernel_vaddr m)) ((vaddr - vaddr_start (kernel_vaddr m)) div PG_SIZE) 1) (\<lambda>bm.
            Inr (m\<lparr>kernel_vaddr := (kernel_vaddr m)\<lparr>vaddr_bitmap := bm\<rparr>\<rparr>)))
       else Inl (Panic ''get one page: panic''))
      (map_one pf vaddr))"

definition get_one_page_no_bitmap :: "pool_flag \<Rightarrow> u32 \<Rightarrow> mem \<Rightarrow> kstate \<Rightarrow> u32 mcall res" where
  "get_one_page_no_bitmap pf vaddr = while_locked pf (map_one pf vaddr)"

subsection \<open>Giving pages back\<close>

definition in_own_pool :: "bool \<Rightarrow> u32 \<Rightarrow> mem \<Rightarrow> bool" where
  "in_own_pool is_user a m =
     (if is_user then a mod PG_SIZE = 0 \<and> a \<ge> phy_addr_start (user_pool m)
      else a mod PG_SIZE = 0 \<and> a \<ge> phy_addr_start (kernel_pool m) \<and> a < phy_addr_start (user_pool m))"

fun mfree_page_loop :: "bool \<Rightarrow> nat \<Rightarrow> u32 \<Rightarrow> mem \<Rightarrow> mem res" where
  "mfree_page_loop is_user 0 vaddr m = Inr m"
| "mfree_page_loop is_user (Suc n) vaddr m =
     andthen (addr_vir2phy vaddr (mm m)) (\<lambda>pg_phy_addr.
     andthen (assert_c ''pg_phy_addr in its pool'' (in_own_pool is_user pg_phy_addr m)) (\<lambda>_.
     andthen (pfree pg_phy_addr m) (\<lambda>m1.
     andthen (page_table_pte_remove vaddr (mm m1)) (\<lambda>mm1.
     mfree_page_loop is_user n (vaddr + PG_SIZE) (m1\<lparr>mm := mm1\<rparr>)))))"

definition mfree_page :: "pool_flag \<Rightarrow> u32 \<Rightarrow> u32 \<Rightarrow> mem \<Rightarrow> mem res" where
  "mfree_page pf vaddr cnt m =
     andthen (assert_c ''cnt >= 1 && vaddr % PG_SIZE == 0'' (cnt \<ge> 1 \<and> vaddr mod PG_SIZE = 0)) (\<lambda>_.
     andthen (addr_vir2phy vaddr (mm m)) (\<lambda>pg_phy_addr.
     andthen (assert_c ''pg_phy_addr >= 0x102000'' (pg_phy_addr mod PG_SIZE = 0 \<and> pg_phy_addr \<ge> 0x102000)) (\<lambda>_.
     andthen (mfree_page_loop (pg_phy_addr \<ge> phy_addr_start (user_pool m)) (unat cnt) vaddr m) (\<lambda>m1.
     vaddr_remove pf vaddr cnt m1))))"

subsection \<open>Initialisation\<close>

definition mem_pool_init :: "u32 \<Rightarrow> mem \<Rightarrow> mem" where
  "mem_pool_init all_mem m =
     (let page_table_size = 256 * PG_SIZE;
          mem_used = page_table_size + 0x100000;
          mem_free = all_mem - mem_used;
          free_page_all = ucast (mem_free div PG_SIZE) :: u16;
          free_page_kernel = free_page_all div 2;
          free_page_user = free_page_all - free_page_kernel;
          bitmap_len_kernel = ucast free_page_kernel div 8 :: u32;
          bitmap_len_user = ucast free_page_user div 8 :: u32;
          zeros = (\<lambda>len. bitmap_init \<lparr>bm_len = len, bm_bits = replicate (unat len) 0\<rparr>)
      in m\<lparr>kernel_pool := \<lparr>pool_bitmap = zeros bitmap_len_kernel, phy_addr_start = mem_used,
              pool_size = ucast free_page_kernel * PG_SIZE, pool_lock = lock_init\<rparr>,
           user_pool := \<lparr>pool_bitmap = zeros bitmap_len_user, phy_addr_start = mem_used + ucast free_page_kernel * PG_SIZE,
              pool_size = ucast free_page_user * PG_SIZE, pool_lock = lock_init\<rparr>,
           kernel_vaddr := \<lparr>vaddr_bitmap = zeros bitmap_len_kernel, vaddr_start = KERNEL_HEAP_START\<rparr>\<rparr>)"

subsection \<open>The pools\<close>

definition frame_of :: "pool \<Rightarrow> nat \<Rightarrow> u32" where
  "frame_of p i = phy_addr_start p + word_of_nat i * PG_SIZE"

definition pool_ok :: "pool \<Rightarrow> bool" where
  "pool_ok p \<longleftrightarrow> wf_bitmap (pool_bitmap p) \<and> 1 \<le> bm_len (pool_bitmap p) \<and> frame (phy_addr_start p) = phy_addr_start p \<and>
     phy_addr_start p \<noteq> 0 \<and> unat (phy_addr_start p) + bm_slots (pool_bitmap p) * 4096 \<le> 2 ^ 32"

definition frame_free :: "pool \<Rightarrow> u32 \<Rightarrow> bool" where
  "frame_free p f \<longleftrightarrow> (\<exists>i < bm_slots (pool_bitmap p). \<not> bm_used (pool_bitmap p) i \<and> f = frame_of p i)"

lemma aligned_iff: "frame f = f \<longleftrightarrow> unat f mod 4096 = 0"
  unfolding word_unat_eq_iff unat_frame by (metis add.right_neutral mod_mult_self1_is_0 mult.commute mult_div_mod_eq)

lemma unat_page_mult: "i * 4096 < 2 ^ 32 \<Longrightarrow> unat (word_of_nat i * PG_SIZE) = i * 4096"
  by (simp add: PG_SIZE_def unat_word_ariths unsigned_of_nat take_bit_nat_eq_self)

lemma frame_of_props:
  assumes p: "pool_ok p" and i: "i < bm_slots (pool_bitmap p)"
  shows "unat (frame_of p i) = unat (phy_addr_start p) + i * 4096" "frame (frame_of p i) = frame_of p i" "frame_of p i \<noteq> NULL"
proof -
  have lt: "unat (phy_addr_start p) + i * 4096 < 2 ^ 32"
    using p i by (auto simp: pool_ok_def)
  then show u: "unat (frame_of p i) = unat (phy_addr_start p) + i * 4096"
    unfolding frame_of_def using unat_page_mult[of i] by (subst unat_add_lt) simp_all
  show "frame (frame_of p i) = frame_of p i"
    using p unfolding aligned_iff u by (simp add: pool_ok_def aligned_iff)
  show "frame_of p i \<noteq> NULL"
    using p u unfolding NULL_def by (metis add_is_0 pool_ok_def unat_eq_0)
qed

lemma frame_of_inj:
  assumes "pool_ok p" and "i < bm_slots (pool_bitmap p)" and "j < bm_slots (pool_bitmap p)" and "frame_of p i = frame_of p j"
  shows "i = j"
proof -
  have "unat (phy_addr_start p) + i * 4096 = unat (phy_addr_start p) + j * 4096"
    using frame_of_props(1)[OF assms(1,2)] frame_of_props(1)[OF assms(1,3)] unfolding assms(4) by (rule trans[OF sym])
  then show ?thesis
    by simp
qed

lemma palloc_spec:
  assumes p: "pool_ok p"
  shows "palloc p = Inr (NULL, p) \<or>
    (\<exists>f p'. palloc p = Inr (f, p') \<and> f \<noteq> NULL \<and> frame_free p f \<and> pool_ok p' \<and>
      phy_addr_start p' = phy_addr_start p \<and> bm_slots (pool_bitmap p') = bm_slots (pool_bitmap p) \<and>
      (\<forall>g. frame_free p' g \<longleftrightarrow> frame_free p g \<and> g \<noteq> f))"
proof -
  let ?bm = "pool_bitmap p"
  have wf: "wf_bitmap ?bm" "bm_fits ?bm 1"
    using p by (simp_all add: pool_ok_def bm_fits_def)
  obtain idx where idx: "bitmap_apply_cnt ?bm 1 = Inr idx"
    using bm.find_total[OF wf] by blast
  show ?thesis
  proof (cases "idx = - 1")
    case True
    then show ?thesis
      using idx by (simp add: palloc_def)
  next
    case False
    obtain bm' where bm': "bitmap_set_idx ?bm idx 1 = Inr bm'" "wf_bitmap bm'" "bm_slots bm' = bm_slots ?bm"
      "bm_fits bm' = bm_fits ?bm" "unat idx < bm_slots ?bm" "\<not> bm_used ?bm (unat idx)"
      "bm_used bm' = (bm_used ?bm)(unat idx := True)"
      using bm.claim_fresh[OF wf idx False] by blast
    let ?f = "frame_of p (unat idx)" and ?p = "p\<lparr>pool_bitmap := bm'\<rparr>"
    have f: "idx * PG_SIZE + phy_addr_start p = ?f"
      by (simp add: frame_of_def add.commute)
    have "bm_len bm' = bm_len ?bm"
      using bm'(3) by (simp add: bm_slots_def word_unat_eq_iff)
    then have ok: "pool_ok ?p"
      using p bm' by (simp add: pool_ok_def)
    have same: "frame_of ?p i = frame_of p i" for i
      by (simp add: frame_of_def)
    have free: "frame_free ?p g \<longleftrightarrow> frame_free p g \<and> g \<noteq> ?f" for g
    proof -
      have "i < bm_slots bm' \<and> \<not> bm_used bm' i \<and> g = frame_of p i \<longleftrightarrow>
          i < bm_slots ?bm \<and> \<not> bm_used ?bm i \<and> g = frame_of p i \<and> g \<noteq> ?f" for i
        using bm'(3,5,7) frame_of_inj[OF p, of i "unat idx"] by auto
      then show ?thesis
        by (auto simp: frame_free_def same)
    qed
    have "frame_free p ?f"
      using bm'(5,6) by (auto simp: frame_free_def)
    then show ?thesis
      using idx False bm'(1,3) ok free f frame_of_props(3)[OF p bm'(5)] by (simp add: palloc_def)
  qed
qed

subsection \<open>Mapping a run of kernel pages\<close>

fun in_pages :: "u32 \<Rightarrow> nat \<Rightarrow> u32 \<Rightarrow> bool" where
  "in_pages v 0 w = False"
| "in_pages v (Suc n) w = (same_page v w \<or> in_pages (v + PG_SIZE) n w)"

text \<open>The pages from \<open>v\<close> on are mapped to these frames.\<close>

fun maps_to :: "pmem \<Rightarrow> u32 \<Rightarrow> u32 list \<Rightarrow> bool" where
  "maps_to m v [] = True"
| "maps_to m v (f # fs) = ((\<forall>w. same_page v w \<longrightarrow> translate m w = Some (f + page_off w)) \<and> maps_to m (v + PG_SIZE) fs)"

lemma same_page_unat: "same_page v w \<longleftrightarrow> unat v div 4096 = unat w div 4096"
  unfolding same_page_def word_unat_eq_iff unat_drop_bit_eq by (simp add: drop_bit_eq_div)

lemma unat_next_page: "unat v + 4096 < 2 ^ 32 \<Longrightarrow> unat (v + PG_SIZE) = unat v + 4096"
  by (subst unat_add_lt) (simp_all add: PG_SIZE_def)

lemma next_page_div: "(n + 4096) div 4096 = Suc (n div 4096)" for n :: nat
  by simp

lemma in_pages_iff:
  assumes "unat v + n * 4096 \<le> 2 ^ 32"
  shows "in_pages v n w \<longleftrightarrow> unat v div 4096 \<le> unat w div 4096 \<and> unat w div 4096 < unat v div 4096 + n"
  using assms
proof (induction n arbitrary: v)
  case (Suc n)
  show ?case
  proof (cases n)
    case 0
    then show ?thesis
      by (auto simp: same_page_unat)
  next
    case (Suc k)
    then have u: "unat (v + PG_SIZE) = unat v + 4096"
      using Suc.prems by (intro unat_next_page) simp
    have "in_pages (v + PG_SIZE) n w \<longleftrightarrow> unat v div 4096 + 1 \<le> unat w div 4096 \<and> unat w div 4096 < unat v div 4096 + 1 + n"
      using Suc.IH[of "v + PG_SIZE"] Suc.prems unfolding u next_page_div by simp
    then show ?thesis
      by (auto simp: same_page_unat)
  qed
qed simp

lemma in_pages_not_first:
  assumes "unat v + Suc n * 4096 \<le> 2 ^ 32" and "same_page v w"
  shows "\<not> in_pages (v + PG_SIZE) n w"
proof (cases n)
  case (Suc k)
  then have u: "unat (v + PG_SIZE) = unat v + 4096"
    using assms(1) by (intro unat_next_page) simp
  show ?thesis
    using in_pages_iff[of "v + PG_SIZE" n w] assms unfolding u next_page_div by (simp add: same_page_unat)
qed simp

definition kmem_ok :: "mem \<Rightarrow> bool" where
  "kmem_ok m \<longleftrightarrow> wf_pd (mm m) \<and> pool_ok (kernel_pool m) \<and>
     (\<forall>f. frame_free (kernel_pool m) f \<longrightarrow> unused_frame f (mm m))"

text \<open>The pages are not mapped yet and their page tables exist.\<close>

definition mappable :: "pmem \<Rightarrow> u32 \<Rightarrow> nat \<Rightarrow> bool" where
  "mappable m v n \<longleftrightarrow> (\<forall>w. in_pages v n w \<longrightarrow>
     translate m w = None \<and> present (pd_entry m (pdi w)) \<and> pdi w \<noteq> 1023)"

lemma unused_frame_pd:
  assumes "\<And>i. unat i < 1024 \<Longrightarrow> pd_entry m' i = pd_entry m i"
  shows "unused_frame f m' = unused_frame f m"
  using assms unfolding unused_frame_def unat_1024[symmetric] by auto

lemma page_table_add_ok:
  assumes m: "wf_pd (mm m)" and v: "translate (mm m) v = None" "present (pd_entry (mm m) (pdi v))"
  shows "page_table_add v f m = Inr (m\<lparr>mm := set_pte v (f OR PG_US_U OR PG_RW_W OR PG_P_1) (mm m)\<rparr>)"
  using translate_pde_ptr[OF m, of v] page_table_set_ok[OF m v(2,1)] v(2)
  by (simp add: page_table_add_def load_def pde_addr_entry present_def PG_P_1_def)

lemma maps_to_keeps:
  assumes "\<And>w. in_pages v (length fs) w \<Longrightarrow> translate m' w = translate m w"
  shows "maps_to m' v fs = maps_to m v fs"
  using assms by (induction fs arbitrary: v) auto

lemma mem_same: "\<exists>mm' kp'. m = m\<lparr>mm := mm', kernel_pool := kp'\<rparr>"
  by (intro exI[of _ "mm m"] exI[of _ "kernel_pool m"]) simp

lemma malloc_page_loop_spec:
  assumes "kmem_ok m" and "unat v + n * 4096 \<le> 2 ^ 32" and "mappable (mm m) v n"
  shows "\<exists>m' fs. malloc_page_loop PF_KERNEL n v m = Inr (length fs = n, m') \<and> length fs \<le> n \<and>
    (\<exists>mm' kp'. m' = m\<lparr>mm := mm', kernel_pool := kp'\<rparr>) \<and> kmem_ok m' \<and> distinct fs \<and>
    phy_addr_start (kernel_pool m') = phy_addr_start (kernel_pool m) \<and>
    bm_slots (pool_bitmap (kernel_pool m')) = bm_slots (pool_bitmap (kernel_pool m)) \<and>
    (\<forall>f \<in> set fs. frame_free (kernel_pool m) f) \<and>
    (\<forall>g. frame_free (kernel_pool m') g \<longleftrightarrow> frame_free (kernel_pool m) g \<and> g \<notin> set fs) \<and>
    maps_to (mm m') v fs \<and> (\<forall>i. unat i < 1024 \<longrightarrow> pd_entry (mm m') i = pd_entry (mm m) i) \<and>
    (\<forall>w. \<not> in_pages v n w \<longrightarrow> pdi w \<noteq> 1023 \<longrightarrow> translate (mm m') w = translate (mm m) w)"
  using assms
proof (induction n arbitrary: v m)
  case 0
  then show ?case
    using mem_same[of m] by (intro exI[of _ m] exI[of _ "[]"]) auto
next
  case (Suc n)
  have ok: "wf_pd (mm m)" "pool_ok (kernel_pool m)" "\<And>f. frame_free (kernel_pool m) f \<Longrightarrow> unused_frame f (mm m)"
    using Suc.prems(1) by (auto simp: kmem_ok_def)
  have v: "translate (mm m) v = None" "present (pd_entry (mm m) (pdi v))" "pdi v \<noteq> 1023"
    using Suc.prems(3) by (auto simp: mappable_def same_page_def)
  consider (none) "palloc (kernel_pool m) = Inr (NULL, kernel_pool m)"
    | (some) f p where "palloc (kernel_pool m) = Inr (f, p)" "f \<noteq> NULL" "frame_free (kernel_pool m) f" "pool_ok p"
        "phy_addr_start p = phy_addr_start (kernel_pool m)" "bm_slots (pool_bitmap p) = bm_slots (pool_bitmap (kernel_pool m))" "\<And>g. frame_free p g \<longleftrightarrow> frame_free (kernel_pool m) g \<and> g \<noteq> f"
    using palloc_spec[OF ok(2)] by blast
  then show ?case
  proof cases
    case none
    then show ?thesis
      using Suc.prems(1) mem_same[of m] by (intro exI[of _ m] exI[of _ "[]"]) (auto simp: set_pool_def)
  next
    case some
    let ?e = "f OR PG_US_U OR PG_RW_W OR PG_P_1"
    let ?mm = "set_pte v ?e (mm m)"
    let ?m = "m\<lparr>mm := ?mm, kernel_pool := p\<rparr>"
    note sp = set_pte_spec[OF ok(1) v(2,3), where e = ?e]
    have ff: "frame f = f"
      using ok(3)[OF some(3)] by (simp add: unused_frame_def)
    then have e: "present ?e" "frame ?e = f"
      using present_entry[of f] by simp_all
    have add: "page_table_add v f (m\<lparr>kernel_pool := p\<rparr>) = Inr ?m"
      using page_table_add_ok[of "m\<lparr>kernel_pool := p\<rparr>" v f] ok(1) v by simp
    have ok': "kmem_ok ?m"
      using sp(1) some(4,7) ok(3) unused_frame_pd[OF sp(2)] by (auto simp: kmem_ok_def)
    have room: "n = 0 \<or> unat (v + PG_SIZE) + n * 4096 \<le> 2 ^ 32"
      using Suc.prems(2) unat_next_page[of v] by (cases n) simp_all
    have mp: "mappable ?mm (v + PG_SIZE) n"
      unfolding mappable_def
    proof (intro allI impI)
      fix w assume w: "in_pages (v + PG_SIZE) n w"
      then have "\<not> same_page v w"
        using in_pages_not_first[OF Suc.prems(2)] by blast
      moreover have "translate (mm m) w = None" "present (pd_entry (mm m) (pdi w))" "pdi w \<noteq> 1023"
        using w Suc.prems(3) by (auto simp: mappable_def)
      ultimately show "translate ?mm w = None \<and> present (pd_entry ?mm (pdi w)) \<and> pdi w \<noteq> 1023"
        using sp(2)[OF pdi_lt] sp(4) by simp
    qed
    have "\<exists>m' fs. malloc_page_loop PF_KERNEL n (v + PG_SIZE) ?m = Inr (length fs = n, m') \<and> length fs \<le> n \<and>
        (\<exists>mm' kp'. m' = ?m\<lparr>mm := mm', kernel_pool := kp'\<rparr>) \<and> kmem_ok m' \<and> distinct fs \<and>
        phy_addr_start (kernel_pool m') = phy_addr_start p \<and> bm_slots (pool_bitmap (kernel_pool m')) = bm_slots (pool_bitmap p) \<and>
        (\<forall>f \<in> set fs. frame_free p f) \<and> (\<forall>g. frame_free (kernel_pool m') g \<longleftrightarrow> frame_free p g \<and> g \<notin> set fs) \<and>
        maps_to (mm m') (v + PG_SIZE) fs \<and> (\<forall>i. unat i < 1024 \<longrightarrow> pd_entry (mm m') i = pd_entry ?mm i) \<and>
        (\<forall>w. \<not> in_pages (v + PG_SIZE) n w \<longrightarrow> pdi w \<noteq> 1023 \<longrightarrow> translate (mm m') w = translate ?mm w)"
    proof (cases "n = 0")
      case True
      then show ?thesis
        using ok' mem_same[of ?m] by (intro exI[of _ ?m] exI[of _ "[]"]) auto
    next
      case False
      then show ?thesis
        using Suc.IH[OF ok', of "v + PG_SIZE"] mp room by simp
    qed
    then obtain m' fs where r: "malloc_page_loop PF_KERNEL n (v + PG_SIZE) ?m = Inr (length fs = n, m')" "length fs \<le> n"
      "\<exists>mm' kp'. m' = ?m\<lparr>mm := mm', kernel_pool := kp'\<rparr>" "kmem_ok m'" "distinct fs" "\<forall>f \<in> set fs. frame_free p f"
      "\<forall>g. frame_free (kernel_pool m') g \<longleftrightarrow> frame_free p g \<and> g \<notin> set fs" "maps_to (mm m') (v + PG_SIZE) fs"
      "\<forall>i. unat i < 1024 \<longrightarrow> pd_entry (mm m') i = pd_entry ?mm i"
      "\<forall>w. \<not> in_pages (v + PG_SIZE) n w \<longrightarrow> pdi w \<noteq> 1023 \<longrightarrow> translate (mm m') w = translate ?mm w"
      "phy_addr_start (kernel_pool m') = phy_addr_start p" "bm_slots (pool_bitmap (kernel_pool m')) = bm_slots (pool_bitmap p)"
      by blast
    have run: "malloc_page_loop PF_KERNEL (Suc n) v m = Inr (length (f # fs) = Suc n, m')"
      using some(1,2) add r(1) by (simp add: set_pool_def)
    have first: "\<forall>w. same_page v w \<longrightarrow> translate (mm m') w = Some (f + page_off w)"
    proof (intro allI impI)
      fix w assume w: "same_page v w"
      then have "pdi w \<noteq> 1023"
        using v(3) by (simp add: same_page_fields)
      then have "translate (mm m') w = translate ?mm w"
        using r(10) in_pages_not_first[OF Suc.prems(2) w] by blast
      then show "translate (mm m') w = Some (f + page_off w)"
        using sp(5)[OF w] e by simp
    qed
    have eqv: "\<exists>mm' kp'. m' = m\<lparr>mm := mm', kernel_pool := kp'\<rparr>"
      using r(3) by auto
    show ?thesis
      by (intro exI[of _ m'] exI[of _ "f # fs"] conjI)
        (use run r eqv some(3,5,6,7) first sp(2,4) in auto)
  qed
qed

text \<open>The kernel's heap: the pages not marked in the bitmap are not mapped, and all its page tables exist.\<close>

definition vpage :: "virtual_addr \<Rightarrow> nat \<Rightarrow> u32" where
  "vpage va i = vaddr_start va + word_of_nat i * PG_SIZE"

definition vaddr_range_ok :: "virtual_addr \<Rightarrow> bool" where
  "vaddr_range_ok va \<longleftrightarrow> wf_bitmap (vaddr_bitmap va) \<and> frame (vaddr_start va) = vaddr_start va \<and> vaddr_start va \<noteq> 0 \<and>
     unat (vaddr_start va) + bm_slots (vaddr_bitmap va) * 4096 \<le> 0xffc00000"

definition kheap_ok :: "mem \<Rightarrow> bool" where
  "kheap_ok m \<longleftrightarrow> vaddr_range_ok (kernel_vaddr m) \<and>
     (\<forall>i < bm_slots (vaddr_bitmap (kernel_vaddr m)). \<forall>w. same_page (vpage (kernel_vaddr m) i) w \<longrightarrow>
        present (pd_entry (mm m) (pdi w)) \<and>
        (\<not> bm_used (vaddr_bitmap (kernel_vaddr m)) i \<longrightarrow> translate (mm m) w = None))"

lemma unat_vpage:
  assumes "vaddr_range_ok va" and "i \<le> bm_slots (vaddr_bitmap va)"
  shows "unat (vpage va i) = unat (vaddr_start va) + i * 4096"
proof -
  have "unat (vaddr_start va) + i * 4096 \<le> 0xffc00000"
    using assms by (auto simp: vaddr_range_ok_def)
  then show ?thesis
    unfolding vpage_def using unat_page_mult[of i] by (subst unat_add_lt) simp_all
qed

lemma vpage_pdi:
  assumes "vaddr_range_ok va" and "i < bm_slots (vaddr_bitmap va)" and "same_page (vpage va i) w"
  shows "pdi w \<noteq> 1023"
proof -
  have "unat (vaddr_start va) + Suc i * 4096 \<le> 0xffc00000"
    using assms(1,2) by (auto simp: vaddr_range_ok_def)
  then have "unat (vpage va i) + 4096 \<le> 0xffc00000"
    using unat_vpage[OF assms(1)] assms(2) by simp
  then have "unat w div 4096 < 1023 * 1024"
    using assms(3) by (simp add: same_page_unat)
  then have "unat w div 4194304 < 1023"
    using div_mult2_eq[of "unat w" 4096 1024] by simp
  then show ?thesis
    by (auto simp: word_unat_eq_iff unat_pdi)
qed

lemma in_pages_vpage:
  assumes va: "vaddr_range_ok va" and i: "i + n \<le> bm_slots (vaddr_bitmap va)"
  shows "in_pages (vpage va i) n w \<longleftrightarrow> (\<exists>k < n. same_page (vpage va (i + k)) w)"
proof -
  have al: "unat (vaddr_start va) mod 4096 = 0"
    using va by (simp add: vaddr_range_ok_def aligned_iff)
  have pg: "unat (vpage va j) div 4096 = unat (vaddr_start va) div 4096 + j" if "j \<le> bm_slots (vaddr_bitmap va)" for j
    using unat_vpage[OF va that] al by (simp add: add.commute)
  have "unat (vaddr_start va) + (i + n) * 4096 \<le> 0xffc00000"
    using va i by (auto simp: vaddr_range_ok_def)
  then have "unat (vpage va i) + n * 4096 \<le> 2 ^ 32"
    using unat_vpage[OF va, of i] i by simp
  then have "in_pages (vpage va i) n w \<longleftrightarrow>
      unat (vaddr_start va) div 4096 + i \<le> unat w div 4096 \<and> unat w div 4096 < unat (vaddr_start va) div 4096 + i + n"
    using in_pages_iff[of "vpage va i" n w] pg[of i] i by simp
  also have "\<dots> \<longleftrightarrow> (\<exists>k < n. unat w div 4096 = unat (vaddr_start va) div 4096 + i + k)"
    by (auto simp: le_iff_add)
  also have "\<dots> \<longleftrightarrow> (\<exists>k < n. same_page (vpage va (i + k)) w)"
    using pg i by (auto simp: same_page_unat)
  finally show ?thesis .
qed

lemma vpage_distinct:
  assumes "vaddr_range_ok va" and "i \<le> bm_slots (vaddr_bitmap va)" and "j \<le> bm_slots (vaddr_bitmap va)"
    and "same_page (vpage va i) w" and "same_page (vpage va j) w"
  shows "i = j"
proof -
  have al: "unat (vaddr_start va) mod 4096 = 0"
    using assms(1) by (simp add: vaddr_range_ok_def aligned_iff)
  have "unat (vpage va k) div 4096 = unat (vaddr_start va) div 4096 + k" if "k \<le> bm_slots (vaddr_bitmap va)" for k
    using unat_vpage[OF assms(1) that] al by (simp add: add.commute)
  then show ?thesis
    using assms(2-5) by (simp add: same_page_unat)
qed

lemma vaddr_claim_spec:
  assumes va: "vaddr_range_ok va" and cnt: "0 < cnt" "cnt \<le> bm_len (vaddr_bitmap va)"
  shows "vaddr_claim va cnt = Inr None \<or>
    (\<exists>i bm. vaddr_claim va cnt = Inr (Some (vpage va i, va\<lparr>vaddr_bitmap := bm\<rparr>)) \<and> i + unat cnt \<le> bm_slots (vaddr_bitmap va) \<and>
      (\<forall>k < unat cnt. \<not> bm_used (vaddr_bitmap va) (i + k)) \<and> vaddr_range_ok (va\<lparr>vaddr_bitmap := bm\<rparr>) \<and>
      bm_slots bm = bm_slots (vaddr_bitmap va) \<and>
      (\<forall>k. bm_used bm k = (i \<le> k \<and> k < i + unat cnt \<or> bm_used (vaddr_bitmap va) k)))"
proof -
  let ?bm = "vaddr_bitmap va"
  have wf: "wf_bitmap ?bm" "bm_fits ?bm cnt"
    using va cnt by (simp_all add: vaddr_range_ok_def bm_fits_def)
  obtain idx where idx: "bitmap_apply_cnt ?bm cnt = Inr idx"
    using bm.find_total[OF wf] by blast
  show ?thesis
  proof (cases "idx = - 1")
    case True
    then show ?thesis
      using idx by (simp add: vaddr_claim_def)
  next
    case False
    note sound = bm.find_sound[OF wf idx False]
    obtain bm' where bm': "bitmap_set_run ?bm idx 0 cnt 1 = Inr bm'" "wf_bitmap bm'" "bm_slots bm' = bm_slots ?bm"
      "\<forall>k. bm_used bm' k = (if unat idx + unat (0::u32) \<le> k \<and> k < unat idx + unat cnt then (1::u8) = 1 else bm_used ?bm k)"
      using bitmap_set_run_spec[OF wf(1), of idx cnt 1 0] sound by auto
    have "vaddr_start va + idx * PG_SIZE = vpage va (unat idx)"
      by (simp add: vpage_def)
    then show ?thesis
      using idx False bm' sound va
      by (intro disjI2 exI[of _ "unat idx"] exI[of _ bm']) (auto simp: vaddr_claim_def vaddr_range_ok_def)
  qed
qed

lemma kheap_okD:
  assumes "kheap_ok m" and "i < bm_slots (vaddr_bitmap (kernel_vaddr m))" and "same_page (vpage (kernel_vaddr m) i) w"
  shows "present (pd_entry (mm m) (pdi w))" and "\<not> bm_used (vaddr_bitmap (kernel_vaddr m)) i \<Longrightarrow> translate (mm m) w = None"
    and "pdi w \<noteq> 1023"
  using assms vpage_pdi[of "kernel_vaddr m" i w] by (auto simp: kheap_ok_def)

text \<open>A run of pages of the heap that the bitmap says are free.\<close>

definition free_pages :: "mem \<Rightarrow> nat \<Rightarrow> nat \<Rightarrow> bool" where
  "free_pages m i n \<longleftrightarrow> i + n \<le> bm_slots (vaddr_bitmap (kernel_vaddr m)) \<and>
     (\<forall>k < n. \<not> bm_used (vaddr_bitmap (kernel_vaddr m)) (i + k))"

lemma free_pages_mappable:
  assumes heap: "kheap_ok m" and free: "free_pages m i n"
  shows "mappable (mm m) (vpage (kernel_vaddr m) i) n"
  unfolding mappable_def
proof (intro allI impI)
  fix w assume w: "in_pages (vpage (kernel_vaddr m) i) n w"
  have va: "vaddr_range_ok (kernel_vaddr m)"
    using heap by (simp add: kheap_ok_def)
  obtain k where k: "k < n" "same_page (vpage (kernel_vaddr m) (i + k)) w"
    using w in_pages_vpage[OF va] free by (auto simp: free_pages_def)
  then show "translate (mm m) w = None \<and> present (pd_entry (mm m) (pdi w)) \<and> pdi w \<noteq> 1023"
    using kheap_okD[OF heap, of "i + k" w] free by (auto simp: free_pages_def)
qed

lemma vpage_run:
  assumes va: "vaddr_range_ok va" and i: "i + n \<le> bm_slots (vaddr_bitmap va)"
  shows "unat (vpage va i) + n * 4096 \<le> 2 ^ 32" "vpage va i \<noteq> NULL" "frame (vpage va i) = vpage va i"
proof -
  have u: "unat (vpage va i) = unat (vaddr_start va) + i * 4096"
    using unat_vpage[OF va] i by simp
  have "unat (vaddr_start va) + (i + n) * 4096 \<le> 0xffc00000"
    using va i by (auto simp: vaddr_range_ok_def)
  then show "unat (vpage va i) + n * 4096 \<le> 2 ^ 32"
    unfolding u by simp
  have st: "unat (vaddr_start va) \<noteq> 0" "unat (vaddr_start va) mod 4096 = 0"
    using va by (auto simp: vaddr_range_ok_def aligned_iff unat_eq_0)
  show "vpage va i \<noteq> NULL"
    using u st(1) by (auto simp: NULL_def word_unat_eq_iff)
  show "frame (vpage va i) = vpage va i"
    using st(2) by (simp add: aligned_iff u)
qed

text \<open>Marking a run and changing nothing but its mappings keeps the heap's invariant.\<close>

lemma kheap_ok_claimed:
  assumes heap: "kheap_ok m" and i: "i + n \<le> bm_slots (vaddr_bitmap (kernel_vaddr m))"
    and kv: "kernel_vaddr m' = (kernel_vaddr m)\<lparr>vaddr_bitmap := bm\<rparr>" "vaddr_range_ok (kernel_vaddr m')"
      "bm_slots bm = bm_slots (vaddr_bitmap (kernel_vaddr m))"
    and used: "\<And>k. bm_used bm k = (i \<le> k \<and> k < i + n \<or> bm_used (vaddr_bitmap (kernel_vaddr m)) k)"
    and pd: "\<And>i. unat i < 1024 \<Longrightarrow> pd_entry (mm m') i = pd_entry (mm m) i"
    and tr: "\<And>w. \<not> in_pages (vpage (kernel_vaddr m) i) n w \<Longrightarrow> pdi w \<noteq> 1023 \<Longrightarrow> translate (mm m') w = translate (mm m) w"
  shows "kheap_ok m'"
  unfolding kheap_ok_def
proof (intro conjI allI impI)
  let ?va = "kernel_vaddr m"
  have va: "vaddr_range_ok ?va"
    using heap by (simp add: kheap_ok_def)
  fix j w assume j: "j < bm_slots (vaddr_bitmap (kernel_vaddr m'))" and w: "same_page (vpage (kernel_vaddr m') j) w"
  have j': "j < bm_slots (vaddr_bitmap ?va)" and w': "same_page (vpage ?va j) w"
    using j w kv by (simp_all add: vpage_def)
  note old = kheap_okD[OF heap j' w']
  show "present (pd_entry (mm m') (pdi w))"
    using pd[OF pdi_lt] old(1) by simp
  assume "\<not> bm_used (vaddr_bitmap (kernel_vaddr m')) j"
  then have nu: "\<not> (i \<le> j \<and> j < i + n)" "\<not> bm_used (vaddr_bitmap ?va) j"
    using used kv(1) by auto
  have "\<not> in_pages (vpage ?va i) n w"
  proof
    assume "in_pages (vpage ?va i) n w"
    then obtain k where k: "k < n" "same_page (vpage ?va (i + k)) w"
      using in_pages_vpage[OF va i] by blast
    then have "i + k = j"
      using vpage_distinct[OF va, of "i + k" j w] i j' w' by simp
    then show False
      using nu(1) k(1) by auto
  qed
  then show "translate (mm m') w = None"
    using tr[OF _ old(3)] old(2)[OF nu(2)] by simp
qed (rule kv(2))

lemma malloc_page_kernel_spec:
  assumes ok: "kmem_ok m" "kheap_ok m" and cnt: "0 < cnt" "cnt < 3840" "cnt \<le> bm_len (vaddr_bitmap (kernel_vaddr m))"
  shows "\<exists>v m' fs. malloc_page PF_KERNEL cnt m = Inr (v, m') \<and> kmem_ok m' \<and> kheap_ok m' \<and>
    (v \<noteq> NULL \<longrightarrow> (\<exists>i bm. v = vpage (kernel_vaddr m) i \<and> free_pages m i (unat cnt) \<and>
        kernel_vaddr m' = (kernel_vaddr m)\<lparr>vaddr_bitmap := bm\<rparr> \<and> bm_slots bm = bm_slots (vaddr_bitmap (kernel_vaddr m)) \<and>
        (\<forall>k. bm_used bm k = (i \<le> k \<and> k < i + unat cnt \<or> bm_used (vaddr_bitmap (kernel_vaddr m)) k)) \<and>
        user_pool m' = user_pool m \<and> phy_addr_start (kernel_pool m') = phy_addr_start (kernel_pool m) \<and>
        bm_slots (pool_bitmap (kernel_pool m')) = bm_slots (pool_bitmap (kernel_pool m)) \<and> now_pg_dir m' = now_pg_dir m \<and>
        (\<forall>i. unat i < 1024 \<longrightarrow> pd_entry (mm m') i = pd_entry (mm m) i)) \<and> frame v = v \<and> (\<forall>w. in_pages v (unat cnt) w \<longrightarrow> translate (mm m) w = None) \<and>
      length fs = unat cnt \<and> distinct fs \<and> maps_to (mm m') v fs \<and> (\<forall>f \<in> set fs. frame_free (kernel_pool m) f) \<and>
      (\<forall>g. frame_free (kernel_pool m') g \<longleftrightarrow> frame_free (kernel_pool m) g \<and> g \<notin> set fs) \<and>
      (\<forall>w. \<not> in_pages v (unat cnt) w \<longrightarrow> pdi w \<noteq> 1023 \<longrightarrow> translate (mm m') w = translate (mm m) w))"
proof -
  let ?va = "kernel_vaddr m"
  have va: "vaddr_range_ok ?va"
    using ok(2) by (simp add: kheap_ok_def)
  consider (none) "vaddr_claim ?va cnt = Inr None"
    | (some) i bm where "vaddr_claim ?va cnt = Inr (Some (vpage ?va i, ?va\<lparr>vaddr_bitmap := bm\<rparr>))"
      "i + unat cnt \<le> bm_slots (vaddr_bitmap ?va)" "\<And>k. k < unat cnt \<Longrightarrow> \<not> bm_used (vaddr_bitmap ?va) (i + k)"
      "vaddr_range_ok (?va\<lparr>vaddr_bitmap := bm\<rparr>)" "bm_slots bm = bm_slots (vaddr_bitmap ?va)"
      "\<And>k. bm_used bm k = (i \<le> k \<and> k < i + unat cnt \<or> bm_used (vaddr_bitmap ?va) k)"
    using vaddr_claim_spec[OF va cnt(1,3)] by blast
  then show ?thesis
  proof cases
    case none
    then have "malloc_page PF_KERNEL cnt m = Inr (NULL, m)"
      using cnt by (simp add: malloc_page_def vaddr_get_def)
    then show ?thesis
      using ok by blast
  next
    case some
    let ?v = "vpage ?va i" and ?m1 = "m\<lparr>kernel_vaddr := ?va\<lparr>vaddr_bitmap := bm\<rparr>\<rparr>"
    have run: "unat ?v + unat cnt * 4096 \<le> 2 ^ 32" "?v \<noteq> NULL" "frame ?v = ?v"
      using vpage_run[OF va some(2)] by simp_all
    have mp: "mappable (mm m) ?v (unat cnt)"
      using free_pages_mappable[OF ok(2), of i "unat cnt"] some(2,3) by (simp add: free_pages_def)
    have "kmem_ok ?m1" "mappable (mm ?m1) ?v (unat cnt)"
      using ok(1) mp by (auto simp: kmem_ok_def)
    from malloc_page_loop_spec[OF this(1) run(1) this(2)] obtain m' fs where
      r: "malloc_page_loop PF_KERNEL (unat cnt) ?v ?m1 = Inr (length fs = unat cnt, m')" "kmem_ok m'" "distinct fs"
      "\<forall>f \<in> set fs. frame_free (kernel_pool m) f"
      "\<forall>g. frame_free (kernel_pool m') g \<longleftrightarrow> frame_free (kernel_pool m) g \<and> g \<notin> set fs" "maps_to (mm m') ?v fs"
      "\<forall>i. unat i < 1024 \<longrightarrow> pd_entry (mm m') i = pd_entry (mm m) i"
      "\<forall>w. \<not> in_pages ?v (unat cnt) w \<longrightarrow> pdi w \<noteq> 1023 \<longrightarrow> translate (mm m') w = translate (mm m) w"
      "\<exists>mm' kp'. m' = ?m1\<lparr>mm := mm', kernel_pool := kp'\<rparr>" "phy_addr_start (kernel_pool m') = phy_addr_start (kernel_pool m)"
      "bm_slots (pool_bitmap (kernel_pool m')) = bm_slots (pool_bitmap (kernel_pool m))"
      by auto
    have kv: "kernel_vaddr m' = ?va\<lparr>vaddr_bitmap := bm\<rparr>"
      using r(9) by auto
    have "kheap_ok m'"
      by (rule kheap_ok_claimed[OF ok(2) some(2) kv _ some(5,6)]) (use some(4) kv r(7,8) in auto)
    moreover have "malloc_page PF_KERNEL cnt m = Inr (if length fs = unat cnt then ?v else NULL, m')"
      using some(1) cnt run(2) r(1) by (simp add: malloc_page_def vaddr_get_def)
    moreover have "\<forall>w. in_pages ?v (unat cnt) w \<longrightarrow> translate (mm m) w = None"
      using mp by (simp add: mappable_def)
    moreover have "free_pages m i (unat cnt)" "user_pool m' = user_pool m" "now_pg_dir m' = now_pg_dir m"
      using some(2,3) r(9) by (auto simp: free_pages_def)
    ultimately show ?thesis
      using r run(3) kv some(5,6) by (intro exI[of _ "if length fs = unat cnt then ?v else NULL"] exI[of _ m'] exI[of _ fs] conjI impI exI[of _ i] exI[of _ bm])
        (simp_all split: if_splits)
  qed
qed

text \<open>
  C2. Allocating kernel pages: for a run that is not longer than the bitmap, \<^verbatim>\<open>malloc_page(PF_KERNEL, cnt)\<close>
  passes every assertion and keeps the invariants of the pool, the heap and the page tables. When it does not
  return \<^verbatim>\<open>NULL\<close>, the result is page-aligned, its \<open>cnt\<close> pages were unmapped before and are now mapped to \<open>cnt\<close>
  different frames that were free before and no longer are, no other frame changed hands, and every
  address outside of the run (and of the window of the page tables) translates as before.
\<close>

theorem malloc_page_kernel_correct:
  assumes ok: "kmem_ok m" "kheap_ok m" and cnt: "0 < cnt" "cnt < 3840" "cnt \<le> bm_len (vaddr_bitmap (kernel_vaddr m))"
  shows "\<exists>v m' fs. malloc_page PF_KERNEL cnt m = Inr (v, m') \<and> kmem_ok m' \<and> kheap_ok m' \<and>
    (v \<noteq> NULL \<longrightarrow> frame v = v \<and> (\<forall>w. in_pages v (unat cnt) w \<longrightarrow> translate (mm m) w = None) \<and>
      length fs = unat cnt \<and> distinct fs \<and> maps_to (mm m') v fs \<and> (\<forall>f \<in> set fs. frame_free (kernel_pool m) f) \<and>
      (\<forall>g. frame_free (kernel_pool m') g \<longleftrightarrow> frame_free (kernel_pool m) g \<and> g \<notin> set fs) \<and>
      (\<forall>w. \<not> in_pages v (unat cnt) w \<longrightarrow> pdi w \<noteq> 1023 \<longrightarrow> translate (mm m') w = translate (mm m) w))"
  using malloc_page_kernel_spec[OF assms] by blast

text \<open>A small machine: sixteen heap pages after the mapped page of \<open>pmem0\<close>, sixteen frames from 3 MB on.\<close>

definition mem0 :: mem where
  "mem0 = \<lparr>mm = pmem0,
     kernel_pool = \<lparr>pool_bitmap = \<lparr>bm_len = 2, bm_bits = [0, 0]\<rparr>, phy_addr_start = 0x300000, pool_size = 0x10000, pool_lock = lock_init\<rparr>,
     user_pool = \<lparr>pool_bitmap = \<lparr>bm_len = 2, bm_bits = [0, 0]\<rparr>, phy_addr_start = 0x400000, pool_size = 0x10000, pool_lock = lock_init\<rparr>,
     kernel_vaddr = \<lparr>vaddr_bitmap = \<lparr>bm_len = 2, bm_bits = [0, 0]\<rparr>, vaddr_start = 0x1000\<rparr>,
     user_vaddr = \<lparr>vaddr_bitmap = \<lparr>bm_len = 2, bm_bits = [0, 0]\<rparr>, vaddr_start = 0x8048000\<rparr>, now_pg_dir = NULL\<rparr>"

lemma mem0_kmem: "kmem_ok mem0"
proof -
  have p: "pool_ok (kernel_pool mem0)"
    by (simp add: pool_ok_def mem0_def wf_bitmap_def bm_slots_def frame_def)
  moreover have "unused_frame f pmem0" if f: "frame_free (kernel_pool mem0) f" for f
  proof -
    obtain i where i: "i < bm_slots (pool_bitmap (kernel_pool mem0))" "f = frame_of (kernel_pool mem0) i"
      using f by (auto simp: frame_free_def)
    have "unat f = 0x300000 + i * 4096" "frame f = f"
      using frame_of_props[OF p i(1)] i(2) by (simp_all add: mem0_def)
    then show ?thesis
      unfolding unused_frame_def by (auto simp: pmem0_entry present_def frame_def word_unat_eq_iff split: if_splits)
  qed
  ultimately show ?thesis
    using pmem0_wf by (simp add: kmem_ok_def) (simp add: mem0_def)
qed

lemma pmem0_unmapped:
  assumes "1 \<le> unat w div 4096" and "unat w div 4096 < 17"
  shows "present (pd_entry pmem0 (pdi w))" "translate pmem0 w = None"
proof -
  have "unat (pdi w) = 0"
    using assms div_mult2_eq[of "unat w" 4096 1024] by (simp add: unat_pdi)
  then have d: "pdi w = 0"
    by (simp add: unat_eq_0)
  then show pr: "present (pd_entry pmem0 (pdi w))"
    by (simp add: pmem0_entry present_def)
  have f: "frame 0x101007 = 0x101000"
    by (simp add: frame_def)
  have pa: "pte_addr pmem0 w = frame 0x101007 + pti w * 4"
    by (simp add: pte_addr_def pde_addr_entry d pmem0_entry)
  have "unat (pti w) = unat w div 4096"
    using assms by (simp add: unat_pti)
  then have "unat (pte_addr pmem0 w) = 0x101000 + unat w div 4096 * 4"
    using entry_addr(1)[OF pti_lt, of "0x101007" w] unfolding pa by (simp add: f)
  then have "ram pmem0 (pte_addr pmem0 w) = 0"
    using assms by (auto simp: pmem0_def word_unat_eq_iff)
  then show "translate pmem0 w = None"
    by (simp add: translate_def present_def)
qed

lemma mem0_kheap: "kheap_ok mem0"
proof -
  have r: "vaddr_range_ok (kernel_vaddr mem0)"
    by (simp add: vaddr_range_ok_def mem0_def wf_bitmap_def bm_slots_def frame_def)
  have s: "bm_slots (vaddr_bitmap (kernel_vaddr mem0)) = 16"
    by (simp add: mem0_def bm_slots_def)
  have "1 \<le> unat w div 4096 \<and> unat w div 4096 < 17" if "i < 16" "same_page (vpage (kernel_vaddr mem0) i) w" for i w
    using unat_vpage[OF r, of i] that s by (simp add: same_page_unat mem0_def)
  then show ?thesis
    using r pmem0_unmapped unfolding kheap_ok_def s by (simp add: mem0_def)
qed

lemma bitmap16:
  "bitmap_apply_cnt \<lparr>bm_len = 2, bm_bits = [0, 0]\<rparr> 1 = Inr 0"
  "bitmap_set_run \<lparr>bm_len = 2, bm_bits = [0, 0]\<rparr> 0 0 1 1 = Inr \<lparr>bm_len = 2, bm_bits = [1, 0]\<rparr>"
  "bitmap_set_idx \<lparr>bm_len = 2, bm_bits = [0, 0]\<rparr> 0 1 = Inr \<lparr>bm_len = 2, bm_bits = [1, 0]\<rparr>"
  by code_simp+

lemma mem0_malloc: "\<exists>m'. malloc_page PF_KERNEL 1 mem0 = Inr (0x1000, m')"
proof -
  have "present (pd_entry pmem0 (pdi 0x1000))" "translate pmem0 0x1000 = None"
    using pmem0_unmapped[of "0x1000"] by simp_all
  then have "page_table_add 0x1000 0x300000 m =
      Inr (m\<lparr>mm := set_pte 0x1000 (0x300000 OR PG_US_U OR PG_RW_W OR PG_P_1) pmem0\<rparr>)" if "mm m = pmem0" for m
    using page_table_add_ok[of m "0x1000" "0x300000"] pmem0_wf that by simp
  then show ?thesis
    by (simp add: malloc_page_def vaddr_get_def vaddr_claim_def palloc_def bitmap16 mem0_def PG_SIZE_def NULL_def set_pool_def)
qed

theorem malloc_page_kernel_correct_witness:
  "\<exists>m' f. malloc_page PF_KERNEL 1 mem0 = Inr (0x1000, m') \<and> kmem_ok m' \<and> kheap_ok m' \<and>
    maps_to (mm m') 0x1000 [f] \<and> frame_free (kernel_pool mem0) f \<and> \<not> frame_free (kernel_pool m') f"
proof -
  obtain m' where m': "malloc_page PF_KERNEL 1 mem0 = Inr (0x1000, m')"
    using mem0_malloc by blast
  have c: "(1 :: u32) \<le> bm_len (vaddr_bitmap (kernel_vaddr mem0))"
    by (simp add: mem0_def)
  obtain fs where fs: "kmem_ok m'" "kheap_ok m'" "length fs = 1" "maps_to (mm m') 0x1000 fs"
    "\<forall>f \<in> set fs. frame_free (kernel_pool mem0) f" "\<forall>g. frame_free (kernel_pool m') g \<longleftrightarrow> frame_free (kernel_pool mem0) g \<and> g \<notin> set fs"
    using malloc_page_kernel_correct[OF mem0_kmem mem0_kheap _ _ c] m' by (auto simp: NULL_def)
  obtain f where "fs = [f]"
    using fs(3) by (auto simp: length_Suc_conv)
  then show ?thesis
    using m' fs by auto
qed

subsection \<open>Giving the pages back\<close>

definition pool_frame :: "pool \<Rightarrow> u32 \<Rightarrow> bool" where
  "pool_frame p f \<longleftrightarrow> (\<exists>i < bm_slots (pool_bitmap p). f = frame_of p i)"

text \<open>The kernel's frames lie above the boot page tables and below the frames of the user pool.\<close>

definition pools_ordered :: "mem \<Rightarrow> bool" where
  "pools_ordered m \<longleftrightarrow> phy_addr_start (kernel_pool m) \<ge> 0x102000 \<and>
     unat (phy_addr_start (kernel_pool m)) + bm_slots (pool_bitmap (kernel_pool m)) * 4096 \<le> unat (phy_addr_start (user_pool m))"

lemma pool_frame_range:
  assumes "pool_ok (kernel_pool m)" and "pools_ordered m" and "pool_frame (kernel_pool m) f"
  shows "frame f = f" "f \<ge> phy_addr_start (kernel_pool m)" "f < phy_addr_start (user_pool m)" "f \<ge> 0x102000" "f mod PG_SIZE = 0"
    "in_own_pool False f m"
proof -
  obtain i where i: "i < bm_slots (pool_bitmap (kernel_pool m))" "f = frame_of (kernel_pool m) i"
    using assms(3) by (auto simp: pool_frame_def)
  have u: "unat f = unat (phy_addr_start (kernel_pool m)) + i * 4096" and al: "frame f = f"
    using frame_of_props[OF assms(1) i(1)] i(2) by simp_all
  show "frame f = f"
    using al .
  have m: "unat f mod 4096 = 0"
    using al by (simp add: aligned_iff)
  then show md: "f mod PG_SIZE = 0"
    by (simp add: word_unat_eq_iff unat_mod_distrib PG_SIZE_def)
  show lo: "f \<ge> phy_addr_start (kernel_pool m)"
    by (simp add: word_le_nat_alt u)
  have "i * 4096 < bm_slots (pool_bitmap (kernel_pool m)) * 4096"
    using i(1) by simp
  then show hi: "f < phy_addr_start (user_pool m)"
    using assms(2) unfolding word_less_nat_alt u pools_ordered_def by linarith
  show "f \<ge> 0x102000"
    using lo assms(2) by (auto simp: pools_ordered_def)
  show "in_own_pool False f m"
    using md lo hi by (simp add: in_own_pool_def)
qed

lemma pfree_kernel_ok:
  assumes p: "pool_ok (kernel_pool m)" and ord: "pools_ordered m" and f: "pool_frame (kernel_pool m) f"
  shows "\<exists>kp'. pfree f m = Inr (m\<lparr>kernel_pool := kp'\<rparr>) \<and> pool_ok kp' \<and> phy_addr_start kp' = phy_addr_start (kernel_pool m) \<and>
    bm_slots (pool_bitmap kp') = bm_slots (pool_bitmap (kernel_pool m)) \<and>
    (\<forall>g. frame_free kp' g \<longleftrightarrow> frame_free (kernel_pool m) g \<or> g = f)"
proof -
  let ?p = "kernel_pool m" and ?bm = "pool_bitmap (kernel_pool m)"
  obtain i where i: "i < bm_slots ?bm" "f = frame_of ?p i"
    using f by (auto simp: pool_frame_def)
  have lt: "i * 4096 < 2 ^ 32"
    using p i(1) by (auto simp: pool_ok_def)
  have "f - phy_addr_start ?p = word_of_nat i * PG_SIZE"
    by (simp add: i(2) frame_of_def)
  then have "unat ((f - phy_addr_start ?p) div PG_SIZE) = i"
    using unat_page_mult[OF lt] by (simp add: unat_div_distrib) (simp add: PG_SIZE_def)
  then obtain bm' where bm': "bitmap_set_idx ?bm ((f - phy_addr_start ?p) div PG_SIZE) 0 = Inr bm'" "wf_bitmap bm'"
    "bm_slots bm' = bm_slots ?bm" "bm_used bm' = (bm_used ?bm)(i := False)"
    using bm.mark_ok[of ?bm "(f - phy_addr_start ?p) div PG_SIZE" 0] p i(1) by (auto simp: pool_ok_def)
  let ?p' = "?p\<lparr>pool_bitmap := bm'\<rparr>"
  have len: "bm_len bm' = bm_len ?bm"
    using bm'(3) by (simp add: bm_slots_def word_unat_eq_iff)
  have ok: "pool_ok ?p'"
    using p bm' len by (simp add: pool_ok_def)
  have same: "frame_of ?p' j = frame_of ?p j" for j
    by (simp add: frame_of_def)
  have "frame_free ?p' g \<longleftrightarrow> frame_free ?p g \<or> g = f" for g
    unfolding frame_free_def same using i bm' by auto
  moreover have "\<not> phy_addr_start (user_pool m) \<le> f"
    using pool_frame_range(3)[OF p ord f] by (simp add: not_le)
  then have "pfree f m = Inr (m\<lparr>kernel_pool := ?p'\<rparr>)"
    using bm'(1) by (simp add: pfree_def set_pool_def Let_def)
  ultimately show ?thesis
    using ok bm'(3) by (intro exI[of _ ?p']) simp
qed

lemma maps_to_entry:
  assumes m: "wf_pd m" and t: "\<forall>w. same_page v w \<longrightarrow> translate m w = Some (f + page_off w)" and v: "frame v = v"
  shows "present (pd_entry m (pdi v))" "addr_vir2phy v m = Inr f"
proof -
  have "same_page v v"
    by (simp add: same_page_def)
  then have tv: "translate m v = Some (f + page_off v)"
    using t by blast
  then show pr: "present (pd_entry m (pdi v))"
    by (auto simp: translate_def pde_addr_entry split: if_splits)
  have "page_off v = 0"
    using v frame_fields(3)[of v] by simp
  moreover have "frame (ram m (pte_addr m v)) + page_off v = f + page_off v"
    using tv by (auto simp: translate_def split: if_splits)
  ultimately show "addr_vir2phy v m = Inr f"
    using translate_pte_ptr[OF m pr] by (simp add: addr_vir2phy_def load_def frame_def)
qed

lemma aligned_next: "frame v = v \<Longrightarrow> frame (v + PG_SIZE) = v + PG_SIZE"
  unfolding aligned_iff by (simp add: PG_SIZE_def unat_word_ariths mod_mod_cancel)

lemma mfree_page_loop_spec:
  assumes "wf_pd (mm m)" and "pool_ok (kernel_pool m)" and "pools_ordered m" and "frame v = v"
    and "unat v + length fs * 4096 \<le> 2 ^ 32" and "maps_to (mm m) v fs" and "\<forall>f \<in> set fs. pool_frame (kernel_pool m) f"
    and "\<forall>w. in_pages v (length fs) w \<longrightarrow> pdi w \<noteq> 1023"
  shows "\<exists>m'. mfree_page_loop False (length fs) v m = Inr m' \<and> (\<exists>mm' kp'. m' = m\<lparr>mm := mm', kernel_pool := kp'\<rparr>) \<and>
    wf_pd (mm m') \<and> pool_ok (kernel_pool m') \<and>
    (\<forall>g. frame_free (kernel_pool m') g \<longleftrightarrow> frame_free (kernel_pool m) g \<or> g \<in> set fs) \<and>
    (\<forall>w. pdi w \<noteq> 1023 \<longrightarrow> translate (mm m') w = (if in_pages v (length fs) w then None else translate (mm m) w)) \<and>
    (\<forall>i. unat i < 1024 \<longrightarrow> pd_entry (mm m') i = pd_entry (mm m) i)"
  using assms
proof (induction fs arbitrary: v m)
  case Nil
  then show ?case
    using mem_same[of m] by auto
next
  case (Cons f fs)
  have f: "pool_frame (kernel_pool m) f" and t: "\<forall>w. same_page v w \<longrightarrow> translate (mm m) w = Some (f + page_off w)"
    using Cons.prems(6,7) by simp_all
  note ent = maps_to_entry[OF Cons.prems(1) t Cons.prems(4)]
  have v1023: "pdi v \<noteq> 1023"
    using Cons.prems(8) by (auto simp: same_page_def)
  obtain kp' where kp: "pfree f m = Inr (m\<lparr>kernel_pool := kp'\<rparr>)" "pool_ok kp'" "phy_addr_start kp' = phy_addr_start (kernel_pool m)"
    "bm_slots (pool_bitmap kp') = bm_slots (pool_bitmap (kernel_pool m))" "\<forall>g. frame_free kp' g \<longleftrightarrow> frame_free (kernel_pool m) g \<or> g = f"
    using pfree_kernel_ok[OF Cons.prems(2,3) f] by blast
  let ?e = "ram (mm m) (pte_addr (mm m) v) AND NOT PG_P_1"
  let ?mm = "set_pte v ?e (mm m)" and ?m = "m\<lparr>kernel_pool := kp', mm := set_pte v (ram (mm m) (pte_addr (mm m) v) AND NOT PG_P_1) (mm m)\<rparr>"
  note sp = set_pte_spec[OF Cons.prems(1) ent(1) v1023, where e = ?e]
  have step: "mfree_page_loop False (length (f # fs)) v m = mfree_page_loop False (length fs) (v + PG_SIZE) ?m"
    using ent pool_frame_range(6)[OF Cons.prems(2,3) f] kp(1) page_table_pte_remove_ok[OF Cons.prems(1) ent(1)] by simp
  have fr: "pool_frame kp' g = pool_frame (kernel_pool m) g" for g
    using kp(3,4) by (simp add: pool_frame_def frame_of_def)
  have ord: "pools_ordered ?m"
    using Cons.prems(3) kp(3,4) by (simp add: pools_ordered_def)
  have room: "length fs = 0 \<or> unat (v + PG_SIZE) + length fs * 4096 \<le> 2 ^ 32"
    using Cons.prems(5) unat_next_page[of v] by (cases "length fs") simp_all
  have later: "\<not> same_page v w" "pdi w \<noteq> 1023" if "in_pages (v + PG_SIZE) (length fs) w" for w
    using in_pages_not_first[of v "length fs" w] Cons.prems(5,8) that by auto
  have mp: "maps_to ?mm (v + PG_SIZE) fs"
    using Cons.prems(6) maps_to_keeps[of "v + PG_SIZE" fs ?mm "mm m"] sp(4) later by simp
  have keep: "translate ?mm w = (if same_page v w then None else translate (mm m) w)" if "pdi w \<noteq> 1023" for w
    using sp(4)[of w] sp(5)[of w] not_present_cleared that by auto
  show ?case
  proof (cases fs)
    case Nil
    then show ?thesis
      using step sp(1,2) kp mem_same[of ?m] keep by (intro exI[of _ ?m]) auto
  next
    case (Cons g gs)
    then have "unat (v + PG_SIZE) + length fs * 4096 \<le> 2 ^ 32"
      using room by simp
    then have "\<exists>m'. mfree_page_loop False (length fs) (v + PG_SIZE) ?m = Inr m' \<and>
        (\<exists>mm' kp'. m' = ?m\<lparr>mm := mm', kernel_pool := kp'\<rparr>) \<and> wf_pd (mm m') \<and> pool_ok (kernel_pool m') \<and>
        (\<forall>g. frame_free (kernel_pool m') g \<longleftrightarrow> frame_free (kernel_pool ?m) g \<or> g \<in> set fs) \<and>
        (\<forall>w. pdi w \<noteq> 1023 \<longrightarrow> translate (mm m') w = (if in_pages (v + PG_SIZE) (length fs) w then None else translate (mm ?m) w)) \<and>
        (\<forall>i. unat i < 1024 \<longrightarrow> pd_entry (mm m') i = pd_entry (mm ?m) i)"
      by (intro Cons.IH) (use sp(1) kp(2) ord aligned_next[OF Cons.prems(4)] mp fr Cons.prems(7) later in simp_all)
    moreover have mmq: "mm ?m = ?mm" "kernel_pool ?m = kp'"
      by simp_all
    ultimately obtain m' where m': "mfree_page_loop False (length fs) (v + PG_SIZE) ?m = Inr m'"
      "\<exists>mm' kp'. m' = ?m\<lparr>mm := mm', kernel_pool := kp'\<rparr>" "wf_pd (mm m')" "pool_ok (kernel_pool m')"
      "\<forall>g. frame_free (kernel_pool m') g \<longleftrightarrow> frame_free kp' g \<or> g \<in> set fs"
      "\<forall>w. pdi w \<noteq> 1023 \<longrightarrow> translate (mm m') w = (if in_pages (v + PG_SIZE) (length fs) w then None else translate ?mm w)"
      "\<forall>i. unat i < 1024 \<longrightarrow> pd_entry (mm m') i = pd_entry ?mm i"
      unfolding mmq by blast
    show ?thesis
      unfolding step using m' kp(5) keep sp(2) by (intro exI[of _ m']) auto
  qed
qed

lemma frame_free_pool: "frame_free p f \<Longrightarrow> pool_frame p f"
  by (auto simp: frame_free_def pool_frame_def)

lemma vaddr_remove_kernel_ok:
  assumes va: "vaddr_range_ok (kernel_vaddr m)" and i: "i + unat cnt \<le> bm_slots (vaddr_bitmap (kernel_vaddr m))"
  shows "\<exists>bm. vaddr_remove PF_KERNEL (vpage (kernel_vaddr m) i) cnt m = Inr (m\<lparr>kernel_vaddr := (kernel_vaddr m)\<lparr>vaddr_bitmap := bm\<rparr>\<rparr>) \<and>
    (\<forall>k. bm_used bm k = (bm_used (vaddr_bitmap (kernel_vaddr m)) k \<and> \<not> (i \<le> k \<and> k < i + unat cnt)))"
proof -
  let ?va = "kernel_vaddr m"
  have lt: "(i + unat cnt) * 4096 \<le> 0xffc00000"
    using va i by (auto simp: vaddr_range_ok_def)
  have "vpage ?va i - vaddr_start ?va = word_of_nat i * PG_SIZE"
    by (simp add: vpage_def)
  then have idx: "unat ((vpage ?va i - vaddr_start ?va) div PG_SIZE) = i"
    using unat_page_mult[of i] lt by (simp add: unat_div_distrib) (simp add: PG_SIZE_def)
  have "wf_bitmap (vaddr_bitmap ?va)"
    using va by (simp add: vaddr_range_ok_def)
  from bitmap_set_run_spec[OF this, of "(vpage ?va i - vaddr_start ?va) div PG_SIZE" cnt 0 0]
  obtain bm where "bitmap_set_run (vaddr_bitmap ?va) ((vpage ?va i - vaddr_start ?va) div PG_SIZE) 0 cnt 0 = Inr bm"
    "\<forall>k. bm_used bm k = (if i \<le> k \<and> k < i + unat cnt then (0 :: u8) = 1 else bm_used (vaddr_bitmap ?va) k)"
    using i lt by (auto simp: idx)
  then show ?thesis
    by (intro exI[of _ bm]) (auto simp: vaddr_remove_def)
qed

lemma mfree_page_kernel_spec:
  assumes k: "wf_pd (mm m)" "pool_ok (kernel_pool m)" "pools_ordered m" "vaddr_range_ok (kernel_vaddr m)"
    and v: "v = vpage (kernel_vaddr m) i" "i + unat cnt \<le> bm_slots (vaddr_bitmap (kernel_vaddr m))" "0 < cnt"
    and fs: "length fs = unat cnt" "maps_to (mm m) v fs" "\<forall>f \<in> set fs. pool_frame (kernel_pool m) f"
      "\<forall>w. in_pages v (unat cnt) w \<longrightarrow> pdi w \<noteq> 1023"
  shows "\<exists>m'. mfree_page PF_KERNEL v cnt m = Inr m' \<and>
    (\<forall>g. frame_free (kernel_pool m') g \<longleftrightarrow> frame_free (kernel_pool m) g \<or> g \<in> set fs) \<and>
    (\<forall>k. bm_used (vaddr_bitmap (kernel_vaddr m')) k =
      (bm_used (vaddr_bitmap (kernel_vaddr m)) k \<and> \<not> (i \<le> k \<and> k < i + unat cnt))) \<and>
    (\<forall>w. pdi w \<noteq> 1023 \<longrightarrow> translate (mm m') w = (if in_pages v (unat cnt) w then None else translate (mm m) w))"
proof -
  let ?n = "unat cnt"
  have run: "unat v + length fs * 4096 \<le> 2 ^ 32" "frame v = v"
    using vpage_run[OF k(4) v(2)] v(1) fs(1) by simp_all
  obtain m1 where m1: "mfree_page_loop False ?n v m = Inr m1" "\<exists>mm' kp'. m1 = m\<lparr>mm := mm', kernel_pool := kp'\<rparr>"
    "\<forall>g. frame_free (kernel_pool m1) g \<longleftrightarrow> frame_free (kernel_pool m) g \<or> g \<in> set fs"
    "\<forall>w. pdi w \<noteq> 1023 \<longrightarrow> translate (mm m1) w = (if in_pages v ?n w then None else translate (mm m) w)"
    using mfree_page_loop_spec[OF k(1-3) run(2,1) fs(2,3)] fs(1,4) by auto
  have kv: "kernel_vaddr m1 = kernel_vaddr m"
    using m1(2) by auto
  obtain f fs' where f: "fs = f # fs'"
    using fs(1) v(3) by (cases fs) (auto simp: word_less_nat_alt)
  have first: "addr_vir2phy v (mm m) = Inr f"
    using maps_to_entry(2)[OF k(1) _ run(2), of f] fs(2) f by simp
  have pf: "f mod PG_SIZE = 0" "f \<ge> 0x102000" "\<not> f \<ge> phy_addr_start (user_pool m)"
    using pool_frame_range[OF k(2,3), of f] fs(3) f by auto
  have al: "v mod PG_SIZE = 0"
    using run(2)[unfolded aligned_iff] by (simp add: word_unat_eq_iff unat_mod_distrib PG_SIZE_def)
  obtain bm where bm: "vaddr_remove PF_KERNEL v cnt m1 = Inr (m1\<lparr>kernel_vaddr := (kernel_vaddr m1)\<lparr>vaddr_bitmap := bm\<rparr>\<rparr>)"
    "\<forall>k. bm_used bm k = (bm_used (vaddr_bitmap (kernel_vaddr m1)) k \<and> \<not> (i \<le> k \<and> k < i + ?n))"
    using vaddr_remove_kernel_ok[of m1 i cnt] k(4) v(1,2) kv by auto
  have "1 \<le> cnt"
    using v(3) by (simp add: word_le_nat_alt word_less_nat_alt)
  then have "mfree_page PF_KERNEL v cnt m = Inr (m1\<lparr>kernel_vaddr := (kernel_vaddr m1)\<lparr>vaddr_bitmap := bm\<rparr>\<rparr>)"
    using first pf al m1(1) bm(1) by (simp add: mfree_page_def)
  then show ?thesis
    using m1(3,4) bm(2) kv by (intro exI[of _ "m1\<lparr>kernel_vaddr := (kernel_vaddr m1)\<lparr>vaddr_bitmap := bm\<rparr>\<rparr>"]) auto
qed

text \<open>The pages may be written to in between, which keeps the translation.\<close>

lemma malloc_write_mfree_undo:
  assumes ok: "kmem_ok m" "kheap_ok m" "pools_ordered m"
    and cnt: "0 < cnt" "cnt < 3840" "cnt \<le> bm_len (vaddr_bitmap (kernel_vaddr m))"
    and got: "malloc_page PF_KERNEL cnt m = Inr (v, m0)" "v \<noteq> NULL"
    and wr: "m1 = m0\<lparr>mm := mm1\<rparr>" "wf_pd mm1" "\<forall>w. translate mm1 w = translate (mm m0) w"
  shows "\<exists>m2. mfree_page PF_KERNEL v cnt m1 = Inr m2 \<and>
    (\<forall>g. frame_free (kernel_pool m2) g \<longleftrightarrow> frame_free (kernel_pool m) g) \<and>
    (\<forall>k. bm_used (vaddr_bitmap (kernel_vaddr m2)) k = bm_used (vaddr_bitmap (kernel_vaddr m)) k) \<and>
    (\<forall>w. pdi w \<noteq> 1023 \<longrightarrow> translate (mm m2) w = translate (mm m) w)"
proof -
  let ?n = "unat cnt"
  obtain fs i bm where
    a0: "kmem_ok m0" "kheap_ok m0" "frame v = v" "\<forall>w. in_pages v ?n w \<longrightarrow> translate (mm m) w = None"
    "length fs = ?n" "maps_to (mm m0) v fs" "\<forall>f \<in> set fs. frame_free (kernel_pool m) f"
    "\<forall>g. frame_free (kernel_pool m0) g \<longleftrightarrow> frame_free (kernel_pool m) g \<and> g \<notin> set fs"
    "\<forall>w. \<not> in_pages v ?n w \<longrightarrow> pdi w \<noteq> 1023 \<longrightarrow> translate (mm m0) w = translate (mm m) w"
    and b0: "v = vpage (kernel_vaddr m) i" "free_pages m i ?n" "kernel_vaddr m0 = (kernel_vaddr m)\<lparr>vaddr_bitmap := bm\<rparr>"
    "bm_slots bm = bm_slots (vaddr_bitmap (kernel_vaddr m))"
    "\<forall>k. bm_used bm k = (i \<le> k \<and> k < i + ?n \<or> bm_used (vaddr_bitmap (kernel_vaddr m)) k)"
    "user_pool m0 = user_pool m" "phy_addr_start (kernel_pool m0) = phy_addr_start (kernel_pool m)"
    "bm_slots (pool_bitmap (kernel_pool m0)) = bm_slots (pool_bitmap (kernel_pool m))"
    using malloc_page_kernel_spec[OF ok(1,2) cnt] got by auto
  have m1: "kernel_pool m1 = kernel_pool m0" "kernel_vaddr m1 = kernel_vaddr m0" "user_pool m1 = user_pool m0" "mm m1 = mm1"
    using wr(1) by simp_all
  note b = b0[folded m1(1-3)]
  have a: "maps_to (mm m1) v fs" "\<forall>g. frame_free (kernel_pool m1) g \<longleftrightarrow> frame_free (kernel_pool m) g \<and> g \<notin> set fs"
    "\<forall>w. \<not> in_pages v ?n w \<longrightarrow> pdi w \<noteq> 1023 \<longrightarrow> translate (mm m1) w = translate (mm m) w"
    using a0(6,8,9) maps_to_keeps[of v fs mm1 "mm m0"] wr(3) m1 by simp_all
  have va: "vaddr_range_ok (kernel_vaddr m)" "vaddr_range_ok (kernel_vaddr m1)"
    using ok(2) a0(2) m1(2) by (simp_all add: kheap_ok_def)
  have i: "i + ?n \<le> bm_slots (vaddr_bitmap (kernel_vaddr m))" "i + ?n \<le> bm_slots (vaddr_bitmap (kernel_vaddr m1))"
    using b by (simp_all add: free_pages_def)
  have v1: "v = vpage (kernel_vaddr m1) i"
    using b(1,3) by (simp add: vpage_def)
  have ord: "pools_ordered m1"
    using ok(3) b(6-8) by (simp add: pools_ordered_def)
  have fr: "\<forall>f \<in> set fs. pool_frame (kernel_pool m1) f"
    using a0(7) frame_free_pool b(7,8) by (auto simp: pool_frame_def frame_of_def dest: frame_free_pool)
  have k1: "wf_pd (mm m1)" "pool_ok (kernel_pool m1)"
    using a0(1) wr(2) m1 by (simp_all add: kmem_ok_def)
  have "\<forall>w. in_pages v ?n w \<longrightarrow> pdi w \<noteq> 1023"
    using free_pages_mappable[OF ok(2) b(2)] b(1) by (auto simp: mappable_def)
  from mfree_page_kernel_spec[OF k1 ord va(2) v1 i(2) cnt(1) a0(5) a(1) fr this] obtain m2 where m2:
    "mfree_page PF_KERNEL v cnt m1 = Inr m2"
    "\<forall>g. frame_free (kernel_pool m2) g \<longleftrightarrow> frame_free (kernel_pool m1) g \<or> g \<in> set fs"
    "\<forall>k. bm_used (vaddr_bitmap (kernel_vaddr m2)) k = (bm_used bm k \<and> \<not> (i \<le> k \<and> k < i + ?n))"
    "\<forall>w. pdi w \<noteq> 1023 \<longrightarrow> translate (mm m2) w = (if in_pages v ?n w then None else translate (mm m1) w)"
    using b(3) by auto
  have "\<not> bm_used (vaddr_bitmap (kernel_vaddr m)) k" if "i \<le> k" "k < i + ?n" for k
    using b(2) that by (auto simp: free_pages_def le_iff_add)
  then show ?thesis
    using m2 a0(4,7) a(2,3) b(5) by (intro exI[of _ m2]) auto
qed

lemma malloc_mfree_undo:
  assumes "kmem_ok m" "kheap_ok m" "pools_ordered m"
    and "0 < cnt" "cnt < 3840" "cnt \<le> bm_len (vaddr_bitmap (kernel_vaddr m))"
    and "malloc_page PF_KERNEL cnt m = Inr (v, m1)" "v \<noteq> NULL"
  shows "\<exists>m2. mfree_page PF_KERNEL v cnt m1 = Inr m2 \<and>
    (\<forall>g. frame_free (kernel_pool m2) g \<longleftrightarrow> frame_free (kernel_pool m) g) \<and>
    (\<forall>k. bm_used (vaddr_bitmap (kernel_vaddr m2)) k = bm_used (vaddr_bitmap (kernel_vaddr m)) k) \<and>
    (\<forall>w. pdi w \<noteq> 1023 \<longrightarrow> translate (mm m2) w = translate (mm m) w)"
proof -
  have "kmem_ok m1"
    using malloc_page_kernel_spec[OF assms(1,2,4-6)] assms(7) by auto
  then show ?thesis
    using malloc_write_mfree_undo[OF assms, of m1 "mm m1"] by (simp add: kmem_ok_def)
qed

lemma mem0_malloc_mfree:
  "\<exists>m1 m2. malloc_page PF_KERNEL 1 mem0 = Inr (0x1000, m1) \<and> mfree_page PF_KERNEL 0x1000 1 m1 = Inr m2"
proof -
  obtain m1 where m1: "malloc_page PF_KERNEL 1 mem0 = Inr (0x1000, m1)"
    using mem0_malloc by blast
  have "pools_ordered mem0" "(1 :: u32) \<le> bm_len (vaddr_bitmap (kernel_vaddr mem0))"
    by (simp_all add: pools_ordered_def mem0_def bm_slots_def)
  then show ?thesis
    using malloc_mfree_undo[OF mem0_kmem mem0_kheap _ _ _ _ m1] m1 by (auto simp: NULL_def)
qed

text \<open>
  C5. Freeing undoes allocating: \<^verbatim>\<open>mfree_page\<close> of a run that \<^verbatim>\<open>malloc_page\<close> returned passes every assertion, gives
  exactly its frames back to the pool, clears exactly its bits in the bitmap of virtual pages, and leaves
  every address (outside of the window of the page tables) translating as it did before the allocation.
\<close>

theorem malloc_mfree_roundtrip:
  assumes ok: "kmem_ok m" "kheap_ok m" "pools_ordered m"
    and cnt: "0 < cnt" "cnt < 3840" "cnt \<le> bm_len (vaddr_bitmap (kernel_vaddr m))"
    and got: "malloc_page PF_KERNEL cnt m = Inr (v, m1)" "v \<noteq> NULL"
  shows "\<exists>m2. mfree_page PF_KERNEL v cnt m1 = Inr m2 \<and>
    (\<forall>g. frame_free (kernel_pool m2) g \<longleftrightarrow> frame_free (kernel_pool m) g) \<and>
    (\<forall>k. bm_used (vaddr_bitmap (kernel_vaddr m2)) k = bm_used (vaddr_bitmap (kernel_vaddr m)) k) \<and>
    (\<forall>w. pdi w \<noteq> 1023 \<longrightarrow> translate (mm m2) w = translate (mm m) w)"
  using assms by (rule malloc_mfree_undo)

theorem malloc_mfree_roundtrip_witness:
  "\<exists>m1 m2. malloc_page PF_KERNEL 1 mem0 = Inr (0x1000, m1) \<and> mfree_page PF_KERNEL 0x1000 1 m1 = Inr m2 \<and>
    (\<forall>g. frame_free (kernel_pool m2) g \<longleftrightarrow> frame_free (kernel_pool mem0) g)"
proof -
  obtain m1 where m1: "malloc_page PF_KERNEL 1 mem0 = Inr (0x1000, m1)"
    using mem0_malloc by blast
  have "pools_ordered mem0" "(1 :: u32) \<le> bm_len (vaddr_bitmap (kernel_vaddr mem0))"
    by (simp_all add: pools_ordered_def mem0_def bm_slots_def)
  then show ?thesis
    using malloc_mfree_roundtrip[OF mem0_kmem mem0_kheap _ _ _ _ m1] m1 by (auto simp: NULL_def)
qed

end
