(* ===== verification/Pages.thy ===== *)
theory Pages
  imports Memory
begin

text \<open>
  Single pages as the heap uses them: the interface \<open>page_pool\<close> says what a client may rely on when it takes and
  gives back pages of a pool with \<^verbatim>\<open>malloc_page\<close> and \<^verbatim>\<open>mfree_page\<close> and writes to them. Its laws are proved here for the kernel's pool:
  the pages handed out are marked in the bitmap and mapped to different frames of the pool, which hold no page table.
\<close>

subsection \<open>The interface\<close>

text \<open>\<open>pages P m\<close>: the pages of \<open>P\<close> belong to the client.\<close>

locale page_pool =
  fixes pf :: pool_flag and pages :: "u32 set \<Rightarrow> mem \<Rightarrow> bool"
  assumes page_aligned: "pages P m \<Longrightarrow> a \<in> P \<Longrightarrow> frame a = a \<and> a \<noteq> NULL"
    and page_heap: "pages P m \<Longrightarrow> a \<in> P \<Longrightarrow> pf = PF_KERNEL \<Longrightarrow> KERNEL_HEAP_START \<le> a"
    and page_mapped: "pages P m \<Longrightarrow> a \<in> P \<Longrightarrow> \<exists>p. translate (mm m) a = Some p"
    and alloc_page: "pages P m \<Longrightarrow> \<exists>v m'. malloc_page pf 1 m = Inr (v, m') \<and>
      (\<forall>a \<in> P. \<forall>w. same_page a w \<longrightarrow> load w (mm m') = load w (mm m)) \<and>
      now_pg_dir m' = now_pg_dir m \<and> (if v = NULL then pages P m' else v \<notin> P \<and> pages (insert v P) m')"
    and release_page: "pages P m \<Longrightarrow> a \<in> P \<Longrightarrow> \<exists>m'. mfree_page pf a 1 m = Inr m' \<and> pages (P - {a}) m' \<and> now_pg_dir m' = now_pg_dir m \<and>
      (\<forall>b \<in> P - {a}. \<forall>w. same_page b w \<longrightarrow> load w (mm m') = load w (mm m))"
    and store_page: "pages P m \<Longrightarrow> a \<in> P \<Longrightarrow> same_page a w \<Longrightarrow> \<exists>mm'. store w x (mm m) = Inr mm' \<and> pages P (m\<lparr>mm := mm'\<rparr>) \<and>
      (\<forall>b \<in> P. \<forall>u. same_page b u \<longrightarrow> load u mm' = (if u = w then Inr x else load u (mm m)))"
    and clear_one: "pages P m \<Longrightarrow> a \<in> P \<Longrightarrow> \<exists>mm'. clear_page a (mm m) = Inr mm' \<and> pages P (m\<lparr>mm := mm'\<rparr>) \<and>
      (\<forall>b \<in> P. \<forall>u. same_page b u \<longrightarrow> load u mm' = (if b = a then Inr 0 else load u (mm m)))"
    and lock_irrelevant: "pages P (set_pool pf ((pool_of pf m)\<lparr>pool_lock := l\<rparr>) m) = pages P m"

subsection \<open>Pages of the kernel\<close>

definition mapped_page :: "pmem \<Rightarrow> u32 \<Rightarrow> u32 \<Rightarrow> bool" where
  "mapped_page m a f \<longleftrightarrow> (\<forall>w. same_page a w \<longrightarrow> translate m w = Some (f + page_off w))"

definition kpage :: "mem \<Rightarrow> u32 \<Rightarrow> u32 \<Rightarrow> bool" where
  "kpage m a f \<longleftrightarrow> (\<exists>i < bm_slots (vaddr_bitmap (kernel_vaddr m)). a = vpage (kernel_vaddr m) i \<and> bm_used (vaddr_bitmap (kernel_vaddr m)) i) \<and>
     mapped_page (mm m) a f \<and> pool_frame (kernel_pool m) f \<and> \<not> frame_free (kernel_pool m) f \<and> unused_frame f (mm m)"

definition kernel_pages :: "u32 set \<Rightarrow> mem \<Rightarrow> bool" where
  "kernel_pages P m \<longleftrightarrow> kmem_ok m \<and> kheap_ok m \<and> pools_ordered m \<and> 1 \<le> bm_len (vaddr_bitmap (kernel_vaddr m)) \<and>
     KERNEL_HEAP_START \<le> vaddr_start (kernel_vaddr m) \<and> (\<forall>a \<in> P. \<exists>f. kpage m a f) \<and> (\<forall>a \<in> P. \<forall>b \<in> P. \<forall>f. kpage m a f \<longrightarrow> kpage m b f \<longrightarrow> a = b)"

lemma same_page_refl [simp]: "same_page a a"
  by (simp add: same_page_def)

lemma mapped_page_unique: "mapped_page m a f \<Longrightarrow> mapped_page m a g \<Longrightarrow> f = g"
  by (auto simp: mapped_page_def dest!: spec[of _ a])

lemma kernel_pages_page:
  assumes "kernel_pages P m" and "a \<in> P"
  shows "frame a = a" "a \<noteq> NULL" "\<exists>f. kpage m a f"
proof -
  obtain f where f: "kpage m a f"
    using assms by (auto simp: kernel_pages_def)
  then obtain i where i: "i < bm_slots (vaddr_bitmap (kernel_vaddr m))" "a = vpage (kernel_vaddr m) i"
    by (auto simp: kpage_def)
  have "vaddr_range_ok (kernel_vaddr m)"
    using assms(1) by (simp add: kernel_pages_def kheap_ok_def)
  from vpage_run[OF this, of i 0] i show "frame a = a" "a \<noteq> NULL" "\<exists>f. kpage m a f"
    using f by auto
qed

text \<open>Changes of the memory that touch no table keep everything.\<close>

lemma kernel_pages_write:
  assumes k: "kernel_pages P m" and f: "unused_frame f (mm m)"
    and d: "cr3_reg mm' = cr3_reg (mm m)" "\<forall>a. frame a \<noteq> f \<longrightarrow> ram mm' a = ram (mm m) a"
  shows "kernel_pages P (m\<lparr>mm := mm'\<rparr>)" "\<And>w. translate mm' w = translate (mm m) w" "\<And>a g. kpage (m\<lparr>mm := mm'\<rparr>) a g = kpage m a g"
proof -
  have wf: "wf_pd (mm m)"
    using k by (simp add: kernel_pages_def kmem_ok_def)
  note u = differ_in_unused[OF wf f d]
  show t: "translate mm' w = translate (mm m) w" for w
    by (rule u(4))
  have un: "unused_frame g mm' = unused_frame g (mm m)" for g
    using unused_frame_pd[OF u(1)] by simp
  show kp: "kpage (m\<lparr>mm := mm'\<rparr>) a g = kpage m a g" for a g
    by (simp add: kpage_def mapped_page_def t un)
  have "kmem_ok (m\<lparr>mm := mm'\<rparr>)"
    using k u(2) un by (simp add: kernel_pages_def kmem_ok_def)
  moreover have "kheap_ok (m\<lparr>mm := mm'\<rparr>)"
    using k u(1)[OF pdi_lt] t by (simp add: kernel_pages_def kheap_ok_def)
  ultimately show "kernel_pages P (m\<lparr>mm := mm'\<rparr>)"
    using k by (simp add: kernel_pages_def kp pools_ordered_def)
qed

lemma page_off_parts: "frame f = f \<Longrightarrow> frame (f + page_off w) = f" "frame f = f \<Longrightarrow> f + page_off w = f + page_off u \<longleftrightarrow> page_off w = page_off u"
proof -
  assume f: "frame f = f"
  have "unat f mod 4096 = 0" "unat f \<le> 4294963200"
    using f unat_u32_lt[of f] by (auto simp: aligned_iff)
  then have "unat (f + page_off w) = unat f + unat w mod 4096"
    using unat_off[of w] by (subst unat_add_lt) auto
  then have "unat (frame (f + page_off w)) = unat f"
    using \<open>unat f mod 4096 = 0\<close> unfolding unat_frame by auto
  then show "frame (f + page_off w) = f"
    by (simp add: word_unat_eq_iff)
qed simp

lemma kernel_pages_store:
  assumes k: "kernel_pages P m" and a: "a \<in> P" "same_page a w"
  shows "\<exists>mm'. store w x (mm m) = Inr mm' \<and> kernel_pages P (m\<lparr>mm := mm'\<rparr>) \<and>
    (\<forall>b \<in> P. \<forall>u. same_page b u \<longrightarrow> load u mm' = (if u = w then Inr x else load u (mm m)))"
proof -
  obtain f where f: "kpage m a f"
    using kernel_pages_page[OF k a(1)] by blast
  have fp: "unused_frame f (mm m)" "frame f = f" "translate (mm m) w = Some (f + page_off w)"
    using f a(2) by (auto simp: kpage_def unused_frame_def mapped_page_def)
  let ?mm = "(mm m)\<lparr>ram := (ram (mm m))(f + page_off w := x)\<rparr>"
  have d: "cr3_reg ?mm = cr3_reg (mm m)" "\<forall>a. frame a \<noteq> f \<longrightarrow> ram ?mm a = ram (mm m) a"
    using page_off_parts(1)[OF fp(2)] by auto
  note kw = kernel_pages_write[OF k fp(1) d]
  have "load u ?mm = (if u = w then Inr x else load u (mm m))" if b: "b \<in> P" "same_page b u" for b u
  proof (cases "u = w")
    case False
    obtain g where g: "kpage m b g"
      using kernel_pages_page[OF k b(1)] by blast
    have gp: "frame g = g" "translate (mm m) u = Some (g + page_off u)"
      using g b(2) by (auto simp: kpage_def unused_frame_def mapped_page_def)
    have "g + page_off u \<noteq> f + page_off w"
    proof
      assume e: "g + page_off u = f + page_off w"
      then have "g = f"
        using page_off_parts(1)[OF gp(1), of u] page_off_parts(1)[OF fp(2), of w] by simp
      then have "b = a" "page_off u = page_off w"
        using e k f g a(1) b(1) by (auto simp: kernel_pages_def)
      then have "same_page u w"
        using a(2) b(2) by (simp add: same_page_def)
      then have "frame u = frame w"
        by (simp add: word_unat_eq_iff unat_frame same_page_unat)
      then show False
        using False frame_off[of u] frame_off[of w] \<open>page_off u = page_off w\<close> by simp
    qed
    then show ?thesis
      using False kw(2) gp(2) by (simp add: load_def)
  qed (use kw(2) fp(3) in \<open>simp add: load_def\<close>)
  then show ?thesis
    using fp(3) kw(1) by (intro exI[of _ ?mm]) (simp add: store_def)
qed

lemma kernel_pages_clear:
  assumes k: "kernel_pages P m" and a: "a \<in> P"
  shows "\<exists>mm'. clear_page a (mm m) = Inr mm' \<and> kernel_pages P (m\<lparr>mm := mm'\<rparr>) \<and>
    (\<forall>b \<in> P. \<forall>u. same_page b u \<longrightarrow> load u mm' = (if b = a then Inr 0 else load u (mm m)))"
proof -
  obtain f where f: "kpage m a f"
    using kernel_pages_page[OF k a(1)] by blast
  have fp: "unused_frame f (mm m)" "frame f = f" "translate (mm m) a = Some (f + page_off a)"
    using f by (auto simp: kpage_def unused_frame_def mapped_page_def)
  let ?mm = "(mm m)\<lparr>ram := (\<lambda>x. if frame x = f then 0 else ram (mm m) x)\<rparr>"
  have d: "cr3_reg ?mm = cr3_reg (mm m)" "\<forall>a. frame a \<noteq> f \<longrightarrow> ram ?mm a = ram (mm m) a"
    by auto
  note kw = kernel_pages_write[OF k fp(1) d]
  have "load u ?mm = (if b = a then Inr 0 else load u (mm m))" if b: "b \<in> P" "same_page b u" for b u
  proof -
    obtain g where g: "kpage m b g"
      using kernel_pages_page[OF k b(1)] by blast
    have gp: "frame g = g" "translate (mm m) u = Some (g + page_off u)"
      using g b(2) by (auto simp: kpage_def unused_frame_def mapped_page_def)
    have "g = f \<longleftrightarrow> b = a"
      using k f g a b(1) mapped_page_unique[of "mm m" a f g] by (auto simp: kernel_pages_def kpage_def)
    then show ?thesis
      using kw(2) gp page_off_parts(1)[OF gp(1), of u] by (simp add: load_def)
  qed
  then show ?thesis
    using fp(3) kw(1) page_off_parts(1)[OF fp(2), of a] by (intro exI[of _ ?mm]) (simp add: clear_page_def)
qed

lemma malloc_one_cases:
  assumes ok: "kmem_ok m" "kheap_ok m" and len: "1 \<le> bm_len (vaddr_bitmap (kernel_vaddr m))"
  obtains (full) "malloc_page PF_KERNEL 1 m = Inr (NULL, m)"
  | (claimed) i bm where "i < bm_slots (vaddr_bitmap (kernel_vaddr m))" "\<not> bm_used (vaddr_bitmap (kernel_vaddr m)) i"
      "vaddr_range_ok ((kernel_vaddr m)\<lparr>vaddr_bitmap := bm\<rparr>)" "bm_slots bm = bm_slots (vaddr_bitmap (kernel_vaddr m))"
      "\<And>k. bm_used bm k = (k = i \<or> bm_used (vaddr_bitmap (kernel_vaddr m)) k)"
      "malloc_page PF_KERNEL 1 m = Inr (NULL, m\<lparr>kernel_vaddr := (kernel_vaddr m)\<lparr>vaddr_bitmap := bm\<rparr>\<rparr>)"
  | (got) i bm f p where "i < bm_slots (vaddr_bitmap (kernel_vaddr m))" "\<not> bm_used (vaddr_bitmap (kernel_vaddr m)) i"
      "vaddr_range_ok ((kernel_vaddr m)\<lparr>vaddr_bitmap := bm\<rparr>)" "bm_slots bm = bm_slots (vaddr_bitmap (kernel_vaddr m))"
      "\<And>k. bm_used bm k = (k = i \<or> bm_used (vaddr_bitmap (kernel_vaddr m)) k)"
      "frame_free (kernel_pool m) f" "pool_ok p" "phy_addr_start p = phy_addr_start (kernel_pool m)"
      "bm_slots (pool_bitmap p) = bm_slots (pool_bitmap (kernel_pool m))" "\<And>g. frame_free p g \<longleftrightarrow> frame_free (kernel_pool m) g \<and> g \<noteq> f"
      "malloc_page PF_KERNEL 1 m = Inr (vpage (kernel_vaddr m) i, m\<lparr>kernel_vaddr := (kernel_vaddr m)\<lparr>vaddr_bitmap := bm\<rparr>, kernel_pool := p,
        mm := set_pte (vpage (kernel_vaddr m) i) (f OR PG_US_U OR PG_RW_W OR PG_P_1) (mm m)\<rparr>)"
proof -
  let ?va = "kernel_vaddr m"
  have va: "vaddr_range_ok ?va" and pl: "pool_ok (kernel_pool m)" and wf: "wf_pd (mm m)"
    using ok by (simp_all add: kheap_ok_def kmem_ok_def)
  consider (none) "vaddr_claim ?va 1 = Inr None"
    | (some) i bm where "vaddr_claim ?va 1 = Inr (Some (vpage ?va i, ?va\<lparr>vaddr_bitmap := bm\<rparr>))"
      "i < bm_slots (vaddr_bitmap ?va)" "\<not> bm_used (vaddr_bitmap ?va) i"
      "vaddr_range_ok (?va\<lparr>vaddr_bitmap := bm\<rparr>)" "bm_slots bm = bm_slots (vaddr_bitmap ?va)"
      "\<And>k. bm_used bm k = (k = i \<or> bm_used (vaddr_bitmap ?va) k)"
  proof -
    have one: "(i \<le> k \<and> k < i + unat (1 :: u32)) = (k = i)" for i k :: nat
      by auto
    show thesis
      using vaddr_claim_spec[OF va, of 1, unfolded one] len that by (fastforce simp: Suc_le_eq)
  qed
  then show ?thesis
  proof cases
    case none
    then show ?thesis
      by (intro full) (simp add: malloc_page_def vaddr_get_def)
  next
    case some
    let ?v = "vpage ?va i" and ?m1 = "m\<lparr>kernel_vaddr := ?va\<lparr>vaddr_bitmap := bm\<rparr>\<rparr>"
    have run: "?v \<noteq> NULL"
      using vpage_run(2)[OF va, of i 0] some(2) by simp
    note old = kheap_okD[OF ok(2) some(2), of ?v, simplified]
    consider (none) "palloc (kernel_pool m) = Inr (NULL, kernel_pool m)"
      | (some) f p where "palloc (kernel_pool m) = Inr (f, p)" "f \<noteq> NULL" "frame_free (kernel_pool m) f" "pool_ok p"
        "phy_addr_start p = phy_addr_start (kernel_pool m)" "bm_slots (pool_bitmap p) = bm_slots (pool_bitmap (kernel_pool m))"
        "\<And>g. frame_free p g \<longleftrightarrow> frame_free (kernel_pool m) g \<and> g \<noteq> f"
      using palloc_spec[OF pl] by blast
    then show ?thesis
    proof cases
      case none
      then show ?thesis
        using some run by (intro claimed[of i bm]) (simp_all add: malloc_page_def vaddr_get_def set_pool_def)
    next
      case got: (some f p)
      have "page_table_add ?v f (?m1\<lparr>kernel_pool := p\<rparr>) = Inr (?m1\<lparr>kernel_pool := p, mm := set_pte ?v (f OR PG_US_U OR PG_RW_W OR PG_P_1) (mm m)\<rparr>)"
        using page_table_add_ok[of "?m1\<lparr>kernel_pool := p\<rparr>" ?v f] wf old(1) old(2)[OF some(3)] by simp
      then show ?thesis
        using some got run by (intro that(3)[of i bm f p]) (simp_all add: malloc_page_def vaddr_get_def set_pool_def)
    qed
  qed
qed

lemma kernel_pagesI:
  assumes "kmem_ok m" "kheap_ok m" "pools_ordered m" "1 \<le> bm_len (vaddr_bitmap (kernel_vaddr m))"
    "KERNEL_HEAP_START \<le> vaddr_start (kernel_vaddr m)" and "\<And>a. a \<in> P \<Longrightarrow> kpage m a (fr a)" and "inj_on fr P"
  shows "kernel_pages P m"
proof -
  have "g = fr a" if "a \<in> P" "kpage m a g" for a g
    using assms(6)[OF that(1)] that(2) mapped_page_unique[of "mm m" a] by (auto simp: kpage_def)
  then show ?thesis
    using assms unfolding kernel_pages_def inj_on_def by blast
qed

lemma kernel_pagesE:
  assumes "kernel_pages P m"
  obtains fr where "\<And>a. a \<in> P \<Longrightarrow> kpage m a (fr a)" and "inj_on fr P"
proof -
  from assms have "\<forall>a \<in> P. kpage m a (SOME f. kpage m a f)"
    by (auto simp: kernel_pages_def intro: someI)
  then show ?thesis
    using assms that[of "\<lambda>a. SOME f. kpage m a f"] unfolding inj_on_def kernel_pages_def by metis
qed

lemma bm_slots_len: "bm_slots bm = bm_slots bm' \<Longrightarrow> bm_len bm = bm_len bm'"
  by (simp add: bm_slots_def word_unat_eq_iff)

text \<open>A page of the heap's range that is marked stays a page with the same frame when an unmarked one is mapped.\<close>

lemma kpage_old:
  assumes k: "kmem_ok m" "kheap_ok m" and a: "kpage m a g" and i: "i < bm_slots (vaddr_bitmap (kernel_vaddr m))" "\<not> bm_used (vaddr_bitmap (kernel_vaddr m)) i"
    and w: "same_page a w"
  shows "\<not> same_page (vpage (kernel_vaddr m) i) w" "pdi w \<noteq> 1023"
proof -
  have va: "vaddr_range_ok (kernel_vaddr m)"
    using k(2) by (simp add: kheap_ok_def)
  obtain j where j: "j < bm_slots (vaddr_bitmap (kernel_vaddr m))" "a = vpage (kernel_vaddr m) j" "bm_used (vaddr_bitmap (kernel_vaddr m)) j"
    using a by (auto simp: kpage_def)
  show "\<not> same_page (vpage (kernel_vaddr m) i) w"
    using vpage_distinct[OF va, of i j w] i j w by auto
  show "pdi w \<noteq> 1023"
    using vpage_pdi[OF va j(1)] j(2) w by simp
qed

lemma set_pte_ram:
  assumes "wf_pd m" "present (pd_entry m (pdi v))" "unused_frame (frame x) m"
  shows "ram (set_pte v e m) x = ram m x"
proof -
  have "frame (pte_addr m v) = frame (pd_entry m (pdi v))"
    using entry_addr(2)[OF pti_lt] by (simp add: pte_addr_def pde_addr_entry)
  moreover have "frame (pd_entry m (pdi v)) \<noteq> frame x"
    using assms(2,3) pdi_lt[of v] unfolding unused_frame_def unat_1024 by auto
  ultimately show ?thesis
    by (auto simp: set_pte_def)
qed

lemma kheap_ok_claim_one:
  assumes heap: "kheap_ok m" and i: "i < bm_slots (vaddr_bitmap (kernel_vaddr m))"
    and kv: "kernel_vaddr m' = (kernel_vaddr m)\<lparr>vaddr_bitmap := bm\<rparr>" "vaddr_range_ok ((kernel_vaddr m)\<lparr>vaddr_bitmap := bm\<rparr>)"
      "bm_slots bm = bm_slots (vaddr_bitmap (kernel_vaddr m))"
    and used: "\<And>k. bm_used bm k = (k = i \<or> bm_used (vaddr_bitmap (kernel_vaddr m)) k)"
    and pd: "\<And>i. unat i < 1024 \<Longrightarrow> pd_entry (mm m') i = pd_entry (mm m) i"
    and tr: "\<And>w. \<not> same_page (vpage (kernel_vaddr m) i) w \<Longrightarrow> pdi w \<noteq> 1023 \<Longrightarrow> translate (mm m') w = translate (mm m) w"
  shows "kheap_ok m'"
proof (rule kheap_ok_claimed[OF heap _ kv(1) _ kv(3) _ pd tr, of i 1])
  show "bm_used bm k = (i \<le> k \<and> k < i + 1 \<or> bm_used (vaddr_bitmap (kernel_vaddr m)) k)" for k
    using used[of k] by (cases "k = i") auto
qed (use i kv in simp_all)

lemma kernel_pages_alloc:
  assumes k: "kernel_pages P m"
  shows "\<exists>v m'. malloc_page PF_KERNEL 1 m = Inr (v, m') \<and> (\<forall>a \<in> P. \<forall>w. same_page a w \<longrightarrow> load w (mm m') = load w (mm m)) \<and>
    now_pg_dir m' = now_pg_dir m \<and> (if v = NULL then kernel_pages P m' else v \<notin> P \<and> kernel_pages (insert v P) m')"
proof -
  have ok: "kmem_ok m" "kheap_ok m" "pools_ordered m" and len: "1 \<le> bm_len (vaddr_bitmap (kernel_vaddr m))" "KERNEL_HEAP_START \<le> vaddr_start (kernel_vaddr m)"
    using k by (simp_all add: kernel_pages_def)
  obtain fr where fr: "\<And>a. a \<in> P \<Longrightarrow> kpage m a (fr a)" "inj_on fr P"
    using kernel_pagesE[OF k] by blast
  have pd: "present (pd_entry (mm m) (pdi (vpage (kernel_vaddr m) i)))" if "i < bm_slots (vaddr_bitmap (kernel_vaddr m))" for i
    using kheap_okD(1)[OF ok(2) that] by simp
  show ?thesis
  proof (cases rule: malloc_one_cases[OF ok(1,2) len(1)])
    case 1
    then show ?thesis
      using k by simp
  next
    case (2 i bm)
    let ?m = "m\<lparr>kernel_vaddr := (kernel_vaddr m)\<lparr>vaddr_bitmap := bm\<rparr>\<rparr>"
    have "kheap_ok ?m"
      by (rule kheap_ok_claim_one[OF ok(2) 2(1) _ 2(3,4,5)]) simp_all
    moreover have "kpage ?m a (fr a)" if "a \<in> P" for a
      using fr(1)[OF that] 2(4,5) by (auto simp: kpage_def vpage_def)
    ultimately have "kernel_pages P ?m"
      using ok len 2(4) fr(2) bm_slots_len[OF 2(4)] by (intro kernel_pagesI[of _ _ fr]) (auto simp: kmem_ok_def pools_ordered_def)
    then show ?thesis
      using 2(6) by simp
  next
    case (3 i bm f p)
    let ?v = "vpage (kernel_vaddr m) i" and ?e = "f OR PG_US_U OR PG_RW_W OR PG_P_1"
    let ?m = "m\<lparr>kernel_vaddr := (kernel_vaddr m)\<lparr>vaddr_bitmap := bm\<rparr>, kernel_pool := p, mm := set_pte ?v ?e (mm m)\<rparr>"
    have wf: "wf_pd (mm m)" and f: "unused_frame f (mm m)" "frame f = f"
      using ok(1) 3(6) by (auto simp: kmem_ok_def unused_frame_def)
    have va: "vaddr_range_ok (kernel_vaddr m)"
      using ok(2) by (simp add: kheap_ok_def)
    have v: "pdi ?v \<noteq> 1023" "?v \<noteq> NULL"
      using vpage_pdi[OF va 3(1)] vpage_run(2)[OF va, of i 0] 3(1) by simp_all
    note sp = set_pte_spec[OF wf pd[OF 3(1)] v(1), where e = ?e]
    have e: "present ?e" "frame ?e = f"
      using present_entry[of f] f(2) by simp_all
    have un: "unused_frame g (set_pte ?v ?e (mm m)) = unused_frame g (mm m)" for g
      using unused_frame_pd[OF sp(2)] by simp
    have km: "kmem_ok ?m"
      using ok(1) sp(1) 3(7,10) un by (auto simp: kmem_ok_def)
    have kh: "kheap_ok ?m"
      by (rule kheap_ok_claim_one[OF ok(2) 3(1) _ 3(3,4,5)]) (use sp(2,4) in simp_all)
    have old: "translate (mm ?m) w = translate (mm m) w" if "a \<in> P" "same_page a w" for a w
      using kpage_old[OF ok(1,2) fr(1)[OF that(1)] 3(1,2) that(2)] sp(4) by simp
    have pf: "pool_frame p g = pool_frame (kernel_pool m) g" for g
      using 3(8,9) by (simp add: pool_frame_def frame_of_def)
    have kold: "kpage ?m a (fr a)" if "a \<in> P" for a
      using fr(1)[OF that] 3(4,5,10) old[OF that] un pf by (auto simp: kpage_def vpage_def mapped_page_def)
    have "mapped_page (mm ?m) ?v f"
      using sp(5) e by (simp add: mapped_page_def)
    then have knew: "kpage ?m ?v f"
      using 3(1,4,5,6,10) f un pf frame_free_pool by (auto simp: kpage_def vpage_def)
    have nin: "?v \<notin> P"
      using kpage_old(1)[OF ok(1,2) fr(1) 3(1,2), of ?v ?v] by auto
    have "fr a \<noteq> f" if "a \<in> P" for a
      using fr(1)[OF that] 3(6) by (auto simp: kpage_def)
    then have "kernel_pages (insert ?v P) ?m"
      using km kh ok(3) len kold knew fr(2) nin bm_slots_len[OF 3(4)] 3(8,9)
      by (intro kernel_pagesI[of _ _ "fr(?v := f)"]) (auto simp: pools_ordered_def inj_on_def)
    moreover have "load w (mm ?m) = load w (mm m)" if "a \<in> P" "same_page a w" for a w
    proof -
      have g: "unused_frame (fr a) (mm m)" "frame (fr a) = fr a" "translate (mm m) w = Some (fr a + page_off w)"
        using fr(1)[OF that(1)] that(2) by (auto simp: kpage_def unused_frame_def mapped_page_def)
      have "ram (mm ?m) (fr a + page_off w) = ram (mm m) (fr a + page_off w)"
        using set_pte_ram[OF wf pd[OF 3(1)], of "fr a + page_off w"] page_off_parts(1)[OF g(2), of w] g(1) by simp
      then show ?thesis
        using old[OF that] g(3) by (simp add: load_def)
    qed
    ultimately show ?thesis
      using 3(11) v(2) nin by simp
  qed
qed

lemma mfree_one:
  assumes k: "kmem_ok m" "pools_ordered m" "vaddr_range_ok (kernel_vaddr m)"
    and a: "i < bm_slots (vaddr_bitmap (kernel_vaddr m))" "a = vpage (kernel_vaddr m) i" "mapped_page (mm m) a f" "pool_frame (kernel_pool m) f"
  obtains e kp bm where "mfree_page PF_KERNEL a 1 m = Inr (m\<lparr>kernel_pool := kp, mm := set_pte a e (mm m), kernel_vaddr := (kernel_vaddr m)\<lparr>vaddr_bitmap := bm\<rparr>\<rparr>)"
    "\<not> present e" "pool_ok kp" "phy_addr_start kp = phy_addr_start (kernel_pool m)"
    "bm_slots (pool_bitmap kp) = bm_slots (pool_bitmap (kernel_pool m))" "\<forall>g. frame_free kp g \<longleftrightarrow> frame_free (kernel_pool m) g \<or> g = f"
    "wf_bitmap bm" "bm_slots bm = bm_slots (vaddr_bitmap (kernel_vaddr m))" "\<forall>k. bm_used bm k = (bm_used (vaddr_bitmap (kernel_vaddr m)) k \<and> k \<noteq> i)"
    "present (pd_entry (mm m) (pdi a))" "pdi a \<noteq> 1023"
proof -
  have wf: "wf_pd (mm m)" and pl: "pool_ok (kernel_pool m)"
    using k(1) by (simp_all add: kmem_ok_def)
  have al: "frame a = a"
    using vpage_run(3)[OF k(3), of i 0] a(1,2) by simp
  have v1023: "pdi a \<noteq> 1023"
    using vpage_pdi[OF k(3) a(1), of a] a(2) by simp
  have md: "a mod PG_SIZE = 0"
    using al[unfolded aligned_iff] by (simp add: word_unat_eq_iff unat_mod_distrib PG_SIZE_def)
  note ent = maps_to_entry[OF wf a(3)[unfolded mapped_page_def] al]
  note fr = pool_frame_range[OF pl k(2) a(4)]
  obtain kp where kp: "pfree f m = Inr (m\<lparr>kernel_pool := kp\<rparr>)" "pool_ok kp" "phy_addr_start kp = phy_addr_start (kernel_pool m)"
    "bm_slots (pool_bitmap kp) = bm_slots (pool_bitmap (kernel_pool m))" "\<forall>g. frame_free kp g \<longleftrightarrow> frame_free (kernel_pool m) g \<or> g = f"
    using pfree_kernel_ok[OF pl k(2) a(4)] by blast
  let ?e = "ram (mm m) (pte_addr (mm m) a) AND NOT PG_P_1"
  let ?m1 = "m\<lparr>kernel_pool := kp, mm := set_pte a ?e (mm m)\<rparr>"
  have loop: "mfree_page_loop False (unat (1 :: u32)) a m = Inr ?m1"
    using ent fr(6) kp(1) page_table_pte_remove_ok[OF wf ent(1)] by simp
  have lt: "(i + 1) * 4096 \<le> 0xffc00000"
    using k(3) a(1) by (auto simp: vaddr_range_ok_def)
  have "vpage (kernel_vaddr m) i - vaddr_start (kernel_vaddr m) = word_of_nat i * PG_SIZE"
    by (simp add: vpage_def)
  then have idx: "unat ((a - vaddr_start (kernel_vaddr m)) div PG_SIZE) = i"
    using unat_page_mult[of i] lt by (simp add: a(2) unat_div_distrib) (simp add: PG_SIZE_def)
  have "wf_bitmap (vaddr_bitmap (kernel_vaddr m))"
    using k(3) by (simp add: vaddr_range_ok_def)
  from bitmap_set_run_spec[OF this, of "(a - vaddr_start (kernel_vaddr m)) div PG_SIZE" 1 0 0] obtain bm where
    bm: "bitmap_set_run (vaddr_bitmap (kernel_vaddr m)) ((a - vaddr_start (kernel_vaddr m)) div PG_SIZE) 0 1 0 = Inr bm" "wf_bitmap bm"
    "bm_slots bm = bm_slots (vaddr_bitmap (kernel_vaddr m))"
    "\<forall>k. bm_used bm k = (if i \<le> k \<and> k < Suc i then (0 :: u8) = 1 else bm_used (vaddr_bitmap (kernel_vaddr m)) k)"
    using a(1) lt by (auto simp: idx)
  have run: "mfree_page PF_KERNEL a 1 m = Inr (?m1\<lparr>kernel_vaddr := (kernel_vaddr m)\<lparr>vaddr_bitmap := bm\<rparr>\<rparr>)"
    using ent(2) fr(3,4,5) md loop bm(1) by (simp add: mfree_page_def vaddr_remove_def not_le[symmetric])
  have used: "\<forall>k. bm_used bm k = (bm_used (vaddr_bitmap (kernel_vaddr m)) k \<and> k \<noteq> i)"
    using bm(4) by (auto simp: le_less_Suc_eq)
  show ?thesis
    by (rule that[OF run not_present_cleared kp(2-5) bm(2,3) used ent(1) v1023])
qed

lemma kheap_ok_release_one:
  assumes heap: "kheap_ok m" and i: "i < bm_slots (vaddr_bitmap (kernel_vaddr m))"
    and kv: "kernel_vaddr m' = (kernel_vaddr m)\<lparr>vaddr_bitmap := bm\<rparr>" "wf_bitmap bm" "bm_slots bm = bm_slots (vaddr_bitmap (kernel_vaddr m))"
    and used: "\<forall>k. bm_used bm k = (bm_used (vaddr_bitmap (kernel_vaddr m)) k \<and> k \<noteq> i)"
    and pd: "\<And>i. unat i < 1024 \<Longrightarrow> pd_entry (mm m') i = pd_entry (mm m) i"
    and tr: "\<And>w. pdi w \<noteq> 1023 \<Longrightarrow> translate (mm m') w = (if same_page (vpage (kernel_vaddr m) i) w then None else translate (mm m) w)"
  shows "kheap_ok m'"
  unfolding kheap_ok_def
proof (intro conjI allI impI)
  show "vaddr_range_ok (kernel_vaddr m')"
    using heap kv by (simp add: vaddr_range_ok_def kheap_ok_def)
  fix j w assume j: "j < bm_slots (vaddr_bitmap (kernel_vaddr m'))" and w: "same_page (vpage (kernel_vaddr m') j) w"
  then have j': "j < bm_slots (vaddr_bitmap (kernel_vaddr m))" "same_page (vpage (kernel_vaddr m) j) w"
    using kv by (simp_all add: vpage_def)
  note o = kheap_okD[OF heap j']
  show "present (pd_entry (mm m') (pdi w))"
    using pd[OF pdi_lt] o(1) by simp
  assume "\<not> bm_used (vaddr_bitmap (kernel_vaddr m')) j"
  then have "j = i \<or> \<not> bm_used (vaddr_bitmap (kernel_vaddr m)) j"
    using used kv(1) by auto
  then show "translate (mm m') w = None"
    using tr[OF o(3)] o(2) j'(2) by auto
qed

lemma kernel_pages_release:
  assumes k: "kernel_pages P m" and a: "a \<in> P"
  shows "\<exists>m'. mfree_page PF_KERNEL a 1 m = Inr m' \<and> kernel_pages (P - {a}) m' \<and> now_pg_dir m' = now_pg_dir m \<and>
    (\<forall>b \<in> P - {a}. \<forall>w. same_page b w \<longrightarrow> load w (mm m') = load w (mm m))"
proof -
  have ok: "kmem_ok m" "kheap_ok m" "pools_ordered m" and len: "1 \<le> bm_len (vaddr_bitmap (kernel_vaddr m))" "KERNEL_HEAP_START \<le> vaddr_start (kernel_vaddr m)"
    and wf: "wf_pd (mm m)" and va: "vaddr_range_ok (kernel_vaddr m)"
    using k by (simp_all add: kernel_pages_def kmem_ok_def kheap_ok_def)
  obtain fr where fr: "\<And>a. a \<in> P \<Longrightarrow> kpage m a (fr a)" "inj_on fr P"
    using kernel_pagesE[OF k] by blast
  obtain i where i: "i < bm_slots (vaddr_bitmap (kernel_vaddr m))" "a = vpage (kernel_vaddr m) i"
    and f: "mapped_page (mm m) a (fr a)" "pool_frame (kernel_pool m) (fr a)" "unused_frame (fr a) (mm m)"
    using fr(1)[OF a] by (auto simp: kpage_def)
  obtain e kp bm where r: "mfree_page PF_KERNEL a 1 m = Inr (m\<lparr>kernel_pool := kp, mm := set_pte a e (mm m), kernel_vaddr := (kernel_vaddr m)\<lparr>vaddr_bitmap := bm\<rparr>\<rparr>)"
    "\<not> present e" "pool_ok kp" "phy_addr_start kp = phy_addr_start (kernel_pool m)"
    "bm_slots (pool_bitmap kp) = bm_slots (pool_bitmap (kernel_pool m))" "\<forall>g. frame_free kp g \<longleftrightarrow> frame_free (kernel_pool m) g \<or> g = fr a"
    "wf_bitmap bm" "bm_slots bm = bm_slots (vaddr_bitmap (kernel_vaddr m))" "\<forall>k. bm_used bm k = (bm_used (vaddr_bitmap (kernel_vaddr m)) k \<and> k \<noteq> i)"
    "present (pd_entry (mm m) (pdi a))" "pdi a \<noteq> 1023"
    by (rule mfree_one[OF ok(1,3) va i f(1,2)]) (rule that)
  let ?m = "m\<lparr>kernel_pool := kp, mm := set_pte a e (mm m), kernel_vaddr := (kernel_vaddr m)\<lparr>vaddr_bitmap := bm\<rparr>\<rparr>"
  note sp = set_pte_spec[OF wf r(10,11), where e = e]
  have un: "unused_frame g (set_pte a e (mm m)) = unused_frame g (mm m)" for g
    using unused_frame_pd[OF sp(2)] by simp
  have km: "kmem_ok ?m"
    using ok(1) sp(1) r(3,6) un f(3) by (auto simp: kmem_ok_def)
  have tr: "translate (mm ?m) w = (if same_page a w then None else translate (mm m) w)" if "pdi w \<noteq> 1023" for w
    using sp(4)[of w] sp(5)[of w] r(2) that by simp
  have kh: "kheap_ok ?m"
    by (rule kheap_ok_release_one[OF ok(2) i(1) _ r(7-9)]) (use sp(2) tr i(2) in simp_all)
  have old: "translate (mm ?m) w = translate (mm m) w" "bm_used bm j" if b: "b \<in> P" "b \<noteq> a" "same_page b w" "b = vpage (kernel_vaddr m) j"
    "j < bm_slots (vaddr_bitmap (kernel_vaddr m))" "bm_used (vaddr_bitmap (kernel_vaddr m)) j" for b w j
  proof -
    have "j \<noteq> i"
      using b(2,4) i(2) by auto
    then show "bm_used bm j"
      using r(9) b(6) by simp
    have "\<not> same_page a w"
      using vpage_distinct[OF va, of i j w] \<open>j \<noteq> i\<close> i b(3-5) by auto
    then show "translate (mm ?m) w = translate (mm m) w"
      using tr vpage_pdi[OF va b(5)] b(3,4) by simp
  qed
  have pf: "pool_frame kp g = pool_frame (kernel_pool m) g" for g
    using r(4,5) by (simp add: pool_frame_def frame_of_def)
  have kold: "kpage ?m b (fr b)" "\<And>w. same_page b w \<Longrightarrow> load w (mm ?m) = load w (mm m)" if b: "b \<in> P - {a}" for b
  proof -
    obtain j where j: "j < bm_slots (vaddr_bitmap (kernel_vaddr m))" "b = vpage (kernel_vaddr m) j" "bm_used (vaddr_bitmap (kernel_vaddr m)) j"
      and g: "mapped_page (mm m) b (fr b)" "pool_frame (kernel_pool m) (fr b)" "\<not> frame_free (kernel_pool m) (fr b)" "unused_frame (fr b) (mm m)"
      using fr(1)[of b] b by (auto simp: kpage_def)
    have o: "\<And>w. same_page b w \<Longrightarrow> translate (mm ?m) w = translate (mm m) w" "bm_used bm j"
      using old[of b _ j] old(2)[of b b j] b j by auto
    have ne: "fr b \<noteq> fr a"
      using fr(2) a b by (auto simp: inj_on_def)
    show "kpage ?m b (fr b)"
      using j g o r(6,8) ne un pf by (auto simp: kpage_def vpage_def mapped_page_def)
    fix w assume w: "same_page b w"
    have "frame (fr b) = fr b"
      using g(4) by (simp add: unused_frame_def)
    then have "ram (mm ?m) (fr b + page_off w) = ram (mm m) (fr b + page_off w)"
      using set_pte_ram[OF wf r(10), of "fr b + page_off w"] page_off_parts(1)[of "fr b" w] g(4) by simp
    then show "load w (mm ?m) = load w (mm m)"
      using o(1)[OF w] g(1) w by (simp add: load_def mapped_page_def)
  qed
  have "kernel_pages (P - {a}) ?m"
    using km kh ok(3) len kold(1) fr(2) bm_slots_len[OF r(8)] r(4,5)
    by (intro kernel_pagesI[of _ _ fr]) (auto simp: pools_ordered_def inj_on_def)
  then show ?thesis
    using r(1) kold(2) by simp
qed

lemma kernel_pages_lock: "kernel_pages P (set_pool PF_KERNEL ((pool_of PF_KERNEL m)\<lparr>pool_lock := l\<rparr>) m) = kernel_pages P m"
  by (simp add: kernel_pages_def kpage_def kmem_ok_def kheap_ok_def pools_ordered_def set_pool_def pool_ok_def frame_free_def frame_of_def pool_frame_def)

interpretation kpool: page_pool PF_KERNEL kernel_pages
proof (unfold_locales, goal_cases)
  case (1 P m a)
  then show ?case
    using kernel_pages_page by blast
next
  case (2 P m a)
  then obtain i where "a = vpage (kernel_vaddr m) i" "i < bm_slots (vaddr_bitmap (kernel_vaddr m))" and m: "kernel_pages P m"
    using kernel_pages_page(3)[OF 2(1,2)] by (auto simp: kpage_def)
  then show ?case
    using unat_vpage[of "kernel_vaddr m" i] by (auto simp: kernel_pages_def kheap_ok_def word_le_nat_alt)
next
  case (3 P m a)
  then obtain f where "kpage m a f"
    using kernel_pages_page(3) by blast
  then show ?case
    by (auto simp: kpage_def mapped_page_def)
next
  case (4 P m)
  then show ?case
    by (rule kernel_pages_alloc)
next
  case (5 P m a)
  then show ?case
    by (rule kernel_pages_release)
next
  case (6 P m a w x)
  then show ?case
    by (rule kernel_pages_store)
next
  case (7 P m a)
  then show ?case
    by (rule kernel_pages_clear)
next
  case (8 P m l)
  then show ?case
    by (rule kernel_pages_lock)
qed

end
