(* ===== verification/Heap.thy ===== *)
theory Heap
  imports Pages
begin

text \<open>
  The allocator of small and large blocks on top of the page allocator (\<^verbatim>\<open>sys_malloc\<close>, \<^verbatim>\<open>sys_free\<close> and
  \<^verbatim>\<open>block_desc_init\<close> of \<^verbatim>\<open>src/kernel/memory.c\<close>). An arena is a page that is cut into blocks of one size, or a run of pages
  for one large block. The words of a page that hold the header of its arena, or the list node of a free block, are
  represented by the record \<open>arena\<close> and by the sequence of the free blocks (which theory \<open>Klist\<close> relates to nodes); the
  other words are those of the memory of theory \<open>Paging\<close>. An arena's pointer to its descriptor is the pool and
  the index of the descriptor.
\<close>

definition DIV_ROUND_UP :: "u32 \<Rightarrow> u32 \<Rightarrow> u32" where
  "DIV_ROUND_UP X STEP = (X + STEP - 1) div STEP"

record arena =
  a_desc :: "(pool_flag \<times> nat) option"
  a_cnt :: u32
  a_large :: bool

record mem_block_desc =
  block_size :: u32
  blocks_per_arena :: u32
  free_list :: "u32 list"

record heap =
  arenas :: "u32 \<Rightarrow> arena"
  kernel_block_descs :: "mem_block_desc list"
  user_block_descs :: "mem_block_desc list"

definition DESC_CNT :: nat where "DESC_CNT = 7"

text \<open>\<^verbatim>\<open>sizeof(struct arena)\<close>.\<close>

definition sizeof_arena :: u32 where "sizeof_arena = 12"

definition descs_of :: "pool_flag \<Rightarrow> heap \<Rightarrow> mem_block_desc list" where
  "descs_of pf h = (case pf of PF_KERNEL \<Rightarrow> kernel_block_descs h | PF_USER \<Rightarrow> user_block_descs h)"

definition set_free_list :: "pool_flag \<Rightarrow> nat \<Rightarrow> u32 list \<Rightarrow> heap \<Rightarrow> heap" where
  "set_free_list pf i fl h = (case pf of
     PF_KERNEL \<Rightarrow> h\<lparr>kernel_block_descs := (kernel_block_descs h)[i := (kernel_block_descs h ! i)\<lparr>free_list := fl\<rparr>]\<rparr>
   | PF_USER \<Rightarrow> h\<lparr>user_block_descs := (user_block_descs h)[i := (user_block_descs h ! i)\<lparr>free_list := fl\<rparr>]\<rparr>)"

definition set_arena :: "u32 \<Rightarrow> arena \<Rightarrow> heap \<Rightarrow> heap" where
  "set_arena a r h = h\<lparr>arenas := (arenas h)(a := r)\<rparr>"

text \<open>Access to the header at the start of a page, which faults when the page is not mapped.\<close>

definition arena_at :: "u32 \<Rightarrow> heap \<Rightarrow> mem \<Rightarrow> arena res" where
  "arena_at a h m = (case translate (mm m) a of None \<Rightarrow> Inl PageFault | Some _ \<Rightarrow> Inr (arenas h a))"

subsection \<open>Descriptors\<close>

text \<open>The loop doubles a 16-bit counter.\<close>

fun block_desc_init_loop :: "nat \<Rightarrow> u16 \<Rightarrow> mem_block_desc list" where
  "block_desc_init_loop 0 bs = []"
| "block_desc_init_loop (Suc n) bs =
     \<lparr>block_size = ucast bs, blocks_per_arena = (PG_SIZE - sizeof_arena) div ucast bs, free_list = []\<rparr> # block_desc_init_loop n (bs * 2)"

definition block_desc_init :: "mem_block_desc list" where
  "block_desc_init = block_desc_init_loop DESC_CNT 16"

definition mem_init :: "heap \<Rightarrow> mem \<Rightarrow> heap \<times> mem" where
  "mem_init h m = (h\<lparr>kernel_block_descs := block_desc_init\<rparr>, mem_pool_init 0x2000000 m)"

subsection \<open>Blocks\<close>

definition arena2block :: "u32 \<Rightarrow> u32 \<Rightarrow> u32 \<Rightarrow> u32" where
  "arena2block a bs idx = a + sizeof_arena + idx * bs"

definition block2arena :: "u32 \<Rightarrow> u32" where
  "block2arena b = b AND 0xfffff000"

text \<open>\<^verbatim>\<open>memset(b, 0, n * 4)\<close> for a word-aligned address.\<close>

fun clear_words :: "nat \<Rightarrow> u32 \<Rightarrow> pmem \<Rightarrow> pmem res" where
  "clear_words 0 v m = Inr m"
| "clear_words (Suc n) v m = andthen (store v 0 m) (clear_words n (v + 4))"

subsection \<open>Allocation\<close>

definition malloc_large :: "pool_flag \<Rightarrow> u32 \<Rightarrow> heap \<Rightarrow> mem \<Rightarrow> ((u32 \<times> heap) \<times> mem) res" where
  "malloc_large pf sz h m =
     (let page_cnt = DIV_ROUND_UP (sz + sizeof_arena) PG_SIZE
      in andthen (malloc_page pf page_cnt m) (\<lambda>(a, m1).
         if a = NULL then Inr ((NULL, h), m1)
         else andthen (clear_pages (unat page_cnt) a (mm m1)) (\<lambda>mm1.
           Inr ((a + sizeof_arena, set_arena a \<lparr>a_desc = None, a_cnt = page_cnt, a_large = True\<rparr> h), m1\<lparr>mm := mm1\<rparr>))))"

text \<open>The search for a descriptor ends at the last one if no block size is large enough.\<close>

fun pick_desc :: "u32 \<Rightarrow> nat \<Rightarrow> mem_block_desc list \<Rightarrow> nat" where
  "pick_desc sz i [] = i - 1"
| "pick_desc sz i (d # ds) = (if sz \<le> block_size d then i else pick_desc sz (Suc i) ds)"

fun split_arena :: "u32 \<Rightarrow> u32 \<Rightarrow> u32 \<Rightarrow> nat \<Rightarrow> u32 list \<Rightarrow> u32 list res" where
  "split_arena a bs block_idx 0 fl = Inr fl"
| "split_arena a bs block_idx (Suc n) fl =
     (let b = arena2block a bs block_idx
      in andthen (assert_c ''!node_find(&a->desc->free_list, &b->free_node)'' (b \<notin> set fl)) (\<lambda>_.
         split_arena a bs (block_idx + 1) n (fl @ [b])))"

text \<open>
  A new arena for descriptor \<open>i\<close>; \<open>None\<close> stands for the early return of \<^verbatim>\<open>NULL\<close>. The interrupts are off during
  the loop and restored after it.
\<close>

definition refill :: "pool_flag \<Rightarrow> nat \<Rightarrow> mem_block_desc \<Rightarrow> heap \<Rightarrow> mem \<Rightarrow> (heap option \<times> mem) res" where
  "refill pf i d h m =
     andthen (malloc_page pf 1 m) (\<lambda>(a, m1).
     if a = NULL then Inr (None, m1)
     else andthen (clear_page a (mm m1)) (\<lambda>mm1.
       andthen (split_arena a (block_size d) 0 (unat (blocks_per_arena d)) (free_list d)) (\<lambda>fl.
       Inr (Some (set_free_list pf i fl (set_arena a \<lparr>a_desc = Some (pf, i), a_cnt = blocks_per_arena d, a_large = False\<rparr> h)),
         m1\<lparr>mm := mm1\<rparr>))))"

definition take_block :: "pool_flag \<Rightarrow> nat \<Rightarrow> heap \<Rightarrow> mem \<Rightarrow> ((u32 \<times> heap) \<times> mem) res" where
  "take_block pf i h m =
     andthen (rd (descs_of pf h) i) (\<lambda>d. case free_list d of
       [] \<Rightarrow> Inl NullDeref
     | b # fl \<Rightarrow>
         andthen (clear_words (unat (block_size d) div 4) b (mm m)) (\<lambda>mm1.
         andthen (arena_at (block2arena b) h m) (\<lambda>r.
         Inr ((b, set_arena (block2arena b) (r\<lparr>a_cnt := a_cnt r - 1\<rparr>) (set_free_list pf i fl h)), m\<lparr>mm := mm1\<rparr>))))"

definition malloc_small :: "pool_flag \<Rightarrow> u32 \<Rightarrow> heap \<Rightarrow> mem \<Rightarrow> ((u32 \<times> heap) \<times> mem) res" where
  "malloc_small pf sz h m =
     (let i = pick_desc sz 0 (descs_of pf h)
      in andthen (rd (descs_of pf h) i) (\<lambda>d.
         if free_list d = []
         then andthen (refill pf i d h m) (\<lambda>(r, m1). case r of
                None \<Rightarrow> Inr ((NULL, h), m1) | Some h1 \<Rightarrow> take_block pf i h1 m1)
         else take_block pf i h m))"

definition own_pool :: "mem \<Rightarrow> pool_flag" where
  "own_pool m = (if now_pg_dir m = NULL then PF_KERNEL else PF_USER)"

definition sys_malloc :: "u32 \<Rightarrow> heap \<Rightarrow> mem \<Rightarrow> kstate \<Rightarrow> (u32 \<times> heap) mcall res" where
  "sys_malloc sz h m s =
     (let pf = own_pool m
      in if \<not> (sz > 0 \<and> sz < pool_size (pool_of pf m)) then Inr (Return (NULL, h) m s)
         else while_locked pf (if sz > 1024 then malloc_large pf sz h else malloc_small pf sz h) m s)"

subsection \<open>Release\<close>

fun unlink_blocks :: "u32 \<Rightarrow> u32 \<Rightarrow> u32 \<Rightarrow> nat \<Rightarrow> u32 list \<Rightarrow> u32 list res" where
  "unlink_blocks a bs i 0 fl = Inr fl"
| "unlink_blocks a bs i (Suc n) fl =
     (let b = arena2block a bs i
      in andthen (assert_c ''node_find(&a->desc->free_list, &b->free_node)'' (b \<in> set fl)) (\<lambda>_.
         unlink_blocks a bs (i + 1) n (remove1 b fl)))"

definition free_block :: "pool_flag \<Rightarrow> u32 \<Rightarrow> heap \<Rightarrow> mem \<Rightarrow> (heap \<times> mem) res" where
  "free_block pf b h m =
     (let a = block2arena b
      in andthen (arena_at a h m) (\<lambda>r.
         if a_desc r = None \<and> a_large r then andthen (mfree_page pf a (a_cnt r) m) (\<lambda>m1. Inr (h, m1))
         else case a_desc r of
           None \<Rightarrow> Inl NullDeref
         | Some (q, i) \<Rightarrow>
             andthen (rd (descs_of q h) i) (\<lambda>d.
             if b \<in> set (free_list d) then Inl Corrupted
             else let h1 = set_arena a (r\<lparr>a_cnt := a_cnt r + 1\<rparr>) (set_free_list q i (free_list d @ [b]) h)
               in if a_cnt r + 1 = blocks_per_arena d
                  then andthen (unlink_blocks a (block_size d) 0 (unat (blocks_per_arena d)) (free_list d @ [b])) (\<lambda>fl.
                       andthen (mfree_page pf a 1 m) (\<lambda>m1. Inr (set_free_list q i fl h1, m1)))
                  else Inr (h1, m))))"

definition sys_free :: "u32 \<Rightarrow> heap \<Rightarrow> mem \<Rightarrow> kstate \<Rightarrow> heap mcall res" where
  "sys_free ptr h m s =
     andthen (assert_c ''ptr != NULL'' (ptr \<noteq> NULL)) (\<lambda>_.
     andthen (if now_pg_dir m = NULL then assert_c ''(uint32_t)ptr >= KERNEL_HEAP_START'' (ptr \<ge> KERNEL_HEAP_START) else Inr ()) (\<lambda>_.
     while_locked (own_pool m) (free_block (own_pool m) ptr h) m s))"

end
