(* ===== verification/Heapinv.thy ===== *)
theory Heapinv
  imports Heap
begin

text \<open>
  The invariant of the block allocator and its proofs. They are carried out once for every pool that satisfies the interface
  \<open>page_pool\<close> of theory \<open>Pages\<close>, in the context of that locale, and reach the kernel's heap through the interpretation \<open>kpool\<close>.
\<close>

subsection \<open>Geometry of the blocks\<close>

definition class_size :: "nat \<Rightarrow> nat" where "class_size i = 16 * 2 ^ i"
definition class_cnt :: "nat \<Rightarrow> nat" where "class_cnt i = 4084 div class_size i"

definition blk :: "u32 \<Rightarrow> nat \<Rightarrow> nat \<Rightarrow> u32" where
  "blk a i k = a + word_of_nat (12 + k * class_size i)"

definition blks :: "u32 \<Rightarrow> nat \<Rightarrow> u32 set" where
  "blks a i = blk a i ` {..<class_cnt i}"

definition descs_ok :: "mem_block_desc list \<Rightarrow> bool" where
  "descs_ok ds \<longleftrightarrow> length ds = 7 \<and> (\<forall>i < 7. unat (block_size (ds ! i)) = class_size i \<and> unat (blocks_per_arena (ds ! i)) = class_cnt i)"

lemma lt7: "(i::nat) < 7 \<longleftrightarrow> i \<in> {0, 1, 2, 3, 4, 5, 6}"
  by auto

lemma class_bounds:
  assumes "i < 7"
  shows "16 \<le> class_size i" "class_size i \<le> 1024" "3 \<le> class_cnt i" "class_cnt i \<le> 255" "4 dvd class_size i"
  using assms by (auto simp: lt7 class_size_def class_cnt_def)

lemma blk_room:
  assumes "k < class_cnt i"
  shows "12 + k * class_size i + class_size i \<le> 4096"
proof -
  have "Suc k * class_size i \<le> class_cnt i * class_size i"
    using assms by (intro mult_le_mono1) simp
  also have "\<dots> \<le> 4084"
    by (simp add: class_cnt_def)
  finally show ?thesis
    by simp
qed

lemma page_offset:
  assumes "frame a = a" and "n < 4096"
  shows "unat (a + word_of_nat n) = unat a + n" "frame (a + word_of_nat n) = a" "same_page a (a + word_of_nat n)"
proof -
  have al: "unat a mod 4096 = 0"
    using assms(1) by (simp add: aligned_iff)
  have "unat a \<le> 4294963200"
    using al unat_u32_lt[of a] by auto
  then show u: "unat (a + word_of_nat n) = unat a + n"
    using assms(2) unat_nat32[of n] by (subst unat_add_lt) simp_all
  show "frame (a + word_of_nat n) = a"
    using al assms(2) by (simp add: word_unat_eq_iff unat_frame u) auto
  show "same_page a (a + word_of_nat n)"
    using al assms(2) by (simp add: same_page_unat u) auto
qed

lemma blk_page:
  assumes "frame a = a" and "i < 7" and "k < class_cnt i" and "j < class_size i"
  shows "same_page a (blk a i k + word_of_nat j)" "unat (blk a i k + word_of_nat j) = unat a + 12 + k * class_size i + j"
proof -
  have e: "blk a i k + word_of_nat j = a + word_of_nat (12 + k * class_size i + j)"
    by (simp add: blk_def add.assoc)
  have "12 + k * class_size i + j < 4096"
    using blk_room[OF assms(3)] assms(4) by simp
  from page_offset[OF assms(1) this] show "same_page a (blk a i k + word_of_nat j)" "unat (blk a i k + word_of_nat j) = unat a + 12 + k * class_size i + j"
    unfolding e by simp_all
qed

lemma blk_arena:
  assumes "frame a = a" and "i < 7" and "k < class_cnt i"
  shows "block2arena (blk a i k) = a" "blk a i k \<noteq> NULL" "unat (blk a i k) = unat a + 12 + k * class_size i"
proof -
  have lt: "12 + k * class_size i < 4096"
    using blk_room[OF assms(3)] class_bounds(1)[OF assms(2)] by simp
  show u: "unat (blk a i k) = unat a + 12 + k * class_size i"
    using page_offset(1)[OF assms(1) lt] by (simp add: blk_def)
  show "block2arena (blk a i k) = a"
    using page_offset(2)[OF assms(1) lt] by (simp add: blk_def block2arena_def frame_def)
  show "blk a i k \<noteq> NULL"
    using u by (auto simp: NULL_def)
qed

lemma blk_inj:
  assumes "frame a = a" "frame b = b" "i < 7" "k < class_cnt i" "l < class_cnt i" and "blk a i k = blk b i l"
  shows "a = b \<and> k = l"
proof -
  have "a = b"
    using blk_arena(1)[OF assms(1,3,4)] blk_arena(1)[OF assms(2,3,5)] assms(6) by simp
  moreover have "unat (blk a i k) = unat (blk b i l)" "unat a = unat b"
    using assms(6) \<open>a = b\<close> by simp_all
  then have "k * class_size i = l * class_size i"
    using blk_arena(3)[OF assms(1,3,4)] blk_arena(3)[OF assms(2,3,5)] by linarith
  then have "k = l"
    using class_bounds(1)[OF assms(3)] by auto
  ultimately show ?thesis
    by simp
qed

lemma card_blks:
  assumes "frame a = a" "i < 7"
  shows "card (blks a i) = class_cnt i" "finite (blks a i)"
  using blk_inj[OF assms(1,1,2)] by (auto simp: blks_def inj_on_def intro!: card_image[THEN trans])

lemma arena2block_blk:
  assumes "unat bs = class_size i" and "i < 7" and "k < class_cnt i"
  shows "arena2block a bs (word_of_nat k) = blk a i k"
proof -
  have "word_of_nat k * bs = (word_of_nat (k * class_size i) :: u32)"
    using assms(1)[symmetric] by simp
  then show ?thesis
    by (simp add: arena2block_def blk_def sizeof_arena_def)
qed

text \<open>Different blocks of the same class, and blocks of different pages, do not overlap.\<close>

lemma blocks_disjoint:
  assumes "frame a = a" "frame b = b" "i < 7" "j < 7" "k < class_cnt i" "l < class_cnt j"
    and "a = b \<Longrightarrow> i = j \<and> k \<noteq> l"
    and "x < class_size i" "y < class_size j"
  shows "blk a i k + word_of_nat x \<noteq> blk b j l + word_of_nat y"
proof
  assume e: "blk a i k + word_of_nat x = blk b j l + word_of_nat y"
  have "same_page a (blk a i k + word_of_nat x)" "same_page b (blk a i k + word_of_nat x)"
    using blk_page(1)[OF assms(1,3,5,8)] blk_page(1)[OF assms(2,4,6,9)] e by simp_all
  then have "frame a = frame b"
    by (simp add: word_unat_eq_iff unat_frame same_page_unat)
  then have ab: "a = b"
    using assms(1,2) by simp
  then have "k * class_size i + x = l * class_size i + y" "x < class_size i" "y < class_size i"
    using blk_page(2)[OF assms(1,3,5,8)] blk_page(2)[OF assms(2,4,6,9)] e assms(7-9) by simp_all
  then have "k = l"
    by (metis add.commute div_mult_self3 div_less add.right_neutral less_nat_zero_code)
  then show False
    using assms(7)[OF ab] by simp
qed

lemma block_desc_init_eval:
  "block_desc_init = map (\<lambda>(b, n). \<lparr>block_size = b, blocks_per_arena = n, free_list = []\<rparr>)
     [(16, 255), (32, 127), (64, 63), (128, 31), (256, 15), (512, 7), (1024, 3)]"
  by code_simp

lemma block_desc_init_ok: "descs_ok block_desc_init" "\<forall>d \<in> set block_desc_init. free_list d = []"
  by (auto simp: block_desc_init_eval descs_ok_def lt7 class_size_def class_cnt_def)

subsection \<open>The invariant of the heap\<close>

abbreviation fl :: "pool_flag \<Rightarrow> heap \<Rightarrow> nat \<Rightarrow> u32 list" where
  "fl pf h i \<equiv> free_list (descs_of pf h ! i)"

text \<open>
  \<open>P\<close> are the pages the client of the page pool owns and \<open>L\<close> gives the pages that are cut into blocks their class. In \<open>heap_pre\<close> an
  arena may consist of free blocks only; between two calls this is not so.
\<close>

definition heap_pre :: "pool_flag \<Rightarrow> (u32 set \<Rightarrow> mem \<Rightarrow> bool) \<Rightarrow> u32 set \<Rightarrow> (u32 \<Rightarrow> nat option) \<Rightarrow> heap \<Rightarrow> mem \<Rightarrow> bool" where
  "heap_pre pf pages P L h m \<longleftrightarrow> pages P m \<and> dom L \<subseteq> P \<and> descs_ok (descs_of pf h) \<and>
     (\<forall>a i. L a = Some i \<longrightarrow> i < 7 \<and> a_desc (arenas h a) = Some (pf, i) \<and> \<not> a_large (arenas h a) \<and>
        unat (a_cnt (arenas h a)) = card (blks a i \<inter> set (fl pf h i))) \<and>
     (\<forall>i < 7. distinct (fl pf h i) \<and> (\<forall>b \<in> set (fl pf h i). \<exists>a. L a = Some i \<and> b \<in> blks a i))"

definition in_use :: "pool_flag \<Rightarrow> (u32 \<Rightarrow> nat option) \<Rightarrow> heap \<Rightarrow> u32 \<Rightarrow> bool" where
  "in_use pf L h a \<longleftrightarrow> (\<forall>i. L a = Some i \<longrightarrow> card (blks a i \<inter> set (fl pf h i)) < class_cnt i)"

definition heap_inv :: "pool_flag \<Rightarrow> (u32 set \<Rightarrow> mem \<Rightarrow> bool) \<Rightarrow> u32 set \<Rightarrow> (u32 \<Rightarrow> nat option) \<Rightarrow> heap \<Rightarrow> mem \<Rightarrow> bool" where
  "heap_inv pf pages P L h m \<longleftrightarrow> heap_pre pf pages P L h m \<and> (\<forall>a. in_use pf L h a)"

definition allocated :: "pool_flag \<Rightarrow> (u32 \<Rightarrow> nat option) \<Rightarrow> heap \<Rightarrow> u32 set" where
  "allocated pf L h = {b. \<exists>a i. L a = Some i \<and> b \<in> blks a i \<and> b \<notin> set (fl pf h i)}"

lemma heap_preD:
  assumes "heap_pre pf pages P L h m"
  shows "pages P m" "dom L \<subseteq> P" "descs_ok (descs_of pf h)"
    "\<And>a i. L a = Some i \<Longrightarrow> i < 7 \<and> a \<in> P" "\<And>a i. L a = Some i \<Longrightarrow> a_desc (arenas h a) = Some (pf, i)"
    "\<And>a i. L a = Some i \<Longrightarrow> \<not> a_large (arenas h a)" "\<And>a i. L a = Some i \<Longrightarrow> unat (a_cnt (arenas h a)) = card (blks a i \<inter> set (fl pf h i))"
    "\<And>i. i < 7 \<Longrightarrow> distinct (fl pf h i)" "\<And>i b. i < 7 \<Longrightarrow> b \<in> set (fl pf h i) \<Longrightarrow> \<exists>a. L a = Some i \<and> b \<in> blks a i"
  using assms by (auto simp: heap_pre_def)

lemma descs_okD:
  assumes "descs_ok ds"
  shows "length ds = 7" "i < 7 \<Longrightarrow> unat (block_size (ds ! i)) = class_size i" "i < 7 \<Longrightarrow> unat (blocks_per_arena (ds ! i)) = class_cnt i"
  using assms by (auto simp: descs_ok_def)

lemma set_free_list_simps [simp]:
  "arenas (set_free_list pf i xs h) = arenas h"
  "i < length (descs_of pf h) \<Longrightarrow> fl pf (set_free_list pf i xs h) i = xs"
  "i \<noteq> j \<Longrightarrow> descs_of pf (set_free_list pf i xs h) ! j = descs_of pf h ! j"
  "length (descs_of pf (set_free_list pf i xs h)) = length (descs_of pf h)"
  by (cases pf; simp add: set_free_list_def descs_of_def; fail)+

lemma set_free_list_twice [simp]: "set_free_list pf i ys (set_free_list pf i xs h) = set_free_list pf i ys h"
  by (cases pf; cases "i < length (descs_of pf h)") (simp_all add: set_free_list_def descs_of_def list_update_beyond)

lemma set_free_list_descs_ok [simp]: "descs_ok (descs_of pf (set_free_list pf i xs h)) = descs_ok (descs_of pf h)"
proof -
  have "block_size (descs_of pf (set_free_list pf i xs h) ! j) = block_size (descs_of pf h ! j)"
    "blocks_per_arena (descs_of pf (set_free_list pf i xs h) ! j) = blocks_per_arena (descs_of pf h ! j)" if "j < length (descs_of pf h)" for j
    using that by (cases pf; cases "i = j"; simp add: set_free_list_def descs_of_def)+
  then show ?thesis
    by (auto simp: descs_ok_def)
qed

lemma set_arena_simps [simp]:
  "arenas (set_arena a r h) = (arenas h)(a := r)" "descs_of pf (set_arena a r h) = descs_of pf h"
  "set_free_list pf i xs (set_arena a r h) = set_arena a r (set_free_list pf i xs h)"
  "set_arena a r (set_arena a r' h) = set_arena a r h"
  by (cases pf; simp add: set_arena_def descs_of_def set_free_list_def)+

subsection \<open>The loops\<close>

lemma split_arena_ok:
  assumes "unat bs = class_size i" "i < 7" "frame a = a" "k + n \<le> class_cnt i" and "\<And>l. k \<le> l \<Longrightarrow> l < k + n \<Longrightarrow> blk a i l \<notin> set xs"
  shows "split_arena a bs (word_of_nat k) n xs = Inr (xs @ map (blk a i) [k..<k + n])"
  using assms(4,5)
proof (induction n arbitrary: k xs)
  case (Suc n)
  have k: "k < class_cnt i"
    using Suc.prems(1) by simp
  have b: "arena2block a bs (word_of_nat k) = blk a i k"
    by (rule arena2block_blk[OF assms(1,2) k])
  have "blk a i l \<notin> set (xs @ [blk a i k])" if "Suc k \<le> l" "l < Suc k + n" for l
    using Suc.prems that blk_inj[OF assms(3,3,2), of l k] by auto
  then have "split_arena a bs (word_of_nat (Suc k)) n (xs @ [blk a i k]) = Inr ((xs @ [blk a i k]) @ map (blk a i) [Suc k..<Suc k + n])"
    using Suc.prems(1) by (intro Suc.IH) simp_all
  then show ?case
    using b Suc.prems(2)[of k] by (simp add: Let_def add.commute upt_conv_Cons del: upt_Suc)
qed simp

lemma unlink_blocks_ok:
  assumes "unat bs = class_size i" "i < 7" "frame a = a" "k + n \<le> class_cnt i" "distinct xs" and "\<And>l. k \<le> l \<Longrightarrow> l < k + n \<Longrightarrow> blk a i l \<in> set xs"
  shows "unlink_blocks a bs (word_of_nat k) n xs = Inr (filter (\<lambda>b. b \<notin> blk a i ` {k..<k + n}) xs)"
  using assms(4,5,6)
proof (induction n arbitrary: k xs)
  case (Suc n)
  have k: "k < class_cnt i"
    using Suc.prems(1) by simp
  have b: "arena2block a bs (word_of_nat k) = blk a i k"
    by (rule arena2block_blk[OF assms(1,2) k])
  have "blk a i l \<in> set (remove1 (blk a i k) xs)" if "Suc k \<le> l" "l < Suc k + n" for l
    using Suc.prems that blk_inj[OF assms(3,3,2), of l k] by (auto simp: in_set_remove1)
  then have "unlink_blocks a bs (word_of_nat (Suc k)) n (remove1 (blk a i k) xs) =
      Inr (filter (\<lambda>b. b \<notin> blk a i ` {Suc k..<Suc k + n}) (remove1 (blk a i k) xs))"
    using Suc.prems(1,2) by (intro Suc.IH) simp_all
  moreover have "filter (\<lambda>b. b \<notin> blk a i ` {Suc k..<Suc k + n}) (remove1 (blk a i k) xs) = filter (\<lambda>b. b \<notin> blk a i ` {k..<k + Suc n}) xs"
  proof -
    have "{k..<k + Suc n} = insert k {Suc k..<Suc k + n}"
      by auto
    moreover have "remove1 (blk a i k) xs = filter (\<lambda>b. b \<noteq> blk a i k) xs"
      using Suc.prems(2) by (simp add: distinct_remove1_removeAll removeAll_filter_not_eq neq_commute)
    ultimately show ?thesis
      by (simp only: filter_filter image_insert insert_iff) (intro filter_cong, auto)
  qed
  ultimately show ?case
    using b Suc.prems(3)[of k] by (simp add: Let_def add.commute)
qed simp

lemma pick_desc_ok:
  assumes "descs_ok ds" and "unat sz \<le> 1024"
  shows "\<exists>i < 7. pick_desc sz 0 ds = i \<and> unat sz \<le> class_size i \<and> (\<forall>j < i. class_size j < unat sz)"
proof -
  have pick: "k \<le> pick_desc sz k (drop k ds) \<and> pick_desc sz k (drop k ds) < 7 \<and> unat sz \<le> class_size (pick_desc sz k (drop k ds)) \<and>
      (\<forall>j. k \<le> j \<and> j < pick_desc sz k (drop k ds) \<longrightarrow> class_size j < unat sz)" if "k < 7" for k
    using that
  proof (induction "6 - k" arbitrary: k)
    case 0
    then have "k = 6"
      by simp
    then have "drop k ds = [ds ! 6]" "unat (block_size (ds ! 6)) = 1024" "class_size 6 = 1024"
      using descs_okD[OF assms(1)] by (simp_all add: Cons_nth_drop_Suc[symmetric] class_size_def)
    then show ?case
      using assms(2) \<open>k = 6\<close> by (simp add: word_le_nat_alt)
  next
    case (Suc x)
    have d: "drop k ds = ds ! k # drop (Suc k) ds" "unat (block_size (ds ! k)) = class_size k"
      using descs_okD[OF assms(1)] Suc.prems by (simp_all add: Cons_nth_drop_Suc)
    show ?case
    proof (cases "unat sz \<le> class_size k")
      case True
      then show ?thesis
        using d Suc.prems by (simp add: word_le_nat_alt)
    next
      case False
      then have "pick_desc sz k (drop k ds) = pick_desc sz (Suc k) (drop (Suc k) ds)"
        using d by (simp add: word_le_nat_alt)
      moreover have "x = 6 - Suc k" "Suc k < 7"
        using Suc.hyps(2) by simp_all
      note ih = Suc.hyps(1)[OF this]
      have "class_size j < unat sz" if "k \<le> j" "j < pick_desc sz (Suc k) (drop (Suc k) ds)" for j
        using that ih False by (cases "j = k") auto
      ultimately show ?thesis
        using ih by auto
    qed
  qed
  show ?thesis
    using pick[of 0] by simp
qed

lemma blks_arena:
  assumes "frame a = a" "i < 7" "b \<in> blks a i"
  shows "block2arena b = a" "b \<noteq> NULL"
  using assms blk_arena by (auto simp: blks_def)

lemma blks_disjoint:
  assumes "frame a = a" "frame c = c" "i < 7" "j < 7" "b \<in> blks a i" "b \<in> blks c j"
  shows "a = c"
  using blks_arena(1)[OF assms(1,3,5)] blks_arena(1)[OF assms(2,4,6)] by simp

context page_pool
begin

text \<open>Clearing the words of a block.\<close>

lemma clear_words_page:
  assumes "pages P (m\<lparr>mm := mm1\<rparr>)" and "a \<in> P" and "\<And>j. j < n \<Longrightarrow> same_page a (b + word_of_nat j * 4)"
  shows "\<exists>mm'. clear_words n b mm1 = Inr mm' \<and> pages P (m\<lparr>mm := mm'\<rparr>) \<and>
    (\<forall>c \<in> P. \<forall>u. same_page c u \<longrightarrow> load u mm' = (if \<exists>j < n. u = b + word_of_nat j * 4 then Inr 0 else load u mm1))"
  using assms
proof (induction n arbitrary: b mm1)
  case (Suc n)
  obtain m1 where m1: "store b 0 mm1 = Inr m1" "pages P (m\<lparr>mm := m1\<rparr>)"
    "\<forall>c \<in> P. \<forall>u. same_page c u \<longrightarrow> load u m1 = (if u = b then Inr 0 else load u mm1)"
    using store_page[OF Suc.prems(1,2), of b 0] Suc.prems(3)[of 0] by auto
  have next4: "b + 4 + word_of_nat j * 4 = b + word_of_nat (Suc j) * 4" for j
    by (simp add: algebra_simps)
  have "same_page a (b + 4 + word_of_nat j * 4)" if "j < n" for j
    using Suc.prems(3)[of "Suc j"] that unfolding next4 by simp
  from Suc.IH[OF m1(2) Suc.prems(2) this] obtain m2 where m2: "clear_words n (b + 4) m1 = Inr m2" "pages P (m\<lparr>mm := m2\<rparr>)"
    "\<forall>c \<in> P. \<forall>u. same_page c u \<longrightarrow> load u m2 = (if \<exists>j < n. u = b + 4 + word_of_nat j * 4 then Inr 0 else load u m1)"
    by blast
  have ex: "(\<exists>j < Suc n. u = b + word_of_nat j * 4) \<longleftrightarrow> u = b \<or> (\<exists>j < n. u = b + 4 + word_of_nat j * 4)" for u
    unfolding next4 by (auto simp: less_Suc_eq_0_disj simp del: of_nat_Suc)
  have "load u m2 = (if \<exists>j < Suc n. u = b + word_of_nat j * 4 then Inr 0 else load u mm1)" if "c \<in> P" "same_page c u" for c u
    using m1(3)[rule_format, OF that] m2(3)[rule_format, OF that] unfolding ex by presburger
  then show ?case
    using m1(1) m2(1,2) by (intro exI[of _ m2]) simp
qed auto

lemma clear_block:
  assumes "pages P m" and "a \<in> P" and "i < 7" "k < class_cnt i"
  shows "\<exists>mm'. clear_words (class_size i div 4) (blk a i k) (mm m) = Inr mm' \<and> pages P (m\<lparr>mm := mm'\<rparr>) \<and>
    (\<forall>j < class_size i div 4. load (blk a i k + word_of_nat (4 * j)) mm' = Inr 0) \<and>
    (\<forall>c \<in> P. \<forall>u. same_page c u \<longrightarrow> (\<forall>j < class_size i. u \<noteq> blk a i k + word_of_nat j) \<longrightarrow> load u mm' = load u (mm m))"
proof -
  have al: "frame a = a"
    using page_aligned[OF assms(1,2)] by simp
  have four: "word_of_nat j * 4 = (word_of_nat (4 * j) :: u32)" "4 * j < class_size i" if "j < class_size i div 4" for j
    using that by simp_all
  have pg: "same_page a (blk a i k + word_of_nat j * 4)" if "j < class_size i div 4" for j
    using blk_page(1)[OF al assms(3,4) four(2)[OF that]] by (simp add: mult.commute)
  obtain mm' where r: "clear_words (class_size i div 4) (blk a i k) (mm m) = Inr mm'" "pages P (m\<lparr>mm := mm'\<rparr>)"
    "\<forall>c \<in> P. \<forall>u. same_page c u \<longrightarrow>
      load u mm' = (if \<exists>j < class_size i div 4. u = blk a i k + word_of_nat j * 4 then Inr 0 else load u (mm m))"
    using clear_words_page[where m = m and ?mm1.0 = "mm m" and n = "class_size i div 4", OF _ assms(2) pg] assms(1) by auto
  have "load (blk a i k + word_of_nat (4 * j)) mm' = Inr 0" if "j < class_size i div 4" for j
    using r(3) assms(2) pg[OF that] that four(1)[OF that] by metis
  moreover have "load u mm' = load u (mm m)" if "c \<in> P" "same_page c u" "\<forall>j < class_size i. u \<noteq> blk a i k + word_of_nat j" for c u
  proof -
    have "\<not> (\<exists>j < class_size i div 4. u = blk a i k + word_of_nat j * 4)"
      using that(3) four by metis
    then show ?thesis
      using r(3) that(1,2) by auto
  qed
  ultimately show ?thesis
    using r(1,2) by blast
qed

lemma arena_page:
  assumes "heap_pre pf pages P L h m" and "L a = Some i"
  shows "a \<in> P" "frame a = a" "i < 7"
  using heap_preD(4)[OF assms] page_aligned[OF heap_preD(1)[OF assms(1)]] by auto

lemma block_class:
  assumes "heap_pre pf pages P L h m" and "L a = Some i" "b \<in> blks a i" and "L c = Some j" "b \<in> blks c j"
  shows "c = a" "j = i"
proof -
  note pa = arena_page[OF assms(1,2)] and pc = arena_page[OF assms(1,4)]
  show "c = a"
    using blks_disjoint[OF pc(2) pa(2) pc(3) pa(3) assms(5,3)] .
  then show "j = i"
    using assms(2,4) by simp
qed

lemma allocated_iff:
  assumes "heap_pre pf pages P L h m" and "L a = Some i" "b \<in> blks a i"
  shows "b \<in> allocated pf L h \<longleftrightarrow> b \<notin> set (fl pf h i)"
proof
  assume "b \<in> allocated pf L h"
  then obtain c j where c: "L c = Some j" "b \<in> blks c j" "b \<notin> set (fl pf h j)"
    unfolding allocated_def by blast
  then show "b \<notin> set (fl pf h i)"
    using block_class(2)[OF assms c(1,2)] by simp
next
  assume "b \<notin> set (fl pf h i)"
  then show "b \<in> allocated pf L h"
    unfolding allocated_def using assms(2,3) by blast
qed

text \<open>A call that changes the list of one class within one arena, and the header of that arena.\<close>

lemma heap_pre_update:
  assumes pre: "heap_pre pf pages P L h m" and a: "L a = Some i" and pg: "pages P m'"
    and xs: "distinct xs" "\<forall>b \<in> set xs. \<exists>a. L a = Some i \<and> b \<in> blks a i" "set xs - blks a i = set (fl pf h i) - blks a i"
    and r: "a_desc r = Some (pf, i)" "\<not> a_large r" "unat (a_cnt r) = card (blks a i \<inter> set xs)"
  defines "h' \<equiv> set_arena a r (set_free_list pf i xs h)"
  shows "heap_pre pf pages P L h' m'" "\<And>c. c \<noteq> a \<Longrightarrow> in_use pf L h' c = in_use pf L h c"
    "fl pf h' i = xs" "allocated pf L h' = (allocated pf L h - blks a i) \<union> (blks a i - set xs)"
proof -
  note D = heap_preD[OF pre] and ap = arena_page[OF pre a]
  have f: "fl pf h' j = (if j = i then xs else fl pf h j)" for j
    unfolding h'_def using descs_okD(1)[OF D(3)] ap(3) by (simp add: set_free_list_simps(3)[OF not_sym])
  then show "fl pf h' i = xs"
    by simp
  have other: "blks c j \<inter> set (fl pf h' j) = blks c j \<inter> set (fl pf h j)" if "L c = Some j" "c \<noteq> a" for c j
  proof (cases "j = i")
    case True
    have "x \<notin> blks a i" if "x \<in> blks c i" for x
      using block_class(1)[OF pre a, of x c i] \<open>L c = Some j\<close> True that \<open>c \<noteq> a\<close> by auto
    then show ?thesis
      unfolding f using True xs(3) by auto
  qed (simp add: f)
  show pre': "heap_pre pf pages P L h' m'"
    unfolding heap_pre_def
  proof (intro conjI allI impI ballI)
    fix j :: nat assume j: "j < 7"
    show "distinct (fl pf h' j)"
      unfolding f using D(8)[OF j] xs(1) by simp
    fix c assume "c \<in> set (fl pf h' j)"
    then show "\<exists>a. L a = Some j \<and> c \<in> blks a j"
      unfolding f using D(9)[OF j] xs(2) by (auto split: if_splits)
  next
    fix c j assume c: "L c = Some j"
    show "j < 7" "a_desc (arenas h' c) = Some (pf, j)" "\<not> a_large (arenas h' c)"
      using D(4-6)[OF c] a r c by (auto simp: h'_def)
    show "unat (a_cnt (arenas h' c)) = card (blks c j \<inter> set (fl pf h' j))"
    proof (cases "c = a")
      case True
      then show ?thesis
        using r(3) a c by (simp add: f) (simp add: h'_def)
    qed (use D(7)[OF c] other[OF c] in \<open>simp add: h'_def\<close>)
  qed (use pg D(2,3) in \<open>auto simp: h'_def\<close>)
  show "in_use pf L h' c = in_use pf L h c" if "c \<noteq> a" for c
    using other[of c] that unfolding in_use_def by auto
  show "allocated pf L h' = (allocated pf L h - blks a i) \<union> (blks a i - set xs)"
  proof (rule set_eqI)
    fix x
    show "x \<in> allocated pf L h' \<longleftrightarrow> x \<in> (allocated pf L h - blks a i) \<union> (blks a i - set xs)"
    proof (cases "x \<in> blks a i")
      case True
      then show ?thesis
        using allocated_iff[OF pre' a True] by (simp add: f)
    next
      case False
      then have "x \<in> set (fl pf h' j) \<longleftrightarrow> x \<in> set (fl pf h j)" for j
        unfolding f using xs(3) by auto
      then show ?thesis
        using False by (simp add: allocated_def)
    qed
  qed
qed

text \<open>The first free block is taken out of its list.\<close>

lemma take_block_ok:
  assumes pre: "heap_pre pf pages P L h m" and i: "i < 7" and b: "fl pf h i = b # xs" and rest: "\<And>a. a \<noteq> block2arena b \<Longrightarrow> in_use pf L h a"
  shows "\<exists>h' m' a k. take_block pf i h m = Inr ((b, h'), m') \<and> L a = Some i \<and> k < class_cnt i \<and> b = blk a i k \<and> heap_inv pf pages P L h' m' \<and>
    now_pg_dir m' = now_pg_dir m \<and> b \<notin> allocated pf L h \<and> allocated pf L h' = insert b (allocated pf L h) \<and>
    (\<forall>j < class_size i div 4. load (b + word_of_nat (4 * j)) (mm m') = Inr 0) \<and>
    (\<forall>c \<in> P. \<forall>u. same_page c u \<longrightarrow> (\<forall>j < class_size i. u \<noteq> b + word_of_nat j) \<longrightarrow> load u (mm m') = load u (mm m))"
proof -
  note D = heap_preD[OF pre]
  obtain a k where a: "L a = Some i" "k < class_cnt i" "b = blk a i k"
    using D(9)[OF i, of b] b by (auto simp: blks_def)
  note ap = arena_page[OF pre a(1)]
  have ba: "block2arena b = a" and bb: "b \<in> blks a i"
    using blk_arena(1)[OF ap(2) i a(2)] a by (auto simp: blks_def)
  have dist: "distinct xs" "b \<notin> set xs"
    using D(8)[OF i] b by simp_all
  obtain mm' where c: "clear_words (class_size i div 4) b (mm m) = Inr mm'" "pages P (m\<lparr>mm := mm'\<rparr>)"
    "\<forall>j < class_size i div 4. load (b + word_of_nat (4 * j)) mm' = Inr 0"
    "\<forall>c \<in> P. \<forall>u. same_page c u \<longrightarrow> (\<forall>j < class_size i. u \<noteq> b + word_of_nat j) \<longrightarrow> load u mm' = load u (mm m)"
    using clear_block[OF D(1) ap(1) i a(2)] a(3) by blast
  let ?r = "(arenas h a)\<lparr>a_cnt := a_cnt (arenas h a) - 1\<rparr>"
  let ?h = "set_arena a ?r (set_free_list pf i xs h)" and ?m = "m\<lparr>mm := mm'\<rparr>"
  have run: "take_block pf i h m = Inr ((b, ?h), ?m)"
    using descs_okD(1,2)[OF D(3)] i b c(1) ba page_mapped[OF D(1) ap(1)] by (auto simp: take_block_def arena_at_def)
  have "unat (a_cnt (arenas h a)) = Suc (card (blks a i \<inter> set xs))"
    using D(7)[OF a(1)] b bb dist(2) card_blks(2)[OF ap(2) i] by simp
  moreover from this have "a_cnt (arenas h a) \<noteq> 0"
    by auto
  ultimately have cnt: "unat (a_cnt ?r) = card (blks a i \<inter> set xs)"
    by (simp add: unat_minus_one)
  have xs: "\<forall>b \<in> set xs. \<exists>a. L a = Some i \<and> b \<in> blks a i" "set xs - blks a i = set (fl pf h i) - blks a i"
    using D(9)[OF i] b bb by auto
  have r: "a_desc ?r = Some (pf, i)" "\<not> a_large ?r"
    using D(5,6)[OF a(1)] by simp_all
  note u = heap_pre_update[OF pre a(1) c(2) dist(1) xs r cnt]
  have "card (blks a i \<inter> set xs) < card (blks a i)"
    using bb dist(2) card_blks(2)[OF ap(2) i] by (intro psubset_card_mono) auto
  then have "in_use pf L ?h c" for c
    using u(2,3) rest[of c] ba a(1) card_blks(1)[OF ap(2) i] by (cases "c = a") (auto simp: in_use_def)
  then have inv: "heap_inv pf pages P L ?h ?m"
    using u(1) by (simp add: heap_inv_def)
  have al: "x \<in> allocated pf L h \<longleftrightarrow> x \<noteq> b \<and> x \<notin> set xs" if "x \<in> blks a i" for x
    using allocated_iff[OF pre a(1) that] b by simp
  then have "allocated pf L ?h = insert b (allocated pf L h)" "b \<notin> allocated pf L h"
    using bb dist(2) unfolding u(4) by auto
  then show ?thesis
    using run a inv c(3,4) by (intro exI[of _ ?h] exI[of _ ?m] exI[of _ a] exI[of _ k]) simp
qed

end

context page_pool
begin

text \<open>A heap whose pages are still there, after calls that changed nothing but the memory.\<close>

lemma heap_inv_pages: "heap_inv pf pages P L h m \<Longrightarrow> pages P m' \<Longrightarrow> heap_inv pf pages P L h m'"
  by (simp add: heap_inv_def heap_pre_def)

lemma new_arena_ok:
  assumes inv: "heap_inv pf pages P L h m" and i: "i < 7" and e: "fl pf h i = []" and a: "a \<notin> P" "pages (insert a P) m'"
    and r: "a_desc r = Some (pf, i)" "\<not> a_large r" "unat (a_cnt r) = class_cnt i"
  defines "h' \<equiv> set_arena a r (set_free_list pf i (map (blk a i) [0..<class_cnt i]) h)"
  shows "heap_pre pf pages (insert a P) (L(a \<mapsto> i)) h' m'" "\<And>c. c \<noteq> a \<Longrightarrow> in_use pf (L(a \<mapsto> i)) h' c"
    "fl pf h' i = map (blk a i) [0..<class_cnt i]" "allocated pf (L(a \<mapsto> i)) h' = allocated pf L h"
proof -
  have pre: "heap_pre pf pages P L h m" and use: "\<And>c. in_use pf L h c"
    using inv by (simp_all add: heap_inv_def)
  note D = heap_preD[OF pre]
  have al: "frame a = a"
    using page_aligned[OF a(2)] by simp
  have La: "L a = None"
    using D(2) a(1) by auto
  let ?xs = "map (blk a i) [0..<class_cnt i]"
  have xs: "set ?xs = blks a i" "distinct ?xs"
    using blk_inj[OF al al i] by (auto simp: blks_def distinct_map inj_on_def atLeast0LessThan)
  have f: "fl pf h' j = (if j = i then ?xs else fl pf h j)" for j
    unfolding h'_def using descs_okD(1)[OF D(3)] i by (simp add: set_free_list_simps(3)[OF not_sym])
  then show "fl pf h' i = ?xs"
    by simp
  have other: "blks c j \<inter> set (fl pf h' j) = blks c j \<inter> set (fl pf h j)" if c: "L c = Some j" for c j
  proof (cases "j = i")
    case True
    have "x \<notin> blks a i" if "x \<in> blks c i" for x
      using blks_disjoint[OF al _ i i, of c x] arena_page(2)[OF pre c] La c that by auto
    then show ?thesis
      unfolding f using True xs(1) e by auto
  qed (simp add: f)
  have ca: "c \<noteq> a" if "L c = Some j" for c j
    using that La by auto
  show pre': "heap_pre pf pages (insert a P) (L(a \<mapsto> i)) h' m'"
    unfolding heap_pre_def
  proof (intro conjI allI impI ballI)
    fix j :: nat assume j: "j < 7"
    show "distinct (fl pf h' j)"
      unfolding f using D(8)[OF j] xs(2) by simp
    fix c assume "c \<in> set (fl pf h' j)"
    then show "\<exists>b. (L(a \<mapsto> i)) b = Some j \<and> c \<in> blks b j"
      unfolding f using D(9)[OF j, of c] xs(1) ca by (cases "j = i") fastforce+
  next
    fix c j assume c: "(L(a \<mapsto> i)) c = Some j"
    show "j < 7" "a_desc (arenas h' c) = Some (pf, j)" "\<not> a_large (arenas h' c)"
      using D(4-6)[of c j] i r c by (auto simp: h'_def split: if_splits)
    show "unat (a_cnt (arenas h' c)) = card (blks c j \<inter> set (fl pf h' j))"
    proof (cases "c = a")
      case True
      then show ?thesis
        using r(3) c xs(1) card_blks(1)[OF al i] unfolding f by (simp add: h'_def)
    next
      case False
      then show ?thesis
        using D(7)[of c j] other[of c j] c by (simp add: h'_def)
    qed
  qed (use a(2) D(2,3) in \<open>auto simp: h'_def\<close>)
  show "in_use pf (L(a \<mapsto> i)) h' c" if "c \<noteq> a" for c
    using other[of c] that use[of c] unfolding in_use_def by auto
  show "allocated pf (L(a \<mapsto> i)) h' = allocated pf L h"
  proof (rule set_eqI, rule iffI)
    fix x assume "x \<in> allocated pf (L(a \<mapsto> i)) h'"
    then obtain c j where c: "(L(a \<mapsto> i)) c = Some j" "x \<in> blks c j" "x \<notin> set (fl pf h' j)"
      unfolding allocated_def by blast
    then have "c \<noteq> a"
      using f xs(1) by auto
    then show "x \<in> allocated pf L h"
      unfolding allocated_def using c other[of c j] by auto
  next
    fix x assume "x \<in> allocated pf L h"
    then obtain c j where c: "L c = Some j" "x \<in> blks c j" "x \<notin> set (fl pf h j)"
      unfolding allocated_def by blast
    then have "(L(a \<mapsto> i)) c = Some j" "x \<notin> set (fl pf h' j)"
      using other[OF c(1)] ca[OF c(1)] by auto
    then show "x \<in> allocated pf (L(a \<mapsto> i)) h'"
      unfolding allocated_def using c(2) by blast
  qed
qed

lemma refill_ok:
  assumes inv: "heap_inv pf pages P L h m" and i: "i < 7" and e: "fl pf h i = []"
  shows "\<exists>r m'. refill pf i (descs_of pf h ! i) h m = Inr (r, m') \<and> now_pg_dir m' = now_pg_dir m \<and>
    (\<forall>c \<in> P. \<forall>w. same_page c w \<longrightarrow> load w (mm m') = load w (mm m)) \<and>
    (case r of None \<Rightarrow> heap_inv pf pages P L h m'
     | Some h' \<Rightarrow> \<exists>a. a \<notin> P \<and> heap_pre pf pages (insert a P) (L(a \<mapsto> i)) h' m' \<and> (\<forall>c. c \<noteq> a \<longrightarrow> in_use pf (L(a \<mapsto> i)) h' c) \<and>
         fl pf h' i = map (blk a i) [0..<class_cnt i] \<and> allocated pf (L(a \<mapsto> i)) h' = allocated pf L h)"
proof -
  have pre: "heap_pre pf pages P L h m"
    using inv by (simp add: heap_inv_def)
  note D = heap_preD[OF pre] and ds = descs_okD[OF heap_preD(3)[OF pre]]
  obtain a m1 where a: "malloc_page pf 1 m = Inr (a, m1)" "\<forall>c \<in> P. \<forall>w. same_page c w \<longrightarrow> load w (mm m1) = load w (mm m)"
    "now_pg_dir m1 = now_pg_dir m" "if a = NULL then pages P m1 else a \<notin> P \<and> pages (insert a P) m1"
    using alloc_page[OF D(1)] by blast
  show ?thesis
  proof (cases "a = NULL")
    case True
    then show ?thesis
      using a heap_inv_pages[OF inv, of m1] by (intro exI[of _ None] exI[of _ m1]) (simp add: refill_def)
  next
    case False
    then have p: "a \<notin> P" "pages (insert a P) m1"
      using a(4) by simp_all
    have al: "frame a = a"
      using page_aligned[OF p(2)] by simp
    obtain mm2 where c: "clear_page a (mm m1) = Inr mm2" "pages (insert a P) (m1\<lparr>mm := mm2\<rparr>)"
      "\<forall>b \<in> insert a P. \<forall>u. same_page b u \<longrightarrow> load u mm2 = (if b = a then Inr 0 else load u (mm m1))"
      using clear_one[OF p(2), of a] by auto
    let ?d = "descs_of pf h ! i"
    let ?r = "\<lparr>a_desc = Some (pf, i), a_cnt = blocks_per_arena ?d, a_large = False\<rparr>"
    let ?h = "set_arena a ?r (set_free_list pf i (map (blk a i) [0..<class_cnt i]) h)"
    have "split_arena a (block_size ?d) (word_of_nat 0) (class_cnt i) [] = Inr ([] @ map (blk a i) [0..<0 + class_cnt i])"
      by (rule split_arena_ok[OF ds(2)[OF i] i al]) simp_all
    then have run: "refill pf i ?d h m = Inr (Some ?h, m1\<lparr>mm := mm2\<rparr>)"
      using a(1) False c(1) e ds(3)[OF i] by (simp add: refill_def)
    note n = new_arena_ok[OF inv i e p(1) c(2), of ?r]
    have "load w mm2 = load w (mm m)" if "b \<in> P" "same_page b w" for b w
      using c(3) a(2) that p(1) by auto
    then show ?thesis
      using run n a(3) p(1) ds(3)[OF i] by (intro exI[of _ "Some ?h"] exI[of _ "m1\<lparr>mm := mm2\<rparr>"]) auto
  qed
qed

end

text \<open>
  What a caller of the allocator is promised: a block of the smallest sufficient class, new to it, set to zero, while every word outside
  of the block that the client's pages had keeps its value.
\<close>

definition granted :: "pool_flag \<Rightarrow> (u32 set \<Rightarrow> mem \<Rightarrow> bool) \<Rightarrow> u32 \<Rightarrow> u32 set \<Rightarrow> (u32 \<Rightarrow> nat option) \<Rightarrow> heap \<Rightarrow> mem \<Rightarrow> u32 \<Rightarrow> heap \<Rightarrow> mem \<Rightarrow> bool" where
  "granted pf pages sz P L h m b h' m' \<longleftrightarrow> (\<exists>P' L' a i k. heap_inv pf pages P' L' h' m' \<and> P \<subseteq> P' \<and> L \<subseteq>\<^sub>m L' \<and>
     L' a = Some i \<and> k < class_cnt i \<and> b = blk a i k \<and> unat sz \<le> class_size i \<and> (\<forall>j < i. class_size j < unat sz) \<and>
     b \<notin> allocated pf L h \<and> allocated pf L' h' = insert b (allocated pf L h) \<and>
     (\<forall>j < class_size i div 4. load (b + word_of_nat (4 * j)) (mm m') = Inr 0) \<and>
     (\<forall>c \<in> P. \<forall>u. same_page c u \<longrightarrow> (\<forall>j < class_size i. u \<noteq> b + word_of_nat j) \<longrightarrow> load u (mm m') = load u (mm m)))"

context page_pool
begin

text \<open>Taking a block of a heap that extends the one before the call.\<close>

lemma take_block_granted:
  assumes pre: "heap_pre pf pages P' L' h1 m1" and ext: "P \<subseteq> P'" "L \<subseteq>\<^sub>m L'" "allocated pf L' h1 = allocated pf L h"
    and old: "\<forall>c \<in> P. \<forall>w. same_page c w \<longrightarrow> load w (mm m1) = load w (mm m)"
    and i: "i < 7" "unat sz \<le> class_size i" "\<forall>j < i. class_size j < unat sz"
    and b: "fl pf h1 i = b # xs" "\<And>a. a \<noteq> block2arena b \<Longrightarrow> in_use pf L' h1 a"
  shows "\<exists>h' m'. take_block pf i h1 m1 = Inr ((b, h'), m') \<and> b \<noteq> NULL \<and> now_pg_dir m' = now_pg_dir m1 \<and> granted pf pages sz P L h m b h' m'"
proof -
  obtain h' m' a k where t: "take_block pf i h1 m1 = Inr ((b, h'), m')" "L' a = Some i" "k < class_cnt i" "b = blk a i k" "heap_inv pf pages P' L' h' m'"
    "now_pg_dir m' = now_pg_dir m1" "b \<notin> allocated pf L' h1" "allocated pf L' h' = insert b (allocated pf L' h1)"
    "\<forall>j < class_size i div 4. load (b + word_of_nat (4 * j)) (mm m') = Inr 0"
    "\<forall>c \<in> P'. \<forall>u. same_page c u \<longrightarrow> (\<forall>j < class_size i. u \<noteq> b + word_of_nat j) \<longrightarrow> load u (mm m') = load u (mm m1)"
    using take_block_ok[OF pre i(1) b] by blast
  have "b \<noteq> NULL"
    using blk_arena(2)[OF arena_page(2)[OF pre t(2)] i(1) t(3)] t(4) by simp
  moreover have "granted pf pages sz P L h m b h' m'"
    unfolding granted_def
  proof (rule exI[of _ P'], rule exI[of _ L'], rule exI[of _ a], rule exI[of _ i], rule exI[of _ k], intro conjI)
    show "\<forall>c \<in> P. \<forall>u. same_page c u \<longrightarrow> (\<forall>j < class_size i. u \<noteq> b + word_of_nat j) \<longrightarrow> load u (mm m') = load u (mm m)"
    proof (intro ballI allI impI)
      fix c u assume c: "c \<in> P" "same_page c u" "\<forall>j < class_size i. u \<noteq> b + word_of_nat j"
      then have "load u (mm m') = load u (mm m1)"
        using t(10) ext(1) by blast
      then show "load u (mm m') = load u (mm m)"
        using old c(1,2) by simp
    qed
  qed (use t ext i(2,3) in simp_all)
  ultimately show ?thesis
    using t(1,6) by blast
qed

lemma malloc_small_ok:
  assumes inv: "heap_inv pf pages P L h m" and sz: "unat sz \<le> 1024"
  shows "\<exists>b h' m'. malloc_small pf sz h m = Inr ((b, h'), m') \<and> now_pg_dir m' = now_pg_dir m \<and>
    (if b = NULL then h' = h \<and> heap_inv pf pages P L h m' \<and> (\<forall>c \<in> P. \<forall>w. same_page c w \<longrightarrow> load w (mm m') = load w (mm m))
     else granted pf pages sz P L h m b h' m')"
proof -
  have pre: "heap_pre pf pages P L h m" and use: "\<And>a. in_use pf L h a"
    using inv by (simp_all add: heap_inv_def)
  note D = heap_preD[OF pre] and ds = descs_okD[OF heap_preD(3)[OF pre]]
  obtain i where i: "i < 7" "pick_desc sz 0 (descs_of pf h) = i" "unat sz \<le> class_size i" "\<forall>j < i. class_size j < unat sz"
    using pick_desc_ok[OF D(3) sz] by blast
  show ?thesis
  proof (cases "fl pf h i")
    case (Cons b xs)
    have run: "malloc_small pf sz h m = take_block pf i h m"
      using i(1,2) ds(1) Cons by (simp add: malloc_small_def)
    show ?thesis
      unfolding run using take_block_granted[OF pre order.refl map_le_refl refl _ i(1,3,4) Cons use, of m] by auto
  next
    case Nil
    obtain r m1 where r: "refill pf i (descs_of pf h ! i) h m = Inr (r, m1)" "now_pg_dir m1 = now_pg_dir m"
      "\<forall>c \<in> P. \<forall>w. same_page c w \<longrightarrow> load w (mm m1) = load w (mm m)"
      "case r of None \<Rightarrow> heap_inv pf pages P L h m1
       | Some h' \<Rightarrow> \<exists>a. a \<notin> P \<and> heap_pre pf pages (insert a P) (L(a \<mapsto> i)) h' m1 \<and> (\<forall>c. c \<noteq> a \<longrightarrow> in_use pf (L(a \<mapsto> i)) h' c) \<and>
         fl pf h' i = map (blk a i) [0..<class_cnt i] \<and> allocated pf (L(a \<mapsto> i)) h' = allocated pf L h"
      using refill_ok[OF inv i(1) Nil] by blast
    have run: "malloc_small pf sz h m = (case r of None \<Rightarrow> Inr ((NULL, h), m1) | Some h1 \<Rightarrow> take_block pf i h1 m1)"
      using i(1,2) ds(1) Nil r(1) by (simp add: malloc_small_def)
    show ?thesis
    proof (cases r)
      case None
      then show ?thesis
        using run r(2-4) by simp
    next
      case (Some h1)
      then obtain a where a: "a \<notin> P" "heap_pre pf pages (insert a P) (L(a \<mapsto> i)) h1 m1" "\<And>c. c \<noteq> a \<Longrightarrow> in_use pf (L(a \<mapsto> i)) h1 c"
        "fl pf h1 i = map (blk a i) [0..<class_cnt i]" "allocated pf (L(a \<mapsto> i)) h1 = allocated pf L h"
        using r(4) by auto
      have pos: "0 < class_cnt i"
        using class_bounds(3)[OF i(1)] by simp
      have b: "fl pf h1 i = blk a i 0 # map (blk a i) [1..<class_cnt i]" "block2arena (blk a i 0) = a"
        using a(4) upt_conv_Cons[OF pos] blk_arena(1)[OF arena_page(2)[OF a(2)] i(1) pos] by simp_all
      have "L a = None"
        using D(2) a(1) by auto
      then have "L \<subseteq>\<^sub>m L(a \<mapsto> i)"
        by (auto simp: map_le_def)
      from take_block_granted[OF a(2) subset_insertI this a(5) r(3) i(1,3,4) b(1)] a(3) b(2) show ?thesis
        unfolding run using Some r(2) by auto
    qed
  qed
qed

end

context page_pool
begin

text \<open>The last block of an arena came back: its blocks leave the list and its page is given back.\<close>

lemma drop_arena:
  assumes pre: "heap_pre pf pages P L h m" and use: "\<And>c. c \<noteq> a \<Longrightarrow> in_use pf L h c" and a: "L a = Some i" and full: "blks a i \<subseteq> set (fl pf h i)"
    and pg: "pages (P - {a}) m'"
  defines "h' \<equiv> set_free_list pf i (filter (\<lambda>b. b \<notin> blks a i) (fl pf h i)) h"
  shows "heap_inv pf pages (P - {a}) (L(a := None)) h' m'" "allocated pf (L(a := None)) h' = allocated pf L h"
proof -
  note D = heap_preD[OF pre] and ap = arena_page[OF pre a]
  have f: "fl pf h' j = (if j = i then filter (\<lambda>b. b \<notin> blks a i) (fl pf h i) else fl pf h j)" for j
    unfolding h'_def using descs_okD(1)[OF D(3)] ap(3) by (simp add: set_free_list_simps(3)[OF not_sym])
  have other: "blks c j \<inter> set (fl pf h' j) = blks c j \<inter> set (fl pf h j)" if c: "L c = Some j" "c \<noteq> a" for c j
  proof (cases "j = i")
    case True
    have "x \<notin> blks a i" if "x \<in> blks c i" for x
      using block_class(1)[OF pre a, of x c i] c True that by auto
    then show ?thesis
      unfolding f using True by auto
  qed (simp add: f)
  have pre': "heap_pre pf pages (P - {a}) (L(a := None)) h' m'"
    unfolding heap_pre_def
  proof (intro conjI allI impI ballI)
    fix j :: nat assume j: "j < 7"
    show "distinct (fl pf h' j)"
      unfolding f using D(8)[OF j] D(8)[OF ap(3)] by simp
    fix x assume "x \<in> set (fl pf h' j)"
    then have x: "x \<in> set (fl pf h j)" "j = i \<Longrightarrow> x \<notin> blks a i"
      unfolding f by (auto split: if_splits)
    obtain c where c: "L c = Some j" "x \<in> blks c j"
      using D(9)[OF j x(1)] by blast
    then have "c \<noteq> a"
      using x(2) a by auto
    then show "\<exists>c. (L(a := None)) c = Some j \<and> x \<in> blks c j"
      using c by auto
  next
    fix c j assume c: "(L(a := None)) c = Some j"
    then have c': "L c = Some j" "c \<noteq> a"
      by (auto split: if_splits)
    show "j < 7" "a_desc (arenas h' c) = Some (pf, j)" "\<not> a_large (arenas h' c)"
      using D(4-6)[OF c'(1)] by (auto simp: h'_def)
    show "unat (a_cnt (arenas h' c)) = card (blks c j \<inter> set (fl pf h' j))"
      using D(7)[OF c'(1)] other[OF c'] by (simp add: h'_def)
  qed (use pg D(2,3) in \<open>auto simp: h'_def\<close>)
  moreover have "in_use pf (L(a := None)) h' c" for c
    using other[of c] use[of c] unfolding in_use_def by auto
  ultimately show "heap_inv pf pages (P - {a}) (L(a := None)) h' m'"
    by (simp add: heap_inv_def)
  show "allocated pf (L(a := None)) h' = allocated pf L h"
  proof (rule set_eqI, rule iffI)
    fix x assume "x \<in> allocated pf (L(a := None)) h'"
    then obtain c j where c: "L c = Some j" "c \<noteq> a" "x \<in> blks c j" "x \<notin> set (fl pf h' j)"
      unfolding allocated_def by (auto split: if_splits)
    then show "x \<in> allocated pf L h"
      unfolding allocated_def using other[OF c(1,2)] by auto
  next
    fix x assume "x \<in> allocated pf L h"
    then obtain c j where c: "L c = Some j" "x \<in> blks c j" "x \<notin> set (fl pf h j)"
      unfolding allocated_def by blast
    then have ca: "c \<noteq> a"
      using full a by auto
    then have "(L(a := None)) c = Some j" "x \<notin> set (fl pf h' j)"
      using other[OF c(1) ca] c by auto
    then show "x \<in> allocated pf (L(a := None)) h'"
      unfolding allocated_def using c(2) by blast
  qed
qed

lemma free_block_ok:
  assumes inv: "heap_inv pf pages P L h m" and b: "b \<in> allocated pf L h"
  shows "\<exists>h' m' P' L'. free_block pf b h m = Inr (h', m') \<and> heap_inv pf pages P' L' h' m' \<and> P' \<subseteq> P \<and> L' \<subseteq>\<^sub>m L \<and>
    now_pg_dir m' = now_pg_dir m \<and> allocated pf L' h' = allocated pf L h - {b} \<and>
    (\<forall>c \<in> P'. \<forall>u. same_page c u \<longrightarrow> load u (mm m') = load u (mm m))"
proof -
  have pre: "heap_pre pf pages P L h m" and use: "\<And>a. in_use pf L h a"
    using inv by (simp_all add: heap_inv_def)
  note D = heap_preD[OF pre] and ds = descs_okD[OF heap_preD(3)[OF pre]]
  obtain a i where a: "L a = Some i" and bb: "b \<in> blks a i" "b \<notin> set (fl pf h i)"
    using b unfolding allocated_def by blast
  note ap = arena_page[OF pre a]
  have ba: "block2arena b = a"
    using blks_arena(1)[OF ap(2,3) bb(1)] .
  let ?d = "descs_of pf h ! i" and ?xs = "fl pf h i @ [b]"
  let ?r = "(arenas h a)\<lparr>a_cnt := a_cnt (arenas h a) + 1\<rparr>"
  let ?h = "set_arena a ?r (set_free_list pf i ?xs h)"
  have fin: "finite (blks a i)" "card (blks a i) = class_cnt i"
    using card_blks[OF ap(2,3)] by simp_all
  have old: "unat (a_cnt (arenas h a)) = card (blks a i \<inter> set (fl pf h i))" "unat (a_cnt (arenas h a)) < class_cnt i" "class_cnt i \<le> 255"
    using D(7)[OF a] use[of a] a class_bounds(4)[OF ap(3)] by (simp_all add: in_use_def)
  have cnt: "unat (a_cnt ?r) = card (blks a i \<inter> set ?xs)" "unat (a_cnt ?r) = Suc (unat (a_cnt (arenas h a)))"
    using old bb fin(1) by (simp_all add: unat_word_ariths)
  have xs: "distinct ?xs" "\<forall>x \<in> set ?xs. \<exists>a. L a = Some i \<and> x \<in> blks a i" "set ?xs - blks a i = set (fl pf h i) - blks a i"
    using D(8,9)[OF ap(3)] bb a by auto
  have r: "a_desc ?r = Some (pf, i)" "\<not> a_large ?r"
    using D(5,6)[OF a] by simp_all
  note u = heap_pre_update[OF pre a D(1) xs r cnt(1)]
  have al: "x \<in> allocated pf L h \<longleftrightarrow> x \<notin> set (fl pf h i)" if "x \<in> blks a i" for x
    using allocated_iff[OF pre a that] .
  have all: "allocated pf L ?h = allocated pf L h - {b}"
    unfolding u(4) using al bb(1) by auto
  have hdr: "arena_at a h m = Inr (arenas h a)"
    using page_mapped[OF D(1) ap(1)] by (auto simp: arena_at_def)
  show ?thesis
  proof (cases "a_cnt (arenas h a) + 1 = blocks_per_arena ?d")
    case False
    have run: "free_block pf b h m = Inr (?h, m)"
      using ba hdr r ds(1) ap(3) bb(2) False by (simp add: free_block_def Let_def)
    have "unat (a_cnt ?r) \<noteq> class_cnt i"
      using False ds(3)[OF ap(3)] by (auto simp: word_unat_eq_iff)
    then have "in_use pf L ?h a"
      using u(3) a cnt old(2) by (simp add: in_use_def)
    then have "heap_inv pf pages P L ?h m"
      using u(1,2) use unfolding heap_inv_def by metis
    then show ?thesis
      using run all by (intro exI[of _ ?h] exI[of _ m] exI[of _ P] exI[of _ L]) (simp add: map_le_refl)
  next
    case True
    have "card (blks a i \<inter> set ?xs) = card (blks a i)"
      using cnt(1) True ds(3)[OF ap(3)] fin(2) by simp
    then have full: "blks a i \<subseteq> set ?xs"
      using card_subset_eq[OF fin(1), of "blks a i \<inter> set ?xs"] by auto
    let ?ys = "filter (\<lambda>x. x \<notin> blks a i) ?xs"
    have mem: "blk a i l \<in> set ?xs" if "0 \<le> l" "l < 0 + class_cnt i" for l
      using full that by (auto simp: blks_def)
    have "unlink_blocks a (block_size ?d) (word_of_nat 0) (class_cnt i) ?xs = Inr (filter (\<lambda>x. x \<notin> blk a i ` {0..<0 + class_cnt i}) ?xs)"
      by (rule unlink_blocks_ok[OF ds(2)[OF ap(3)] ap(3,2) _ xs(1) mem]) simp_all
    then have ul: "unlink_blocks a (block_size ?d) 0 (unat (blocks_per_arena ?d)) ?xs = Inr ?ys"
      by (simp only: ds(3)[OF ap(3)] blks_def atLeast0LessThan add_0 semiring_1_class.of_nat_0)
    obtain m' where m': "mfree_page pf a 1 m = Inr m'" "pages (P - {a}) m'" "now_pg_dir m' = now_pg_dir m"
      "\<forall>b \<in> P - {a}. \<forall>w. same_page b w \<longrightarrow> load w (mm m') = load w (mm m)"
      using release_page[OF D(1) ap(1)] by blast
    have run: "free_block pf b h m = Inr (set_free_list pf i ?ys ?h, m')"
      using ba hdr r ds(1) ap(3) bb(2) True ul m'(1) by (simp add: free_block_def Let_def)
    have "\<And>c. c \<noteq> a \<Longrightarrow> in_use pf L ?h c"
      using u(2) use by simp
    note dr = drop_arena[OF u(1) this a, unfolded u(3), OF _ full m'(2)]
    show ?thesis
      using run dr all m'(3,4) by (intro exI[of _ "set_free_list pf i ?ys ?h"] exI[of _ m'] exI[of _ "P - {a}"] exI[of _ "L(a := None)"])
        (auto simp: map_le_def)
  qed
qed

end

subsection \<open>Under the lock of the pool\<close>

definition locks_kept :: "mem \<Rightarrow> mem \<Rightarrow> bool" where
  "locks_kept m m' \<longleftrightarrow> pool_lock (kernel_pool m') = pool_lock (kernel_pool m) \<and> pool_lock (user_pool m') = pool_lock (user_pool m)"

lemma locks_kept_refl [simp]: "locks_kept m m"
  by (simp add: locks_kept_def)

lemma locks_kept_trans: "locks_kept m m' \<Longrightarrow> locks_kept m' m'' \<Longrightarrow> locks_kept m m''"
  by (simp add: locks_kept_def)

lemma palloc_lock: "palloc p = Inr (f, p') \<Longrightarrow> pool_lock p' = pool_lock p"
  by (auto simp: palloc_def andthen_Inr_iff split: if_splits)

lemma set_pool_locks: "pool_lock p = pool_lock (pool_of pf m) \<Longrightarrow> locks_kept m (set_pool pf p m)"
  by (cases pf) (simp_all add: set_pool_def locks_kept_def)

lemma mm_locks [simp]: "locks_kept m (m'\<lparr>mm := x\<rparr>) = locks_kept m m'"
  by (simp add: locks_kept_def)

lemma page_table_add_locks: "page_table_add v f m = Inr m' \<Longrightarrow> locks_kept m m'"
  by (auto simp: page_table_add_def andthen_Inr_iff locks_kept_def dest!: palloc_lock split: if_splits prod.splits)

lemma malloc_page_loop_locks: "malloc_page_loop pf n v m = Inr (ok, m') \<Longrightarrow> locks_kept m m'"
proof (induction n arbitrary: v m)
  case (Suc n)
  from Suc.prems obtain f p where p: "palloc (pool_of pf m) = Inr (f, p)"
    and r: "(if f = NULL then Inr (False, set_pool pf p m) else andthen (page_table_add v f (set_pool pf p m)) (malloc_page_loop pf n (v + PG_SIZE))) = Inr (ok, m')"
    by (auto simp: andthen_Inr_iff Let_def)
  have k: "locks_kept m (set_pool pf p m)"
    using palloc_lock[OF p] by (rule set_pool_locks)
  show ?case
  proof (cases "f = NULL")
    case True
    then show ?thesis
      using r k by simp
  next
    case False
    then obtain m1 where "page_table_add v f (set_pool pf p m) = Inr m1" "malloc_page_loop pf n (v + PG_SIZE) m1 = Inr (ok, m')"
      using r by (auto simp: andthen_Inr_iff)
    then show ?thesis
      using k page_table_add_locks Suc.IH locks_kept_trans by blast
  qed
qed simp

lemma vaddr_get_locks: "vaddr_get pf cnt m = Inr (v, m') \<Longrightarrow> locks_kept m m'"
  by (cases pf) (auto simp: vaddr_get_def andthen_Inr_iff locks_kept_def split: option.splits prod.splits)

lemma malloc_page_locks: "malloc_page pf cnt m = Inr (v, m') \<Longrightarrow> locks_kept m m'"
  by (auto simp: malloc_page_def andthen_Inr_iff split: if_splits prod.splits
    dest!: vaddr_get_locks malloc_page_loop_locks intro: locks_kept_trans)

lemma pfree_locks: "pfree f m = Inr m' \<Longrightarrow> locks_kept m m'"
  by (auto simp: pfree_def andthen_Inr_iff Let_def intro!: set_pool_locks split: if_splits)

lemma mfree_page_loop_locks: "mfree_page_loop u n v m = Inr m' \<Longrightarrow> locks_kept m m'"
proof (induction n arbitrary: v m)
  case (Suc n)
  then obtain f m1 mm1 where "pfree f m = Inr m1" "mfree_page_loop u n (v + PG_SIZE) (m1\<lparr>mm := mm1\<rparr>) = Inr m'"
    by (auto simp: andthen_Inr_iff)
  then show ?case
    using pfree_locks Suc.IH locks_kept_trans mm_locks by blast
qed simp

lemma vaddr_remove_locks: "vaddr_remove pf v cnt m = Inr m' \<Longrightarrow> locks_kept m m'"
  by (cases pf) (auto simp: vaddr_remove_def andthen_Inr_iff locks_kept_def)

lemma mfree_page_locks: "mfree_page pf v cnt m = Inr m' \<Longrightarrow> locks_kept m m'"
  by (auto simp: mfree_page_def andthen_Inr_iff dest!: mfree_page_loop_locks vaddr_remove_locks intro: locks_kept_trans)

lemma refill_locks: "refill pf i d h m = Inr (r, m') \<Longrightarrow> locks_kept m m'"
  by (auto simp: refill_def andthen_Inr_iff split: if_splits prod.splits dest!: malloc_page_locks)

lemma take_block_locks: "take_block pf i h m = Inr (x, m') \<Longrightarrow> locks_kept m m'"
proof (cases "rd (descs_of pf h) i")
  case (Inr d)
  assume "take_block pf i h m = Inr (x, m')"
  then show ?thesis
    using Inr by (cases "free_list d") (auto simp: take_block_def andthen_Inr_iff)
qed (simp add: take_block_def)

lemma malloc_small_locks: "malloc_small pf sz h m = Inr (x, m') \<Longrightarrow> locks_kept m m'"
  by (auto simp: malloc_small_def andthen_Inr_iff Let_def split: if_splits option.splits
    dest!: refill_locks take_block_locks intro: locks_kept_trans)

lemma free_block_locks: "free_block pf b h m = Inr (h', m') \<Longrightarrow> locks_kept m m'"
  by (auto simp: free_block_def andthen_Inr_iff Let_def split: if_splits option.splits dest!: mfree_page_locks)

lemma while_locked_ok:
  assumes "pool_lock (pool_of pf m) = lock_init" "running_thread s \<noteq> NULL"
    and "body (set_pool pf ((pool_of pf m)\<lparr>pool_lock := locked_by (running_thread s)\<rparr>) m) = Inr (x, m1)"
    and "locks_kept (set_pool pf ((pool_of pf m)\<lparr>pool_lock := locked_by (running_thread s)\<rparr>) m) m1"
  shows "while_locked pf body m s = Inr (Return x (set_pool pf ((pool_of pf m1)\<lparr>pool_lock := lock_init\<rparr>) m1) s)"
proof -
  have "pool_lock (pool_of pf m1) = locked_by (running_thread s)"
    using assms(4) by (cases pf) (simp_all add: locks_kept_def set_pool_def)
  then show ?thesis
    using assms(1-3) by (simp add: while_locked_def lock_pool_def unlock_pool_def lock_acquire_uncontended lock_release_uncontended)
qed

lemma set_pool_other [simp]: "mm (set_pool pf p m) = mm m" "now_pg_dir (set_pool pf p m) = now_pg_dir m" "pool_of pf (set_pool pf p m) = p"
  by (cases pf; simp add: set_pool_def)+

lemma own_pool_now: "now_pg_dir m' = now_pg_dir m \<Longrightarrow> own_pool m' = own_pool m"
  by (simp add: own_pool_def)

context page_pool
begin

abbreviation with_lock :: "lock \<Rightarrow> mem \<Rightarrow> mem" where
  "with_lock l m \<equiv> set_pool pf ((pool_of pf m)\<lparr>pool_lock := l\<rparr>) m"

lemma heap_inv_lock: "heap_inv pf pages P L h (with_lock l m) = heap_inv pf pages P L h m"
  by (simp add: heap_inv_def heap_pre_def lock_irrelevant)

lemma granted_lock: "granted pf pages sz P L h (with_lock l m) b h' m' \<Longrightarrow> granted pf pages sz P L h m b h' (with_lock l' m')"
  unfolding granted_def heap_inv_lock by simp

lemma sys_malloc_small:
  assumes inv: "heap_inv pf pages P L h m" and own: "own_pool m = pf" and l: "pool_lock (pool_of pf m) = lock_init" "running_thread s \<noteq> NULL"
    and sz: "0 < sz" "sz \<le> 1024" "sz < pool_size (pool_of pf m)"
  shows "\<exists>b h' m'. sys_malloc sz h m s = Inr (Return (b, h') m' s) \<and> own_pool m' = pf \<and> pool_lock (pool_of pf m') = lock_init \<and>
    (if b = NULL then h' = h \<and> heap_inv pf pages P L h m' else granted pf pages sz P L h m b h' m')"
proof -
  let ?m = "with_lock (locked_by (running_thread s)) m"
  have "heap_inv pf pages P L h ?m" "unat sz \<le> 1024"
    using inv sz(2) by (simp_all add: heap_inv_lock word_le_nat_alt)
  from malloc_small_ok[OF this] obtain b h' m1 where r: "malloc_small pf sz h ?m = Inr ((b, h'), m1)" "now_pg_dir m1 = now_pg_dir m"
    "if b = NULL then h' = h \<and> heap_inv pf pages P L h m1 else granted pf pages sz P L h ?m b h' m1"
    by (auto split: if_splits)
  have run: "sys_malloc sz h m s = Inr (Return (b, h') (with_lock lock_init m1) s)"
    using own sz(1,3) leD[OF sz(2)] while_locked_ok[where body = "malloc_small pf sz h", OF l r(1) malloc_small_locks[OF r(1)]] by (simp add: sys_malloc_def)
  have "own_pool (with_lock lock_init m1) = pf"
    using own_pool_now[of "with_lock lock_init m1" m] r(2) own by simp
  then show ?thesis
    using run r(3) granted_lock[of sz P L h "locked_by (running_thread s)" m b h' m1 lock_init]
    by (intro exI[of _ b] exI[of _ h'] exI[of _ "with_lock lock_init m1"]) (cases "b = NULL"; simp add: heap_inv_lock)
qed

lemma sys_free_small:
  assumes inv: "heap_inv pf pages P L h m" and own: "own_pool m = pf" and l: "pool_lock (pool_of pf m) = lock_init" "running_thread s \<noteq> NULL"
    and b: "b \<in> allocated pf L h"
  shows "\<exists>h' m' P' L'. sys_free b h m s = Inr (Return h' m' s) \<and> own_pool m' = pf \<and> pool_lock (pool_of pf m') = lock_init \<and>
    heap_inv pf pages P' L' h' m' \<and> P' \<subseteq> P \<and> L' \<subseteq>\<^sub>m L \<and> allocated pf L' h' = allocated pf L h - {b} \<and>
    (\<forall>c \<in> P'. \<forall>u. same_page c u \<longrightarrow> load u (mm m') = load u (mm m))"
proof -
  let ?m = "with_lock (locked_by (running_thread s)) m"
  have "heap_inv pf pages P L h ?m"
    using inv by (simp add: heap_inv_lock)
  from free_block_ok[OF this b] obtain h' m1 P' L' where r: "free_block pf b h ?m = Inr (h', m1)" "heap_inv pf pages P' L' h' m1" "P' \<subseteq> P" "L' \<subseteq>\<^sub>m L"
    "now_pg_dir m1 = now_pg_dir m" "allocated pf L' h' = allocated pf L h - {b}" "\<forall>c \<in> P'. \<forall>u. same_page c u \<longrightarrow> load u (mm m1) = load u (mm m)"
    by auto
  obtain a i k where a: "L a = Some i" "k < class_cnt i" "b = blk a i k"
    using b by (auto simp: allocated_def blks_def)
  have pre: "heap_pre pf pages P L h m"
    using inv by (simp add: heap_inv_def)
  have bn: "b \<noteq> NULL"
    using blk_arena(2)[OF arena_page(2,3)[OF pre a(1)] a(2)] a(3) by simp
  have "a \<le> b"
    using blk_arena(1)[OF arena_page(2,3)[OF pre a(1)] a(2)] a(3) word_and_le2[of b "0xfffff000"] by (auto simp: block2arena_def)
  then have "KERNEL_HEAP_START \<le> b" if "now_pg_dir m = NULL"
    using that own page_heap[OF heap_preD(1)[OF pre], of a] heap_preD(4)[OF pre a(1)] by (auto simp: own_pool_def split: if_splits)
  then have run: "sys_free b h m s = Inr (Return h' (with_lock lock_init m1) s)"
    using own bn while_locked_ok[where body = "free_block pf b h", OF l r(1) free_block_locks[OF r(1)]] by (simp add: sys_free_def)
  have "own_pool (with_lock lock_init m1) = pf"
    using own_pool_now[of "with_lock lock_init m1" m] r(5) own by simp
  then show ?thesis
    using run r(2-4,6,7) by (intro exI[of _ h'] exI[of _ "with_lock lock_init m1"] exI[of _ P'] exI[of _ L']) (simp add: heap_inv_lock)
qed

lemma allocated_disjoint:
  assumes inv: "heap_inv pf pages P L h m" and b: "b \<in> allocated pf L h" "c \<in> allocated pf L h" "b \<noteq> c"
  shows "\<exists>i j. b \<in> blks (block2arena b) i \<and> L (block2arena b) = Some i \<and> L (block2arena c) = Some j \<and>
    (\<forall>x < class_size i. \<forall>y < class_size j. b + word_of_nat x \<noteq> c + word_of_nat y)"
proof -
  have pre: "heap_pre pf pages P L h m"
    using inv by (simp add: heap_inv_def)
  obtain a i k where a: "L a = Some i" "k < class_cnt i" "b = blk a i k"
    using b(1) by (auto simp: allocated_def blks_def)
  obtain a' i' k' where a': "L a' = Some i'" "k' < class_cnt i'" "c = blk a' i' k'"
    using b(2) by (auto simp: allocated_def blks_def)
  note p = arena_page[OF pre a(1)] and p' = arena_page[OF pre a'(1)]
  have e: "block2arena b = a" "block2arena c = a'"
    using blk_arena(1)[OF p(2,3) a(2)] blk_arena(1)[OF p'(2,3) a'(2)] a(3) a'(3) by simp_all
  have "i = i' \<and> k \<noteq> k'" if "a = a'"
    using that a a' b(3) by auto
  then have "b + word_of_nat x \<noteq> c + word_of_nat y" if "x < class_size i" "y < class_size i'" for x y
    unfolding a(3) a'(3) using blocks_disjoint[OF p(2) p'(2) p(3) p'(3) a(2) a'(2) _ that] by blast
  moreover have "b \<in> blks a i"
    using a by (auto simp: blks_def)
  ultimately show ?thesis
    using e a(1) a'(1) by auto
qed

end

text \<open>A small machine whose heap starts where the kernel's does.\<close>

definition pmemk :: pmem where
  "pmemk = \<lparr>ram = (\<lambda>_. 0)(0x100c00 := 0x101007, 0x100ffc := 0x100007), cr3_reg = 0x100000\<rparr>"

definition memk :: mem where
  "memk = mem0\<lparr>mm := pmemk, kernel_vaddr := \<lparr>vaddr_bitmap = \<lparr>bm_len = 2, bm_bits = [0, 0]\<rparr>, vaddr_start = KERNEL_HEAP_START\<rparr>\<rparr>"

definition heapk :: heap where
  "heapk = \<lparr>arenas = (\<lambda>_. \<lparr>a_desc = None, a_cnt = 0, a_large = False\<rparr>), kernel_block_descs = block_desc_init, user_block_descs = block_desc_init\<rparr>"

lemma pmemk_entry: "pd_entry pmemk i = (if i = 768 then 0x101007 else if i = 1023 then 0x100007 else 0)" if "i < 1024"
proof -
  have i: "unat i < 1024"
    using that by (simp add: unat_1024)
  have f: "frame 0x100000 = 0x100000"
    by (simp add: frame_def)
  have a: "unat (0x100000 + i * 4) = 0x100000 + unat i * 4"
    using entry_addr(1)[OF i, of "0x100000"] by (simp add: f)
  have "0x100000 + i * 4 = 0x100c00 \<longleftrightarrow> i = 768" "0x100000 + i * 4 = 0x100ffc \<longleftrightarrow> i = 1023"
    unfolding word_unat_eq_iff a using i by auto
  then show ?thesis
    by (simp add: pd_entry_def pmemk_def f)
qed

lemma pmemk_wf: "wf_pd pmemk"
proof -
  have "frame (cr3_reg pmemk) = 0x100000"
    by (simp add: pmemk_def frame_def)
  then show ?thesis
    unfolding wf_pd_def by (auto simp: pmemk_entry present_def frame_def split: if_splits)
qed

lemma memk_kmem: "kmem_ok memk"
proof -
  have p: "pool_ok (kernel_pool memk)"
    by (simp add: pool_ok_def memk_def mem0_def wf_bitmap_def bm_slots_def frame_def)
  moreover have "unused_frame f pmemk" if f: "frame_free (kernel_pool memk) f" for f
  proof -
    obtain i where i: "i < bm_slots (pool_bitmap (kernel_pool memk))" "f = frame_of (kernel_pool memk) i"
      using f by (auto simp: frame_free_def)
    have "unat f = 0x300000 + i * 4096" "frame f = f"
      using frame_of_props[OF p i(1)] i(2) by (simp_all add: memk_def mem0_def)
    then show ?thesis
      unfolding unused_frame_def by (auto simp: pmemk_entry present_def frame_def word_unat_eq_iff split: if_splits)
  qed
  ultimately show ?thesis
    using pmemk_wf by (simp add: kmem_ok_def) (simp add: memk_def)
qed

lemma pmemk_unmapped:
  assumes "0xc0100 \<le> unat w div 4096" and "unat w div 4096 < 0xc0110"
  shows "present (pd_entry pmemk (pdi w))" "translate pmemk w = None"
proof -
  have "unat (pdi w) = 768"
    using assms div_mult2_eq[of "unat w" 4096 1024] by (simp add: unat_pdi)
  then have d: "pdi w = 768"
    by (simp add: word_unat_eq_iff)
  then show "present (pd_entry pmemk (pdi w))"
    by (simp add: pmemk_entry present_def)
  have "pte_addr pmemk w = frame 0x101007 + pti w * 4"
    by (simp add: pte_addr_def pde_addr_entry d pmemk_entry)
  then have "unat (pte_addr pmemk w) \<ge> 0x101000"
    using entry_addr(1)[OF pti_lt, of "0x101007" w] by (simp add: frame_def)
  then have "ram pmemk (pte_addr pmemk w) = 0"
    by (auto simp: pmemk_def word_unat_eq_iff)
  then show "translate pmemk w = None"
    by (simp add: translate_def present_def)
qed

lemma memk_kheap: "kheap_ok memk"
proof -
  have r: "vaddr_range_ok (kernel_vaddr memk)"
    by (simp add: vaddr_range_ok_def memk_def wf_bitmap_def bm_slots_def frame_def KERNEL_HEAP_START_def)
  have s: "bm_slots (vaddr_bitmap (kernel_vaddr memk)) = 16"
    by (simp add: memk_def bm_slots_def)
  have "0xc0100 \<le> unat w div 4096 \<and> unat w div 4096 < 0xc0110" if "i < 16" "same_page (vpage (kernel_vaddr memk) i) w" for i w
    using unat_vpage[OF r, of i] that s by (simp add: same_page_unat memk_def KERNEL_HEAP_START_def)
  then show ?thesis
    using r pmemk_unmapped unfolding kheap_ok_def s by (simp add: memk_def)
qed

lemma heapk_inv: "heap_inv PF_KERNEL kernel_pages {} Map.empty heapk memk"
proof -
  have "kernel_pages {} memk"
    using memk_kmem memk_kheap by (simp add: kernel_pages_def pools_ordered_def) (simp add: memk_def mem0_def bm_slots_def)
  moreover have "fl PF_KERNEL heapk i = []" if "i < 7" for i
    using block_desc_init_ok that descs_okD(1)[OF block_desc_init_ok(1)] by (simp add: heapk_def descs_of_def)
  ultimately show ?thesis
    using block_desc_init_ok(1) by (simp add: heap_inv_def heap_pre_def in_use_def) (simp add: heapk_def descs_of_def)
qed

text \<open>The same machine after one page was taken and cut into three blocks of 1024 bytes, all of which are in use.\<close>

lemma memk_malloc: "\<exists>m'. malloc_page PF_KERNEL 1 memk = Inr (KERNEL_HEAP_START, m') \<and> pool_lock (kernel_pool m') = lock_init \<and> now_pg_dir m' = NULL"
proof -
  have "present (pd_entry pmemk (pdi KERNEL_HEAP_START))" "translate pmemk KERNEL_HEAP_START = None"
    using pmemk_unmapped[of KERNEL_HEAP_START] by (simp_all add: KERNEL_HEAP_START_def)
  then have "page_table_add KERNEL_HEAP_START 0x300000 m =
      Inr (m\<lparr>mm := set_pte KERNEL_HEAP_START (0x300000 OR PG_US_U OR PG_RW_W OR PG_P_1) pmemk\<rparr>)" if "mm m = pmemk" for m
    using page_table_add_ok[of m KERNEL_HEAP_START "0x300000"] pmemk_wf that by simp
  then show ?thesis
    by (simp add: malloc_page_def vaddr_get_def vaddr_claim_def palloc_def bitmap16 memk_def mem0_def PG_SIZE_def NULL_def set_pool_def)
qed

definition heap3 :: heap where
  "heap3 = set_arena KERNEL_HEAP_START \<lparr>a_desc = Some (PF_KERNEL, 6), a_cnt = 0, a_large = False\<rparr> heapk"

lemma heapk_lists: "i < 7 \<Longrightarrow> fl PF_KERNEL heapk i = []" "descs_of PF_KERNEL heapk = block_desc_init"
  using block_desc_init_ok descs_okD(1)[OF block_desc_init_ok(1)] by (simp_all add: heapk_def descs_of_def)

lemma heap3_inv:
  "\<exists>m. malloc_page PF_KERNEL 1 memk = Inr (KERNEL_HEAP_START, m) \<and> pool_lock (kernel_pool m) = lock_init \<and> now_pg_dir m = NULL \<and>
    heap_inv PF_KERNEL kernel_pages {KERNEL_HEAP_START} [KERNEL_HEAP_START \<mapsto> 6] heap3 m"
proof -
  obtain m where m: "malloc_page PF_KERNEL 1 memk = Inr (KERNEL_HEAP_START, m)" "pool_lock (kernel_pool m) = lock_init" "now_pg_dir m = NULL"
    using memk_malloc by blast
  have "kernel_pages {} memk"
    using heapk_inv by (simp add: heap_inv_def heap_pre_def)
  then have "kernel_pages {KERNEL_HEAP_START} m"
    using kernel_pages_alloc[of "{}" memk] m(1) by (auto simp: KERNEL_HEAP_START_def NULL_def)
  moreover have "fl PF_KERNEL heap3 i = []" if "i < 7" for i
    using heapk_lists(1)[OF that] by (simp add: heap3_def)
  ultimately have "heap_inv PF_KERNEL kernel_pages {KERNEL_HEAP_START} [KERNEL_HEAP_START \<mapsto> 6] heap3 m"
    using block_desc_init_ok(1) class_bounds(3)[of 6] unfolding heap_inv_def heap_pre_def in_use_def
    by (auto simp: heap3_def heapk_lists(2) split: if_splits)
  then show ?thesis
    using m by blast
qed

lemma heap3_blocks: "{0xc010000c, 0xc010040c} \<subseteq> allocated PF_KERNEL [KERNEL_HEAP_START \<mapsto> 6] heap3"
proof -
  have "fl PF_KERNEL heap3 6 = []"
    using heapk_lists(1)[of 6] by (simp add: heap3_def)
  moreover have "0xc010000c = blk KERNEL_HEAP_START 6 0" "0xc010040c = blk KERNEL_HEAP_START 6 1" "class_cnt 6 = 3"
    by (simp_all add: blk_def KERNEL_HEAP_START_def class_size_def class_cnt_def)
  ultimately show ?thesis
    by (auto simp: allocated_def blks_def)
qed





text \<open>
  Blocks do not overlap: in every heap that satisfies the invariant, two different allocated blocks lie in pages that are cut into blocks of known sizes and
  no byte of the one is a byte of the other.
\<close>

theorem heap_blocks_disjoint:
  assumes "heap_inv PF_KERNEL kernel_pages P L h m" "b \<in> allocated PF_KERNEL L h" "c \<in> allocated PF_KERNEL L h" "b \<noteq> c"
  shows "\<exists>i j. b \<in> blks (block2arena b) i \<and> L (block2arena b) = Some i \<and> L (block2arena c) = Some j \<and>
    (\<forall>x < class_size i. \<forall>y < class_size j. b + word_of_nat x \<noteq> c + word_of_nat y)"
  by (rule kpool.allocated_disjoint[OF assms])

theorem heap_blocks_disjoint_witness:
  "\<exists>m. heap_inv PF_KERNEL kernel_pages {KERNEL_HEAP_START} [KERNEL_HEAP_START \<mapsto> 6] heap3 m \<and>
    {0xc010000c, 0xc010040c} \<subseteq> allocated PF_KERNEL [KERNEL_HEAP_START \<mapsto> 6] heap3 \<and> (0xc010000c :: u32) + word_of_nat 1023 \<noteq> 0xc010040c + word_of_nat 0"
proof -
  obtain m where m: "heap_inv PF_KERNEL kernel_pages {KERNEL_HEAP_START} [KERNEL_HEAP_START \<mapsto> 6] heap3 m"
    using heap3_inv by blast
  have b: "0xc010000c \<in> allocated PF_KERNEL [KERNEL_HEAP_START \<mapsto> 6] heap3" "0xc010040c \<in> allocated PF_KERNEL [KERNEL_HEAP_START \<mapsto> 6] heap3"
    using heap3_blocks by simp_all
  have a: "block2arena 0xc010000c = KERNEL_HEAP_START" "block2arena 0xc010040c = KERNEL_HEAP_START"
    by (simp_all add: block2arena_def KERNEL_HEAP_START_def)
  obtain i j where ij: "[KERNEL_HEAP_START \<mapsto> 6] KERNEL_HEAP_START = Some i" "[KERNEL_HEAP_START \<mapsto> 6] KERNEL_HEAP_START = Some j"
    "\<forall>x < class_size i. \<forall>y < class_size j. (0xc010000c :: u32) + word_of_nat x \<noteq> 0xc010040c + word_of_nat y"
    using heap_blocks_disjoint[OF m b] unfolding a by auto
  then have "(0xc010000c :: u32) + word_of_nat 1023 \<noteq> 0xc010040c + word_of_nat 0"
    by (simp add: class_size_def)
  then show ?thesis
    using m b by blast
qed

end
