(* ===== verification/Heaplarge.thy ===== *)
theory Heaplarge
  imports Heapinv
begin

text \<open>
  Requests of more than 1024 bytes, which \<^verbatim>\<open>sys_malloc\<close> serves with whole pages, and the requests that are too large.
\<close>

subsection \<open>Large blocks\<close>

lemma DIV_ROUND_UP_pages:
  assumes "unat x + 4095 < 2 ^ 32"
  shows "unat (DIV_ROUND_UP x PG_SIZE) = (unat x + 4095) div 4096"
proof -
  have "DIV_ROUND_UP x PG_SIZE = (x + 4095) div 4096"
    by (simp add: DIV_ROUND_UP_def PG_SIZE_def add.commute)
  moreover have "unat (x + 4095) = unat x + 4095"
    using assms by (subst unat_add_lt) simp_all
  ultimately show ?thesis
    by (simp add: unat_div_distrib)
qed

lemma clear_pages_ok:
  assumes "wf_pd m" "frame v = v" "maps_to m v fs" "\<forall>f \<in> set fs. unused_frame f m"
  shows "\<exists>m'. clear_pages (length fs) v m = Inr m' \<and> wf_pd m' \<and> (\<forall>w. translate m' w = translate m w) \<and>
    (\<forall>i. unat i < 1024 \<longrightarrow> pd_entry m' i = pd_entry m i)"
  using assms
proof (induction fs arbitrary: v m)
  case (Cons f fs)
  have f: "unused_frame f m" "frame f = f" "translate m v = Some (f + page_off v)"
    using Cons.prems by (auto simp: unused_frame_def)
  let ?m = "m\<lparr>ram := (\<lambda>x. if frame x = f then 0 else ram m x)\<rparr>"
  have c: "clear_page v m = Inr ?m"
    using f(3) page_off_parts(1)[OF f(2), of v] by (simp add: clear_page_def)
  have d: "cr3_reg ?m = cr3_reg m" "\<forall>a. frame a \<noteq> f \<longrightarrow> ram ?m a = ram m a"
    by simp_all
  note k = differ_in_unused[OF Cons.prems(1) f(1) d]
  have "maps_to ?m (v + PG_SIZE) fs"
    using Cons.prems(3) maps_to_keeps[of "v + PG_SIZE" fs ?m m] k(4) by simp
  moreover have "\<forall>g \<in> set fs. unused_frame g ?m"
    using Cons.prems(4) unused_frame_pd[OF k(1)] by simp
  ultimately obtain m' where "clear_pages (length fs) (v + PG_SIZE) ?m = Inr m'" "wf_pd m'" "\<forall>w. translate m' w = translate ?m w"
    "\<forall>i. unat i < 1024 \<longrightarrow> pd_entry m' i = pd_entry ?m i"
    using Cons.IH[OF k(2) aligned_next[OF Cons.prems(2)]] by blast
  then show ?case
    using c k(1,4) by simp
qed simp

lemma maps_to_in_pages: "maps_to m v fs \<Longrightarrow> in_pages v (length fs) w \<Longrightarrow> \<exists>p. translate m w = Some p"
  by (induction fs arbitrary: v) auto

lemma malloc_large_locks: "malloc_large pf sz h m = Inr (x, m') \<Longrightarrow> locks_kept m m'"
  by (auto simp: malloc_large_def andthen_Inr_iff Let_def split: if_splits prod.splits dest!: malloc_page_locks)

text \<open>The memory before and after a pair of calls: the same frames and heap pages are free and everything is mapped as before.\<close>

definition same_pages :: "mem \<Rightarrow> mem \<Rightarrow> bool" where
  "same_pages m m' \<longleftrightarrow> (\<forall>g. frame_free (kernel_pool m') g \<longleftrightarrow> frame_free (kernel_pool m) g) \<and>
     (\<forall>k. bm_used (vaddr_bitmap (kernel_vaddr m')) k = bm_used (vaddr_bitmap (kernel_vaddr m)) k) \<and>
     (\<forall>w. pdi w \<noteq> 1023 \<longrightarrow> translate (mm m') w = translate (mm m) w)"

lemma malloc_large_ok:
  assumes ok: "kmem_ok m" "kheap_ok m" "pools_ordered m"
    and cnt: "cnt = DIV_ROUND_UP (sz + sizeof_arena) PG_SIZE" "0 < cnt" "cnt < 3840" "cnt \<le> bm_len (vaddr_bitmap (kernel_vaddr m))"
  shows "(\<exists>m1. malloc_large PF_KERNEL sz h m = Inr ((NULL, h), m1)) \<or>
    (\<exists>a i m1. malloc_large PF_KERNEL sz h m = Inr ((a + sizeof_arena, set_arena a \<lparr>a_desc = None, a_cnt = cnt, a_large = True\<rparr> h), m1) \<and>
      a = vpage (kernel_vaddr m) i \<and> i + unat cnt \<le> bm_slots (vaddr_bitmap (kernel_vaddr m)) \<and> frame a = a \<and> now_pg_dir m1 = now_pg_dir m \<and>
      (\<forall>w. in_pages a (unat cnt) w \<longrightarrow> translate (mm m) w = None \<and> (\<exists>p. translate (mm m1) w = Some p)) \<and>
      (\<exists>m2. mfree_page PF_KERNEL a cnt m1 = Inr m2 \<and> same_pages m m2))"
proof -
  let ?n = "unat cnt"
  obtain a m0 fs where g: "malloc_page PF_KERNEL cnt m = Inr (a, m0)" "kmem_ok m0" "kheap_ok m0"
    and s: "a \<noteq> NULL \<Longrightarrow> \<exists>i. a = vpage (kernel_vaddr m) i \<and> free_pages m i ?n \<and> now_pg_dir m0 = now_pg_dir m \<and>
        (\<forall>i. unat i < 1024 \<longrightarrow> pd_entry (mm m0) i = pd_entry (mm m) i)"
      "a \<noteq> NULL \<Longrightarrow> frame a = a" "a \<noteq> NULL \<Longrightarrow> \<forall>w. in_pages a ?n w \<longrightarrow> translate (mm m) w = None"
      "a \<noteq> NULL \<Longrightarrow> length fs = ?n" "a \<noteq> NULL \<Longrightarrow> maps_to (mm m0) a fs" "a \<noteq> NULL \<Longrightarrow> \<forall>f \<in> set fs. frame_free (kernel_pool m) f"
    using malloc_page_kernel_spec[OF ok(1,2) cnt(2-4)] by (elim exE conjE) (rule that, assumption+, blast+)
  show ?thesis
  proof (cases "a = NULL")
    case True
    then show ?thesis
      using g(1) by (simp add: malloc_large_def cnt(1)[symmetric])
  next
    case False
    obtain i where i: "a = vpage (kernel_vaddr m) i" "free_pages m i ?n" "now_pg_dir m0 = now_pg_dir m"
      "\<forall>i. unat i < 1024 \<longrightarrow> pd_entry (mm m0) i = pd_entry (mm m) i"
      using s(1)[OF False] by blast
    have wf: "wf_pd (mm m0)"
      using g(2) by (simp add: kmem_ok_def)
    have "\<forall>f \<in> set fs. unused_frame f (mm m0)"
      using s(6)[OF False] ok(1) unused_frame_pd[of "mm m0" "mm m"] i(4) by (auto simp: kmem_ok_def)
    from clear_pages_ok[OF wf s(2)[OF False] s(5)[OF False] this] obtain mm0 where
      c: "clear_pages ?n a (mm m0) = Inr mm0" "wf_pd mm0" "\<forall>w. translate mm0 w = translate (mm m0) w"
      using s(4)[OF False] by auto
    let ?m1 = "m0\<lparr>mm := mm0\<rparr>"
    have run: "malloc_large PF_KERNEL sz h m = Inr ((a + sizeof_arena, set_arena a \<lparr>a_desc = None, a_cnt = cnt, a_large = True\<rparr> h), ?m1)"
      using g(1) False c(1) by (simp add: malloc_large_def cnt(1)[symmetric])
    have "\<exists>m2. mfree_page PF_KERNEL a cnt ?m1 = Inr m2 \<and> same_pages m m2"
      using malloc_write_mfree_undo[OF ok cnt(2-4) g(1) False, of ?m1 mm0] c(2,3) by (simp add: same_pages_def)
    moreover have "\<exists>p. translate (mm ?m1) w = Some p" if "in_pages a ?n w" for w
      using maps_to_in_pages[OF s(5)[OF False]] s(4)[OF False] that c(3) by simp
    ultimately show ?thesis
      using run i(1-3) s(2,3)[OF False]
      by (intro disjI2 exI[of _ a] exI[of _ i] exI[of _ ?m1]) (simp add: free_pages_def)
  qed
qed

lemma kernel_lock_irrelevant:
  fixes m :: mem and l :: lock
  defines "m' \<equiv> set_pool PF_KERNEL ((kernel_pool m)\<lparr>pool_lock := l\<rparr>) m"
  shows "kmem_ok m' = kmem_ok m" "kheap_ok m' = kheap_ok m" "pools_ordered m' = pools_ordered m" "kernel_vaddr m' = kernel_vaddr m"
    "same_pages m' m1 = same_pages m m1" "same_pages m1 m' = same_pages m1 m"
  by (simp_all add: m'_def kmem_ok_def kheap_ok_def pools_ordered_def set_pool_def pool_ok_def frame_free_def frame_of_def same_pages_def)

lemma page_count:
  assumes "unat sz \<le> 15724532"
  defines "cnt \<equiv> DIV_ROUND_UP (sz + sizeof_arena) PG_SIZE"
  shows "unat cnt = (unat sz + 4107) div 4096" "0 < cnt" "cnt < 3840" "unat sz + 12 \<le> unat cnt * 4096"
proof -
  have "unat (sz + sizeof_arena) = unat sz + 12"
    using assms(1) by (subst unat_add_lt) (simp_all add: sizeof_arena_def)
  then show u: "unat cnt = (unat sz + 4107) div 4096"
    unfolding cnt_def using assms(1) by (subst DIV_ROUND_UP_pages) simp_all
  then show "0 < cnt" "cnt < 3840" "unat sz + 12 \<le> unat cnt * 4096"
    using assms(1) by (auto simp: word_less_nat_alt)
qed

lemma sys_free_large:
  assumes "mfree_page PF_KERNEL a cnt m1 = Inr m2" "pool_lock (kernel_pool m1) = locked_by (running_thread s)" "running_thread s \<noteq> NULL"
    and "now_pg_dir m1 = NULL" "frame a = a" "\<exists>p. translate (mm m1) a = Some p" "KERNEL_HEAP_START \<le> a + sizeof_arena"
    and "arenas h a = \<lparr>a_desc = None, a_cnt = cnt, a_large = True\<rparr>"
  shows "sys_free (a + sizeof_arena) h (set_pool PF_KERNEL ((kernel_pool m1)\<lparr>pool_lock := lock_init\<rparr>) m1) s =
    Inr (Return h (set_pool PF_KERNEL ((kernel_pool m2)\<lparr>pool_lock := lock_init\<rparr>) m2) s)"
proof -
  let ?L = "\<lambda>l m. set_pool PF_KERNEL ((kernel_pool m)\<lparr>pool_lock := l\<rparr>) m"
  let ?l = "locked_by (running_thread s)" and ?m1 = "?L lock_init m1" and ?b = "a + sizeof_arena"
  have ub: "unat ?b = unat a + 12" "block2arena ?b = a"
    using page_offset(1,2)[OF assms(5), of 12] by (simp_all add: sizeof_arena_def block2arena_def frame_def)
  have relock: "?L ?l ?m1 = m1" and l1: "pool_lock (kernel_pool ?m1) = lock_init"
    using assms(2) by (simp_all add: set_pool_def)
  have fb: "free_block PF_KERNEL ?b h (?L ?l ?m1) = Inr (h, m2)"
    unfolding relock using ub(2) assms(1,6,8) by (auto simp: free_block_def arena_at_def)
  have "while_locked PF_KERNEL (free_block PF_KERNEL ?b h) ?m1 s = Inr (Return h (?L lock_init m2) s)"
    using while_locked_ok[where body = "free_block PF_KERNEL ?b h" and pf = PF_KERNEL and m = ?m1 and s = s] l1 assms(3) fb free_block_locks[OF fb] by simp
  moreover have "?b \<noteq> NULL"
    using ub(1) by (auto simp: NULL_def)
  ultimately show ?thesis
    using assms(4,7) by (simp add: sys_free_def own_pool_def)
qed

text \<open>Where the block is: behind the header of its first page, inside of its pages.\<close>

lemma large_block_place:
  assumes va: "vaddr_range_ok va" "KERNEL_HEAP_START \<le> vaddr_start va" and a: "a = vpage va i" "i + unat cnt \<le> bm_slots (vaddr_bitmap va)" "frame a = a"
    and sz: "unat sz \<le> 15724532" "0 < cnt" "unat sz + 12 \<le> unat cnt * 4096"
  shows "a + sizeof_arena \<noteq> NULL" "KERNEL_HEAP_START \<le> a + sizeof_arena" "in_pages a (unat cnt) a"
    "\<And>x. x < unat sz \<Longrightarrow> in_pages a (unat cnt) (a + sizeof_arena + word_of_nat x)"
proof -
  have au: "unat a = unat (vaddr_start va) + i * 4096" "unat a + unat cnt * 4096 \<le> 2 ^ 32"
    using unat_vpage[OF va(1), of i] vpage_run(1)[OF va(1) a(2)] a(1,2) by simp_all
  have ub: "unat (a + sizeof_arena) = unat a + 12"
    using page_offset(1)[OF a(3), of 12] by (simp add: sizeof_arena_def)
  show "a + sizeof_arena \<noteq> NULL" "KERNEL_HEAP_START \<le> a + sizeof_arena"
    using ub au(1) va(2) by (auto simp: NULL_def word_le_nat_alt)
  show "in_pages a (unat cnt) a"
    using sz(2) in_pages_iff[OF au(2), of a] by (auto simp: word_less_nat_alt)
  show "in_pages a (unat cnt) (a + sizeof_arena + word_of_nat x)" if x: "x < unat sz" for x
  proof -
    have u: "unat (a + sizeof_arena + word_of_nat x) = unat a + 12 + x"
      using x sz(3) au(2) ub sz(1) unat_nat32[of x] by (subst unat_add_lt) simp_all
    show ?thesis
      using x sz(3) a(3) unfolding in_pages_iff[OF au(2)] u by (auto simp: aligned_iff)
  qed
qed



text \<open>
  A request that nearly fills the pool is a kernel panic and not a failed allocation: with the pools that \<^verbatim>\<open>mem_pool_init\<close> makes of 32 MB, a kernel
  thread that asks for more than 3839 pages but less than the size of its pool passes the test at the start of \<^verbatim>\<open>sys_malloc\<close>
  and fails the assertion \<^verbatim>\<open>cnt < 3840\<close> of \<^verbatim>\<open>malloc_page\<close>, while a request of the size of the pool or more returns \<^verbatim>\<open>NULL\<close>.
\<close>

theorem sys_malloc_panics_near_pool_size:
  assumes "now_pg_dir m0 = NULL" "running_thread s \<noteq> NULL" "15724532 < unat sz"
  defines "m \<equiv> mem_pool_init 0x2000000 m0"
  shows "sys_malloc sz h m s = (if unat sz < 15728640 then Inl (Panic ''cnt > 0 && cnt < 3840'') else Inr (Return (NULL, h) m s))"
proof -
  let ?p = "kernel_pool m"
  have p: "pool_size ?p = 15728640" "pool_lock ?p = lock_init" "now_pg_dir m = NULL"
    using assms(1) by (simp_all add: m_def mem_pool_init_def PG_SIZE_def Let_def)
  have own: "own_pool m = PF_KERNEL"
    using p(3) by (simp add: own_pool_def)
  have sz0: "0 < sz" "1024 < sz"
    using assms(3) by (simp_all add: word_less_nat_alt)
  show ?thesis
  proof (cases "unat sz < 15728640")
    case True
    let ?cnt = "DIV_ROUND_UP (sz + sizeof_arena) PG_SIZE"
    have "unat (sz + sizeof_arena) = unat sz + 12"
      using True by (subst unat_add_lt) (simp_all add: sizeof_arena_def)
    then have "unat ?cnt = (unat sz + 4107) div 4096"
      using True by (subst DIV_ROUND_UP_pages) simp_all
    then have "\<not> ?cnt < 3840"
      using assms(3) by (auto simp: word_less_nat_alt)
    then have "malloc_large PF_KERNEL sz h x = Inl (Panic ''cnt > 0 && cnt < 3840'')" for x
      by (simp add: malloc_large_def malloc_page_def)
    moreover have "sz < pool_size ?p"
      using True p(1) by (simp add: word_less_nat_alt)
    ultimately show ?thesis
      using True own sz0 p(2) assms(2) by (simp add: sys_malloc_def while_locked_def lock_pool_def lock_acquire_uncontended)
  next
    case False
    then have "\<not> sz < pool_size ?p"
      using p(1) by (simp add: word_less_nat_alt)
    then show ?thesis
      using False own by (simp add: sys_malloc_def)
  qed
qed

theorem sys_malloc_panics_near_pool_size_witness:
  "sys_malloc 0xEFFFFF heapk (mem_pool_init 0x2000000 mem0) kstate0 = Inl (Panic ''cnt > 0 && cnt < 3840'')"
proof -
  have s: "now_pg_dir mem0 = NULL" "running_thread kstate0 \<noteq> NULL"
    by (simp_all add: kstate0_def NULL_def mem0_def)
  show ?thesis
    using sys_malloc_panics_near_pool_size[OF s, of "0xEFFFFF" heapk] by simp
qed

end
