(* ===== verification/Thread.thy ===== *)
theory Thread
  imports Memory
begin

text \<open>
  The life of a thread: process identifiers, control blocks, creation and termination
  (\<^verbatim>\<open>src/thread/thread.c\<close>). A call that has to wait for the lock of the identifier pool or of the kernel's
  page pool has the outcome \<open>KWait\<close>. The code address of \<^verbatim>\<open>kernel_thread\<close> is an argument.
\<close>

datatype 'a kcall = KRet 'a mem kstate | KWait mem kstate

subsection \<open>Process identifiers\<close>

text \<open>\<^verbatim>\<open>pid_pool.pid_start\<close> is 1 and never changes; the bitmap of the pool has 128 bytes.\<close>

definition pid_start :: u32 where "pid_start = 1"

definition pid_pool_init :: "kstate \<Rightarrow> kstate" where
  "pid_pool_init s = s\<lparr>pid_bitmap := bitmap_init \<lparr>bm_len = 128, bm_bits = replicate 128 0\<rparr>, pid_lock := lock_init\<rparr>"

definition while_pid_locked :: "(kstate \<Rightarrow> ('a \<times> kstate) res) \<Rightarrow> mem \<Rightarrow> kstate \<Rightarrow> 'a kcall res" where
  "while_pid_locked body m s =
     andthen (lock_acquire (pid_lock s) s) (\<lambda>r. case r of
       Blocked (l, s1) \<Rightarrow> Inr (KWait m (s1\<lparr>pid_lock := l\<rparr>))
     | Done (l, s1) \<Rightarrow> andthen (body (s1\<lparr>pid_lock := l\<rparr>)) (\<lambda>(x, s2).
         andthen (lock_release (pid_lock s2) s2) (\<lambda>(l2, s3). Inr (KRet x m (s3\<lparr>pid_lock := l2\<rparr>)))))"

definition alloc_pid :: "mem \<Rightarrow> kstate \<Rightarrow> u16 kcall res" where
  "alloc_pid = while_pid_locked (\<lambda>s.
     andthen (bitmap_apply_cnt (pid_bitmap s) 1) (\<lambda>idx.
     andthen (bitmap_set_idx (pid_bitmap s) idx 1) (\<lambda>mp.
     Inr (ucast (idx + pid_start), s\<lparr>pid_bitmap := mp\<rparr>))))"

text \<open>The \<^verbatim>\<open>int16_t\<close> argument is sign-extended before the subtraction.\<close>

definition release_pid :: "u16 \<Rightarrow> mem \<Rightarrow> kstate \<Rightarrow> unit kcall res" where
  "release_pid p = while_pid_locked (\<lambda>s.
     andthen (bitmap_set_idx (pid_bitmap s) (scast p - pid_start) 0) (\<lambda>mp.
     Inr ((), s\<lparr>pid_bitmap := mp\<rparr>)))"

definition pid2pcb :: "int \<Rightarrow> kstate \<Rightarrow> u32" where
  "pid2pcb p s = (case find (\<lambda>t. sint (pid (pcbs s t)) = p) (thread_all_list s) of None \<Rightarrow> NULL | Some t \<Rightarrow> t)"

subsection \<open>Control blocks\<close>

definition zero_pcb :: pcb where
  "zero_pcb = \<lparr>self_kstack = 0, pid = 0, status = TASK_RUNNING, name = [], priority = 0, ticks = 0, elapsed_ticks = 0,
     pg_dir = NULL, parent_pid = 0, exit_status = 0, stack_magic = 0,
     kstack = \<lparr>ts_ebp = 0, ts_ebx = 0, ts_edi = 0, ts_esi = 0, ts_eip = 0, ts_unused_retaddr = 0, ts_func = 0, ts_func_arg = 0\<rparr>,
     resume_status = INTR_ON\<rparr>"

text \<open>
  \<^verbatim>\<open>running_thread\<close> of the code takes the page the stack pointer is in; the state has the address of this page as its component \<open>running_thread\<close>. The page is
  that of the control block as long as the stack stays in it.
\<close>

definition running_thread_at :: "u32 \<Rightarrow> u32" where
  "running_thread_at esp = esp AND 0xfffff000"

lemma running_thread_at_stack: "frame t = t \<Longrightarrow> unat t \<le> unat esp \<Longrightarrow> unat esp < unat t + 4096 \<Longrightarrow> running_thread_at esp = t"
proof -
  assume t: "frame t = t" "unat t \<le> unat esp" "unat esp < unat t + 4096"
  obtain q where q: "unat t = 4096 * q"
    using t(1) by (auto simp: aligned_iff)
  then have "unat esp div 4096 = q"
    using t(2,3) by (intro div_nat_eqI) simp_all
  then have "frame esp = t"
    using q by (simp add: word_unat_eq_iff unat_frame)
  then show ?thesis
    by (simp add: running_thread_at_def frame_def)
qed

text \<open>
  \<^verbatim>\<open>name\<close> is given without its terminating zero; the field has room for 15 characters and the zero, and
  \<^verbatim>\<open>strcpy\<close> of a longer name leaves it.
\<close>

definition init_thread :: "u32 \<Rightarrow> u8 list \<Rightarrow> u8 \<Rightarrow> mem \<Rightarrow> kstate \<Rightarrow> unit kcall res" where
  "init_thread t nm prio m s =
     (if t = NULL then Inl NullDeref
      else let s1 = upd_pcb t (\<lambda>_. zero_pcb\<lparr>self_kstack := t + PG_SIZE\<rparr>) s
      in andthen (alloc_pid m s1) (\<lambda>r. case r of
           KWait m2 s2 \<Rightarrow> Inr (KWait m2 s2)
         | KRet p m2 s2 \<Rightarrow>
             if length nm > 15 then Inl OutOfBounds
             else Inr (KRet () m2 (upd_pcb t (\<lambda>pc. pc\<lparr>pid := p,
               status := (if t = main_thread s2 then TASK_RUNNING else TASK_READY), name := nm, priority := prio, ticks := prio,
               elapsed_ticks := 0, pg_dir := NULL, parent_pid := - 1, stack_magic := STACK_MAGIC\<rparr>) s2))))"

text \<open>
  \<^verbatim>\<open>self_kstack\<close> is a pointer to 32-bit words, so subtracting \<^verbatim>\<open>sizeof(struct intr_stack)\<close> (76) and
  \<^verbatim>\<open>sizeof(struct thread_stack)\<close> (32) moves it by four times as many bytes.
\<close>

definition thread_create :: "u32 \<Rightarrow> u32 \<Rightarrow> u32 \<Rightarrow> u32 \<Rightarrow> kstate \<Rightarrow> kstate" where
  "thread_create kernel_thread t func func_arg s =
     upd_pcb t (\<lambda>pc. pc\<lparr>self_kstack := self_kstack pc - 76 * 4 - 32 * 4,
       kstack := (kstack pc)\<lparr>ts_eip := kernel_thread, ts_func := func, ts_func_arg := func_arg, ts_ebp := 0, ts_ebx := 0,
         ts_esi := 0, ts_edi := 0\<rparr>, resume_status := INTR_ON\<rparr>) s"

definition enlist :: "u32 \<Rightarrow> kstate \<Rightarrow> kstate res" where
  "enlist t s =
     andthen (assert_c ''!node_find(&thread_ready_list, &thread->general_node)'' (t \<notin> set (thread_ready_list s))) (\<lambda>_.
     andthen (assert_c ''!node_find(&thread_all_list, &thread->all_list_node)'' (t \<notin> set (thread_all_list s))) (\<lambda>_.
     Inr (s\<lparr>thread_ready_list := thread_ready_list s @ [t], thread_all_list := thread_all_list s @ [t]\<rparr>)))"

text \<open>What \<^verbatim>\<open>thread_start\<close> does with the page of the new control block.\<close>

definition thread_install :: "u32 \<Rightarrow> u32 \<Rightarrow> u8 list \<Rightarrow> u8 \<Rightarrow> u32 \<Rightarrow> u32 \<Rightarrow> mem \<Rightarrow> kstate \<Rightarrow> u32 kcall res" where
  "thread_install kernel_thread t nm prio func func_arg m s =
     andthen (init_thread t nm prio m s) (\<lambda>r. case r of
       KWait m1 s1 \<Rightarrow> Inr (KWait m1 s1)
     | KRet _ m1 s1 \<Rightarrow> andthen (enlist t (thread_create kernel_thread t func func_arg s1)) (\<lambda>s2. Inr (KRet t m1 s2)))"

definition thread_start :: "u32 \<Rightarrow> u8 list \<Rightarrow> u8 \<Rightarrow> u32 \<Rightarrow> u32 \<Rightarrow> mem \<Rightarrow> kstate \<Rightarrow> u32 kcall res" where
  "thread_start kernel_thread nm prio func func_arg m s =
     andthen (get_kernel_pages 1 m s) (\<lambda>r. case r of
       Suspend m1 s1 \<Rightarrow> Inr (KWait m1 s1)
     | Return t m1 s1 \<Rightarrow> thread_install kernel_thread t nm prio func func_arg m1 s1)"

definition make_main_thread :: "mem \<Rightarrow> kstate \<Rightarrow> unit kcall res" where
  "make_main_thread m s =
     (let s1 = s\<lparr>main_thread := running_thread s\<rparr>
      in andthen (init_thread (main_thread s1) (c_string ''main'') 31 m s1) (\<lambda>r. case r of
           KWait m2 s2 \<Rightarrow> Inr (KWait m2 s2)
         | KRet _ m2 s2 \<Rightarrow>
             andthen (assert_c ''!node_find(&thread_all_list, &main_thread->all_list_node)''
               (main_thread s2 \<notin> set (thread_all_list s2))) (\<lambda>_.
             Inr (KRet () m2 (s2\<lparr>thread_all_list := thread_all_list s2 @ [main_thread s2]\<rparr>)))))"

text \<open>
  \<^verbatim>\<open>thread_exit\<close> reads \<^verbatim>\<open>thread->pid\<close> after the page of the control block has been given back, and the caller's
  own stack is on that page; the model lets both survive until the next switch, as a stale entry of
  the translation cache does. The final \<^verbatim>\<open>PANIC\<close> would be reached only if the dead thread were scheduled again.
\<close>

definition thread_exit :: "u32 \<Rightarrow> bool \<Rightarrow> mem \<Rightarrow> kstate \<Rightarrow> unit kcall res" where
  "thread_exit t need_schedule m s =
     (let s1 = set_status t TASK_DIED (snd (k_intr_disable s));
          s2 = (if t \<in> set (thread_ready_list s1) then s1\<lparr>thread_ready_list := remove1 t (thread_ready_list s1)\<rparr> else s1)
      in andthen (if pg_dir (pcbs s2 t) \<noteq> NULL then mfree_page PF_KERNEL (pg_dir (pcbs s2 t)) 1 m else Inr m) (\<lambda>m1.
         let s3 = s2\<lparr>thread_all_list := remove1 t (thread_all_list s2)\<rparr>
         in andthen (if t \<noteq> main_thread s3 then mfree_page PF_KERNEL t 1 m1 else Inr m1) (\<lambda>m2.
            andthen (release_pid (pid (pcbs s3 t)) m2 s3) (\<lambda>r. case r of
              KWait m3 s4 \<Rightarrow> Inr (KWait m3 s4)
            | KRet _ m3 s4 \<Rightarrow>
                if need_schedule then andthen (schedule INTR_OFF s4) (\<lambda>s5. Inr (KRet () m3 s5))
                else Inr (KRet () m3 s4)))))"

subsection \<open>Identifiers are unique and reusable\<close>

definition pid_used :: "kstate \<Rightarrow> nat \<Rightarrow> bool" where
  "pid_used s n \<longleftrightarrow> bm_used (pid_bitmap s) (n - 1)"

definition pids_ok :: "kstate \<Rightarrow> bool" where
  "pids_ok s \<longleftrightarrow> wf_bitmap (pid_bitmap s) \<and> bm_len (pid_bitmap s) = 128 \<and> pid_lock s = lock_init \<and> running_thread s \<noteq> NULL"

lemma while_pid_locked_ok:
  assumes "pid_lock s = lock_init" and "running_thread s \<noteq> NULL"
    and "body (s\<lparr>pid_lock := locked_by (running_thread s)\<rparr>) = Inr (x, s'\<lparr>pid_lock := locked_by (running_thread s)\<rparr>)"
    and "pid_lock s' = lock_init"
  shows "while_pid_locked body m s = Inr (KRet x m s')"
proof -
  have "s'\<lparr>pid_lock := lock_init\<rparr> = s'"
    using assms(4) by (metis kstate.surjective kstate.update_convs(8) kstate.select_convs(8))
  then show ?thesis
    using assms by (simp add: while_pid_locked_def lock_acquire_uncontended lock_release_uncontended)
qed

lemma while_pid_locked_fault:
  assumes "pid_lock s = lock_init" and "running_thread s \<noteq> NULL"
    and "body (s\<lparr>pid_lock := locked_by (running_thread s)\<rparr>) = Inl e"
  shows "while_pid_locked body m s = Inl e"
  using assms by (simp add: while_pid_locked_def lock_acquire_uncontended)

lemma unat_pid:
  assumes "i < 1024"
  shows "unat (word_of_nat (Suc i) :: u16) = Suc i"
  using assms by (simp add: unsigned_of_nat take_bit_nat_eq_self del: of_nat_Suc)

lemma alloc_pid_free:
  assumes ok: "pids_ok s" and free: "k < 127" "\<not> bm_used (pid_bitmap s) k"
  shows "\<exists>i mp. alloc_pid m s = Inr (KRet (word_of_nat (Suc i)) m (s\<lparr>pid_bitmap := mp\<rparr>)) \<and> i < 127 \<and>
    \<not> bm_used (pid_bitmap s) i \<and> wf_bitmap mp \<and> bm_len mp = 128 \<and> bm_used mp = (bm_used (pid_bitmap s))(i := True) \<and>
    (\<forall>j < i. bm_used (pid_bitmap s) j)"
proof -
  let ?bm = "pid_bitmap s"
  have wf: "wf_bitmap ?bm" "bm_len ?bm = 128" "0 < (1::u32)" "(1::u32) \<le> bm_len ?bm"
    using ok by (simp_all add: pids_ok_def)
  obtain i where i: "first_fit ?bm 1 0 = Some i"
    using free first_fit_None[of ?bm 1] wf(2) by (cases "first_fit ?bm 1 0") (auto simp: free_run_iff)
  have app: "bitmap_apply_cnt ?bm 1 = Inr (word_of_nat i)"
    using bitmap_scan_first_fit[OF wf(1,3,4), of 0] i by (simp add: bitmap_apply_cnt_def fit_result_def)
  have b: "i < 127" "\<not> bm_used ?bm i" "\<forall>j < i. bm_used ?bm j"
    using first_fit_Some[OF i] wf(2) by (simp_all add: free_run_iff)
  have u: "unat (word_of_nat i :: u32) = i"
    using b(1) by (simp add: unsigned_of_nat take_bit_nat_eq_self)
  obtain mp where mp: "bitmap_set_idx ?bm (word_of_nat i) 1 = Inr mp" "wf_bitmap mp" "bm_slots mp = bm_slots ?bm"
    "bm_used mp = (bm_used ?bm)(i := True)"
    using bm.mark_ok[OF wf(1), of "word_of_nat i" 1] b(1) wf(2) u by (auto simp: bm_slots_def)
  have "unat (word_of_nat i + pid_start) = Suc i"
    using b(1) u by (subst unat_add_lt) (simp_all add: pid_start_def)
  then have "ucast (word_of_nat i + pid_start) = (word_of_nat (Suc i) :: u16)"
    using unat_pid[of i] b(1) by (simp add: word_unat_eq_iff unsigned_ucast_eq take_bit_nat_eq_self del: of_nat_Suc)
  then have "alloc_pid m s = Inr (KRet (word_of_nat (Suc i)) m (s\<lparr>pid_bitmap := mp\<rparr>))"
    unfolding alloc_pid_def using ok app mp(1) by (intro while_pid_locked_ok) (simp_all add: pids_ok_def)
  moreover have "bm_len mp = 128"
    using mp(3) wf(2) by (simp add: bm_slots_def word_unat_eq_iff)
  ultimately show ?thesis
    using b mp by blast
qed

lemma pid_idx:
  assumes "i < 1024"
  shows "scast (word_of_nat (Suc i) :: u16) - pid_start = (word_of_nat i :: u32)"
proof -
  have "uint (word_of_nat (Suc i) :: u16) = int (Suc i)"
    using unat_pid[OF assms] by (simp only: uint_nat)
  then have "sint (word_of_nat (Suc i) :: u16) = int (Suc i)"
    using assms by (simp only: sint_uint) (rule signed_take_bit_int_eq_self; simp)
  then have "scast (word_of_nat (Suc i) :: u16) = (word_of_int (int (Suc i)) :: u32)"
    by (simp only: scast_eq)
  then show ?thesis
    by (simp add: pid_start_def)
qed

lemma release_pid_ok:
  assumes ok: "pids_ok s" and p: "1 \<le> unat p" "unat p \<le> 1024"
  shows "\<exists>mp. release_pid p m s = Inr (KRet () m (s\<lparr>pid_bitmap := mp\<rparr>)) \<and> wf_bitmap mp \<and> bm_len mp = 128 \<and>
    bm_used mp = (bm_used (pid_bitmap s))(unat p - 1 := False)"
proof -
  let ?i = "unat p - 1"
  have i: "?i < 1024"
    using p by simp
  have "word_of_nat (Suc ?i) = p"
    using p(1) by (simp del: of_nat_Suc)
  then have idx: "scast p - pid_start = (word_of_nat ?i :: u32)"
    using pid_idx[of ?i] p by (simp del: of_nat_Suc)
  have "unat (word_of_nat ?i :: u32) = ?i"
    using p by (intro unat_of_nat_lt) simp
  then obtain mp where mp: "bitmap_set_idx (pid_bitmap s) (scast p - pid_start) 0 = Inr mp" "wf_bitmap mp"
    "bm_slots mp = bm_slots (pid_bitmap s)" "bm_used mp = (bm_used (pid_bitmap s))(?i := False)"
    using bm.mark_ok[of "pid_bitmap s" "word_of_nat ?i" 0] idx ok i by (auto simp: bm_slots_def pids_ok_def)
  have "release_pid p m s = Inr (KRet () m (s\<lparr>pid_bitmap := mp\<rparr>))"
    unfolding release_pid_def using ok mp(1) by (intro while_pid_locked_ok) (simp_all add: pids_ok_def)
  moreover have "bm_len mp = 128"
    using mp(3) ok by (simp add: bm_slots_def word_unat_eq_iff pids_ok_def)
  ultimately show ?thesis
    using mp by blast
qed

lemma bm_used_pid: "bm_used (pid_bitmap s) i = pid_used s (Suc i)"
  by (simp add: pid_used_def)

text \<open>
  C39. Process identifiers: as long as one of the identifiers 1 to 127 is unused, \<^verbatim>\<open>alloc_pid\<close> returns an identifier
  in that range that was not in use and marks it and no other; \<^verbatim>\<open>release_pid\<close> of it restores the pool.
  When all 127 are taken the failure of the search is not noticed and the call writes outside of the
  bitmap, although the bitmap has 1024 bits.
\<close>

theorem pid_allocation:
  assumes ok: "pids_ok s"
  shows "((\<exists>n. 1 \<le> n \<and> n \<le> 127 \<and> \<not> pid_used s n) \<longrightarrow>
      (\<exists>p s1 s2. alloc_pid m s = Inr (KRet p m s1) \<and> 1 \<le> unat p \<and> unat p \<le> 127 \<and> \<not> pid_used s (unat p) \<and>
        (\<forall>n \<ge> 1. pid_used s1 n \<longleftrightarrow> n = unat p \<or> pid_used s n) \<and> pids_ok s1 \<and>
        release_pid p m s1 = Inr (KRet () m s2) \<and> (\<forall>n \<ge> 1. pid_used s2 n \<longleftrightarrow> pid_used s n))) \<and>
    ((\<forall>n. 1 \<le> n \<and> n \<le> 127 \<longrightarrow> pid_used s n) \<longrightarrow> alloc_pid m s = Inl OutOfBounds)"
proof (intro conjI impI)
  assume "\<exists>n. 1 \<le> n \<and> n \<le> 127 \<and> \<not> pid_used s n"
  then obtain n where "1 \<le> n" "n \<le> 127" "\<not> pid_used s n"
    by blast
  then have "n - 1 < 127" "\<not> bm_used (pid_bitmap s) (n - 1)"
    by (simp_all add: pid_used_def)
  from alloc_pid_free[OF ok this, of m] obtain i mp where
    a: "alloc_pid m s = Inr (KRet (word_of_nat (Suc i)) m (s\<lparr>pid_bitmap := mp\<rparr>))" "i < 127" "\<not> bm_used (pid_bitmap s) i"
    "wf_bitmap mp" "bm_len mp = 128" "bm_used mp = (bm_used (pid_bitmap s))(i := True)"
    by blast
  let ?p = "word_of_nat (Suc i) :: u16" and ?s1 = "s\<lparr>pid_bitmap := mp\<rparr>"
  have p: "unat ?p = Suc i"
    using a(2) by (intro unat_pid) simp
  have ok1: "pids_ok ?s1"
    using ok a(4,5) by (simp add: pids_ok_def)
  obtain mp2 where mp2: "release_pid ?p m ?s1 = Inr (KRet () m (s\<lparr>pid_bitmap := mp2\<rparr>))" "bm_used mp2 = (bm_used mp)(i := False)"
    using release_pid_ok[OF ok1, of ?p m] p a(2) by (auto simp del: of_nat_Suc)
  show "\<exists>p s1 s2. alloc_pid m s = Inr (KRet p m s1) \<and> 1 \<le> unat p \<and> unat p \<le> 127 \<and> \<not> pid_used s (unat p) \<and>
        (\<forall>n \<ge> 1. pid_used s1 n \<longleftrightarrow> n = unat p \<or> pid_used s n) \<and> pids_ok s1 \<and>
        release_pid p m s1 = Inr (KRet () m s2) \<and> (\<forall>n \<ge> 1. pid_used s2 n \<longleftrightarrow> pid_used s n)"
    by (intro exI[of _ ?p] exI[of _ ?s1] exI[of _ "s\<lparr>pid_bitmap := mp2\<rparr>"] conjI)
      (use a p mp2 ok1 in \<open>auto simp: pid_used_def simp del: of_nat_Suc\<close>)
next
  assume full: "\<forall>n. 1 \<le> n \<and> n \<le> 127 \<longrightarrow> pid_used s n"
  let ?bm = "pid_bitmap s"
  have wf: "wf_bitmap ?bm" "bm_len ?bm = 128" "0 < (1::u32)" "(1::u32) \<le> bm_len ?bm"
    using ok by (simp_all add: pids_ok_def)
  have "bm_used ?bm k" if "k < 127" for k
    using full[rule_format, of "Suc k"] that by (simp add: pid_used_def)
  then have "first_fit ?bm 1 0 = None"
    using wf(2) by (auto simp: first_fit_None free_run_iff)
  then have none: "bitmap_apply_cnt ?bm 1 = Inr (- 1)"
    using bitmap_scan_first_fit[OF wf(1,3,4), of 0] by (simp add: bitmap_apply_cnt_def fit_result_def)
  have "bitmap_set_idx ?bm (- 1) 1 = Inl OutOfBounds"
    using wf(1,2) by (simp add: bitmap_set_idx_def wf_bitmap_def)
  then show "alloc_pid m s = Inl OutOfBounds"
    unfolding alloc_pid_def using ok none by (intro while_pid_locked_fault) (simp_all add: pids_ok_def)
qed

lemma kstate0_pids: "pids_ok kstate0"
  by (simp add: pids_ok_def kstate0_def wf_bitmap_def lock_init_def semaphore_init_def NULL_def)

lemma kstate0_pid_unused: "n \<le> 1024 \<Longrightarrow> \<not> pid_used kstate0 n"
  by (simp add: pid_used_def kstate0_def bm_used_def)

theorem pid_allocation_witness:
  "\<exists>p s1 s2. alloc_pid mem0 kstate0 = Inr (KRet p mem0 s1) \<and> 1 \<le> unat p \<and> unat p \<le> 127 \<and> pid_used s1 (unat p) \<and>
    release_pid p mem0 s1 = Inr (KRet () mem0 s2) \<and> \<not> pid_used s2 (unat p)"
proof -
  have "\<exists>n. 1 \<le> n \<and> n \<le> 127 \<and> \<not> pid_used kstate0 n"
    using kstate0_pid_unused[of 1] by (intro exI[of _ 1]) simp
  then show ?thesis
    using pid_allocation[OF kstate0_pids, of mem0] by (metis (no_types, lifting))
qed

subsection \<open>Creation and termination\<close>

lemma queue_inv_pid_bitmap [simp]: "queue_inv (s\<lparr>pid_bitmap := b\<rparr>) = queue_inv s"
  by (simp add: queue_inv_def)

lemma sched_inv_pid_bitmap [simp]: "sched_inv (s\<lparr>pid_bitmap := b\<rparr>) = sched_inv s"
  by (simp add: sched_inv_def)

text \<open>The smallest free identifier is taken; the main thread is running already.\<close>

lemma init_thread_first:
  assumes ok: "pids_ok s" and free: "k < 127" "\<not> pid_used s (Suc k)" and t: "t \<noteq> NULL" "length nm \<le> 15"
  shows "\<exists>p s'. init_thread t nm prio m s = Inr (KRet () m s') \<and> pids_ok s' \<and> 1 \<le> unat p \<and> unat p \<le> 127 \<and>
    \<not> pid_used s (unat p) \<and> (\<forall>n \<ge> 1. pid_used s' n \<longleftrightarrow> n = unat p \<or> pid_used s n) \<and>
    s' = (upd_pcb t (\<lambda>_. zero_pcb\<lparr>self_kstack := t + PG_SIZE, pid := p, status := (if t = main_thread s then TASK_RUNNING else TASK_READY), name := nm, priority := prio,
      ticks := prio, parent_pid := - 1, stack_magic := STACK_MAGIC\<rparr>) s)\<lparr>pid_bitmap := pid_bitmap s'\<rparr> \<and>
    (\<forall>n. 1 \<le> n \<and> n < unat p \<longrightarrow> pid_used s n)"
proof -
  let ?s1 = "upd_pcb t (\<lambda>_. zero_pcb\<lparr>self_kstack := t + PG_SIZE\<rparr>) s"
  have ok1: "pids_ok ?s1" and "\<not> bm_used (pid_bitmap ?s1) k"
    using ok free(2) by (simp_all add: pids_ok_def pid_used_def)
  from alloc_pid_free[OF ok1 free(1) this(2), of m] obtain i mp where
    a: "alloc_pid m ?s1 = Inr (KRet (word_of_nat (Suc i)) m (?s1\<lparr>pid_bitmap := mp\<rparr>))" "i < 127" "\<not> bm_used (pid_bitmap ?s1) i"
      "wf_bitmap mp" "bm_len mp = 128" "bm_used mp = (bm_used (pid_bitmap ?s1))(i := True)" "\<forall>j < i. bm_used (pid_bitmap ?s1) j"
    by blast
  let ?p = "word_of_nat (Suc i) :: u16"
  have p: "unat ?p = Suc i"
    using a(2) by (intro unat_pid) simp
  have low: "pid_used s n" if "1 \<le> n" "n < Suc i" for n
    using a(7) that by (simp add: pid_used_def)
  show ?thesis
    by (rule exI[of _ ?p], rule exI, rule conjI, simp only: init_thread_def Let_def a(1) andthen_simps kcall.case)
      (use a(2-6) p t ok low in \<open>auto simp: pids_ok_def pid_used_def upd_pcb_def zero_pcb_def simp del: of_nat_Suc split: if_splits\<close>)
qed

lemma init_thread_ok:
  assumes ok: "pids_ok s" and free: "k < 127" "\<not> pid_used s (Suc k)" and t: "t \<noteq> NULL" "t \<noteq> main_thread s" "length nm \<le> 15"
  shows "\<exists>p s'. init_thread t nm prio m s = Inr (KRet () m s') \<and> pids_ok s' \<and> 1 \<le> unat p \<and> unat p \<le> 127 \<and>
    \<not> pid_used s (unat p) \<and> (\<forall>n \<ge> 1. pid_used s' n \<longleftrightarrow> n = unat p \<or> pid_used s n) \<and>
    s' = (upd_pcb t (\<lambda>_. zero_pcb\<lparr>self_kstack := t + PG_SIZE, pid := p, status := TASK_READY, name := nm, priority := prio,
      ticks := prio, parent_pid := - 1, stack_magic := STACK_MAGIC\<rparr>) s)\<lparr>pid_bitmap := pid_bitmap s'\<rparr>"
  using init_thread_first[OF ok free t(1,3), of prio m] by (simp only: t(2) if_False) blast

lemma enlist_inv:
  assumes inv: "sched_inv s" and t: "t \<noteq> NULL" "t \<notin> set (thread_all_list s)" "status (f (pcbs s t)) = TASK_READY"
  shows "\<exists>s'. enlist t (upd_pcb t f s) = Inr s' \<and> sched_inv s' \<and>
    s' = (upd_pcb t f s)\<lparr>thread_ready_list := thread_ready_list s @ [t], thread_all_list := thread_all_list s @ [t]\<rparr>"
proof -
  have q: "queue_inv s" and r: "status_of s (running_thread s) = TASK_RUNNING"
    using inv by (simp_all add: sched_inv_def)
  have nr: "t \<notin> set (thread_ready_list s)"
    using queue_invD(4)[OF q] t(2) by blast
  have rt: "running_thread s \<in> set (thread_all_list s)" "running_thread s \<noteq> t" "idle_thread s \<noteq> t"
    using queue_invD(8)[OF q r] queue_invD(5)[OF q] t(2) by auto
  let ?s = "(upd_pcb t f s)\<lparr>thread_ready_list := thread_ready_list s @ [t], thread_all_list := thread_all_list s @ [t]\<rparr>"
  have "sched_inv ?s"
  proof (rule sched_invI)
    fix u assume u: "u \<in> set (thread_all_list ?s)"
    show "(status_of ?s u = TASK_READY) = (u \<in> set (thread_ready_list ?s))"
      using u t(3) nr queue_invD(6)[OF q, of u] by (cases "u = t") simp_all
    assume "status_of ?s u = TASK_RUNNING"
    then show "u = running_thread ?s"
      using u t(3) queue_invD(7)[OF q, of u] by (cases "u = t") simp_all
  qed (use queue_invD(1-5,9)[OF q] t nr rt r in auto)
  then show ?thesis
    using nr t(2) by (simp add: enlist_def)
qed

text \<open>
  C32. A new thread is installed correctly: in a safe state with a free identifier, initialising the page of a
  fresh control block (\<^verbatim>\<open>init_thread\<close>, \<^verbatim>\<open>thread_create\<close>) and queueing it as \<^verbatim>\<open>thread_start\<close>
  does succeeds without a failed assertion; the thread is ready, last in the ready list and in the list of all
  threads, has an identifier no other thread has, a time slice equal to its priority, and a kernel stack from which
  the first switch enters \<^verbatim>\<open>kernel_thread\<close> with its function and argument; no other thread is changed and the
  scheduling invariant holds.
\<close>

theorem thread_install_ready:
  assumes "sched_inv s" "pids_ok s" and "1 \<le> n" "n \<le> 127" "\<not> pid_used s n"
    and "t \<noteq> NULL" "t \<notin> set (thread_all_list s)" "t \<noteq> main_thread s" "length nm \<le> 15"
  shows "\<exists>s'. thread_install kernel_thread t nm prio func func_arg m s = Inr (KRet t m s') \<and> sched_inv s' \<and> pids_ok s' \<and>
    thread_ready_list s' = thread_ready_list s @ [t] \<and> thread_all_list s' = thread_all_list s @ [t] \<and>
    running_thread s' = running_thread s \<and> (\<forall>u. u \<noteq> t \<longrightarrow> pcbs s' u = pcbs s u) \<and>
    status_of s' t = TASK_READY \<and> ticks (pcbs s' t) = prio \<and> priority (pcbs s' t) = prio \<and>
    pg_dir (pcbs s' t) = NULL \<and> stack_magic (pcbs s' t) = STACK_MAGIC \<and>
    \<not> pid_used s (unat (pid (pcbs s' t))) \<and> pid_used s' (unat (pid (pcbs s' t))) \<and>
    ts_eip (kstack (pcbs s' t)) = kernel_thread \<and> ts_func (kstack (pcbs s' t)) = func \<and> ts_func_arg (kstack (pcbs s' t)) = func_arg \<and>
    self_kstack (pcbs s' t) = t + PG_SIZE - 432"
proof -
  have k: "n - 1 < 127" "\<not> pid_used s (Suc (n - 1))"
    using assms(3-5) by simp_all
  obtain p s1 where i: "init_thread t nm prio m s = Inr (KRet () m s1)" "pids_ok s1" "1 \<le> unat p" "\<not> pid_used s (unat p)"
    "\<forall>n \<ge> 1. pid_used s1 n \<longleftrightarrow> n = unat p \<or> pid_used s n"
    "s1 = (upd_pcb t (\<lambda>_. zero_pcb\<lparr>self_kstack := t + PG_SIZE, pid := p, status := TASK_READY, name := nm, priority := prio,
      ticks := prio, parent_pid := - 1, stack_magic := STACK_MAGIC\<rparr>) s)\<lparr>pid_bitmap := pid_bitmap s1\<rparr>"
    using init_thread_ok[OF assms(2) k(1,2) assms(6,8,9), of prio m] by blast
  let ?s2 = "thread_create kernel_thread t func func_arg s1"
  let ?u = "s\<lparr>pid_bitmap := pid_bitmap s1\<rparr>"
  have s2: "?s2 = upd_pcb t (\<lambda>_. pcbs ?s2 t) ?u"
    by (subst (1 2) i(6)) (simp add: thread_create_def upd_pcb_def)
  have t2: "pcbs ?s2 t = zero_pcb\<lparr>self_kstack := t + PG_SIZE - 432, pid := p, status := TASK_READY, name := nm, priority := prio,
      ticks := prio, parent_pid := - 1, stack_magic := STACK_MAGIC,
      kstack := (kstack zero_pcb)\<lparr>ts_eip := kernel_thread, ts_func := func, ts_func_arg := func_arg\<rparr>\<rparr>"
    by (subst i(6)) (simp add: thread_create_def upd_pcb_def zero_pcb_def)
  have "sched_inv ?u"
    using assms(1) by simp
  from enlist_inv[OF this assms(6), of "\<lambda>_. pcbs ?s2 t"] assms(7) t2 s2 obtain s' where
    s': "enlist t ?s2 = Inr s'" "sched_inv s'" "s' = ?s2\<lparr>thread_ready_list := thread_ready_list s @ [t], thread_all_list := thread_all_list s @ [t]\<rparr>"
    by auto
  have fr: "pid_bitmap ?s2 = pid_bitmap s1" "pid_lock ?s2 = pid_lock s" "running_thread ?s2 = running_thread s" "\<And>u. u \<noteq> t \<Longrightarrow> pcbs ?s2 u = pcbs s u"
    by (subst s2, simp)+
  show ?thesis
    by (intro exI[of _ s'] conjI) (use i(1-5) s' t2 fr assms(2) in \<open>auto simp: thread_install_def pid_used_def pids_ok_def zero_pcb_def\<close>)
qed

theorem thread_install_ready_witness:
  "\<exists>s'. thread_install 0xC0001500 0x4000 (c_string ''idle'') 10 0xC0001600 0 mem0 kstate0 = Inr (KRet 0x4000 mem0 s') \<and>
    sched_inv s' \<and> thread_ready_list s' = [0x2000, 0x3000, 0x4000] \<and> self_kstack (pcbs s' 0x4000) = 0x4E50"
  using thread_install_ready[OF kstate0_inv kstate0_pids _ _ kstate0_pid_unused[of 1], of "0x4000" "c_string ''idle''" "0xC0001500" 10 "0xC0001600" 0 mem0]
  by (auto simp: kstate0_def NULL_def c_string_def PG_SIZE_def)

lemma remove1_distinct_set: "distinct xs \<Longrightarrow> set (remove1 x xs) = set xs - {x}"
  by simp

text \<open>The state in which \<^verbatim>\<open>thread_exit\<close> gives the pages and the identifier back.\<close>

definition removed :: "u32 \<Rightarrow> kstate \<Rightarrow> kstate" where
  "removed t s = (set_status t TASK_DIED s)\<lparr>thread_ready_list := remove1 t (thread_ready_list s),
     thread_all_list := remove1 t (thread_all_list s)\<rparr>"

lemma removed_simps [simp]:
  "thread_ready_list (removed t s) = remove1 t (thread_ready_list s)"
  "thread_all_list (removed t s) = remove1 t (thread_all_list s)"
  "running_thread (removed t s) = running_thread s" "idle_thread (removed t s) = idle_thread s"
  "main_thread (removed t s) = main_thread s" "pid_bitmap (removed t s) = pid_bitmap s" "pid_lock (removed t s) = pid_lock s"
  "k_cpu (removed t s) = k_cpu s" "pid (pcbs (removed t s) u) = pid (pcbs s u)"
  "status_of (removed t s) u = (if u = t then TASK_DIED else status_of s u)"
  by (simp_all add: removed_def)

lemma thread_exit_removed:
  assumes "t \<noteq> main_thread s"
    and "(if pg_dir (pcbs s t) \<noteq> NULL then mfree_page PF_KERNEL (pg_dir (pcbs s t)) 1 m else Inr m) = Inr m1"
    and "mfree_page PF_KERNEL t 1 m1 = Inr m2"
  shows "thread_exit t need_schedule m s =
    andthen (release_pid (pid (pcbs s t)) m2 (removed t (snd (k_intr_disable s)))) (\<lambda>r. case r of
      KWait m3 s4 \<Rightarrow> Inr (KWait m3 s4)
    | KRet _ m3 s4 \<Rightarrow>
        if need_schedule then andthen (schedule INTR_OFF s4) (\<lambda>s5. Inr (KRet () m3 s5))
        else Inr (KRet () m3 s4))"
proof -
  let ?s1 = "set_status t TASK_DIED (snd (k_intr_disable s))"
  have "(if t \<in> set (thread_ready_list ?s1) then ?s1\<lparr>thread_ready_list := remove1 t (thread_ready_list ?s1)\<rparr> else ?s1) =
      ?s1\<lparr>thread_ready_list := remove1 t (thread_ready_list ?s1)\<rparr>"
    by (cases ?s1) (simp add: remove1_idem)
  then show ?thesis
    using assms by (simp only: thread_exit_def Let_def) (simp add: k_intr_disable_def removed_def cong: if_cong split del: if_split)
qed

lemma removed_queue_inv:
  assumes inv: "sched_inv s" and t: "t \<noteq> idle_thread s"
  shows "queue_inv (removed t s)" (is "queue_inv ?s")
proof -
  have q: "queue_inv s" and r: "status_of s (running_thread s) = TASK_RUNNING"
    using inv by (simp_all add: sched_inv_def)
  note sets = remove1_distinct_set[OF queue_invD(1)[OF q], of t] remove1_distinct_set[OF queue_invD(2)[OF q], of t]
  show ?thesis
  proof (rule queue_invI)
    fix u assume "u \<in> set (thread_all_list ?s)"
    then have u: "u \<in> set (thread_all_list s)" "u \<noteq> t"
      using sets by simp_all
    show "(status_of ?s u = TASK_READY) = (u \<in> set (thread_ready_list ?s))"
      using u sets queue_invD(6)[OF q u(1)] by simp
    assume "status_of ?s u = TASK_RUNNING"
    then show "u = running_thread ?s"
      using u queue_invD(7)[OF q u(1)] by simp
  next
    assume "status_of ?s (running_thread ?s) = TASK_RUNNING"
    then show "running_thread ?s \<in> set (thread_all_list ?s)"
      using queue_invD(8)[OF q r] sets by (auto split: if_splits)
  next
    show "set (thread_ready_list ?s) \<subseteq> set (thread_all_list ?s)"
      using queue_invD(4)[OF q] sets by auto
  qed (use queue_invD(1-3,5,9)[OF q] t sets in auto)
qed

lemma thread_exit_ok:
  assumes "sched_inv s" "pids_ok s" and "t \<noteq> idle_thread s" "t \<noteq> main_thread s"
    and "1 \<le> unat (pid (pcbs s t))" "unat (pid (pcbs s t)) \<le> 1024"
    and "(if pg_dir (pcbs s t) \<noteq> NULL then mfree_page PF_KERNEL (pg_dir (pcbs s t)) 1 m else Inr m) = Inr m1"
    and "mfree_page PF_KERNEL t 1 m1 = Inr m2"
  shows "\<exists>s'. thread_exit t (t = running_thread s) m s = Inr (KRet () m2 s') \<and> sched_inv s' \<and>
    thread_all_list s' = remove1 t (thread_all_list s) \<and> t \<notin> set (thread_all_list s') \<and> t \<notin> set (thread_ready_list s') \<and>
    running_thread s' \<noteq> t \<and> (t \<noteq> running_thread s \<longrightarrow> running_thread s' = running_thread s) \<and>
    \<not> pid_used s' (unat (pid (pcbs s t))) \<and> (\<forall>n \<ge> 1. n \<noteq> unat (pid (pcbs s t)) \<longrightarrow> pid_used s' n = pid_used s n)"
proof -
  let ?s3 = "removed t (snd (k_intr_disable s))"
  have k: "k_cpu ?s3 = snd (intr_disable (k_cpu s))" "pid_bitmap ?s3 = pid_bitmap s"
    by (simp_all add: k_intr_disable_def)
  have "pids_ok ?s3"
    using assms(2) by (simp add: pids_ok_def k_intr_disable_def)
  from release_pid_ok[OF this assms(5,6), of m2] obtain mp where
    r: "release_pid (pid (pcbs s t)) m2 ?s3 = Inr (KRet () m2 (?s3\<lparr>pid_bitmap := mp\<rparr>))"
      "bm_used mp = (bm_used (pid_bitmap s))(unat (pid (pcbs s t)) - 1 := False)"
    using k(2) by auto
  let ?s4 = "?s3\<lparr>pid_bitmap := mp\<rparr>"
  have off: "intr_get_status (k_cpu ?s4) = INTR_OFF"
    using k(1) by simp
  have q4: "queue_inv ?s4"
    using removed_queue_inv[of "snd (k_intr_disable s)" t] assms(1,3) by (simp add: k_intr_disable_def)
  define s' where "s' = (if t = running_thread s then scheduled INTR_OFF ?s4 else ?s4)"
  have e: "thread_exit t (t = running_thread s) m s = Inr (KRet () m2 s')"
    by (simp only: thread_exit_removed[OF assms(4,7,8)] r(1) s'_def schedule_runs[OF q4 off] andthen_simps kcall.case) simp
  have "sched_inv ?s4" if "t \<noteq> running_thread s"
    using q4 assms(1) that by (simp add: sched_inv_def k_intr_disable_def)
  then have inv': "sched_inv s'"
    using scheduled_inv[OF q4, of INTR_OFF] unfolding s'_def by presburger
  have all: "thread_all_list s' = remove1 t (thread_all_list s)" "pid_bitmap s' = mp"
    by (simp_all add: s'_def k_intr_disable_def)
  have gone: "t \<notin> set (thread_all_list s')"
    using all assms(1) by (simp add: sched_inv_def queue_inv_def)
  have "running_thread s' \<in> set (thread_all_list s')" "set (thread_ready_list s') \<subseteq> set (thread_all_list s')"
    using inv' by (simp_all add: sched_inv_def queue_inv_def)
  moreover have "t \<noteq> running_thread s \<longrightarrow> running_thread s' = running_thread s"
    by (simp add: s'_def k_intr_disable_def)
  ultimately show ?thesis
    by (intro exI[of _ s'] conjI) (use e inv' all gone r(2) assms(5) in \<open>auto simp: pid_used_def\<close>)
qed



subsection \<open>The idle loop and the first function of a thread\<close>

text \<open>
  A round of \<^verbatim>\<open>idle\<close> in two parts, since other threads run between them: the loop blocks itself, and when it is scheduled again, because no other thread is ready,
  it enables interrupts and halts. \<^verbatim>\<open>kernel_thread\<close> enables interrupts and calls the function of the thread.
\<close>

definition enable_interrupts :: "kstate \<Rightarrow> kstate" where
  "enable_interrupts s = s\<lparr>k_cpu := snd (intr_enable (k_cpu s))\<rparr>"

definition idle_blocks :: "kstate \<Rightarrow> kstate res" where
  "idle_blocks s = thread_block TASK_BLOCKED s"

definition idle_halts :: "kstate \<Rightarrow> kstate" where
  "idle_halts s = enable_interrupts s"

definition kernel_thread_body :: "(u32 \<Rightarrow> kstate \<Rightarrow> 'a) \<Rightarrow> u32 \<Rightarrow> kstate \<Rightarrow> 'a" where
  "kernel_thread_body func func_arg s = func func_arg (enable_interrupts s)"

text \<open>
  The idle thread gives way to the first ready thread and is then blocked, so that it is not among the ready ones; with no thread ready it keeps the processor. It halts with interrupts enabled.
\<close>

lemma idle_gives_way:
  assumes "sched_inv s" "running_thread s = idle_thread s"
  shows "\<exists>s'. idle_blocks s = Inr s' \<and> sched_inv s' \<and>
    (thread_ready_list s = [] \<longrightarrow> running_thread s' = idle_thread s \<and> thread_ready_list s' = []) \<and>
    (\<forall>t ts. thread_ready_list s = t # ts \<longrightarrow> running_thread s' = t \<and> thread_ready_list s' = ts \<and> status_of s' (idle_thread s) = TASK_BLOCKED)"
proof -
  have q: "queue_inv s" "status_of s (running_thread s) = TASK_RUNNING"
    using assms(1) by (simp_all add: sched_inv_def)
  then have nr: "idle_thread s \<notin> set (thread_ready_list s)"
    using queue_invD(5,6)[OF q(1)] assms(2) by force
  show ?thesis
    using thread_block_spec[OF assms(1), of TASK_BLOCKED] assms(2) nr unfolding idle_blocks_def
    by (auto split: list.splits)
qed

lemma idle_halts_enabled: "sched_inv s \<Longrightarrow> sched_inv (idle_halts s) \<and> intr_get_status (k_cpu (idle_halts s)) = INTR_ON"
  by (simp add: idle_halts_def enable_interrupts_def)

end
