(* ===== verification/Process.thy ===== *)
theory Process
  imports Thread Heap
begin

text \<open>
  User processes: the construction of their address space and first context (\<^verbatim>\<open>src/userprog/process.c\<close>), and the protocol of
  parents and children (\<^verbatim>\<open>src/userprog/wait.c\<close>, \<^verbatim>\<open>src/userprog/exit.c\<close>). \<^verbatim>\<open>list_traversal\<close> over the list of all threads is a
  search in the sequence of theory \<open>Sched\<close>. \<^verbatim>\<open>sys_wait\<close> loops around \<^verbatim>\<open>thread_block\<close>: one round of its loop is one call here, and
  the outcome \<open>WBlocked\<close> is a caller that has been put to sleep and starts the next round when it is continued.
\<close>

definition USER_STACK3_VADDR :: u32 where "USER_STACK3_VADDR = 0xc0000000 - 0x1000"
definition USER_VADDR_START :: u32 where "USER_VADDR_START = 0x8048000"

definition SELECTOR_USER_CODE :: u32 where "SELECTOR_USER_CODE = push_bit 3 5 + push_bit 2 0 + 3"
definition SELECTOR_USER_DATA :: u32 where "SELECTOR_USER_DATA = push_bit 3 6 + push_bit 2 0 + 3"
definition EFLAGS_MBS :: u32 where "EFLAGS_MBS = push_bit 1 1"
definition EFLAGS_IF_1 :: u32 where "EFLAGS_IF_1 = push_bit 9 1"
definition EFLAGS_IOPL_0 :: u32 where "EFLAGS_IOPL_0 = push_bit 12 0"

subsection \<open>The first context of a process\<close>

record intr_stack =
  is_vector_id :: u32
  is_edi :: u32
  is_esi :: u32
  is_ebp :: u32
  is_esp_dummy :: u32
  is_ebx :: u32
  is_edx :: u32
  is_ecx :: u32
  is_eax :: u32
  is_gs :: u32
  is_fs :: u32
  is_es :: u32
  is_ds :: u32
  is_err_code :: u32
  is_eip :: u32
  is_cs :: u32
  is_eflags :: u32
  is_esp :: u32
  is_ss :: u32

text \<open>
  \<^verbatim>\<open>start_process\<close>: the frame that \<^verbatim>\<open>intr_exit\<close> loads, made of the frame \<open>fr\<close> at the place \<^verbatim>\<open>self_kstack\<close> points to after it is moved
  by \<^verbatim>\<open>sizeof(struct thread_stack)\<close> words.
\<close>

definition start_process :: "u32 \<Rightarrow> intr_stack \<Rightarrow> mem \<Rightarrow> kstate \<Rightarrow> intr_stack mcall res" where
  "start_process proc fr m s =
     (let s1 = upd_pcb (running_thread s) (\<lambda>p. p\<lparr>self_kstack := self_kstack p + 32 * 4\<rparr>) s
      in andthen (get_one_page PF_USER USER_STACK3_VADDR m s1) (\<lambda>r. case r of
           Suspend m2 s2 \<Rightarrow> Inr (Suspend m2 s2)
         | Return v m2 s2 \<Rightarrow> Inr (Return (fr\<lparr>is_edi := 0, is_esi := 0, is_ebp := 0, is_esp_dummy := 0, is_ebx := 0, is_edx := 0,
             is_ecx := 0, is_eax := 0, is_gs := 0, is_ds := SELECTOR_USER_DATA, is_es := SELECTOR_USER_DATA, is_fs := SELECTOR_USER_DATA,
             is_eip := proc, is_cs := SELECTOR_USER_CODE, is_eflags := EFLAGS_IOPL_0 OR EFLAGS_MBS OR EFLAGS_IF_1,
             is_esp := v + PG_SIZE, is_ss := SELECTOR_USER_DATA\<rparr>) m2 s2)))"

subsection \<open>Page directories\<close>

text \<open>\<^verbatim>\<open>memcpy\<close> of \<open>n\<close> words between word-aligned virtual addresses.\<close>

fun copy_words :: "nat \<Rightarrow> u32 \<Rightarrow> u32 \<Rightarrow> pmem \<Rightarrow> pmem res" where
  "copy_words 0 dst src m = Inr m"
| "copy_words (Suc n) dst src m =
     andthen (load src m) (\<lambda>x. andthen (store dst x m) (copy_words n (dst + 4) (src + 4)))"

text \<open>What \<^verbatim>\<open>create_page_dir\<close> does with its page: the entries of the kernel, and the entry of the directory itself.\<close>

definition fill_page_dir :: "u32 \<Rightarrow> pmem \<Rightarrow> pmem res" where
  "fill_page_dir page_dir_vaddr m =
     andthen (copy_words 256 (page_dir_vaddr + 0x300 * 4) (0xfffff000 + 0x300 * 4) m) (\<lambda>m.
     andthen (addr_vir2phy page_dir_vaddr m) (\<lambda>new_page_dir_phy_addr.
     store (page_dir_vaddr + 1023 * 4) (new_page_dir_phy_addr OR PG_US_U OR PG_RW_W OR PG_P_1) m))"

definition create_page_dir :: "mem \<Rightarrow> kstate \<Rightarrow> u32 mcall res" where
  "create_page_dir m s =
     andthen (get_kernel_pages 1 m s) (\<lambda>r. case r of
       Suspend m1 s1 \<Rightarrow> Inr (Suspend m1 s1)
     | Return v m1 s1 \<Rightarrow>
         if v = NULL then Inr (Return NULL m1 s1)
         else andthen (fill_page_dir v (mm m1)) (\<lambda>mm1. Inr (Return v (m1\<lparr>mm := mm1\<rparr>) s1)))"

text \<open>The address of the bits and the virtual addresses of a new process.\<close>

definition user_bitmap_len :: u32 where
  "user_bitmap_len = (0xc0000000 - USER_VADDR_START) div PG_SIZE div 8"

definition create_user_vaddr_bitmap :: "mem \<Rightarrow> kstate \<Rightarrow> (u32 \<times> virtual_addr) mcall res" where
  "create_user_vaddr_bitmap m s =
     andthen (get_kernel_pages (DIV_ROUND_UP user_bitmap_len PG_SIZE) m s) (\<lambda>r. case r of
       Suspend m1 s1 \<Rightarrow> Inr (Suspend m1 s1)
     | Return v m1 s1 \<Rightarrow>
         if v = NULL then Inl NullDeref
         else Inr (Return (v, \<lparr>vaddr_bitmap = bitmap_init \<lparr>bm_len = user_bitmap_len, bm_bits = replicate (unat user_bitmap_len) 0\<rparr>,
           vaddr_start = USER_VADDR_START\<rparr>) m1 s1))"

subsection \<open>Parents and children\<close>

text \<open>The tests passed to \<^verbatim>\<open>list_traversal\<close>; identifiers are signed and widened to \<^verbatim>\<open>int32_t\<close>.\<close>

definition check_child :: "kstate \<Rightarrow> int \<Rightarrow> u32 \<Rightarrow> bool" where
  "check_child s ppid t \<longleftrightarrow> sint (parent_pid (pcbs s t)) = ppid"

definition check_hanging_child :: "kstate \<Rightarrow> int \<Rightarrow> u32 \<Rightarrow> bool" where
  "check_hanging_child s ppid t \<longleftrightarrow> sint (parent_pid (pcbs s t)) = ppid \<and> status_of s t = TASK_HANGING"

definition check_thread :: "kstate \<Rightarrow> int \<Rightarrow> u32 \<Rightarrow> bool" where
  "check_thread s p t \<longleftrightarrow> sint (pid (pcbs s t)) = p"

definition check_hanging_thread :: "kstate \<Rightarrow> int \<Rightarrow> u32 \<Rightarrow> bool" where
  "check_hanging_thread s p t \<longleftrightarrow> sint (pid (pcbs s t)) = p \<and> status_of s t = TASK_HANGING"

definition change_parent_to_init :: "int \<Rightarrow> u32 \<Rightarrow> kstate \<Rightarrow> kstate" where
  "change_parent_to_init ppid t s = (if sint (parent_pid (pcbs s t)) = ppid then upd_pcb t (\<lambda>p. p\<lparr>parent_pid := 1\<rparr>) s else s)"

text \<open>
  The outcome of a round of waiting: the result with the status stored through \<^verbatim>\<open>child_exit_status\<close> if it was, a caller put to sleep until
  a child ends, or a caller waiting for the lock of the identifiers.
\<close>

datatype wcall = WDone u16 "u32 option" mem kstate | WBlocked mem kstate | WLock mem kstate

definition reap :: "u32 \<Rightarrow> mem \<Rightarrow> kstate \<Rightarrow> wcall res" where
  "reap child m s =
     (let st = scast (exit_status (pcbs s child)); child_pid = pid (pcbs s child)
      in andthen (thread_exit child False m s) (\<lambda>r. case r of
           KWait m1 s1 \<Rightarrow> Inr (WLock m1 s1) | KRet _ m1 s1 \<Rightarrow> Inr (WDone child_pid (Some st) m1 s1)))"

definition wait_round :: "(u32 \<Rightarrow> bool) \<Rightarrow> (u32 \<Rightarrow> bool) \<Rightarrow> mem \<Rightarrow> kstate \<Rightarrow> wcall res" where
  "wait_round hanging alive m s =
     (case find hanging (thread_all_list s) of
        Some child \<Rightarrow> reap child m s
      | None \<Rightarrow>
          if find alive (thread_all_list s) = None then Inr (WDone (- 1) None m s)
          else andthen (thread_block TASK_WAITING s) (\<lambda>s1. Inr (WBlocked m s1)))"

definition sys_wait :: "int \<Rightarrow> mem \<Rightarrow> kstate \<Rightarrow> wcall res" where
  "sys_wait p m s = wait_round (check_hanging_thread s p) (check_thread s p) m s"

definition sys_wait_without_pid :: "mem \<Rightarrow> kstate \<Rightarrow> wcall res" where
  "sys_wait_without_pid m s =
     (let ppid = sint (pid (pcbs s (running_thread s))) in wait_round (check_hanging_child s ppid) (check_child s ppid) m s)"

subsection \<open>The end of a process\<close>

text \<open>
  \<^verbatim>\<open>release_prog_resource\<close>: the frames of all present pages and page tables below 3 GB are given back. \<open>pgdir\<close> is the virtual
  address of the page directory, the tables are read through the recursive mapping, \<open>bits\<close> is the address of the bitmap
  of virtual addresses and \<open>len\<close> its length.
\<close>

fun release_pt :: "nat \<Rightarrow> u32 \<Rightarrow> mem \<Rightarrow> mem res" where
  "release_pt 0 ptr m = Inr m"
| "release_pt (Suc n) ptr m =
     andthen (load ptr (mm m)) (\<lambda>pte.
     andthen (if pte AND 1 \<noteq> 0 then free_one_phy_page (pte AND 0xfffff000) m else Inr m) (release_pt n (ptr + 4)))"

fun release_pd :: "u32 \<Rightarrow> nat \<Rightarrow> u32 \<Rightarrow> mem \<Rightarrow> mem res" where
  "release_pd pgdir 0 pde_idx m = Inr m"
| "release_pd pgdir (Suc n) pde_idx m =
     andthen (load (pgdir + pde_idx * 4) (mm m)) (\<lambda>pde.
     andthen (if pde AND 1 \<noteq> 0
              then andthen (release_pt 1024 (pte_ptr (pde_idx * 0x400000)) m) (free_one_phy_page (pde AND 0xfffff000))
              else Inr m) (release_pd pgdir n (pde_idx + 1)))"

definition release_prog_resource :: "u32 \<Rightarrow> u32 \<Rightarrow> u32 \<Rightarrow> mem \<Rightarrow> mem res" where
  "release_prog_resource pgdir bits len m =
     andthen (release_pd pgdir 768 0 m) (mfree_page PF_KERNEL bits (len div PG_SIZE))"

text \<open>\<^verbatim>\<open>exit_status\<close> is an \<^verbatim>\<open>int8_t\<close>; the argument is cut to it.\<close>

definition sys_exit :: "u32 \<Rightarrow> u32 \<Rightarrow> u32 \<Rightarrow> mem \<Rightarrow> kstate \<Rightarrow> (mem \<times> kstate) res" where
  "sys_exit bits len st m s =
     (let child = running_thread s; s1 = upd_pcb child (\<lambda>p. p\<lparr>exit_status := ucast st\<rparr>) s
      in if sint (parent_pid (pcbs s1 child)) = - 1 then Inl (Panic ''sys_exit: child->parent_pid is -1'')
         else let s2 = fold (change_parent_to_init (sint (pid (pcbs s1 child)))) (thread_all_list s1) s1
           in andthen (release_prog_resource (pg_dir (pcbs s2 child)) bits len m) (\<lambda>m1.
              let parent = pid2pcb (sint (parent_pid (pcbs s2 child))) s2
              in andthen (if parent \<noteq> NULL \<and> status_of s2 parent = TASK_WAITING then thread_unblock parent s2 else Inr s2) (\<lambda>s3.
                 andthen (thread_block TASK_HANGING s3) (\<lambda>s4. Inr (m1, s4)))))"

subsection \<open>A child that ends is reaped by its waiting parent\<close>

lemma scheduled_keeps [simp]:
  "pid (pcbs (scheduled ret s) t) = pid (pcbs s t)" "parent_pid (pcbs (scheduled ret s) t) = parent_pid (pcbs s t)"
  "exit_status (pcbs (scheduled ret s) t) = exit_status (pcbs s t)" "pg_dir (pcbs (scheduled ret s) t) = pg_dir (pcbs s t)"
  by (simp_all add: scheduled_def requeued_def switch_to_def k_intr_set_status_def Let_def)

text \<open>The control blocks after the children of the thread with identifier \<open>ppid\<close> were given to the first process.\<close>

definition adopted :: "int \<Rightarrow> u32 list \<Rightarrow> kstate \<Rightarrow> kstate" where
  "adopted ppid ts s = s\<lparr>pcbs := (\<lambda>t. if t \<in> set ts \<and> sint (parent_pid (pcbs s t)) = ppid then (pcbs s t)\<lparr>parent_pid := 1\<rparr> else pcbs s t)\<rparr>"

lemma change_parent_adopted: "change_parent_to_init ppid t s = adopted ppid [t] s"
proof (cases "sint (parent_pid (pcbs s t)) = ppid")
  case True
  then have "(\<lambda>u. if u \<in> set [t] \<and> sint (parent_pid (pcbs s u)) = ppid then (pcbs s u)\<lparr>parent_pid := 1\<rparr> else pcbs s u) = (pcbs s)(t := (pcbs s t)\<lparr>parent_pid := 1\<rparr>)"
    by (auto simp: fun_eq_iff)
  then show ?thesis
    using True by (simp only: adopted_def change_parent_to_init_def upd_pcb_def) simp
next
  case False
  then have "(\<lambda>u. if u \<in> set [t] \<and> sint (parent_pid (pcbs s u)) = ppid then (pcbs s u)\<lparr>parent_pid := 1\<rparr> else pcbs s u) = pcbs s"
    by (auto simp: fun_eq_iff)
  then show ?thesis
    using False by (simp only: adopted_def change_parent_to_init_def if_False) simp
qed

lemma adopted_adopted: "adopted ppid ts (adopted ppid us s) = adopted ppid (us @ ts) s"
proof -
  have "pcbs (adopted ppid ts (adopted ppid us s)) = pcbs (adopted ppid (us @ ts) s)"
    by (auto simp: adopted_def fun_eq_iff)
  then show ?thesis
    by (simp add: adopted_def)
qed

lemma fold_adopted: "fold (change_parent_to_init ppid) ts s = adopted ppid ts s"
proof (induction ts arbitrary: s)
  case Nil
  then show ?case by (simp add: adopted_def)
next
  case (Cons t ts)
  show ?case
    by (simp only: fold.simps comp_apply Cons.IH) (simp add: change_parent_adopted adopted_adopted)
qed

lemma adopted_simps [simp]:
  "running_thread (adopted p ts s) = running_thread s" "main_thread (adopted p ts s) = main_thread s" "idle_thread (adopted p ts s) = idle_thread s"
  "thread_ready_list (adopted p ts s) = thread_ready_list s" "thread_all_list (adopted p ts s) = thread_all_list s"
  "pid_bitmap (adopted p ts s) = pid_bitmap s" "pid_lock (adopted p ts s) = pid_lock s" "k_cpu (adopted p ts s) = k_cpu s"
  "status_of (adopted p ts s) t = status_of s t" "pid (pcbs (adopted p ts s) t) = pid (pcbs s t)" "pg_dir (pcbs (adopted p ts s) t) = pg_dir (pcbs s t)"
  "exit_status (pcbs (adopted p ts s) t) = exit_status (pcbs s t)"
  by (simp_all add: adopted_def)

lemma sched_inv_same_status:
  assumes "sched_inv s" and "\<And>t. status_of s' t = status_of s t"
    and "running_thread s' = running_thread s" "idle_thread s' = idle_thread s" "thread_ready_list s' = thread_ready_list s" "thread_all_list s' = thread_all_list s"
    "main_thread s' = main_thread s"
  shows "sched_inv s'"
proof -
  have "sched_inv s' = sched_inv s"
    by (simp only: sched_inv_def queue_inv_def assms(2-7))
  then show ?thesis
    using assms(1) by simp
qed

lemma pid2pcb_cong:
  assumes "\<And>t. pid (pcbs s' t) = pid (pcbs s t)" and "thread_all_list s' = thread_all_list s"
  shows "pid2pcb n s' = pid2pcb n s"
  by (simp only: pid2pcb_def assms)

lemma thread_block_runs:
  assumes inv: "sched_inv s" and st: "st \<in> {TASK_BLOCKED, TASK_WAITING, TASK_HANGING}" and idle: "running_thread s \<noteq> idle_thread s"
  defines "s1 \<equiv> set_status (running_thread s) st (s\<lparr>k_cpu := snd (intr_disable (k_cpu s))\<rparr>)"
  shows "thread_block st s = Inr (scheduled (intr_get_status (k_cpu s)) s1)" "queue_inv s1"
proof -
  show q: "queue_inv s1"
    unfolding s1_def using queue_inv_suspend[of "s\<lparr>k_cpu := snd (intr_disable (k_cpu s))\<rparr>" st] inv st idle by auto
  show "thread_block st s = Inr (scheduled (intr_get_status (k_cpu s)) s1)"
    using schedule_runs[OF q] st by (auto simp: thread_block_def k_intr_disable_def s1_def)
qed

lemma sys_exit_wakes_parent:
  assumes inv: "sched_inv s" and c: "c = running_thread s" "c \<noteq> idle_thread s" "sint (parent_pid (pcbs s c)) \<noteq> - 1"
    "parent_pid (pcbs s c) \<noteq> pid (pcbs s c)"
    and p: "pid2pcb (sint (parent_pid (pcbs s c))) s = p" "p \<in> set (thread_all_list s)" "status_of s p = TASK_WAITING"
    and r: "release_prog_resource (pg_dir (pcbs s c)) bits len m = Inr m1"
  shows "\<exists>s1. sys_exit bits len st m s = Inr (m1, s1) \<and> sched_inv s1 \<and> running_thread s1 = p \<and> status_of s1 c = TASK_HANGING \<and>
    exit_status (pcbs s1 c) = ucast st \<and> (\<forall>t. pid (pcbs s1 t) = pid (pcbs s t) \<and> pg_dir (pcbs s1 t) = pg_dir (pcbs s t)) \<and>
    thread_all_list s1 = thread_all_list s \<and> main_thread s1 = main_thread s \<and> idle_thread s1 = idle_thread s \<and> pid_bitmap s1 = pid_bitmap s \<and> pid_lock s1 = pid_lock s \<and>
    (\<forall>t \<in> set (thread_all_list s). parent_pid (pcbs s1 t) = (if parent_pid (pcbs s t) = pid (pcbs s c) then 1 else parent_pid (pcbs s t)))"
proof -
  let ?s1 = "upd_pcb c (\<lambda>p. p\<lparr>exit_status := ucast st\<rparr>) s"
  let ?s2 = "adopted (sint (pid (pcbs s c))) (thread_all_list s) ?s1"
  let ?s3 = "set_status p TASK_READY (?s2\<lparr>thread_ready_list := p # thread_ready_list s\<rparr>)"
  have q: "queue_inv s" and r1: "status_of s (running_thread s) = TASK_RUNNING"
    using inv by (simp_all add: sched_inv_def)
  have pc: "p \<noteq> c" "p \<noteq> NULL"
    using queue_invD(3)[OF q] p(2,3) c(1) r1 by auto
  have inv2: "sched_inv ?s2"
    using inv by (rule sched_inv_same_status) simp_all
  have st2: "status_of ?s2 p = TASK_WAITING"
    using p(3) pc(1) by simp
  have nq: "p \<notin> set (thread_ready_list ?s2)"
    using queue_invD(6)[OF q p(2)] p(3) by simp
  have ub: "thread_unblock p ?s2 = Inr ?s3"
    using thread_unblock_ok[of ?s2 p] st2 nq by simp
  then have inv3: "sched_inv ?s3"
    using thread_unblock_spec[OF inv2, of p] p(2) st2 by auto
  have ne: "sint (parent_pid (pcbs s c)) \<noteq> sint (pid (pcbs s c))"
    using c(4) signed_word_eqI by blast
  have par: "pid2pcb (sint (parent_pid (pcbs ?s2 c))) ?s2 = p"
  proof -
    have "parent_pid (pcbs ?s2 c) = parent_pid (pcbs s c)"
      using ne by (simp add: adopted_def)
    moreover have "pid2pcb n ?s2 = pid2pcb n s" for n
      by (rule pid2pcb_cong) simp_all
    ultimately show ?thesis
      using p(1) by simp
  qed
  have cr: "running_thread ?s3 = c" "running_thread ?s3 \<noteq> idle_thread ?s3"
    using c by simp_all
  let ?s4 = "set_status c TASK_HANGING (?s3\<lparr>k_cpu := snd (intr_disable (k_cpu ?s3))\<rparr>)"
  have bl: "thread_block TASK_HANGING ?s3 = Inr (scheduled (intr_get_status (k_cpu ?s3)) ?s4)" "queue_inv ?s4"
    using thread_block_runs[OF inv3 _ cr(2), of TASK_HANGING] cr(1) by simp_all
  let ?s5 = "scheduled (intr_get_status (k_cpu ?s3)) ?s4"
  have cand: "candidates ?s4 = p # thread_ready_list s"
    using cr(1) by (simp add: candidates_def)
  have run: "sys_exit bits len st m s = Inr (m1, ?s5)"
    using c(1,3) r par pc(2) st2 ub bl(1) by (simp add: sys_exit_def fold_adopted Let_def)
  moreover have "sched_inv ?s5"
    by (rule scheduled_inv[OF bl(2)])
  moreover have "status_of ?s5 c = TASK_HANGING"
    using pc(1) cand by (simp add: scheduled_status)
  moreover have "exit_status (pcbs ?s5 c) = ucast st"
    using pc(1) by (simp add: adopted_def)
  moreover have "pid (pcbs ?s5 t) = pid (pcbs s t) \<and> pg_dir (pcbs ?s5 t) = pg_dir (pcbs s t)" for t
    by (simp add: adopted_def)
  moreover have "parent_pid (pcbs ?s5 t) = (if parent_pid (pcbs s t) = pid (pcbs s c) then 1 else parent_pid (pcbs s t))" if "t \<in> set (thread_all_list s)" for t
    using that signed_word_eqI[of "parent_pid (pcbs s t)" "pid (pcbs s c)"] by (auto simp: adopted_def)
  ultimately show ?thesis
    using cand by (intro exI[of _ ?s5]) simp
qed

lemma find_hanging:
  assumes "pid2pcb n s = c" and "c \<noteq> NULL" and "thread_all_list s1 = thread_all_list s" and "\<And>t. pid (pcbs s1 t) = pid (pcbs s t)" and "status_of s1 c = TASK_HANGING"
  shows "find (check_hanging_thread s1 n) (thread_all_list s1) = Some c"
proof -
  let ?P = "\<lambda>t. sint (pid (pcbs s t)) = n"
  have f: "find ?P (thread_all_list s) = Some c"
    using assms(1,2) by (auto simp: pid2pcb_def split: option.splits)
  have "find ?P xs = Some c \<Longrightarrow> find (check_hanging_thread s1 n) xs = Some c" for xs
    by (induction xs) (auto simp: check_hanging_thread_def assms(4,5) split: if_splits)
  then show ?thesis
    using f assms(3) by simp
qed

lemma sys_wait_reaps:
  assumes "find (check_hanging_thread s (sint (pid (pcbs s c)))) (thread_all_list s) = Some c"
    and "sched_inv s" "pids_ok s" "c \<noteq> idle_thread s" "c \<noteq> main_thread s" "c \<noteq> running_thread s"
    and "1 \<le> unat (pid (pcbs s c))" "unat (pid (pcbs s c)) \<le> 1024"
    and "(if pg_dir (pcbs s c) \<noteq> NULL then mfree_page PF_KERNEL (pg_dir (pcbs s c)) 1 m else Inr m) = Inr m1"
    and "mfree_page PF_KERNEL c 1 m1 = Inr m2"
  shows "\<exists>s'. sys_wait (sint (pid (pcbs s c))) m s = Inr (WDone (pid (pcbs s c)) (Some (scast (exit_status (pcbs s c)))) m2 s') \<and>
    sched_inv s' \<and> thread_all_list s' = remove1 c (thread_all_list s) \<and> c \<notin> set (thread_all_list s') \<and>
    running_thread s' = running_thread s \<and> \<not> pid_used s' (unat (pid (pcbs s c)))"
proof -
  from thread_exit_ok[OF assms(2-5,7-10)] assms(6) show ?thesis
    by (auto simp: sys_wait_def wait_round_def assms(1) reap_def Let_def)
qed

text \<open>
  C34. The handshake of \<^verbatim>\<open>sys_exit\<close> and \<^verbatim>\<open>sys_wait\<close>: when the running process \<open>c\<close> ends while its parent \<open>p\<close> is asleep in
  \<^verbatim>\<open>sys_wait\<close>, then \<^verbatim>\<open>sys_exit\<close> leaves \<open>c\<close> hanging with the low byte of its status, gives its children to the process with identifier 1
  and continues \<open>p\<close>; the next round of the parent's \<^verbatim>\<open>sys_wait\<close> for \<open>c\<close> returns the identifier and the (sign-extended) status, and \<open>c\<close> is
  gone from the list of threads with its identifier free. The invariant of the scheduler holds throughout.
\<close>

theorem wait_exit_handshake:
  assumes "sched_inv s" "pids_ok s" and "c = running_thread s" "c \<noteq> idle_thread s" "c \<noteq> main_thread s"
    and "pid2pcb (sint (pid (pcbs s c))) s = c" "1 \<le> unat (pid (pcbs s c))" "unat (pid (pcbs s c)) \<le> 1024"
    and "sint (parent_pid (pcbs s c)) \<noteq> - 1" "parent_pid (pcbs s c) \<noteq> pid (pcbs s c)"
    and "pid2pcb (sint (parent_pid (pcbs s c))) s = p" "p \<in> set (thread_all_list s)" "status_of s p = TASK_WAITING"
    and "release_prog_resource (pg_dir (pcbs s c)) bits len m = Inr m1"
    and "(if pg_dir (pcbs s c) \<noteq> NULL then mfree_page PF_KERNEL (pg_dir (pcbs s c)) 1 m1 else Inr m1) = Inr m2"
    and "mfree_page PF_KERNEL c 1 m2 = Inr m3"
  shows "\<exists>s1 s2. sys_exit bits len st m s = Inr (m1, s1) \<and> sched_inv s1 \<and> running_thread s1 = p \<and> status_of s1 c = TASK_HANGING \<and>
    (\<forall>t \<in> set (thread_all_list s). parent_pid (pcbs s1 t) = (if parent_pid (pcbs s t) = pid (pcbs s c) then 1 else parent_pid (pcbs s t))) \<and>
    sys_wait (sint (pid (pcbs s c))) m1 s1 = Inr (WDone (pid (pcbs s c)) (Some (scast (ucast st :: u8))) m3 s2) \<and> sched_inv s2 \<and>
    running_thread s2 = p \<and> c \<notin> set (thread_all_list s2) \<and> \<not> pid_used s2 (unat (pid (pcbs s c)))"
proof -
  obtain s1 where e: "sys_exit bits len st m s = Inr (m1, s1)" "sched_inv s1" "running_thread s1 = p" "status_of s1 c = TASK_HANGING"
    "exit_status (pcbs s1 c) = ucast st" "\<And>t. pid (pcbs s1 t) = pid (pcbs s t)" "\<And>t. pg_dir (pcbs s1 t) = pg_dir (pcbs s t)"
    "thread_all_list s1 = thread_all_list s" "main_thread s1 = main_thread s" "idle_thread s1 = idle_thread s" "pid_bitmap s1 = pid_bitmap s" "pid_lock s1 = pid_lock s"
    "\<forall>t \<in> set (thread_all_list s). parent_pid (pcbs s1 t) = (if parent_pid (pcbs s t) = pid (pcbs s c) then 1 else parent_pid (pcbs s t))"
    using sys_exit_wakes_parent[OF assms(1,3,4,9-14), of st] by blast
  have q: "queue_inv s1" "status_of s1 p = TASK_RUNNING"
    using e(2,3) by (simp_all add: sched_inv_def)
  have pn: "c \<noteq> NULL" "p \<noteq> NULL" "c \<noteq> p"
    using assms(2,3) queue_invD(3)[OF q(1)] assms(12) e(4,8) q(2) by (auto simp: pids_ok_def)
  have "pids_ok s1"
    using assms(2) e(3,11,12) pn(2) by (simp add: pids_ok_def)
  moreover have "find (check_hanging_thread s1 (sint (pid (pcbs s1 c)))) (thread_all_list s1) = Some c"
    using find_hanging[OF assms(6) pn(1) e(8,6,4)] e(6) by simp
  ultimately have "\<exists>s2. sys_wait (sint (pid (pcbs s1 c))) m1 s1 = Inr (WDone (pid (pcbs s1 c)) (Some (scast (exit_status (pcbs s1 c)))) m3 s2) \<and>
    sched_inv s2 \<and> thread_all_list s2 = remove1 c (thread_all_list s1) \<and> c \<notin> set (thread_all_list s2) \<and>
    running_thread s2 = running_thread s1 \<and> \<not> pid_used s2 (unat (pid (pcbs s1 c)))"
    using assms(4,5,7,8,15,16) e(2,3,6,7,9,10) pn(3) by (intro sys_wait_reaps) auto
  then show ?thesis
    using e(1-5,6,13) by auto
qed

text \<open>A machine with a process: its control block, page directory and bitmap are the heap pages 1, 4 and 5.\<close>

definition mem_proc :: mem where
  "mem_proc = mem0\<lparr>mm := pmem0\<lparr>ram := (ram pmem0)(0x101004 := 0x300007, 0x101010 := 0x301007, 0x101014 := 0x302007)\<rparr>\<rparr>"

definition kstate_proc :: kstate where
  "kstate_proc = kstate0\<lparr>main_thread := 0x2000, thread_ready_list := [0x2000],
     pcbs := (pcbs kstate0)(0x1000 := pcb0\<lparr>status := TASK_RUNNING, pid := 5, parent_pid := 3, pg_dir := 0x4000\<rparr>,
       0x3000 := pcb0\<lparr>status := TASK_WAITING, pid := 3\<rparr>)\<rparr>"

lemma mem_proc_frees:
  "(case mfree_page PF_KERNEL 0x5000 1 mem_proc of Inl _ \<Rightarrow> False | Inr m1 \<Rightarrow>
     (case mfree_page PF_KERNEL 0x4000 1 m1 of Inl _ \<Rightarrow> False | Inr m2 \<Rightarrow>
       (case mfree_page PF_KERNEL 0x1000 1 m2 of Inl _ \<Rightarrow> False | Inr m3 \<Rightarrow> True)))"
  by code_simp

lemma release_pd_absent:
  assumes "\<And>i. i < n \<Longrightarrow> load (pgdir + (idx + word_of_nat i) * 4) (mm m) = Inr 0"
  shows "release_pd pgdir n idx m = Inr m"
  using assms
proof (induction n arbitrary: idx)
  case (Suc n)
  have "load (pgdir + (idx + 1 + word_of_nat i) * 4) (mm m) = Inr 0" if "i < n" for i
    using Suc.prems[of "Suc i"] that by (simp add: add.assoc)
  then have "release_pd pgdir n (idx + 1) m = Inr m"
    by (rule Suc.IH)
  then show ?case
    using Suc.prems[of 0] by simp
qed simp

lemma mem_proc_load:
  assumes "i < 768"
  shows "load (0x4000 + word_of_nat i * 4) (mm mem_proc) = Inr 0"
proof -
  let ?v = "0x4000 + word_of_nat i * 4 :: u32"
  have i: "unat (word_of_nat i :: u32) = i"
    using assms by (intro unat_of_nat_lt) simp
  have v: "unat ?v = 16384 + i * 4" "page_off ?v = word_of_nat i * 4"
    using entry_addr(1,3)[of "word_of_nat i" "0x4000"] i assms by (simp_all add: frame_def)
  have "unat (pdi ?v) = unat (0 :: u32)" "unat (pti ?v) = unat (4 :: u32)"
    unfolding unat_pdi unat_pti v(1) using assms by simp_all
  then have f: "pdi ?v = 0" "pti ?v = 4"
    by (simp_all only: word_unat_eq_iff)
  have pde: "ram (mm mem_proc) (pde_addr (mm mem_proc) ?v) = 0x101007"
    unfolding pde_addr_def f by (simp add: mem_proc_def pmem0_def frame_def)
  have pte: "ram (mm mem_proc) (pte_addr (mm mem_proc) ?v) = 0x301007"
    unfolding pte_addr_def pde f by (simp add: mem_proc_def pmem0_def frame_def)
  have t: "translate (mm mem_proc) ?v = Some (frame 0x301007 + word_of_nat i * 4)"
    unfolding translate_def pde pte v(2) by (simp add: present_def)
  have "unat (frame 0x301007 + word_of_nat i * 4) = 0x301000 + i * 4"
    using entry_addr(1)[of "word_of_nat i" "0x301007"] i assms by (simp add: frame_def)
  then have "ram (mm mem_proc) (frame 0x301007 + word_of_nat i * 4) = 0"
    by (auto simp: mem_proc_def pmem0_def word_unat_eq_iff)
  then show ?thesis
    using t by (simp add: load_def)
qed

lemma kstate_proc_ok: "sched_inv kstate_proc" "pids_ok kstate_proc"
  using kstate0_pids by (simp_all add: sched_inv_def queue_inv_def kstate_proc_def kstate0_def pcb0_def NULL_def pids_ok_def)

theorem wait_exit_handshake_witness:
  "\<exists>m1 m3 s1 s2. sys_exit 0x5000 0x1000 0xffffff2a mem_proc kstate_proc = Inr (m1, s1) \<and> running_thread s1 = 0x3000 \<and>
    sys_wait 5 m1 s1 = Inr (WDone 5 (Some 0x2a) m3 s2) \<and> 0x1000 \<notin> set (thread_all_list s2) \<and> \<not> pid_used s2 5"
proof -
  obtain m1 m2 m3 where m: "mfree_page PF_KERNEL 0x5000 1 mem_proc = Inr m1" "mfree_page PF_KERNEL 0x4000 1 m1 = Inr m2" "mfree_page PF_KERNEL 0x1000 1 m2 = Inr m3"
    using mem_proc_frees by (auto split: sum.splits)
  have r: "release_prog_resource 0x4000 0x5000 0x1000 mem_proc = Inr m1"
    using m(1) release_pd_absent[of 768 "0x4000" 0 mem_proc] mem_proc_load by (simp add: release_prog_resource_def PG_SIZE_def)
  have k: "running_thread kstate_proc = 0x1000" "idle_thread kstate_proc = 0x2000" "main_thread kstate_proc = 0x2000" "pid (pcbs kstate_proc 0x1000) = 5"
    "parent_pid (pcbs kstate_proc 0x1000) = 3" "pg_dir (pcbs kstate_proc 0x1000) = 0x4000" "pid2pcb 5 kstate_proc = 0x1000" "pid2pcb 3 kstate_proc = 0x3000"
    "0x3000 \<in> set (thread_all_list kstate_proc)" "status_of kstate_proc 0x3000 = TASK_WAITING"
    by (simp_all add: kstate_proc_def kstate0_def pcb0_def pid2pcb_def)
  have s: "(scast (ucast (0xffffff2a :: u32) :: u8) :: u32) = 0x2a"
    by simp
  from wait_exit_handshake[of kstate_proc "0x1000" "0x3000" "0x5000" "0x1000" mem_proc m1 m2 m3 "0xffffff2a"] kstate_proc_ok m(2,3) r k s
  show ?thesis
    by (simp add: NULL_def) blast
qed

subsection \<open>A new address space\<close>

lemma copy_entries:
  assumes "kernel_pd m" "unused_frame f m" "frame v = v" "translate m v = Some f" and "unat i + n \<le> 1024"
  shows "\<exists>m'. copy_words n (v + i * 4) (0xfffff000 + i * 4) m = Inr m' \<and> cr3_reg m' = cr3_reg m \<and>
    (\<forall>a. frame a \<noteq> f \<longrightarrow> ram m' a = ram m a) \<and>
    (\<forall>j. unat j < 1024 \<longrightarrow> ram m' (f + j * 4) = (if unat i \<le> unat j \<and> unat j < unat i + n then pd_entry m j else ram m (f + j * 4)))"
  using assms
proof (induction n arbitrary: i m)
  case (Suc n)
  let ?m = "m\<lparr>ram := (ram m)(f + i * 4 := pd_entry m i)\<rparr>"
  have i: "unat i < 1024" and ff: "frame f = f"
    using Suc.prems by (auto simp: unused_frame_def)
  have l: "load (0xfffff000 + i * 4) m = Inr (pd_entry m i)"
    using translate_word[OF _ i translate_pd] Suc.prems(1) by (simp add: load_def pd_entry_def frame_def)
  have s: "store (v + i * 4) (pd_entry m i) m = Inr ?m"
    using translate_word[OF Suc.prems(3) i Suc.prems(4)] by (simp add: store_def)
  have fr: "frame (f + i * 4) = f"
    using entry_addr(2)[OF i, of f] ff by simp
  have d: "cr3_reg ?m = cr3_reg m" "\<forall>a. frame a \<noteq> f \<longrightarrow> ram ?m a = ram m a"
    using fr by auto
  note k = kernel_differ_in_unused[OF Suc.prems(1,2) d]
  have inj: "f + j * 4 = f + i * 4 \<longleftrightarrow> j = i" if "unat j < 1024" for j
    using entry_inj(2)[of f j f i] that i ff by auto
  have ui: "unat (i + 1) = Suc (unat i)"
    using i by (subst unat_add_lt) simp_all
  have "translate ?m v = Some f" "unat (i + 1) + n \<le> 1024"
    using k(4)[of v] Suc.prems(4,5) ui by simp_all
  from Suc.IH[OF k(2,3) Suc.prems(3) this] obtain m' where m': "copy_words n (v + (i + 1) * 4) (0xfffff000 + (i + 1) * 4) ?m = Inr m'"
    "cr3_reg m' = cr3_reg m" "\<forall>a. frame a \<noteq> f \<longrightarrow> ram m' a = ram ?m a"
    "\<forall>j. unat j < 1024 \<longrightarrow> ram m' (f + j * 4) = (if Suc (unat i) \<le> unat j \<and> unat j < Suc (unat i) + n then pd_entry ?m j else ram ?m (f + j * 4))"
    using ui by auto
  have a: "v + i * 4 + 4 = v + (i + 1) * 4" "0xfffff000 + i * 4 + 4 = 0xfffff000 + (i + 1) * 4"
    by (simp_all add: algebra_simps)
  have "ram m' (f + j * 4) = (if unat i \<le> unat j \<and> unat j < unat i + Suc n then pd_entry m j else ram m (f + j * 4))" if "unat j < 1024" for j
    using that m'(4) k(1)[OF that] inj[OF that] word_unat_eq_iff[of j i] by (cases "unat i = unat j") simp_all
  moreover have "ram m' a = ram m a" if "frame a \<noteq> f" for a
    using that m'(3) d(2) by metis
  ultimately show ?case
    using l s m'(1,2) a by (intro exI[of _ m']) (simp add: algebra_simps)
qed auto

lemma fill_page_dir_ok:
  assumes m: "kernel_pd m" "unused_frame f m" "frame v = v" "translate m v = Some f"
  shows "\<exists>m'. fill_page_dir v m = Inr m' \<and> cr3_reg m' = cr3_reg m \<and> (\<forall>a. frame a \<noteq> f \<longrightarrow> ram m' a = ram m a) \<and>
    (\<forall>j. unat j < 1024 \<longrightarrow> ram m' (f + j * 4) =
      (if unat j = 1023 then f OR PG_US_U OR PG_RW_W OR PG_P_1 else if unat j < 768 then ram m (f + j * 4) else pd_entry m j))"
proof -
  have ff: "frame f = f"
    using m(2) by (simp add: unused_frame_def)
  obtain m1 where m1: "copy_words 256 (v + 0x300 * 4) (0xfffff000 + 0x300 * 4) m = Inr m1" "cr3_reg m1 = cr3_reg m"
    "\<forall>a. frame a \<noteq> f \<longrightarrow> ram m1 a = ram m a"
    "\<And>j. unat j < 1024 \<Longrightarrow> ram m1 (f + j * 4) = (if 768 \<le> unat j \<and> unat j < 1024 then pd_entry m j else ram m (f + j * 4))"
    using copy_entries[OF m, of "0x300" 256] by auto
  note k = kernel_differ_in_unused[OF m(1,2) m1(2,3)]
  have t: "translate m1 v = Some f"
    using k(4) m(4) by simp
  let ?m = "m1\<lparr>ram := (ram m1)(f + 1023 * 4 := f OR PG_US_U OR PG_RW_W OR PG_P_1)\<rparr>"
  have s: "store (v + 1023 * 4) e m1 = Inr (m1\<lparr>ram := (ram m1)(f + 1023 * 4 := e)\<rparr>)" for e
    using translate_word[OF m(3) _ t, of 1023] by (simp add: store_def)
  have p: "addr_vir2phy v m1 = Inr f"
    using kernel_addr_vir2phy[OF k(2) t] .
  have "fill_page_dir v m = Inr ?m"
    unfolding fill_page_dir_def m1(1) andthen_simps p s by simp
  moreover have fr: "frame (f + 1023 * 4) = f"
    using entry_addr(2)[of 1023 f] ff by simp
  moreover have "f + j * 4 = f + 1023 * 4 \<longleftrightarrow> unat j = 1023" if "unat j < 1024" for j
    using entry_inj(2)[of f j f 1023] that ff word_unat_eq_iff[of j 1023] by auto
  ultimately show ?thesis
    using m1(2-4) by (intro exI[of _ ?m]) (auto simp del: word_of_nat_less_iff)
qed

lemma new_pd_wf:
  assumes m: "kernel_pd m" "unused_frame f m" and n: "cr3_reg n = f"
    and pd: "\<And>j. unat j < 1024 \<Longrightarrow> pd_entry n j = (if unat j = 1023 then f OR PG_US_U OR PG_RW_W OR PG_P_1 else if unat j < 768 then 0 else pd_entry m j)"
  shows "wf_pd n"
proof -
  let ?e = "f OR PG_US_U OR PG_RW_W OR PG_P_1"
  have ff: "frame f = f"
    using m(2) by (simp add: unused_frame_def)
  have fresh: "frame (pd_entry m i) \<noteq> f" if "unat i < 1024" "present (pd_entry m i)" for i
    using m(2) that unfolding unused_frame_def unat_1024 by auto
  have e: "present ?e" "frame ?e = f"
    using present_entry[of f] ff by simp_all
  have kind: "unat j = 1023 \<and> frame (pd_entry n j) = f \<or> 768 \<le> unat j \<and> pd_entry n j = pd_entry m j \<and> frame (pd_entry n j) \<noteq> f"
    if "unat j < 1024" "present (pd_entry n j)" for j
    using that pd[OF that(1)] e(2) fresh[OF that(1)] by (cases "unat j = 1023"; cases "unat j < 768") (simp_all add: present_def)
  have "i = j" if ij: "unat i < 1024" "unat j < 1024" "present (pd_entry n i)" "present (pd_entry n j)" "frame (pd_entry n i) = frame (pd_entry n j)" for i j
  proof (cases "frame (pd_entry n i) = f")
    case True
    then have "unat i = unat j"
      using kind[OF ij(1,3)] kind[OF ij(2,4)] ij(5) by simp
    then show ?thesis
      by (simp add: word_unat_eq_iff)
  next
    case False
    then have "pd_entry n i = pd_entry m i" "pd_entry n j = pd_entry m j" "768 \<le> i" "768 \<le> j"
      using kind[OF ij(1,3)] kind[OF ij(2,4)] ij(5) by (simp_all add: word_le_nat_alt)
    then show ?thesis
      using m(1) ij unfolding kernel_pd_def unat_1024 by metis
  qed
  then show ?thesis
    using e ff pd[of 1023] n unfolding wf_pd_def unat_1024[symmetric] by simp
qed

text \<open>
  C35. A new address space shares the kernel: from the directory the loader leaves as from that of a process, when the page that \<^verbatim>\<open>create_page_dir\<close> fills is mapped to a frame \<open>f\<close> that holds no table in use
  and whose user entries are empty, the filled directory is well formed, maps itself by its last entry, has no user mapping, and after
  \<^verbatim>\<open>cr3\<close> is loaded with \<open>f\<close> every kernel address (3 GB up to the recursive mapping) is translated as before.
  The translation of the current address space is unchanged.
\<close>

theorem page_dir_shares_kernel:
  assumes m: "kernel_pd m" "unused_frame f m" "frame v = v" "translate m v = Some f" and z: "\<forall>i. unat i < 768 \<longrightarrow> ram m (f + i * 4) = 0"
  shows "\<exists>m'. fill_page_dir v m = Inr m' \<and> (\<forall>w. translate m' w = translate m w) \<and> wf_pd (m'\<lparr>cr3_reg := f\<rparr>) \<and>
    (\<forall>w. unat w < 0xc0000000 \<longrightarrow> translate (m'\<lparr>cr3_reg := f\<rparr>) w = None) \<and>
    (\<forall>w. 0xc0000000 \<le> unat w \<and> unat w < 0xffc00000 \<longrightarrow> translate (m'\<lparr>cr3_reg := f\<rparr>) w = translate m w)"
proof -
  let ?e = "f OR PG_US_U OR PG_RW_W OR PG_P_1"
  have ff: "frame f = f"
    using m(2) by (simp add: unused_frame_def)
  obtain m' where m': "fill_page_dir v m = Inr m'" "cr3_reg m' = cr3_reg m" "\<forall>a. frame a \<noteq> f \<longrightarrow> ram m' a = ram m a"
    and ent: "\<And>j. unat j < 1024 \<Longrightarrow> ram m' (f + j * 4) = (if unat j = 1023 then ?e else if unat j < 768 then ram m (f + j * 4) else pd_entry m j)"
    using fill_page_dir_ok[OF m] by blast
  note k = kernel_differ_in_unused[OF m(1,2) m'(2,3)]
  let ?n = "m'\<lparr>cr3_reg := f\<rparr>"
  have pd: "pd_entry ?n j = (if unat j = 1023 then ?e else if unat j < 768 then 0 else pd_entry m j)" if "unat j < 1024" for j
    using ent[OF that] z ff by (simp add: pd_entry_def)
  have wf: "wf_pd ?n"
    using new_pd_wf[OF m(1,2), of ?n] pd by simp
  have low: "translate ?n w = None" if "unat w < 0xc0000000" for w
  proof -
    have "unat (pdi w) < 768"
      using that by (simp add: unat_pdi)
    then show ?thesis
      using pd[OF pdi_lt, of w] by (simp only: translate_def pde_addr_entry) (simp add: present_def)
  qed
  have high: "translate ?n w = translate m w" if "0xc0000000 \<le> unat w" "unat w < 0xffc00000" for w
  proof -
    have "768 \<le> unat (pdi w)" "unat (pdi w) < 1023"
      using that by (simp_all add: unat_pdi)
    then have "pd_entry ?n (pdi w) = pd_entry m' (pdi w)"
      using pd[OF pdi_lt, of w] k(1)[OF pdi_lt, of w] by simp
    then have "translate ?n w = translate m' w"
      by (simp only: translate_def pte_addr_def pde_addr_entry) simp
    then show ?thesis
      using k(4) by simp
  qed
  show ?thesis
    using m'(1) k(4) wf low high by blast
qed

theorem page_dir_shares_kernel_witness:
  "\<exists>m'. fill_page_dir 0x4000 (mm mem_proc) = Inr m' \<and> wf_pd (m'\<lparr>cr3_reg := 0x301000\<rparr>) \<and> translate (m'\<lparr>cr3_reg := 0x301000\<rparr>) 0x8048000 = None"
proof -
  have z: "ram (mm mem_proc) (0x301000 + i * 4) = 0" if "unat i < 768" for i :: u32
    using entry_addr(1)[of i "0x301007"] that by (auto simp: mem_proc_def pmem0_def word_unat_eq_iff frame_def)
  have d: "pd_entry (mm mem_proc) i = pd_entry pmem0 i" if "i < 1024" for i
    using entry_addr(1)[of i "0x100000"] that unfolding unat_1024[symmetric]
    by (auto simp: mem_proc_def pd_entry_def pmem0_def frame_def word_unat_eq_iff)
  have w: "wf_pd (mm mem_proc)"
    using pmem0_wf d unfolding wf_pd_def by (simp add: mem_proc_def pmem0_def)
  have u: "unused_frame 0x301000 (mm mem_proc)"
    using d by (auto simp: unused_frame_def pmem0_entry frame_def present_def)
  have t: "translate (mm mem_proc) 0x4000 = Some 0x301000"
    by code_simp
  from page_dir_shares_kernel[OF wf_kernel_pd[OF w] u _ t] z show ?thesis
    by (auto simp: frame_def)
qed

end
