(* ===== verification/Disk.thy ===== *)
theory Disk
  imports Prelude
begin

text \<open>
  The FAT12 volume on the second disk (\<^verbatim>\<open>src/filesystem/disk.c\<close>, \<^verbatim>\<open>src/filesystem/common.h\<close>). A disk is a
  sequence of sectors of 512 bytes; sectors 1 to 9 hold the file allocation table, 10 to 18 its copy, 19
  to 32 the root directory, and cluster \<open>c\<close> is sector \<open>c + 31\<close>. \<open>img\<close> is the array into which the first 20
  sectors are read before the table is inspected. Sector and cluster numbers are \<^verbatim>\<open>uint16_t\<close>.
\<close>

definition SecCnt :: u16 where "SecCnt = 2880"
definition BytePerSec :: nat where "BytePerSec = 512"
definition BytePerDirEntry :: nat where "BytePerDirEntry = 32"
definition ClusToSec :: u16 where "ClusToSec = 31"

text \<open>A sector number computed as an \<^verbatim>\<open>int\<close>, passed as a \<^verbatim>\<open>uint16_t\<close>.\<close>

definition sno :: "nat \<Rightarrow> u16" where "sno n = word_of_nat n"

record disk =
  sdb :: "u16 \<Rightarrow> u8 list"
  img :: "u8 list"

subsection \<open>Sectors and little-endian numbers\<close>

definition read_sector :: "u16 \<Rightarrow> disk \<Rightarrow> u8 list res" where
  "read_sector secID d = andthen (assert_c ''secID >= 0 && secID <= SecCnt'' (secID \<le> SecCnt)) (\<lambda>_. Inr (sdb d secID))"

definition write_sector :: "u16 \<Rightarrow> u8 list \<Rightarrow> disk \<Rightarrow> disk res" where
  "write_sector secID buff d =
     andthen (assert_c ''secID >= 0 && secID <= SecCnt'' (secID \<le> SecCnt)) (\<lambda>_. Inr (d\<lparr>sdb := (sdb d)(secID := buff)\<rparr>))"

definition get_u8 :: "u8 list \<Rightarrow> nat \<Rightarrow> u8 res" where
  "get_u8 buff st = rd buff st"

definition get_u16 :: "u8 list \<Rightarrow> nat \<Rightarrow> u16 res" where
  "get_u16 buff st = andthen (rd buff st) (\<lambda>a. andthen (rd buff (st + 1)) (\<lambda>b. Inr (ucast a + push_bit 8 (ucast b))))"

definition get_u32 :: "u8 list \<Rightarrow> nat \<Rightarrow> u32 res" where
  "get_u32 buff st =
     andthen (rd buff st) (\<lambda>a. andthen (rd buff (st + 1)) (\<lambda>b. andthen (rd buff (st + 2)) (\<lambda>c. andthen (rd buff (st + 3)) (\<lambda>e.
     Inr (ucast a + push_bit 8 (ucast b) + push_bit 16 (ucast c) + push_bit 24 (ucast e))))))"

definition write_u8 :: "u8 list \<Rightarrow> nat \<Rightarrow> u8 \<Rightarrow> u8 list res" where
  "write_u8 buff st data = wr buff st data"

definition write_u16 :: "u8 list \<Rightarrow> nat \<Rightarrow> u16 \<Rightarrow> u8 list res" where
  "write_u16 buff st data = andthen (wr buff st (ucast data)) (\<lambda>buff. wr buff (st + 1) (ucast (drop_bit 8 data)))"

definition write_u32 :: "u8 list \<Rightarrow> nat \<Rightarrow> u32 \<Rightarrow> u8 list res" where
  "write_u32 buff st data =
     andthen (wr buff st (ucast data)) (\<lambda>buff. andthen (wr buff (st + 1) (ucast (drop_bit 8 data))) (\<lambda>buff.
     andthen (wr buff (st + 2) (ucast (drop_bit 16 data))) (\<lambda>buff. wr buff (st + 3) (ucast (drop_bit 24 data)))))"

fun update_img_from :: "nat \<Rightarrow> nat \<Rightarrow> disk \<Rightarrow> disk res" where
  "update_img_from 0 i d = Inr d"
| "update_img_from (Suc n) i d =
     andthen (read_sector (sno i) d) (\<lambda>buff.
     update_img_from n (Suc i) (d\<lparr>img := take (i * 512) (img d) @ buff @ drop (i * 512 + 512) (img d)\<rparr>))"

definition update_img :: "disk \<Rightarrow> disk res" where
  "update_img = update_img_from 20 0"

fun disk_close_from :: "nat \<Rightarrow> nat \<Rightarrow> disk \<Rightarrow> disk res" where
  "disk_close_from 0 i d = Inr d"
| "disk_close_from (Suc n) i d =
     andthen (write_sector (sno i) (take 512 (drop (i * 512) (img d))) d) (disk_close_from n (Suc i))"

definition disk_close :: "disk \<Rightarrow> disk res" where
  "disk_close = disk_close_from 20 0"

subsection \<open>The boot sector\<close>

record BootSector =
  BS_OEMName :: "u8 list"
  BPB_BytsPerSec :: u16
  BPB_SecPerClus :: u8
  BPB_ResvdSecCnt :: u16
  BPB_NumFATs :: u8
  BPB_RootEntCnt :: u16
  BPB_TotSec16 :: u16
  BPB_Media :: u8
  BPB_FATSz16 :: u16
  BPB_SecPerTrk :: u16
  BPB_NumHeads :: u16
  BPB_HiddSec :: u32
  BPB_TotSec32 :: u32
  BPB_DrvNum :: u8
  BS_Reserved1 :: u8
  BS_BootSig :: u8
  BS_VolID :: u32
  BS_VolLab :: "u8 list"
  BS_FileSysType :: "u8 list"

text \<open>The result of \<^verbatim>\<open>boot_sector_init\<close> with the record it fills; \<open>None\<close> if it is not touched.\<close>

definition boot_sector_init :: "disk \<Rightarrow> (bool \<times> BootSector option) res" where
  "boot_sector_init d =
     andthen (read_sector 0 d) (\<lambda>buff. andthen (rd buff 510) (\<lambda>x. andthen (rd buff 511) (\<lambda>y.
     if x \<noteq> 0x55 \<or> y \<noteq> 0xAA then Inr (False, None)
     else andthen (get_u16 buff 11) (\<lambda>bps. andthen (get_u8 buff 13) (\<lambda>spc. andthen (get_u16 buff 14) (\<lambda>rsv.
       andthen (get_u8 buff 16) (\<lambda>nf. andthen (get_u16 buff 17) (\<lambda>rec. andthen (get_u16 buff 19) (\<lambda>ts16.
       andthen (get_u8 buff 21) (\<lambda>med. andthen (get_u16 buff 22) (\<lambda>fsz. andthen (get_u16 buff 24) (\<lambda>spt.
       andthen (get_u16 buff 26) (\<lambda>nh. andthen (get_u32 buff 28) (\<lambda>hid. andthen (get_u32 buff 32) (\<lambda>ts32.
       andthen (get_u8 buff 36) (\<lambda>drv. andthen (get_u8 buff 37) (\<lambda>r1. andthen (get_u8 buff 38) (\<lambda>sig.
       andthen (get_u32 buff 39) (\<lambda>vol.
       Inr (ts32 = 0, Some \<lparr>BS_OEMName = take 8 (drop 3 buff), BPB_BytsPerSec = bps, BPB_SecPerClus = spc, BPB_ResvdSecCnt = rsv,
         BPB_NumFATs = nf, BPB_RootEntCnt = rec, BPB_TotSec16 = ts16, BPB_Media = med, BPB_FATSz16 = fsz, BPB_SecPerTrk = spt,
         BPB_NumHeads = nh, BPB_HiddSec = hid, BPB_TotSec32 = ts32, BPB_DrvNum = drv, BS_Reserved1 = r1, BS_BootSig = sig,
         BS_VolID = vol, BS_VolLab = take 11 (drop 43 buff), BS_FileSysType = take 8 (drop 54 buff)\<rparr>))))))))))))))))))))"

subsection \<open>The file allocation table\<close>

definition clear_cluster :: "u16 \<Rightarrow> disk \<Rightarrow> disk res" where
  "clear_cluster clusID = write_sector (clusID + ClusToSec) (replicate 512 0)"

definition write_fat_sector :: "u16 \<Rightarrow> u8 list \<Rightarrow> disk \<Rightarrow> disk res" where
  "write_fat_sector secID buff d = andthen (write_sector secID buff d) (write_sector (secID + 9) buff)"

text \<open>A table entry has 12 bits; an even one and the odd one behind it share the middle one of three bytes.\<close>

definition fat_pos :: "u16 \<Rightarrow> nat" where
  "fat_pos clusID = unat clusID div 2 * 3 + unat clusID mod 2"

definition even_entry :: "u8 \<Rightarrow> u8 \<Rightarrow> u16" where
  "even_entry a b = push_bit 8 (ucast (b AND 0x0F)) + ucast a"

definition odd_entry :: "u8 \<Rightarrow> u8 \<Rightarrow> u16" where
  "odd_entry a b = drop_bit 4 (ucast (a AND 0xF0)) + push_bit 4 (ucast b)"

definition get_fat_next_cluster :: "u16 \<Rightarrow> disk \<Rightarrow> (u16 \<times> disk) res" where
  "get_fat_next_cluster clusID d =
     andthen (update_img d) (\<lambda>d1.
     andthen (rd (img d1) (512 + fat_pos clusID)) (\<lambda>a.
     andthen (rd (img d1) (512 + fat_pos clusID + 1)) (\<lambda>b.
     Inr (if unat clusID mod 2 = 0 then even_entry a b else odd_entry a b, d1))))"

definition first_byte :: "u16 \<Rightarrow> u16 \<Rightarrow> u8 \<Rightarrow> u8" where
  "first_byte clusID data old =
     (if unat clusID mod 2 = 0 then ucast data else (old AND 0x0F) + push_bit 4 (ucast (data AND 0xF)))"

definition second_byte :: "u16 \<Rightarrow> u16 \<Rightarrow> u8 \<Rightarrow> u8" where
  "second_byte clusID data old =
     (if unat clusID mod 2 = 0 then (old AND 0xF0) + (ucast (drop_bit 8 data) AND 0x0F) else ucast (drop_bit 4 data))"

definition write_fat_next_cluster :: "u16 \<Rightarrow> u16 \<Rightarrow> disk \<Rightarrow> disk res" where
  "write_fat_next_cluster clusID data d =
     (let pos = fat_pos clusID; sec = sno (1 + pos div 512); sec2 = sno (1 + (pos + 1) div 512)
      in andthen (read_sector sec d) (\<lambda>buff.
         andthen (rd buff (pos mod 512)) (\<lambda>old.
         let buff1 = buff[pos mod 512 := first_byte clusID data old]
         in andthen (if 1 + pos div 512 \<noteq> 1 + (pos + 1) div 512
                     then andthen (write_fat_sector sec buff1 d) (\<lambda>d1. andthen (read_sector sec2 d1) (\<lambda>buff2. Inr (buff2, d1)))
                     else Inr (buff1, d)) (\<lambda>(buff2, d1).
            andthen (rd buff2 ((pos + 1) mod 512)) (\<lambda>old2.
            write_fat_sector sec2 (buff2[(pos + 1) mod 512 := second_byte clusID data old2]) d1)))))"

text \<open>
  The loop of \<^verbatim>\<open>find_empty_cluster\<close> over the \<open>n\<close> triples of bytes from index \<open>i\<close> of \<^verbatim>\<open>img\<close> on; without an empty entry the
  cluster number stays \<^verbatim>\<open>-1\<close>, that is 0xFFFF.
\<close>

fun empty_cluster_scan :: "nat \<Rightarrow> nat \<Rightarrow> u8 list \<Rightarrow> u16 res" where
  "empty_cluster_scan 0 i xs = Inr (- 1)"
| "empty_cluster_scan (Suc n) i xs =
     andthen (rd xs (i + 1)) (\<lambda>b. andthen (rd xs i) (\<lambda>a.
     if even_entry a b = 0 then Inr (word_of_nat ((i - 512) div 3 * 2))
     else andthen (rd xs (i + 2)) (\<lambda>c.
       if odd_entry b c = 0 then Inr (word_of_nat ((i - 512) div 3 * 2 + 1))
       else empty_cluster_scan n (i + 3) xs)))"

definition find_empty_cluster :: "disk \<Rightarrow> (u16 \<times> disk) res" where
  "find_empty_cluster d =
     andthen (update_img d) (\<lambda>d1.
     andthen (empty_cluster_scan (512 * 9 div 3) 512 (img d1)) (\<lambda>clusID.
     andthen (clear_cluster clusID d1) (\<lambda>d2. Inr (clusID, d2))))"

text \<open>
  \<^verbatim>\<open>newClus == -1\<close> compares a \<^verbatim>\<open>uint16_t\<close>, promoted to \<^verbatim>\<open>int\<close>, with \<^verbatim>\<open>-1\<close>: it is never true.
\<close>

definition append_a_cluster :: "u16 \<Rightarrow> disk \<Rightarrow> (u16 \<times> disk) res" where
  "append_a_cluster clusID d =
     andthen (find_empty_cluster d) (\<lambda>(newClus, d1).
     if uint newClus = - 1 then Inr (- 1, d1)
     else andthen (write_fat_next_cluster clusID newClus d1) (\<lambda>d2.
       andthen (write_fat_next_cluster newClus 0xFFF d2) (\<lambda>d3. Inr (newClus, d3))))"

subsection \<open>The table as a whole\<close>

definition wf_disk :: "disk \<Rightarrow> bool" where
  "wf_disk d \<longleftrightarrow> (\<forall>s \<le> SecCnt. length (sdb d s) = 512) \<and> length (img d) = 20 * 512"

text \<open>The bytes of the first table and the entry of a cluster.\<close>

definition fatb :: "disk \<Rightarrow> nat \<Rightarrow> u8" where
  "fatb d p = sdb d (sno (1 + p div 512)) ! (p mod 512)"

definition entry_of :: "(nat \<Rightarrow> u8) \<Rightarrow> nat \<Rightarrow> u16" where
  "entry_of f c = (if c mod 2 = 0 then even_entry (f (c div 2 * 3)) (f (c div 2 * 3 + 1))
     else odd_entry (f (c div 2 * 3 + 1)) (f (c div 2 * 3 + 2)))"

definition fat_entry :: "disk \<Rightarrow> nat \<Rightarrow> u16" where
  "fat_entry d = entry_of (fatb d)"

text \<open>Number of entries the nine sectors hold.\<close>

definition fat_len :: nat where "fat_len = 3072"

lemma SecCnt_small: "n \<le> 2880 \<Longrightarrow> sno n \<le> SecCnt"
  by (simp add: sno_def SecCnt_def word_le_nat_alt unat_of_nat_lt)

lemma wf_sector: "wf_disk d \<Longrightarrow> n \<le> 2880 \<Longrightarrow> length (sdb d (sno n)) = 512"
  using SecCnt_small[of n] by (simp add: wf_disk_def)

lemma read_sector_ok: "n \<le> 2880 \<Longrightarrow> read_sector (sno n) d = Inr (sdb d (sno n))"
  using SecCnt_small[of n] by (simp add: read_sector_def)

lemma write_sector_ok: "n \<le> 2880 \<Longrightarrow> write_sector (sno n) b d = Inr (d\<lparr>sdb := (sdb d)(sno n := b)\<rparr>)"
  using SecCnt_small[of n] by (simp add: write_sector_def)

lemma concat_nth_blocks:
  assumes "\<And>x. x \<in> set xs \<Longrightarrow> length (f x) = n" "k < length xs" "j < n"
  shows "concat (map f xs) ! (k * n + j) = f (xs ! k) ! j"
  using assms
proof (induction xs arbitrary: k)
  case (Cons x xs)
  then show ?case
    by (cases k) (simp_all add: nth_append add.assoc)
qed simp

lemma length_concat_blocks: "(\<And>x. x \<in> set xs \<Longrightarrow> length (f x) = n) \<Longrightarrow> length (concat (map f xs)) = length xs * n"
  by (induction xs) simp_all

lemma update_img_from_ok:
  assumes "wf_disk d" "i + n \<le> 20"
  shows "update_img_from n i d = Inr (d\<lparr>img := take (i * 512) (img d) @ concat (map (\<lambda>k. sdb d (sno k)) [i..<i + n]) @ drop ((i + n) * 512) (img d)\<rparr>)"
  using assms
proof (induction n arbitrary: i d)
  case (Suc n)
  let ?d = "d\<lparr>img := take (i * 512) (img d) @ sdb d (sno i) @ drop (i * 512 + 512) (img d)\<rparr>"
  have len: "length (sdb d (sno i)) = 512" "length (img d) = 10240"
    using wf_sector[OF Suc.prems(1), of i] Suc.prems by (simp_all add: wf_disk_def)
  have "wf_disk ?d"
    using Suc.prems len by (simp add: wf_disk_def)
  then have "update_img_from n (Suc i) ?d = Inr (?d\<lparr>img := take (Suc i * 512) (img ?d) @ concat (map (\<lambda>k. sdb ?d (sno k)) [Suc i..<Suc i + n]) @
      drop ((Suc i + n) * 512) (img ?d)\<rparr>)"
    using Suc.IH[of ?d "Suc i"] Suc.prems by simp
  moreover have "take (Suc i * 512) (img ?d) = take (i * 512) (img d) @ sdb d (sno i)"
    using len Suc.prems by (simp add: min_def)
  moreover have "drop ((Suc i + n) * 512) (img ?d) = drop ((i + Suc n) * 512) (img d)"
    using len Suc.prems by (simp add: min_def algebra_simps)
  moreover have "[i..<i + Suc n] = i # [Suc i..<Suc i + n]"
    by (simp add: upt_conv_Cons eval_nat_numeral)
  ultimately show ?case
    using Suc.prems by (simp add: read_sector_ok)
qed simp

definition fresh_img :: "disk \<Rightarrow> u8 list" where
  "fresh_img d = concat (map (\<lambda>k. sdb d (sno k)) [0..<20])"

lemma update_img_ok: "wf_disk d \<Longrightarrow> update_img d = Inr (d\<lparr>img := fresh_img d\<rparr>)"
  using update_img_from_ok[of d 0 20] by (simp add: update_img_def fresh_img_def wf_disk_def)

lemma fresh_img_props:
  assumes "wf_disk d"
  shows "length (fresh_img d) = 10240" "wf_disk (d\<lparr>img := fresh_img d\<rparr>)"
    "p < 4608 \<Longrightarrow> fresh_img d ! (512 + p) = fatb d p"
proof -
  have len: "\<And>k. k \<in> set [0..<20] \<Longrightarrow> length (sdb d (sno k)) = 512"
    using wf_sector[OF assms] by simp
  show l: "length (fresh_img d) = 10240"
    unfolding fresh_img_def using length_concat_blocks[of "[0..<20]" "\<lambda>k. sdb d (sno k)" 512] len by simp
  show "wf_disk (d\<lparr>img := fresh_img d\<rparr>)"
    using assms l by (simp add: wf_disk_def)
  assume p: "p < 4608"
  then have k: "1 + p div 512 < length [0..<20]"
    by simp
  have "512 + p = (1 + p div 512) * 512 + p mod 512"
    by (simp add: algebra_simps)
  then show "fresh_img d ! (512 + p) = fatb d p"
    using concat_nth_blocks[of "[0..<20]" "\<lambda>k. sdb d (sno k)" 512 "1 + p div 512" "p mod 512"] len k by (simp add: fresh_img_def fatb_def add.commute)
qed

lemma fat_pos_bound: "unat c < fat_len \<Longrightarrow> fat_pos c + 1 < 4608"
  by (simp add: fat_pos_def fat_len_def) arith

lemma get_fat_next_cluster_ok:
  assumes "wf_disk d" "unat c < fat_len"
  shows "get_fat_next_cluster c d = Inr (fat_entry d (unat c), d\<lparr>img := fresh_img d\<rparr>)"
proof -
  have p: "fat_pos c + 1 < 4608"
    using fat_pos_bound[OF assms(2)] .
  note f = fresh_img_props[OF assms(1)]
  have "fresh_img d ! (512 + fat_pos c) = fatb d (fat_pos c)" "fresh_img d ! (512 + (fat_pos c + 1)) = fatb d (fat_pos c + 1)"
    using f(3)[of "fat_pos c"] f(3)[of "fat_pos c + 1"] p by (simp_all only:)
  then show ?thesis
    using f(1) p update_img_ok[OF assms(1)]
    by (simp add: get_fat_next_cluster_def fat_entry_def entry_of_def fat_pos_def add.assoc)
qed

text \<open>Both copies of the table agree.\<close>

definition mirrored :: "disk \<Rightarrow> bool" where
  "mirrored d \<longleftrightarrow> (\<forall>k. 1 \<le> k \<and> k \<le> 9 \<longrightarrow> sdb d (sno (k + 9)) = sdb d (sno k))"

lemma unat_sno: "a \<le> 2880 \<Longrightarrow> unat (sno a) = a"
  unfolding sno_def by (rule unat_of_nat_lt) simp

lemma sno_inj: "a \<le> 2880 \<Longrightarrow> b \<le> 2880 \<Longrightarrow> sno a = sno b \<longleftrightarrow> a = b"
  using unat_sno by metis

lemma sno_add: "sno (a + b) = sno a + sno b"
  by (simp add: sno_def)

text \<open>Writing one byte of the table and of its copy.\<close>

definition set_fatb :: "nat \<Rightarrow> u8 \<Rightarrow> disk \<Rightarrow> disk" where
  "set_fatb p v d = (let b = (sdb d (sno (1 + p div 512)))[p mod 512 := v]
     in d\<lparr>sdb := (sdb d)(sno (1 + p div 512) := b, sno (10 + p div 512) := b)\<rparr>)"

lemma set_fatb_spec:
  assumes d: "wf_disk d" and p: "p < 4608"
  shows "wf_disk (set_fatb p v d)" "q < 4608 \<Longrightarrow> fatb (set_fatb p v d) q = (if q = p then v else fatb d q)"
    "mirrored d \<Longrightarrow> mirrored (set_fatb p v d)" "\<And>s. 18 < s \<Longrightarrow> sdb (set_fatb p v d) s = sdb d s" "sdb (set_fatb p v d) 0 = sdb d 0" "img (set_fatb p v d) = img d"
proof -
  have k: "1 + p div 512 \<le> 9" "10 + p div 512 \<le> 18"
    using p by simp_all
  have len: "length (sdb d (sno (1 + p div 512))) = 512"
    using wf_sector[OF d] k by simp
  show "wf_disk (set_fatb p v d)"
    using d len k by (auto simp: wf_disk_def set_fatb_def Let_def)
  have inj: "sno (1 + q div 512) = sno (1 + p div 512) \<longleftrightarrow> q div 512 = p div 512"
    "sno (1 + q div 512) \<noteq> sno (10 + p div 512)" if "q < 4608" for q
    using sno_inj[of "1 + q div 512" "1 + p div 512"] sno_inj[of "1 + q div 512" "10 + p div 512"] that k by auto
  show "fatb (set_fatb p v d) q = (if q = p then v else fatb d q)" if q: "q < 4608"
  proof (cases "q div 512 = p div 512")
    case True
    then have "p mod 512 = q mod 512 \<longleftrightarrow> q = p"
      by (metis div_mult_mod_eq)
    then show ?thesis
      using True inj[OF q] len by (simp add: fatb_def set_fatb_def Let_def nth_list_update)
  next
    case False
    then show ?thesis
      using inj[OF q] by (auto simp: fatb_def set_fatb_def Let_def)
  qed
  show "mirrored (set_fatb p v d)" if m: "mirrored d"
    unfolding mirrored_def
  proof (intro allI impI)
    fix j :: nat assume j: "1 \<le> j \<and> j \<le> 9"
    have "sno j = sno (1 + p div 512) \<longleftrightarrow> j = 1 + p div 512" "sno j \<noteq> sno (10 + p div 512)"
      "sno (j + 9) = sno (10 + p div 512) \<longleftrightarrow> j + 9 = 10 + p div 512" "sno (j + 9) \<noteq> sno (1 + p div 512)"
      using sno_inj[of j "1 + p div 512"] sno_inj[of j "10 + p div 512"] sno_inj[of "j + 9" "10 + p div 512"]
        sno_inj[of "j + 9" "1 + p div 512"] j k by auto
    then show "sdb (set_fatb p v d) (sno (j + 9)) = sdb (set_fatb p v d) (sno j)"
      using m j unfolding mirrored_def set_fatb_def Let_def by auto
  qed
  show "sdb (set_fatb p v d) s = sdb d s" if "18 < s" for s
  proof -
    have "s \<noteq> sno (1 + p div 512)" "s \<noteq> sno (10 + p div 512)"
      using that k by (auto simp: word_less_nat_alt unat_sno)
    then show ?thesis
      by (simp add: set_fatb_def Let_def)
  qed
  show "sdb (set_fatb p v d) 0 = sdb d 0"
    using sno_inj[of 0 "1 + p div 512"] sno_inj[of 0 "10 + p div 512"] k by (auto simp: set_fatb_def Let_def sno_def[of 0])
  show "img (set_fatb p v d) = img d"
    by (simp add: set_fatb_def Let_def)
qed

lemma write_fat_sector_ok:
  assumes "k \<le> 9"
  shows "write_fat_sector (sno k) b d = Inr (d\<lparr>sdb := (sdb d)(sno k := b, sno (k + 9) := b)\<rparr>)"
proof -
  have "write_sector (sno (k + 9)) b (d\<lparr>sdb := (sdb d)(sno k := b)\<rparr>) = Inr (d\<lparr>sdb := (sdb d)(sno k := b, sno (k + 9) := b)\<rparr>)"
    using assms by (subst write_sector_ok) simp_all
  moreover have "sno k + 9 = sno (k + 9)"
    by (simp add: sno_def)
  ultimately show ?thesis
    using assms by (simp add: write_fat_sector_def write_sector_ok)
qed

lemma set_fatb_twice_sector:
  assumes "wf_disk d" "p < 4608" "Suc p div 512 = p div 512"
  shows "set_fatb (Suc p) w (set_fatb p v d) =
    d\<lparr>sdb := (sdb d)(sno (1 + p div 512) := (sdb d (sno (1 + p div 512)))[p mod 512 := v, Suc p mod 512 := w],
      sno (10 + p div 512) := (sdb d (sno (1 + p div 512)))[p mod 512 := v, Suc p mod 512 := w])\<rparr>"
proof -
  have "sno (1 + p div 512) \<noteq> sno (10 + p div 512)"
    using sno_inj[of "1 + p div 512" "10 + p div 512"] assms(2) by auto
  then show ?thesis
    by (simp add: set_fatb_def Let_def assms(3) fun_upd_def fun_eq_iff)
qed

lemma write_fat_next_cluster_ok:
  assumes d: "wf_disk d" and c: "unat c < fat_len"
  shows "write_fat_next_cluster c data d = Inr (let p = fat_pos c
    in set_fatb (p + 1) (second_byte c data (fatb d (p + 1))) (set_fatb p (first_byte c data (fatb d p)) d))"
proof -
  let ?p = "fat_pos c"
  let ?b = "sdb d (sno (1 + ?p div 512))" and ?v = "first_byte c data (fatb d ?p)"
  have p: "?p + 1 < 4608" "1 + ?p div 512 \<le> 9" "1 + (?p + 1) div 512 \<le> 9"
    using fat_pos_bound[OF c] by simp_all
  have rd1: "rd ?b (?p mod 512) = Inr (fatb d ?p)"
    using wf_sector[OF d, of "1 + ?p div 512"] p by (simp add: fatb_def)
  show ?thesis
  proof (cases "(?p + 1) div 512 = ?p div 512")
    case True
    then have ne: "(?p + 1) mod 512 \<noteq> ?p mod 512" "Suc ?p div 512 = ?p div 512"
      using div_mult_mod_eq[of "?p + 1" 512] div_mult_mod_eq[of ?p 512] by auto
    have "rd (?b[?p mod 512 := ?v]) ((?p + 1) mod 512) = Inr (fatb d (?p + 1))"
      using wf_sector[OF d, of "1 + ?p div 512"] p ne(1) True by (simp add: fatb_def)
    then show ?thesis
      using rd1 True p ne(2) set_fatb_twice_sector[OF d, of ?p] write_fat_sector_ok[OF p(2)]
      by (simp add: write_fat_next_cluster_def Let_def read_sector_ok fatb_def)
  next
    case False
    let ?d1 = "set_fatb ?p ?v d"
    have w1: "write_fat_sector (sno (1 + ?p div 512)) (?b[?p mod 512 := ?v]) d = Inr ?d1"
      using write_fat_sector_ok[OF p(2)] by (simp add: set_fatb_def Let_def)
    have "sdb ?d1 (sno (1 + (?p + 1) div 512)) = sdb d (sno (1 + (?p + 1) div 512))"
      using sno_inj[of "1 + (?p + 1) div 512" "1 + ?p div 512"] sno_inj[of "1 + (?p + 1) div 512" "10 + ?p div 512"] p False
      by (auto simp: set_fatb_def Let_def)
    moreover have "rd (sdb d (sno (1 + (?p + 1) div 512))) ((?p + 1) mod 512) = Inr (fatb d (?p + 1))"
      using wf_sector[OF d, of "1 + (?p + 1) div 512"] p by (simp add: fatb_def)
    ultimately show ?thesis
      using rd1 w1 False p write_fat_sector_ok[OF p(3)]
      by (simp add: write_fat_next_cluster_def Let_def read_sector_ok set_fatb_def[of "Suc _"])
  qed
qed

subsection \<open>Entries\<close>

lemma nibble_masks: "bit (0x0F :: u8) n \<longleftrightarrow> n < 4" "bit (0xF0 :: u8) n \<longleftrightarrow> 4 \<le> n \<and> n < 8"
  "bit (0xF :: u16) n \<longleftrightarrow> n < 4"
proof -
  have e: "(0x0F :: u8) = mask 4" "(0xF0 :: u8) = push_bit 4 (mask 4)" "(0xF :: u16) = mask 4"
    by (simp_all add: mask_eq_exp_minus_1 push_bit_eq_mult)
  show "bit (0x0F :: u8) n \<longleftrightarrow> n < 4"
    unfolding e(1) by (auto simp: bit_simps)
  show "bit (0xF0 :: u8) n \<longleftrightarrow> 4 \<le> n \<and> n < 8"
    unfolding e(2) by (auto simp: bit_simps)
  show "bit (0xF :: u16) n \<longleftrightarrow> n < 4"
    unfolding e(3) by (auto simp: bit_simps)
qed

lemmas nibble_simps = bit_simps nibble_masks

lemma nibbles_or:
  "(x AND 0xF0) + (y AND 0x0F :: u8) = (x AND 0xF0) OR (y AND 0x0F)"
  "(x AND 0x0F) + push_bit 4 y = (x AND 0x0F :: u8) OR push_bit 4 y"
  "push_bit 8 (ucast (x AND 0x0F)) + ucast y = (push_bit 8 (ucast (x AND 0x0F)) OR ucast (y :: u8) :: u16)"
  "drop_bit 4 (ucast (x AND 0xF0)) + push_bit 4 (ucast y) = (drop_bit 4 (ucast (x AND 0xF0)) OR push_bit 4 (ucast (y :: u8)) :: u16)"
  by (rule disjunctive_add; auto simp: nibble_simps simp del: bit_numeral_word_iff dest: bit_imp_le_length)+

lemma even_entry_bit: "bit (even_entry a b) n \<longleftrightarrow> (n < 8 \<and> bit a n) \<or> (8 \<le> n \<and> n < 12 \<and> bit b (n - 8))"
  unfolding even_entry_def nibbles_or by (auto simp: nibble_simps simp del: bit_numeral_word_iff dest: bit_imp_le_length)

lemma odd_entry_bit: "bit (odd_entry a b) n \<longleftrightarrow> (n < 4 \<and> bit a (n + 4)) \<or> (4 \<le> n \<and> n < 12 \<and> bit b (n - 4))"
  unfolding odd_entry_def nibbles_or by (auto simp: nibble_simps add.commute simp del: bit_numeral_word_iff dest: bit_imp_le_length)

lemma first_byte_bit:
  "bit (first_byte c data old) n \<longleftrightarrow>
     (if unat c mod 2 = 0 then n < 8 \<and> bit data n else (n < 4 \<and> bit old n) \<or> (4 \<le> n \<and> n < 8 \<and> bit data (n - 4)))"
  unfolding first_byte_def nibbles_or by (auto simp: nibble_simps simp del: bit_numeral_word_iff)

lemma second_byte_bit:
  "bit (second_byte c data old) n \<longleftrightarrow>
     (if unat c mod 2 = 0 then (4 \<le> n \<and> n < 8 \<and> bit old n) \<or> (n < 4 \<and> bit data (n + 8)) else n < 8 \<and> bit data (n + 4))"
  unfolding second_byte_def nibbles_or by (auto simp: nibble_simps add.commute simp del: bit_numeral_word_iff)

lemma entry_of_write:
  assumes data: "data < 0x1000"
  shows "entry_of (f(fat_pos c := first_byte c data (f (fat_pos c)), fat_pos c + 1 := second_byte c data (f (fat_pos c + 1)))) k =
    (if k = unat c then data else entry_of f k)" (is "entry_of ?f k = _")
proof -
  have d12: "\<not> bit data n" if "12 \<le> n" for n
  proof -
    have "unat data < 2 ^ 12"
      using data by (simp add: word_less_nat_alt)
    then have "take_bit 12 data = data"
      by (simp add: word_unat_eq_iff unsigned_take_bit_eq take_bit_nat_eq_self)
    then show ?thesis
      using that by (metis bit_take_bit_iff not_le)
  qed
  have low: "bit data n \<longrightarrow> n < 12" for n
    using d12 not_le by blast
  show ?thesis
  proof (cases "k div 2 = unat c div 2")
    case True
    have same: "k = unat c \<longleftrightarrow> (k mod 2 = 0 \<longleftrightarrow> unat c mod 2 = 0)"
      using True by (metis div_mult_mod_eq not_mod_2_eq_0_eq_1)
    show ?thesis
    proof (rule bit_word_eqI)
      fix n :: nat
      show "bit (entry_of ?f k) n = bit (if k = unat c then data else entry_of f k) n"
        unfolding same using True low[of n]
        by (cases "k mod 2 = 0"; cases "unat c mod 2 = 0")
          (auto simp: entry_of_def fat_pos_def even_entry_bit odd_entry_bit first_byte_bit second_byte_bit not_mod_2_eq_0_eq_1)
    qed
  next
    case False
    have off: "q * 3 + r \<noteq> q' * 3 + j" if "q \<noteq> q'" "r \<le> 2" "j \<le> 2" for q q' r j :: nat
      using that by arith
    have "fat_pos c \<noteq> k div 2 * 3 + j" "fat_pos c + 1 \<noteq> k div 2 * 3 + j" if "j \<le> 2" for j
      using off[of "unat c div 2" "k div 2" "unat c mod 2" j] off[of "unat c div 2" "k div 2" "unat c mod 2 + 1" j] False that
      by (auto simp: fat_pos_def add.assoc)
    from this[of 0] this[of 1] this[of 2]
    have "fat_pos c \<notin> {k div 2 * 3, k div 2 * 3 + 1, k div 2 * 3 + 2}" "fat_pos c + 1 \<notin> {k div 2 * 3, k div 2 * 3 + 1, k div 2 * 3 + 2}"
      by auto
    then show ?thesis
      using False by (auto simp: entry_of_def)
  qed
qed

lemma write_fat_spec:
  assumes d: "wf_disk d" and c: "unat c < fat_len" and data: "data < 0x1000"
  shows "\<exists>d'. write_fat_next_cluster c data d = Inr d' \<and> wf_disk d' \<and> (mirrored d \<longrightarrow> mirrored d') \<and>
    (\<forall>k < fat_len. fat_entry d' k = (if k = unat c then data else fat_entry d k)) \<and>
    (\<forall>s. 18 < s \<or> s = 0 \<longrightarrow> sdb d' s = sdb d s) \<and> img d' = img d"
proof -
  let ?p = "fat_pos c"
  let ?d1 = "set_fatb ?p (first_byte c data (fatb d ?p)) d"
  let ?d2 = "set_fatb (?p + 1) (second_byte c data (fatb d (?p + 1))) ?d1"
  have p: "?p < 4608" "?p + 1 < 4608"
    using fat_pos_bound[OF c] by simp_all
  note s1 = set_fatb_spec[OF d p(1), where v = "first_byte c data (fatb d ?p)"]
  note s2 = set_fatb_spec[OF s1(1) p(2), where v = "second_byte c data (fatb d (?p + 1))"]
  let ?f = "(fatb d)(?p := first_byte c data (fatb d ?p), ?p + 1 := second_byte c data (fatb d (?p + 1)))"
  have "fatb ?d2 q = ?f q" if "q < 4608" for q
    using s1(2)[OF that] s2(2)[OF that] by simp
  moreover have "entry_of g k = entry_of g' k" if "k < fat_len" "\<And>q. q < 4608 \<Longrightarrow> g q = g' q" for g g' k
  proof -
    have "k div 2 * 3 + 2 < 4608"
      using that(1) by (simp add: fat_len_def) arith
    then show ?thesis
      using that(2) by (simp add: entry_of_def)
  qed
  ultimately have "fat_entry ?d2 k = entry_of ?f k" if "k < fat_len" for k
    using that unfolding fat_entry_def by blast
  then have "\<forall>k < fat_len. fat_entry ?d2 k = (if k = unat c then data else fat_entry d k)"
    by (simp only: entry_of_write[OF data] fat_entry_def) simp
  then show ?thesis
    using write_fat_next_cluster_ok[OF d c, of data] s1 s2 by (intro exI[of _ ?d2]) (auto simp: Let_def)
qed

text \<open>
  C19. The allocation table reads back what is written: on a well-formed volume, for a cluster of the table and a
  12-bit value, \<^verbatim>\<open>write_fat_next_cluster\<close> succeeds, \<^verbatim>\<open>get_fat_next_cluster\<close> then returns the value for that cluster
  and the old one for every other (also for the neighbour that shares a byte, and for an entry that crosses a
  sector boundary), the copy of the table is kept equal, and no sector outside of the two tables changes.
\<close>

theorem fat_write_read:
  assumes "wf_disk d" "unat c < fat_len" "data < 0x1000" "unat c' < fat_len"
  shows "\<exists>d' d''. write_fat_next_cluster c data d = Inr d' \<and> wf_disk d' \<and> (mirrored d \<longrightarrow> mirrored d') \<and>
    get_fat_next_cluster c' d' = Inr (if c' = c then data else fat_entry d (unat c'), d'') \<and>
    get_fat_next_cluster c' d = Inr (fat_entry d (unat c'), d\<lparr>img := fresh_img d\<rparr>) \<and>
    (\<forall>s. 18 < s \<or> s = 0 \<longrightarrow> sdb d' s = sdb d s)"
proof -
  obtain d' where d': "write_fat_next_cluster c data d = Inr d'" "wf_disk d'" "mirrored d \<longrightarrow> mirrored d'"
    "\<forall>k < fat_len. fat_entry d' k = (if k = unat c then data else fat_entry d k)" "\<forall>s. 18 < s \<or> s = 0 \<longrightarrow> sdb d' s = sdb d s"
    using write_fat_spec[OF assms(1-3)] by blast
  have "fat_entry d' (unat c') = (if c' = c then data else fat_entry d (unat c'))"
    using d'(4) assms(4) by (auto simp: word_unat_eq_iff)
  then show ?thesis
    using d' get_fat_next_cluster_ok[OF d'(2) assms(4)] get_fat_next_cluster_ok[OF assms(1,4)] by auto
qed

definition disk0 :: disk where
  "disk0 = \<lparr>sdb = (\<lambda>_. replicate 512 0), img = replicate (20 * 512) 0\<rparr>"

lemma disk0_wf: "wf_disk disk0"
  by (simp add: wf_disk_def disk0_def)

theorem fat_write_read_witness:
  "\<exists>d' d''. write_fat_next_cluster 341 0xABC disk0 = Inr d' \<and> get_fat_next_cluster 341 d' = Inr (0xABC, d'')"
  using fat_write_read[OF disk0_wf, of 341 "0xABC" 341] by (auto simp: fat_len_def word_less_nat_alt)

subsection \<open>Free clusters and chains\<close>

definition first_free :: "disk \<Rightarrow> nat option" where
  "first_free d = find (\<lambda>c. fat_entry d c = 0) [0..<fat_len]"

lemma fresh_img_triple:
  assumes "wf_disk d" "k < 1536"
  shows "even_entry (fresh_img d ! (512 + 3 * k)) (fresh_img d ! (512 + 3 * k + 1)) = fat_entry d (2 * k)"
    "odd_entry (fresh_img d ! (512 + 3 * k + 1)) (fresh_img d ! (512 + 3 * k + 2)) = fat_entry d (2 * k + 1)"
proof -
  have odd: "Suc (k * 2) mod 2 = Suc 0"
    by presburger
  show "even_entry (fresh_img d ! (512 + 3 * k)) (fresh_img d ! (512 + 3 * k + 1)) = fat_entry d (2 * k)"
    "odd_entry (fresh_img d ! (512 + 3 * k + 1)) (fresh_img d ! (512 + 3 * k + 2)) = fat_entry d (2 * k + 1)"
  using fresh_img_props(3)[OF assms(1), of "3 * k"] fresh_img_props(3)[OF assms(1), of "3 * k + 1"] fresh_img_props(3)[OF assms(1), of "3 * k + 2"] assms(2) odd
  by (simp_all add: fat_entry_def entry_of_def mult.commute)
qed

lemma empty_cluster_scan_find:
  assumes d: "wf_disk d"
  shows "n + k = 1536 \<Longrightarrow> empty_cluster_scan n (512 + 3 * k) (fresh_img d) =
    Inr (case find (\<lambda>c. fat_entry d c = 0) [2 * k..<fat_len] of None \<Rightarrow> - 1 | Some c \<Rightarrow> word_of_nat c)"
proof (induction n arbitrary: k)
  case 0
  then show ?case by (simp add: fat_len_def)
next
  case (Suc n)
  then have k: "k < 1536" by simp
  have "[2 * k..<fat_len] = 2 * k # (2 * k + 1) # [2 * Suc k..<fat_len]"
    using k by (simp add: upt_conv_Cons fat_len_def)
  moreover have "(512 + 3 * k - 512) div 3 * 2 = 2 * k" "512 + 3 * k + 3 = 512 + 3 * Suc k"
    by simp_all
  moreover have "rd (fresh_img d) (512 + 3 * k) = Inr (fresh_img d ! (512 + 3 * k))"
    "rd (fresh_img d) (512 + 3 * k + 1) = Inr (fresh_img d ! (512 + 3 * k + 1))"
    "rd (fresh_img d) (512 + 3 * k + 2) = Inr (fresh_img d ! (512 + 3 * k + 2))"
    using fresh_img_props(1)[OF d] k by simp_all
  ultimately show ?case
    using Suc.IH[of "Suc k"] Suc.prems fresh_img_triple[OF d k]
    by (simp only: empty_cluster_scan.simps andthen_simps) simp
qed

lemma find_empty_cluster_scan:
  assumes d: "wf_disk d"
  shows "find_empty_cluster d = andthen (clear_cluster (case first_free d of None \<Rightarrow> - 1 | Some c \<Rightarrow> word_of_nat c) (d\<lparr>img := fresh_img d\<rparr>))
    (\<lambda>d2. Inr (case first_free d of None \<Rightarrow> - 1 | Some c \<Rightarrow> word_of_nat c, d2))"
  using empty_cluster_scan_find[OF d, of 1536 0] update_img_ok[OF d] by (simp add: find_empty_cluster_def first_free_def)

lemma first_free_Some: "first_free d = Some c \<Longrightarrow> c < fat_len \<and> fat_entry d c = 0"
  unfolding first_free_def by (auto simp: find_Some_iff)

lemma cleared_sector:
  assumes "c \<le> 2849"
  shows "clear_cluster (word_of_nat c) d = Inr (d\<lparr>sdb := (sdb d)(sno (c + 31) := replicate 512 0)\<rparr>)"
proof -
  have "word_of_nat c + ClusToSec = sno (c + 31)"
    by (simp add: sno_def ClusToSec_def)
  then show ?thesis
    using write_sector_ok[of "c + 31"] assms by (simp add: clear_cluster_def)
qed

lemma find_empty_cluster_ok:
  assumes d: "wf_disk d" and c: "first_free d = Some c" "c \<le> 2849"
  shows "find_empty_cluster d = Inr (word_of_nat c, d\<lparr>img := fresh_img d, sdb := (sdb d)(sno (c + 31) := replicate 512 0)\<rparr>)"
  using find_empty_cluster_scan[OF d] cleared_sector[OF c(2), of "d\<lparr>img := fresh_img d\<rparr>"] c(1) by simp

lemma fat_entry_cong: "(\<And>k. 1 \<le> k \<Longrightarrow> k \<le> 9 \<Longrightarrow> sdb d' (sno k) = sdb d (sno k)) \<Longrightarrow> k < fat_len \<Longrightarrow> fat_entry d' k = fat_entry d k"
proof -
  assume eq: "\<And>k. 1 \<le> k \<Longrightarrow> k \<le> 9 \<Longrightarrow> sdb d' (sno k) = sdb d (sno k)" and k: "k < fat_len"
  have "k div 2 * 3 + 2 < 4608"
    using k by (simp add: fat_len_def) arith
  moreover have "fatb d' p = fatb d p" if "p < 4608" for p
    using eq[of "1 + p div 512"] that by (simp add: fatb_def)
  ultimately show ?thesis
    by (simp add: fat_entry_def entry_of_def)
qed

text \<open>A chain of clusters: each entry names the next cluster, the last one is an end mark.\<close>

fun fat_chain :: "disk \<Rightarrow> nat list \<Rightarrow> bool" where
  "fat_chain d [] \<longleftrightarrow> False"
| "fat_chain d [c] \<longleftrightarrow> c < fat_len \<and> 0xFF8 \<le> fat_entry d c"
| "fat_chain d (c # c' # cs) \<longleftrightarrow> c < fat_len \<and> unat (fat_entry d c) = c' \<and> c' \<noteq> 0 \<and> fat_chain d (c' # cs)"

lemma fat_chain_in_use: "fat_chain d cs \<Longrightarrow> c \<in> set cs \<Longrightarrow> c < fat_len \<and> fat_entry d c \<noteq> 0"
proof (induction d cs rule: fat_chain.induct)
  case (3 d c c' cs)
  then show ?case by (auto simp: unat_eq_0)
qed (auto simp: word_le_nat_alt)

lemma fat_chain_cong: "(\<And>c. c \<in> set cs \<Longrightarrow> fat_entry d' c = fat_entry d c) \<Longrightarrow> fat_chain d' cs = fat_chain d cs"
  by (induction d cs rule: fat_chain.induct) auto

lemma fat_chain_extend:
  assumes "fat_chain d cs" "distinct cs" "e < fat_len" "0 < e" "e \<notin> set cs"
    and "\<And>c. c \<in> set (butlast cs) \<Longrightarrow> fat_entry d' c = fat_entry d c"
    and "fat_entry d' (last cs) = word_of_nat e" "0xFF8 \<le> fat_entry d' e"
  shows "fat_chain d' (cs @ [e])"
  using assms
proof (induction d cs rule: fat_chain.induct)
  case (2 d c)
  have "unat (word_of_nat e :: u16) = e"
    using 2 by (intro unat_of_nat_lt) (simp add: fat_len_def)
  then show ?case using 2 by simp
next
  case (3 d c c' cs)
  then show ?case by (auto split: if_splits)
qed simp

lemma uint_not_neg1: "uint (w :: u16) \<noteq> - 1"
  using uint_nonnegative[of w] by linarith

lemma append_a_cluster_ok:
  assumes d: "wf_disk d" and e: "first_free d = Some e" "e \<le> 2849" and c: "unat c < fat_len" "unat c \<noteq> e"
  shows "\<exists>d'. append_a_cluster c d = Inr (word_of_nat e, d') \<and> wf_disk d' \<and> (mirrored d \<longrightarrow> mirrored d') \<and>
    (\<forall>k < fat_len. fat_entry d' k = (if k = unat c then word_of_nat e else if k = e then 0xFFF else fat_entry d k)) \<and>
    (\<forall>s. 18 < s \<longrightarrow> sdb d' s = (if s = sno (e + 31) then replicate 512 0 else sdb d s))"
proof -
  have el: "e < fat_len" "unat (word_of_nat e :: u16) = e" "(word_of_nat e :: u16) < 0x1000"
    using first_free_Some[OF e(1)] unat_of_nat_lt[of e, where 'a = 16] by (simp_all add: fat_len_def word_less_nat_alt)
  let ?d1 = "d\<lparr>img := fresh_img d, sdb := (sdb d)(sno (e + 31) := replicate 512 0)\<rparr>"
  have ne: "sno k \<noteq> sno (e + 31)" if "k \<le> 30" for k
    using sno_inj[of k "e + 31"] that e(2) by simp
  have d1: "wf_disk ?d1" "mirrored d \<longrightarrow> mirrored ?d1"
    using fresh_img_props(2)[OF d] ne by (auto simp: wf_disk_def mirrored_def)
  have f1: "fat_entry ?d1 k = fat_entry d k" if "k < fat_len" for k
    using ne that by (intro fat_entry_cong) simp_all
  obtain d2 where d2: "write_fat_next_cluster c (word_of_nat e) ?d1 = Inr d2" "wf_disk d2" "mirrored ?d1 \<longrightarrow> mirrored d2"
    "\<forall>k < fat_len. fat_entry d2 k = (if k = unat c then word_of_nat e else fat_entry ?d1 k)" "\<forall>s. 18 < s \<or> s = 0 \<longrightarrow> sdb d2 s = sdb ?d1 s"
    using write_fat_spec[OF d1(1) c(1) el(3)] by blast
  obtain d3 where d3: "write_fat_next_cluster (word_of_nat e) 0xFFF d2 = Inr d3" "wf_disk d3" "mirrored d2 \<longrightarrow> mirrored d3"
    "\<forall>k < fat_len. fat_entry d3 k = (if k = e then 0xFFF else fat_entry d2 k)" "\<forall>s. 18 < s \<or> s = 0 \<longrightarrow> sdb d3 s = sdb d2 s"
    using write_fat_spec[OF d2(2), of "word_of_nat e" "0xFFF"] el by (auto simp: word_less_nat_alt)
  have "append_a_cluster c d = Inr (word_of_nat e, d3)"
    using find_empty_cluster_ok[OF d e] d2(1) d3(1) uint_not_neg1 by (simp add: append_a_cluster_def)
  then show ?thesis
    using d1 d2 d3 f1 c(2) by (intro exI[of _ d3]) auto
qed

text \<open>
  C20. Growing a file: when cluster \<open>c\<close> ends a chain and the volume has a free data cluster, \<^verbatim>\<open>append_a_cluster(c)\<close>
  returns the first free cluster, zero-filled; the chain is extended by it, every other chain stays a chain,
  and no other data sector and no other table entry is changed, in both copies of the table.
\<close>

theorem append_a_cluster_extends_chain:
  assumes "wf_disk d" "first_free d = Some e" "0 < e" "e \<le> 2849" and "fat_chain d cs" "distinct cs" "last cs = unat c"
    and "fat_chain d cs'" "unat c \<notin> set cs'"
  shows "\<exists>d'. append_a_cluster c d = Inr (word_of_nat e, d') \<and> wf_disk d' \<and> (mirrored d \<longrightarrow> mirrored d') \<and>
    fat_chain d' (cs @ [e]) \<and> distinct (cs @ [e]) \<and> fat_chain d' cs' \<and> e \<notin> set cs' \<and>
    sdb d' (sno (e + 31)) = replicate 512 0 \<and> (\<forall>s. 18 < s \<and> s \<noteq> sno (e + 31) \<longrightarrow> sdb d' s = sdb d s)"
proof -
  have ne: "cs \<noteq> []"
    using assms(5) by auto
  have c: "unat c \<in> set cs" "unat c < fat_len" "unat c \<noteq> e" and fresh: "e \<notin> set cs" "e \<notin> set cs'"
    using last_in_set[OF ne] assms(7) fat_chain_in_use[OF assms(5)] fat_chain_in_use[OF assms(8)] first_free_Some[OF assms(2)] by auto
  obtain d' where d': "append_a_cluster c d = Inr (word_of_nat e, d')" "wf_disk d'" "mirrored d \<longrightarrow> mirrored d'"
    "\<forall>k < fat_len. fat_entry d' k = (if k = unat c then word_of_nat e else if k = e then 0xFFF else fat_entry d k)"
    "\<forall>s. 18 < s \<longrightarrow> sdb d' s = (if s = sno (e + 31) then replicate 512 0 else sdb d s)"
    using append_a_cluster_ok[OF assms(1,2,4) c(2,3)] by blast
  have el: "e < fat_len"
    using first_free_Some[OF assms(2)] by simp
  have "unat c \<notin> set (butlast cs)"
    using assms(6,7) ne by (metis append_butlast_last_id distinct_append distinct_singleton not_distinct_conv_prefix disjoint_iff list.set_intros(1))
  then have "fat_chain d' (cs @ [e])"
    using d'(4) assms(5,6,3,7) fresh(1) el c fat_chain_in_use[OF assms(5)] in_set_butlastD[of _ cs]
    by (intro fat_chain_extend[of d]) auto
  moreover have "fat_entry d' k = fat_entry d k" if "k \<in> set cs'" for k
    using d'(4) fat_chain_in_use[OF assms(8) that] assms(9) fresh(2) that by auto
  then have "fat_chain d' cs'"
    using fat_chain_cong assms(8) by blast
  moreover have "18 < sno (e + 31)"
    using assms(4) by (simp add: word_less_nat_alt unat_sno)
  ultimately show ?thesis
    using d' fresh assms(6) by (intro exI[of _ d']) auto
qed

definition disk1 :: disk where
  "disk1 = disk0\<lparr>sdb := (\<lambda>s. if s = 1 \<or> s = 10 then [0xF8, 0xFF, 0xFF, 0xFF, 0x0F] @ replicate 507 0 else replicate 512 0)\<rparr>"

lemma disk1_wf: "wf_disk disk1" "mirrored disk1"
  by (auto simp: wf_disk_def mirrored_def disk1_def disk0_def word_unat_eq_iff unat_sno)

lemma disk1_entries: "fat_entry disk1 0 = 0xFF8" "fat_entry disk1 1 = 0xFFF" "fat_entry disk1 2 = 0xFFF" "fat_entry disk1 3 = 0"
  by (simp_all add: fat_entry_def entry_of_def fatb_def disk1_def disk0_def sno_def even_entry_def odd_entry_def)

lemma disk1_first_free: "first_free disk1 = Some 3"
proof -
  have "3 < fat_len"
    by (simp add: fat_len_def)
  then have "[0..<fat_len] = 0 # 1 # 2 # 3 # [4..<fat_len]"
    by (simp add: upt_conv_Cons eval_nat_numeral)
  then show ?thesis
    by (simp add: first_free_def disk1_entries disk1_entries(2)[simplified])
qed

theorem append_a_cluster_extends_chain_witness:
  "\<exists>d'. append_a_cluster 2 disk1 = Inr (3, d') \<and> fat_chain d' [2, 3] \<and> fat_chain d' [1]"
  using append_a_cluster_extends_chain[OF disk1_wf(1) disk1_first_free, of "[2]" 2 "[1]"]
  by (auto simp: disk1_entries disk1_entries(2)[simplified] fat_len_def)

end
