(* ===== verification/Stdio.thy ===== *)
theory Stdio
  imports Cstring
begin

text \<open>
  Numbers as text and formatted input and output: \<^verbatim>\<open>src/lib/stdio.c\<close>, the number printing of
  \<^verbatim>\<open>src/lib/kernel/print_c.c\<close> and the line reading of \<^verbatim>\<open>src/userprog/syscall-init.c\<close>. Pointers are
  addresses of the flat byte memory of theory \<open>Cstring\<close>; \<^verbatim>\<open>None\<close> is a call that does not return (no
  terminating zero, a division by zero, which ends in the handler's endless loop, or no more input). The
  variable arguments are words of the stack: \<^verbatim>\<open>va_arg\<close> advances its pointer by 4 and reads there.
\<close>

subsection \<open>Numbers\<close>

definition digit_char :: "u32 \<Rightarrow> u8" where
  "digit_char d = (if d \<le> 9 then ucast d + 0x30 else ucast d - 10 + 0x41)"

partial_function (option) itoa_digits :: "u32 \<Rightarrow> u32 \<Rightarrow> u32 \<Rightarrow> u32 \<Rightarrow> bmem \<Rightarrow> (u32 \<times> bmem) option" where
  "itoa_digits s x b len m =
     (if x = 0 then Some (len, m)
      else if b = 0 then None
      else itoa_digits s (x div b) b (len + 1) (m(s + len := digit_char (x mod b))))"

function itoa_reverse :: "u32 \<Rightarrow> u32 \<Rightarrow> u32 \<Rightarrow> bmem \<Rightarrow> bmem" where
  "itoa_reverse s i len m =
     (if i < len div 2
      then itoa_reverse s (i + 1) len (m(s + i := m (s + (len - 1 - i)), s + (len - 1 - i) := m (s + i)))
      else m)"
  by pat_completeness auto
termination
  by (relation "measure (\<lambda>(s, i, len, m). unat (len div 2) - unat i)") (auto simp: unat_Suc_lt word_less_nat_alt)

declare itoa_reverse.simps [simp del]

definition itoa :: "u32 \<Rightarrow> u32 \<Rightarrow> u32 \<Rightarrow> bmem \<Rightarrow> bmem option" where
  "itoa s x b m =
     (let (len, m1) = (if x = 0 then (1, m(s := 0x30)) else (0, m))
      in map_option (\<lambda>(len, m2). itoa_reverse s 0 len (m2(s + len := 0))) (itoa_digits s x b len m1))"

text \<open>
  \<^verbatim>\<open>put_uint\<close> works on a local array of 20 bytes and hands the characters in front of the terminator to
  \<^verbatim>\<open>put_str\<close>; the result here is what is printed.
\<close>

partial_function (option) put_uint_digits :: "u32 \<Rightarrow> u32 \<Rightarrow> nat \<Rightarrow> u8 list \<Rightarrow> (nat \<times> u8 list) res option" where
  "put_uint_digits x b len s =
     (if x = 0 then Some (Inr (len, s))
      else if b = 0 then None
      else if len < length s then put_uint_digits (x div b) b (Suc len) (s[len := digit_char (x mod b)])
      else Some (Inl OutOfBounds))"

function put_uint_reverse :: "nat \<Rightarrow> nat \<Rightarrow> u8 list \<Rightarrow> u8 list" where
  "put_uint_reverse i len s =
     (if i < len div 2 then put_uint_reverse (Suc i) len (s[i := s ! (len - 1 - i), len - 1 - i := s ! i]) else s)"
  by pat_completeness auto
termination
  by (relation "measure (\<lambda>(i, len, s). len div 2 - i)") auto

declare put_uint_reverse.simps [simp del]

definition put_uint :: "u32 \<Rightarrow> u32 \<Rightarrow> u8 list res option" where
  "put_uint x b =
     (let (len, s) = (if x = 0 then (1, (replicate 20 0)[0 := 0x30]) else (0, replicate 20 0))
      in map_option (\<lambda>r. andthen r (\<lambda>(len, s). andthen (wr s len 0) (\<lambda>s.
           Inr (takeWhile (\<lambda>c. c \<noteq> 0) (put_uint_reverse 0 len s))))) (put_uint_digits x b len s))"

text \<open>\<^verbatim>\<open>put_int\<close>: the sign, then the magnitude; the most negative number is its own negation.\<close>

definition put_int :: "u32 \<Rightarrow> u32 \<Rightarrow> u8 list res option" where
  "put_int x b = (if x <s 0 then map_option (\<lambda>r. andthen r (\<lambda>t. Inr (0x2D # t))) (put_uint (- x) b) else put_uint x b)"

definition digit_value :: "u32 \<Rightarrow> u8 \<Rightarrow> u32" where
  "digit_value x c =
     (if 0x30 \<le>s c \<and> c \<le>s 0x39 then x * 10 + scast c - 0x30
      else if 0x61 \<le>s c \<and> c \<le>s 0x7A then x * 10 + scast c - 0x61 + 10
      else if 0x41 \<le>s c \<and> c \<le>s 0x5A then x * 10 + scast c - 0x41 + 10
      else x)"

partial_function (option) s_to_uint_loop :: "u32 \<Rightarrow> u32 \<Rightarrow> u32 \<Rightarrow> bmem \<Rightarrow> u32 option" where
  "s_to_uint_loop value i x m =
     Option.bind (strlen value m) (\<lambda>n.
       if i < n then s_to_uint_loop value (i + 1) (digit_value x (m (value + i))) m else Some x)"

definition s_to_uint :: "u32 \<Rightarrow> bmem \<Rightarrow> u32 option" where
  "s_to_uint value m = s_to_uint_loop value 0 0 m"

subsection \<open>Formatted output\<close>

text \<open>A little-endian word of memory.\<close>

definition rd32 :: "bmem \<Rightarrow> u32 \<Rightarrow> u32" where
  "rd32 m a = ucast (m a) OR push_bit 8 (ucast (m (a + 1))) OR push_bit 16 (ucast (m (a + 2))) OR push_bit 24 (ucast (m (a + 3)))"

text \<open>The directives; \<^verbatim>\<open>len = strlen(s)\<close> after the ones that write a terminated string.\<close>

definition vsprintf_directive :: "u32 \<Rightarrow> u8 \<Rightarrow> u32 \<Rightarrow> u32 \<Rightarrow> bmem \<Rightarrow> (u32 \<times> u32 \<times> bmem) option" where
  "vsprintf_directive s c ap len m =
     (if c = 0x78 then Option.bind (itoa (s + len) (rd32 m (ap + 4)) 16 m) (\<lambda>m1. map_option (\<lambda>n. (ap + 4, n, m1)) (strlen s m1))
      else if c = 0x64 then Option.bind (itoa (s + len) (rd32 m (ap + 4)) 10 m) (\<lambda>m1. map_option (\<lambda>n. (ap + 4, n, m1)) (strlen s m1))
      else if c = 0x73 then Option.bind (strcpy (s + len) (rd32 m (ap + 4)) m) (\<lambda>(_, m1). map_option (\<lambda>n. (ap + 4, n, m1)) (strlen s m1))
      else if c = 0x63 then Some (ap + 4, len + 1, m(s + len := m (ap + 4)))
      else Some (ap, len, m))"

partial_function (option) vsprintf_loop :: "u32 \<Rightarrow> u32 \<Rightarrow> u32 \<Rightarrow> u32 \<Rightarrow> u32 \<Rightarrow> bmem \<Rightarrow> (u32 \<times> bmem) option" where
  "vsprintf_loop s format ap i len m =
     Option.bind (strlen format m) (\<lambda>n.
       if i < n
       then if m (format + i) = 0x25
            then Option.bind (vsprintf_directive s (m (format + (i + 1))) ap len m) (\<lambda>r.
                   vsprintf_loop s format (fst r) (i + 2) (fst (snd r)) (snd (snd r)))
            else vsprintf_loop s format ap (i + 1) (len + 1) (m(s + len := m (format + i)))
       else Some (len, m))"

definition vsprintf :: "u32 \<Rightarrow> u32 \<Rightarrow> u32 \<Rightarrow> bmem \<Rightarrow> (u32 \<times> bmem) option" where
  "vsprintf s format args m =
     Option.bind (vsprintf_loop s format args 0 0 m) (\<lambda>(len, m1).
       let m2 = m1(s + len := 0) in map_option (\<lambda>n. (n, m2)) (strlen s m2))"

text \<open>
  \<^verbatim>\<open>sprintf\<close> finds its variable arguments behind its fixed parameter \<^verbatim>\<open>format\<close>, whose address is given.
\<close>

definition sprintf :: "u32 \<Rightarrow> u32 \<Rightarrow> u32 \<Rightarrow> bmem \<Rightarrow> (u32 \<times> bmem) option" where
  "sprintf buf format format_addr m = vsprintf buf format format_addr m"

subsection \<open>Formatted input\<close>

text \<open>
  \<^verbatim>\<open>sys_read\<close> takes characters from the keyboard queue up to a separator; \<open>inp\<close> is what the queue
  will deliver.
\<close>

fun sys_read :: "u32 \<Rightarrow> u32 \<Rightarrow> u8 list \<Rightarrow> bmem \<Rightarrow> (u8 list \<times> bmem) option" where
  "sys_read s len [] m = None"
| "sys_read s len (c # inp) m =
     (if c = 0xA \<or> c = 0xD \<or> c = 0x20 then Some (inp, m(s + len := 0)) else sys_read s (len + 1) inp (m(s + len := c)))"

definition wr32 :: "u32 \<Rightarrow> u32 \<Rightarrow> bmem \<Rightarrow> bmem" where
  "wr32 a v m = m(a := ucast v, a + 1 := ucast (drop_bit 8 v), a + 2 := ucast (drop_bit 16 v), a + 3 := ucast (drop_bit 24 v))"

text \<open>\<open>value\<close> is the address of the local buffer of 1000 bytes.\<close>

definition vscanf_directive :: "u32 \<Rightarrow> u8 \<Rightarrow> u32 \<Rightarrow> u8 list \<Rightarrow> bmem \<Rightarrow> (u32 \<times> u8 list \<times> bmem) option" where
  "vscanf_directive value c ap inp m =
     (if c = 0x64 \<or> c = 0x78
      then Option.bind (sys_read value 0 inp m) (\<lambda>(inp1, m1).
             map_option (\<lambda>x. (ap + 4, inp1, wr32 (rd32 m (ap + 4)) x m1)) (s_to_uint value m1))
      else if c = 0x63 \<or> c = 0x73
      then Option.bind (sys_read value 0 inp m) (\<lambda>(inp1, m1).
             map_option (\<lambda>(_, m2). (ap + 4, inp1, m2)) (strcpy (rd32 m (ap + 4)) value m1))
      else Some (ap, inp, m))"

partial_function (option) vscanf_loop :: "u32 \<Rightarrow> u32 \<Rightarrow> u32 \<Rightarrow> u32 \<Rightarrow> u8 list \<Rightarrow> bmem \<Rightarrow> (u8 list \<times> bmem) option" where
  "vscanf_loop value format ap i inp m =
     Option.bind (strlen format m) (\<lambda>n.
       if i < n
       then if m (format + i) = 0x25
            then Option.bind (vscanf_directive value (m (format + (i + 1))) ap inp m) (\<lambda>r.
                   vscanf_loop value format (fst r) (i + 2) (fst (snd r)) (snd (snd r)))
            else vscanf_loop value format ap (i + 1) inp m
       else Some (inp, m))"

definition vscanf :: "u32 \<Rightarrow> u32 \<Rightarrow> u32 \<Rightarrow> u8 list \<Rightarrow> bmem \<Rightarrow> (u8 list \<times> bmem) option" where
  "vscanf value format args inp m = vscanf_loop value format args 0 inp m"

subsection \<open>Bytes in memory\<close>

definition bytes_at :: "bmem \<Rightarrow> u32 \<Rightarrow> u8 list \<Rightarrow> bool" where
  "bytes_at m p xs \<longleftrightarrow> (\<forall>i < length xs. m (p + word_of_nat i) = xs ! i)"

lemma in_region_offset: "n \<le> 2 ^ 32 \<Longrightarrow> in_region p n a \<longleftrightarrow> (\<exists>i < n. a = p + word_of_nat i)"
proof
  assume "in_region p n a"
  then show "\<exists>i < n. a = p + word_of_nat i"
    by (intro exI[of _ "unat (a - p)"]) (simp add: in_region_def)
next
  assume "n \<le> 2 ^ 32" "\<exists>i < n. a = p + word_of_nat i"
  then show "in_region p n a"
    by (auto simp: in_region_def unat_of_nat_lt)
qed

lemma in_region_nth: "i < n \<Longrightarrow> n \<le> 2 ^ 32 \<Longrightarrow> in_region p n (p + word_of_nat i)"
  using in_region_offset by blast

lemma bytes_at_frame:
  assumes b: "bytes_at m p xs" and eq: "\<And>a. in_region p (length xs) a \<Longrightarrow> m' a = m a" and l: "length xs \<le> 2 ^ 32"
  shows "bytes_at m' p xs"
  unfolding bytes_at_def
proof (intro allI impI)
  fix i assume i: "i < length xs"
  then have "in_region p (length xs) (p + word_of_nat i)"
    using l by (rule in_region_nth)
  then show "m' (p + word_of_nat i) = xs ! i"
    using b i eq by (simp add: bytes_at_def)
qed

lemma bytes_at_upd:
  assumes "bytes_at m p xs" and "i < length xs" "length xs \<le> 2 ^ 32"
  shows "bytes_at (m(p + word_of_nat i := v)) p (xs[i := v])"
  using assms by (auto simp: bytes_at_def nth_list_update of_nat_inj32)

lemma bytes_at_append:
  "bytes_at m p (xs @ ys) \<longleftrightarrow> bytes_at m p xs \<and> bytes_at m (p + word_of_nat (length xs)) ys"
proof (induction xs arbitrary: p)
  case (Cons x xs)
  have *: "bytes_at m p (x # zs) \<longleftrightarrow> m p = x \<and> bytes_at m (p + 1) zs" for p and x :: u8 and zs
    by (auto simp: bytes_at_def less_Suc_eq_0_disj algebra_simps)
  show ?case
    using Cons.IH[of "p + 1"] by (simp add: * ac_simps)
qed (simp add: bytes_at_def)

lemma bytes_at_Cons: "bytes_at m p (x # xs) \<longleftrightarrow> m p = x \<and> bytes_at m (p + 1) xs"
  using bytes_at_append[of m p "[x]" xs] by (simp add: bytes_at_def)

lemma cstr_bytes: "cstr m p s \<longleftrightarrow> bytes_at m p (s @ [0]) \<and> 0 \<notin> set s"
proof (induction s arbitrary: p)
  case Nil
  then show ?case by (simp add: bytes_at_def)
next
  case (Cons c s)
  then show ?case by (auto simp: bytes_at_Cons)
qed

fun store_bytes :: "u32 \<Rightarrow> u8 list \<Rightarrow> bmem \<Rightarrow> bmem" where
  "store_bytes p [] m = m"
| "store_bytes p (x # xs) m = store_bytes (p + 1) xs (m(p := x))"

lemma store_bytes_spec:
  assumes "length xs \<le> 2 ^ 32"
  shows "bytes_at (store_bytes p xs m) p xs \<and> (\<forall>a. \<not> in_region p (length xs) a \<longrightarrow> store_bytes p xs m a = m a)"
  using assms
proof (induction xs arbitrary: p m)
  case Nil
  then show ?case by (simp add: bytes_at_def)
next
  case (Cons x xs)
  have l: "length xs \<le> 2 ^ 32"
    using Cons.prems by simp
  have reg: "in_region p (Suc (length xs)) a \<longleftrightarrow> a = p \<or> in_region (p + 1) (length xs) a" for a
    using Cons.prems in_region_Suc[of "length xs"] by simp
  have "\<not> in_region (p + 1) (length xs) p"
    using Cons.prems by (simp add: in_region_def unsigned_minus_1_eq_mask mask_eq_exp_minus_1)
  moreover have "bytes_at (store_bytes (p + 1) xs (m(p := x))) (p + 1) xs"
    and "\<And>a. \<not> in_region (p + 1) (length xs) a \<Longrightarrow> store_bytes (p + 1) xs (m(p := x)) a = (m(p := x)) a"
    using Cons.IH[OF l, of "p + 1" "m(p := x)"] by blast+
  ultimately show ?case
    by (simp add: bytes_at_Cons reg)
qed

subsection \<open>Numbers as text\<close>

text \<open>The digits of a number, the lowest one first, and the text that shows it.\<close>

function rdigits :: "nat \<Rightarrow> nat \<Rightarrow> nat list" where
  "rdigits b n = (if n = 0 \<or> b < 2 then [] else n mod b # rdigits b (n div b))"
  by pat_completeness auto
termination
  by (relation "measure snd") auto

declare rdigits.simps [simp del]

lemma rdigits_0 [simp]: "rdigits b 0 = []"
  by (simp add: rdigits.simps)

lemma rdigits_step: "2 \<le> b \<Longrightarrow> 0 < n \<Longrightarrow> rdigits b n = n mod b # rdigits b (n div b)"
  by (subst rdigits.simps) simp

definition num_text :: "nat \<Rightarrow> nat \<Rightarrow> u8 list" where
  "num_text b n = map (\<lambda>d. digit_char (word_of_nat d)) (if n = 0 then [0] else rev (rdigits b n))"

lemma rdigits_length: "2 \<le> b \<Longrightarrow> n < b ^ k \<Longrightarrow> length (rdigits b n) \<le> k"
proof (induction k arbitrary: n)
  case (Suc k)
  then have "n div b < b ^ k"
    by (simp add: less_mult_imp_div_less mult.commute)
  with Suc show ?case by (cases "n = 0") (simp_all add: rdigits_step)
qed simp

lemma rdigits_word_length: "2 \<le> b \<Longrightarrow> length (rdigits b (unat (x :: u32))) \<le> 32"
  using rdigits_length[of b "unat x" 32] unat_u32_lt[of x] power_mono[of 2 b 32] by simp

lemma num_text_length: "2 \<le> b \<Longrightarrow> length (num_text b (unat (x :: u32))) \<le> 32"
  using rdigits_word_length[of b x] by (simp add: num_text_def)

lemma itoa_digits_spec:
  assumes "2 \<le> unat b"
  shows "itoa_digits s x b len m = Some (len + word_of_nat (length (rdigits (unat b) (unat x))),
    store_bytes (s + len) (map (\<lambda>d. digit_char (word_of_nat d)) (rdigits (unat b) (unat x))) m)"
proof (induction "unat x" arbitrary: x len m rule: less_induct)
  case less
  show ?case
  proof (cases "x = 0")
    case False
    then have x: "0 < unat x" and b: "b \<noteq> 0"
      using assms by (auto simp: unat_gt_0)
    have d: "unat (x div b) = unat x div unat b" "x mod b = word_of_nat (unat x mod unat b)"
      by (simp_all add: unat_div unat_mod word_unat_eq_iff flip: unat_mod)
    have "unat (x div b) < unat x"
      using x assms by (simp add: unat_div)
    then show ?thesis
      using less[of "x div b" "len + 1" "m(s + len := digit_char (x mod b))"] False b assms x
      by (subst itoa_digits.simps) (simp add: rdigits_step d add.assoc)
  qed (simp add: itoa_digits.simps)
qed

lemma put_uint_reverse_length [simp]: "length (put_uint_reverse i len s) = length s"
  by (induction i len s rule: put_uint_reverse.induct) (subst put_uint_reverse.simps, simp)

lemma put_uint_reverse_nth:
  assumes "len \<le> length s" "j < length s"
  shows "put_uint_reverse i len s ! j = (if i \<le> j \<and> j + i < len then s ! (len - 1 - j) else s ! j)"
  using assms
proof (induction i len s rule: put_uint_reverse.induct)
  case (1 i len s)
  let ?s = "s[i := s ! (len - 1 - i), len - 1 - i := s ! i]"
  show ?case
  proof (cases "i < len div 2")
    case True
    then have i: "i < length s" "len - 1 - i < length s" "i < len - 1 - i"
      using "1.prems" by simp_all
    have "put_uint_reverse i len s ! j = put_uint_reverse (Suc i) len ?s ! j"
      using True by (subst put_uint_reverse.simps) simp
    also have "\<dots> = (if Suc i \<le> j \<and> j + Suc i < len then ?s ! (len - 1 - j) else ?s ! j)"
      using 1 True by simp
    also have "\<dots> = (if i \<le> j \<and> j + i < len then s ! (len - 1 - j) else s ! j)"
    proof (cases "Suc i \<le> j \<and> j + Suc i < len")
      case inner: True
      then have "len - 1 - j \<noteq> i" "len - 1 - j \<noteq> len - 1 - i"
        by arith+
      with inner show ?thesis by (simp add: nth_list_update)
    next
      case False
      then have "i \<le> j \<and> j + i < len \<longleftrightarrow> j = i \<or> j = len - 1 - i"
        using i by arith
      with False i show ?thesis by (auto simp: nth_list_update)
    qed
    finally show ?thesis .
  next
    case False
    then have "put_uint_reverse i len s = s"
      by (subst put_uint_reverse.simps) simp
    moreover have "len - 1 - j = j" if "i \<le> j" "j + i < len"
      using False that by arith
    ultimately show ?thesis by simp
  qed
qed

lemma put_uint_reverse_rev:
  assumes "len \<le> length s"
  shows "put_uint_reverse 0 len s = rev (take len s) @ drop len s"
proof (rule nth_equalityI)
  fix j assume "j < length (put_uint_reverse 0 len s)"
  then show "put_uint_reverse 0 len s ! j = (rev (take len s) @ drop len s) ! j"
    using put_uint_reverse_nth[OF assms, of j 0] assms by (auto simp: nth_append rev_nth)
qed (use assms in simp)

lemma itoa_reverse_spec:
  assumes "bytes_at m s ys" "length ys < 2 ^ 31" "k \<le> length ys"
  shows "bytes_at (itoa_reverse s (word_of_nat k) (word_of_nat (length ys)) m) s (put_uint_reverse k (length ys) ys) \<and>
    (\<forall>a. \<not> in_region s (length ys) a \<longrightarrow> itoa_reverse s (word_of_nat k) (word_of_nat (length ys)) m a = m a)"
  using assms
proof (induction k "length ys" ys arbitrary: m rule: put_uint_reverse.induct)
  case (1 k ys)
  let ?n = "length ys"
  let ?len = "word_of_nat ?n :: u32"
  let ?j = "?n - 1 - k"
  have u: "unat ?len = ?n" "unat (word_of_nat k :: u32) = k"
    using "1.prems"(2,3) by (simp_all add: unat_nat32)
  have cond: "word_of_nat k < ?len div 2 \<longleftrightarrow> k < ?n div 2"
    by (simp add: word_less_nat_alt unat_div u)
  show ?case
  proof (cases "k < ?n div 2")
    case True
    then have k: "k < ?n" "?j < ?n" "Suc k \<le> ?n"
      by simp_all
    let ?m = "m(s + word_of_nat k := m (s + word_of_nat ?j), s + word_of_nat ?j := m (s + word_of_nat k))"
    let ?ys = "ys[k := ys ! ?j, ?j := ys ! k]"
    have v: "m (s + word_of_nat ?j) = ys ! ?j" "m (s + word_of_nat k) = ys ! k"
      using "1.prems"(1) k unfolding bytes_at_def by blast+
    have b: "bytes_at ?m s ?ys"
      unfolding v using "1.prems"(1,2) k by (intro bytes_at_upd) simp_all
    have step: "itoa_reverse s (word_of_nat k) ?len m = itoa_reverse s (word_of_nat (Suc k)) ?len ?m"
      using True cond k(1) by (subst itoa_reverse.simps) (simp add: add.commute diff_diff_add of_nat_diff)
    have IH: "bytes_at (itoa_reverse s (word_of_nat (Suc k)) ?len ?m) s (put_uint_reverse (Suc k) ?n ?ys)"
      "\<And>a. \<not> in_region s ?n a \<Longrightarrow> itoa_reverse s (word_of_nat (Suc k)) ?len ?m a = ?m a"
      using "1.hyps"[OF True _ b] "1.prems"(2) k(3) by auto
    have "in_region s ?n (s + word_of_nat k)" "in_region s ?n (s + word_of_nat ?j)"
      using k "1.prems"(2) by (intro in_region_nth; simp)+
    then have "?m a = m a" if "\<not> in_region s ?n a" for a
      using that by auto
    moreover have "put_uint_reverse k ?n ys = put_uint_reverse (Suc k) ?n ?ys"
      using True by (subst put_uint_reverse.simps) simp
    ultimately show ?thesis
      using IH step by simp
  next
    case False
    then have "itoa_reverse s (word_of_nat k) ?len m = m" "put_uint_reverse k ?n ys = ys"
      using cond by (simp_all add: itoa_reverse.simps[of s "word_of_nat k"] put_uint_reverse.simps[of k])
    then show ?thesis using "1.prems"(1) by simp
  qed
qed

lemma digit_char_nonzero:
  assumes "d < 37"
  shows "digit_char (word_of_nat d) \<noteq> 0"
proof -
  have "list_all (\<lambda>d. digit_char (word_of_nat d) \<noteq> 0) [0..<37]"
    by code_simp
  then show ?thesis using assms by (simp add: list_all_iff)
qed

lemma rdigits_lt: "d \<in> set (rdigits b n) \<Longrightarrow> d < b"
proof (induction b n rule: rdigits.induct)
  case (1 b n)
  then show ?case by (subst (asm) rdigits.simps) (auto split: if_splits)
qed

lemma num_text_nonzero: "2 \<le> b \<Longrightarrow> b \<le> 37 \<Longrightarrow> 0 \<notin> set (num_text b n)"
  by (auto simp: num_text_def dest!: rdigits_lt sym[of 0] digit_char_nonzero[OF less_le_trans]) (simp add: digit_char_def)

lemma itoa_spec:
  assumes b: "2 \<le> unat b" "unat b \<le> 37"
  shows "\<exists>m'. itoa s x b m = Some m' \<and> cstr m' s (num_text (unat b) (unat x)) \<and>
    (\<forall>a. \<not> in_region s (Suc (length (num_text (unat b) (unat x)))) a \<longrightarrow> m' a = m a)"
proof -
  let ?ds = "if x = 0 then [0x30] else map (\<lambda>d. digit_char (word_of_nat d)) (rdigits (unat b) (unat x))"
  let ?n = "length ?ds"
  have shown: "rev ?ds = num_text (unat b) (unat x)"
    by (simp add: num_text_def rev_map digit_char_def unat_gt_0)
  have n: "?n \<le> 32"
    using rdigits_word_length[OF b(1), of x] by simp
  let ?m1 = "(store_bytes s ?ds m)(s + word_of_nat ?n := 0)"
  let ?r = "itoa_reverse s 0 (word_of_nat ?n) ?m1"
  have it: "itoa s x b m = Some ?r"
    using itoa_digits_spec[OF b(1)] by (simp add: itoa_def)
  have out: "\<not> in_region s ?n (s + word_of_nat ?n)"
    using n by (simp add: in_region_def unat_nat32)
  have m1: "bytes_at ?m1 s ?ds" "?m1 (s + word_of_nat ?n) = 0"
    using store_bytes_spec[of ?ds s m] n out by (auto intro: bytes_at_frame)
  have "bytes_at ?r s (put_uint_reverse 0 ?n ?ds)" and fr: "\<And>a. \<not> in_region s ?n a \<Longrightarrow> ?r a = ?m1 a"
    using itoa_reverse_spec[OF m1(1), of 0] n by auto
  then have "bytes_at ?r s (rev ?ds @ [0])"
    using fr[OF out] m1(2) by (simp add: put_uint_reverse_rev bytes_at_append bytes_at_Cons) (simp add: bytes_at_def)
  then have c: "cstr ?r s (num_text (unat b) (unat x))"
    using num_text_nonzero[OF b] by (simp only: cstr_bytes shown) simp
  have "?r a = m a" if a: "\<not> in_region s (Suc ?n) a" for a
  proof -
    have "\<not> in_region s ?n a" "a \<noteq> s + word_of_nat ?n"
      using a n in_region_nth[of ?n "Suc ?n" s] by (auto simp: in_region_def)
    then show ?thesis
      using fr[of a] store_bytes_spec[of ?ds s m] n by simp
  qed
  moreover have "length (num_text (unat b) (unat x)) = ?n"
    by (simp flip: shown)
  ultimately show ?thesis
    using it c by auto
qed

subsection \<open>What a format stands for\<close>

text \<open>
  A format is a sequence of items; an argument of \<open>FStr\<close> comes with the address it is stored at.
  \<open>fmt_src\<close> is the text of an item in the format, \<open>fmt_out\<close> what it prints, and \<open>fmt_args\<close> says that the
  argument words from \<open>ap\<close> on hold the arguments, all of them in places \<open>W\<close> does not cover.
\<close>

datatype fmt_item = FLit u8 | FHex u32 | FDec u32 | FStr u32 "u8 list" | FChr u8 | FSkip u8

fun fmt_src :: "fmt_item \<Rightarrow> u8 list" where
  "fmt_src (FLit c) = [c]"
| "fmt_src (FHex x) = [0x25, 0x78]"
| "fmt_src (FDec x) = [0x25, 0x64]"
| "fmt_src (FStr p t) = [0x25, 0x73]"
| "fmt_src (FChr c) = [0x25, 0x63]"
| "fmt_src (FSkip c) = [0x25, c]"

fun fmt_out :: "fmt_item \<Rightarrow> u8 list" where
  "fmt_out (FLit c) = [c]"
| "fmt_out (FHex x) = num_text 16 (unat x)"
| "fmt_out (FDec x) = num_text 10 (unat x)"
| "fmt_out (FStr p t) = t"
| "fmt_out (FChr c) = [c]"
| "fmt_out (FSkip c) = []"

fun fmt_ok :: "fmt_item \<Rightarrow> bool" where
  "fmt_ok (FLit c) = (c \<noteq> 0x25)"
| "fmt_ok (FChr c) = (c \<noteq> 0)"
| "fmt_ok (FSkip c) = (c \<notin> {0x78, 0x64, 0x73, 0x63})"
| "fmt_ok _ = True"

definition word_at :: "(u32 \<Rightarrow> bool) \<Rightarrow> bmem \<Rightarrow> u32 \<Rightarrow> u32 \<Rightarrow> bool" where
  "word_at W m a v \<longleftrightarrow> rd32 m a = v \<and> (\<forall>i < 4. \<not> W (a + word_of_nat i))"

fun fmt_args :: "(u32 \<Rightarrow> bool) \<Rightarrow> bmem \<Rightarrow> u32 \<Rightarrow> fmt_item list \<Rightarrow> bool" where
  "fmt_args W m ap [] = True"
| "fmt_args W m ap (FHex x # fs) = (word_at W m (ap + 4) x \<and> fmt_args W m (ap + 4) fs)"
| "fmt_args W m ap (FDec x # fs) = (word_at W m (ap + 4) x \<and> fmt_args W m (ap + 4) fs)"
| "fmt_args W m ap (FStr p t # fs) = (word_at W m (ap + 4) p \<and> cstr m p t \<and>
     (\<forall>a. in_region p (Suc (length t)) a \<longrightarrow> \<not> W a) \<and> fmt_args W m (ap + 4) fs)"
| "fmt_args W m ap (FChr c # fs) = (m (ap + 4) = c \<and> \<not> W (ap + 4) \<and> fmt_args W m (ap + 4) fs)"
| "fmt_args W m ap (FLit c # fs) = fmt_args W m ap fs"
| "fmt_args W m ap (FSkip c # fs) = fmt_args W m ap fs"

fun fmt_advance :: "fmt_item \<Rightarrow> u32" where
  "fmt_advance (FLit c) = 0"
| "fmt_advance (FSkip c) = 0"
| "fmt_advance _ = 4"

lemma strlen_cstr: "cstr m p s \<Longrightarrow> strlen p m = Some (word_of_nat (length s))"
  by (simp add: strlen_def skip_string_cstr)

lemma rd32_frame: "word_at W m a v \<Longrightarrow> (\<And>x. \<not> W x \<Longrightarrow> m' x = m x) \<Longrightarrow> rd32 m' a = v"
proof -
  assume w: "word_at W m a v" and eq: "\<And>x. \<not> W x \<Longrightarrow> m' x = m x"
  have "\<not> W (a + word_of_nat i)" if "i < 4" for i
    using w that by (simp add: word_at_def)
  from this[of 0] this[of 1] this[of 2] this[of 3] show ?thesis
    using w eq by (simp add: word_at_def rd32_def)
qed

text \<open>
  A string written behind the bytes \<open>out\<close> that are there already, and nowhere else, continues them.
\<close>

lemma cstr_continue:
  assumes "bytes_at m s out" "0 \<notin> set out" and "cstr m' (s + word_of_nat (length out)) t"
    and fr: "\<And>a. \<not> in_region (s + word_of_nat (length out)) (Suc (length t)) a \<Longrightarrow> m' a = m a"
    and l: "length out + length t < 2 ^ 32"
  shows "cstr m' s (out @ t)"
proof -
  have "\<not> in_region (s + word_of_nat (length out)) (Suc (length t)) (s + word_of_nat i)" if "i < length out" for i
  proof -
    have "s + word_of_nat i - (s + word_of_nat (length out)) = - word_of_nat (length out - i)"
      using that by (simp add: of_nat_diff)
    moreover have "unat (- word_of_nat (length out - i) :: u32) = 2 ^ 32 - (length out - i)"
      using that l by (intro unat_minus_of_nat) simp_all
    ultimately show ?thesis
      using that l by (simp add: in_region_def)
  qed
  then have "bytes_at m' s out"
    using assms(1) fr by (simp add: bytes_at_def)
  then show ?thesis
    using assms(2,3) by (simp add: cstr_bytes bytes_at_append)
qed

lemma in_region_sub:
  "in_region (s + word_of_nat k) n a \<Longrightarrow> k + n \<le> N \<Longrightarrow> N \<le> 2 ^ 32 \<Longrightarrow> in_region s N a"
proof -
  assume a: "in_region (s + word_of_nat k) n a" "k + n \<le> N" "N \<le> 2 ^ 32"
  then obtain i where "i < n" "a = s + word_of_nat (k + i)"
    using in_region_offset[of n "s + word_of_nat k" a] by (auto simp: add.assoc)
  then show ?thesis
    using a in_region_nth[of "k + i" N s] by simp
qed

text \<open>The state of \<^verbatim>\<open>vsprintf\<close> between two items: \<open>out\<close> is written, nothing outside the \<open>N\<close> bytes from \<open>s\<close> on is changed.\<close>

definition printed :: "u32 \<Rightarrow> nat \<Rightarrow> bmem \<Rightarrow> u8 list \<Rightarrow> bmem \<Rightarrow> bool" where
  "printed s N m0 out m \<longleftrightarrow> bytes_at m s out \<and> 0 \<notin> set out \<and> (\<forall>a. \<not> in_region s N a \<longrightarrow> m a = m0 a)"

lemma printed_char:
  assumes "printed s N m0 out m" "c \<noteq> 0" "length out < N" "N \<le> 2 ^ 32"
  shows "printed s N m0 (out @ [c]) (m(s + word_of_nat (length out) := c))"
proof -
  let ?e = "s + word_of_nat (length out) :: u32"
  have "\<not> in_region s (length out) ?e" "in_region s N ?e"
    using assms(3,4) in_region_nth[of "length out" N s] by (auto simp: in_region_def unat_nat32)
  then show ?thesis
    using assms unfolding printed_def
    by (auto simp: bytes_at_append bytes_at_Cons intro!: bytes_at_frame[of m s out] simp: bytes_at_def[of _ _ "[]"])
qed

lemma printed_text:
  assumes p: "printed s N m0 out m" and t: "cstr m' (s + word_of_nat (length out)) t"
    and fr: "\<forall>a. \<not> in_region (s + word_of_nat (length out)) (Suc (length t)) a \<longrightarrow> m' a = m a"
    and l: "length out + length t < N" "N \<le> 2 ^ 32"
  shows "printed s N m0 (out @ t) m' \<and> strlen s m' = Some (word_of_nat (length (out @ t)))"
proof -
  have c: "cstr m' s (out @ t)"
    using p fr l by (intro cstr_continue[OF _ _ t]) (simp_all add: printed_def)
  have "m' a = m0 a" if a: "\<not> in_region s N a" for a
  proof -
    have "\<not> in_region (s + word_of_nat (length out)) (Suc (length t)) a"
      using a in_region_sub[of s "length out" "Suc (length t)" a N] l by auto
    then show ?thesis
      using fr p a by (simp add: printed_def)
  qed
  then show ?thesis
    using c strlen_cstr[OF c] by (simp add: printed_def cstr_bytes bytes_at_append)
qed

lemma vsprintf_directive_num:
  assumes "printed s N m0 out m" "word_at (in_region s N) m0 (ap + 4) x" "b = (16 :: u32) \<and> c = 0x78 \<or> b = 10 \<and> c = 0x64"
    "length out + length (num_text (unat b) (unat x)) < N" "N \<le> 2 ^ 32"
  shows "\<exists>m'. vsprintf_directive s c ap (word_of_nat (length out)) m =
      Some (ap + 4, word_of_nat (length (out @ num_text (unat b) (unat x))), m') \<and> printed s N m0 (out @ num_text (unat b) (unat x)) m'"
proof -
  have b: "2 \<le> unat b" "unat b \<le> 37"
    using assms(3) by auto
  have "rd32 m (ap + 4) = x"
    using rd32_frame[OF assms(2)] assms(1) by (simp add: printed_def)
  moreover obtain m' where m': "itoa (s + word_of_nat (length out)) x b m = Some m'"
    "cstr m' (s + word_of_nat (length out)) (num_text (unat b) (unat x))"
    "\<forall>a. \<not> in_region (s + word_of_nat (length out)) (Suc (length (num_text (unat b) (unat x)))) a \<longrightarrow> m' a = m a"
    using itoa_spec[OF b] by blast
  ultimately show ?thesis
    using printed_text[OF assms(1) m'(2,3) assms(4,5)] assms(3) by (auto simp: vsprintf_directive_def)
qed

lemma vsprintf_directive_str:
  assumes p: "printed s N m0 out m" and w: "word_at (in_region s N) m0 (ap + 4) q" and t: "cstr m0 q t"
    and sep: "\<forall>a. in_region q (Suc (length t)) a \<longrightarrow> \<not> in_region s N a" and l: "length out + length t < N" "N \<le> 2 ^ 32"
  shows "\<exists>m'. vsprintf_directive s 0x73 ap (word_of_nat (length out)) m = Some (ap + 4, word_of_nat (length (out @ t)), m') \<and>
    printed s N m0 (out @ t) m'"
proof -
  let ?e = "s + word_of_nat (length out)"
  have "rd32 m (ap + 4) = q"
    using rd32_frame[OF w] p by (simp add: printed_def)
  moreover have "cstr m q t"
    using cstr_frame[of q t m m0] t sep p l by (auto simp: printed_def)
  moreover have "disjoint_regions ?e (Suc (length t)) q (Suc (length t))"
    using sep in_region_sub[of s "length out" "Suc (length t)" _ N] l by (auto simp: disjoint_regions_def)
  ultimately obtain m' where m': "strcpy_loop ?e q m = Some m'" "cstr m' ?e t"
    "\<forall>a. \<not> in_region ?e (Suc (length t)) a \<longrightarrow> m' a = m a" "rd32 m (ap + 4) = q"
    using strcpy_loop_cstr[of m q t ?e] l by auto
  then show ?thesis
    using printed_text[OF p m'(2,3) l] by (auto simp: vsprintf_directive_def strcpy_def)
qed

lemma vsprintf_directive_spec:
  assumes p: "printed s N m0 out m" and a: "fmt_args (in_region s N) m0 ap (f # fs)" and f: "fmt_ok f" "fmt_src f = [0x25, c]"
    and l: "length out + length (fmt_out f) < N" "N \<le> 2 ^ 32"
  shows "\<exists>m'. vsprintf_directive s c ap (word_of_nat (length out)) m =
      Some (ap + fmt_advance f, word_of_nat (length (out @ fmt_out f)), m') \<and> printed s N m0 (out @ fmt_out f) m' \<and>
      fmt_args (in_region s N) m0 (ap + fmt_advance f) fs"
proof (cases f)
  case (FHex x)
  then show ?thesis using vsprintf_directive_num[OF p, of ap x 16 c] a f(2) l by auto
next
  case (FDec x)
  then show ?thesis using vsprintf_directive_num[OF p, of ap x 10 c] a f(2) l by auto
next
  case (FStr q t)
  then show ?thesis using vsprintf_directive_str[OF p, of ap q t] a f(2) l by auto
next
  case (FChr d)
  have "m (ap + 4) = d"
    using a p FChr by (simp add: printed_def)
  then have "vsprintf_directive s 0x63 ap (word_of_nat (length out)) m =
      Some (ap + 4, word_of_nat (length (out @ [d])), m(s + word_of_nat (length out) := d))"
    by (simp add: vsprintf_directive_def)
  then show ?thesis
    using printed_char[OF p, of d] a f l FChr by auto
next
  case (FSkip d)
  then show ?thesis using p a f by (auto simp: vsprintf_directive_def)
qed (use f in simp)

lemma vsprintf_loop_spec:
  assumes "printed s N m0 out m" "fmt_args (in_region s N) m0 ap fs" "\<forall>f \<in> set fs. fmt_ok f"
    and "cstr m0 format (pre @ concat (map fmt_src fs))" "\<forall>a. in_region format (Suc (length (pre @ concat (map fmt_src fs)))) a \<longrightarrow> \<not> in_region s N a"
    and "length (pre @ concat (map fmt_src fs)) < 2 ^ 32" "length (out @ concat (map fmt_out fs)) < N" "N \<le> 2 ^ 32"
  shows "\<exists>m'. vsprintf_loop s format ap (word_of_nat (length pre)) (word_of_nat (length out)) m =
      Some (word_of_nat (length (out @ concat (map fmt_out fs))), m') \<and> printed s N m0 (out @ concat (map fmt_out fs)) m'"
  using assms
proof (induction fs arbitrary: out m ap pre)
  case Nil
  let ?all = "pre @ concat (map fmt_src [])"
  have "cstr m format ?all"
    using cstr_frame[of format ?all m m0] Nil by (auto simp: printed_def)
  from strlen_cstr[OF this] show ?case
    using Nil.prems(1) by (subst vsprintf_loop.simps) simp
next
  case (Cons f fs)
  let ?all = "pre @ concat (map fmt_src (f # fs))"
  have all: "cstr m format ?all"
    using cstr_frame[of format ?all m m0] Cons.prems(1,4-6) by (auto simp: printed_def)
  have "length (fmt_src f) \<noteq> 0"
    by (cases f) simp_all
  then have i: "word_of_nat (length pre) < (word_of_nat (length ?all) :: u32)"
    using Cons.prems(6) by (simp add: word_less_nat_alt unat_nat32 del: of_nat_add)
  have char: "m (format + word_of_nat (length pre + k)) = fmt_src f ! k \<and> fmt_src f ! k \<noteq> 0" if "k < length (fmt_src f)" for k
    using cstr_nth[OF all, of "length pre + k"] that by (simp add: nth_append)
  note step = vsprintf_loop.simps[of s format ap "word_of_nat (length pre)" "word_of_nat (length out)" m]
  show ?case
  proof (cases "\<exists>c. fmt_src f = [0x25, c]")
    case True
    then obtain c where c: "fmt_src f = [0x25, c]" by blast
    have ch: "m (format + word_of_nat (length pre)) = 0x25" "m (format + (word_of_nat (length pre) + 1)) = c"
      using char[of 0] char[of 1] c by (simp_all add: ac_simps)
    obtain m1 where m1: "vsprintf_directive s c ap (word_of_nat (length out)) m =
        Some (ap + fmt_advance f, word_of_nat (length (out @ fmt_out f)), m1)" "printed s N m0 (out @ fmt_out f) m1"
      "fmt_args (in_region s N) m0 (ap + fmt_advance f) fs"
      using vsprintf_directive_spec[OF Cons.prems(1,2) _ c _ Cons.prems(8)] Cons.prems(3,7) by auto
    have "\<exists>m'. vsprintf_loop s format (ap + fmt_advance f) (word_of_nat (length (pre @ [0x25, c]))) (word_of_nat (length (out @ fmt_out f))) m1 =
        Some (word_of_nat (length ((out @ fmt_out f) @ concat (map fmt_out fs))), m') \<and> printed s N m0 ((out @ fmt_out f) @ concat (map fmt_out fs)) m'"
      using Cons.prems(3-8) c by (intro Cons.IH[OF m1(2,3)]) simp_all
    then show ?thesis
      using strlen_cstr[OF all] i ch m1(1) by (subst step) (simp add: ac_simps)
  next
    case False
    then obtain c where f: "f = FLit c"
      by (cases f) auto
    have ch: "m (format + word_of_nat (length pre)) = c" "c \<noteq> 0" "c \<noteq> 0x25"
      using char[of 0] f Cons.prems(3) by simp_all
    have p1: "printed s N m0 (out @ [c]) (m(s + word_of_nat (length out) := c))"
      using Cons.prems(7,8) f by (intro printed_char[OF Cons.prems(1) ch(2)]) simp_all
    have "\<exists>m'. vsprintf_loop s format ap (word_of_nat (length (pre @ [c]))) (word_of_nat (length (out @ [c]))) (m(s + word_of_nat (length out) := c)) =
        Some (word_of_nat (length ((out @ [c]) @ concat (map fmt_out fs))), m') \<and> printed s N m0 ((out @ [c]) @ concat (map fmt_out fs)) m'"
      using Cons.prems(2-8) f by (intro Cons.IH[OF p1]) simp_all
    then show ?thesis
      using strlen_cstr[OF all] i ch f by (subst step) (simp add: ac_simps)
  qed
qed

text \<open>
  Formatted output prints what its format says: for a format made of literal characters and the directives
  \<^verbatim>\<open>%x %d %s %c\<close> whose arguments are in the argument words, \<^verbatim>\<open>vsprintf\<close> returns, leaves at the destination
  the concatenation of the literal characters, the hexadecimal and decimal texts of the numbers and the strings,
  zero-terminated, returns its length and changes no byte outside it, provided the destination overlaps none of its inputs.
\<close>

theorem vsprintf_correct:
  assumes "cstr m format (concat (map fmt_src fs))" "\<forall>f \<in> set fs. fmt_ok f"
    and "N = Suc (length (concat (map fmt_out fs)))" "N \<le> 2 ^ 32" "length (concat (map fmt_src fs)) < 2 ^ 32"
    and "disjoint_regions format (Suc (length (concat (map fmt_src fs)))) s N" "fmt_args (in_region s N) m args fs"
  shows "\<exists>m'. vsprintf s format args m = Some (word_of_nat (length (concat (map fmt_out fs))), m') \<and>
    cstr m' s (concat (map fmt_out fs)) \<and> (\<forall>a. \<not> in_region s N a \<longrightarrow> m' a = m a)"
proof -
  let ?out = "concat (map fmt_out fs)"
  have "printed s N m [] m"
    by (simp add: printed_def bytes_at_def)
  from vsprintf_loop_spec[OF this assms(7,2), of format "[]"] obtain m1 where
    m1: "vsprintf_loop s format args 0 0 m = Some (word_of_nat (length ?out), m1)" "printed s N m ?out m1"
    using assms(1,3-6) by (auto simp: disjoint_regions_def)
  let ?m2 = "m1(s + word_of_nat (length ?out) := 0)"
  have e: "\<not> in_region s (length ?out) (s + word_of_nat (length ?out))" "in_region s N (s + word_of_nat (length ?out))"
    using assms(3,4) in_region_nth[of "length ?out" N s] by (auto simp: in_region_def unat_nat32)
  have "bytes_at ?m2 s ?out"
    by (rule bytes_at_frame[of m1]) (use m1(2) e assms(3,4) in \<open>auto simp: printed_def\<close>)
  then have c: "cstr ?m2 s ?out"
    using m1(2) by (simp add: cstr_bytes bytes_at_append bytes_at_Cons printed_def) (simp add: bytes_at_def)
  show ?thesis
    using m1 e(2) strlen_cstr[OF c] c by (auto simp: vsprintf_def Let_def printed_def)
qed

definition fmt_example :: bmem where
  "fmt_example = (\<lambda>_. 0)(0x100 := 0x25, 0x101 := 0x64, 0x102 := 0x21, 0x204 := 42)"

lemma all_less_4: "(\<forall>i < 4. P i) \<longleftrightarrow> P (0 :: nat) \<and> P 1 \<and> P 2 \<and> P 3"
  by (auto simp: numeral_eq_Suc less_Suc_eq)

lemma num_text_42: "num_text 10 42 = [0x34, 0x32]"
  by (simp add: num_text_def rdigits.simps digit_char_def)

theorem vsprintf_correct_witness:
  "\<exists>m'. vsprintf 0x300 0x100 0x200 fmt_example = Some (3, m') \<and> cstr m' 0x300 [0x34, 0x32, 0x21]"
proof -
  have "\<not> (unat (x + 0x200) < 4 \<and> unat x < 4)" for x :: u32
    by (auto simp: unat_word_ariths)
  then have "\<not> (unat (a - 0x300 + 0x200) < 4 \<and> unat (a - 0x300) < 4)" for a :: u32 .
  then have d: "disjoint_regions 0x100 4 0x300 4"
    by (auto simp: disjoint_regions_def in_region_def)
  have a: "fmt_args (in_region 0x300 4) fmt_example 0x200 [FDec 42, FLit 0x21]"
    by (simp add: word_at_def all_less_4 rd32_def fmt_example_def in_region_def)
  have c: "cstr fmt_example 0x100 (concat (map fmt_src [FDec 42, FLit 0x21]))"
    by (simp add: fmt_example_def)
  have out: "concat (map fmt_out [FDec 42, FLit 0x21]) = [0x34, 0x32, 0x21]"
    by (simp add: num_text_42)
  have l: "length (concat (map fmt_src [FDec 42, FLit 0x21])) = 3"
    by simp
  have n: "4 = Suc (length [0x34, 0x32, 0x21 :: u8])" "(4 :: nat) \<le> 2 ^ 32" "3 < (2 :: nat) ^ 32" "Suc 3 = 4"
    "length [0x34, 0x32, 0x21 :: u8] = 3"
    by simp_all
  have ok: "\<forall>f \<in> set [FDec 42, FLit 0x21]. fmt_ok f"
    by simp
  from vsprintf_correct[OF c ok, of 4 "0x300" "0x200", unfolded out l n(4), OF n(1-3) d a] show ?thesis
    unfolding n(5) by (simp only: of_nat_numeral) blast
qed

subsection \<open>Reading numbers back\<close>

lemma s_to_uint_loop_cstr:
  assumes "cstr m v (pre @ t)" "length (pre @ t) < 2 ^ 32"
  shows "s_to_uint_loop v (word_of_nat (length pre)) x m = Some (foldl digit_value x t)"
  using assms
proof (induction t arbitrary: pre x)
  case Nil
  then show ?case by (subst s_to_uint_loop.simps) (simp add: strlen_cstr)
next
  case (Cons c t)
  have "word_of_nat (length pre) < (word_of_nat (length (pre @ c # t)) :: u32)"
    using Cons.prems(2) by (simp add: word_less_nat_alt unat_nat32 del: of_nat_add of_nat_Suc)
  moreover have "m (v + word_of_nat (length pre)) = c"
    using cstr_nth[OF Cons.prems(1), of "length pre"] by simp
  ultimately show ?case
    using Cons.IH[of "pre @ [c]" "digit_value x c"] Cons.prems strlen_cstr[OF Cons.prems(1)]
    by (subst s_to_uint_loop.simps) (simp add: ac_simps)
qed

lemma digit_value_decimal:
  assumes "d < 10"
  shows "digit_value x (digit_char (word_of_nat d)) = x * 10 + word_of_nat d"
proof -
  have "d \<in> {0, 1, 2, 3, 4, 5, 6, 7, 8, 9}"
    using assms by auto
  then show ?thesis
    by (auto simp: digit_value_def digit_char_def word_sle_eq)
qed

lemma decimal_value: "foldl digit_value 0 (num_text 10 n) = word_of_nat n"
proof -
  have "foldr (\<lambda>c x. digit_value x c) (map (\<lambda>d. digit_char (word_of_nat d)) (rdigits 10 n)) 0 = word_of_nat n"
  proof (induction n rule: less_induct)
    case (less n)
    show ?case
    proof (cases "n = 0")
      case False
      have "word_of_nat (n div 10) * 10 + word_of_nat (n mod 10) = (word_of_nat (n div 10 * 10 + n mod 10) :: u32)"
        by (simp only: of_nat_add of_nat_mult of_nat_numeral)
      then show ?thesis
        using less[of "n div 10"] False by (simp add: rdigits_step digit_value_decimal del: of_nat_add)
    qed simp
  qed
  then show ?thesis
    using digit_value_decimal[of 0 0] by (simp add: num_text_def foldl_conv_foldr rev_map)
qed

lemma put_uint_digits_spec:
  assumes "2 \<le> unat b" "len + length (rdigits (unat b) (unat x)) \<le> length s"
  shows "put_uint_digits x b len s = Some (Inr (len + length (rdigits (unat b) (unat x)),
    take len s @ map (\<lambda>d. digit_char (word_of_nat d)) (rdigits (unat b) (unat x)) @ drop (len + length (rdigits (unat b) (unat x))) s))"
  using assms(2)
proof (induction "unat x" arbitrary: x len s rule: less_induct)
  case less
  show ?case
  proof (cases "x = 0")
    case True
    then show ?thesis by (simp add: put_uint_digits.simps)
  next
    case False
    then have x: "0 < unat x" and b: "b \<noteq> 0"
      using assms(1) by (auto simp: unat_gt_0)
    let ?rest = "rdigits (unat b) (unat x div unat b)"
    have d: "unat (x div b) = unat x div unat b" "x mod b = word_of_nat (unat x mod unat b)"
      by (simp_all add: unat_div unat_mod word_unat_eq_iff flip: unat_mod)
    have r: "rdigits (unat b) (unat x) = unat x mod unat b # ?rest"
      using x assms(1) by (simp add: rdigits_step)
    have lt: "unat (x div b) < unat x" "len < length s"
      using x assms(1) less.prems by (simp_all add: unat_div r)
    let ?s = "s[len := digit_char (x mod b)]"
    have "put_uint_digits x b len s = put_uint_digits (x div b) b (Suc len) ?s"
      using False b lt(2) by (subst put_uint_digits.simps) simp
    also have "\<dots> = Some (Inr (Suc len + length ?rest, take (Suc len) ?s @ map (\<lambda>d. digit_char (word_of_nat d)) ?rest @ drop (Suc len + length ?rest) ?s))"
      using less.hyps[OF lt(1), of "Suc len" ?s] less.prems by (simp add: d r)
    finally show ?thesis
      using lt(2) by (simp add: r d(2) take_Suc_conv_app_nth del: of_nat_mod)
  qed
qed

lemma put_uint_spec:
  assumes b: "2 \<le> unat b" "unat b \<le> 37" and l: "length (num_text (unat b) (unat x)) < 20"
  shows "put_uint x b = Some (Inr (num_text (unat b) (unat x)))"
proof -
  let ?ds = "if x = 0 then [0x30] else map (\<lambda>d. digit_char (word_of_nat d)) (rdigits (unat b) (unat x))"
  let ?n = "length ?ds"
  have rev: "rev ?ds = num_text (unat b) (unat x)"
    by (simp add: num_text_def rev_map digit_char_def unat_gt_0)
  then have n: "?n < 20"
    using l by (metis length_rev)
  have "put_uint x b = Some (andthen (wr (?ds @ replicate (20 - ?n) 0) ?n 0) (\<lambda>s.
      Inr (takeWhile (\<lambda>c. c \<noteq> 0) (put_uint_reverse 0 ?n s))))"
  proof (cases "x = 0")
    case True
    have "(replicate 20 0)[0 := 0x30 :: u8] = 0x30 # replicate 19 0"
      by (simp add: numeral_eq_Suc)
    then show ?thesis
      using True by (simp add: put_uint_def put_uint_digits.simps)
  next
    case False
    then have "length (rdigits (unat b) (unat x)) \<le> 20"
      using n by simp
    then show ?thesis
      using put_uint_digits_spec[OF b(1), of 0 x "replicate 20 0"] False by (simp add: put_uint_def)
  qed
  also have "wr (?ds @ replicate (20 - ?n) 0) ?n 0 = Inr (?ds @ replicate (20 - ?n) 0)"
    using n list_update_same_conv[of 0 "replicate k 0" 0 for k] by (cases "20 - ?n") (auto simp: wr_def list_update_append)
  finally have "put_uint x b = Some (Inr (takeWhile (\<lambda>c. c \<noteq> 0) (put_uint_reverse 0 ?n (?ds @ replicate (20 - ?n) 0))))"
    by (simp only: andthen_simps)
  moreover have "put_uint_reverse 0 ?n (?ds @ replicate (20 - ?n) 0) = num_text (unat b) (unat x) @ replicate (20 - ?n) 0"
    by (simp add: put_uint_reverse_rev flip: rev)
  moreover have "takeWhile (\<lambda>c. c \<noteq> 0) (num_text (unat b) (unat x) @ replicate (20 - ?n) 0) = num_text (unat b) (unat x)"
    using num_text_nonzero[OF b, of "unat x"] n by (subst takeWhile_append2) (auto simp: Suc_diff_Suc)
  ultimately show ?thesis by (simp only:)
qed

text \<open>
  Numbers survive printing and reading: the decimal text \<^verbatim>\<open>itoa\<close> writes for any 32-bit number is read back by
  \<^verbatim>\<open>s_to_uint\<close> as the same number, \<^verbatim>\<open>itoa\<close> changes nothing behind the terminator, and the kernel's
  \<^verbatim>\<open>put_uint\<close> prints the same text, within its buffer of 20 bytes.
\<close>

theorem itoa_s_to_uint_roundtrip:
  "\<exists>m'. itoa s x 10 m = Some m' \<and> s_to_uint s m' = Some x \<and> cstr m' s (num_text 10 (unat x)) \<and>
    put_uint x 10 = Some (Inr (num_text 10 (unat x))) \<and> length (num_text 10 (unat x)) \<le> 10"
proof -
  have b: "2 \<le> unat (10 :: u32)" "unat (10 :: u32) \<le> 37" "unat (10 :: u32) = 10"
    by simp_all
  have l: "length (num_text 10 (unat x)) \<le> 10"
    using rdigits_length[of 10 "unat x" 10] unat_u32_lt[of x] by (simp add: num_text_def)
  obtain m' where m': "itoa s x 10 m = Some m'" "cstr m' s (num_text 10 (unat x))"
    using itoa_spec[OF b(1,2)] unfolding b(3) by blast
  have "s_to_uint s m' = Some x"
    using s_to_uint_loop_cstr[of m' s "[]" "num_text 10 (unat x)" 0] m'(2) l by (simp add: s_to_uint_def decimal_value)
  moreover have "put_uint x 10 = Some (Inr (num_text 10 (unat x)))"
    using put_uint_spec[OF b(1,2), of x] l unfolding b(3) by simp
  ultimately show ?thesis
    using m' l by blast
qed

end
