(* ===== verification/Fspath.thy ===== *)
theory Fspath
  imports Cstring
begin

text \<open>
  The strings of the file system: paths (\<^verbatim>\<open>src/filesystem/fsfunc.c\<close>) and the 11-character names of directory entries
  (\<^verbatim>\<open>generate_filename\<close> of \<^verbatim>\<open>src/filesystem/file.c\<close>). They live in local character arrays of fixed size, which are lists
  here, so that an access outside of an array is a fault.
\<close>

subsection \<open>Strings in arrays\<close>

text \<open>The loop \<^verbatim>\<open>for (k = 0; k < n; k++) dst[di + k] = src[si + k]\<close>.\<close>

fun copy_bytes :: "nat \<Rightarrow> nat \<Rightarrow> u8 list \<Rightarrow> nat \<Rightarrow> u8 list \<Rightarrow> u8 list res" where
  "copy_bytes 0 di dst si src = Inr dst"
| "copy_bytes (Suc n) di dst si src =
     andthen (rd src si) (\<lambda>c. andthen (wr dst di c) (\<lambda>dst. copy_bytes n (Suc di) dst (Suc si) src))"

text \<open>The loop \<^verbatim>\<open>while (pos < stop) dst[pos++] = v\<close> for \<open>n\<close> rounds.\<close>

fun fill_bytes :: "nat \<Rightarrow> nat \<Rightarrow> u8 \<Rightarrow> u8 list \<Rightarrow> u8 list res" where
  "fill_bytes 0 pos v dst = Inr dst"
| "fill_bytes (Suc n) pos v dst = andthen (wr dst pos v) (fill_bytes n (Suc pos) v)"

text \<open>
  What the string functions of \<^verbatim>\<open>src/lib/string.c\<close> do when their arguments are arrays: the string in an array ends before
  its first zero, and an array without one, or a copy that does not fit, is an access outside of the array.
  \<open>Cstring\<close> shows the same results for the functions on the byte memory.
\<close>

definition str_of :: "u8 list \<Rightarrow> u8 list res" where
  "str_of b = (if 0 \<in> set b then Inr (takeWhile (\<lambda>c. c \<noteq> 0) b) else Inl OutOfBounds)"

definition put_str :: "nat \<Rightarrow> u8 list \<Rightarrow> u8 list \<Rightarrow> u8 list res" where
  "put_str pos t dst =
     (if pos + length t < length dst then Inr (take pos dst @ t @ [0] @ drop (pos + length t + 1) dst) else Inl OutOfBounds)"

definition arr_strcpy :: "u8 list \<Rightarrow> u8 list \<Rightarrow> u8 list res" where
  "arr_strcpy dst src = andthen (str_of src) (\<lambda>t. put_str 0 t dst)"

definition arr_strcat :: "u8 list \<Rightarrow> u8 list \<Rightarrow> u8 list res" where
  "arr_strcat dst src = andthen (str_of dst) (\<lambda>s. andthen (str_of src) (\<lambda>t. put_str (length s) t dst))"

definition arr_strcmp :: "u8 list \<Rightarrow> u8 list \<Rightarrow> int res" where
  "arr_strcmp a b = andthen (str_of a) (\<lambda>s. andthen (str_of b) (\<lambda>t. Inr (str_order s t)))"

text \<open>A string literal as the array it is stored in.\<close>

definition lit :: "string \<Rightarrow> u8 list" where
  "lit t = c_string t @ [0]"

subsection \<open>Paths\<close>

definition to_upper :: "u8 \<Rightarrow> u8" where
  "to_upper c = (if 0x61 \<le>s c \<and> c \<le>s 0x7A then c - 0x61 + 0x41 else c)"

text \<open>The loop of \<^verbatim>\<open>standard_dir_path\<close> over the rest of the string; a slash at its end is dropped.\<close>

fun standard_loop :: "u8 list \<Rightarrow> nat \<Rightarrow> u8 list \<Rightarrow> (nat \<times> u8 list) res" where
  "standard_loop [] len s = Inr (len, s)"
| "standard_loop (c # cs) len s =
     (if cs = [] \<and> c = 0x2F then standard_loop cs len s
      else andthen (wr s len (to_upper c)) (\<lambda>s. standard_loop cs (Suc len) s))"

definition standard_dir_path :: "u8 list \<Rightarrow> u8 list \<Rightarrow> u8 list res" where
  "standard_dir_path s dirPath =
     andthen (arr_strcmp dirPath (lit ''/'')) (\<lambda>r.
     if r = 0 then arr_strcpy s dirPath
     else andthen (str_of dirPath) (\<lambda>t. andthen (standard_loop t 0 s) (\<lambda>(len, s). wr s len 0)))"

text \<open>The first loop of \<^verbatim>\<open>divede_path\<close>: copies up to a slash and returns the rest of the string from there.\<close>

fun divide_loop :: "u8 list \<Rightarrow> nat \<Rightarrow> u8 list \<Rightarrow> (u8 list \<times> nat \<times> u8 list) res" where
  "divide_loop [] len fs1 = Inr ([], len, fs1)"
| "divide_loop (c # cs) len fs1 =
     (if c = 0x2F then Inr (c # cs, len, fs1) else andthen (wr fs1 len c) (\<lambda>fs1. divide_loop cs (Suc len) fs1))"

definition divede_path :: "u8 list \<Rightarrow> u8 list \<Rightarrow> u8 list \<Rightarrow> (u8 list \<times> u8 list) res" where
  "divede_path dirPath fstDir resPath =
     andthen (str_of dirPath) (\<lambda>t.
     andthen (divide_loop t 0 fstDir) (\<lambda>(rest, fst_len, fstDir).
     let r = drop 1 rest
     in andthen (copy_bytes (length r) 0 resPath 0 r) (\<lambda>resPath.
        andthen (wr fstDir fst_len 0) (\<lambda>fstDir.
        andthen (wr resPath (length r) 0) (\<lambda>resPath. Inr (fstDir, resPath))))))"

text \<open>The position of the last slash among the first \<open>i\<close> characters, by searching downwards; \<open>None\<close> is \<^verbatim>\<open>i == -1\<close>.\<close>

fun last_slash :: "nat \<Rightarrow> u8 list \<Rightarrow> nat option" where
  "last_slash 0 t = None"
| "last_slash (Suc i) t = (if t ! i = 0x2F then Some i else last_slash i t)"

definition slash_len :: "u8 list \<Rightarrow> nat" where
  "slash_len t = (case last_slash (length t) t of None \<Rightarrow> 0 | Some i \<Rightarrow> i)"

definition fa_dir_path :: "u8 list \<Rightarrow> u8 list \<Rightarrow> u8 list res" where
  "fa_dir_path fapath dirPath =
     andthen (str_of dirPath) (\<lambda>t.
     let n = slash_len t
     in andthen (copy_bytes n 0 fapath 0 dirPath) (\<lambda>fapath.
        andthen (if n = 0 then andthen (wr fapath 0 0x2F) (\<lambda>fapath. Inr (1, fapath)) else Inr (n, fapath)) (\<lambda>(len, fapath).
        wr fapath len 0)))"

subsection \<open>Names of directory entries\<close>

text \<open>
  The loop of \<^verbatim>\<open>generate_filename\<close> over the rest of the name: it changes the name itself to upper case and collects
  the characters before and after the first dot.
\<close>

fun name_split :: "u8 list \<Rightarrow> bool \<Rightarrow> nat \<times> u8 list \<Rightarrow> nat \<times> u8 list \<Rightarrow> (u8 list \<times> (nat \<times> u8 list) \<times> (nat \<times> u8 list)) res" where
  "name_split [] dot (fl, fs1) (el, ext) = Inr ([], (fl, fs1), (el, ext))"
| "name_split (c # cs) dot (fl, fs1) (el, ext) =
     (if c = 0x2E then andthen (name_split cs True (fl, fs1) (el, ext)) (\<lambda>(n, r). Inr (c # n, r))
      else if \<not> dot
      then andthen (wr fs1 fl (to_upper c)) (\<lambda>fs1.
             andthen (name_split cs dot (Suc fl, fs1) (el, ext)) (\<lambda>(n, r). Inr (to_upper c # n, r)))
      else andthen (wr ext el (to_upper c)) (\<lambda>ext.
             andthen (name_split cs dot (fl, fs1) (Suc el, ext)) (\<lambda>(n, r). Inr (to_upper c # n, r))))"

text \<open>The result is the name, upper-cased in place, and the array \<^verbatim>\<open>filename\<close>.\<close>

definition generate_filename :: "u8 list \<Rightarrow> u8 list \<Rightarrow> (u8 list \<times> u8 list) res" where
  "generate_filename name filename =
     andthen (arr_strcmp name (lit ''.'')) (\<lambda>r.
     if r = 0 then andthen (arr_strcpy filename (lit ''.          '')) (\<lambda>filename. Inr (name, filename))
     else andthen (arr_strcmp name (lit ''..'')) (\<lambda>r.
       if r = 0 then andthen (arr_strcpy filename (lit ''..         '')) (\<lambda>filename. Inr (name, filename))
       else andthen (str_of name) (\<lambda>t.
         andthen (name_split t False (0, replicate 30 0) (0, replicate 30 0)) (\<lambda>(t', (fst_len, fs1), (ext_len, ext)).
         andthen (copy_bytes (min fst_len 8) 0 filename 0 fs1) (\<lambda>filename.
         andthen (fill_bytes (8 - min fst_len 8) (min fst_len 8) 0x20 filename) (\<lambda>filename.
         andthen (copy_bytes (min ext_len 3) 8 filename 0 ext) (\<lambda>filename.
         andthen (fill_bytes (3 - min ext_len 3) (8 + min ext_len 3) 0x20 filename) (\<lambda>filename.
         andthen (wr filename 11 0) (\<lambda>filename. Inr (t' @ drop (length t') name, filename))))))))))"

text \<open>
  \<^verbatim>\<open>sizeof(dirPath)\<close> is the size of the pointer, 4. The local array \<^verbatim>\<open>s\<close> is not initialised by the code; only the part
  written before is read.
\<close>

definition file_path_to_dir_path :: "u8 list \<Rightarrow> u8 list \<Rightarrow> u8 list \<Rightarrow> (u8 list \<times> u8 list) res" where
  "file_path_to_dir_path filePath dirPath filename =
     andthen (fill_bytes 4 0 0 dirPath) (\<lambda>dirPath.
     andthen (fill_bytes 4 0 0 filename) (\<lambda>filename.
     andthen (str_of filePath) (\<lambda>t.
     let n = slash_len t; r = (case last_slash (length t) t of None \<Rightarrow> t | Some i \<Rightarrow> drop (Suc i) t)
     in andthen (copy_bytes n 0 (replicate 50 0) 0 t) (\<lambda>s.
        andthen (wr s n 0) (\<lambda>s.
        andthen (standard_dir_path dirPath s) (\<lambda>dirPath.
        andthen (copy_bytes (length r) 0 s 0 r) (\<lambda>s.
        andthen (wr s (length r) 0) (\<lambda>s.
        andthen (generate_filename s filename) (\<lambda>(s, filename). Inr (dirPath, filename))))))))))"

lemma copy_bytes_ok:
  "si + n \<le> length src \<Longrightarrow> di + n \<le> length dst \<Longrightarrow>
    copy_bytes n di dst si src = Inr (take di dst @ take n (drop si src) @ drop (di + n) dst)"
proof (induction n arbitrary: di dst si)
  case (Suc n)
  then have "copy_bytes n (Suc di) (dst[di := src ! si]) (Suc si) src =
    Inr (take (Suc di) (dst[di := src ! si]) @ take n (drop (Suc si) src) @ drop (Suc di + n) (dst[di := src ! si]))"
    by simp
  moreover have "take (Suc di) (dst[di := src ! si]) = take di dst @ [src ! si]"
    using Suc.prems by (simp add: take_Suc_conv_app_nth)
  moreover have "take (Suc n) (drop si src) = src ! si # take n (drop (Suc si) src)"
    using Suc.prems by (simp add: Cons_nth_drop_Suc[symmetric])
  ultimately show ?case
    using Suc.prems by simp
qed simp

lemma copy_whole: "length dst = n \<Longrightarrow> si + n \<le> length src \<Longrightarrow> copy_bytes n 0 dst si src = Inr (take n (drop si src))"
  by (simp add: copy_bytes_ok)

subsection \<open>What the string operations compute\<close>

lemma str_of_eq: "str_of b = Inr t \<longleftrightarrow> 0 \<notin> set t \<and> (\<exists>r. b = t @ 0 # r)"
proof
  assume "str_of b = Inr t"
  then have t: "0 \<in> set b" "t = takeWhile (\<lambda>c. c \<noteq> 0) b"
    by (simp_all add: str_of_def split: if_splits)
  then obtain xs ys where b: "b = xs @ 0 # ys" "0 \<notin> set xs"
    by (metis split_list_first)
  then have "t = xs"
    using t(2) by (auto simp: takeWhile_tail takeWhile_eq_all_conv)
  then show "0 \<notin> set t \<and> (\<exists>r. b = t @ 0 # r)"
    using b by blast
next
  assume "0 \<notin> set t \<and> (\<exists>r. b = t @ 0 # r)"
  then show "str_of b = Inr t"
    by (auto simp: str_of_def takeWhile_tail)
qed

lemma str_of_mk [simp]: "0 \<notin> set t \<Longrightarrow> str_of (t @ 0 # r) = Inr t"
  by (simp add: str_of_eq)

lemma str_of_bounds: "str_of b = Inr t \<Longrightarrow> length t < length b \<and> 0 \<notin> set t \<and> take (length t) b = t"
  by (auto simp: str_of_eq)

lemma str_of_lit [simp]: "0 \<notin> set (c_string t) \<Longrightarrow> str_of (lit t) = Inr (c_string t)"
  by (simp add: str_of_eq lit_def)

lemma arr_strcmp_eq: "str_of a = Inr s \<Longrightarrow> str_of b = Inr t \<Longrightarrow> \<exists>r. arr_strcmp a b = Inr r \<and> (r = 0 \<longleftrightarrow> s = t)"
  using str_order_0_iff[of s t] by (auto simp: arr_strcmp_def dest: str_of_bounds)

text \<open>Writing the terminator after the first \<open>n\<close> bytes of an array.\<close>

lemma str_of_terminated:
  "length t < length b \<Longrightarrow> take (length t) b = t \<Longrightarrow> 0 \<notin> set t \<Longrightarrow> wr b (length t) 0 = Inr (t @ 0 # drop (Suc (length t)) b)"
  by (simp add: upd_conv_take_nth_drop)

lemma put_str_ok:
  assumes "str_of b = Inr s" "0 \<notin> set t" "length s + length t < length b"
  shows "put_str (length s) t b = Inr ((s @ t) @ 0 # drop (length s + length t + 1) b)"
  using assms str_of_bounds[OF assms(1)] by (simp add: put_str_def)

lemma arr_strcpy_ok:
  assumes "str_of src = Inr t" "length t < length dst"
  shows "\<exists>d. arr_strcpy dst src = Inr d \<and> str_of d = Inr t \<and> length d = length dst"
  using assms str_of_bounds[OF assms(1)] by (simp add: arr_strcpy_def put_str_def)

lemma arr_strcat_ok:
  assumes "str_of dst = Inr s" "str_of src = Inr t" "length s + length t < length dst"
  shows "\<exists>d. arr_strcat dst src = Inr d \<and> str_of d = Inr (s @ t) \<and> length d = length dst"
  using assms str_of_bounds[OF assms(1)] str_of_bounds[OF assms(2)] put_str_ok[OF assms(1) _ assms(3)] str_of_mk[of "s @ t"]
  by (simp add: arr_strcat_def del: str_of_mk)

lemma fill_bytes_ok: "pos + n \<le> length dst \<Longrightarrow> fill_bytes n pos v dst = Inr (take pos dst @ replicate n v @ drop (pos + n) dst)"
proof (induction n arbitrary: pos dst)
  case (Suc n)
  then have "fill_bytes n (Suc pos) v (dst[pos := v]) = Inr (take (Suc pos) (dst[pos := v]) @ replicate n v @ drop (Suc pos + n) (dst[pos := v]))"
    by simp
  moreover have "take (Suc pos) (dst[pos := v]) = take pos dst @ [v]"
    using Suc.prems by (simp add: take_Suc_conv_app_nth)
  ultimately show ?case
    using Suc.prems by simp
qed simp

lemma to_upper_unat: "unat (to_upper c) = (if 0x61 \<le> unat c \<and> unat c \<le> 0x7A then unat c - 0x20 else unat c)"
proof -
  have "list_all (\<lambda>i. unat (to_upper (word_of_nat i)) = (if 0x61 \<le> i \<and> i \<le> 0x7A then i - 0x20 else i)) [0..<256]"
    by code_simp
  then show ?thesis
    using unat_u8_lt[of c] by (auto simp: list_all_iff dest!: bspec[of "{0..<256}" _ "unat c"])
qed

lemma to_upper_props: "to_upper c = 0 \<longleftrightarrow> c = 0" "to_upper c = 0x2F \<longleftrightarrow> c = 0x2F" "to_upper c = 0x2E \<longleftrightarrow> c = 0x2E" "to_upper (to_upper c) = to_upper c"
  by (auto simp: word_unat_eq_iff to_upper_unat)

text \<open>The normal form of a path: upper case, without a slash at its end.\<close>

definition strip_slash :: "u8 list \<Rightarrow> u8 list" where
  "strip_slash t = (if t \<noteq> [] \<and> last t = 0x2F then butlast t else t)"

definition std_path :: "u8 list \<Rightarrow> u8 list" where
  "std_path t = (if t = [0x2F] then t else map to_upper (strip_slash t))"

lemma standard_loop_ok:
  "len + length t \<le> length s \<Longrightarrow> standard_loop t len s = Inr (len + length (strip_slash t),
    take len s @ map to_upper (strip_slash t) @ drop (len + length (strip_slash t)) s)"
proof (induction t arbitrary: len s)
  case Nil
  then show ?case by (simp add: strip_slash_def)
next
  case (Cons c cs)
  have "take (Suc len) (s[len := to_upper c]) = take len s @ [to_upper c]"
    using Cons.prems by (simp add: take_Suc_conv_app_nth)
  moreover have "strip_slash (c # cs) = (if cs = [] \<and> c = 0x2F then [] else c # strip_slash cs)"
    by (simp add: strip_slash_def)
  ultimately show ?case
    using Cons.IH[of "Suc len" "s[len := to_upper c]"] Cons.prems by (auto simp: strip_slash_def)
qed

lemma c_string_slash [simp]: "c_string ''/'' = [0x2F]" "c_string ''.'' = [0x2E]" "c_string ''..'' = [0x2E, 0x2E]"
  by (simp_all add: c_string_def c_char_def)

lemma standard_dir_path_ok:
  assumes t: "str_of p = Inr t" "length t < length s"
  shows "\<exists>s'. standard_dir_path s p = Inr s' \<and> str_of s' = Inr (std_path t) \<and> length s' = length s"
proof -
  obtain r where r: "arr_strcmp p (lit ''/'') = Inr r" "r = 0 \<longleftrightarrow> t = [0x2F]"
    using arr_strcmp_eq[OF t(1), of "lit ''/''" "[0x2F]"] by auto
  show ?thesis
  proof (cases "t = [0x2F]")
    case True
    then show ?thesis
      using r arr_strcpy_ok[OF t] by (simp add: standard_dir_path_def std_path_def)
  next
    case False
    let ?u = "map to_upper (strip_slash t)"
    let ?s = "?u @ drop (length ?u) s"
    have l: "length (strip_slash t) \<le> length t"
      by (simp add: strip_slash_def)
    have "set (strip_slash t) \<subseteq> set t"
      by (auto simp: strip_slash_def dest: in_set_butlastD)
    then have z: "0 \<notin> set ?u"
      using str_of_bounds[OF t(1)] to_upper_props(1) by force
    have "wr ?s (length ?u) 0 = Inr (?u @ 0 # drop (Suc (length ?u)) ?s)"
      using str_of_terminated[of ?u ?s] z l t(2) by simp
    moreover have "str_of (?u @ 0 # drop (Suc (length ?u)) ?s) = Inr ?u"
      using z by (auto simp: str_of_eq)
    ultimately show ?thesis
      using r False t standard_loop_ok[of 0 t s] l by (simp add: standard_dir_path_def std_path_def)
  qed
qed

lemma divide_loop_ok:
  "len + length (takeWhile (\<lambda>c. c \<noteq> 0x2F) t) \<le> length f \<Longrightarrow> divide_loop t len f = Inr (dropWhile (\<lambda>c. c \<noteq> 0x2F) t,
    len + length (takeWhile (\<lambda>c. c \<noteq> 0x2F) t), take len f @ takeWhile (\<lambda>c. c \<noteq> 0x2F) t @ drop (len + length (takeWhile (\<lambda>c. c \<noteq> 0x2F) t)) f)"
proof (induction t arbitrary: len f)
  case (Cons c cs)
  show ?case
  proof (cases "c = 0x2F")
    case False
    then have "take (Suc len) (f[len := c]) = take len f @ [c]"
      using Cons.prems by (simp add: take_Suc_conv_app_nth)
    then show ?thesis
      using Cons.IH[of "Suc len" "f[len := c]"] Cons.prems False by simp
  qed simp
qed simp

text \<open>A path is its first component and the rest behind the slash.\<close>

definition path_head :: "u8 list \<Rightarrow> u8 list" where
  "path_head t = takeWhile (\<lambda>c. c \<noteq> 0x2F) t"

definition path_tail :: "u8 list \<Rightarrow> u8 list" where
  "path_tail t = drop 1 (dropWhile (\<lambda>c. c \<noteq> 0x2F) t)"

lemma divede_path_ok:
  assumes t: "str_of p = Inr t" "length t < length f" "length t < length r"
  shows "\<exists>f' r'. divede_path p f r = Inr (f', r') \<and> str_of f' = Inr (path_head t) \<and> str_of r' = Inr (path_tail t) \<and>
    length f' = length f \<and> length r' = length r"
proof -
  have le: "length (path_head t) \<le> length t" "length (path_tail t) \<le> length t"
    using length_takeWhile_le[of "\<lambda>c. c \<noteq> 0x2F" t] length_dropWhile_le[of "\<lambda>c. c \<noteq> 0x2F" t] by (simp_all add: path_head_def path_tail_def)
  have z: "0 \<notin> set (path_head t)" "0 \<notin> set (path_tail t)"
    using str_of_bounds[OF t(1)] by (auto simp: path_head_def path_tail_def dest: set_takeWhileD set_dropWhileD in_set_dropD)
  let ?f = "path_head t @ drop (length (path_head t)) f" and ?r = "path_tail t @ drop (length (path_tail t)) r"
  have "divide_loop t 0 f = Inr (dropWhile (\<lambda>c. c \<noteq> 0x2F) t, length (path_head t), ?f)"
    using divide_loop_ok[of 0 t f] le t by (simp add: path_head_def)
  moreover have "copy_bytes (length (path_tail t)) 0 r 0 (path_tail t) = Inr ?r"
    using copy_bytes_ok[of 0 "length (path_tail t)" "path_tail t" 0 r] le t by simp
  moreover have "wr ?f (length (path_head t)) 0 = Inr (path_head t @ 0 # drop (Suc (length (path_head t))) ?f)"
    "wr ?r (length (path_tail t)) 0 = Inr (path_tail t @ 0 # drop (Suc (length (path_tail t))) ?r)"
    using str_of_terminated[of "path_head t" ?f] str_of_terminated[of "path_tail t" ?r] z le t by simp_all
  ultimately show ?thesis
    using t(1) z le t(2,3) by (simp add: divede_path_def path_tail_def[symmetric] Let_def del: One_nat_def length_drop) auto
qed

lemma last_slash_Some: "last_slash n t = Some i \<Longrightarrow> i < n \<and> t ! i = 0x2F"
  by (induction n) (auto split: if_splits)

lemma slash_len_le: "slash_len t \<le> length t"
  using last_slash_Some[of "length t" t] by (force simp: slash_len_def split: option.splits)

text \<open>The parent of a path: what stands before its last slash, or the root.\<close>

definition parent_path :: "u8 list \<Rightarrow> u8 list" where
  "parent_path t = (if slash_len t = 0 then [0x2F] else take (slash_len t) t)"

lemma fa_dir_path_ok:
  assumes t: "str_of p = Inr t" and l: "2 \<le> length p"
  shows "\<exists>p'. fa_dir_path p p = Inr p' \<and> str_of p' = Inr (parent_path t) \<and> length p' = length p"
proof -
  let ?n = "slash_len t"
  have n: "?n < length p" "0 \<notin> set t" "take ?n p = take ?n t"
    using str_of_bounds[OF t] slash_len_le[of t] take_take[of ?n "length t" p] by (auto simp: min_def)
  have cp: "copy_bytes ?n 0 p 0 p = Inr p"
    using copy_bytes_ok[of 0 ?n p 0 p] n(1) by simp
  show ?thesis
  proof (cases "?n = 0")
    case True
    obtain x y zs where "p = x # y # zs"
      using l by (cases p rule: remdups_adj.cases) auto
    then show ?thesis
      using cp True t str_of_mk[of "[0x2F]" zs] by (simp add: fa_dir_path_def Let_def parent_path_def)
  next
    case False
    have "0 \<notin> set (take ?n t)" "length (take ?n t) = ?n"
      using n slash_len_le[of t] by (auto dest: in_set_takeD)
    then have "wr p ?n 0 = Inr (take ?n t @ 0 # drop (Suc ?n) p)" "str_of (take ?n t @ 0 # drop (Suc ?n) p) = Inr (take ?n t)"
      using str_of_terminated[of "take ?n t" p] n by simp_all
    then show ?thesis
      using cp False t n(1) slash_len_le[of t] by (auto simp: fa_dir_path_def Let_def parent_path_def)
  qed
qed

text \<open>The 8.3 name of an entry: base name and extension in upper case, cut and padded with spaces.\<close>

definition name_base :: "u8 list \<Rightarrow> u8 list" where
  "name_base t = map to_upper (takeWhile (\<lambda>c. c \<noteq> 0x2E) t)"

definition name_ext :: "u8 list \<Rightarrow> u8 list" where
  "name_ext t = map to_upper (filter (\<lambda>c. c \<noteq> 0x2E) (dropWhile (\<lambda>c. c \<noteq> 0x2E) t))"

definition padded :: "nat \<Rightarrow> u8 list \<Rightarrow> u8 list" where
  "padded n t = take n t @ replicate (n - length t) 0x20"

definition name83 :: "u8 list \<Rightarrow> u8 list" where
  "name83 t = (if t = [0x2E] then padded 11 t else if t = [0x2E, 0x2E] then padded 11 t else padded 8 (name_base t) @ padded 3 (name_ext t))"

lemma padded_length [simp]: "length (padded n t) = n"
  by (simp add: padded_def)

lemma name83_length [simp]: "length (name83 t) = 11"
  by (simp add: name83_def)

definition upcase :: "u8 list \<Rightarrow> u8 list" where
  "upcase = map to_upper"

lemma upcase_cons: "to_upper c # upcase cs = upcase (c # cs)" "c = 0x2E \<Longrightarrow> c # upcase cs = upcase (c # cs)"
  by (simp_all add: upcase_def to_upper_props)

lemma name_split_ext:
  assumes "take el ext = e" "length e = el" "el + length (filter (\<lambda>c. c \<noteq> 0x2E) t) \<le> length ext"
  shows "\<exists>ext'. name_split t True F (el, ext) = Inr (upcase t, F, (el + length (filter (\<lambda>c. c \<noteq> 0x2E) t), ext')) \<and>
    take (el + length (filter (\<lambda>c. c \<noteq> 0x2E) t)) ext' = e @ upcase (filter (\<lambda>c. c \<noteq> 0x2E) t) \<and> length ext' = length ext"
  using assms
proof (induction t arbitrary: el ext e)
  case Nil
  then show ?case by (cases F) (simp add: upcase_def)
next
  case (Cons c cs)
  obtain fl f where F: "F = (fl, f)" by fastforce
  show ?case
  proof (cases "c = 0x2E")
    case True
    then show ?thesis
      using Cons.IH[OF Cons.prems(1,2)] Cons.prems(3) F upcase_cons by auto
  next
    case False
    let ?x = "ext[el := to_upper c]"
    have "take (Suc el) ?x = e @ [to_upper c]"
      using Cons.prems False by (simp add: take_Suc_conv_app_nth)
    moreover have "Suc el + length (filter (\<lambda>c. c \<noteq> 0x2E) cs) \<le> length ?x" "el < length ext"
      using Cons.prems(3) False by simp_all
    ultimately obtain ext' where "name_split cs True F (Suc el, ?x) = Inr (upcase cs, F, (Suc el + length (filter (\<lambda>c. c \<noteq> 0x2E) cs), ext'))"
      "take (Suc el + length (filter (\<lambda>c. c \<noteq> 0x2E) cs)) ext' = (e @ [to_upper c]) @ upcase (filter (\<lambda>c. c \<noteq> 0x2E) cs)" "length ext' = length ext"
      using Cons.IH[of "Suc el" ?x "e @ [to_upper c]"] Cons.prems(2) by auto
    then show ?thesis
      using False F \<open>el < length ext\<close> by (simp add: upcase_def)
  qed
qed

lemma name_split_base:
  assumes "take fl f = b" "length b = fl" "fl + length (takeWhile (\<lambda>c. c \<noteq> 0x2E) t) \<le> length f"
    and "length (filter (\<lambda>c. c \<noteq> 0x2E) (dropWhile (\<lambda>c. c \<noteq> 0x2E) t)) \<le> length ext"
  shows "\<exists>f' ext'. name_split t False (fl, f) (0, ext) = Inr (upcase t, (fl + length (name_base t), f'), (length (name_ext t), ext')) \<and>
    take (fl + length (name_base t)) f' = b @ name_base t \<and> take (length (name_ext t)) ext' = name_ext t \<and>
    length f' = length f \<and> length ext' = length ext"
  using assms
proof (induction t arbitrary: fl f b)
  case Nil
  then show ?case by (simp add: upcase_def name_base_def name_ext_def)
next
  case (Cons c cs)
  show ?case
  proof (cases "c = 0x2E")
    case True
    then show ?thesis
      using name_split_ext[of 0 ext "[]" cs "(fl, f)"] Cons.prems upcase_cons by (auto simp: name_base_def name_ext_def upcase_def)
  next
    case False
    let ?f = "f[fl := to_upper c]"
    have "take (Suc fl) ?f = b @ [to_upper c]"
      using Cons.prems False by (simp add: take_Suc_conv_app_nth)
    moreover have "Suc fl + length (takeWhile (\<lambda>c. c \<noteq> 0x2E) cs) \<le> length ?f" "fl < length f"
      "length (filter (\<lambda>c. c \<noteq> 0x2E) (dropWhile (\<lambda>c. c \<noteq> 0x2E) cs)) \<le> length ext"
      using Cons.prems(3,4) False by simp_all
    ultimately obtain f' ext' where "name_split cs False (Suc fl, ?f) (0, ext) = Inr (upcase cs, (Suc fl + length (name_base cs), f'), (length (name_ext cs), ext'))"
      "take (Suc fl + length (name_base cs)) f' = (b @ [to_upper c]) @ name_base cs" "take (length (name_ext cs)) ext' = name_ext cs"
      "length f' = length f" "length ext' = length ext"
      using Cons.IH[of "Suc fl" ?f "b @ [to_upper c]"] Cons.prems(2) by auto
    moreover have "name_base (c # cs) = to_upper c # name_base cs" "name_ext (c # cs) = name_ext cs"
      using False by (simp_all add: name_base_def name_ext_def)
    ultimately show ?thesis
      using False \<open>fl < length f\<close> by (simp add: upcase_def)
  qed
qed

lemma fill_behind: "n \<le> length ys \<Longrightarrow> fill_bytes n (length xs) v (xs @ ys) = Inr (xs @ replicate n v @ drop n ys)"
  by (simp add: fill_bytes_ok)

lemma pad_field:
  assumes "take l src = t" "length t = l" "l \<le> length src" "pos + n \<le> length dst"
  shows "\<exists>d. copy_bytes (min l n) pos dst 0 src = Inr d \<and>
    fill_bytes (n - min l n) (pos + min l n) 0x20 d = Inr (take pos dst @ padded n t @ drop (pos + n) dst)"
proof -
  have "take (min l n) src = take n t"
    using assms(1) take_take[of n l src] by (simp add: min.commute)
  then have "copy_bytes (min l n) pos dst 0 src = Inr (take pos dst @ take n t @ drop (pos + min l n) dst)"
    using copy_bytes_ok[of 0 "min l n" src pos dst] assms by simp
  moreover have len: "length (take pos dst @ take n t) = pos + min l n"
    using assms by simp
  have "fill_bytes (n - min l n) (pos + min l n) 0x20 (take pos dst @ take n t @ drop (pos + min l n) dst) =
      Inr (take pos dst @ padded n t @ drop (pos + n) dst)"
    using fill_behind[of "n - min l n" "drop (pos + min l n) dst" "take pos dst @ take n t" "0x20", unfolded len] assms
    by (cases "l \<le> n") (simp_all add: padded_def add.commute)
  ultimately show ?thesis by blast
qed

lemma padded_nonzero: "0 \<notin> set t \<Longrightarrow> 0 \<notin> set (padded n t)"
  by (auto simp: padded_def dest: in_set_takeD)

lemma upper_nonzero: "0 \<notin> set t \<Longrightarrow> 0 \<notin> set (map to_upper t)"
  using to_upper_props(1) by fastforce

lemma name83_nonzero: "0 \<notin> set t \<Longrightarrow> 0 \<notin> set (name83 t)"
proof -
  assume t: "0 \<notin> set t"
  then have "0 \<notin> set (takeWhile (\<lambda>c. c \<noteq> 0x2E) t)" "0 \<notin> set (filter (\<lambda>c. c \<noteq> 0x2E) (dropWhile (\<lambda>c. c \<noteq> 0x2E) t))"
    by (auto dest: set_takeWhileD set_dropWhileD)
  then have "0 \<notin> set (name_base t)" "0 \<notin> set (name_ext t)"
    unfolding name_base_def name_ext_def using upper_nonzero by blast+
  then show ?thesis
    using t padded_nonzero by (simp add: name83_def)
qed

lemma name83_dots: "name83 [0x2E] = c_string ''.          ''" "name83 [0x2E, 0x2E] = c_string ''..         ''"
  by (simp_all add: name83_def padded_def c_string_def c_char_def eval_nat_numeral)

definition upname :: "u8 list \<Rightarrow> u8 list" where
  "upname t = (if t = [0x2E] \<or> t = [0x2E, 0x2E] then t else upcase t)"

lemma generate_filename_plain:
  assumes t: "str_of name = Inr t" "t \<noteq> [0x2E]" "t \<noteq> [0x2E, 0x2E]" and f: "12 \<le> length filename"
    and l: "length (name_base t) \<le> 30" "length (name_ext t) \<le> 30"
  shows "generate_filename name filename = Inr (upcase t @ drop (length t) name, name83 t @ 0 # drop 12 filename)"
proof -
  obtain r r' where r: "arr_strcmp name (lit ''.'') = Inr r" "r \<noteq> 0" "arr_strcmp name (lit ''..'') = Inr r'" "r' \<noteq> 0"
    using arr_strcmp_eq[OF t(1), of "lit ''.''"] arr_strcmp_eq[OF t(1), of "lit ''..''"] t(2,3) by fastforce
  obtain f' e' where fe: "name_split t False (0, replicate 30 0) (0, replicate 30 0) = Inr (upcase t, (length (name_base t), f'), (length (name_ext t), e'))"
    "take (length (name_base t)) f' = name_base t" "take (length (name_ext t)) e' = name_ext t" "length f' = 30" "length e' = 30"
    using name_split_base[of 0 "replicate 30 0" "[]" t "replicate 30 0"] l by (auto simp: name_base_def name_ext_def)
  let ?A = "padded 8 (name_base t) @ drop 8 filename"
  obtain d where d: "copy_bytes (min (length (name_base t)) 8) 0 filename 0 f' = Inr d"
    "fill_bytes (8 - min (length (name_base t)) 8) (min (length (name_base t)) 8) 0x20 d = Inr ?A"
    using pad_field[OF fe(2) refl, of 0 8 filename] fe(4) l f by auto
  obtain d2 where d2: "copy_bytes (min (length (name_ext t)) 3) 8 ?A 0 e' = Inr d2"
    "fill_bytes (3 - min (length (name_ext t)) 3) (8 + min (length (name_ext t)) 3) 0x20 d2 = Inr (name83 t @ drop 11 filename)"
    using pad_field[OF fe(3) refl, of 8 3 ?A] fe(5) l f t(2,3) by (auto simp: name83_def)
  have "wr (name83 t @ drop 11 filename) 11 0 = Inr (name83 t @ 0 # drop 12 filename)"
    using str_of_terminated[of "name83 t" "name83 t @ drop 11 filename"] f name83_nonzero str_of_bounds[OF t(1)] by simp
  then show ?thesis
    using t(1) r fe(1) d d2 by (simp add: generate_filename_def upcase_def)
qed

lemma generate_filename_ok:
  assumes "str_of name = Inr t" "12 \<le> length filename" "length (name_base t) \<le> 30" "length (name_ext t) \<le> 30"
  shows "\<exists>name' filename'. generate_filename name filename = Inr (name', filename') \<and> str_of filename' = Inr (name83 t) \<and>
    str_of name' = Inr (upname t) \<and> length filename' = length filename \<and> length name' = length name"
proof (cases "t = [0x2E] \<or> t = [0x2E, 0x2E]")
  case True
  obtain r r' where r: "arr_strcmp name (lit ''.'') = Inr r" "r = 0 \<longleftrightarrow> t = [0x2E]" "arr_strcmp name (lit ''..'') = Inr r'" "r' = 0 \<longleftrightarrow> t = [0x2E, 0x2E]"
    using arr_strcmp_eq[OF assms(1), of "lit ''.''"] arr_strcmp_eq[OF assms(1), of "lit ''..''"] by fastforce
  have z: "str_of (lit ''.          '') = Inr (c_string ''.          '')" "str_of (lit ''..         '') = Inr (c_string ''..         '')"
    by (rule str_of_lit; simp add: c_string_def c_char_def)+
  have l: "length (c_string ''.          '') < length filename" "length (c_string ''..         '') < length filename"
    using assms(2) by (simp_all add: c_string_def)
  show ?thesis
    using True r assms(1) arr_strcpy_ok[OF z(1) l(1)] arr_strcpy_ok[OF z(2) l(2)]
    by (auto simp: generate_filename_def name83_dots upname_def)
next
  case False
  obtain rest where n: "name = t @ 0 # rest" "0 \<notin> set t"
    using assms(1) by (auto simp: str_of_eq)
  have "0 \<notin> set (upcase t)" "length (upcase t) = length t"
    using n(2) to_upper_props(1) by (force simp: upcase_def)+
  then show ?thesis
    using generate_filename_plain[OF assms(1) _ _ assms(2-4)] False n name83_nonzero[of t] assms(2) by (simp add: upname_def)
qed

text \<open>
  \<^verbatim>\<open>generate_filename\<close> computes the 8.3 name: for a name whose parts before and after the dot fit its two local arrays of
  30 characters, the array \<^verbatim>\<open>filename\<close> then holds exactly 11 characters, the base name cut or padded with spaces to 8
  and the extension to 3, in upper case, the names of the directory itself and of its parent unchanged; the
  argument is changed to upper case in place.
\<close>

theorem generate_filename_83:
  assumes "str_of name = Inr t" "12 \<le> length filename" "length (name_base t) \<le> 30" "length (name_ext t) \<le> 30"
  shows "\<exists>name' filename'. generate_filename name filename = Inr (name', filename') \<and> str_of filename' = Inr (name83 t) \<and>
    str_of name' = Inr (upname t) \<and> length filename' = length filename \<and> length name' = length name"
  using assms by (rule generate_filename_ok)

theorem generate_filename_83_witness:
  "\<exists>name' filename'. generate_filename (lit ''a.txt'') (replicate 50 0) = Inr (name', filename') \<and> str_of filename' = Inr (c_string ''A       TXT'')"
proof -
  have t: "str_of (lit ''a.txt'') = Inr [0x61, 0x2E, 0x74, 0x78, 0x74]"
    using str_of_lit[of "''a.txt''"] by (simp add: c_string_def c_char_def)
  have "name83 [0x61, 0x2E, 0x74, 0x78, 0x74] = c_string ''A       TXT''" "length (name_base [0x61, 0x2E, 0x74, 0x78, 0x74]) \<le> 30"
    "length (name_ext [0x61, 0x2E, 0x74, 0x78, 0x74]) \<le> 30"
    by code_simp+
  then show ?thesis
    using generate_filename_83[OF t, of "replicate 50 0"] by auto
qed

end
