(* ===== verification/Files.thy ===== *)
theory Files
  imports Disk Stdio Fspath
begin

text \<open>
  The files of the volume in memory (\<^verbatim>\<open>src/filesystem/file.c\<close> with the structures of \<^verbatim>\<open>src/filesystem/common.h\<close>
  and \<^verbatim>\<open>create_dir_entry_in_sector\<close> of \<^verbatim>\<open>src/filesystem/disk.c\<close>): the directory tree is linked through the
  array \<^verbatim>\<open>filelist\<close> and the separate \<^verbatim>\<open>rootfile\<close>; open files and their buffered sectors live in two further
  arrays. A pointer to a file is \<open>FNull\<close>, \<open>FRoot\<close> or an index of \<^verbatim>\<open>filelist\<close>; pointers to the other two arrays are
  optional indices. Loops over cluster chains and sibling lists are runs that may not end.
\<close>

definition MAX_FILE_CNT :: nat where "MAX_FILE_CNT = 100"
definition MAX_NODE_CNT :: nat where "MAX_NODE_CNT = 100"
definition MAX_ACTIVE_CNT :: nat where "MAX_ACTIVE_CNT = 10"

datatype fptr = FNull | FRoot | F nat

record File =
  Filename :: "u8 list"
  Attr :: u8
  Reserved :: "u8 list"
  WrtTime :: u16
  WrtDate :: u16
  FstClus :: u16
  FileSize :: u32
  Fa :: fptr
  FstSon :: fptr
  NextSib :: fptr
  used :: bool

datatype FileOpenType = ReadOnly | WriteOnly | ReadWrite

record AFBLNode =
  n_buff :: "u8 list"
  n_next :: "nat option"
  n_used :: bool

record ActiveFile =
  a_file :: fptr
  a_RefCnt :: u32
  a_Type :: FileOpenType
  a_head :: "nat option"
  a_buffsize :: u32
  a_used :: bool

text \<open>The globals of the file system, with the volume, the characters typed and the characters printed so far.\<close>

record fs =
  vol :: disk
  rootfile :: File
  filelist :: "File list"
  active_cnt :: u32
  activelist :: "ActiveFile list"
  AFBLNodelist :: "AFBLNode list"
  inp :: "u8 list"
  out :: "u8 list"

subsection \<open>Following pointers\<close>

definition fget :: "fptr \<Rightarrow> fs \<Rightarrow> File res" where
  "fget p s = (case p of FNull \<Rightarrow> Inl NullDeref | FRoot \<Rightarrow> Inr (rootfile s) | F i \<Rightarrow> rd (filelist s) i)"

definition fupd :: "fptr \<Rightarrow> (File \<Rightarrow> File) \<Rightarrow> fs \<Rightarrow> fs res" where
  "fupd p f s = (case p of FNull \<Rightarrow> Inl NullDeref | FRoot \<Rightarrow> Inr (s\<lparr>rootfile := f (rootfile s)\<rparr>)
     | F i \<Rightarrow> andthen (rd (filelist s) i) (\<lambda>x. Inr (s\<lparr>filelist := (filelist s)[i := f x]\<rparr>)))"

definition node_get :: "nat option \<Rightarrow> fs \<Rightarrow> AFBLNode res" where
  "node_get p s = (case p of None \<Rightarrow> Inl NullDeref | Some i \<Rightarrow> rd (AFBLNodelist s) i)"

definition node_upd :: "nat option \<Rightarrow> (AFBLNode \<Rightarrow> AFBLNode) \<Rightarrow> fs \<Rightarrow> fs res" where
  "node_upd p f s = (case p of None \<Rightarrow> Inl NullDeref
     | Some i \<Rightarrow> andthen (rd (AFBLNodelist s) i) (\<lambda>x. Inr (s\<lparr>AFBLNodelist := (AFBLNodelist s)[i := f x]\<rparr>)))"

definition ac_get :: "nat option \<Rightarrow> fs \<Rightarrow> ActiveFile res" where
  "ac_get p s = (case p of None \<Rightarrow> Inl NullDeref | Some i \<Rightarrow> rd (activelist s) i)"

definition ac_upd :: "nat option \<Rightarrow> (ActiveFile \<Rightarrow> ActiveFile) \<Rightarrow> fs \<Rightarrow> fs res" where
  "ac_upd p f s = (case p of None \<Rightarrow> Inl NullDeref
     | Some i \<Rightarrow> andthen (rd (activelist s) i) (\<lambda>x. Inr (s\<lparr>activelist := (activelist s)[i := f x]\<rparr>)))"

text \<open>An operation of the volume as an operation of the file system.\<close>

definition on_vol :: "(disk \<Rightarrow> ('a \<times> disk) res) \<Rightarrow> fs \<Rightarrow> ('a \<times> fs) res" where
  "on_vol g s = andthen (g (vol s)) (\<lambda>(x, d). Inr (x, s\<lparr>vol := d\<rparr>))"

definition vol_do :: "(disk \<Rightarrow> disk res) \<Rightarrow> fs \<Rightarrow> fs res" where
  "vol_do g s = andthen (g (vol s)) (\<lambda>d. Inr (s\<lparr>vol := d\<rparr>))"

definition print :: "u8 list \<Rightarrow> fs \<Rightarrow> fs" where
  "print t s = s\<lparr>out := out s @ t\<rparr>"

subsection \<open>File objects\<close>

definition init_new_file :: "fptr \<Rightarrow> fs \<Rightarrow> fs res" where
  "init_new_file file s =
     (if file = FNull then Inr s
      else fupd file (\<lambda>f. f\<lparr>used := True, Filename := replicate 11 0, Fa := FNull, Attr := 0, WrtTime := 0, WrtDate := 0,
        FstClus := 0, FileSize := 0, FstSon := FNull, NextSib := FNull\<rparr>) s)"

definition file_init :: "fs \<Rightarrow> fs res" where
  "file_init s =
     andthen (init_new_file FRoot s) (\<lambda>s.
     Inr (s\<lparr>filelist := map (\<lambda>f. f\<lparr>used := False\<rparr>) (filelist s), active_cnt := 0,
       AFBLNodelist := map (\<lambda>n. n\<lparr>n_used := False\<rparr>) (AFBLNodelist s),
       activelist := map (\<lambda>a. a\<lparr>a_used := False\<rparr>) (activelist s)\<rparr>))"

fun empty_file_from :: "nat \<Rightarrow> nat \<Rightarrow> fs \<Rightarrow> (fptr \<times> fs) res" where
  "empty_file_from 0 i s = Inr (FNull, s)"
| "empty_file_from (Suc n) i s =
     andthen (rd (filelist s) i) (\<lambda>f.
     if \<not> used f then andthen (init_new_file (F i) s) (\<lambda>s. Inr (F i, s)) else empty_file_from n (Suc i) s)"

definition get_empty_file :: "fs \<Rightarrow> (fptr \<times> fs) res" where
  "get_empty_file = empty_file_from MAX_FILE_CNT 0"

definition init_file :: "fptr \<Rightarrow> fptr \<Rightarrow> u8 list \<Rightarrow> u8 \<Rightarrow> u16 \<Rightarrow> u16 \<Rightarrow> u16 \<Rightarrow> u32 \<Rightarrow> fs \<Rightarrow> fs res" where
  "init_file file fa filename attr wrttime wrtdate fstclus filesize s =
     andthen (fget file s) (\<lambda>f.
     andthen (copy_bytes 11 0 (Filename f) 0 filename) (\<lambda>name.
     fupd file (\<lambda>f. f\<lparr>Fa := fa, Filename := name, Attr := attr, WrtTime := wrttime, WrtDate := wrtdate, FstClus := fstclus,
       FileSize := filesize, FstSon := FNull, NextSib := FNull\<rparr>) s))"

definition make_file_from_sector :: "fptr \<Rightarrow> u8 list \<Rightarrow> nat \<Rightarrow> fs \<Rightarrow> (fptr \<times> fs) res" where
  "make_file_from_sector fa buff st s =
     andthen (get_empty_file s) (\<lambda>(file, s).
     if file = FNull then Inr (FNull, s)
     else andthen (fget file s) (\<lambda>f.
       andthen (copy_bytes 11 0 (Filename f) st buff) (\<lambda>name.
       andthen (rd buff (st + 11)) (\<lambda>attr.
       andthen (copy_bytes 10 0 (Reserved f) (st + 12) buff) (\<lambda>res.
       andthen (get_u16 buff (st + 22)) (\<lambda>tm.
       andthen (get_u16 buff (st + 24)) (\<lambda>dt.
       andthen (get_u16 buff (st + 26)) (\<lambda>cl.
       andthen (get_u32 buff (st + 28)) (\<lambda>sz.
       andthen (fupd file (\<lambda>f. f\<lparr>Fa := fa, Filename := name, Attr := attr, Reserved := res, WrtTime := tm, WrtDate := dt,
         FstClus := cl, FileSize := sz\<rparr>) s) (\<lambda>s. Inr (file, s)))))))))))"

subsection \<open>Printing\<close>

text \<open>
  \<^verbatim>\<open>printf("%c", c)\<close> formats into a string, which a zero character ends; \<^verbatim>\<open>printf("%d", x)\<close> prints the decimal digits.
\<close>

definition printf_c :: "u8 \<Rightarrow> u8 list" where
  "printf_c c = (if c = 0 then [] else [c])"

definition printf_d :: "u32 \<Rightarrow> u8 list" where
  "printf_d x = num_text 10 (unat x)"

definition file_print_filesize :: "File \<Rightarrow> u8 list" where
  "file_print_filesize f = printf_d (FileSize f)"

fun print_name_part :: "nat \<Rightarrow> nat \<Rightarrow> File \<Rightarrow> (u8 list \<times> nat) res" where
  "print_name_part 0 i f = Inr ([], 0)"
| "print_name_part (Suc n) i f =
     andthen (rd (Filename f) i) (\<lambda>c.
     andthen (print_name_part n (Suc i) f) (\<lambda>(t, cnt). Inr (if c \<noteq> 0x20 then (printf_c c @ t, Suc cnt) else (t, cnt))))"

definition file_print_name :: "File \<Rightarrow> u8 list res" where
  "file_print_name f =
     andthen (print_name_part 8 0 f) (\<lambda>(t1, cnt1).
     andthen (rd (Filename f) 8) (\<lambda>c.
     andthen (print_name_part 3 8 f) (\<lambda>(t2, cnt2).
     let (dot, cnt) = (if c \<noteq> 0x20 then ([0x2E], cnt1 + 1 + cnt2) else ([], cnt1 + cnt2))
     in Inr (t1 @ dot @ t2 @ replicate (12 - cnt) 0x20))))"

definition file_print_attr :: "File \<Rightarrow> u8 list" where
  "file_print_attr f = c_string
     (if Attr f = 0x01 then ''read-only   '' else if Attr f = 0x02 then ''hidden      '' else if Attr f = 0x04 then ''system      ''
      else if Attr f = 0x08 then ''volume label'' else if Attr f = 0x10 then ''subdirectory'' else if Attr f = 0x20 then ''archive     ''
      else ''unused      '')"

definition two_digits :: "u32 \<Rightarrow> u8 list" where
  "two_digits x = printf_d (x div 10 mod 10) @ printf_d (x mod 10)"

text \<open>The fields of the packed time and date as \<^verbatim>\<open>file_print_time\<close> and \<^verbatim>\<open>file_print_date\<close> extract them.\<close>

definition time_fields :: "u16 \<Rightarrow> u32 \<times> u32" where
  "time_fields t = (let x = ucast t :: u32 in (drop_bit 11 (x AND 0xF800), drop_bit 5 (x AND 0x07E0)))"

definition file_print_time :: "File \<Rightarrow> u8 list" where
  "file_print_time f = (let (hour, minute) = time_fields (WrtTime f) in two_digits hour @ [0x3A] @ two_digits minute)"

definition date_fields :: "u16 \<Rightarrow> u32 \<times> u32 \<times> u32" where
  "date_fields t = (let x = ucast t :: u32 in (drop_bit 9 (x AND 0xFE00) + 1980, drop_bit 5 (x AND 0x01E0), x AND 0x001F))"

definition file_print_date :: "File \<Rightarrow> u8 list" where
  "file_print_date f = (let (year, month, day) = date_fields (WrtDate f)
     in two_digits month @ [0x2D] @ two_digits day @ [0x2D] @ two_digits year)"

definition file_print_all :: "fptr \<Rightarrow> bool \<Rightarrow> fs \<Rightarrow> fs res" where
  "file_print_all file ShowHid s =
     (if file = FNull then Inr s
      else andthen (fget file s) (\<lambda>f. andthen (rd (Filename f) 0) (\<lambda>c0.
        if \<not> ShowHid \<and> (Attr f = 0x02 \<or> c0 = 0x2E) then Inr s
        else andthen (file_print_name f) (\<lambda>name.
          Inr (print (c_string ''Filename: '' @ name @ c_string ''    Attribute: '' @ file_print_attr f @
            c_string ''    Last Write Time: '' @ file_print_time f @ c_string ''    Last Write Date: '' @ file_print_date f @
            c_string ''    File Size: '' @ file_print_filesize f @ [0xA]) s)))))"

definition generate_date :: "u32 \<Rightarrow> u32 \<Rightarrow> u32 \<Rightarrow> u16" where
  "generate_date year month day = ucast (push_bit 9 (year - 1980) + push_bit 5 month + day)"

definition generate_time :: "u32 \<Rightarrow> u32 \<Rightarrow> u16" where
  "generate_time hour minute = ucast (push_bit 11 hour + push_bit 5 minute)"

subsection \<open>Directory entries\<close>

text \<open>\<^verbatim>\<open>create_dir_entry_in_sector\<close>: \<open>write_dir_entry\<close> fills the entry at offset \<open>i\<close>, \<open>dir_entry_scan\<close> is the loop over the entries.\<close>

definition write_dir_entry :: "nat \<Rightarrow> File \<Rightarrow> u8 list \<Rightarrow> u8 list res" where
  "write_dir_entry i f buff =
     andthen (copy_bytes 11 i buff 0 (Filename f)) (\<lambda>buff.
     andthen (write_u8 buff (i + 11) (Attr f)) (\<lambda>buff.
     andthen (write_u16 buff (i + 22) (WrtTime f)) (\<lambda>buff.
     andthen (write_u16 buff (i + 24) (WrtDate f)) (\<lambda>buff.
     andthen (write_u16 buff (i + 26) (FstClus f)) (\<lambda>buff.
     write_u32 buff (i + 28) (FileSize f))))))"

fun dir_entry_scan :: "nat \<Rightarrow> nat \<Rightarrow> u16 \<Rightarrow> File \<Rightarrow> u8 list \<Rightarrow> disk \<Rightarrow> (bool \<times> disk) res" where
  "dir_entry_scan 0 i secID f buff d = Inr (False, d)"
| "dir_entry_scan (Suc n) i secID f buff d =
     andthen (rd buff i) (\<lambda>c.
     if c = 0x00 \<or> c = 0xE5
     then andthen (write_dir_entry i f buff) (\<lambda>buff. andthen (write_sector secID buff d) (\<lambda>d. Inr (True, d)))
     else dir_entry_scan n (i + BytePerDirEntry) secID f buff d)"

definition create_dir_entry_in_sector :: "u16 \<Rightarrow> File \<Rightarrow> disk \<Rightarrow> (bool \<times> disk) res" where
  "create_dir_entry_in_sector secID f d =
     andthen (read_sector secID d) (\<lambda>buff. dir_entry_scan (BytePerSec div BytePerDirEntry) 0 secID f buff d)"

definition end_mark :: "u16 \<Rightarrow> bool" where
  "end_mark clusID \<longleftrightarrow> 0xFF8 \<le> clusID \<and> clusID \<le> 0xFFF"

text \<open>The loop of \<^verbatim>\<open>create_dir_entry\<close>: \<open>None\<close> when the entry was written, otherwise the cluster number at the break.\<close>

partial_function (option) create_dir_entry_loop :: "u16 \<Rightarrow> u16 \<Rightarrow> fptr \<Rightarrow> fs \<Rightarrow> (u16 option \<times> fs) run" where
  "create_dir_entry_loop clusID secID file s =
     (if clusID = 0 \<and> secID = 33 then Some (Inr (Some clusID, s))
      else if clusID \<noteq> 0 \<and> end_mark clusID then Some (Inr (Some clusID, s))
      else bindr (Some (fget file s)) (\<lambda>f.
        bindr (Some (on_vol (create_dir_entry_in_sector secID f) s)) (\<lambda>(b, s).
        if b then Some (Inr (None, s))
        else if clusID = 0 then create_dir_entry_loop clusID (secID + 1) file s
        else bindr (Some (on_vol (get_fat_next_cluster clusID) s)) (\<lambda>(c, s). create_dir_entry_loop c (c + ClusToSec) file s))))"

definition create_dir_entry :: "fptr \<Rightarrow> fptr \<Rightarrow> fs \<Rightarrow> (bool \<times> fs) run" where
  "create_dir_entry dir file s =
     bindr (Some (fget dir s)) (\<lambda>dirf.
     let clusID = (if dir = FRoot then 0 else FstClus dirf); secID = (if dir = FRoot then 19 else clusID + ClusToSec)
     in bindr (create_dir_entry_loop clusID secID file s) (\<lambda>(r, s).
        case r of None \<Rightarrow> Some (Inr (True, s))
        | Some clusID \<Rightarrow>
            if clusID = 0 then Some (Inr (False, s))
            else Some (andthen (on_vol (append_a_cluster clusID) s) (\<lambda>(newClus, s).
                   andthen (fget file s) (\<lambda>f. on_vol (create_dir_entry_in_sector (newClus + ClusToSec) f) s)))))"

definition write_empty_directory :: "fptr \<Rightarrow> fptr \<Rightarrow> fs \<Rightarrow> (bool \<times> fs) run" where
  "write_empty_directory fa dir s =
     bindr (Some (get_empty_file s)) (\<lambda>(dot, s).
     bindr (Some (fget dir s)) (\<lambda>d.
     bindr (Some (init_file dot dir (c_string ''.          '') (Attr d) (WrtTime d) (WrtDate d) (FstClus d) (FileSize d) s)) (\<lambda>s.
     bindr (create_dir_entry dir dot s) (\<lambda>(b, s).
     if \<not> b then bindr (Some (fupd dot (\<lambda>f. f\<lparr>used := False\<rparr>) s)) (\<lambda>s. Some (Inr (False, s)))
     else bindr (Some (get_empty_file s)) (\<lambda>(dotdot, s).
       bindr (Some (fget fa s)) (\<lambda>p.
       bindr (Some (init_file dotdot dir (c_string ''..         '') (Attr p) (WrtTime p) (WrtDate p) (FstClus p) (FileSize p) s)) (\<lambda>s.
       bindr (create_dir_entry dir dotdot s) (\<lambda>(b, s).
       if \<not> b then bindr (Some (fupd dotdot (\<lambda>f. f\<lparr>used := False\<rparr>) s)) (\<lambda>s. Some (Inr (False, s)))
       else bindr (Some (fupd dir (\<lambda>f. f\<lparr>FstSon := dot\<rparr>) s)) (\<lambda>s.
         bindr (Some (fupd dot (\<lambda>f. f\<lparr>NextSib := dotdot\<rparr>) s)) (\<lambda>s. Some (Inr (True, s))))))))))))"

subsection \<open>Open files\<close>

definition init_new_AFBLNode :: "nat option \<Rightarrow> fs \<Rightarrow> fs res" where
  "init_new_AFBLNode node = node_upd node (\<lambda>n. n\<lparr>n_buff := replicate 512 0, n_next := None, n_used := True\<rparr>)"

fun empty_AFBLNode_from :: "nat \<Rightarrow> nat \<Rightarrow> fs \<Rightarrow> (nat option \<times> fs) res" where
  "empty_AFBLNode_from 0 i s = Inr (None, s)"
| "empty_AFBLNode_from (Suc n) i s =
     andthen (rd (AFBLNodelist s) i) (\<lambda>x.
     if \<not> n_used x then andthen (init_new_AFBLNode (Some i) s) (\<lambda>s. Inr (Some i, s)) else empty_AFBLNode_from n (Suc i) s)"

definition get_empty_AFBLNode :: "fs \<Rightarrow> (nat option \<times> fs) res" where
  "get_empty_AFBLNode = empty_AFBLNode_from MAX_NODE_CNT 0"

definition init_AFBLNode :: "nat option \<Rightarrow> u8 list \<Rightarrow> nat option \<Rightarrow> fs \<Rightarrow> fs res" where
  "init_AFBLNode node writeBuff nxt s =
     andthen (node_upd node (\<lambda>n. n\<lparr>n_next := nxt\<rparr>) s) (\<lambda>s.
     andthen (node_get node s) (\<lambda>n.
     andthen (copy_bytes BytePerSec 0 (n_buff n) 0 writeBuff) (\<lambda>b. node_upd node (\<lambda>n. n\<lparr>n_buff := b\<rparr>) s)))"

definition active_file_open :: "nat option \<Rightarrow> fptr \<Rightarrow> FileOpenType \<Rightarrow> fs \<Rightarrow> fs res" where
  "active_file_open acfile file Type s =
     ac_upd acfile (\<lambda>a. a\<lparr>a_file := file, a_RefCnt := 1, a_Type := Type, a_head := None, a_buffsize := 0\<rparr>)
       (s\<lparr>active_cnt := active_cnt s + 1\<rparr>)"

text \<open>The loop of \<^verbatim>\<open>active_file_close\<close> writes the buffered sectors to the clusters of the file.\<close>

partial_function (option) flush_nodes :: "nat option \<Rightarrow> u16 \<Rightarrow> fs \<Rightarrow> fs run" where
  "flush_nodes now clusID s =
     (if now = None then Some (Inr s)
      else bindr (Some (node_get now s)) (\<lambda>n.
        bindr (Some (vol_do (write_sector (clusID + ClusToSec) (n_buff n)) s)) (\<lambda>s.
        bindr (Some (node_upd now (\<lambda>n. n\<lparr>n_used := False\<rparr>) s)) (\<lambda>s.
        bindr (Some (on_vol (get_fat_next_cluster clusID) s)) (\<lambda>(c, s). flush_nodes (n_next n) c s)))))"

definition active_file_close :: "nat option \<Rightarrow> fs \<Rightarrow> fs run" where
  "active_file_close acfile s =
     bindr (Some (ac_get acfile s)) (\<lambda>a.
     bindr (Some (fupd (a_file a) (\<lambda>f. f\<lparr>FileSize := a_buffsize a\<rparr>) (s\<lparr>active_cnt := active_cnt s - 1\<rparr>))) (\<lambda>s.
     bindr (Some (fget (a_file a) s)) (\<lambda>f.
     bindr (flush_nodes (a_head a) (FstClus f) s) (\<lambda>s.
     Some (ac_upd acfile (\<lambda>a. a\<lparr>a_file := FNull, a_RefCnt := 0, a_Type := ReadOnly, a_head := None, a_buffsize := 0\<rparr>) s)))))"

partial_function (option) clear_file_loop :: "u16 \<Rightarrow> u16 \<Rightarrow> fs \<Rightarrow> fs run" where
  "clear_file_loop clusID nextClus s =
     (if end_mark clusID then Some (Inr s)
      else bindr (Some (vol_do (clear_cluster clusID) s)) (\<lambda>s.
        bindr (Some (vol_do (write_fat_next_cluster clusID 0x000) s)) (\<lambda>s.
        bindr (Some (on_vol (get_fat_next_cluster nextClus) s)) (\<lambda>(c, s). clear_file_loop nextClus c s))))"

definition clear_file :: "fptr \<Rightarrow> fs \<Rightarrow> fs run" where
  "clear_file file s =
     bindr (Some (fget file s)) (\<lambda>f.
     bindr (Some (on_vol (get_fat_next_cluster (FstClus f)) s)) (\<lambda>(nextClus, s). clear_file_loop (FstClus f) nextClus s))"

fun open_shared :: "nat \<Rightarrow> nat \<Rightarrow> fptr \<Rightarrow> FileOpenType \<Rightarrow> fs \<Rightarrow> (nat option \<times> fs) res" where
  "open_shared 0 i file Type s = Inr (None, s)"
| "open_shared (Suc n) i file Type s =
     andthen (rd (activelist s) i) (\<lambda>a.
     if a_file a = file \<and> a_Type a = Type
     then andthen (ac_upd (Some i) (\<lambda>a. a\<lparr>a_RefCnt := a_RefCnt a + 1\<rparr>) s) (\<lambda>s. Inr (Some i, s))
     else open_shared n (Suc i) file Type s)"

fun open_fresh :: "nat \<Rightarrow> nat \<Rightarrow> fptr \<Rightarrow> FileOpenType \<Rightarrow> fs \<Rightarrow> (nat option \<times> fs) res" where
  "open_fresh 0 i file Type s = Inr (None, s)"
| "open_fresh (Suc n) i file Type s =
     andthen (rd (activelist s) i) (\<lambda>a.
     if a_RefCnt a = 0 then andthen (active_file_open (Some i) file Type s) (\<lambda>s. Inr (Some i, s))
     else open_fresh n (Suc i) file Type s)"

definition open_file :: "fptr \<Rightarrow> FileOpenType \<Rightarrow> fs \<Rightarrow> (nat option \<times> fs) res" where
  "open_file file Type s =
     andthen (open_shared MAX_ACTIVE_CNT 0 file Type s) (\<lambda>(r, s).
     if r \<noteq> None then Inr (r, s) else open_fresh MAX_ACTIVE_CNT 0 file Type s)"

definition close_file :: "nat option \<Rightarrow> fs \<Rightarrow> fs run" where
  "close_file acfile s =
     bindr (Some (ac_upd acfile (\<lambda>a. a\<lparr>a_RefCnt := a_RefCnt a - 1\<rparr>) s)) (\<lambda>s.
     bindr (Some (ac_get acfile s)) (\<lambda>a.
     if a_RefCnt a = 0 then active_file_close acfile s else Some (Inr s)))"

subsection \<open>Bytes and little-endian fields\<close>

lemma u16_bytes: "ucast (ucast (v :: u16) :: u8) + push_bit 8 (ucast (ucast (drop_bit 8 v) :: u8)) = v"
proof -
  have "ucast (ucast v :: u8) + push_bit 8 (ucast (ucast (drop_bit 8 v) :: u8)) = (ucast (ucast v :: u8) OR push_bit 8 (ucast (ucast (drop_bit 8 v) :: u8)) :: u16)"
    by (rule disjunctive_add) (auto simp: bit_simps dest: bit_imp_le_length)
  also have "\<dots> = v"
    by (rule bit_word_eqI) (auto simp: bit_simps)
  finally show ?thesis .
qed

lemma u32_bytes:
  "ucast (ucast (v :: u32) :: u8) + push_bit 8 (ucast (ucast (drop_bit 8 v) :: u8)) + push_bit 16 (ucast (ucast (drop_bit 16 v) :: u8)) +
    push_bit 24 (ucast (ucast (drop_bit 24 v) :: u8)) = v" (is "?a + ?b + ?c + ?e = v")
proof -
  have ab: "?a + ?b = ?a OR ?b"
    by (rule disjunctive_add) (auto simp: bit_simps dest: bit_imp_le_length)
  have abc: "(?a OR ?b) + ?c = ?a OR ?b OR ?c"
    by (subst disjunctive_add) (auto simp: bit_simps or.assoc dest: bit_imp_le_length)
  have abce: "(?a OR ?b OR ?c) + ?e = ?a OR ?b OR ?c OR ?e"
    by (subst disjunctive_add) (auto simp: bit_simps or.assoc dest: bit_imp_le_length)
  have "?a OR ?b OR ?c OR ?e = v"
  proof (rule bit_word_eqI)
    fix n :: nat assume "n < LENGTH(32)"
    then show "bit (?a OR ?b OR ?c OR ?e) n = bit v n"
      by (cases "n < 8"; cases "n < 16"; cases "n < 24") (auto simp: bit_simps)
  qed
  then show ?thesis
    by (simp only: ab abc abce)
qed

lemma write_u16_ok: "st + 1 < length b \<Longrightarrow> write_u16 b st v = Inr (b[st := ucast v, st + 1 := ucast (drop_bit 8 v)])"
  by (simp add: write_u16_def)

lemma write_u32_ok: "st + 3 < length b \<Longrightarrow>
  write_u32 b st v = Inr (b[st := ucast v, st + 1 := ucast (drop_bit 8 v), st + 2 := ucast (drop_bit 16 v), st + 3 := ucast (drop_bit 24 v)])"
  by (simp add: write_u32_def)

lemma get_u16_ok: "st + 1 < length b \<Longrightarrow> b ! st = ucast v \<Longrightarrow> b ! (st + 1) = ucast (drop_bit 8 v) \<Longrightarrow> get_u16 b st = Inr v"
  using u16_bytes[of v] by (simp add: get_u16_def)

lemma get_u32_ok: "st + 3 < length b \<Longrightarrow> b ! st = ucast v \<Longrightarrow> b ! (st + 1) = ucast (drop_bit 8 v) \<Longrightarrow> b ! (st + 2) = ucast (drop_bit 16 v) \<Longrightarrow>
  b ! (st + 3) = ucast (drop_bit 24 v) \<Longrightarrow> get_u32 b st = Inr v"
  using u32_bytes[of v] by (simp add: get_u32_def)

subsection \<open>Directory entries on the volume\<close>

text \<open>The bytes of the entry of a file; bytes 12 to 21 keep what the slot held before.\<close>

definition entry_bytes :: "File \<Rightarrow> u8 list \<Rightarrow> u8 list" where
  "entry_bytes f old = Filename f @ [Attr f] @ take 10 (drop 12 old) @ [ucast (WrtTime f), ucast (drop_bit 8 (WrtTime f)),
     ucast (WrtDate f), ucast (drop_bit 8 (WrtDate f)), ucast (FstClus f), ucast (drop_bit 8 (FstClus f)),
     ucast (FileSize f), ucast (drop_bit 8 (FileSize f)), ucast (drop_bit 16 (FileSize f)), ucast (drop_bit 24 (FileSize f))]"

lemma entry_bytes_length: "length (Filename f) = 11 \<Longrightarrow> length old = 32 \<Longrightarrow> length (entry_bytes f old) = 32"
  by (simp add: entry_bytes_def)

lemma write_dir_entry_ok:
  assumes "i + 32 \<le> length b" "length (Filename f) = 11"
  shows "write_dir_entry i f b = Inr (take i b @ entry_bytes f (take 32 (drop i b)) @ drop (i + 32) b)"
proof -
  let ?b = "take i b @ Filename f @ drop (i + 11) b"
  let ?r = "take i b @ entry_bytes f (take 32 (drop i b)) @ drop (i + 32) b"
  let ?c = "?b[i + 11 := Attr f, i + 22 := ucast (WrtTime f), i + 23 := ucast (drop_bit 8 (WrtTime f)),
     i + 24 := ucast (WrtDate f), i + 25 := ucast (drop_bit 8 (WrtDate f)), i + 26 := ucast (FstClus f), i + 27 := ucast (drop_bit 8 (FstClus f)),
     i + 28 := ucast (FileSize f), i + 29 := ucast (drop_bit 8 (FileSize f)), i + 30 := ucast (drop_bit 16 (FileSize f)), i + 31 := ucast (drop_bit 24 (FileSize f))]"
  have "write_dir_entry i f b = Inr ?c"
    using assms copy_bytes_ok[of 0 11 "Filename f" i b]
    by (simp add: write_dir_entry_def write_u8_def write_u16_ok write_u32_ok add.commute)
  moreover have "?c = ?r"
  proof (rule nth_equalityI)
    show "length ?c = length ?r"
      using assms by (simp add: entry_bytes_def)
    fix j assume j: "j < length ?c"
    show "?c ! j = ?r ! j"
    proof (cases "i \<le> j \<and> j < i + 32")
      case True
      then obtain k where k: "j = i + k" "k < 32"
        by (metis add_less_cancel_left le_Suc_ex)
      then have "k < 11 \<or> k = 11 \<or> (12 \<le> k \<and> k < 22) \<or> k \<in> {22, 23, 24, 25, 26, 27, 28, 29, 30, 31}"
        by (simp only: insert_iff empty_iff) arith
      then show ?thesis
        using assms k by (elim disjE insertE conjE) (simp_all add: nth_append entry_bytes_def nth_Cons' less_diff_conv2)
    next
      case False
      then show ?thesis
        using assms by (auto simp: nth_append entry_bytes_def)
    qed
  qed
  ultimately show ?thesis by simp
qed

text \<open>An entry is free when its first byte is 0 or 0xE5; \<open>free_slot\<close> is the first free one of a sector.\<close>

definition slot_free :: "u8 list \<Rightarrow> nat \<Rightarrow> bool" where
  "slot_free b k \<longleftrightarrow> b ! (k * 32) = 0 \<or> b ! (k * 32) = 0xE5"

definition free_slot :: "u8 list \<Rightarrow> nat option" where
  "free_slot b = find (slot_free b) [0..<16]"

definition put_entry :: "nat \<Rightarrow> File \<Rightarrow> u8 list \<Rightarrow> u8 list" where
  "put_entry k f b = take (k * 32) b @ entry_bytes f (take 32 (drop (k * 32) b)) @ drop (k * 32 + 32) b"

definition slot_bytes :: "u8 list \<Rightarrow> nat \<Rightarrow> u8 list" where
  "slot_bytes b k = take 32 (drop (k * 32) b)"

lemma dir_entry_scan_find:
  assumes b: "length b = 512" and f: "length (Filename f) = 11" and n: "sec \<le> 2880"
  shows "m + k = 16 \<Longrightarrow> dir_entry_scan m (k * 32) (sno sec) f b d =
    Inr (case find (slot_free b) [k..<16] of None \<Rightarrow> (False, d) | Some j \<Rightarrow> (True, d\<lparr>sdb := (sdb d)(sno sec := put_entry j f b)\<rparr>))"
proof (induction m arbitrary: k)
  case (Suc m)
  then have k: "k < 16" by simp
  then have "[k..<16] = k # [Suc k..<16]"
    by (simp add: upt_conv_Cons)
  moreover have "k * 32 + BytePerDirEntry = Suc k * 32"
    by (simp add: BytePerDirEntry_def)
  moreover have "write_dir_entry (k * 32) f b = Inr (put_entry k f b)"
    using write_dir_entry_ok[of "k * 32" b f] b f k by (simp add: put_entry_def)
  ultimately show ?case
    using Suc.IH[of "Suc k"] Suc.prems k b by (simp add: slot_free_def write_sector_ok[OF n] del: mult_Suc)
qed simp

lemma create_dir_entry_in_sector_eq:
  assumes d: "wf_disk d" and f: "length (Filename f) = 11" and n: "sec \<le> 2880"
  shows "create_dir_entry_in_sector (sno sec) f d = Inr (case free_slot (sdb d (sno sec)) of None \<Rightarrow> (False, d)
    | Some j \<Rightarrow> (True, d\<lparr>sdb := (sdb d)(sno sec := put_entry j f (sdb d (sno sec)))\<rparr>))"
  using dir_entry_scan_find[OF wf_sector[OF d n] f n, of 16 0] n
  by (simp add: create_dir_entry_in_sector_def read_sector_ok BytePerSec_def BytePerDirEntry_def free_slot_def)

lemma put_entry_length: "length b = 512 \<Longrightarrow> k < 16 \<Longrightarrow> length (Filename f) = 11 \<Longrightarrow> length (put_entry k f b) = 512"
  by (simp add: put_entry_def entry_bytes_length)

lemma put_entry_slot_bytes:
  assumes "length b = 512" "k < 16" "length (Filename f) = 11" "j < 16"
  shows "slot_bytes (put_entry k f b) j = (if j = k then entry_bytes f (slot_bytes b k) else slot_bytes b j)"
proof -
  consider "j = k" | "j * 32 + 32 \<le> k * 32" | "k * 32 + 32 \<le> j * 32"
    by (cases j k rule: linorder_cases) simp_all
  then show ?thesis
  proof cases
    case 1
    then show ?thesis
      using assms entry_bytes_length[of f "take 32 (drop (k * 32) b)"] by (simp add: slot_bytes_def put_entry_def)
  next
    case 2
    then show ?thesis
      using assms by (auto simp: slot_bytes_def put_entry_def drop_take min_def)
  next
    case 3
    then show ?thesis
      using assms entry_bytes_length[of f "take 32 (drop (k * 32) b)"] by (auto simp: slot_bytes_def put_entry_def)
  qed
qed

lemma free_slot_Some: "free_slot b = Some k \<Longrightarrow> k < 16 \<and> slot_free b k \<and> (\<forall>j < k. \<not> slot_free b j)"
  unfolding free_slot_def by (auto simp: find_Some_iff)

lemma free_slot_None: "free_slot b = None \<longleftrightarrow> (\<forall>k < 16. \<not> slot_free b k)"
  unfolding free_slot_def by (auto simp: find_None_iff)

definition wf_File :: "File \<Rightarrow> bool" where
  "wf_File f \<longleftrightarrow> length (Filename f) = 11 \<and> length (Reserved f) = 10"

definition wf_fs :: "fs \<Rightarrow> bool" where
  "wf_fs s \<longleftrightarrow> wf_disk (vol s) \<and> wf_File (rootfile s) \<and> length (filelist s) = 100 \<and> (\<forall>f \<in> set (filelist s). wf_File f) \<and>
     length (AFBLNodelist s) = 100 \<and> (\<forall>n \<in> set (AFBLNodelist s). length (n_buff n) = 512) \<and> length (activelist s) = 10"

text \<open>The first file object that is not in use, and the object after \<^verbatim>\<open>init_new_file\<close>.\<close>

definition unused_file :: "fs \<Rightarrow> nat option" where
  "unused_file s = find (\<lambda>i. \<not> used (filelist s ! i)) [0..<100]"

definition new_File :: "File \<Rightarrow> File" where
  "new_File f = f\<lparr>used := True, Filename := replicate 11 0, Fa := FNull, Attr := 0, WrtTime := 0, WrtDate := 0,
     FstClus := 0, FileSize := 0, FstSon := FNull, NextSib := FNull\<rparr>"

lemma empty_file_from_find:
  assumes "length (filelist s) = 100"
  shows "m + k = 100 \<Longrightarrow> empty_file_from m k s = Inr (case find (\<lambda>i. \<not> used (filelist s ! i)) [k..<100] of None \<Rightarrow> (FNull, s)
    | Some i \<Rightarrow> (F i, s\<lparr>filelist := (filelist s)[i := new_File (filelist s ! i)]\<rparr>))"
proof (induction m arbitrary: k)
  case (Suc m)
  then have "[k..<100] = k # [Suc k..<100]"
    by (simp add: upt_conv_Cons)
  then show ?case
    using Suc.IH[of "Suc k"] Suc.prems assms by (simp add: init_new_file_def fupd_def new_File_def)
qed simp

lemma get_empty_file_eq:
  "length (filelist s) = 100 \<Longrightarrow> get_empty_file s = Inr (case unused_file s of None \<Rightarrow> (FNull, s)
    | Some i \<Rightarrow> (F i, s\<lparr>filelist := (filelist s)[i := new_File (filelist s ! i)]\<rparr>))"
  using empty_file_from_find[of s 100 0] by (simp add: get_empty_file_def MAX_FILE_CNT_def unused_file_def)

lemma unused_file_Some: "unused_file s = Some i \<Longrightarrow> i < 100 \<and> \<not> used (filelist s ! i)"
  unfolding unused_file_def by (auto simp: find_Some_iff)

lemma slot_bytes_nth: "length b = 512 \<Longrightarrow> k < 16 \<Longrightarrow> j < 32 \<Longrightarrow> b ! (k * 32 + j) = slot_bytes b k ! j"
  by (simp add: slot_bytes_def)

lemma slot_bytes_part:
  assumes "length b = 512" "k < 16" "j + n \<le> 32"
  shows "take n (drop (k * 32 + j) b) = take n (drop j (slot_bytes b k))"
  using assms by (simp add: slot_bytes_def drop_take add.commute min_def)

lemma entry_bytes_parts:
  assumes "length (Filename f) = 11" "length old = 32"
  shows "take 11 (entry_bytes f old) = Filename f" "entry_bytes f old ! 11 = Attr f" "take 10 (drop 12 (entry_bytes f old)) = take 10 (drop 12 old)"
    "entry_bytes f old ! 22 = ucast (WrtTime f)" "entry_bytes f old ! 23 = ucast (drop_bit 8 (WrtTime f))"
    "entry_bytes f old ! 24 = ucast (WrtDate f)" "entry_bytes f old ! 25 = ucast (drop_bit 8 (WrtDate f))"
    "entry_bytes f old ! 26 = ucast (FstClus f)" "entry_bytes f old ! 27 = ucast (drop_bit 8 (FstClus f))"
    "entry_bytes f old ! 28 = ucast (FileSize f)" "entry_bytes f old ! 29 = ucast (drop_bit 8 (FileSize f))"
    "entry_bytes f old ! 30 = ucast (drop_bit 16 (FileSize f))" "entry_bytes f old ! 31 = ucast (drop_bit 24 (FileSize f))"
  using assms by (simp_all add: entry_bytes_def nth_append nth_Cons')

text \<open>The object \<^verbatim>\<open>make_file_from_sector\<close> makes of the entry of \<open>f\<close>.\<close>

definition loaded_File :: "fptr \<Rightarrow> File \<Rightarrow> u8 list \<Rightarrow> File \<Rightarrow> File" where
  "loaded_File fa f old x = (new_File x)\<lparr>Fa := fa, Filename := Filename f, Attr := Attr f, Reserved := take 10 (drop 12 old),
     WrtTime := WrtTime f, WrtDate := WrtDate f, FstClus := FstClus f, FileSize := FileSize f\<rparr>"

lemma make_file_from_sector_entry:
  assumes s: "wf_fs s" "unused_file s = Some i" and b: "length b = 512" "k < 16" "slot_bytes b k = entry_bytes f old"
    and f: "length (Filename f) = 11" "length old = 32"
  shows "make_file_from_sector fa b (k * 32) s = Inr (F i, s\<lparr>filelist := (filelist s)[i := loaded_File fa f old (filelist s ! i)]\<rparr>)"
proof -
  have len: "length (filelist s) = 100" "i < 100"
    using s unused_file_Some[OF s(2)] by (simp_all add: wf_fs_def)
  then have wf: "wf_File (filelist s ! i)"
    using s(1) by (simp add: wf_fs_def)
  note p = entry_bytes_parts[OF f]
  note nth = slot_bytes_nth[OF b(1,2), unfolded b(3)]
  note part = slot_bytes_part[OF b(1,2), unfolded b(3)]
  have "copy_bytes 11 0 (replicate 11 0) (k * 32) b = Inr (Filename f)"
    using copy_whole[of "replicate 11 0" 11 "k * 32" b] part[of 0 11] p(1) b(1,2) by simp
  moreover have "copy_bytes 10 0 (Reserved (filelist s ! i)) (k * 32 + 12) b = Inr (take 10 (drop 12 old))"
    using copy_whole[of "Reserved (filelist s ! i)" 10 "k * 32 + 12" b] part[of 12 10] p(3) b(1,2) wf by (simp add: wf_File_def)
  moreover have "rd b (k * 32 + 11) = Inr (Attr f)"
    using nth[of 11] p(2) b(1,2) by simp
  moreover have "get_u16 b (k * 32 + 22) = Inr (WrtTime f)" "get_u16 b (k * 32 + 24) = Inr (WrtDate f)" "get_u16 b (k * 32 + 26) = Inr (FstClus f)"
    using nth[of 22] nth[of 23] nth[of 24] nth[of 25] nth[of 26] nth[of 27] p b(1,2) by (auto simp: add.commute intro!: get_u16_ok)
  moreover have "get_u32 b (k * 32 + 28) = Inr (FileSize f)"
    using nth[of 28] nth[of 29] nth[of 30] nth[of 31] p b(1,2) by (auto simp: add.commute intro!: get_u32_ok)
  moreover have "get_empty_file s = Inr (F i, s\<lparr>filelist := (filelist s)[i := new_File (filelist s ! i)]\<rparr>)"
    using get_empty_file_eq[OF len(1)] s(2) by simp
  moreover have "Filename (new_File x) = replicate 11 0" "Reserved (new_File x) = Reserved x" for x
    by (simp_all add: new_File_def)
  ultimately show ?thesis
    using len by (simp add: make_file_from_sector_def fget_def fupd_def loaded_File_def)
qed

text \<open>
  C24. Directory entries survive the disk. \<^verbatim>\<open>create_dir_entry_in_sector\<close> takes the first entry of the sector that is unused or
  deleted and returns false, changing nothing, if there is none. When it succeeds, \<^verbatim>\<open>make_file_from_sector\<close> applied to
  the sector read back makes a file object with the same name, attribute, times, first cluster and size, and no other
  entry and no other sector has changed.
\<close>

theorem dir_entry_roundtrip:
  assumes "wf_fs s" "n \<le> 2880" "length (Filename f) = 11" "unused_file s = Some i"
  shows "case free_slot (sdb (vol s) (sno n)) of
      None \<Rightarrow> create_dir_entry_in_sector (sno n) f (vol s) = Inr (False, vol s)
    | Some k \<Rightarrow> \<exists>d b o' s'. create_dir_entry_in_sector (sno n) f (vol s) = Inr (True, d) \<and> wf_disk d \<and> read_sector (sno n) d = Inr b \<and>
        (\<forall>sec. sec \<noteq> sno n \<longrightarrow> sdb d sec = sdb (vol s) sec) \<and> (\<forall>j < 16. j \<noteq> k \<longrightarrow> slot_bytes b j = slot_bytes (sdb (vol s) (sno n)) j) \<and>
        make_file_from_sector fa b (k * 32) s = Inr (F i, s') \<and> fget (F i) s' = Inr o' \<and> Fa o' = fa \<and> used o' \<and>
        (Filename o', Attr o', WrtTime o', WrtDate o', FstClus o', FileSize o') = (Filename f, Attr f, WrtTime f, WrtDate f, FstClus f, FileSize f)"
proof (cases "free_slot (sdb (vol s) (sno n))")
  case None
  then show ?thesis
    using create_dir_entry_in_sector_eq[of "vol s" f n] assms by (simp add: wf_fs_def)
next
  case (Some k)
  let ?b = "sdb (vol s) (sno n)" and ?d = "(vol s)\<lparr>sdb := (sdb (vol s))(sno n := put_entry k f (sdb (vol s) (sno n)))\<rparr>"
  have d: "wf_disk (vol s)" "length ?b = 512" and k: "k < 16"
    using assms wf_sector free_slot_Some[OF Some] by (auto simp: wf_fs_def)
  note l = put_entry_length[OF d(2) k assms(3)]
  have "wf_disk ?d"
    using d(1) l by (simp add: wf_disk_def)
  moreover have "slot_bytes (put_entry k f ?b) k = entry_bytes f (slot_bytes ?b k)" "length (slot_bytes ?b k) = 32"
    using put_entry_slot_bytes[OF d(2) k assms(3) k] d(2) k by (simp_all add: slot_bytes_def)
  note make_file_from_sector_entry[OF assms(1,4) l k this(1) assms(3) this(2)]
  moreover have "i < length (filelist s)"
    using assms unused_file_Some[OF assms(4)] by (simp add: wf_fs_def)
  ultimately show ?thesis
    using create_dir_entry_in_sector_eq[OF d(1) assms(3,2)] put_entry_slot_bytes[OF d(2) k assms(3)] Some assms(2)
    by (simp add: read_sector_ok fget_def loaded_File_def new_File_def)
qed

definition File0 :: File where
  "File0 = \<lparr>Filename = replicate 11 0, Attr = 0, Reserved = replicate 10 0, WrtTime = 0, WrtDate = 0, FstClus = 0, FileSize = 0,
     Fa = FNull, FstSon = FNull, NextSib = FNull, used = False\<rparr>"

definition fs_on :: "disk \<Rightarrow> fs" where
  "fs_on d = \<lparr>vol = d, rootfile = File0, filelist = replicate 100 File0, active_cnt = 0,
     activelist = replicate 10 \<lparr>a_file = FNull, a_RefCnt = 0, a_Type = ReadOnly, a_head = None, a_buffsize = 0, a_used = False\<rparr>,
     AFBLNodelist = replicate 100 \<lparr>n_buff = replicate 512 0, n_next = None, n_used = False\<rparr>, inp = [], out = []\<rparr>"

lemma fs_on_wf: "wf_disk d \<Longrightarrow> wf_fs (fs_on d)"
  by (simp add: wf_fs_def fs_on_def wf_File_def File0_def)

lemma vol_fs_on [simp]: "vol (fs_on d) = d"
  by (simp add: fs_on_def)

lemma fs_on_unused: "unused_file (fs_on d) = Some 0"
  by (simp add: unused_file_def fs_on_def upt_conv_Cons File0_def)

theorem dir_entry_roundtrip_witness:
  "\<exists>d. create_dir_entry_in_sector 19 (File0\<lparr>Filename := c_string ''README  TXT''\<rparr>) disk0 = Inr (True, d)"
proof -
  have "free_slot (replicate 512 0) = Some 0"
    by (simp add: free_slot_def slot_free_def upt_conv_Cons)
  then show ?thesis
    using dir_entry_roundtrip[OF fs_on_wf[OF disk0_wf], of 19 "File0\<lparr>Filename := c_string ''README  TXT''\<rparr>" 0 FRoot]
    by (auto simp: fs_on_unused c_string_def disk0_def sno_def)
qed

subsection \<open>Releasing the clusters of a file\<close>

lemma fat_entry_12bit: "fat_entry d c < 0x1000"
proof -
  have "even_entry a b < 0x1000" "odd_entry a b < 0x1000" for a b
  proof -
    have "take_bit 12 (even_entry a b) = even_entry a b" "take_bit 12 (odd_entry a b) = odd_entry a b"
      by (auto intro!: bit_word_eqI simp: bit_take_bit_iff even_entry_bit odd_entry_bit)
    then show "even_entry a b < 0x1000" "odd_entry a b < 0x1000"
      using take_bit_nat_less_exp[of 12 "unat (even_entry a b)"] take_bit_nat_less_exp[of 12 "unat (odd_entry a b)"]
      by (simp_all add: word_less_nat_alt flip: unsigned_take_bit_eq)
  qed
  then show ?thesis
    by (simp add: fat_entry_def entry_of_def)
qed

lemma get_fat_next_cluster_returns:
  assumes "wf_disk d" "unat c < 6000"
  shows "\<exists>x. get_fat_next_cluster c d = Inr (x, d\<lparr>img := fresh_img d\<rparr>)"
proof -
  have "512 + fat_pos c + 1 < 10240"
    using assms(2) by (simp add: fat_pos_def)
  then show ?thesis
    using fresh_img_props(1)[OF assms(1)] update_img_ok[OF assms(1)] by (simp add: get_fat_next_cluster_def)
qed

lemma end_mark_entry: "0xFF8 \<le> fat_entry d c \<Longrightarrow> end_mark (fat_entry d c)"
  using fat_entry_12bit[of d c] by (simp add: end_mark_def word_less_nat_alt word_le_nat_alt)

lemma not_end_mark: "unat c < fat_len \<Longrightarrow> \<not> end_mark c"
  by (simp add: end_mark_def fat_len_def word_le_nat_alt)

text \<open>The volume after a list of clusters was cleared and given back.\<close>

definition released :: "nat list \<Rightarrow> disk \<Rightarrow> disk \<Rightarrow> bool" where
  "released cs d d' \<longleftrightarrow> wf_disk d' \<and> (mirrored d \<longrightarrow> mirrored d') \<and>
     (\<forall>k < fat_len. fat_entry d' k = (if k \<in> set cs then 0 else fat_entry d k)) \<and>
     (\<forall>s. 18 < s \<longrightarrow> sdb d' s = (if s \<in> (\<lambda>c. sno (c + 31)) ` set cs then replicate 512 0 else sdb d s))"

lemma fat_entry_img [simp]: "fat_entry (d\<lparr>img := x\<rparr>) = fat_entry d"
  by (simp add: fat_entry_def fatb_def fun_eq_iff entry_of_def)

lemma mirrored_img [simp]: "mirrored (d\<lparr>img := x\<rparr>) = mirrored d"
  by (simp add: mirrored_def)

lemma released_Cons:
  assumes "released [c] d d1" "released cs (d1\<lparr>img := x\<rparr>) d2"
  shows "released (c # cs) d d2"
  using assms unfolding released_def by auto

lemma release_one:
  assumes d: "wf_disk d" and c: "unat c \<le> 2849"
  shows "\<exists>d1 d2. clear_cluster c d = Inr d1 \<and> write_fat_next_cluster c 0 d1 = Inr d2 \<and> released [unat c] d d2"
proof -
  let ?d1 = "d\<lparr>sdb := (sdb d)(sno (unat c + 31) := replicate 512 0)\<rparr>"
  have cl: "clear_cluster c d = Inr ?d1"
    using cleared_sector[of "unat c" d] c by simp
  have ne: "sno k \<noteq> sno (unat c + 31)" if "k \<le> 30" for k
    using sno_inj[of k "unat c + 31"] that c by simp
  have d1: "wf_disk ?d1" "mirrored d \<longrightarrow> mirrored ?d1"
    using d ne by (auto simp: wf_disk_def mirrored_def)
  have f1: "fat_entry ?d1 k = fat_entry d k" if "k < fat_len" for k
    using ne that by (intro fat_entry_cong) simp_all
  have cf: "unat c < fat_len"
    using c by (simp add: fat_len_def)
  obtain d2 where d2: "write_fat_next_cluster c 0 ?d1 = Inr d2" "wf_disk d2" "mirrored ?d1 \<longrightarrow> mirrored d2"
    "\<forall>k < fat_len. fat_entry d2 k = (if k = unat c then 0 else fat_entry ?d1 k)" "\<forall>s. 18 < s \<or> s = 0 \<longrightarrow> sdb d2 s = sdb ?d1 s"
    using write_fat_spec[OF d1(1) cf, of 0] by auto
  have "released [unat c] d d2"
    using d2 d1 f1 unfolding released_def by simp
  then show ?thesis
    using cl d2(1) by blast
qed

lemma clear_file_loop_chain:
  assumes "wf_disk (vol s)" "fat_chain (vol s) (unat c # cs)" "distinct (unat c # cs)" "\<forall>k \<in> set (unat c # cs). k \<le> 2849"
  shows "\<exists>d'. clear_file_loop c (fat_entry (vol s) (unat c)) s = Some (Inr (s\<lparr>vol := d'\<rparr>)) \<and> released (unat c # cs) (vol s) d'"
  using assms
proof (induction cs arbitrary: c s)
  case Nil
  let ?n = "fat_entry (vol s) (unat c)"
  obtain d1 d2 where d: "clear_cluster c (vol s) = Inr d1" "write_fat_next_cluster c 0 d1 = Inr d2" "released [unat c] (vol s) d2"
    using release_one[of "vol s" c] Nil by auto
  have "unat ?n < 6000"
    using fat_entry_12bit[of "vol s" "unat c"] by (simp add: word_less_nat_alt)
  then obtain x where "get_fat_next_cluster ?n d2 = Inr (x, d2\<lparr>img := fresh_img d2\<rparr>)" "wf_disk (d2\<lparr>img := fresh_img d2\<rparr>)"
    using get_fat_next_cluster_returns[of d2 ?n] fresh_img_props(2)[of d2] d(3) by (auto simp: released_def)
  moreover have "end_mark ?n" "\<not> end_mark c"
    using Nil end_mark_entry[of "vol s" "unat c"] not_end_mark[of c] by auto
  ultimately have "clear_file_loop c ?n s = Some (Inr (s\<lparr>vol := d2\<lparr>img := fresh_img d2\<rparr>\<rparr>))"
    using d by (simp add: clear_file_loop.simps vol_do_def on_vol_def)
  moreover have "released [unat c] (vol s) (d2\<lparr>img := fresh_img d2\<rparr>)"
    using d(3) \<open>wf_disk (d2\<lparr>img := fresh_img d2\<rparr>)\<close> by (simp add: released_def)
  ultimately show ?case by blast
next
  case (Cons n cs)
  let ?n = "fat_entry (vol s) (unat c)"
  have n: "unat ?n = n" "unat c < fat_len" "n < fat_len" and ch: "fat_chain (vol s) (n # cs)"
    using Cons.prems(2) fat_chain_in_use[of "vol s" "n # cs" n] by auto
  obtain d1 d2 where d: "clear_cluster c (vol s) = Inr d1" "write_fat_next_cluster c 0 d1 = Inr d2" "released [unat c] (vol s) d2"
    using release_one[of "vol s" c] Cons.prems by auto
  let ?s = "s\<lparr>vol := d2\<lparr>img := fresh_img d2\<rparr>\<rparr>"
  have wf: "wf_disk d2" "wf_disk (vol ?s)"
    using d(3) fresh_img_props(2)[of d2] by (simp_all add: released_def)
  have keep: "fat_entry d2 k = fat_entry (vol s) k" if "k < fat_len" "k \<noteq> unat c" for k
    using d(3) that by (simp add: released_def)
  have "fat_entry d2 k = fat_entry (vol s) k" if "k \<in> set (n # cs)" for k
    using keep fat_chain_in_use[OF ch that] that Cons.prems(3) by auto
  then have "fat_chain (vol ?s) (unat ?n # cs)"
    using fat_chain_cong[of "n # cs" d2 "vol s"] fat_chain_cong[of "n # cs" "d2\<lparr>img := fresh_img d2\<rparr>" d2] ch n(1) by simp
  then obtain d' where d': "clear_file_loop ?n (fat_entry (vol ?s) (unat ?n)) ?s = Some (Inr (?s\<lparr>vol := d'\<rparr>))" "released (unat ?n # cs) (vol ?s) d'"
    using Cons.IH[of ?s ?n] wf(2) Cons.prems n(1) by auto
  have "get_fat_next_cluster ?n d2 = Inr (fat_entry (vol ?s) (unat ?n), d2\<lparr>img := fresh_img d2\<rparr>)"
    using get_fat_next_cluster_ok[OF wf(1), of ?n] n by simp
  then have "clear_file_loop c ?n s = Some (Inr (s\<lparr>vol := d'\<rparr>))"
    using d d'(1) not_end_mark[OF n(2)] by (subst clear_file_loop.simps) (simp add: vol_do_def on_vol_def)
  moreover have "released (unat c # n # cs) (vol s) d'"
    using released_Cons[OF d(3)] d'(2) n(1) by simp
  ultimately show ?case by blast
qed

lemma clear_file_chain:
  assumes "wf_disk (vol s)" "fget file s = Inr f" "fat_chain (vol s) cs" "distinct cs" "\<forall>c \<in> set cs. c \<le> 2849" "hd cs = unat (FstClus f)"
  shows "\<exists>d'. clear_file file s = Some (Inr (s\<lparr>vol := d'\<rparr>)) \<and> released cs (vol s) d'"
proof -
  obtain ks where cs: "cs = unat (FstClus f) # ks"
    using assms(3,6) by (cases cs) auto
  let ?s = "s\<lparr>vol := (vol s)\<lparr>img := fresh_img (vol s)\<rparr>\<rparr>"
  have wf: "wf_disk (vol s)" "wf_disk (vol ?s)"
    using assms(1) fresh_img_props(2)[of "vol s"] by simp_all
  have "fat_chain (vol ?s) cs"
    using fat_chain_cong[of cs "vol ?s" "vol s"] assms(3) by simp
  then obtain d' where "clear_file_loop (FstClus f) (fat_entry (vol ?s) (unat (FstClus f))) ?s = Some (Inr (?s\<lparr>vol := d'\<rparr>))" "released cs (vol ?s) d'"
    using clear_file_loop_chain[OF wf(2), of "FstClus f" ks] assms(4,5) cs by auto
  moreover have "get_fat_next_cluster (FstClus f) (vol s) = Inr (fat_entry (vol s) (unat (FstClus f)), vol ?s)"
    using get_fat_next_cluster_ok[OF wf(1)] assms(3) cs fat_chain_in_use[OF assms(3)] by simp
  ultimately have "clear_file file s = Some (Inr (s\<lparr>vol := d'\<rparr>)) \<and> released cs (vol s) d'"
    using assms(2) by (simp add: clear_file_def on_vol_def released_def)
  then show ?thesis by blast
qed

text \<open>
  C25. \<^verbatim>\<open>clear_file\<close> ends on every file whose clusters form a chain of data clusters, gives back exactly the clusters of
  that chain and fills them with zeros: afterwards their table entries are free, every other entry of both tables and
  every other data sector is unchanged, and nothing but the volume is touched.
\<close>

theorem clear_file_releases_chain:
  assumes "wf_fs s" "fget file s = Inr f" "fat_chain (vol s) cs" "distinct cs" "\<forall>c \<in> set cs. c \<le> 2849" "hd cs = unat (FstClus f)"
  shows "\<exists>d'. clear_file file s = Some (Inr (s\<lparr>vol := d'\<rparr>)) \<and> released cs (vol s) d'"
  using assms by (intro clear_file_chain) (simp_all add: wf_fs_def)

theorem clear_file_releases_chain_witness:
  "\<exists>d'. clear_file FRoot ((fs_on disk1)\<lparr>rootfile := File0\<lparr>FstClus := 2\<rparr>\<rparr>) = Some (Inr ((fs_on disk1)\<lparr>rootfile := File0\<lparr>FstClus := 2\<rparr>, vol := d'\<rparr>)) \<and>
     fat_entry d' 2 = 0"
  using clear_file_releases_chain[of "(fs_on disk1)\<lparr>rootfile := File0\<lparr>FstClus := 2\<rparr>\<rparr>" FRoot "File0\<lparr>FstClus := 2\<rparr>" "[2]"]
    fs_on_wf[OF disk1_wf(1)] by (auto simp: wf_fs_def wf_File_def File0_def fget_def disk1_entries fat_len_def released_def)

end
