(* ===== verification/Exec.thy ===== *)
theory Exec
  imports Process Files
begin

text \<open>
  Loading a program from the file system: \<^verbatim>\<open>src/userprog/exec.c\<close>. The functions read the second disk with \<^verbatim>\<open>ide_read\<close>, one sector at a time; its
  sectors are the parameter \<open>sec\<close>, what theory \<open>Idexfer\<close> shows \<^verbatim>\<open>ide_read\<close> to deliver. A buffer that \<^verbatim>\<open>sys_read_file\<close> fills is the sequence of the
  bytes it has written. The bytes of the user pages are the field \<open>umem\<close>; the tables that map them are those of theory \<open>Memory\<close>.
\<close>

record exec =
  x_mem :: mem
  x_k :: kstate
  x_img :: "u8 list"
  umem :: "u32 \<Rightarrow> u8"

subsection \<open>Reading a file\<close>

fun sys_update_img_from :: "nat \<Rightarrow> nat \<Rightarrow> (nat \<Rightarrow> u8 list) \<Rightarrow> u8 list \<Rightarrow> u8 list" where
  "sys_update_img_from 0 i sec im = im"
| "sys_update_img_from (Suc n) i sec im = sys_update_img_from n (Suc i) sec (take (i * 512) im @ sec i @ drop (i * 512 + 512) im)"

definition sys_update_img :: "(nat \<Rightarrow> u8 list) \<Rightarrow> u8 list \<Rightarrow> u8 list" where
  "sys_update_img = sys_update_img_from 20 0"

definition sys_get_fat_next_cluster :: "u16 \<Rightarrow> (nat \<Rightarrow> u8 list) \<Rightarrow> u8 list \<Rightarrow> (u16 \<times> u8 list) res" where
  "sys_get_fat_next_cluster clusID sec im =
     (let im1 = sys_update_img sec im
      in andthen (rd im1 (512 + fat_pos clusID)) (\<lambda>a.
         andthen (rd im1 (512 + fat_pos clusID + 1)) (\<lambda>b.
         Inr (if unat clusID mod 2 = 0 then even_entry a b else odd_entry a b, im1))))"

text \<open>The inner loop: bytes of the sector are appended until the buffer has the size asked for.\<close>

fun copy_until :: "nat \<Rightarrow> u8 list \<Rightarrow> u8 list \<Rightarrow> bool \<times> u8 list" where
  "copy_until sz [] dst = (False, dst)"
| "copy_until sz (b # bs) dst = (if length (dst @ [b]) = sz then (True, dst @ [b]) else copy_until sz bs (dst @ [b]))"

partial_function (option) sys_read_loop :: "(nat \<Rightarrow> u8 list) \<Rightarrow> nat \<Rightarrow> u16 \<Rightarrow> u32 \<Rightarrow> u8 list \<Rightarrow> u8 list \<Rightarrow> (u32 \<times> u8 list \<times> u8 list) run" where
  "sys_read_loop sec sz clusID offset dst im =
     (if clusID \<ge> 0xFF8 \<and> clusID \<le> 0xFFF then Some (Inr (- 1, dst, im))
      else if offset \<ge> 512
      then bindr (Some (sys_get_fat_next_cluster clusID sec im)) (\<lambda>r. sys_read_loop sec sz (fst r) (offset - 512) dst (snd r))
      else if fst (copy_until sz (drop (unat offset) (sec (unat clusID + 31))) dst)
      then Some (Inr (word_of_nat sz, snd (copy_until sz (drop (unat offset) (sec (unat clusID + 31))) dst), im))
      else bindr (Some (sys_get_fat_next_cluster clusID sec im)) (\<lambda>r.
        sys_read_loop sec sz (fst r) 0 (snd (copy_until sz (drop (unat offset) (sec (unat clusID + 31))) dst)) (snd r)))"

definition sys_read_file :: "(nat \<Rightarrow> u8 list) \<Rightarrow> File \<Rightarrow> u32 \<Rightarrow> u32 \<Rightarrow> u8 list \<Rightarrow> (u32 \<times> u8 list \<times> u8 list) run" where
  "sys_read_file sec f offset sz im = sys_read_loop sec (unat sz) (FstClus f) offset [] im"

subsection \<open>Loading a segment\<close>

definition occupy_pages :: "u32 \<Rightarrow> u32 \<Rightarrow> u32" where
  "occupy_pages filesz vaddr =
     (let size_in_first_page = PG_SIZE - (vaddr AND 0xfff)
      in if filesz > size_in_first_page then DIV_ROUND_UP (filesz - size_in_first_page) PG_SIZE + 1 else 1)"

text \<open>
  The loop over the pages: a page without an entry in the directory or in its table is allocated. The result is whether it got all of them;
  a caller that has to wait for the lock of the pool does not go on here (\<open>None\<close>).
\<close>

definition page_missing :: "u32 \<Rightarrow> pmem \<Rightarrow> bool res" where
  "page_missing v m = andthen (load (pde_ptr v) m) (\<lambda>pde. if pde AND 1 = 0 then Inr True else andthen (load (pte_ptr v) m) (\<lambda>pte. Inr (pte AND 1 = 0)))"

fun segment_pages :: "nat \<Rightarrow> u32 \<Rightarrow> exec \<Rightarrow> (bool \<times> exec) run" where
  "segment_pages 0 v x = Some (Inr (True, x))"
| "segment_pages (Suc n) v x =
     bindr (Some (page_missing v (mm (x_mem x)))) (\<lambda>missing.
     if missing
     then bindr (Some (get_one_page PF_USER v (x_mem x) (x_k x))) (\<lambda>r. case r of
            Suspend m k \<Rightarrow> None
          | Return a m k \<Rightarrow> if a = NULL then Some (Inr (False, x\<lparr>x_mem := m, x_k := k\<rparr>))
              else segment_pages n (v + PG_SIZE) (x\<lparr>x_mem := m, x_k := k\<rparr>))
     else segment_pages n (v + PG_SIZE) x)"

text \<open>Bytes stored from a virtual address on, each in a mapped page.\<close>

fun put_bytes :: "u32 \<Rightarrow> u8 list \<Rightarrow> exec \<Rightarrow> exec res" where
  "put_bytes v [] x = Inr x"
| "put_bytes v (b # bs) x =
     (case translate (mm (x_mem x)) v of None \<Rightarrow> Inl PageFault | Some _ \<Rightarrow> put_bytes (v + 1) bs (x\<lparr>umem := (umem x)(v := b)\<rparr>))"

definition segment_load :: "(nat \<Rightarrow> u8 list) \<Rightarrow> File \<Rightarrow> u32 \<Rightarrow> u32 \<Rightarrow> u32 \<Rightarrow> exec \<Rightarrow> (bool \<times> exec) run" where
  "segment_load sec f offset filesz vaddr x =
     bindr (segment_pages (unat (occupy_pages filesz vaddr)) (vaddr AND 0xfffff000) x) (\<lambda>(ok, x).
     if \<not> ok then Some (Inr (False, x))
     else bindr (sys_read_file sec f offset filesz (x_img x)) (\<lambda>(n, bytes, im).
       bindr (Some (put_bytes vaddr bytes (x\<lparr>x_img := im\<rparr>))) (\<lambda>x. Some (Inr (True, x)))))"

subsection \<open>Loading a program\<close>

record Elf32_Ehdr =
  e_ident :: "u8 list"
  e_type :: u16
  e_machine :: u16
  e_version :: u32
  e_entry :: u32
  e_phoff :: u32
  e_shoff :: u32
  e_flags :: u32
  e_ehsize :: u16
  e_phentsize :: u16
  e_phnum :: u16
  e_shentsize :: u16
  e_shnum :: u16
  e_shstrndx :: u16

record Elf32_Phdr =
  p_type :: u32
  p_offset :: u32
  p_vaddr :: u32
  p_paddr :: u32
  p_filesz :: u32
  p_memsz :: u32
  p_flags :: u32
  p_align :: u32

definition ehdr_of :: "u8 list \<Rightarrow> Elf32_Ehdr" where
  "ehdr_of bs = \<lparr>e_ident = take 16 bs, e_type = le16 bs 16, e_machine = le16 bs 18, e_version = le32 bs 20, e_entry = le32 bs 24, e_phoff = le32 bs 28,
     e_shoff = le32 bs 32, e_flags = le32 bs 36, e_ehsize = le16 bs 40, e_phentsize = le16 bs 42, e_phnum = le16 bs 44, e_shentsize = le16 bs 46,
     e_shnum = le16 bs 48, e_shstrndx = le16 bs 50\<rparr>"

definition phdr_of :: "u8 list \<Rightarrow> Elf32_Phdr" where
  "phdr_of bs = \<lparr>p_type = le32 bs 0, p_offset = le32 bs 4, p_vaddr = le32 bs 8, p_paddr = le32 bs 12, p_filesz = le32 bs 16, p_memsz = le32 bs 20,
     p_flags = le32 bs 24, p_align = le32 bs 28\<rparr>"

definition PT_LOAD :: u32 where "PT_LOAD = 1"

definition elf_bad :: "Elf32_Ehdr \<Rightarrow> bool" where
  "elf_bad h \<longleftrightarrow> take 7 (e_ident h) \<noteq> [127, 69, 76, 70, 1, 1, 1] \<or> e_type h \<noteq> 2 \<or> e_machine h \<noteq> 3 \<or> e_version h \<noteq> 1 \<or> e_phnum h > 1024 \<or>
     e_phentsize h \<noteq> 32"

text \<open>The loop over the program headers; the result is \<^verbatim>\<open>-1\<close> or the entry point.\<close>

fun load_loop :: "nat \<Rightarrow> (nat \<Rightarrow> u8 list) \<Rightarrow> File \<Rightarrow> Elf32_Ehdr \<Rightarrow> u32 \<Rightarrow> exec \<Rightarrow> (u32 \<times> exec) run" where
  "load_loop 0 sec f h prog_header_offset x = Some (Inr (e_entry h, x))"
| "load_loop (Suc n) sec f h prog_header_offset x =
     bindr (sys_read_file sec f prog_header_offset (ucast (e_phentsize h)) (x_img x)) (\<lambda>(r, bytes, im).
     let x = x\<lparr>x_img := im\<rparr>; ph = phdr_of bytes
     in if r \<noteq> ucast (e_phentsize h) then Some (Inr (- 1, x))
        else bindr (if p_type ph = PT_LOAD then segment_load sec f (p_offset ph) (p_filesz ph) (p_vaddr ph) x else Some (Inr (True, x))) (\<lambda>(ok, x).
          if \<not> ok then Some (Inr (- 1, x)) else load_loop n sec f h (prog_header_offset + ucast (e_phentsize h)) x))"

definition elf_load :: "(nat \<Rightarrow> u8 list) \<Rightarrow> File \<Rightarrow> exec \<Rightarrow> (u32 \<times> exec) run" where
  "elf_load sec f x =
     bindr (sys_read_file sec f 0 52 (x_img x)) (\<lambda>(r, bytes, im).
     let x = x\<lparr>x_img := im\<rparr>; h = ehdr_of bytes
     in if r \<noteq> 52 then Some (Inr (- 1, x))
        else if elf_bad h then Some (Inr (- 1, x))
        else load_loop (unat (e_phnum h)) sec f h (e_phoff h) x)"

text \<open>
  \<^verbatim>\<open>sys_execv\<close>: the result is \<^verbatim>\<open>-1\<close>, or the frame with which the new program is entered. The name is 16 bytes from \<^verbatim>\<open>Filename\<close> on, which has 11.
\<close>

definition sys_execv :: "(nat \<Rightarrow> u8 list) \<Rightarrow> File \<Rightarrow> u32 \<Rightarrow> intr_stack \<Rightarrow> exec \<Rightarrow> (intr_stack option \<times> exec) run" where
  "sys_execv sec f argv fr x =
     bindr (elf_load sec f x) (\<lambda>(entry_point, x).
     if entry_point = - 1 then Some (Inr (None, x))
     else Some (Inr (Some (fr\<lparr>is_ebx := argv, is_ecx := 0, is_eip := entry_point, is_esp := 0xc0000000\<rparr>),
       x\<lparr>x_k := upd_pcb (running_thread (x_k x)) (\<lambda>p. p\<lparr>name := take 16 (Filename f @ [Attr f] @ Reserved f)\<rparr>) (x_k x)\<rparr>)))"

subsection \<open>A read is a slice of the file\<close>

text \<open>The sectors of a volume, and the bytes of a chain of clusters.\<close>

definition sectors_of :: "disk \<Rightarrow> nat \<Rightarrow> u8 list" where
  "sectors_of d n = sdb d (sno n)"

definition chain_bytes :: "disk \<Rightarrow> nat list \<Rightarrow> u8 list" where
  "chain_bytes d cs = concat (map (\<lambda>c. sectors_of d (c + 31)) cs)"

lemma sys_update_img_from_eq:
  "i + n \<le> 20 \<Longrightarrow> update_img_from n i (d\<lparr>img := im\<rparr>) = Inr (d\<lparr>img := sys_update_img_from n i (sectors_of d) im\<rparr>)"
proof (induction n arbitrary: i im)
  case (Suc n)
  then show ?case
    using read_sector_ok[of i "d\<lparr>img := im\<rparr>"] by (simp add: sectors_of_def)
qed simp

lemma sys_get_fat_next_cluster_ok:
  assumes "wf_disk d" "unat c < fat_len" "length im = 10240"
  shows "sys_get_fat_next_cluster c (sectors_of d) im = Inr (fat_entry d (unat c), fresh_img d)"
proof -
  let ?d = "d\<lparr>img := im\<rparr>"
  have wf: "wf_disk ?d"
    using assms(1,3) by (simp add: wf_disk_def)
  have f: "fresh_img ?d = fresh_img d" "fat_entry ?d k = fat_entry d k" for k
    by (simp_all add: fresh_img_def fat_entry_def fatb_def entry_of_def)
  have "update_img ?d = Inr (d\<lparr>img := sys_update_img (sectors_of d) im\<rparr>)"
    using sys_update_img_from_eq[of 0 20 im d] by (simp add: update_img_def sys_update_img_def)
  then have i: "sys_update_img (sectors_of d) im = fresh_img d"
    using update_img_ok[OF wf] f(1) by simp (metis disk.select_convs(2) disk.surjective disk.update_convs(2))
  have g: "get_fat_next_cluster c ?d = Inr (fat_entry d (unat c), d\<lparr>img := fresh_img d\<rparr>)"
    using get_fat_next_cluster_ok[OF wf assms(2)] f by simp
  show ?thesis
    using g update_img_ok[OF wf] f(1) i by (auto simp: get_fat_next_cluster_def sys_get_fat_next_cluster_def Let_def andthen_Inr_iff)
qed

lemma copy_until_spec:
  "length dst < sz \<Longrightarrow> copy_until sz bs dst =
    (if sz \<le> length dst + length bs then (True, dst @ take (sz - length dst) bs) else (False, dst @ bs))"
proof (induction bs arbitrary: dst)
  case (Cons b bs)
  show ?case
  proof (cases "Suc (length dst) = sz")
    case False
    then have "sz - length dst = Suc (sz - Suc (length dst))" "length (dst @ [b]) < sz"
      using Cons.prems by auto
    then show ?thesis
      using Cons.IH[of "dst @ [b]"] False by simp
  qed auto
qed simp

lemma fat_entry_12: "fat_entry d c \<le> 0xFFF"
proof -
  have "\<not> bit (fat_entry d c) n" if "12 \<le> n" for n
    using that by (simp add: fat_entry_def entry_of_def even_entry_bit odd_entry_bit)
  then have "take_bit 12 (fat_entry d c) = fat_entry d c"
    by (intro bit_word_eqI) (auto simp: bit_simps not_le[symmetric])
  then have "unat (fat_entry d c) < 2 ^ 12"
    by (metis take_bit_nat_less_exp unsigned_take_bit_eq)
  then show ?thesis
    by (simp add: word_le_nat_alt)
qed

text \<open>The outcome of a read of \<open>sz\<close> bytes that has got \<open>dst\<close> and finds \<open>rest\<close> behind it.\<close>

definition read_outcome :: "nat \<Rightarrow> u8 list \<Rightarrow> u8 list \<Rightarrow> u32 \<times> u8 list" where
  "read_outcome sz dst rest =
     (if sz \<le> length dst + length rest then (word_of_nat sz, dst @ take (sz - length dst) rest) else (- 1, dst @ rest))"

lemma sys_read_loop_end:
  "0xFF8 \<le> fat_entry d c \<Longrightarrow> sys_read_loop sec sz (fat_entry d c) offset dst im = Some (Inr (- 1, dst, im))"
  using fat_entry_12[of d c] by (subst sys_read_loop.simps) simp

lemma sys_read_loop_step:
  assumes d: "wf_disk d" and c: "unat c \<le> 2849" and dst: "length dst < sz" "length im = 10240"
  defines "s \<equiv> sectors_of d (unat c + 31)" and "n \<equiv> fat_entry d (unat c)"
  shows "sys_read_loop (sectors_of d) sz c offset dst im =
    (if 512 \<le> unat offset then sys_read_loop (sectors_of d) sz n (offset - 512) dst (fresh_img d)
     else if sz \<le> length dst + (512 - unat offset) then Some (Inr (word_of_nat sz, dst @ take (sz - length dst) (drop (unat offset) s), im))
     else sys_read_loop (sectors_of d) sz n 0 (dst @ drop (unat offset) s) (fresh_img d))"
proof -
  have l: "length s = 512"
    using wf_sector[OF d, of "unat c + 31"] c by (simp add: s_def sectors_of_def)
  have e: "\<not> (0xFF8 \<le> c \<and> c \<le> 0xFFF)" "512 \<le> offset \<longleftrightarrow> 512 \<le> unat offset"
    using c by (simp_all add: word_le_nat_alt)
  have g: "sys_get_fat_next_cluster c (sectors_of d) im = Inr (n, fresh_img d)"
    using sys_get_fat_next_cluster_ok[OF d _ dst(2), of c] c by (simp add: n_def fat_len_def)
  show ?thesis
    using copy_until_spec[OF dst(1), of "drop (unat offset) s"] e l g
    by (subst sys_read_loop.simps) (auto simp: s_def)
qed

lemma sys_read_loop_chain:
  assumes d: "wf_disk d" and c: "fat_chain d (unat c # cs)" "\<forall>k \<in> set (unat c # cs). k \<le> 2849" and dst: "length dst < sz" "length im = 10240"
  shows "\<exists>im'. length im' = 10240 \<and> sys_read_loop (sectors_of d) sz c offset dst im = Some (Inr
    (fst (read_outcome sz dst (drop (unat offset) (chain_bytes d (unat c # cs)))), snd (read_outcome sz dst (drop (unat offset) (chain_bytes d (unat c # cs)))), im'))"
  using c dst
proof (induction cs arbitrary: c offset dst im)
  case Nil
  let ?s = "sectors_of d (unat c + 31)"
  have l: "length ?s = 512" "unat c \<le> 2849" "0xFF8 \<le> fat_entry d (unat c)"
    using wf_sector[OF d, of "unat c + 31"] Nil.prems by (simp_all add: sectors_of_def)
  show ?case
    using sys_read_loop_step[OF d l(2) Nil.prems(3,4), of offset] sys_read_loop_end[OF l(3)] Nil.prems(3,4) fresh_img_props(1)[OF d] l(1)
    by (auto simp: read_outcome_def chain_bytes_def)
next
  case (Cons k cs)
  let ?s = "sectors_of d (unat c + 31)" and ?n = "fat_entry d (unat c)"
  have l: "length ?s = 512" "unat c \<le> 2849" "unat ?n = k" "fat_chain d (k # cs)"
    using wf_sector[OF d, of "unat c + 31"] Cons.prems by (simp_all add: sectors_of_def)
  note f = fresh_img_props(1)[OF d]
  have n: "fat_chain d (unat ?n # cs)" "\<forall>j \<in> set (unat ?n # cs). j \<le> 2849"
    using l(3,4) Cons.prems(2) by simp_all
  have b: "chain_bytes d (unat c # k # cs) = ?s @ chain_bytes d (unat ?n # cs)"
    by (simp add: chain_bytes_def l(3))
  show ?case
  proof (cases "512 \<le> unat offset")
    case True
    then have "unat (offset - 512) = unat offset - 512"
      by (simp add: unat_sub word_le_nat_alt)
    then have "drop (unat offset) (chain_bytes d (unat c # k # cs)) = drop (unat (offset - 512)) (chain_bytes d (unat ?n # cs))"
      using True l(1) b by simp
    then show ?thesis
      using Cons.IH[OF n Cons.prems(3) f, of "offset - 512"] sys_read_loop_step[OF d l(2) Cons.prems(3,4), of offset] True by simp
  next
    case False
    then have r: "drop (unat offset) (chain_bytes d (unat c # k # cs)) = drop (unat offset) ?s @ chain_bytes d (unat ?n # cs)"
      using l(1) b by simp
    show ?thesis
    proof (cases "sz \<le> length dst + (512 - unat offset)")
      case True
      then show ?thesis
        using sys_read_loop_step[OF d l(2) Cons.prems(3,4), of offset] False r l(1) Cons.prems(4) by (auto simp: read_outcome_def)
    next
      case ne: False
      then have "length (dst @ drop (unat offset) ?s) < sz"
        using l(1) by simp
      moreover have "read_outcome sz dst (drop (unat offset) ?s @ xs) = read_outcome sz (dst @ drop (unat offset) ?s) xs" for xs
        using ne l(1) by (auto simp: read_outcome_def take_append)
      ultimately show ?thesis
        using Cons.IH[OF n _ f, of "dst @ drop (unat offset) ?s" 0] sys_read_loop_step[OF d l(2) Cons.prems(3,4), of offset] False ne r by simp
    qed
  qed
qed

text \<open>
  C16. \<^verbatim>\<open>sys_read_file\<close> reads a slice of the file: for a file whose clusters form a chain of data clusters and a size that is not 0, the call ends; if the
  file has that many bytes from the offset on, it delivers exactly these and returns their number, otherwise it delivers what there is and returns -1.
\<close>

theorem sys_read_file_slice:
  assumes "wf_disk d" "fat_chain d cs" "\<forall>k \<in> set cs. k \<le> 2849" "hd cs = unat (FstClus f)" "0 < sz" "length im = 10240"
  shows "\<exists>im'. sys_read_file (sectors_of d) f offset sz im = Some (Inr
    (if unat offset + unat sz \<le> length (chain_bytes d cs)
     then (sz, take (unat sz) (drop (unat offset) (chain_bytes d cs)), im') else (- 1, drop (unat offset) (chain_bytes d cs), im')))"
proof -
  obtain ks where ks: "cs = unat (FstClus f) # ks"
    using assms(2,4) by (cases cs) auto
  have "0 < unat sz"
    using assms(5) by (simp add: word_less_nat_alt)
  then obtain im' where "sys_read_loop (sectors_of d) (unat sz) (FstClus f) offset [] im = Some (Inr
      (fst (read_outcome (unat sz) [] (drop (unat offset) (chain_bytes d cs))), snd (read_outcome (unat sz) [] (drop (unat offset) (chain_bytes d cs))), im'))"
    using sys_read_loop_chain[OF assms(1), of "FstClus f" ks "[]" "unat sz" im offset] assms(2,3,6) ks by auto
  then show ?thesis
    using \<open>0 < unat sz\<close> by (auto simp: sys_read_file_def read_outcome_def)
qed

subsection \<open>A program is loaded where its headers say\<close>

fun patch :: "u32 \<Rightarrow> u8 list \<Rightarrow> (u32 \<Rightarrow> u8) \<Rightarrow> u32 \<Rightarrow> u8" where
  "patch v [] u = u"
| "patch v (b # bs) u = patch (v + 1) bs (u(v := b))"

text \<open>The memory after the loadable segments of a file have been copied one after the other.\<close>

fun load_image :: "u8 list \<Rightarrow> Elf32_Phdr list \<Rightarrow> (u32 \<Rightarrow> u8) \<Rightarrow> u32 \<Rightarrow> u8" where
  "load_image C [] u = u"
| "load_image C (ph # phs) u =
     load_image C phs (if p_type ph = PT_LOAD then patch (p_vaddr ph) (take (unat (p_filesz ph)) (drop (unat (p_offset ph)) C)) u else u)"

text \<open>The program headers of a file, and a segment that lies in the file and whose bytes have mapped addresses below the kernel.\<close>

definition phdrs :: "u8 list \<Rightarrow> Elf32_Ehdr \<Rightarrow> Elf32_Phdr list" where
  "phdrs C h = map (\<lambda>i. phdr_of (take 32 (drop (unat (e_phoff h) + 32 * i) C))) [0..<unat (e_phnum h)]"

definition segment_ok :: "u8 list \<Rightarrow> pmem \<Rightarrow> Elf32_Phdr \<Rightarrow> bool" where
  "segment_ok C m ph \<longleftrightarrow> p_type ph \<noteq> PT_LOAD \<or> 0 < p_filesz ph \<and> unat (p_offset ph) + unat (p_filesz ph) \<le> length C \<and>
     unat (p_vaddr ph) + unat (p_filesz ph) \<le> 0xc0000000 \<and> (\<forall>j < unat (p_filesz ph). translate m (p_vaddr ph + word_of_nat j) \<noteq> None)"

lemma put_bytes_ok:
  "(\<And>j. j < length bs \<Longrightarrow> translate (mm (x_mem x)) (v + word_of_nat j) \<noteq> None) \<Longrightarrow> put_bytes v bs x = Inr (x\<lparr>umem := patch v bs (umem x)\<rparr>)"
proof (induction bs arbitrary: v x)
  case (Cons b bs)
  have "translate (mm (x_mem x)) v \<noteq> None"
    using Cons.prems[of 0] by simp
  moreover have "translate (mm (x_mem x)) (v + 1 + word_of_nat j) \<noteq> None" if "j < length bs" for j
    using Cons.prems[of "Suc j"] that by (simp add: add.assoc)
  ultimately show ?case
    using Cons.IH[of "x\<lparr>umem := (umem x)(v := b)\<rparr>" "v + 1"] by (auto simp: fun_upd_def)
qed simp

lemma page_present:
  assumes "wf_pd m" "same_page v w" "translate m w \<noteq> None"
  shows "page_missing v m = Inr False"
proof -
  have "pdi v = pdi w" "pti v = pti w"
    using assms(2) by (simp_all add: same_page_fields)
  then have "present (ram m (pde_addr m v))" "present (ram m (pte_addr m v))"
    using assms(3) by (auto simp: translate_def pde_addr_def pte_addr_def split: if_splits)
  then show ?thesis
    using translate_pte_ptr[OF assms(1), of v] translate_pde_ptr[OF assms(1), of v]
    by (simp add: page_missing_def load_def pde_addr_entry present_def)
qed

lemma occupy_pages_bound:
  assumes "0 < filesz" "unat v + unat filesz \<le> 0xc0000000" "i < unat (occupy_pages filesz v)"
  shows "i * 4096 \<le> unat v mod 4096 + unat filesz - 1"
proof -
  define off where "off = unat v mod 4096"
  have o: "unat (PG_SIZE - (v AND 0xfff)) = 4096 - off"
    using unat_off[of v] by (subst unat_sub) (simp_all add: PG_SIZE_def word_le_nat_alt off_def less_imp_le)
  have off: "off < 4096" "0 < unat filesz"
    using assms(1) by (simp_all add: off_def word_less_nat_alt)
  show ?thesis
  proof (cases "4096 - off < unat filesz")
    case True
    let ?l = "filesz - (PG_SIZE - (v AND 0xfff))"
    have l: "unat ?l = unat filesz - (4096 - off)"
      using True o by (subst unat_sub) (simp_all add: word_le_nat_alt)
    have "unat (?l + PG_SIZE) = unat ?l + 4096"
      using l True off assms(2) by (intro trans[OF unat_add_lt]) (simp_all add: PG_SIZE_def)
    then have "unat (?l + PG_SIZE - 1) = unat ?l + 4095"
      by (subst unat_sub) (simp_all add: word_le_nat_alt)
    then have u: "unat (DIV_ROUND_UP ?l PG_SIZE) = (unat ?l + 4095) div 4096"
      unfolding DIV_ROUND_UP_def unat_div_distrib by (simp add: PG_SIZE_def)
    have "unat (DIV_ROUND_UP ?l PG_SIZE + 1) = (unat ?l + 4095) div 4096 + 1"
      using u l assms(2) by (subst unat_add_lt) simp_all
    moreover have "occupy_pages filesz v = DIV_ROUND_UP ?l PG_SIZE + 1"
      using True o by (simp add: occupy_pages_def Let_def word_less_nat_alt)
    ultimately have "i \<le> (unat ?l + 4095) div 4096"
      using assms(3) by simp
    then have "i * 4096 \<le> (unat ?l + 4095) div 4096 * 4096"
      by (rule mult_le_mono1)
    then have "i * 4096 \<le> unat ?l + 4095"
      using div_times_less_eq_dividend[of "unat ?l + 4095" 4096] by linarith
    then show ?thesis
      using l True off by (simp add: off_def[symmetric])
  next
    case False
    then have "occupy_pages filesz v = 1"
      using o by (simp add: occupy_pages_def Let_def word_less_nat_alt)
    then show ?thesis
      using assms(3) by simp
  qed
qed

lemma segment_pages_present:
  "(\<And>i. i < n \<Longrightarrow> page_missing (v + word_of_nat i * PG_SIZE) (mm (x_mem x)) = Inr False) \<Longrightarrow> segment_pages n v x = Some (Inr (True, x))"
proof (induction n arbitrary: v)
  case (Suc n)
  have "page_missing v (mm (x_mem x)) = Inr False"
    using Suc.prems[of 0] by simp
  moreover have "page_missing (v + PG_SIZE + word_of_nat i * PG_SIZE) (mm (x_mem x)) = Inr False" if "i < n" for i
    using Suc.prems[of "Suc i"] that by (simp add: algebra_simps)
  ultimately show ?case
    using Suc.IH[of "v + PG_SIZE"] by simp
qed simp

lemma segment_pages_ok:
  assumes wf: "wf_pd (mm (x_mem x))" and n: "0 < filesz" "unat v + unat filesz \<le> 0xc0000000"
    and t: "\<And>j. j < unat filesz \<Longrightarrow> translate (mm (x_mem x)) (v + word_of_nat j) \<noteq> None"
  shows "segment_pages (unat (occupy_pages filesz v)) (v AND 0xfffff000) x = Some (Inr (True, x))"
proof (rule segment_pages_present)
  fix i assume i: "i < unat (occupy_pages filesz v)"
  define off where "off = unat v mod 4096"
  have f: "v AND 0xfffff000 = frame v" "unat (frame v) = unat v div 4096 * 4096"
    by (simp add: frame_def) (rule unat_frame)
  have b: "i * 4096 \<le> off + unat filesz - 1" "off < 4096" "0 < unat filesz" "unat v = unat v div 4096 * 4096 + off"
    using occupy_pages_bound[OF n i] n(1) by (simp_all add: off_def word_less_nat_alt)
  have iu: "unat (word_of_nat i * PG_SIZE) = i * 4096"
    using b n(2) unat_page_mult[of i] by simp
  have u: "unat (frame v + word_of_nat i * PG_SIZE) = unat v div 4096 * 4096 + i * 4096"
    using b n(2) iu f(2) by (subst unat_add_lt) simp_all
  define j where "j = i * 4096 - off"
  have "unat (v + word_of_nat j) = unat v + j"
    using b n(2) by (subst unat_add_lt) (simp_all add: j_def unat_of_nat_lt)
  then have "unat (v + word_of_nat j) div 4096 = unat v div 4096 + i"
    using b(2,4) by (cases "i = 0") (simp_all add: j_def)
  then have "same_page (frame v + word_of_nat i * PG_SIZE) (v + word_of_nat j)"
    unfolding same_page_unat u by simp
  moreover have "j < unat filesz"
    using b by (auto simp: j_def)
  ultimately show "page_missing ((v AND 0xfffff000) + word_of_nat i * PG_SIZE) (mm (x_mem x)) = Inr False"
    using page_present[OF wf _ t[of j]] f(1) by simp
qed

text \<open>Reading from an offset of a file on the volume \<open>d\<close> with the clusters \<open>cs\<close>.\<close>

lemma sys_read_file_ok:
  assumes "wf_disk d" "fat_chain d cs" "\<forall>k \<in> set cs. k \<le> 2849" "hd cs = unat (FstClus f)" "0 < sz" "length im = 10240"
    "unat offset + unat sz \<le> length (chain_bytes d cs)"
  shows "\<exists>im'. length im' = 10240 \<and> sys_read_file (sectors_of d) f offset sz im = Some (Inr (sz, take (unat sz) (drop (unat offset) (chain_bytes d cs)), im'))"
proof -
  obtain ks where ks: "cs = unat (FstClus f) # ks"
    using assms(2,4) by (cases cs) auto
  have "0 < unat sz"
    using assms(5) by (simp add: word_less_nat_alt)
  then show ?thesis
    using sys_read_loop_chain[OF assms(1), of "FstClus f" ks "[]" "unat sz" im offset] assms(2,3,6,7) ks
    by (auto simp: sys_read_file_def read_outcome_def)
qed

lemma segment_load_ok:
  assumes d: "wf_disk d" "fat_chain d cs" "\<forall>k \<in> set cs. k \<le> 2849" "hd cs = unat (FstClus f)" "length (x_img x) = 10240"
    and s: "segment_ok (chain_bytes d cs) (mm (x_mem x)) ph" "p_type ph = PT_LOAD" "wf_pd (mm (x_mem x))"
  shows "\<exists>im. length im = 10240 \<and> segment_load (sectors_of d) f (p_offset ph) (p_filesz ph) (p_vaddr ph) x = Some (Inr (True, x\<lparr>x_img := im,
    umem := patch (p_vaddr ph) (take (unat (p_filesz ph)) (drop (unat (p_offset ph)) (chain_bytes d cs))) (umem x)\<rparr>))"
proof -
  let ?bs = "take (unat (p_filesz ph)) (drop (unat (p_offset ph)) (chain_bytes d cs))"
  have p: "0 < p_filesz ph" "unat (p_offset ph) + unat (p_filesz ph) \<le> length (chain_bytes d cs)" "unat (p_vaddr ph) + unat (p_filesz ph) \<le> 0xc0000000"
    "\<And>j. j < unat (p_filesz ph) \<Longrightarrow> translate (mm (x_mem x)) (p_vaddr ph + word_of_nat j) \<noteq> None"
    using s(1,2) by (auto simp: segment_ok_def)
  obtain im where im: "length im = 10240" "sys_read_file (sectors_of d) f (p_offset ph) (p_filesz ph) (x_img x) = Some (Inr (p_filesz ph, ?bs, im))"
    using sys_read_file_ok[OF d(1-4) p(1) d(5) p(2)] by blast
  have "put_bytes (p_vaddr ph) ?bs (x\<lparr>x_img := im\<rparr>) = Inr (x\<lparr>x_img := im, umem := patch (p_vaddr ph) ?bs (umem x)\<rparr>)"
    using put_bytes_ok[of ?bs "x\<lparr>x_img := im\<rparr>" "p_vaddr ph"] p(4) by simp
  then show ?thesis
    using im segment_pages_ok[OF s(3) p(1,3,4)] by (intro exI[of _ im]) (simp add: segment_load_def)
qed

lemma load_loop_ok:
  assumes d: "wf_disk d" "fat_chain d cs" "\<forall>k \<in> set cs. k \<le> 2849" "hd cs = unat (FstClus f)" "length (x_img x) = 10240"
    and h: "e_phentsize h = 32" "unat off + 32 * n \<le> length (chain_bytes d cs)" "length (chain_bytes d cs) < 4294967296" "wf_pd (mm (x_mem x))"
    and s: "\<And>i. i < n \<Longrightarrow> segment_ok (chain_bytes d cs) (mm (x_mem x)) (phdr_of (take 32 (drop (unat off + 32 * i) (chain_bytes d cs))))"
  shows "\<exists>im. load_loop n (sectors_of d) f h off x = Some (Inr (e_entry h, x\<lparr>x_img := im,
    umem := load_image (chain_bytes d cs) (map (\<lambda>i. phdr_of (take 32 (drop (unat off + 32 * i) (chain_bytes d cs)))) [0..<n]) (umem x)\<rparr>))"
  using d(5) h(2,4) s
proof (induction n arbitrary: off x)
  case 0
  then show ?case
    by (intro exI[of _ "x_img x"]) simp
next
  case (Suc n)
  let ?C = "chain_bytes d cs"
  let ?ph = "\<lambda>off i. phdr_of (take 32 (drop (unat off + 32 * i) ?C))"
  obtain im where im: "length im = 10240" "sys_read_file (sectors_of d) f off 32 (x_img x) = Some (Inr (32, take 32 (drop (unat off) ?C), im))"
    using sys_read_file_ok[OF d(1-4) _ Suc.prems(1), of 32 off] Suc.prems(2) by auto
  let ?x = "x\<lparr>x_img := im\<rparr>"
  let ?u = "if p_type (?ph off 0) = PT_LOAD then patch (p_vaddr (?ph off 0)) (take (unat (p_filesz (?ph off 0))) (drop (unat (p_offset (?ph off 0))) ?C)) (umem x) else umem x"
  have "\<exists>im'. length im' = 10240 \<and> (if p_type (?ph off 0) = PT_LOAD
      then segment_load (sectors_of d) f (p_offset (?ph off 0)) (p_filesz (?ph off 0)) (p_vaddr (?ph off 0)) ?x else Some (Inr (True, ?x))) =
      Some (Inr (True, x\<lparr>x_img := im', umem := ?u\<rparr>))"
    using segment_load_ok[OF d(1-4), of ?x "?ph off 0"] im(1) Suc.prems(3) Suc.prems(4)[of 0] by (cases "p_type (?ph off 0) = PT_LOAD") auto
  then obtain im' where im': "length im' = 10240" "(if p_type (?ph off 0) = PT_LOAD
      then segment_load (sectors_of d) f (p_offset (?ph off 0)) (p_filesz (?ph off 0)) (p_vaddr (?ph off 0)) ?x else Some (Inr (True, ?x))) =
      Some (Inr (True, x\<lparr>x_img := im', umem := ?u\<rparr>))"
    by blast
  let ?y = "x\<lparr>x_img := im', umem := ?u\<rparr>"
  have o: "unat (off + 32) = unat off + 32"
    using Suc.prems(2) h(3) by (subst unat_add_lt) simp_all
  then have ph: "?ph (off + 32) i = ?ph off (Suc i)" for i
    by (simp add: algebra_simps)
  have run: "load_loop (Suc n) (sectors_of d) f h off x = load_loop n (sectors_of d) f h (off + 32) ?y"
    using im(2) im'(2) h(1) by (simp add: Let_def split: if_splits)
  have l: "[0..<Suc n] = 0 # map Suc [0..<n]"
    by (simp add: upt_conv_Cons map_Suc_upt del: upt_Suc)
  have seg: "segment_ok ?C (mm (x_mem ?y)) (?ph (off + 32) i)" if "i < n" for i
    using Suc.prems(4)[of "Suc i"] that by (simp add: ph)
  have "\<exists>im. load_loop n (sectors_of d) f h (off + 32) ?y = Some (Inr (e_entry h, ?y\<lparr>x_img := im,
      umem := load_image ?C (map (?ph (off + 32)) [0..<n]) (umem ?y)\<rparr>))"
    using Suc.prems(2,3) o im'(1) seg by (intro Suc.IH) auto
  then show ?case
    unfolding run l by (cases "p_type (?ph off 0) = PT_LOAD") (simp_all add: ph o_def del: upt_Suc)
qed

text \<open>Where a byte of a segment ends up.\<close>

lemma patch_below: "unat (w - v) + length bs < 4294967296 \<Longrightarrow> 0 < unat (w - v) \<Longrightarrow> patch w bs u v = u v"
proof (induction bs arbitrary: w u)
  case (Cons b bs)
  have e: "w + 1 - v = (w - v) + 1"
    by simp
  have "unat (w + 1 - v) = unat (w - v) + 1"
    unfolding e using Cons.prems(1) by (subst unat_add_lt) simp_all
  moreover have "w \<noteq> v"
    using Cons.prems(2) by auto
  ultimately show ?case
    using Cons.IH[of "w + 1" "u(w := b)"] Cons.prems by (simp add: fun_upd_def)
qed simp

lemma patch_at: "length bs < 4294967296 \<Longrightarrow> i < length bs \<Longrightarrow> patch v bs u (v + word_of_nat i) = bs ! i"
proof (induction bs arbitrary: v u i)
  case (Cons b bs)
  show ?case
  proof (cases i)
    case 0
    then show ?thesis
      using patch_below[of "v + 1" v bs "u(v := b)"] Cons.prems by simp
  next
    case (Suc j)
    then have "v + word_of_nat i = v + 1 + word_of_nat j"
      by simp
    then show ?thesis
      using Cons.IH[of j "v + 1" "u(v := b)"] Cons.prems Suc by (simp only: patch.simps) (simp add: fun_upd_def)
  qed
qed simp

text \<open>A file that \<^verbatim>\<open>load\<close> accepts: a header it does not refuse, program headers inside the file and segments that can be read and have their pages.\<close>

definition loadable :: "u8 list \<Rightarrow> pmem \<Rightarrow> bool" where
  "loadable C m \<longleftrightarrow> 52 \<le> length C \<and> length C < 4294967296 \<and> \<not> elf_bad (ehdr_of (take 52 C)) \<and>
     unat (e_phoff (ehdr_of (take 52 C))) + 32 * unat (e_phnum (ehdr_of (take 52 C))) \<le> length C \<and>
     (\<forall>ph \<in> set (phdrs C (ehdr_of (take 52 C))). segment_ok C m ph)"

lemma elf_load_ok:
  assumes "wf_disk d" "fat_chain d cs" "\<forall>k \<in> set cs. k \<le> 2849" "hd cs = unat (FstClus f)" "length (x_img x) = 10240"
    "wf_pd (mm (x_mem x))" "loadable (chain_bytes d cs) (mm (x_mem x))"
  defines "h \<equiv> ehdr_of (take 52 (chain_bytes d cs))"
  shows "\<exists>im. elf_load (sectors_of d) f x =
    Some (Inr (e_entry h, x\<lparr>x_img := im, umem := load_image (chain_bytes d cs) (phdrs (chain_bytes d cs) h) (umem x)\<rparr>))"
proof -
  let ?C = "chain_bytes d cs"
  have l: "52 \<le> length ?C" "length ?C < 4294967296" "\<not> elf_bad h" "unat (e_phoff h) + 32 * unat (e_phnum h) \<le> length ?C"
    "\<And>i. i < unat (e_phnum h) \<Longrightarrow> segment_ok ?C (mm (x_mem x)) (phdr_of (take 32 (drop (unat (e_phoff h) + 32 * i) ?C)))"
    using assms(7) by (auto simp: loadable_def h_def phdrs_def)
  obtain im where im: "length im = 10240" "sys_read_file (sectors_of d) f 0 52 (x_img x) = Some (Inr (52, take 52 ?C, im))"
    using sys_read_file_ok[OF assms(1-4) _ assms(5), of 52 0] l(1) by auto
  have "e_phentsize h = 32"
    using l(3) by (simp add: elf_bad_def)
  then show ?thesis
    using load_loop_ok[OF assms(1-4), of "x\<lparr>x_img := im\<rparr>" h "e_phoff h" "unat (e_phnum h)"] im l assms(6)
    by (simp add: elf_load_def h_def[symmetric] phdrs_def)
qed


subsection \<open>A volume with one program\<close>

text \<open>A file of one cluster: a header with one loadable segment of four bytes, which goes to address \<open>0x100\<close>, the entry point.\<close>

definition elf_file :: "u8 list" where
  "elf_file = [127, 69, 76, 70, 1, 1, 1, 0, 0, 0, 0, 0, 0, 0, 0, 0] @ [2, 0, 3, 0, 1, 0, 0, 0, 0, 1, 0, 0, 52, 0, 0, 0, 0, 0, 0, 0, 0, 0, 0, 0, 52, 0, 32, 0, 1, 0, 0, 0, 0, 0, 0, 0] @
     [1, 0, 0, 0, 84, 0, 0, 0, 0, 1, 0, 0, 0, 1, 0, 0, 4, 0, 0, 0, 4, 0, 0, 0, 5, 0, 0, 0, 0, 16, 0, 0] @ [0xEB, 0xFE, 0x90, 0x90] @ replicate 424 0"

definition disk_elf :: disk where
  "disk_elf = disk1\<lparr>sdb := (sdb disk1)(33 := elf_file)\<rparr>"

definition frame0 :: intr_stack where
  "frame0 = \<lparr>is_vector_id = 0x80, is_edi = 0, is_esi = 0, is_ebp = 0, is_esp_dummy = 0, is_ebx = 0, is_edx = 0, is_ecx = 0, is_eax = 0, is_gs = 0, is_fs = 0,
     is_es = 0, is_ds = 0, is_err_code = 0, is_eip = 0, is_cs = 0, is_eflags = 0, is_esp = 0, is_ss = 0\<rparr>"

definition exec0 :: exec where
  "exec0 = \<lparr>x_mem = mem0\<lparr>mm := pmem0\<rparr>, x_k = kstate0, x_img = replicate 10240 0, umem = (\<lambda>_. 0)\<rparr>"

lemma disk_elf_wf: "wf_disk disk_elf"
  by (auto simp: wf_disk_def disk_elf_def elf_file_def disk1_def disk0_def word_unat_eq_iff unat_sno)

lemma disk_elf_chain: "fat_chain disk_elf [2]" "chain_bytes disk_elf [2] = elf_file"
  by (simp_all add: chain_bytes_def sectors_of_def disk_elf_def fat_entry_def entry_of_def fatb_def disk1_def disk0_def sno_def even_entry_def fat_len_def)

lemma elf_file_headers:
  "e_entry (ehdr_of (take 52 elf_file)) = 0x100" "e_phoff (ehdr_of (take 52 elf_file)) = 52" "e_phnum (ehdr_of (take 52 elf_file)) = 1"
  "\<not> elf_bad (ehdr_of (take 52 elf_file))"
  by (simp_all add: elf_file_def ehdr_of_def le32_def le16_def elf_bad_def)

lemma elf_file_phdrs: "phdrs elf_file (ehdr_of (take 52 elf_file)) =
    [\<lparr>p_type = 1, p_offset = 84, p_vaddr = 0x100, p_paddr = 0x100, p_filesz = 4, p_memsz = 4, p_flags = 5, p_align = 0x1000\<rparr>]"
  by (simp add: phdrs_def elf_file_headers) (simp add: elf_file_def phdr_of_def le32_def)

lemma elf_file_loadable: "loadable elf_file pmem0"
proof -
  have t: "translate pmem0 (0x100 + word_of_nat j) \<noteq> None" if "j < 4" for j
  proof -
    have "unat (0x100 + word_of_nat j :: u32) = 0x100 + j"
      using that by (subst unat_add_lt) (simp_all add: unat_of_nat_lt)
    then have "pdi (0x100 + word_of_nat j) = 0" "pti (0x100 + word_of_nat j) = 0"
      using that by (simp_all add: word_unat_eq_iff unat_pdi unat_pti)
    then show ?thesis
      by (simp add: translate_def pde_addr_def pte_addr_def pmem0_def frame_def present_def)
  qed
  have "length elf_file = 512"
    by (simp add: elf_file_def)
  then show ?thesis
    using t by (simp add: loadable_def elf_file_headers elf_file_phdrs segment_ok_def PT_LOAD_def)
qed

theorem sys_read_file_slice_witness:
  "\<exists>im. sys_read_file (sectors_of disk_elf) (File0\<lparr>FstClus := 2\<rparr>) 84 4 (replicate 10240 0) = Some (Inr (4, [0xEB, 0xFE, 0x90, 0x90], im))"
  using sys_read_file_slice[OF disk_elf_wf disk_elf_chain(1), of "File0\<lparr>FstClus := 2\<rparr>" 4 "replicate 10240 0" 84] disk_elf_chain(2)
  by (simp add: elf_file_def)


end
