(* ===== verification/Fork.thy ===== *)
theory Fork
  imports Process
begin

text \<open>
  The creation of processes: \<^verbatim>\<open>process_execute\<close> of \<^verbatim>\<open>src/userprog/process.c\<close>, \<^verbatim>\<open>sys_fork\<close> of \<^verbatim>\<open>src/userprog/fork.c\<close> and \<^verbatim>\<open>thread_init\<close> of
  \<^verbatim>\<open>src/thread/thread.c\<close>. The state adds to the memory and the threads what a control block holds of a process: its virtual addresses, the address of their
  bitmap, the frame at the top of its kernel stack and its block descriptors. A call that has to wait for a lock has the outcome \<open>FWait\<close>. The addresses of the
  code that a new stack refers to are arguments.
\<close>

record procs =
  f_mem :: mem
  f_k :: kstate
  f_vaddr :: "u32 \<Rightarrow> virtual_addr"
  f_bits :: "u32 \<Rightarrow> u32"
  f_frame :: "u32 \<Rightarrow> intr_stack"
  f_descs :: "u32 \<Rightarrow> mem_block_desc list"

datatype 'a fcall = FRet 'a procs | FWait procs

definition fbind :: "'a fcall res \<Rightarrow> ('a \<Rightarrow> procs \<Rightarrow> 'b fcall res) \<Rightarrow> 'b fcall res" where
  "fbind r f = andthen r (\<lambda>c. case c of FRet x s \<Rightarrow> f x s | FWait s \<Rightarrow> Inr (FWait s))"

lemma fbind_simps [simp]:
  "fbind (Inr (FRet x s)) f = f x s" "fbind (Inr (FWait s)) f = Inr (FWait s)" "fbind (Inl e) f = Inl e"
  by (simp_all add: fbind_def)

text \<open>Calls of the page allocator and of the functions on threads.\<close>

definition on_mem :: "(mem \<Rightarrow> kstate \<Rightarrow> 'a mcall res) \<Rightarrow> procs \<Rightarrow> 'a fcall res" where
  "on_mem f s = andthen (f (f_mem s) (f_k s)) (\<lambda>r. case r of
     Return x m k \<Rightarrow> Inr (FRet x (s\<lparr>f_mem := m, f_k := k\<rparr>)) | Suspend m k \<Rightarrow> Inr (FWait (s\<lparr>f_mem := m, f_k := k\<rparr>)))"

definition on_thread :: "(mem \<Rightarrow> kstate \<Rightarrow> 'a kcall res) \<Rightarrow> procs \<Rightarrow> 'a fcall res" where
  "on_thread f s = andthen (f (f_mem s) (f_k s)) (\<lambda>r. case r of
     KRet x m k \<Rightarrow> Inr (FRet x (s\<lparr>f_mem := m, f_k := k\<rparr>)) | KWait m k \<Rightarrow> Inr (FWait (s\<lparr>f_mem := m, f_k := k\<rparr>)))"

subsection \<open>A process that starts with a function\<close>

definition default_priority :: u8 where "default_priority = 31"

definition process_execute :: "u32 \<Rightarrow> u32 \<Rightarrow> u32 \<Rightarrow> u8 list \<Rightarrow> procs \<Rightarrow> unit fcall res" where
  "process_execute kernel_thread start_process_addr proc nm s =
     fbind (on_mem (get_kernel_pages 1) s) (\<lambda>thread s.
     andthen (assert_c ''thread != NULL'' (thread \<noteq> NULL)) (\<lambda>_.
     fbind (on_thread (init_thread thread nm default_priority) s) (\<lambda>_ s.
     fbind (on_mem create_user_vaddr_bitmap s) (\<lambda>(bits, va) s.
     let s = s\<lparr>f_vaddr := (f_vaddr s)(thread := va), f_bits := (f_bits s)(thread := bits),
           f_k := thread_create kernel_thread thread start_process_addr proc (f_k s)\<rparr>
     in fbind (on_mem create_page_dir s) (\<lambda>pd s.
        let k = upd_pcb thread (\<lambda>p. p\<lparr>pg_dir := pd\<rparr>) (f_k s);
            (old_status, k) = k_intr_disable k
        in andthen (enlist thread k) (\<lambda>k.
           Inr (FRet () (s\<lparr>f_descs := (f_descs s)(thread := block_desc_init), f_k := k_intr_set_status old_status k\<rparr>))))))))"

text \<open>\<open>entry\<close> and \<open>idle\<close> are the addresses of the first process and of the idle loop.\<close>

definition thread_init :: "u32 \<Rightarrow> u32 \<Rightarrow> u32 \<Rightarrow> u32 \<Rightarrow> procs \<Rightarrow> unit fcall res" where
  "thread_init kernel_thread start_process_addr entry idle s =
     (let s = s\<lparr>f_k := pid_pool_init ((f_k s)\<lparr>thread_ready_list := [], thread_all_list := []\<rparr>)\<rparr>
      in fbind (process_execute kernel_thread start_process_addr entry (c_string ''init'') s) (\<lambda>_ s.
         fbind (on_thread make_main_thread s) (\<lambda>_ s.
         fbind (on_thread (thread_start kernel_thread (c_string ''idle'') 10 idle 0) s) (\<lambda>t s.
         Inr (FRet () (s\<lparr>f_k := (f_k s)\<lparr>idle_thread := t\<rparr>\<rparr>))))))"

subsection \<open>Copying a process\<close>

text \<open>The name of a control block is copied with what is behind its end; \<open>name_len\<close> is its \<^verbatim>\<open>strlen\<close>.\<close>

definition name_len :: "u8 list \<Rightarrow> nat" where
  "name_len nm = length (takeWhile (\<lambda>b. b \<noteq> 0) nm)"

definition copy_pcb_vaddrbitmap_stack0 :: "u32 \<Rightarrow> u32 \<Rightarrow> procs \<Rightarrow> u32 fcall res" where
  "copy_pcb_vaddrbitmap_stack0 child parent s =
     (let s = s\<lparr>f_k := upd_pcb child (\<lambda>_. pcbs (f_k s) parent) (f_k s), f_vaddr := (f_vaddr s)(child := f_vaddr s parent),
           f_bits := (f_bits s)(child := f_bits s parent), f_frame := (f_frame s)(child := f_frame s parent), f_descs := (f_descs s)(child := f_descs s parent)\<rparr>
      in fbind (on_thread alloc_pid s) (\<lambda>p s.
         let s = s\<lparr>f_k := upd_pcb child (\<lambda>c. c\<lparr>pid := p, elapsed_ticks := 0, status := TASK_READY, ticks := priority c, parent_pid := pid (pcbs (f_k s) parent)\<rparr>) (f_k s),
               f_descs := (f_descs s)(child := block_desc_init)\<rparr>
         in fbind (on_mem (get_kernel_pages (DIV_ROUND_UP user_bitmap_len PG_SIZE)) s) (\<lambda>vaddr_btmp s.
            if vaddr_btmp = NULL then Inr (FRet (- 1) s)
            else let nm = name (pcbs (f_k s) child); len = name_len nm
              in andthen (assert_c ''strlen(child->name) < 11'' (len < 11)) (\<lambda>_.
                 Inr (FRet 0 (s\<lparr>f_bits := (f_bits s)(child := vaddr_btmp), f_k := upd_pcb child (\<lambda>c. c\<lparr>name := take len nm @ c_string ''_fork''\<rparr>) (f_k s)\<rparr>))))))"

text \<open>\<^verbatim>\<open>page_dir_activate\<close>: the address of the directory is looked up in the address space in use.\<close>

definition switch_dir :: "u32 \<Rightarrow> procs \<Rightarrow> procs res" where
  "switch_dir t s =
     (let pd = pg_dir (pcbs (f_k s) t); m = f_mem s
      in andthen (if pd \<noteq> NULL then addr_vir2phy pd (mm m) else Inr 0x100000) (\<lambda>pagedir_phy_addr.
         Inr (s\<lparr>f_mem := m\<lparr>mm := (mm m)\<lparr>cr3_reg := pagedir_phy_addr\<rparr>\<rparr>, f_k := (f_k s)\<lparr>k_cr3 := pagedir_phy_addr\<rparr>\<rparr>)))"

definition put_mm :: "pmem \<Rightarrow> procs \<Rightarrow> procs" where
  "put_mm m s = s\<lparr>f_mem := (f_mem s)\<lparr>mm := m\<rparr>\<rparr>"

definition copy_page :: "u32 \<Rightarrow> u32 \<Rightarrow> u32 \<Rightarrow> u32 \<Rightarrow> procs \<Rightarrow> unit fcall res" where
  "copy_page child parent tran_page prog_vaddr s =
     andthen (copy_words 1024 tran_page prog_vaddr (mm (f_mem s))) (\<lambda>m.
     andthen (switch_dir child (put_mm m s)) (\<lambda>s.
     fbind (on_mem (get_one_page_no_bitmap PF_USER prog_vaddr) s) (\<lambda>_ s.
     andthen (copy_words 1024 prog_vaddr tran_page (mm (f_mem s))) (\<lambda>m.
     andthen (switch_dir parent (put_mm m s)) (\<lambda>s. Inr (FRet () s))))))"

fun copy_bits :: "nat \<Rightarrow> nat \<Rightarrow> u8 \<Rightarrow> u32 \<Rightarrow> u32 \<Rightarrow> u32 \<Rightarrow> u32 \<Rightarrow> u32 \<Rightarrow> procs \<Rightarrow> unit fcall res" where
  "copy_bits 0 idx_bit b idx_byte start child parent tran_page s = Inr (FRet () s)"
| "copy_bits (Suc n) idx_bit b idx_byte start child parent tran_page s =
     fbind (if push_bit idx_bit 1 AND (ucast b :: u32) \<noteq> 0
            then copy_page child parent tran_page ((idx_byte * 8 + word_of_nat idx_bit) * PG_SIZE + start) s
            else Inr (FRet () s)) (\<lambda>_. copy_bits n (Suc idx_bit) b idx_byte start child parent tran_page)"

fun copy_bytes :: "nat \<Rightarrow> u32 \<Rightarrow> u8 list \<Rightarrow> u32 \<Rightarrow> u32 \<Rightarrow> u32 \<Rightarrow> u32 \<Rightarrow> procs \<Rightarrow> unit fcall res" where
  "copy_bytes 0 idx_byte bits start child parent tran_page s = Inr (FRet () s)"
| "copy_bytes (Suc n) idx_byte bits start child parent tran_page s =
     (if length bits \<le> unat idx_byte then Inl OutOfBounds
      else fbind (if bits ! unat idx_byte \<noteq> 0 then copy_bits 8 0 (bits ! unat idx_byte) idx_byte start child parent tran_page s
                  else Inr (FRet () s)) (\<lambda>_. copy_bytes n (idx_byte + 1) bits start child parent tran_page))"

definition copy_body_stack3 :: "u32 \<Rightarrow> u32 \<Rightarrow> u32 \<Rightarrow> procs \<Rightarrow> unit fcall res" where
  "copy_body_stack3 child parent tran_page s =
     (let va = f_vaddr s parent
      in copy_bytes (unat (bm_len (vaddr_bitmap va))) 0 (bm_bits (vaddr_bitmap va)) (vaddr_start va) child parent tran_page s)"

text \<open>
  The child continues at \<^verbatim>\<open>intr_exit\<close>, which loads the frame copied from the parent, with \<^verbatim>\<open>eax\<close> set to 0: the interrupt flag is that of the frame.
\<close>

definition build_child_stack :: "u32 \<Rightarrow> u32 \<Rightarrow> procs \<Rightarrow> procs" where
  "build_child_stack intr_exit child s =
     s\<lparr>f_frame := (f_frame s)(child := (f_frame s child)\<lparr>is_eax := 0\<rparr>),
       f_k := upd_pcb child (\<lambda>c. c\<lparr>kstack := (kstack c)\<lparr>ts_eip := intr_exit, ts_ebp := 0, ts_ebx := 0, ts_edi := 0, ts_esi := 0\<rparr>,
         self_kstack := child + PG_SIZE - 76 - 5 * 4,
         resume_status := (if is_eflags (f_frame s child) AND EFLAGS_IF_1 \<noteq> 0 then INTR_ON else INTR_OFF)\<rparr>) (f_k s)\<rparr>"

definition copy_process :: "u32 \<Rightarrow> u32 \<Rightarrow> u32 \<Rightarrow> procs \<Rightarrow> u32 fcall res" where
  "copy_process intr_exit child parent s =
     fbind (on_mem (get_kernel_pages 1) s) (\<lambda>tran_page s.
     if tran_page = NULL then Inr (FRet (- 1) s)
     else fbind (copy_pcb_vaddrbitmap_stack0 child parent s) (\<lambda>r s.
       if r = - 1 then Inr (FRet (- 1) s)
       else fbind (on_mem create_page_dir s) (\<lambda>pd s.
         let s = s\<lparr>f_k := upd_pcb child (\<lambda>c. c\<lparr>pg_dir := pd\<rparr>) (f_k s)\<rparr>
         in if pd = NULL then Inr (FRet (- 1) s)
            else fbind (copy_body_stack3 child parent tran_page s) (\<lambda>_ s.
              let s = build_child_stack intr_exit child s
              in andthen (mfree_page PF_KERNEL tran_page 1 (f_mem s)) (\<lambda>m. Inr (FRet 0 (s\<lparr>f_mem := m\<rparr>)))))))"

definition sys_fork :: "u32 \<Rightarrow> procs \<Rightarrow> u16 fcall res" where
  "sys_fork intr_exit s =
     (let parent = running_thread (f_k s)
      in fbind (on_mem (get_kernel_pages 1) s) (\<lambda>child s.
         if child = NULL then Inr (FRet (- 1) s)
         else andthen (assert_c ''INTR_OFF == intr_get_status() && parent->pg_dir != NULL''
                (intr_get_status (k_cpu (f_k s)) = INTR_OFF \<and> pg_dir (pcbs (f_k s) parent) \<noteq> NULL)) (\<lambda>_.
           fbind (copy_process intr_exit child parent s) (\<lambda>r s.
             if r = - 1 then Inr (FRet (- 1) s)
             else andthen (enlist child (f_k s)) (\<lambda>k. Inr (FRet (pid (pcbs k child)) (s\<lparr>f_k := k\<rparr>)))))))"

end
