(* ===== verification/Forkmem.thy ===== *)
theory Forkmem
  imports Fork
begin

text \<open>
  What \<^verbatim>\<open>fork\<close> does with memory: the two address spaces of parent and child, the copying of one page, of all pages, and a machine on which it runs. The invariant
  \<open>fork_inv\<close> says that the address spaces share exactly the tables of the kernel and which frames hold pages that must not be touched.
\<close>

subsection \<open>The tables of an address space\<close>

definition tables :: "pmem \<Rightarrow> u32 set" where
  "tables m = {frame (pd_entry m i) | i. unat i < 1024 \<and> present (pd_entry m i)}"

lemma tablesI: "unat i < 1024 \<Longrightarrow> present (pd_entry m i) \<Longrightarrow> frame (pd_entry m i) \<in> tables m"
  by (auto simp: tables_def)

lemma unused_tables: "unused_frame f m \<longleftrightarrow> frame f = f \<and> f \<notin> tables m"
  unfolding unused_frame_def unat_1024[symmetric] tables_def by blast

lemma dir_in_tables: "wf_pd m \<Longrightarrow> frame (cr3_reg m) \<in> tables m"
  using wf_pdD(1,2)[of m] tablesI[of 1023 m] by simp

lemma agree_tables:
  assumes m: "wf_pd m" and d: "cr3_reg m' = cr3_reg m" "\<And>a. frame a \<in> tables m \<Longrightarrow> ram m' a = ram m a"
  shows "\<And>i. unat i < 1024 \<Longrightarrow> pd_entry m' i = pd_entry m i" "wf_pd m'" "tables m' = tables m" "\<And>w. translate m' w = translate m w"
proof -
  show pd: "pd_entry m' i = pd_entry m i" if "unat i < 1024" for i
    using d entry_addr(2)[OF that, of "cr3_reg m"] dir_in_tables[OF m] by (simp add: pd_entry_def)
  show "wf_pd m'"
    using m pd unfolding wf_pd_def unat_1024[symmetric] d(1) by simp
  show "tables m' = tables m"
    using pd unfolding tables_def by force
  have pte: "ram m' (pte_addr m w) = ram m (pte_addr m w)" if "present (pd_entry m (pdi w))" for w
    using d(2) tablesI[OF pdi_lt that] entry_addr(2)[OF pti_lt, of "pd_entry m (pdi w)" w] by (simp add: pte_addr_def pde_addr_entry)
  show "translate m' w = translate m w" for w
    using pte[of w] pd[OF pdi_lt, of w] by (simp add: translate_def pte_addr_def pde_addr_entry)
qed

text \<open>Copying the words of a page to a page whose frame holds no table.\<close>

lemma copy_words_page:
  assumes "wf_pd m" "f \<notin> tables m" "frame f = f" "frame g = g" "f \<noteq> g" "frame v = v" "frame w = w" "translate m v = Some f" "translate m w = Some g"
    and "unat i + n \<le> 1024"
  shows "\<exists>m'. copy_words n (v + i * 4) (w + i * 4) m = Inr m' \<and> cr3_reg m' = cr3_reg m \<and> (\<forall>a. frame a \<noteq> f \<longrightarrow> ram m' a = ram m a) \<and>
    (\<forall>j. unat j < 1024 \<longrightarrow> ram m' (f + j * 4) = (if unat i \<le> unat j \<and> unat j < unat i + n then ram m (g + j * 4) else ram m (f + j * 4)))"
  using assms
proof (induction n arbitrary: i m)
  case (Suc n)
  let ?m = "m\<lparr>ram := (ram m)(f + i * 4 := ram m (g + i * 4))\<rparr>"
  have i: "unat i < 1024"
    using Suc.prems(10) by simp
  have l: "load (w + i * 4) m = Inr (ram m (g + i * 4))" "store (v + i * 4) (ram m (g + i * 4)) m = Inr ?m"
    using translate_word[OF Suc.prems(7) i Suc.prems(9)] translate_word[OF Suc.prems(6) i Suc.prems(8)] by (simp_all add: load_def store_def)
  have fr: "frame (f + j * 4) = f" "frame (g + j * 4) = g" if "unat j < 1024" for j
    using entry_addr(2)[OF that, of f] entry_addr(2)[OF that, of g] Suc.prems(3,4) by simp_all
  have d: "cr3_reg ?m = cr3_reg m" "\<And>a. frame a \<noteq> f \<Longrightarrow> ram ?m a = ram m a"
    using fr(1)[OF i] by auto
  note k = agree_tables[OF Suc.prems(1) d(1)]
  have t: "wf_pd ?m" "tables ?m = tables m" "\<And>w. translate ?m w = translate m w"
    using k(2-4) d(2) Suc.prems(2) by metis+
  have inj: "f + j * 4 = f + i * 4 \<longleftrightarrow> j = i" if "unat j < 1024" for j
    using entry_inj(2)[of f j f i] that i Suc.prems(3) by auto
  have ui: "unat (i + 1) = Suc (unat i)"
    using i by (subst unat_add_lt) simp_all
  obtain m' where m': "copy_words n (v + (i + 1) * 4) (w + (i + 1) * 4) ?m = Inr m'" "cr3_reg m' = cr3_reg m" "\<forall>a. frame a \<noteq> f \<longrightarrow> ram m' a = ram ?m a"
    "\<forall>j. unat j < 1024 \<longrightarrow> ram m' (f + j * 4) = (if Suc (unat i) \<le> unat j \<and> unat j < Suc (unat i) + n then ram ?m (g + j * 4) else ram ?m (f + j * 4))"
    using Suc.IH[of ?m "i + 1"] Suc.prems(2-10) t ui by auto
  have a: "v + i * 4 + 4 = v + (i + 1) * 4" "w + i * 4 + 4 = w + (i + 1) * 4"
    by (simp_all add: algebra_simps)
  have "ram m' (f + j * 4) = (if unat i \<le> unat j \<and> unat j < unat i + Suc n then ram m (g + j * 4) else ram m (f + j * 4))" if "unat j < 1024" for j
    using that m'(4) inj[OF that] d(2)[of "g + j * 4"] fr(2)[OF that] Suc.prems(5) word_unat_eq_iff[of j i] by (cases "unat i = unat j") simp_all
  moreover have "ram m' a = ram m a" if "frame a \<noteq> f" for a
    using that m'(3) d(2) by metis
  ultimately show ?case
    using l m'(1,2) a by (intro exI[of _ m']) (simp add: algebra_simps)
qed auto

subsection \<open>Room in a pool\<close>

definition room :: "pool \<Rightarrow> nat" where
  "room p = card {i. i < unat (bm_len (pool_bitmap p)) - 1 \<and> \<not> bm_used (pool_bitmap p) i}"

lemma palloc_room:
  assumes p: "pool_ok p" and r: "0 < room p"
  shows "\<exists>f p'. palloc p = Inr (f, p') \<and> f \<noteq> NULL \<and> frame_free p f \<and> pool_ok p' \<and> room p = Suc (room p') \<and> pool_lock p' = pool_lock p \<and>
    (\<forall>g. frame_free p' g \<longleftrightarrow> frame_free p g \<and> g \<noteq> f)"
proof -
  let ?bm = "pool_bitmap p" and ?A = "\<lambda>bm. {i. i < unat (bm_len bm) - 1 \<and> \<not> bm_used bm i}"
  have wf: "wf_bitmap ?bm" "0 < (1::u32)" "(1::u32) \<le> bm_len ?bm"
    using p by (simp_all add: pool_ok_def)
  have "?A ?bm \<noteq> {}"
    using r unfolding room_def card_gt_0_iff by simp
  then obtain i where i: "first_fit ?bm 1 0 = Some i"
    using first_fit_None[of ?bm 1] by (cases "first_fit ?bm 1 0") (auto simp: free_run_iff)
  have app: "bitmap_apply_cnt ?bm 1 = Inr (word_of_nat i)"
    using bitmap_scan_first_fit[OF wf, of 0] i by (simp add: bitmap_apply_cnt_def fit_result_def)
  have b: "i < unat (bm_len ?bm) - 1" "\<not> bm_used ?bm i"
    using first_fit_Some(1,2)[OF i] by (simp_all add: free_run_iff)
  have u: "unat (word_of_nat i :: u32) = i" "i < bm_slots ?bm"
    using b(1) unat_u32_lt[of "bm_len ?bm"] by (simp_all add: unat_of_nat_lt bm_slots_def)
  have ne: "word_of_nat i \<noteq> (- 1 :: u32)"
    using fit_result_Some(2)[OF i] by (simp add: fit_result_def)
  obtain bm' where bm': "bitmap_set_idx ?bm (word_of_nat i) 1 = Inr bm'" "bm_slots bm' = bm_slots ?bm" "bm_used bm' = (bm_used ?bm)(i := True)"
    using bm.mark_ok[OF wf(1), of "word_of_nat i" 1] u by auto
  have run: "palloc p = Inr (frame_of p i, p\<lparr>pool_bitmap := bm'\<rparr>)"
    using app ne bm'(1) by (simp add: palloc_def frame_of_def)
  have "?A bm' = ?A ?bm - {i}" "i \<in> ?A ?bm"
    using bm_slots_len[OF bm'(2)] bm'(3) b by auto
  then have "card (?A ?bm) = Suc (card (?A bm'))"
    using card.remove[of "?A ?bm" i] by simp
  then have "room p = Suc (room (p\<lparr>pool_bitmap := bm'\<rparr>))"
    by (simp add: room_def)
  then show ?thesis
    using palloc_spec[OF p] run frame_of_props(3)[OF p u(2)] by auto
qed

subsection \<open>A page is entered in an address space\<close>

lemma page_table_add_new:
  assumes m: "wf_pd (mm m)" "\<not> present (pd_entry (mm m) (pdi v))" and t: "palloc (kernel_pool m) = Inr (t, kp)" "unused_frame t (mm m)"
  shows "page_table_add v f m = Inr (m\<lparr>mm := set_pte v (f OR PG_US_U OR PG_RW_W OR PG_P_1) (new_table v t (mm m)), kernel_pool := kp\<rparr>)"
proof -
  note n = new_table_spec[OF m(1) t(2) m(2)]
  have v: "pdi v \<noteq> 1023"
    using wf_pdD(1)[OF m(1)] m(2) by auto
  have "translate (new_table v t (mm m)) v = None"
    using n(3)[OF v] m(2) by (simp add: translate_def pde_addr_entry)
  then show ?thesis
    using translate_pde_ptr[OF m(1), of v] page_table_new_ok[OF m(1) t(2) m(2)] page_table_set_ok[OF n(1,2)] m(2) t(1)
    by (simp add: page_table_add_def load_def pde_addr_entry present_def PG_P_1_def)
qed

lemma page_table_add_maps:
  assumes m: "wf_pd (mm m)" "pool_ok (kernel_pool m)" "0 < room (kernel_pool m)" "\<forall>t. frame_free (kernel_pool m) t \<longrightarrow> t \<notin> tables (mm m)"
    and v: "pdi v \<noteq> 1023" "translate (mm m) v = None" and f: "frame f = f"
  obtains m' kp T where "page_table_add v f m = Inr (m\<lparr>mm := m', kernel_pool := kp\<rparr>)" "wf_pd m'" "cr3_reg m' = cr3_reg (mm m)"
    "frame (pd_entry m' (pdi v)) = T" "present (pd_entry (mm m) (pdi v)) \<and> T = frame (pd_entry (mm m) (pdi v)) \<or> frame_free (kernel_pool m) T"
    "\<And>i. unat i < 1024 \<Longrightarrow> i \<noteq> pdi v \<Longrightarrow> pd_entry m' i = pd_entry (mm m) i" "pool_ok kp" "room (kernel_pool m) \<le> Suc (room kp)"
    "\<And>g. frame_free kp g \<Longrightarrow> frame_free (kernel_pool m) g \<and> g \<noteq> T" "\<And>w. same_page v w \<Longrightarrow> translate m' w = Some (f + page_off w)"
    "\<And>w. \<not> same_page v w \<Longrightarrow> pdi w \<noteq> 1023 \<Longrightarrow> translate m' w = translate (mm m) w"
    "\<And>a. frame a \<noteq> T \<Longrightarrow> frame a \<noteq> frame (cr3_reg (mm m)) \<Longrightarrow> ram m' a = ram (mm m) a"
proof -
  let ?e = "f OR PG_US_U OR PG_RW_W OR PG_P_1"
  have e: "present ?e" "frame ?e = f"
    using present_entry[of f] f by simp_all
  have pa: "frame (pte_addr n v) = frame (pd_entry n (pdi v))" for n
    using entry_addr(2)[OF pti_lt] by (simp add: pte_addr_def pde_addr_entry)
  have c: "cr3_reg (set_pte v ?e n) = cr3_reg n" "cr3_reg (new_table v t n) = cr3_reg n" for n t
    by (simp_all add: set_pte_def new_table_def)
  have r: "ram (set_pte v ?e n) a = ram n a" if "frame a \<noteq> frame (pd_entry n (pdi v))" for n a
    using that pa[of n] by (auto simp: set_pte_def)
  show thesis
  proof (cases "present (pd_entry (mm m) (pdi v))")
    case True
    note sp = set_pte_spec[OF m(1) True v(1), where e = ?e]
    have "t \<noteq> frame (pd_entry (mm m) (pdi v))" if "frame_free (kernel_pool m) t" for t
      using m(4) that tablesI[OF pdi_lt True] by auto
    then show thesis
      using page_table_add_ok[OF m(1) v(2) True, of f] sp(1,2,4,5) e m(2) True c(1) r[of _ "mm m"]
      by (intro that[of "kernel_pool m" "set_pte v ?e (mm m)" "frame (pd_entry (mm m) (pdi v))"]) (simp_all add: pdi_lt)
  next
    case False
    obtain t kp where t: "palloc (kernel_pool m) = Inr (t, kp)" "frame_free (kernel_pool m) t" "pool_ok kp" "room (kernel_pool m) = Suc (room kp)"
      "\<And>g. frame_free kp g \<longleftrightarrow> frame_free (kernel_pool m) g \<and> g \<noteq> t"
      using palloc_room[OF m(2,3)] by blast
    have tf: "frame t = t"
      using t(2) frame_of_props(2)[OF m(2)] by (auto simp: frame_free_def)
    then have un: "unused_frame t (mm m)"
      using m(4) t(2) by (simp add: unused_tables)
    let ?n = "new_table v t (mm m)"
    note n = new_table_spec[OF m(1) un False] and pd = new_table_pd[OF m(1) un]
    note sp = set_pte_spec[OF n(1,2) v(1), where e = ?e]
    have T: "frame (pd_entry ?n (pdi v)) = t"
      using pd[OF pdi_lt, of v v] present_entry(2)[of t] tf by simp
    have "frame (pde_addr (mm m) v) = frame (cr3_reg (mm m))"
      using entry_addr(2)[OF pdi_lt] by (simp add: pde_addr_def)
    then have "ram (set_pte v ?e ?n) a = ram (mm m) a" if "frame a \<noteq> t" "frame a \<noteq> frame (cr3_reg (mm m))" for a
      using that r[of a ?n] T by (auto simp: new_table_def)
    then show thesis
      using page_table_add_new[OF m(1) False t(1) un, of f] sp(1,2,4,5) n(2,3) e t(2-5) T pd[of _ v] c
      by (intro that[of kp "set_pte v ?e ?n" t]) (simp_all add: pdi_lt)
  qed
qed

subsection \<open>Two address spaces\<close>

abbreviation space :: "u32 \<Rightarrow> mem \<Rightarrow> pmem" where
  "space c m \<equiv> (mm m)\<lparr>cr3_reg := c\<rparr>"

text \<open>
  The parent uses the directory in frame \<open>P\<close>, the child the one in frame \<open>C\<close>: they share the tables of the kernel and no others. The free frames hold no table,
  the frames in \<open>D\<close> hold pages of the two processes, the frame \<open>ft\<close> that of the page \<open>tran\<close> used to carry pages over.
\<close>

definition two_spaces :: "u32 \<Rightarrow> u32 \<Rightarrow> mem \<Rightarrow> bool" where
  "two_spaces P C m \<longleftrightarrow> frame P = P \<and> frame C = C \<and> wf_pd (space P m) \<and> wf_pd (space C m) \<and> C \<notin> tables (space P m) \<and>
     (\<forall>i. 768 \<le> unat i \<longrightarrow> unat i < 1023 \<longrightarrow> pd_entry (space C m) i = pd_entry (space P m) i) \<and>
     (\<forall>i. unat i < 768 \<longrightarrow> present (pd_entry (space C m) i) \<longrightarrow> frame (pd_entry (space C m) i) \<notin> tables (space P m))"

definition is_free :: "mem \<Rightarrow> u32 \<Rightarrow> bool" where
  "is_free m f \<longleftrightarrow> frame_free (kernel_pool m) f \<or> frame_free (user_pool m) f"

definition fork_inv :: "u32 \<Rightarrow> u32 \<Rightarrow> u32 \<Rightarrow> u32 \<Rightarrow> u32 set \<Rightarrow> mem \<Rightarrow> bool" where
  "fork_inv P C tran ft D m \<longleftrightarrow> two_spaces P C m \<and> pool_ok (kernel_pool m) \<and> pool_ok (user_pool m) \<and> pool_lock (user_pool m) = lock_init \<and>
     frame tran = tran \<and> frame ft = ft \<and> translate (space P m) tran = Some ft \<and> ft \<notin> tables (space P m) \<union> tables (space C m) \<and>
     (\<forall>f. is_free m f \<longrightarrow> f \<notin> tables (space P m) \<union> tables (space C m) \<union> D \<and> f \<noteq> ft) \<and> (\<forall>f. \<not> (frame_free (kernel_pool m) f \<and> frame_free (user_pool m) f)) \<and>
     (\<forall>f \<in> D. frame f = f \<and> f \<notin> tables (space P m) \<union> tables (space C m) \<and> f \<noteq> ft)"

definition kernel_addr :: "u32 \<Rightarrow> bool" where
  "kernel_addr w \<longleftrightarrow> 0xc0000000 \<le> unat w \<and> unat w < 0xffc00000"

lemma kernel_addr_pdi: "kernel_addr w \<Longrightarrow> 768 \<le> unat (pdi w) \<and> unat (pdi w) < 1023"
  unfolding kernel_addr_def unat_pdi by (auto simp: less_mult_imp_div_less intro: div_le_mono[of 3221225472 _ 4194304, simplified])

lemma kernel_addr_page: "kernel_addr w \<Longrightarrow> unat v < 0xc0000000 \<Longrightarrow> \<not> same_page v w"
  using kernel_addr_pdi[of w] unat_pdi[of v] less_mult_imp_div_less[of "unat v" 768 4194304] by (auto simp: same_page_fields)

lemma two_spaces_kernel:
  assumes "two_spaces P C m" "kernel_addr w"
  shows "translate (space C m) w = translate (space P m) w"
proof -
  have "pd_entry (space C m) (pdi w) = pd_entry (space P m) (pdi w)"
    using assms(1) kernel_addr_pdi[OF assms(2)] by (simp add: two_spaces_def)
  then show ?thesis
    by (simp only: translate_def pte_addr_def pde_addr_entry) simp
qed

text \<open>The address spaces stay as they are when the memory changes outside of their tables.\<close>

lemma two_spaces_agree:
  assumes t: "two_spaces P C m" and a: "\<And>a. frame a \<in> tables (space P m) \<union> tables (space C m) \<Longrightarrow> ram (mm m') a = ram (mm m) a"
  shows "two_spaces P C m'" "tables (space P m') = tables (space P m)" "tables (space C m') = tables (space C m)"
    "\<And>w. translate (space P m') w = translate (space P m) w" "\<And>w. translate (space C m') w = translate (space C m) w"
proof -
  have w: "wf_pd (space P m)" "wf_pd (space C m)"
    using t by (simp_all add: two_spaces_def)
  note p = agree_tables[OF w(1), of "space P m'"] and c = agree_tables[OF w(2), of "space C m'"]
  show e: "tables (space P m') = tables (space P m)" "tables (space C m') = tables (space C m)"
    using p(3) c(3) a by simp_all
  show "\<And>w. translate (space P m') w = translate (space P m) w" "\<And>w. translate (space C m') w = translate (space C m) w"
    using p(4) c(4) a by simp_all
  have i: "pd_entry (space P m') i = pd_entry (space P m) i" "pd_entry (space C m') i = pd_entry (space C m) i" if "unat i < 1024" for i
    using p(1) c(1) a that by simp_all
  have "wf_pd (space P m')" "wf_pd (space C m')"
    using p(2) c(2) a by simp_all
  then show "two_spaces P C m'"
    using t i unfolding two_spaces_def e by simp
qed

text \<open>A page is entered in the address space of the child.\<close>

lemma map_child_page:
  assumes t: "two_spaces P C m" and m: "pool_ok (kernel_pool m)" "0 < room (kernel_pool m)" "\<And>f. frame_free (kernel_pool m) f \<Longrightarrow> f \<notin> tables (space P m) \<union> tables (space C m)"
    and v: "unat v < 0xc0000000" "translate (space C m) v = None" "frame v = v" and f: "frame f = f" and c: "cr3_reg (mm m) = C"
  shows "\<exists>m' kp. page_table_add v f m = Inr (m\<lparr>mm := m', kernel_pool := kp\<rparr>) \<and> cr3_reg m' = C \<and> two_spaces P C (m\<lparr>mm := m', kernel_pool := kp\<rparr>) \<and>
    pool_ok kp \<and> room (kernel_pool m) \<le> Suc (room kp) \<and> (\<forall>g. frame_free kp g \<longrightarrow> frame_free (kernel_pool m) g) \<and>
    tables (m'\<lparr>cr3_reg := P\<rparr>) = tables (space P m) \<and> (\<forall>w. translate (m'\<lparr>cr3_reg := P\<rparr>) w = translate (space P m) w) \<and>
    (\<forall>T \<in> tables (m'\<lparr>cr3_reg := C\<rparr>) - tables (space C m). frame_free (kernel_pool m) T \<and> \<not> frame_free kp T) \<and>
    translate (m'\<lparr>cr3_reg := C\<rparr>) v = Some f \<and> (\<forall>w. \<not> same_page v w \<longrightarrow> pdi w \<noteq> 1023 \<longrightarrow> translate (m'\<lparr>cr3_reg := C\<rparr>) w = translate (space C m) w) \<and>
    (\<forall>a. frame a \<notin> tables (space C m) \<longrightarrow> \<not> frame_free (kernel_pool m) (frame a) \<longrightarrow> ram m' a = ram (mm m) a)"
proof -
  have w: "wf_pd (space P m)" "wf_pd (space C m)" "frame C = C" "space C m = mm m"
    using t c by (auto simp: two_spaces_def)
  have d: "unat (pdi v) < 768"
    using v(1) unat_pdi[of v] less_mult_imp_div_less[of "unat v" 768 4194304] by simp
  have n: "pdi v \<noteq> 1023" "wf_pd (mm m)" "translate (mm m) v = None" "\<forall>t. frame_free (kernel_pool m) t \<longrightarrow> t \<notin> tables (mm m)"
    using d w(2,4) v(2) m(3) by auto
  obtain m' kp T where r: "page_table_add v f m = Inr (m\<lparr>mm := m', kernel_pool := kp\<rparr>)" "wf_pd m'" "cr3_reg m' = cr3_reg (mm m)"
    "frame (pd_entry m' (pdi v)) = T" "present (pd_entry (mm m) (pdi v)) \<and> T = frame (pd_entry (mm m) (pdi v)) \<or> frame_free (kernel_pool m) T"
    "\<And>i. unat i < 1024 \<Longrightarrow> i \<noteq> pdi v \<Longrightarrow> pd_entry m' i = pd_entry (mm m) i" "pool_ok kp" "room (kernel_pool m) \<le> Suc (room kp)"
    "\<And>g. frame_free kp g \<Longrightarrow> frame_free (kernel_pool m) g \<and> g \<noteq> T" "\<And>w. same_page v w \<Longrightarrow> translate m' w = Some (f + page_off w)"
    "\<And>w. \<not> same_page v w \<Longrightarrow> pdi w \<noteq> 1023 \<Longrightarrow> translate m' w = translate (mm m) w"
    "\<And>a. frame a \<noteq> T \<Longrightarrow> frame a \<noteq> frame (cr3_reg (mm m)) \<Longrightarrow> ram m' a = ram (mm m) a"
    by (rule page_table_add_maps[OF n(2) m(1,2) n(4,1,3) f]) (rule that)
  let ?m = "m\<lparr>mm := m', kernel_pool := kp\<rparr>"
  have C: "m'\<lparr>cr3_reg := C\<rparr> = m'" "space C m = mm m"
    using r(3) c w(4) by simp_all
  have T: "T \<notin> tables (space P m)" "C \<notin> tables (space P m)"
    using r(5) t m(3) d C(2) by (auto simp: two_spaces_def)
  note p = agree_tables[OF w(1), of "m'\<lparr>cr3_reg := P\<rparr>"]
  have ag: "ram m' a = ram (mm m) a" if "frame a \<in> tables (space P m)" for a
    by (rule r(12)) (use that T c w(3) in auto)
  have p': "\<And>i. unat i < 1024 \<Longrightarrow> pd_entry (m'\<lparr>cr3_reg := P\<rparr>) i = pd_entry (space P m) i" "wf_pd (m'\<lparr>cr3_reg := P\<rparr>)"
    "tables (m'\<lparr>cr3_reg := P\<rparr>) = tables (space P m)" "\<And>w. translate (m'\<lparr>cr3_reg := P\<rparr>) w = translate (space P m) w"
    using p ag by simp_all
  have hi: "pd_entry m' i = pd_entry (space P m) i" if "768 \<le> unat i" "unat i < 1023" for i
    using r(6)[of i] t that d C(2) by (cases "i = pdi v") (simp_all add: two_spaces_def)
  have lo: "frame (pd_entry m' i) \<notin> tables (space P m)" if "unat i < 768" "present (pd_entry m' i)" for i
    using r(4) r(6)[of i] t that T(1) C(2) by (cases "i = pdi v") (auto simp: two_spaces_def)
  have two: "two_spaces P C ?m"
    using t p'(1-3) r(2) T(2) hi lo by (simp add: two_spaces_def C)
  have new: "frame_free (kernel_pool m) t \<and> \<not> frame_free kp t" if t: "t \<in> tables m'" "t \<notin> tables (mm m)" for t
  proof -
    obtain i where i: "t = frame (pd_entry m' i)" "unat i < 1024" "present (pd_entry m' i)"
      using t(1) by (auto simp: tables_def)
    have "i = pdi v"
      using r(6)[OF i(2)] i t(2) tablesI[of i "mm m"] by (metis (no_types))
    then have "t = T"
      using i(1) r(4) by simp
    then show ?thesis
      using r(5,9) t(2) tablesI[OF pdi_lt, of "mm m" v] by auto
  qed
  have "ram m' a = ram (mm m) a" if a: "frame a \<notin> tables (mm m)" "\<not> frame_free (kernel_pool m) (frame a)" for a
    by (rule r(12)) (use a r(5) tablesI[OF pdi_lt, of "mm m" v] dir_in_tables[OF n(2)] in auto)
  moreover have "translate m' v = Some f"
    using r(10)[of v] v(3) frame_fields(3)[of v] by simp
  ultimately show ?thesis
    using r(1,7,8,9,11) c new two p'(3,4) r(3) by (intro exI[of _ m'] exI[of _ kp]) (simp add: C)
qed

lemma pool_lock_irrelevant [simp]:
  "room (p\<lparr>pool_lock := l\<rparr>) = room p" "pool_ok (p\<lparr>pool_lock := l\<rparr>) = pool_ok p" "frame_free (p\<lparr>pool_lock := l\<rparr>) f = frame_free p f"
  by (simp_all add: room_def pool_ok_def frame_free_def frame_of_def)

lemma frame_free_frame: "pool_ok p \<Longrightarrow> frame_free p f \<Longrightarrow> frame f = f"
  using frame_of_props(2) by (auto simp: frame_free_def)

lemma get_child_page:
  assumes i: "fork_inv P C tran ft D m" and c: "cr3_reg (mm m) = C" "running_thread k \<noteq> NULL" and r: "0 < room (kernel_pool m)" "0 < room (user_pool m)"
    and v: "unat v < 0xc0000000" "translate (space C m) v = None" "frame v = v"
  obtains m' f where "get_one_page_no_bitmap PF_USER v m k = Inr (Return v m' k)" "cr3_reg (mm m') = C" "fork_inv P C tran ft (insert f D) m'" "is_free m f"
    "translate (space C m') v = Some f" "\<And>w. \<not> same_page v w \<Longrightarrow> pdi w \<noteq> 1023 \<Longrightarrow> translate (space C m') w = translate (space C m) w"
    "\<And>w. translate (space P m') w = translate (space P m) w" "\<And>a. frame a \<in> insert ft D \<Longrightarrow> ram (mm m') a = ram (mm m) a"
    "room (kernel_pool m) \<le> Suc (room (kernel_pool m'))" "room (user_pool m) \<le> Suc (room (user_pool m'))"
proof -
  let ?l = "locked_by (running_thread k)"
  let ?m1 = "m\<lparr>user_pool := (user_pool m)\<lparr>pool_lock := ?l\<rparr>\<rparr>"
  have t: "two_spaces P C m" "pool_ok (kernel_pool m)" "pool_ok (user_pool m)" "pool_lock (user_pool m) = lock_init"
    and free: "\<And>f. is_free m f \<Longrightarrow> f \<notin> tables (space P m) \<union> tables (space C m) \<union> D \<and> f \<noteq> ft" and dj: "\<And>f. \<not> (frame_free (kernel_pool m) f \<and> frame_free (user_pool m) f)"
    using i unfolding fork_inv_def by blast+
  obtain f p where f: "palloc ((user_pool m)\<lparr>pool_lock := ?l\<rparr>) = Inr (f, p)" "f \<noteq> NULL" "frame_free (user_pool m) f" "pool_ok p" "room (user_pool m) = Suc (room p)"
    "pool_lock p = ?l" "\<And>g. frame_free p g \<longleftrightarrow> frame_free (user_pool m) g \<and> g \<noteq> f"
    using palloc_room[of "(user_pool m)\<lparr>pool_lock := ?l\<rparr>"] t(3) r(2) by auto
  have ff: "frame f = f"
    using frame_free_frame[OF t(3) f(3)] .
  let ?m2 = "m\<lparr>user_pool := p\<rparr>"
  have "two_spaces P C ?m2"
    using t(1) by (simp add: two_spaces_def)
  obtain m' kp where g: "page_table_add v f ?m2 = Inr (?m2\<lparr>mm := m', kernel_pool := kp\<rparr>)" "cr3_reg m' = C" "two_spaces P C (?m2\<lparr>mm := m', kernel_pool := kp\<rparr>)"
    "pool_ok kp" "room (kernel_pool m) \<le> Suc (room kp)" "\<And>g. frame_free kp g \<Longrightarrow> frame_free (kernel_pool m) g" "tables (m'\<lparr>cr3_reg := P\<rparr>) = tables (space P m)"
    "\<And>w. translate (m'\<lparr>cr3_reg := P\<rparr>) w = translate (space P m) w" "\<And>T. T \<in> tables (m'\<lparr>cr3_reg := C\<rparr>) - tables (space C m) \<Longrightarrow> frame_free (kernel_pool m) T \<and> \<not> frame_free kp T"
    "translate (m'\<lparr>cr3_reg := C\<rparr>) v = Some f" "\<And>w. \<not> same_page v w \<Longrightarrow> pdi w \<noteq> 1023 \<Longrightarrow> translate (m'\<lparr>cr3_reg := C\<rparr>) w = translate (space C m) w"
    "\<And>a. frame a \<notin> tables (space C m) \<Longrightarrow> \<not> frame_free (kernel_pool m) (frame a) \<Longrightarrow> ram m' a = ram (mm m) a"
    using map_child_page[of P C ?m2 v f] t r(1) v ff c(1) free by (simp add: is_free_def \<open>two_spaces P C ?m2\<close>) blast
  let ?m3 = "m\<lparr>mm := m', kernel_pool := kp, user_pool := p\<lparr>pool_lock := lock_init\<rparr>\<rparr>"
  have body: "map_one PF_USER v ?m1 = Inr (v, ?m2\<lparr>mm := m', kernel_pool := kp\<rparr>)"
    using f(1,2) g(1) by (simp add: map_one_def set_pool_def)
  have run: "get_one_page_no_bitmap PF_USER v m k = Inr (Return v ?m3 k)"
    using t(4) c(2) body f(6)
    by (simp add: get_one_page_no_bitmap_def while_locked_def lock_pool_def unlock_pool_def set_pool_def lock_acquire_uncontended lock_release_uncontended)
  have fu: "is_free m f"
    using f(3) by (simp add: is_free_def)
  have new: "x \<notin> tables (m'\<lparr>cr3_reg := C\<rparr>)" if "x \<notin> tables (space C m)" "\<not> frame_free (kernel_pool m) x \<or> frame_free kp x" for x
    using g(9)[of x] that by blast
  have D: "frame d = d \<and> d \<notin> tables (space P m) \<union> tables (m'\<lparr>cr3_reg := C\<rparr>) \<and> d \<noteq> ft" if "d \<in> insert f D" for d
  proof (cases "d = f")
    case True
    then show ?thesis
      using free[OF fu] ff new[of f] dj[of f] f(3) by simp
  next
    case False
    then have "d \<in> D"
      using that by simp
    then show ?thesis
      using i free[of d] new[of d] by (auto simp: fork_inv_def is_free_def)
  qed
  have ftn: "ft \<notin> tables (m'\<lparr>cr3_reg := C\<rparr>)"
    using i free[of ft] new[of ft] by (auto simp: fork_inv_def is_free_def)
  have fr: "x \<notin> tables (space P m) \<union> tables (m'\<lparr>cr3_reg := C\<rparr>) \<union> insert f D \<and> x \<noteq> ft" if "is_free ?m3 x" for x
  proof -
    have x: "is_free m x" "x \<noteq> f" "frame_free kp x \<or> frame_free (user_pool m) x"
      using that f(7) g(6) dj f(3) by (auto simp: is_free_def)
    then show ?thesis
      using free[OF x(1)] new[of x] dj[of x] by auto
  qed
  have inv: "fork_inv P C tran ft (insert f D) ?m3"
    unfolding fork_inv_def
  proof (intro conjI)
    show "two_spaces P C ?m3"
      using g(3) by (simp add: two_spaces_def)
    show "\<forall>x. \<not> (frame_free (kernel_pool ?m3) x \<and> frame_free (user_pool ?m3) x)"
      using g(6) f(7) dj by auto
  qed (use i g(4,7,8) f(4) D ftn fr in \<open>simp_all add: fork_inv_def\<close>)
  have keep: "ram m' a = ram (mm m) a" if a: "frame a \<in> insert ft D" for a
  proof (rule g(12))
    show "frame a \<notin> tables (space C m)" "\<not> frame_free (kernel_pool m) (frame a)"
      using a i free[of "frame a"] by (auto simp: fork_inv_def is_free_def)
  qed
  show thesis
    by (rule that[OF run _ inv fu]) (use g(2,5,8,10,11) f(5) keep in auto)
qed

text \<open>Writing to a frame that holds no table changes nothing of this.\<close>

lemma fork_inv_write:
  assumes i: "fork_inv P C tran ft D m" and x: "x \<notin> tables (space P m) \<union> tables (space C m)" and a: "\<forall>a. frame a \<noteq> x \<longrightarrow> ram m' a = ram (mm m) a"
  shows "fork_inv P C tran ft D (m\<lparr>mm := m'\<rparr>)" "\<And>w. translate (m'\<lparr>cr3_reg := P\<rparr>) w = translate (space P m) w" "\<And>w. translate (m'\<lparr>cr3_reg := C\<rparr>) w = translate (space C m) w"
proof -
  have t: "two_spaces P C m"
    using i by (simp add: fork_inv_def)
  have a': "ram (mm (m\<lparr>mm := m'\<rparr>)) a = ram (mm m) a" if "frame a \<in> tables (space P m) \<union> tables (space C m)" for a
    using that x a by (cases "frame a = x") auto
  note s = two_spaces_agree[OF t a', simplified]
  show p: "\<And>w. translate (m'\<lparr>cr3_reg := P\<rparr>) w = translate (space P m) w" "\<And>w. translate (m'\<lparr>cr3_reg := C\<rparr>) w = translate (space C m) w"
    using s(4,5) by simp_all
  show "fork_inv P C tran ft D (m\<lparr>mm := m'\<rparr>)"
    using i s(1-3) p(1) by (simp add: fork_inv_def is_free_def)
qed

lemma switch_dir_ok:
  assumes "wf_pd (mm (f_mem s))" "kernel_addr (pg_dir (pcbs (f_k s) t))" "translate (mm (f_mem s)) (pg_dir (pcbs (f_k s) t)) = Some X"
  shows "switch_dir t s = Inr (s\<lparr>f_mem := (f_mem s)\<lparr>mm := (mm (f_mem s))\<lparr>cr3_reg := X\<rparr>\<rparr>, f_k := (f_k s)\<lparr>k_cr3 := X\<rparr>\<rparr>)"
  using assms(2) addr_vir2phy_translate[OF assms(1,3)] by (auto simp: switch_dir_def Let_def kernel_addr_def NULL_def)

definition fork_ctx :: "u32 \<Rightarrow> u32 \<Rightarrow> u32 \<Rightarrow> u32 \<Rightarrow> u32 \<Rightarrow> procs \<Rightarrow> bool" where
  "fork_ctx P C child parent tran s \<longleftrightarrow> running_thread (f_k s) \<noteq> NULL \<and> cr3_reg (mm (f_mem s)) = P \<and> k_cr3 (f_k s) = P \<and> kernel_addr tran \<and>
     kernel_addr (pg_dir (pcbs (f_k s) child)) \<and> translate (space P (f_mem s)) (pg_dir (pcbs (f_k s) child)) = Some C \<and>
     kernel_addr (pg_dir (pcbs (f_k s) parent)) \<and> translate (space P (f_mem s)) (pg_dir (pcbs (f_k s) parent)) = Some P"

text \<open>One page is carried over.\<close>

lemma copy_page_ok:
  assumes i: "fork_inv P C tran ft D (f_mem s)" and c: "fork_ctx P C child parent tran s"
    and r: "0 < room (kernel_pool (f_mem s))" "0 < room (user_pool (f_mem s))"
    and v: "unat v < 0xc0000000" "translate (space C (f_mem s)) v = None" "frame v = v" "translate (space P (f_mem s)) v = Some g" "g \<in> D"
  obtains m' f where "copy_page child parent tran v s = Inr (FRet () (s\<lparr>f_mem := m'\<rparr>))" "fork_inv P C tran ft (insert f D) m'"
    "cr3_reg (mm m') = P" "f \<notin> D" "translate (space C m') v = Some f"
    "\<And>w. \<not> same_page v w \<Longrightarrow> pdi w \<noteq> 1023 \<Longrightarrow> translate (space C m') w = translate (space C (f_mem s)) w"
    "\<And>w. translate (space P m') w = translate (space P (f_mem s)) w" "\<And>a. frame a \<in> D \<Longrightarrow> ram (mm m') a = ram (mm (f_mem s)) a"
    "\<And>j. unat j < 1024 \<Longrightarrow> ram (mm m') (f + j * 4) = ram (mm (f_mem s)) (g + j * 4)"
    "room (kernel_pool (f_mem s)) \<le> Suc (room (kernel_pool m'))" "room (user_pool (f_mem s)) \<le> Suc (room (user_pool m'))"
proof -
  let ?m = "f_mem s" and ?cd = "pg_dir (pcbs (f_k s) child)" and ?pd = "pg_dir (pcbs (f_k s) parent)"
  have x: "cr3_reg (mm ?m) = P" "running_thread (f_k s) \<noteq> NULL" "kernel_addr tran" "kernel_addr ?cd" "kernel_addr ?pd"
    "translate (space P ?m) ?cd = Some C" "translate (space P ?m) ?pd = Some P" "space P ?m = mm ?m"
    using c by (auto simp: fork_ctx_def)
  have t: "two_spaces P C ?m" "wf_pd (space P ?m)" "frame tran = tran" "frame ft = ft" "translate (space P ?m) tran = Some ft"
    "ft \<notin> tables (space P ?m) \<union> tables (space C ?m)" "frame g = g" "g \<notin> tables (space P ?m) \<union> tables (space C ?m)" "ft \<noteq> g"
    using i v(5) by (auto simp: fork_inv_def two_spaces_def)
  obtain m1 where m1: "copy_words 1024 tran v (mm ?m) = Inr m1" "cr3_reg m1 = P" "\<And>a. frame a \<noteq> ft \<Longrightarrow> ram m1 a = ram (mm ?m) a"
    "\<And>j. unat j < 1024 \<Longrightarrow> ram m1 (ft + j * 4) = ram (mm ?m) (g + j * 4)"
    using copy_words_page[of "mm ?m" ft g tran v 0 1024] t v(3,4) x(1,8) by auto
  have "\<forall>a. frame a \<noteq> ft \<longrightarrow> ram m1 a = ram (mm ?m) a"
    using m1(3) by blast
  note i1 = fork_inv_write[OF i t(6) this]
  let ?m2 = "?m\<lparr>mm := m1\<lparr>cr3_reg := C\<rparr>\<rparr>" and ?k = "(f_k s)\<lparr>k_cr3 := C\<rparr>"
  have i2: "fork_inv P C tran ft D ?m2"
    using fork_inv_write(1)[OF i t(6), of "m1\<lparr>cr3_reg := C\<rparr>"] m1(3) by simp
  have c1: "m1\<lparr>cr3_reg := P\<rparr> = m1"
    using m1(2) by simp
  have "wf_pd m1" "translate m1 ?cd = Some C"
    using i1(1) i1(2)[of ?cd] x(6) c1 by (simp_all add: fork_inv_def two_spaces_def)
  then have s2: "switch_dir child (put_mm m1 s) = Inr (s\<lparr>f_mem := ?m2, f_k := ?k\<rparr>)"
    using switch_dir_ok[of "put_mm m1 s" child C] x(4) by (simp add: put_mm_def)
  have pre: "cr3_reg (mm ?m2) = C" "running_thread ?k \<noteq> NULL" "0 < room (kernel_pool ?m2)" "0 < room (user_pool ?m2)" "translate (space C ?m2) v = None"
    using r v(2) i1(3) x(2) by simp_all
  obtain m3 f where m3: "get_one_page_no_bitmap PF_USER v ?m2 ?k = Inr (Return v m3 ?k)" "cr3_reg (mm m3) = C" "fork_inv P C tran ft (insert f D) m3" "is_free ?m2 f"
    "translate (space C m3) v = Some f" "\<And>w. \<not> same_page v w \<Longrightarrow> pdi w \<noteq> 1023 \<Longrightarrow> translate (space C m3) w = translate (space C ?m2) w"
    "\<And>w. translate (space P m3) w = translate (space P ?m2) w" "\<And>a. frame a \<in> insert ft D \<Longrightarrow> ram (mm m3) a = ram (mm ?m2) a"
    "room (kernel_pool ?m2) \<le> Suc (room (kernel_pool m3))" "room (user_pool ?m2) \<le> Suc (room (user_pool m3))"
    by (rule get_child_page[OF i2 pre(1-4) v(1) pre(5) v(3)]) (rule that)
  have t3: "two_spaces P C m3" "wf_pd (mm m3)" "f \<notin> tables (space P m3) \<union> tables (space C m3)" "frame f = f" "f \<noteq> ft" "space C m3 = mm m3" "f \<notin> D"
    using m3(2,3,4) i2 by (auto simp: fork_inv_def two_spaces_def)
  have k3: "translate (space C m3) w = translate (space P ?m) w" if "kernel_addr w" for w
    using two_spaces_kernel[OF t3(1) that] m3(7)[of w] i1(2)[of w] by simp
  obtain m4 where m4: "copy_words 1024 v tran (mm m3) = Inr m4" "cr3_reg m4 = C" "\<forall>a. frame a \<noteq> f \<longrightarrow> ram m4 a = ram (mm m3) a"
    "\<And>j. unat j < 1024 \<Longrightarrow> ram m4 (f + j * 4) = ram (mm m3) (ft + j * 4)"
    using copy_words_page[of "mm m3" f ft v tran 0 1024] t3 t(3-5) v(3) m3(2,5) k3[OF x(3)] by auto
  note i4 = fork_inv_write[OF m3(3) t3(3) m4(3)]
  let ?m5 = "m3\<lparr>mm := m4\<lparr>cr3_reg := P\<rparr>\<rparr>"
  have i5: "fork_inv P C tran ft (insert f D) ?m5"
    using fork_inv_write(1)[OF m3(3) t3(3), of "m4\<lparr>cr3_reg := P\<rparr>"] m4(3) by simp
  have c4: "m4\<lparr>cr3_reg := C\<rparr> = m4"
    using m4(2) by simp
  have "wf_pd m4" "translate m4 ?pd = Some P"
    using i4(1) i4(3)[of ?pd] k3[OF x(5)] x(7) c4 by (simp_all add: fork_inv_def two_spaces_def)
  then have s5: "switch_dir parent (put_mm m4 (s\<lparr>f_mem := m3, f_k := ?k\<rparr>)) = Inr (s\<lparr>f_mem := ?m5, f_k := (f_k s)\<lparr>k_cr3 := P\<rparr>\<rparr>)"
    using switch_dir_ok[of "put_mm m4 (s\<lparr>f_mem := m3, f_k := ?k\<rparr>)" parent P] x(5) by (simp add: put_mm_def)
  have "(f_k s)\<lparr>k_cr3 := P\<rparr> = f_k s"
    using c by (simp add: fork_ctx_def)
  then have run: "copy_page child parent tran v s = Inr (FRet () (s\<lparr>f_mem := ?m5\<rparr>))"
    using m1(1) s2 m3(1) m4(1) s5 by (simp add: copy_page_def on_mem_def)
  have keep: "ram m4 a = ram (mm ?m) a" if a: "frame a \<in> D" for a
    using a m4(3) m3(8)[of a] m1(3)[of a] t3(7) i by (auto simp: fork_inv_def)
  have new: "ram m4 (f + j * 4) = ram (mm ?m) (g + j * 4)" if j: "unat j < 1024" for j
    using m4(4)[OF j] m3(8)[of "ft + j * 4"] m1(4)[OF j] entry_addr(2)[OF j, of ft] t(4) by simp
  show thesis
    by (rule that[OF run i5 _ t3(7)]) (use m3(5-7,9,10) i4(2,3) i1(2,3) keep new in simp_all)
qed

subsection \<open>All pages of the parent\<close>

fun copy_pages :: "u32 \<Rightarrow> u32 \<Rightarrow> u32 \<Rightarrow> u32 list \<Rightarrow> procs \<Rightarrow> unit fcall res" where
  "copy_pages child parent tran [] s = Inr (FRet () s)"
| "copy_pages child parent tran (v # vs) s = fbind (copy_page child parent tran v s) (\<lambda>_. copy_pages child parent tran vs)"

lemma fbind_assoc: "fbind (fbind r f) g = fbind r (\<lambda>x s. fbind (f x s) g)"
  by (cases r) (auto simp: fbind_def split: fcall.splits)

lemma copy_pages_append: "copy_pages child parent tran (vs @ ws) s = fbind (copy_pages child parent tran vs s) (\<lambda>_. copy_pages child parent tran ws)"
proof (induction vs arbitrary: s)
  case (Cons v vs)
  have "copy_pages child parent tran (vs @ ws) = (\<lambda>s. fbind (copy_pages child parent tran vs s) (\<lambda>_. copy_pages child parent tran ws))"
    using Cons.IH by (rule ext)
  then show ?case
    by (simp add: fbind_assoc)
qed simp

definition used_pages :: "virtual_addr \<Rightarrow> u32 list" where
  "used_pages va = map (vpage va) (filter (bm_used (vaddr_bitmap va)) [0..<bm_slots (vaddr_bitmap va)])"

lemma bit_test: "push_bit k 1 AND (ucast b :: u32) \<noteq> 0 \<longleftrightarrow> bit b k" if "k < 8" for b :: u8
proof -
  have "push_bit k 1 AND (ucast b :: u32) \<noteq> 0 \<longleftrightarrow> bit (ucast b :: u32) k"
    using and_exp_ne_0[of "ucast b" k] by (simp add: and.commute push_bit_eq_mult)
  then show ?thesis
    using that by (simp add: bit_simps)
qed

lemma copy_bits_pages:
  "k + n \<le> 8 \<Longrightarrow> copy_bits n k b ib start child parent tran s =
    copy_pages child parent tran (map (\<lambda>k. (ib * 8 + word_of_nat k) * PG_SIZE + start) (filter (bit b) [k..<k + n])) s"
proof (induction n arbitrary: k s)
  case (Suc n)
  have "[k..<k + Suc n] = k # [Suc k..<Suc k + n]"
    by (simp add: upt_conv_Cons)
  moreover have "copy_bits n (Suc k) b ib start child parent tran = copy_pages child parent tran (map (\<lambda>k. (ib * 8 + word_of_nat k) * PG_SIZE + start) (filter (bit b) [Suc k..<Suc k + n]))"
    using Suc.IH[of "Suc k"] Suc.prems by (intro ext) simp
  ultimately show ?case
    using bit_test[of k b] Suc.prems by simp
qed simp

lemma upt_byte: "[m * 8..<m * 8 + 8] = map (\<lambda>k. m * 8 + k) [0..<8]"
  using map_add_upt[of "m * 8" 8] by (simp add: add.commute)

lemma copy_bytes_pages:
  assumes "unat ib + n \<le> length bits" "length bits < 4294967296"
  shows "copy_bytes n ib bits start child parent tran s =
    copy_pages child parent tran (map (\<lambda>i. start + word_of_nat i * PG_SIZE) (filter (\<lambda>i. bit (bits ! (i div 8)) (i mod 8)) [unat ib * 8..<(unat ib + n) * 8])) s"
  using assms(1)
proof (induction n arbitrary: ib s)
  case (Suc n)
  let ?u = "\<lambda>i. bit (bits ! (i div 8)) (i mod 8)" and ?b = "bits ! unat ib" and ?F = "\<lambda>i. start + word_of_nat i * PG_SIZE"
  have ui: "unat (ib + 1) = unat ib + 1"
    using Suc.prems assms(2) by (subst unat_add_lt) simp_all
  have f: "map ?F (filter ?u [unat ib * 8..<unat ib * 8 + 8]) = map (\<lambda>k. (ib * 8 + word_of_nat k) * PG_SIZE + start) (filter (bit ?b) [0..<0 + 8])"
  proof -
    have "filter (\<lambda>k. ?u (unat ib * 8 + k)) [0..<8] = filter (bit ?b) [0..<8]"
      by (rule filter_cong) simp_all
    then show ?thesis
      unfolding upt_byte filter_map by (simp add: o_def add.commute)
  qed
  have skip: "map ?F (filter ?u [unat ib * 8..<unat ib * 8 + 8]) = []" if "?b = 0"
    unfolding f using that by simp
  have l: "[unat ib * 8..<(unat ib + Suc n) * 8] = [unat ib * 8..<unat ib * 8 + 8] @ [unat (ib + 1) * 8..<(unat (ib + 1) + n) * 8]"
    using upt_add_eq_append[of "unat ib * 8" "unat ib * 8 + 8" "n * 8"] unfolding ui by (simp add: algebra_simps)
  have ih: "copy_bytes n (ib + 1) bits start child parent tran = copy_pages child parent tran (map ?F (filter ?u [unat (ib + 1) * 8..<(unat (ib + 1) + n) * 8]))"
    using Suc.IH[of "ib + 1"] Suc.prems ui by (intro ext) simp
  show ?case
  proof (cases "?b = 0")
    case True
    then show ?thesis
      using Suc.prems unfolding l filter_append map_append skip[OF True] by (simp add: ih)
  next
    case False
    then show ?thesis
      using Suc.prems copy_bits_pages[of 0 8 ?b ib start child parent tran s] unfolding l filter_append map_append f copy_pages_append by (simp add: ih)
  qed
qed simp

lemma copy_body_pages:
  assumes "wf_bitmap (vaddr_bitmap (f_vaddr s parent))"
  shows "copy_body_stack3 child parent tran s = copy_pages child parent tran (used_pages (f_vaddr s parent)) s"
proof -
  let ?va = "f_vaddr s parent"
  let ?n = "unat (bm_len (vaddr_bitmap ?va))" and ?b = "bm_bits (vaddr_bitmap ?va)"
  have l: "length ?b = ?n" "?n < 4294967296"
    using assms by (simp_all add: wf_bitmap_def unat_u32_lt)
  have "map (\<lambda>i. vaddr_start ?va + word_of_nat i * PG_SIZE) (filter (\<lambda>i. bit (?b ! (i div 8)) (i mod 8)) [0..<?n * 8]) = used_pages ?va"
    unfolding used_pages_def vpage_def bm_used_def bm_slots_def by (simp only: mult.commute[of 8 ?n])
  then show ?thesis
    using copy_bytes_pages[of 0 ?n ?b "vaddr_start ?va" child parent tran s] l by (simp add: copy_body_stack3_def Let_def)
qed

text \<open>What the copy promises of a list of pages.\<close>

lemma aligned_same_page: "frame v = v \<Longrightarrow> frame w = w \<Longrightarrow> same_page v w \<Longrightarrow> v = w"
  using unat_frame[of v] unat_frame[of w] unfolding same_page_unat word_unat_eq_iff by metis

lemma user_pdi: "unat v < 0xc0000000 \<Longrightarrow> pdi v \<noteq> 1023"
  using less_mult_imp_div_less[of "unat v" 768 4194304] by (auto simp: word_unat_eq_iff unat_pdi)

definition copied :: "u32 \<Rightarrow> u32 \<Rightarrow> u32 \<Rightarrow> u32 \<Rightarrow> u32 set \<Rightarrow> u32 set \<Rightarrow> u32 list \<Rightarrow> mem \<Rightarrow> mem \<Rightarrow> bool" where
  "copied P C tran ft D D' vs m m' \<longleftrightarrow> D \<subseteq> D' \<and> fork_inv P C tran ft D' m' \<and> cr3_reg (mm m') = P \<and>
    (\<forall>w. translate (space P m') w = translate (space P m) w) \<and> (\<forall>a. frame a \<in> D \<longrightarrow> ram (mm m') a = ram (mm m) a) \<and>
    (\<forall>w. (\<forall>v \<in> set vs. \<not> same_page v w) \<longrightarrow> pdi w \<noteq> 1023 \<longrightarrow> translate (space C m') w = translate (space C m) w) \<and>
    (\<forall>v \<in> set vs. \<forall>g. translate (space P m) v = Some g \<longrightarrow>
      (\<exists>f. f \<in> D' - D \<and> translate (space C m') v = Some f \<and> (\<forall>j. unat j < 1024 \<longrightarrow> ram (mm m') (f + j * 4) = ram (mm m) (g + j * 4))))"

lemma copy_pages_ok:
  assumes "fork_inv P C tran ft D (f_mem s)" "fork_ctx P C child parent tran s" "length vs \<le> room (kernel_pool (f_mem s))" "length vs \<le> room (user_pool (f_mem s))"
    and "\<forall>v \<in> set vs. unat v < 0xc0000000 \<and> frame v = v \<and> translate (space C (f_mem s)) v = None \<and> (\<exists>g \<in> D. translate (space P (f_mem s)) v = Some g)"
    and "distinct vs"
  shows "\<exists>m' D'. copy_pages child parent tran vs s = Inr (FRet () (s\<lparr>f_mem := m'\<rparr>)) \<and> copied P C tran ft D D' vs (f_mem s) m'"
  using assms
proof (induction vs arbitrary: s D)
  case Nil
  then show ?case
    by (intro exI[of _ "f_mem s"] exI[of _ D]) (simp add: fork_ctx_def copied_def)
next
  case (Cons v vs)
  let ?m = "f_mem s"
  have D: "\<And>g. g \<in> D \<Longrightarrow> frame g = g"
    using Cons.prems(1) by (auto simp: fork_inv_def)
  have v: "unat v < 0xc0000000" "translate (space C ?m) v = None" "frame v = v" "0 < room (kernel_pool ?m)" "0 < room (user_pool ?m)"
    using Cons.prems(3-5) by auto
  obtain g where g: "translate (space P ?m) v = Some g" "g \<in> D"
    using Cons.prems(5) by auto
  obtain m1 f where r: "copy_page child parent tran v s = Inr (FRet () (s\<lparr>f_mem := m1\<rparr>))" "fork_inv P C tran ft (insert f D) m1"
    "cr3_reg (mm m1) = P" "f \<notin> D" "translate (space C m1) v = Some f"
    "\<And>w. \<not> same_page v w \<Longrightarrow> pdi w \<noteq> 1023 \<Longrightarrow> translate (space C m1) w = translate (space C ?m) w"
    "\<And>w. translate (space P m1) w = translate (space P ?m) w" "\<And>a. frame a \<in> D \<Longrightarrow> ram (mm m1) a = ram (mm ?m) a"
    "\<And>j. unat j < 1024 \<Longrightarrow> ram (mm m1) (f + j * 4) = ram (mm ?m) (g + j * 4)"
    "room (kernel_pool ?m) \<le> Suc (room (kernel_pool m1))" "room (user_pool ?m) \<le> Suc (room (user_pool m1))"
    by (rule copy_page_ok[OF Cons.prems(1,2) v(4,5,1-3) g]) (rule that)
  let ?s = "s\<lparr>f_mem := m1\<rparr>"
  have ctx: "fork_ctx P C child parent tran ?s"
    using Cons.prems(2) r(3,7) by (simp add: fork_ctx_def)
  have ns: "\<not> same_page v w" "\<not> same_page w v" "pdi w \<noteq> 1023" if "w \<in> set vs" for w
    using that Cons.prems(5,6) aligned_same_page[of v w] user_pdi[of w] by (auto simp: same_page_def)
  have pre: "\<forall>w \<in> set vs. unat w < 0xc0000000 \<and> frame w = w \<and> translate (space C (f_mem ?s)) w = None \<and> (\<exists>g \<in> insert f D. translate (space P (f_mem ?s)) w = Some g)"
    using Cons.prems(5) r(6,7) ns by auto
  have "length vs \<le> room (kernel_pool (f_mem ?s))" "length vs \<le> room (user_pool (f_mem ?s))" "distinct vs" "fork_inv P C tran ft (insert f D) (f_mem ?s)"
    using Cons.prems(3,4,6) r(2,10,11) by simp_all
  from Cons.IH[OF this(4) ctx this(1,2) pre this(3)] obtain m2 D' where run: "copy_pages child parent tran vs ?s = Inr (FRet () (?s\<lparr>f_mem := m2\<rparr>))"
    and cp: "copied P C tran ft (insert f D) D' vs m1 m2"
    by auto
  have i: "insert f D \<subseteq> D'" "fork_inv P C tran ft D' m2" "cr3_reg (mm m2) = P" "\<And>w. translate (space P m2) w = translate (space P m1) w"
    "\<And>a. frame a \<in> insert f D \<Longrightarrow> ram (mm m2) a = ram (mm m1) a"
    "\<And>w. \<forall>v \<in> set vs. \<not> same_page v w \<Longrightarrow> pdi w \<noteq> 1023 \<Longrightarrow> translate (space C m2) w = translate (space C m1) w"
    "\<And>v g. v \<in> set vs \<Longrightarrow> translate (space P m1) v = Some g \<Longrightarrow>
      \<exists>f'. f' \<in> D' - insert f D \<and> translate (space C m2) v = Some f' \<and> (\<forall>j. unat j < 1024 \<longrightarrow> ram (mm m2) (f' + j * 4) = ram (mm m1) (g + j * 4))"
    using cp unfolding copied_def by blast+
  have fr: "frame (x + j * 4) = x" if "frame x = x" "unat j < 1024" for x j
    using entry_addr(2)[OF that(2), of x] that(1) by simp
  have "translate (space C m2) v = Some f"
    using i(6)[of v] ns(2) user_pdi[OF v(1)] r(5) by auto
  moreover have "frame f = f"
    using r(2) by (simp add: fork_inv_def)
  then have "ram (mm m2) (f + j * 4) = ram (mm ?m) (g + j * 4)" if "unat j < 1024" for j
    using i(5)[of "f + j * 4"] r(9)[OF that] fr[OF _ that, of f] by simp
  ultimately have first: "\<exists>f'. f' \<in> D' - D \<and> translate (space C m2) v = Some f' \<and> (\<forall>j. unat j < 1024 \<longrightarrow> ram (mm m2) (f' + j * 4) = ram (mm ?m) (g + j * 4))"
    using r(4) i(1) by auto
  have rest: "\<exists>f'. f' \<in> D' - D \<and> translate (space C m2) w = Some f' \<and> (\<forall>j. unat j < 1024 \<longrightarrow> ram (mm m2) (f' + j * 4) = ram (mm ?m) (h + j * 4))"
    if w: "w \<in> set vs" "translate (space P ?m) w = Some h" for w h
  proof -
    have "h \<in> D"
      using Cons.prems(5) w by auto
    then have "ram (mm m1) (h + j * 4) = ram (mm ?m) (h + j * 4)" if "unat j < 1024" for j
      using r(8)[of "h + j * 4"] fr[OF D that] by simp
    then show ?thesis
      using i(7)[OF w(1), of h] r(7) w(2) by auto
  qed
  have "copied P C tran ft D D' (v # vs) ?m m2"
    unfolding copied_def
  proof (intro conjI)
    show "\<forall>w. (\<forall>v \<in> set (v # vs). \<not> same_page v w) \<longrightarrow> pdi w \<noteq> 1023 \<longrightarrow> translate (space C m2) w = translate (space C ?m) w"
      using i(6) r(6) by simp
    show "\<forall>w \<in> set (v # vs). \<forall>h. translate (space P ?m) w = Some h \<longrightarrow>
        (\<exists>f'. f' \<in> D' - D \<and> translate (space C m2) w = Some f' \<and> (\<forall>j. unat j < 1024 \<longrightarrow> ram (mm m2) (f' + j * 4) = ram (mm ?m) (h + j * 4)))"
      using first rest g(1) by auto
  qed (use i(1-5) r(7,8) in auto)
  then show ?case
    using r(1) run by auto
qed

lemma used_pages_props:
  assumes "vaddr_range_ok va" "unat (vaddr_start va) + bm_slots (vaddr_bitmap va) * 4096 \<le> 0xc0000000"
  shows "distinct (used_pages va)" "\<And>v. v \<in> set (used_pages va) \<Longrightarrow> unat v < 0xc0000000 \<and> frame v = v"
proof -
  have "inj_on (vpage va) {i. i < bm_slots (vaddr_bitmap va)}"
    using vpage_distinct[OF assms(1)] by (intro inj_onI) (metis mem_Collect_eq nat_less_le same_page_refl)
  then show "distinct (used_pages va)"
    unfolding used_pages_def distinct_map by (auto intro: inj_on_subset)
  fix v assume "v \<in> set (used_pages va)"
  then obtain i where i: "v = vpage va i" "i < bm_slots (vaddr_bitmap va)"
    by (auto simp: used_pages_def)
  have "Suc i * 4096 \<le> bm_slots (vaddr_bitmap va) * 4096"
    using i(2) by (intro mult_le_mono1) simp
  then show "unat v < 0xc0000000 \<and> frame v = v"
    using unat_vpage[OF assms(1), of i] vpage_run(3)[OF assms(1), of i 0] i assms(2) by simp
qed

text \<open>
  C14. \<^verbatim>\<open>fork\<close> gives the child a copy of the memory of the parent: with two address spaces that share only the tables of the kernel, an empty user part of
  the child's, and enough free frames, \<^verbatim>\<open>copy_body_stack3\<close> ends, returns to the address space of the parent and changes nothing but memory and pools.
  Then every page marked in the parent's bitmap has the same words in both address spaces, the parent reads what it read before, the pages of the
  child lie in frames that were not in use, no other user page of the child is mapped, and kernel addresses are translated alike.
\<close>

theorem fork_copies_memory:
  assumes inv: "fork_inv P C tran ft D (f_mem s)" "fork_ctx P C child parent tran s"
    and va: "vaddr_range_ok (f_vaddr s parent)" "unat (vaddr_start (f_vaddr s parent)) + bm_slots (vaddr_bitmap (f_vaddr s parent)) * 4096 \<le> 0xc0000000"
    and mapped: "\<forall>v \<in> set (used_pages (f_vaddr s parent)). \<exists>g \<in> D. translate (space P (f_mem s)) v = Some g"
    and empty: "\<forall>w. unat w < 0xc0000000 \<longrightarrow> translate (space C (f_mem s)) w = None"
    and enough: "length (used_pages (f_vaddr s parent)) \<le> min (room (kernel_pool (f_mem s))) (room (user_pool (f_mem s)))"
  shows "\<exists>m'. copy_body_stack3 child parent tran s = Inr (FRet () (s\<lparr>f_mem := m'\<rparr>)) \<and> cr3_reg (mm m') = P \<and>
    (\<forall>v \<in> set (used_pages (f_vaddr s parent)). \<forall>j. unat j < 1024 \<longrightarrow>
      load (v + j * 4) (space C m') = load (v + j * 4) (space P (f_mem s)) \<and> load (v + j * 4) (space P m') = load (v + j * 4) (space P (f_mem s))) \<and>
    (\<forall>v \<in> set (used_pages (f_vaddr s parent)). \<exists>f. f \<notin> D \<and> translate (space C m') v = Some f) \<and>
    (\<forall>w. unat w < 0xc0000000 \<longrightarrow> (\<forall>v \<in> set (used_pages (f_vaddr s parent)). \<not> same_page v w) \<longrightarrow> translate (space C m') w = None) \<and>
    (\<forall>w. kernel_addr w \<longrightarrow> translate (space C m') w = translate (space P (f_mem s)) w)"
proof -
  let ?vs = "used_pages (f_vaddr s parent)" and ?m = "f_mem s"
  note u = used_pages_props[OF va]
  have pre: "\<forall>v \<in> set ?vs. unat v < 0xc0000000 \<and> frame v = v \<and> translate (space C ?m) v = None \<and> (\<exists>g \<in> D. translate (space P ?m) v = Some g)"
    using u(2) mapped empty by auto
  have room: "length ?vs \<le> room (kernel_pool ?m)" "length ?vs \<le> room (user_pool ?m)"
    using enough by simp_all
  obtain m' D' where r: "copy_pages child parent tran ?vs s = Inr (FRet () (s\<lparr>f_mem := m'\<rparr>))" and c: "copied P C tran ft D D' ?vs ?m m'"
    using copy_pages_ok[OF inv room pre u(1)] by blast
  have run: "copy_body_stack3 child parent tran s = Inr (FRet () (s\<lparr>f_mem := m'\<rparr>))"
    using copy_body_pages[of s parent child tran] va(1) r by (simp add: vaddr_range_ok_def)
  have cp: "fork_inv P C tran ft D' m'" "cr3_reg (mm m') = P" "\<And>w. translate (space P m') w = translate (space P ?m) w" "\<And>a. frame a \<in> D \<Longrightarrow> ram (mm m') a = ram (mm ?m) a"
    "\<And>w. \<forall>v \<in> set ?vs. \<not> same_page v w \<Longrightarrow> pdi w \<noteq> 1023 \<Longrightarrow> translate (space C m') w = translate (space C ?m) w"
    "\<And>v g. v \<in> set ?vs \<Longrightarrow> translate (space P ?m) v = Some g \<Longrightarrow>
      \<exists>f. f \<in> D' - D \<and> translate (space C m') v = Some f \<and> (\<forall>j. unat j < 1024 \<longrightarrow> ram (mm m') (f + j * 4) = ram (mm ?m) (g + j * 4))"
    using c unfolding copied_def by blast+
  have word: "load (v + j * 4) n = Inr (ram n (f + j * 4))" if "frame v = v" "unat j < 1024" "translate n v = Some f" for v j n f
    using translate_word[OF that] by (simp add: load_def)
  have page: "(\<exists>f. f \<notin> D \<and> translate (space C m') v = Some f) \<and> (\<forall>j. unat j < 1024 \<longrightarrow>
      load (v + j * 4) (space C m') = load (v + j * 4) (space P ?m) \<and> load (v + j * 4) (space P m') = load (v + j * 4) (space P ?m))"
    if v: "v \<in> set ?vs" for v
  proof -
    obtain g where g: "translate (space P ?m) v = Some g" "g \<in> D"
      using mapped v by blast
    then obtain f where f: "f \<notin> D" "translate (space C m') v = Some f" "\<And>j. unat j < 1024 \<Longrightarrow> ram (mm m') (f + j * 4) = ram (mm ?m) (g + j * 4)"
      using cp(6)[OF v g(1)] by auto
    have "frame g = g"
      using inv(1) g(2) by (auto simp: fork_inv_def)
    then have k: "ram (mm m') (g + j * 4) = ram (mm ?m) (g + j * 4)" if "unat j < 1024" for j
      using cp(4)[of "g + j * 4"] entry_addr(2)[OF that, of g] g(2) by simp
    show ?thesis
      using f g(1) k cp(3)[of v] u(2)[OF v] word[of v _ "space C m'" f] word[of v _ "space P m'" g] word[of v _ "space P ?m" g] by auto
  qed
  have "two_spaces P C m'"
    using cp(1) by (simp add: fork_inv_def)
  then show ?thesis
    using run cp(2) page cp(5) empty user_pdi two_spaces_kernel cp(3) by (intro exI[of _ m']) auto
qed

subsection \<open>A machine with a process\<close>

text \<open>
  The parent has its directory at 1 MB and one page at the start of user space, the child an empty directory; both share one table of the kernel, which
  maps the page used for copying and the two directories.
\<close>

definition pmem_fork :: pmem where
  "pmem_fork = \<lparr>ram = (\<lambda>_. 0)(0x100080 := 0x103007, 0x100c00 := 0x101007, 0x100ffc := 0x100007, 0x102c00 := 0x101007, 0x102ffc := 0x102007,
     0x101400 := 0x200007, 0x101404 := 0x100007, 0x101408 := 0x102007, 0x103120 := 0x400007, 0x400000 := 42), cr3_reg = 0x100000\<rparr>"

definition mem_fork :: mem where
  "mem_fork = mem0\<lparr>mm := pmem_fork, user_pool := \<lparr>pool_bitmap = \<lparr>bm_len = 2, bm_bits = [0, 0]\<rparr>, phy_addr_start = 0x500000, pool_size = 0x10000, pool_lock = lock_init\<rparr>\<rparr>"

definition procs_fork :: procs where
  "procs_fork = \<lparr>f_mem = mem_fork, f_k = kstate0\<lparr>k_cr3 := 0x100000, pcbs := (pcbs kstate0)(0x2000 := pcb0\<lparr>pg_dir := 0xc0101000\<rparr>, 0x5000 := pcb0\<lparr>pg_dir := 0xc0102000\<rparr>)\<rparr>,
     f_vaddr = (\<lambda>_. \<lparr>vaddr_bitmap = \<lparr>bm_len = 2, bm_bits = [1, 0]\<rparr>, vaddr_start = 0x8048000\<rparr>), f_bits = (\<lambda>_. 0), f_frame = undefined, f_descs = (\<lambda>_. [])\<rparr>"

lemma ram_fork: "ram pmem_fork a = (if a = 0x100080 then 0x103007 else if a = 0x100c00 then 0x101007 else if a = 0x100ffc then 0x100007 else if a = 0x102c00 then 0x101007
    else if a = 0x102ffc then 0x102007 else if a = 0x101400 then 0x200007 else if a = 0x101404 then 0x100007 else if a = 0x101408 then 0x102007
    else if a = 0x103120 then 0x400007 else if a = 0x400000 then 42 else 0)"
  by (simp add: pmem_fork_def)

lemma entry_eq: "unat i < 1024 \<Longrightarrow> frame B = B \<Longrightarrow> B + i * 4 = a \<longleftrightarrow> unat B + unat i * 4 = unat a"
  using entry_addr(1)[of i B] unfolding word_unat_eq_iff[of _ a] by simp

lemma pd_fork:
  assumes "unat i < 1024"
  shows "pd_entry (pmem_fork\<lparr>cr3_reg := 0x100000\<rparr>) i = (if i = 32 then 0x103007 else if i = 768 then 0x101007 else if i = 1023 then 0x100007 else 0)"
    "pd_entry (pmem_fork\<lparr>cr3_reg := 0x102000\<rparr>) i = (if i = 768 then 0x101007 else if i = 1023 then 0x102007 else 0)"
proof -
  have f: "frame 0x100000 = 0x100000" "frame 0x102000 = 0x102000"
    by (simp_all add: frame_def)
  have e: "unat i = 32 \<longleftrightarrow> i = 32" "unat i = 768 \<longleftrightarrow> i = 768" "unat i = 1023 \<longleftrightarrow> i = 1023"
    by (simp_all add: word_unat_eq_iff)
  show "pd_entry (pmem_fork\<lparr>cr3_reg := 0x100000\<rparr>) i = (if i = 32 then 0x103007 else if i = 768 then 0x101007 else if i = 1023 then 0x100007 else 0)"
    unfolding e[symmetric] using assms by (simp add: pd_entry_def f ram_fork entry_eq[OF assms f(1)])
  show "pd_entry (pmem_fork\<lparr>cr3_reg := 0x102000\<rparr>) i = (if i = 768 then 0x101007 else if i = 1023 then 0x102007 else 0)"
    unfolding e[symmetric] using assms by (simp add: pd_entry_def f ram_fork entry_eq[OF assms f(2)])
qed

lemma tables_fork: "tables (pmem_fork\<lparr>cr3_reg := 0x100000\<rparr>) = {0x103000, 0x101000, 0x100000}" "tables (pmem_fork\<lparr>cr3_reg := 0x102000\<rparr>) = {0x101000, 0x102000}"
proof -
  show "tables (pmem_fork\<lparr>cr3_reg := 0x100000\<rparr>) = {0x103000, 0x101000, 0x100000}"
    unfolding tables_def by (auto simp: pd_fork present_def frame_def split: if_splits intro: exI[of _ 32] exI[of _ 768] exI[of _ 1023])
  show "tables (pmem_fork\<lparr>cr3_reg := 0x102000\<rparr>) = {0x101000, 0x102000}"
    unfolding tables_def by (auto simp: pd_fork present_def frame_def split: if_splits intro: exI[of _ 768] exI[of _ 1023])
qed

lemma mm_fork: "mm mem_fork = pmem_fork"
  by (simp add: mem_fork_def)

lemma two_spaces_fork: "two_spaces 0x100000 0x102000 mem_fork"
proof -
  have "wf_pd (pmem_fork\<lparr>cr3_reg := 0x100000\<rparr>)" "wf_pd (pmem_fork\<lparr>cr3_reg := 0x102000\<rparr>)"
    unfolding wf_pd_def unat_1024[symmetric] by (auto simp: pd_fork present_def frame_def split: if_splits)
  then show ?thesis
    unfolding two_spaces_def mm_fork tables_fork by (auto simp: pd_fork frame_def present_def word_unat_eq_iff)
qed

lemma translate_fork: "translate (pmem_fork\<lparr>cr3_reg := 0x100000\<rparr>) 0xc0100000 = Some 0x200000" "translate (pmem_fork\<lparr>cr3_reg := 0x100000\<rparr>) 0xc0101000 = Some 0x100000"
  "translate (pmem_fork\<lparr>cr3_reg := 0x100000\<rparr>) 0xc0102000 = Some 0x102000" "translate (pmem_fork\<lparr>cr3_reg := 0x100000\<rparr>) 0x8048000 = Some 0x400000"
  by (simp_all add: translate_def pde_addr_def pte_addr_def frame_def present_def ram_fork)

lemma pools_fork: "pool_ok (kernel_pool mem_fork)" "pool_ok (user_pool mem_fork)" "room (kernel_pool mem_fork) = 1" "room (user_pool mem_fork) = 1"
proof -
  have "{i::nat. i < Suc 0 \<and> \<not> bit ([0, 0] ! (i div 8) :: u8) (i mod 8)} = {0}"
    by auto
  then show "room (kernel_pool mem_fork) = 1" "room (user_pool mem_fork) = 1"
    by (simp_all add: room_def mem_fork_def mem0_def bm_used_def)
qed (simp_all add: pool_ok_def mem_fork_def mem0_def wf_bitmap_def bm_slots_def frame_def)

lemma free_fork:
  "frame_free (kernel_pool mem_fork) f \<Longrightarrow> 0x300000 \<le> unat f \<and> unat f < 0x310000"
  "frame_free (user_pool mem_fork) f \<Longrightarrow> 0x500000 \<le> unat f \<and> unat f < 0x510000"
  using frame_of_props(1)[OF pools_fork(1)] frame_of_props(1)[OF pools_fork(2)] by (auto simp: frame_free_def mem_fork_def mem0_def bm_slots_def)

lemma fork_inv_fork: "fork_inv 0x100000 0x102000 0xc0100000 0x200000 {0x400000} mem_fork"
proof -
  have "f \<noteq> 0x103000 \<and> f \<noteq> 0x101000 \<and> f \<noteq> 0x100000 \<and> f \<noteq> 0x102000 \<and> f \<noteq> 0x400000 \<and> f \<noteq> 0x200000" if "is_free mem_fork f" for f
    using that free_fork[of f] by (auto simp: is_free_def)
  moreover have "\<not> (frame_free (kernel_pool mem_fork) f \<and> frame_free (user_pool mem_fork) f)" for f
    using free_fork[of f] by auto
  moreover have "pool_lock (user_pool mem_fork) = lock_init"
    by (simp add: mem_fork_def)
  ultimately show ?thesis
    unfolding fork_inv_def mm_fork tables_fork using two_spaces_fork pools_fork(1,2) translate_fork(1) by (simp add: frame_def)
qed

lemma fork_ctx_fork: "fork_ctx 0x100000 0x102000 0x5000 0x2000 0xc0100000 procs_fork"
  using translate_fork(2,3) by (simp add: fork_ctx_def procs_fork_def mm_fork kernel_addr_def kstate0_def NULL_def) (simp add: mem_fork_def pmem_fork_def)

lemma used_fork: "used_pages (f_vaddr procs_fork 0x2000) = [0x8048000]"
  by (simp add: procs_fork_def used_pages_def bm_slots_def bm_used_def vpage_def upt_rec PG_SIZE_def)

lemma empty_fork:
  assumes "unat w < 0xc0000000"
  shows "translate (pmem_fork\<lparr>cr3_reg := 0x102000\<rparr>) w = None"
proof -
  have "unat (pdi w) < 768"
    using less_mult_imp_div_less[of "unat w" 768 4194304] assms by (simp add: unat_pdi)
  then have "pd_entry (pmem_fork\<lparr>cr3_reg := 0x102000\<rparr>) (pdi w) = 0"
    using pd_fork(2)[OF pdi_lt, of w] by (auto split: if_splits)
  then show ?thesis
    by (simp only: translate_def pde_addr_entry) (simp add: present_def)
qed

theorem fork_copies_memory_witness:
  "\<exists>m'. copy_body_stack3 0x5000 0x2000 0xc0100000 procs_fork = Inr (FRet () (procs_fork\<lparr>f_mem := m'\<rparr>)) \<and>
    load 0x8048000 (space 0x102000 m') = Inr 42 \<and> load 0x8048000 (space 0x100000 m') = Inr 42 \<and> translate (space 0x102000 m') 0x8048000 \<noteq> Some 0x400000"
proof -
  have va: "vaddr_range_ok (f_vaddr procs_fork 0x2000)" "unat (vaddr_start (f_vaddr procs_fork 0x2000)) + bm_slots (vaddr_bitmap (f_vaddr procs_fork 0x2000)) * 4096 \<le> 0xc0000000"
    by (simp_all add: procs_fork_def vaddr_range_ok_def wf_bitmap_def bm_slots_def frame_def)
  have m: "f_mem procs_fork = mem_fork"
    by (simp add: procs_fork_def)
  have l: "load 0x8048000 (space 0x100000 mem_fork) = Inr 42"
    using translate_fork(4) by (simp add: load_def mm_fork ram_fork)
  have "fork_inv 0x100000 0x102000 0xc0100000 0x200000 {0x400000} (f_mem procs_fork)"
    using fork_inv_fork m by simp
  from fork_copies_memory[OF this fork_ctx_fork va] show ?thesis
    unfolding used_fork m mm_fork[symmetric] using l empty_fork translate_fork(4) pools_fork(3,4) by (auto simp: mm_fork dest!: spec[of _ "0 :: u32"])
qed

end
