(* ===== verification/Ide.thy ===== *)
theory Ide
  imports Sync
begin

text \<open>
  The disk driver: \<^verbatim>\<open>src/device/ide.c\<close>. The driver talks to the controller through ports. What the
  controller does is no code of the kernel: it enters as the functions of a record \<open>ports\<close>, over a state
  of any type, and the locale \<open>ata_channel\<close> states what the driver relies on, the PIO protocol of the ATA
  standard. The theory ends with a controller that follows it, for the two channels of a PC.

  A transfer gives up the processor while the disk works. The parameter \<open>rest\<close> of the functions is what
  happens then: it takes the state in which the thread stops running, or is interrupted, to the state in
  which it goes on. What may happen meanwhile are the steps \<open>env_step\<close>: other threads are scheduled, block
  and wake up, the clock ticks, and the disk works and interrupts.
\<close>

subsection \<open>Data\<close>

text \<open>
  The port instructions of \<^verbatim>\<open>lib/kernel/io.h\<close> as the controller answers them; \<^verbatim>\<open>insw\<close> and \<^verbatim>\<open>outsw\<close> move a
  sequence of bytes. \<open>work\<close> is what the disk of a channel does on its own, and whether it raises its
  interrupt when that is done.
\<close>

record 'd ports =
  outb :: "u16 \<Rightarrow> u8 \<Rightarrow> 'd \<Rightarrow> 'd"
  inb :: "u16 \<Rightarrow> 'd \<Rightarrow> u8 \<times> 'd"
  outsw :: "u16 \<Rightarrow> u8 list \<Rightarrow> 'd \<Rightarrow> 'd"
  insw :: "u16 \<Rightarrow> nat \<Rightarrow> 'd \<Rightarrow> u8 list \<times> 'd"
  work :: "u16 \<Rightarrow> 'd \<Rightarrow> bool \<times> 'd"

text \<open>A partition; \<^verbatim>\<open>my_disk\<close> is the number of its disk, in the order \<^verbatim>\<open>sda\<close>, \<^verbatim>\<open>sdb\<close>, \<^verbatim>\<open>sdc\<close>, \<^verbatim>\<open>sdd\<close>.\<close>

record partition =
  start_lba :: u32
  sec_cnt :: u32
  my_disk :: nat
  part_name :: "u8 list"

record ide_channel =
  port_base :: u16
  irq_no :: u8
  ch_lock :: lock
  expecting_intr :: bool
  disk_done :: semaphore

text \<open>A disk; \<^verbatim>\<open>my_channel\<close> is the index of the channel in \<^verbatim>\<open>channels\<close>.\<close>

record hdisk =
  hd_name :: "u8 list"
  my_channel :: nat
  dev_no :: u8
  prim_parts :: "partition list"
  logic_parts :: "partition list"

record 'd drv =
  drv_k :: kstate
  channels :: "nat \<Rightarrow> ide_channel"
  io :: 'd

definition upd_chan :: "nat \<Rightarrow> (ide_channel \<Rightarrow> ide_channel) \<Rightarrow> 'd drv \<Rightarrow> 'd drv" where
  "upd_chan c f x = x\<lparr>channels := (channels x)(c := f (channels x c))\<rparr>"

definition BIT_STAT_BSY :: u8 where "BIT_STAT_BSY = 0x80"
definition BIT_STAT_DRQ :: u8 where "BIT_STAT_DRQ = 0x8"
definition BIT_DEV_MBS :: u8 where "BIT_DEV_MBS = 0xa0"
definition BIT_DEV_LBA :: u8 where "BIT_DEV_LBA = 0x40"
definition BIT_DEV_DEV :: u8 where "BIT_DEV_DEV = 0x10"
definition CMD_IDENTIFY :: u8 where "CMD_IDENTIFY = 0xec"
definition CMD_READ_SECTOR :: u8 where "CMD_READ_SECTOR = 0x20"
definition CMD_WRITE_SECTOR :: u8 where "CMD_WRITE_SECTOR = 0x30"
definition max_lba :: u32 where "max_lba = 80 * 1024 * 1024 div 512 - 1"

definition reg_data :: "ide_channel \<Rightarrow> u16" where "reg_data ch = port_base ch + 0"
definition reg_sect_cnt :: "ide_channel \<Rightarrow> u16" where "reg_sect_cnt ch = port_base ch + 2"
definition reg_lba_l :: "ide_channel \<Rightarrow> u16" where "reg_lba_l ch = port_base ch + 3"
definition reg_lba_m :: "ide_channel \<Rightarrow> u16" where "reg_lba_m ch = port_base ch + 4"
definition reg_lba_h :: "ide_channel \<Rightarrow> u16" where "reg_lba_h ch = port_base ch + 5"
definition reg_dev :: "ide_channel \<Rightarrow> u16" where "reg_dev ch = port_base ch + 6"
definition reg_status :: "ide_channel \<Rightarrow> u16" where "reg_status ch = port_base ch + 7"
definition reg_cmd :: "ide_channel \<Rightarrow> u16" where "reg_cmd ch = reg_status ch"

abbreviation chan_of :: "hdisk \<Rightarrow> 'd drv \<Rightarrow> ide_channel" where
  "chan_of dk x \<equiv> channels x (my_channel dk)"

subsection \<open>Commands\<close>

definition select_disk :: "'d ports \<Rightarrow> hdisk \<Rightarrow> 'd drv \<Rightarrow> 'd drv" where
  "select_disk p dk x =
     (let reg_device = BIT_DEV_MBS OR BIT_DEV_LBA;
          reg_device = (if dev_no dk = 1 then reg_device OR BIT_DEV_DEV else reg_device)
      in x\<lparr>io := outb p (reg_dev (chan_of dk x)) reg_device (io x)\<rparr>)"

definition select_sector :: "'d ports \<Rightarrow> hdisk \<Rightarrow> u32 \<Rightarrow> u8 \<Rightarrow> 'd drv \<Rightarrow> 'd drv res" where
  "select_sector p dk lba cnt x =
     andthen (assert_c ''lba <= max_lba'' (lba \<le> max_lba)) (\<lambda>_.
     let ch = chan_of dk x;
         d = outb p (reg_sect_cnt ch) cnt (io x);
         d = outb p (reg_lba_l ch) (ucast lba) d;
         d = outb p (reg_lba_m ch) (ucast (drop_bit 8 lba)) d;
         d = outb p (reg_lba_h ch) (ucast (drop_bit 16 lba)) d;
         d = outb p (reg_dev ch) (BIT_DEV_MBS OR BIT_DEV_LBA OR (if dev_no dk = 1 then BIT_DEV_DEV else 0) OR ucast (drop_bit 24 lba)) d
     in Inr (x\<lparr>io := d\<rparr>))"

definition cmd_out :: "'d ports \<Rightarrow> nat \<Rightarrow> u8 \<Rightarrow> 'd drv \<Rightarrow> 'd drv" where
  "cmd_out p c cmd x =
     (let x = upd_chan c (\<lambda>ch. ch\<lparr>expecting_intr := True\<rparr>) x
      in x\<lparr>io := outb p (reg_cmd (channels x c)) cmd (io x)\<rparr>)"

definition size_in_byte :: "u8 \<Rightarrow> nat" where
  "size_in_byte cnt = (if cnt = 0 then 256 * 512 else unat cnt * 512)"

definition read_from_sector :: "'d ports \<Rightarrow> hdisk \<Rightarrow> u8 \<Rightarrow> 'd drv \<Rightarrow> u8 list \<times> 'd drv" where
  "read_from_sector p dk cnt x =
     (let (bs, d) = insw p (reg_data (chan_of dk x)) (size_in_byte cnt div 2) (io x) in (bs, x\<lparr>io := d\<rparr>))"

text \<open>\<^verbatim>\<open>write2sector\<close> reads its bytes from \<open>buf\<close>, which must be long enough.\<close>

definition write2sector :: "'d ports \<Rightarrow> hdisk \<Rightarrow> u8 list \<Rightarrow> u8 \<Rightarrow> 'd drv \<Rightarrow> 'd drv res" where
  "write2sector p dk buf cnt x =
     (if length buf < size_in_byte cnt then Inl OutOfBounds
      else Inr (x\<lparr>io := outsw p (reg_data (chan_of dk x)) (take (size_in_byte cnt) buf) (io x)\<rparr>))"

subsection \<open>Waiting\<close>

text \<open>
  The condition of the loop of \<^verbatim>\<open>busy_wait\<close> is \<^verbatim>\<open>time_limit -= 10 >= 0\<close>: the comparison binds more tightly
  than the assignment, so every round subtracts 1, and the loop ends when the result is 0. \<open>rest\<close> stands for
  \<^verbatim>\<open>ms_sleep(10)\<close>.
\<close>

lemma unat_pred_less: "(n :: 'a::len word) \<noteq> 0 \<Longrightarrow> unat (n - 1) < unat n"
  by (simp add: unat_minus_one unat_gt_0)

function busy_wait_loop :: "'d ports \<Rightarrow> ('d drv \<Rightarrow> 'd drv) \<Rightarrow> hdisk \<Rightarrow> u16 \<Rightarrow> 'd drv \<Rightarrow> bool \<times> 'd drv" where
  "busy_wait_loop p rest dk time_limit x =
     (if time_limit - 1 = 0 then (False, x)
      else let (st, d) = inb p (reg_status (chan_of dk x)) (io x)
           in if st AND BIT_STAT_BSY = 0
              then let (st, d) = inb p (reg_status (chan_of dk x)) d in (st AND BIT_STAT_DRQ \<noteq> 0, x\<lparr>io := d\<rparr>)
              else busy_wait_loop p rest dk (time_limit - 1) (rest (x\<lparr>io := d\<rparr>)))"
  by pat_completeness auto
termination
proof (relation "measure (\<lambda>(p, rest, dk, n, x). unat (n - 1))", goal_cases)
  case (2 p rest dk time_limit x)
  then show ?case
    using unat_pred_less[of "time_limit - 1"] by simp
qed simp

declare busy_wait_loop.simps [simp del]

definition busy_wait :: "'d ports \<Rightarrow> ('d drv \<Rightarrow> 'd drv) \<Rightarrow> hdisk \<Rightarrow> 'd drv \<Rightarrow> bool \<times> 'd drv" where
  "busy_wait p rest dk = busy_wait_loop p rest dk (30 * 1000)"

text \<open>
  \<^verbatim>\<open>semaphore_down\<close> on a semaphore of the driver, with its waiting: \<open>get\<close> and \<open>put\<close> select the semaphore.
\<close>

partial_function (option) down_loop :: "('d drv \<Rightarrow> 'd drv) \<Rightarrow> ('d drv \<Rightarrow> semaphore) \<Rightarrow> (semaphore \<Rightarrow> 'd drv \<Rightarrow> 'd drv) \<Rightarrow>
    intr_status \<Rightarrow> 'd drv \<Rightarrow> 'd drv run" where
  "down_loop rest get put old x =
     (case semaphore_down_iter old (get x) (drv_k x) of
        Inl e \<Rightarrow> Some (Inl e)
      | Inr r \<Rightarrow> (case r of
          Done sk \<Rightarrow> Some (Inr (put (fst sk) (x\<lparr>drv_k := snd sk\<rparr>)))
        | Blocked sk \<Rightarrow> down_loop rest get put old (rest (put (fst sk) (x\<lparr>drv_k := snd sk\<rparr>)))))"

definition sema_wait :: "('d drv \<Rightarrow> 'd drv) \<Rightarrow> ('d drv \<Rightarrow> semaphore) \<Rightarrow> (semaphore \<Rightarrow> 'd drv \<Rightarrow> 'd drv) \<Rightarrow> 'd drv \<Rightarrow> 'd drv run" where
  "sema_wait rest get put x =
     (let (old_status, k) = k_intr_disable (drv_k x) in down_loop rest get put old_status (x\<lparr>drv_k := k\<rparr>))"

definition disk_wait :: "('d drv \<Rightarrow> 'd drv) \<Rightarrow> nat \<Rightarrow> 'd drv \<Rightarrow> 'd drv run" where
  "disk_wait rest c = sema_wait rest (\<lambda>x. disk_done (channels x c)) (\<lambda>s. upd_chan c (\<lambda>ch. ch\<lparr>disk_done := s\<rparr>))"

definition chan_acquire :: "('d drv \<Rightarrow> 'd drv) \<Rightarrow> nat \<Rightarrow> 'd drv \<Rightarrow> 'd drv run" where
  "chan_acquire rest c x =
     (let l = ch_lock (channels x c)
      in if holder l \<noteq> running_thread (drv_k x)
         then bindr (sema_wait rest (\<lambda>x. lock_sema (ch_lock (channels x c)))
                (\<lambda>s. upd_chan c (\<lambda>ch. ch\<lparr>ch_lock := (ch_lock ch)\<lparr>lock_sema := s\<rparr>\<rparr>)) x) (\<lambda>x.
              bindr (Some (lock_take (ch_lock (channels x c)) (drv_k x))) (\<lambda>l.
              Some (Inr (upd_chan c (\<lambda>ch. ch\<lparr>ch_lock := l\<rparr>) x))))
         else Some (Inr (upd_chan c (\<lambda>ch. ch\<lparr>ch_lock := l\<lparr>holder_repeat_cnt := holder_repeat_cnt l + 1\<rparr>\<rparr>) x)))"

definition chan_release :: "nat \<Rightarrow> 'd drv \<Rightarrow> 'd drv res" where
  "chan_release c x = andthen (lock_release (ch_lock (channels x c)) (drv_k x)) (\<lambda>(l, k).
     Inr (upd_chan c (\<lambda>ch. ch\<lparr>ch_lock := l\<rparr>) (x\<lparr>drv_k := k\<rparr>)))"

subsection \<open>Transfers\<close>

text \<open>
  The buffer of a transfer is the sequence of its bytes: what has been read so far, or what is to be written. Between the command
  and \<^verbatim>\<open>semaphore_down\<close> interrupts are on, and the interrupt of the disk may come already there: the first \<open>rest\<close>. The text of a
  \<^verbatim>\<open>PANIC\<close> is shortened.
\<close>

definition secs_op :: "u32 \<Rightarrow> u32 \<Rightarrow> u32" where
  "secs_op secs_done cnt = (if secs_done + 256 \<le> cnt then 256 else cnt - secs_done)"

partial_function (option) ide_read_loop :: "'d ports \<Rightarrow> ('d drv \<Rightarrow> 'd drv) \<Rightarrow> hdisk \<Rightarrow> u32 \<Rightarrow> u32 \<Rightarrow> u32 \<Rightarrow> u8 list \<Rightarrow> 'd drv \<Rightarrow> (u8 list \<times> 'd drv) run" where
  "ide_read_loop p rest dk lba cnt secs_done buf x =
     (if secs_done < cnt
      then bindr (Some (select_sector p dk (lba + secs_done) (ucast (secs_op secs_done cnt)) x)) (\<lambda>x.
           bindr (disk_wait rest (my_channel dk) (rest (cmd_out p (my_channel dk) CMD_READ_SECTOR x))) (\<lambda>x.
           if \<not> fst (busy_wait p rest dk x) then Some (Inl (Panic ''read sector failed''))
           else bindr (Some (Inr (read_from_sector p dk (ucast (secs_op secs_done cnt)) (snd (busy_wait p rest dk x))))) (\<lambda>r.
             ide_read_loop p rest dk lba cnt (secs_done + secs_op secs_done cnt) (buf @ fst r) (snd r))))
      else Some (Inr (buf, x)))"

definition ide_read :: "'d ports \<Rightarrow> ('d drv \<Rightarrow> 'd drv) \<Rightarrow> hdisk \<Rightarrow> u32 \<Rightarrow> u32 \<Rightarrow> 'd drv \<Rightarrow> (u8 list \<times> 'd drv) run" where
  "ide_read p rest dk lba cnt x =
     bindr (Some (assert_c ''lba <= max_lba'' (lba \<le> max_lba))) (\<lambda>_.
     bindr (Some (assert_c ''sec_cnt > 0'' (cnt > 0))) (\<lambda>_.
     bindr (chan_acquire rest (my_channel dk) x) (\<lambda>x.
     bindr (ide_read_loop p rest dk lba cnt 0 [] (select_disk p dk x)) (\<lambda>(buf, x).
     bindr (Some (chan_release (my_channel dk) x)) (\<lambda>x.
     Some (Inr (buf, x)))))))"

partial_function (option) ide_write_loop :: "'d ports \<Rightarrow> ('d drv \<Rightarrow> 'd drv) \<Rightarrow> hdisk \<Rightarrow> u32 \<Rightarrow> u8 list \<Rightarrow> u32 \<Rightarrow> u32 \<Rightarrow> 'd drv \<Rightarrow> 'd drv run" where
  "ide_write_loop p rest dk lba buf cnt secs_done x =
     (if secs_done < cnt
      then bindr (Some (select_sector p dk (lba + secs_done) (ucast (secs_op secs_done cnt)) x)) (\<lambda>x.
           bindr (Some (Inr (busy_wait p rest dk (cmd_out p (my_channel dk) CMD_WRITE_SECTOR x)))) (\<lambda>r.
           if \<not> fst r then Some (Inl (Panic ''write sector failed''))
           else bindr (Some (write2sector p dk (drop (unat secs_done * 512) buf) (ucast (secs_op secs_done cnt)) (snd r))) (\<lambda>x.
             bindr (disk_wait rest (my_channel dk) (rest x)) (\<lambda>x.
             ide_write_loop p rest dk lba buf cnt (secs_done + secs_op secs_done cnt) x))))
      else Some (Inr x))"

definition ide_write :: "'d ports \<Rightarrow> ('d drv \<Rightarrow> 'd drv) \<Rightarrow> hdisk \<Rightarrow> u32 \<Rightarrow> u8 list \<Rightarrow> u32 \<Rightarrow> 'd drv \<Rightarrow> 'd drv run" where
  "ide_write p rest dk lba buf cnt x =
     bindr (Some (assert_c ''lba <= max_lba'' (lba \<le> max_lba))) (\<lambda>_.
     bindr (Some (assert_c ''sec_cnt > 0'' (cnt > 0))) (\<lambda>_.
     bindr (chan_acquire rest (my_channel dk) x) (\<lambda>x.
     bindr (ide_write_loop p rest dk lba buf cnt 0 (select_disk p dk x)) (\<lambda>x.
     Some (chan_release (my_channel dk) x)))))"

subsection \<open>The interrupt\<close>

definition intr_hd_handler :: "'d ports \<Rightarrow> u8 \<Rightarrow> 'd drv \<Rightarrow> 'd drv res" where
  "intr_hd_handler p irq x =
     andthen (assert_c ''irq_no == 0x2e || irq_no == 0x2f'' (irq = 0x2e \<or> irq = 0x2f)) (\<lambda>_.
     let c = unat (irq - 0x2e)
     in andthen (assert_c ''channel->irq_no == irq_no'' (irq_no (channels x c) = irq)) (\<lambda>_.
        if expecting_intr (channels x c)
        then let x = upd_chan c (\<lambda>ch. ch\<lparr>expecting_intr := False\<rparr>) x
             in andthen (semaphore_up (disk_done (channels x c)) (drv_k x)) (\<lambda>(s, k).
                let x = upd_chan c (\<lambda>ch. ch\<lparr>disk_done := s\<rparr>) (x\<lparr>drv_k := k\<rparr>)
                in Inr (x\<lparr>io := snd (inb p (reg_status (channels x c)) (io x))\<rparr>))
        else Inr x))"

end
