(* ===== verification/Idexfer.thy ===== *)
theory Idexfer
  imports Ide
begin

text \<open>
  What the disk driver achieves. \<open>ata\<close> is the programming model of one ATA channel, the locale \<open>ata_channel\<close> says that a
  controller behaves like it, \<open>env_step\<close> is what may happen while a thread of the driver does not run, and the
  theorems say that a transfer moves the sectors it was asked to move, whatever happens meanwhile.
\<close>

subsection \<open>The programming model of a channel\<close>

text \<open>
  The registers of the selected drive and what the channel is doing: nothing, a command, offering data that the host must read,
  wanting a number of sectors from the host, or storing them. The sectors of the two drives are indexed by
  whether the drive is the slave.
\<close>

datatype ata_phase = Idle | Busy u8 | Offer "u8 list" | Want nat | Storing "u8 list"

record ata =
  r_cnt :: u8
  r_low :: u8
  r_mid :: u8
  r_high :: u8
  r_dev :: u8
  phase :: ata_phase
  sectors :: "bool \<Rightarrow> nat \<Rightarrow> u8 list"
  ident :: "bool \<Rightarrow> u8 list"

definition ata_lba :: "ata \<Rightarrow> nat" where
  "ata_lba a = unat (r_low a) + 256 * unat (r_mid a) + 65536 * unat (r_high a) + 16777216 * unat (r_dev a AND 0xF)"

definition ata_slave :: "ata \<Rightarrow> bool" where
  "ata_slave a = bit (r_dev a) 4"

definition ata_count :: "ata \<Rightarrow> nat" where
  "ata_count a = (if r_cnt a = 0 then 256 else unat (r_cnt a))"

definition sector_data :: "(nat \<Rightarrow> u8 list) \<Rightarrow> nat \<Rightarrow> nat \<Rightarrow> u8 list" where
  "sector_data f lba n = concat (map f [lba..<lba + n])"

definition store_data :: "nat \<Rightarrow> u8 list \<Rightarrow> (nat \<Rightarrow> u8 list) \<Rightarrow> nat \<Rightarrow> u8 list" where
  "store_data lba bs f i = (if lba \<le> i \<and> i < lba + length bs div 512 then take 512 (drop (512 * (i - lba)) bs) else f i)"

definition is_busy :: "ata_phase \<Rightarrow> bool" where
  "is_busy ph = (case ph of Busy _ \<Rightarrow> True | Storing _ \<Rightarrow> True | _ \<Rightarrow> False)"

definition has_drq :: "ata_phase \<Rightarrow> bool" where
  "has_drq ph = (case ph of Offer _ \<Rightarrow> True | Want _ \<Rightarrow> True | _ \<Rightarrow> False)"

text \<open>What the channel does next on its own, and whether it interrupts.\<close>

definition ata_next :: "ata \<Rightarrow> bool \<times> ata" where
  "ata_next a = (case phase a of
      Busy cmd \<Rightarrow>
        if cmd = CMD_READ_SECTOR then (True, a\<lparr>phase := Offer (sector_data (sectors a (ata_slave a)) (ata_lba a) (ata_count a))\<rparr>)
        else if cmd = CMD_WRITE_SECTOR then (False, a\<lparr>phase := Want (ata_count a)\<rparr>)
        else (True, a\<lparr>phase := Offer (ident a (ata_slave a))\<rparr>)
    | Storing bs \<Rightarrow> (True, a\<lparr>phase := Idle, sectors := (sectors a)(ata_slave a := store_data (ata_lba a) bs (sectors a (ata_slave a)))\<rparr>)
    | _ \<Rightarrow> (False, a))"

text \<open>
  A controller follows the protocol for commands of at most \<open>blk\<close> sectors: registers can be written while the channel is idle, a
  command makes it busy, the status register shows what it is doing, and the data of a command are transferred at one
  go. The standard guarantees the last point for \<open>blk = 1\<close>; emulators offer all sectors of a command at once.
\<close>

definition fits :: "nat \<Rightarrow> ata \<Rightarrow> bool" where
  "fits blk a \<longleftrightarrow> (case phase a of Busy cmd \<Rightarrow> cmd = CMD_IDENTIFY \<or> ata_count a \<le> blk | _ \<Rightarrow> True)"

locale ata_channel =
  fixes p :: "'d ports" and base :: u16 and view :: "'d \<Rightarrow> ata" and blk :: nat
  assumes set_cnt: "phase (view d) = Idle \<Longrightarrow> view (outb p (base + 2) v d) = (view d)\<lparr>r_cnt := v\<rparr>"
    and set_low: "phase (view d) = Idle \<Longrightarrow> view (outb p (base + 3) v d) = (view d)\<lparr>r_low := v\<rparr>"
    and set_mid: "phase (view d) = Idle \<Longrightarrow> view (outb p (base + 4) v d) = (view d)\<lparr>r_mid := v\<rparr>"
    and set_high: "phase (view d) = Idle \<Longrightarrow> view (outb p (base + 5) v d) = (view d)\<lparr>r_high := v\<rparr>"
    and set_dev: "phase (view d) = Idle \<Longrightarrow> view (outb p (base + 6) v d) = (view d)\<lparr>r_dev := v\<rparr>"
    and command: "phase (view d) = Idle \<Longrightarrow> cmd \<in> {CMD_IDENTIFY, CMD_READ_SECTOR, CMD_WRITE_SECTOR} \<Longrightarrow>
      view (outb p (base + 7) cmd d) = (view d)\<lparr>phase := Busy cmd\<rparr>"
    and status_view: "view (snd (inb p (base + 7) d)) = view d"
    and status_bsy: "fst (inb p (base + 7) d) AND BIT_STAT_BSY = 0 \<longleftrightarrow> \<not> is_busy (phase (view d))"
    and status_drq: "\<not> is_busy (phase (view d)) \<Longrightarrow> fst (inb p (base + 7) d) AND BIT_STAT_DRQ = 0 \<longleftrightarrow> \<not> has_drq (phase (view d))"
    and data_in: "phase (view d) = Offer bs \<Longrightarrow> length bs = 2 * n \<Longrightarrow>
      fst (insw p base n d) = bs \<and> view (snd (insw p base n d)) = (view d)\<lparr>phase := Idle\<rparr>"
    and data_out: "phase (view d) = Want n \<Longrightarrow> length bs = n * 512 \<Longrightarrow> view (outsw p base bs d) = (view d)\<lparr>phase := Storing bs\<rparr>"
    and works: "fits blk (view d) \<Longrightarrow>
      fst (work p base d) = fst (ata_next (view d)) \<and> view (snd (work p base d)) = snd (ata_next (view d))"

subsection \<open>What happens meanwhile\<close>

text \<open>The interrupt of channel \<open>c\<close> as the running thread sees it.\<close>

definition disk_interrupt :: "'d ports \<Rightarrow> nat \<Rightarrow> 'd drv \<Rightarrow> 'd drv res" where
  "disk_interrupt p c x =
     andthen (intr_hd_handler p (0x2e + word_of_nat c) (x\<lparr>drv_k := snd (k_intr_disable (drv_k x))\<rparr>)) (\<lambda>x1.
     Inr (x1\<lparr>drv_k := k_intr_set_status INTR_ON (drv_k x1)\<rparr>))"

text \<open>
  Steps that are not steps of thread \<open>t\<close>: other threads yield, sleep, wake others and change their interrupt flag; the clock may
  preempt any thread; the disk of channel \<open>c\<close> finishes what it does, and its interrupt is taken by whichever thread runs.
\<close>

inductive env_step :: "'d ports \<Rightarrow> nat \<Rightarrow> u32 \<Rightarrow> 'd drv \<Rightarrow> 'd drv \<Rightarrow> bool" for p c t where
  yield: "running_thread (drv_k x) \<noteq> t \<Longrightarrow> thread_yield (drv_k x) = Inr k \<Longrightarrow> env_step p c t x (x\<lparr>drv_k := k\<rparr>)"
| tick: "kern ts = drv_k x \<Longrightarrow> timer_interrupt ts = Inr ts' \<Longrightarrow> env_step p c t x (x\<lparr>drv_k := kern ts'\<rparr>)"
| sleep: "running_thread (drv_k x) \<noteq> t \<Longrightarrow> st \<in> {TASK_BLOCKED, TASK_WAITING, TASK_HANGING} \<Longrightarrow>
    (running_thread (drv_k x) = idle_thread (drv_k x) \<Longrightarrow> st = TASK_BLOCKED) \<Longrightarrow>
    thread_block st (drv_k x) = Inr k \<Longrightarrow> env_step p c t x (x\<lparr>drv_k := k\<rparr>)"
| wake: "u \<noteq> t \<Longrightarrow> u \<in> set (thread_all_list (drv_k x)) \<Longrightarrow>
    status_of (drv_k x) u \<in> {TASK_BLOCKED, TASK_WAITING, TASK_HANGING} \<Longrightarrow>
    thread_unblock u (drv_k x) = Inr k \<Longrightarrow> env_step p c t x (x\<lparr>drv_k := k\<rparr>)"
| flag: "running_thread (drv_k x) \<noteq> t \<Longrightarrow> env_step p c t x (x\<lparr>drv_k := k_intr_set_status st (drv_k x)\<rparr>)"
| disk_works: "work p (port_base (channels x c)) (io x) = (False, d) \<Longrightarrow> env_step p c t x (x\<lparr>io := d\<rparr>)"
| disk_done: "work p (port_base (channels x c)) (io x) = (True, d) \<Longrightarrow> intr_get_status (k_cpu (drv_k x)) = INTR_ON \<Longrightarrow>
    disk_interrupt p c (x\<lparr>io := d\<rparr>) = Inr x' \<Longrightarrow> env_step p c t x x'"

subsubsection \<open>The scheduler under these steps\<close>

definition kern_ok :: "u32 \<Rightarrow> kstate \<Rightarrow> bool" where
  "kern_ok t k \<longleftrightarrow> sched_inv k \<and> magic_inv k \<and> t \<in> set (thread_all_list k) \<and> t \<noteq> idle_thread k"

definition runnable :: "u32 \<Rightarrow> kstate \<Rightarrow> bool" where
  "runnable t k \<longleftrightarrow> t \<in> set (running_thread k # thread_ready_list k)"

text \<open>The scheduler went on: thread \<open>t\<close> still sleeps, or still waits for the processor.\<close>

definition kern_next :: "u32 \<Rightarrow> kstate \<Rightarrow> kstate \<Rightarrow> bool" where
  "kern_next t k k' \<longleftrightarrow> kern_ok t k' \<and> (status_of k t = TASK_BLOCKED \<longrightarrow> status_of k' t = TASK_BLOCKED) \<and> (runnable t k \<longrightarrow> runnable t k')"

lemma kern_ok_running: "kern_ok t k \<Longrightarrow> running_thread k = t \<Longrightarrow> status_of k t = TASK_RUNNING"
  using sched_inv_running by (auto simp: kern_ok_def)

lemma kern_nextI:
  assumes "kern_ok t k" "sched_inv k'" "magic_inv k'" "thread_all_list k' = thread_all_list k" "idle_thread k' = idle_thread k"
    "status_of k t = TASK_BLOCKED \<Longrightarrow> status_of k' t = TASK_BLOCKED" "runnable t k \<Longrightarrow> runnable t k'"
  shows "kern_next t k k'"
  using assms by (simp add: kern_next_def kern_ok_def)

lemma keeps_suspendedD:
  "keeps_suspended k k' \<Longrightarrow> kern_ok t k \<Longrightarrow> status_of k t = TASK_BLOCKED \<Longrightarrow> status_of k' t = TASK_BLOCKED"
  using kern_ok_running[of t k] by (auto simp: keeps_suspended_def kern_ok_def)

lemma kern_next_yield:
  assumes "kern_ok t k" "thread_yield k = Inr k'"
  shows "kern_next t k k'"
proof -
  have k': "sched_inv k'" "thread_all_list k' = thread_all_list k" "idle_thread k' = idle_thread k" "magic_inv k'"
    "keeps_suspended k k'" "running_thread k' # thread_ready_list k' = thread_ready_list k @ [running_thread k]"
    using thread_yield_spec[of k] assms by (auto simp: kern_ok_def magic_inv_def)
  have "runnable t k' \<longleftrightarrow> runnable t k"
    unfolding runnable_def k'(6) by auto
  then show ?thesis
    using k' keeps_suspendedD[OF k'(5) assms(1)] assms(1) by (intro kern_nextI) simp_all
qed

lemma kern_next_sleep:
  assumes "kern_ok t k" "running_thread k \<noteq> t" "st \<in> {TASK_BLOCKED, TASK_WAITING, TASK_HANGING}"
    "running_thread k = idle_thread k \<Longrightarrow> st = TASK_BLOCKED" "thread_block st k = Inr k'"
  shows "kern_next t k k'"
proof -
  have k': "sched_inv k'" "thread_all_list k' = thread_all_list k" "idle_thread k' = idle_thread k" "magic_inv k'"
    "keeps_suspended k k'"
    "running_thread k' # thread_ready_list k' = (if thread_ready_list k = [] then [idle_thread k] else thread_ready_list k)"
    using thread_block_spec[of k st] assms by (auto simp: kern_ok_def magic_inv_def)
  have "runnable t k \<Longrightarrow> runnable t k'"
    unfolding runnable_def k'(6) using assms(2) by auto
  then show ?thesis
    using k' keeps_suspendedD[OF k'(5) assms(1)] assms(1) by (intro kern_nextI) simp_all
qed

lemma kern_next_wake:
  assumes "kern_ok t k" "u \<noteq> t" "u \<in> set (thread_all_list k)" "status_of k u \<in> {TASK_BLOCKED, TASK_WAITING, TASK_HANGING}"
    "thread_unblock u k = Inr k'"
  shows "kern_next t k k'"
  using thread_unblock_spec[OF _ assms(3,4)] assms by (intro kern_nextI) (auto simp: kern_ok_def magic_inv_def runnable_def)

lemma kern_next_flag: "kern_ok t k \<Longrightarrow> kern_next t k (k_intr_set_status st k)"
  by (intro kern_nextI) (auto simp: kern_ok_def magic_inv_def runnable_def k_intr_set_status_def)

lemma timer_interrupt_runnable:
  assumes "sys_inv ts" "timer_interrupt ts = Inr ts'" "runnable t (kern ts)"
  shows "runnable t (kern ts')"
proof (cases "intr_get_status (k_cpu (kern ts)) = INTR_ON \<and> ticks (pcbs (kern ts) (running_thread (kern ts))) = 0")
  case True
  then have "running_thread (kern ts') # thread_ready_list (kern ts') = thread_ready_list (kern ts) @ [running_thread (kern ts)]"
    using timer_interrupt_slice_used_up[of ts] assms(1,2) by auto
  then show ?thesis
    using assms(3) unfolding runnable_def by auto
next
  case False
  have "ts' = ts" if "intr_get_status (k_cpu (kern ts)) = INTR_OFF"
    using that assms(2) by (simp add: timer_interrupt_def)
  moreover have "running_thread (kern ts') = running_thread (kern ts) \<and> thread_ready_list (kern ts') = thread_ready_list (kern ts)"
    if "intr_get_status (k_cpu (kern ts)) = INTR_ON"
    using timer_interrupt_within_slice[of ts] that False assms(1,2) by (auto simp: k_intr_set_status_def)
  ultimately show ?thesis
    using assms(3) by (cases "intr_get_status (k_cpu (kern ts))") (auto simp: runnable_def)
qed

lemma kern_next_tick:
  assumes "kern_ok t (kern ts)" "timer_interrupt ts = Inr ts'"
  shows "kern_next t (kern ts) (kern ts')"
proof -
  have s: "sys_inv ts"
    using assms(1) by (simp add: kern_ok_def)
  then have k': "sys_inv ts'" "thread_all_list (kern ts') = thread_all_list (kern ts)" "idle_thread (kern ts') = idle_thread (kern ts)"
    "keeps_suspended (kern ts) (kern ts')"
    using timer_interrupt_inv[OF s] assms(2) by auto
  show ?thesis
    using k' keeps_suspendedD[OF k'(4) assms(1)] timer_interrupt_runnable[OF s assms(2)] by (intro kern_nextI[OF assms(1)]) auto
qed

subsubsection \<open>The driver under these steps\<close>

text \<open>
  The state of a transfer after the command that put the channel into state \<open>a\<close>, with thread \<open>t\<close> holding the lock of the channel.
  Either the disk has not finished, and then \<open>t\<close> may already sleep in \<^verbatim>\<open>semaphore_down\<close> (\<open>b\<close>); or it has, and then the
  interrupt handler has raised the semaphore, if there was an interrupt, and \<open>t\<close> can run.
\<close>

definition drv_inv :: "('d \<Rightarrow> ata) \<Rightarrow> u16 \<Rightarrow> nat \<Rightarrow> u32 \<Rightarrow> ata \<Rightarrow> bool \<Rightarrow> 'd drv \<Rightarrow> bool" where
  "drv_inv view base c t a b x \<longleftrightarrow> (let ch = channels x c; k = drv_k x; irq = fst (ata_next a) in
     kern_ok t k \<and> port_base ch = base \<and> irq_no ch = 0x2e + word_of_nat c \<and> ch_lock ch = locked_by t \<and>
     (view (io x) = a \<and> expecting_intr ch \<and> disk_done ch = \<lparr>sema_value = 0, waiters = (if b then [t] else [])\<rparr> \<and>
        (if b then status_of k t = TASK_BLOCKED else runnable t k) \<or>
      view (io x) = snd (ata_next a) \<and> expecting_intr ch = (\<not> irq) \<and>
        disk_done ch = \<lparr>sema_value = (if irq then 1 else 0), waiters = []\<rparr> \<and> runnable t k))"

lemma ata_next_twice: "ata_next (snd (ata_next a)) = (False, snd (ata_next a))"
  by (auto simp: ata_next_def split: ata_phase.splits)

lemma ata_next_fits: "fits blk (snd (ata_next a)) \<longleftrightarrow> True"
  by (auto simp: ata_next_def fits_def split: ata_phase.splits)

lemma semaphore_up_wakes:
  assumes "kern_ok t k" "status_of k t = TASK_BLOCKED"
  shows "\<exists>k'. semaphore_up \<lparr>sema_value = 0, waiters = [t]\<rparr> k = Inr (\<lparr>sema_value = 1, waiters = []\<rparr>, k') \<and> kern_ok t k' \<and> runnable t k' \<and>
    k_cpu k' = k_cpu k \<and> running_thread k' = running_thread k \<and> thread_ready_list k' = t # thread_ready_list k"
proof -
  let ?k = "k\<lparr>k_cpu := snd (intr_disable (k_cpu k))\<rparr>"
  have k: "sched_inv ?k" "t \<in> set (thread_all_list ?k)" "status_of ?k t \<in> {TASK_BLOCKED, TASK_WAITING, TASK_HANGING}"
    using assms by (auto simp: kern_ok_def)
  obtain k' where k': "thread_unblock t ?k = Inr k'" "sched_inv k'" "thread_all_list k' = thread_all_list k" "idle_thread k' = idle_thread k"
    "\<forall>u. stack_magic (pcbs k' u) = stack_magic (pcbs k u)" "k_cpu k' = k_cpu ?k" "running_thread k' = running_thread k" "thread_ready_list k' = t # thread_ready_list k"
    using thread_unblock_spec[OF k] by auto
  let ?k' = "k_intr_set_status (fst (intr_disable (k_cpu k))) k'"
  have "kern_ok t ?k'" "runnable t ?k'" "thread_ready_list ?k' = t # thread_ready_list k" "running_thread ?k' = running_thread k"
    using assms(1) k'(2-5,7,8) by (auto simp: kern_ok_def magic_inv_def runnable_def k_intr_set_status_def)
  moreover have "k_cpu ?k' = k_cpu k"
    using k'(6) k_intr_disable_restore[of k] by (simp add: k_intr_set_status_def k_intr_disable_def)
  moreover have "semaphore_up \<lparr>sema_value = 0, waiters = [t]\<rparr> k = Inr (\<lparr>sema_value = 1, waiters = []\<rparr>, ?k')"
    using k'(1) by (simp add: semaphore_up_def k_intr_disable_def)
  ultimately show ?thesis
    by blast
qed

lemma semaphore_up_free: "semaphore_up \<lparr>sema_value = 0, waiters = []\<rparr> k = Inr (\<lparr>sema_value = 1, waiters = []\<rparr>, k)"
  using k_intr_disable_restore[of k] by (cases "k_intr_disable k") (simp add: semaphore_up_def)

lemma kern_ok_cpu [simp]: "kern_ok t (k\<lparr>k_cpu := f\<rparr>) = kern_ok t k" "runnable t (k\<lparr>k_cpu := f\<rparr>) = runnable t k"
  by (simp_all add: kern_ok_def runnable_def magic_inv_def)

text \<open>What the interrupt handler makes of a command that has been given, whether the driver sleeps already or not.\<close>

lemma disk_interrupt_spec:
  assumes k: "kern_ok t (drv_k x)" and c: "c < 2" "irq_no (channels x c) = 0x2e + word_of_nat c" "expecting_intr (channels x c)"
    and w: "disk_done (channels x c) = \<lparr>sema_value = 0, waiters = (if b then [t] else [])\<rparr>"
    and s: "if b then status_of (drv_k x) t = TASK_BLOCKED else runnable t (drv_k x)"
  shows "\<exists>k. disk_interrupt p c x = Inr (x\<lparr>drv_k := k, channels := (channels x)(c := (channels x c)\<lparr>expecting_intr := False,
      disk_done := \<lparr>sema_value = 1, waiters = []\<rparr>\<rparr>), io := snd (inb p (reg_status (channels x c)) (io x))\<rparr>) \<and>
    kern_ok t k \<and> runnable t k \<and> running_thread k = running_thread (drv_k x) \<and>
    thread_ready_list k = (if b then [t] else []) @ thread_ready_list (drv_k x)"
proof -
  let ?k0 = "snd (k_intr_disable (drv_k x))"
  have k0: "kern_ok t ?k0" "running_thread ?k0 = running_thread (drv_k x)" "thread_ready_list ?k0 = thread_ready_list (drv_k x)"
    "status_of ?k0 t = status_of (drv_k x) t" "runnable t ?k0 = runnable t (drv_k x)"
    using k by (simp_all add: k_intr_disable_def)
  have "\<exists>k1. semaphore_up (disk_done (channels x c)) ?k0 = Inr (\<lparr>sema_value = 1, waiters = []\<rparr>, k1) \<and> kern_ok t k1 \<and> runnable t k1 \<and>
      running_thread k1 = running_thread (drv_k x) \<and> thread_ready_list k1 = (if b then [t] else []) @ thread_ready_list (drv_k x)"
    using w s semaphore_up_wakes[OF k0(1)] semaphore_up_free[of ?k0] k0 by (cases b) auto
  then obtain k1 where k1: "semaphore_up (disk_done (channels x c)) ?k0 = Inr (\<lparr>sema_value = 1, waiters = []\<rparr>, k1)" "kern_ok t k1" "runnable t k1"
    "running_thread k1 = running_thread (drv_k x)" "thread_ready_list k1 = (if b then [t] else []) @ thread_ready_list (drv_k x)"
    by blast
  have u: "unat (word_of_nat c :: u8) = c"
    using c(1) by (simp add: unat_of_nat)
  have "c = 0 \<or> c = 1"
    using c(1) by auto
  then have i: "(0x2e + word_of_nat c :: u8) = 0x2e \<or> (0x2e + word_of_nat c :: u8) = 0x2f"
    by auto
  have "disk_interrupt p c x = Inr (x\<lparr>drv_k := k_intr_set_status INTR_ON k1, channels := (channels x)(c := (channels x c)\<lparr>expecting_intr := False,
      disk_done := \<lparr>sema_value = 1, waiters = []\<rparr>\<rparr>), io := snd (inb p (reg_status (channels x c)) (io x))\<rparr>)"
    using k1(1) c(2,3) i u
    by (auto simp: disk_interrupt_def intr_hd_handler_def upd_chan_def reg_status_def Let_def)
  then show ?thesis
    using k1 by (auto simp: k_intr_set_status_def)
qed

lemma env_kern_next:
  assumes "drv_inv view base c t a b x" "kern_next t (drv_k x) k"
  shows "drv_inv view base c t a b (x\<lparr>drv_k := k\<rparr>)"
  using assms by (auto simp: drv_inv_def kern_next_def Let_def split: if_splits)

context ata_channel begin

lemma status_phase:
  "port_base ch = base \<Longrightarrow> view (snd (inb p (reg_status ch) d)) = view d"
  by (simp add: reg_status_def status_view)

lemma env_disk:
  assumes inv: "drv_inv view base c t a b x" and a: "fits blk a" "c < 2"
    and w: "work p (port_base (channels x c)) (io x) = (irq, d)"
  shows "(irq \<longrightarrow> (\<exists>x'. disk_interrupt p c (x\<lparr>io := d\<rparr>) = Inr x' \<and> drv_inv view base c t a b x')) \<and>
    (\<not> irq \<longrightarrow> (b \<longrightarrow> fst (ata_next a)) \<longrightarrow> drv_inv view base c t a b (x\<lparr>io := d\<rparr>))"
proof -
  have base: "port_base (channels x c) = base"
    using inv by (simp add: drv_inv_def Let_def)
  consider (run) "view (io x) = a" "expecting_intr (channels x c)" "disk_done (channels x c) = \<lparr>sema_value = 0, waiters = (if b then [t] else [])\<rparr>"
      "if b then status_of (drv_k x) t = TASK_BLOCKED else runnable t (drv_k x)"
    | (fin) "view (io x) = snd (ata_next a)"
    using inv by (auto simp: drv_inv_def Let_def)
  then show ?thesis
  proof cases
    case run
    have d: "irq = fst (ata_next a)" "view d = snd (ata_next a)"
      using works[of "io x"] run(1) a(1) w base by auto
    show ?thesis
      using disk_interrupt_spec[of t "x\<lparr>io := d\<rparr>" c b p] run inv a(2) base d
      by (auto simp: drv_inv_def Let_def status_phase)
  next
    case fin
    have "irq = False" "view d = snd (ata_next a)"
      using works[of "io x"] fin w base by (auto simp: ata_next_twice ata_next_fits)
    then show ?thesis
      using inv fin by (auto simp: drv_inv_def Let_def)
  qed
qed

lemma env_step_inv:
  assumes "env_step p c t x y" "drv_inv view base c t a b x" "fits blk a" "c < 2" "b \<Longrightarrow> fst (ata_next a)"
  shows "drv_inv view base c t a b y"
proof -
  note next_ok = env_kern_next[OF assms(2)]
  have ok: "kern_ok t (drv_k x)"
    using assms(2) by (simp add: drv_inv_def Let_def)
  show ?thesis
    using assms(1)
  proof (cases rule: env_step.cases)
    case (yield k)
    then show ?thesis
      using next_ok kern_next_yield[OF ok] by simp
  next
    case (tick ts ts')
    then show ?thesis
      using next_ok kern_next_tick[of t ts ts'] ok by simp
  next
    case (sleep st k)
    then show ?thesis
      using next_ok[OF kern_next_sleep[OF ok]] by simp
  next
    case (wake u k)
    then show ?thesis
      using next_ok[OF kern_next_wake[OF ok]] by simp
  next
    case (flag st)
    then show ?thesis
      using next_ok[OF kern_next_flag[OF ok]] by simp
  next
    case (disk_works d)
    then show ?thesis
      using env_disk[OF assms(2-4)] assms(5) by auto
  next
    case (disk_done d)
    then show ?thesis
      using env_disk[OF assms(2-4) disk_done(1)] by auto
  qed
qed

lemma env_steps_inv:
  assumes "(env_step p c t)\<^sup>*\<^sup>* x y" "drv_inv view base c t a b x" "fits blk a" "c < 2" "b \<Longrightarrow> fst (ata_next a)"
  shows "drv_inv view base c t a b y"
  using assms(1)
proof (induction rule: rtranclp_induct)
  case (step y z)
  show ?case
    using env_step_inv[OF step(2,3) assms(3,4)] assms(5) by blast
qed (rule assms(2))

end

text \<open>
  What the driver relies on: from every state of a transfer such steps lead to a state in which \<open>t\<close> runs again, and a disk that
  wants the data of a write says so before the polling ends; \<open>poll\<close> is a round of the loop of \<^verbatim>\<open>busy_wait\<close>.
\<close>

definition poll :: "'d ports \<Rightarrow> ('d drv \<Rightarrow> 'd drv) \<Rightarrow> nat \<Rightarrow> 'd drv \<Rightarrow> 'd drv" where
  "poll p rest c x = rest (x\<lparr>io := snd (inb p (reg_status (channels x c)) (io x))\<rparr>)"

definition rely :: "'d ports \<Rightarrow> ('d \<Rightarrow> ata) \<Rightarrow> u16 \<Rightarrow> nat \<Rightarrow> nat \<Rightarrow> u32 \<Rightarrow> ('d drv \<Rightarrow> 'd drv) \<Rightarrow> bool" where
  "rely p view base blk c t rest \<longleftrightarrow>
     (\<forall>x a b. drv_inv view base c t a b x \<longrightarrow> fits blk a \<longrightarrow> (b \<longrightarrow> fst (ata_next a)) \<longrightarrow>
        (env_step p c t)\<^sup>*\<^sup>* x (rest x) \<and> running_thread (drv_k (rest x)) = t) \<and>
     (\<forall>x a. drv_inv view base c t a False x \<longrightarrow> fits blk a \<longrightarrow> \<not> fst (ata_next a) \<longrightarrow>
        (\<exists>n < 29999. \<not> is_busy (phase (view (io ((poll p rest c ^^ n) x))))))"

locale disk_client = ata_channel +
  fixes c :: nat and t :: u32 and rest
  assumes channel: "c < 2" and relies: "rely p view base blk c t rest"
begin

lemma rest_inv:
  assumes "drv_inv view base c t a b x" "fits blk a" "b \<Longrightarrow> fst (ata_next a)"
  shows "drv_inv view base c t a b (rest x)" "running_thread (drv_k (rest x)) = t"
proof -
  have "(env_step p c t)\<^sup>*\<^sup>* x (rest x) \<and> running_thread (drv_k (rest x)) = t"
    using relies assms by (auto simp: rely_def)
  then show "drv_inv view base c t a b (rest x)" "running_thread (drv_k (rest x)) = t"
    using env_steps_inv[OF _ assms(1,2) channel assms(3)] by auto
qed

end

text \<open>The state of the driver between two commands.\<close>

definition drv_free :: "('d \<Rightarrow> ata) \<Rightarrow> u16 \<Rightarrow> nat \<Rightarrow> u32 \<Rightarrow> lock \<Rightarrow> ata \<Rightarrow> 'd drv \<Rightarrow> bool" where
  "drv_free view base c t l a x \<longleftrightarrow> (let ch = channels x c; k = drv_k x in
     kern_ok t k \<and> running_thread k = t \<and> port_base ch = base \<and> irq_no ch = 0x2e + word_of_nat c \<and> ch_lock ch = l \<and>
     view (io x) = a \<and> disk_done ch = semaphore_init 0)"

context disk_client begin

lemma down_loop_done:
  assumes inv: "drv_inv view base c t a b x" "running_thread (drv_k x) = t" "view (io x) = snd (ata_next a)" "fst (ata_next a)"
    and st: "\<not> expecting_intr (channels x c)"
  shows "\<exists>y. down_loop rest (\<lambda>x. disk_done (channels x c)) (\<lambda>s. upd_chan c (\<lambda>ch. ch\<lparr>disk_done := s\<rparr>)) old x = Some (Inr y) \<and>
    drv_free view base c t (locked_by t) (snd (ata_next a)) y"
proof -
  have d: "disk_done (channels x c) = \<lparr>sema_value = 1, waiters = []\<rparr>"
    using inv(1,4) st by (auto simp: drv_inv_def Let_def)
  have "down_loop rest (\<lambda>x. disk_done (channels x c)) (\<lambda>s. upd_chan c (\<lambda>ch. ch\<lparr>disk_done := s\<rparr>)) old x =
      Some (Inr (upd_chan c (\<lambda>ch. ch\<lparr>disk_done := semaphore_init 0\<rparr>) (x\<lparr>drv_k := k_intr_set_status old (drv_k x)\<rparr>)))"
    by (subst down_loop.simps) (simp add: d semaphore_down_iter_def semaphore_init_def)
  moreover have "kern_ok t (k_intr_set_status old (drv_k x))" "running_thread (k_intr_set_status old (drv_k x)) = t"
    using inv(1,2) by (simp_all add: drv_inv_def Let_def k_intr_set_status_def)
  ultimately show ?thesis
    using inv(1,3) by (auto simp: drv_free_def drv_inv_def upd_chan_def Let_def)
qed

text \<open>The driver does not miss the interrupt, whether it comes before or after the driver sleeps.\<close>

lemma disk_wait_ok:
  assumes inv: "drv_inv view base c t a False x" "running_thread (drv_k x) = t" "fst (ata_next a)" "fits blk a"
  shows "\<exists>y. disk_wait rest c x = Some (Inr y) \<and> drv_free view base c t (locked_by t) (snd (ata_next a)) y"
proof -
  let ?loop = "down_loop rest (\<lambda>x. disk_done (channels x c)) (\<lambda>s. upd_chan c (\<lambda>ch. ch\<lparr>disk_done := s\<rparr>))"
  obtain old k where k: "k_intr_disable (drv_k x) = (old, k)" "k = (drv_k x)\<lparr>k_cpu := snd (intr_disable (k_cpu (drv_k x)))\<rparr>"
    by (simp add: k_intr_disable_def)
  let ?x = "x\<lparr>drv_k := k\<rparr>"
  have w: "disk_wait rest c x = ?loop old ?x"
    by (simp add: disk_wait_def sema_wait_def k(1))
  have x: "drv_inv view base c t a False ?x" "running_thread (drv_k ?x) = t"
    using inv(1,2) by (simp_all add: k(2) drv_inv_def Let_def)
  show ?thesis
  proof (cases "expecting_intr (channels x c)")
    case False
    then show ?thesis
      using down_loop_done[OF x _ inv(3)] x(1) w by (auto simp: drv_inv_def Let_def)
  next
    case True
    have e: "view (io x) = a" "disk_done (channels x c) = \<lparr>sema_value = 0, waiters = []\<rparr>"
      using inv(1,3) True by (auto simp: drv_inv_def Let_def)
    have ok: "kern_ok t k"
      using x by (simp add: drv_inv_def Let_def)
    then obtain k1 where k1: "thread_block TASK_BLOCKED k = Inr k1" "magic_inv k1" "thread_all_list k1 = thread_all_list k" "idle_thread k1 = idle_thread k"
      using thread_block_spec[of k TASK_BLOCKED] by (auto simp: kern_ok_def magic_inv_def)
    have k1': "sched_inv k1" "status_of k1 t = TASK_BLOCKED"
      using thread_block_suspends[of k k1] ok x(2) k1(1) by (auto simp: kern_ok_def)
    let ?y = "upd_chan c (\<lambda>ch. ch\<lparr>disk_done := \<lparr>sema_value = 0, waiters = [t]\<rparr>\<rparr>) (x\<lparr>drv_k := k1\<rparr>)"
    have "?loop old ?x = ?loop old (rest ?y)"
      using k1(1) x(2) e(2) by (subst down_loop.simps) (simp add: semaphore_down_iter_def upd_chan_def)
    moreover have y: "drv_inv view base c t a True ?y"
      using x(1) True e k1 k1' ok by (simp add: drv_inv_def Let_def upd_chan_def kern_ok_def)
    note r = rest_inv[OF y inv(4,3)]
    have "status_of (drv_k (rest ?y)) t = TASK_RUNNING"
      using kern_ok_running[of t "drv_k (rest ?y)"] r by (simp add: drv_inv_def Let_def)
    then have "view (io (rest ?y)) = snd (ata_next a) \<and> \<not> expecting_intr (channels (rest ?y) c)"
      using r(1) inv(3) by (auto simp: drv_inv_def Let_def)
    ultimately show ?thesis
      using down_loop_done[OF r _ inv(3)] w by auto
  qed
qed

end

subsection \<open>Commands\<close>

text \<open>The registers after \<^verbatim>\<open>select_sector\<close>, and what the channel understands by them.\<close>

definition selected :: "hdisk \<Rightarrow> u32 \<Rightarrow> u8 \<Rightarrow> ata \<Rightarrow> ata" where
  "selected dk lba n a = a\<lparr>r_cnt := n, r_low := ucast lba, r_mid := ucast (drop_bit 8 lba), r_high := ucast (drop_bit 16 lba),
     r_dev := BIT_DEV_MBS OR BIT_DEV_LBA OR (if dev_no dk = 1 then BIT_DEV_DEV else 0) OR ucast (drop_bit 24 lba)\<rparr>"

lemma selected_simps [simp]:
  "phase (selected dk lba n a) = phase a" "sectors (selected dk lba n a) = sectors a" "ident (selected dk lba n a) = ident a"
  by (simp_all add: selected_def)

lemma ata_phase_irrelevant [simp]:
  "ata_lba (a\<lparr>phase := q\<rparr>) = ata_lba a" "ata_slave (a\<lparr>phase := q\<rparr>) = ata_slave a" "ata_count (a\<lparr>phase := q\<rparr>) = ata_count a"
  by (simp_all add: ata_lba_def ata_slave_def ata_count_def)

lemma max_lba_small: "lba \<le> max_lba \<longleftrightarrow> unat lba < 163840"
  by (simp add: max_lba_def word_le_nat_alt) auto

lemma selected_meaning:
  assumes "lba \<le> max_lba"
  shows "ata_lba (selected dk lba n a) = unat lba" "ata_slave (selected dk lba n a) = (dev_no dk = 1)"
    "ata_count (selected dk lba n a) = (if n = 0 then 256 else unat n)"
proof -
  have "unat lba < 163840"
    using assms by (simp add: max_lba_small)
  then have z: "drop_bit 24 lba = 0"
    by (simp only: word_unat_eq_iff unat_drop_bit_eq) (simp add: drop_bit_eq_div)
  have dev: "r_dev (selected dk lba n a) AND 0xF = 0"
    by (simp add: selected_def z BIT_DEV_MBS_def BIT_DEV_LBA_def BIT_DEV_DEV_def)
  have u: "unat (ucast lba :: u8) = unat lba mod 256" "unat (ucast (drop_bit 8 lba) :: u8) = unat lba div 256 mod 256"
    "unat (ucast (drop_bit 16 lba) :: u8) = unat lba div 65536 mod 256"
    by (simp_all only: unsigned_ucast_eq unat_drop_bit_eq) (simp_all add: take_bit_eq_mod drop_bit_eq_div)
  have h: "unat lba div 256 * 256 + unat lba mod 256 = unat lba" "unat lba div 65536 * 256 + unat lba div 256 mod 256 = unat lba div 256"
    "unat lba div 65536 mod 256 = unat lba div 65536"
    using div_mult_mod_eq[of "unat lba div 256" 256] \<open>unat lba < 163840\<close> by (simp_all add: div_mult2_eq[symmetric])
  then have "unat lba mod 256 + 256 * (unat lba div 256 mod 256) + 65536 * (unat lba div 65536) = unat lba"
    by linarith
  then show "ata_lba (selected dk lba n a) = unat lba"
    unfolding ata_lba_def dev by (simp add: selected_def u h(3))
  show "ata_slave (selected dk lba n a) = (dev_no dk = 1)"
    by (simp add: ata_slave_def selected_def z BIT_DEV_MBS_def BIT_DEV_LBA_def BIT_DEV_DEV_def bit_simps)
  show "ata_count (selected dk lba n a) = (if n = 0 then 256 else unat n)"
    by (simp add: ata_count_def selected_def)
qed

context ata_channel begin

lemma select_sector_ok:
  assumes x: "port_base (chan_of dk x) = base" "phase (view (io x)) = Idle" "lba \<le> max_lba"
  shows "\<exists>d. select_sector p dk lba n x = Inr (x\<lparr>io := d\<rparr>) \<and> view d = selected dk lba n (view (io x))"
proof -
  let ?v = "BIT_DEV_MBS OR BIT_DEV_LBA OR (if dev_no dk = 1 then BIT_DEV_DEV else 0) OR ucast (drop_bit 24 lba)"
  let ?d = "outb p (base + 6) ?v (outb p (base + 5) (ucast (drop_bit 16 lba)) (outb p (base + 4) (ucast (drop_bit 8 lba))
    (outb p (base + 3) (ucast lba) (outb p (base + 2) n (io x)))))"
  have "select_sector p dk lba n x = Inr (x\<lparr>io := ?d\<rparr>)"
    using x by (simp add: select_sector_def reg_sect_cnt_def reg_lba_l_def reg_lba_m_def reg_lba_h_def reg_dev_def Let_def)
  moreover have "view ?d = selected dk lba n (view (io x))"
    using x(2) by (simp add: set_cnt set_low set_mid set_high set_dev selected_def)
  ultimately show ?thesis
    by blast
qed

lemma select_disk_ok:
  assumes x: "port_base (chan_of dk x) = base" "phase (view (io x)) = Idle"
  shows "\<exists>d v. select_disk p dk x = x\<lparr>io := d\<rparr> \<and> view d = (view (io x))\<lparr>r_dev := v\<rparr>"
  unfolding select_disk_def reg_dev_def Let_def x(1) using set_dev[OF x(2)] by blast

lemma cmd_out_ok:
  assumes x: "drv_free view base c t (locked_by t) a x" "phase a = Idle" and cmd: "cmd \<in> {CMD_IDENTIFY, CMD_READ_SECTOR, CMD_WRITE_SECTOR}"
  shows "drv_inv view base c t (a\<lparr>phase := Busy cmd\<rparr>) False (cmd_out p c cmd x)" "running_thread (drv_k (cmd_out p c cmd x)) = t"
proof -
  have "view (outb p (base + 7) cmd (io x)) = a\<lparr>phase := Busy cmd\<rparr>"
    using x command[OF _ cmd] by (auto simp: drv_free_def Let_def)
  then show "drv_inv view base c t (a\<lparr>phase := Busy cmd\<rparr>) False (cmd_out p c cmd x)" "running_thread (drv_k (cmd_out p c cmd x)) = t"
    using x(1) by (simp_all add: drv_free_def drv_inv_def cmd_out_def upd_chan_def reg_cmd_def reg_status_def Let_def
        semaphore_init_def runnable_def)
qed

lemma busy_wait_loop_ready:
  assumes x: "port_base (chan_of dk x) = base" "\<not> is_busy (phase (view (io x)))" and n: "time_limit \<noteq> 1"
  shows "\<exists>d. busy_wait_loop p rest dk time_limit x = (has_drq (phase (view (io x))), x\<lparr>io := d\<rparr>) \<and> view d = view (io x)"
proof -
  obtain st d where d: "inb p (reg_status (chan_of dk x)) (io x) = (st, d)"
    by fastforce
  obtain st' d' where d': "inb p (reg_status (chan_of dk x)) d = (st', d')"
    by fastforce
  have v: "view d = view (io x)" "st AND BIT_STAT_BSY = 0"
    using status_view[of "io x"] status_bsy[of "io x"] x d by (auto simp: reg_status_def)
  have v': "view d' = view (io x)" "st' AND BIT_STAT_DRQ \<noteq> 0 \<longleftrightarrow> has_drq (phase (view (io x)))"
    using status_view[of d] status_drq[of d] x d' v(1) by (auto simp: reg_status_def)
  have "busy_wait_loop p rest dk time_limit x = (has_drq (phase (view (io x))), x\<lparr>io := d'\<rparr>)"
    using n d d' v v' by (subst busy_wait_loop.simps) simp
  then show ?thesis
    using v'(1) by blast
qed

lemma read_from_sector_ok:
  assumes "port_base (chan_of dk x) = base" "phase (view (io x)) = Offer bs" "length bs = 2 * (size_in_byte n div 2)"
  shows "\<exists>d. read_from_sector p dk n x = (bs, x\<lparr>io := d\<rparr>) \<and> view d = (view (io x))\<lparr>phase := Idle\<rparr>"
proof -
  obtain bs' d where "insw p base (size_in_byte n div 2) (io x) = (bs', d)"
    by fastforce
  then show ?thesis
    using data_in[OF assms(2,3)] assms(1) by (auto simp: read_from_sector_def reg_data_def)
qed

lemma busy_wait_free:
  assumes x: "drv_free view base c t l a x" "\<not> is_busy (phase a)" and dk: "my_channel dk = c"
  shows "fst (busy_wait p rest dk x) = has_drq (phase a)" "drv_free view base c t l a (snd (busy_wait p rest dk x))"
  using busy_wait_loop_ready[of x dk "30 * 1000" rest] x dk by (auto simp: drv_free_def Let_def busy_wait_def)

end

subsection \<open>Reading\<close>

definition wf_ata :: "ata \<Rightarrow> bool" where
  "wf_ata a \<longleftrightarrow> (\<forall>s i. length (sectors a s i) = 512)"

lemma sector_data_length:
  assumes "\<And>i. length (f i) = 512"
  shows "length (sector_data f lba n) = n * 512"
proof -
  have "length (concat (map f is)) = length is * 512" for "is"
    by (induction "is") (simp_all add: assms)
  then show ?thesis
    by (simp add: sector_data_def)
qed

lemma sector_data_add: "sector_data f lba (m + n) = sector_data f lba m @ sector_data f (lba + m) n"
  unfolding sector_data_def add.assoc[symmetric] by (subst upt_add_eq_append) simp_all

text \<open>The pieces of a transfer: at most 256 sectors, and 256 is passed as 0.\<close>

lemma secs_op_piece:
  assumes "secs_done < cnt" "unat cnt \<le> 163840"
  defines "n \<equiv> secs_op secs_done cnt"
  shows "0 < unat n" "unat n \<le> 256" "unat secs_done + unat n \<le> unat cnt" "unat (secs_done + n) = unat secs_done + unat n"
    "(if (ucast n :: u8) = 0 then 256 else unat (ucast n :: u8)) = unat n" "unat n \<le> unat cnt"
proof -
  have lt: "unat secs_done < unat cnt"
    using assms(1) by (simp add: word_less_nat_alt)
  have add: "unat (secs_done + 256) = unat secs_done + 256"
    using lt assms(2) by (intro unat_add_lt[where 'a = 32, THEN trans]) simp_all
  have diff: "unat (cnt - secs_done) = unat cnt - unat secs_done"
    using lt by (simp add: unat_sub word_le_nat_alt)
  have n: "unat n = (if unat secs_done + 256 \<le> unat cnt then 256 else unat cnt - unat secs_done)"
    unfolding n_def secs_op_def word_le_nat_alt add by (simp add: diff)
  then show b: "0 < unat n" "unat n \<le> 256" "unat secs_done + unat n \<le> unat cnt" "unat n \<le> unat cnt"
    using lt by auto
  show "unat (secs_done + n) = unat secs_done + unat n"
    using b assms(2) by (intro unat_add_lt) simp
  have u: "unat (ucast n :: u8) = unat n mod 256"
    by (simp only: unsigned_ucast_eq) (simp add: take_bit_eq_mod)
  then have "(ucast n :: u8) = 0 \<longleftrightarrow> unat n mod 256 = 0"
    by (metis unat_eq_zero)
  then show "(if (ucast n :: u8) = 0 then 256 else unat (ucast n :: u8)) = unat n"
    using u b by (cases "unat n = 256") auto
qed

lemma size_in_byte_piece:
  assumes "secs_done < cnt" "unat cnt \<le> 163840"
  shows "size_in_byte (ucast (secs_op secs_done cnt)) = unat (secs_op secs_done cnt) * 512"
  using secs_op_piece(5)[OF assms] by (auto simp: size_in_byte_def split: if_splits)

context disk_client begin

text \<open>One round of the loop of \<^verbatim>\<open>ide_read\<close>.\<close>

lemma read_round:
  assumes x: "drv_free view base c t (locked_by t) a x" "phase a = Idle" "wf_ata a" and dk: "my_channel dk = c"
    and n: "secs_done < cnt" "unat lba + unat cnt \<le> 163840" "min (unat cnt) 256 \<le> blk"
  defines "n \<equiv> secs_op secs_done cnt"
  shows "\<exists>x' a'. ide_read_loop p rest dk lba cnt secs_done buf x =
      ide_read_loop p rest dk lba cnt (secs_done + n) (buf @ sector_data (sectors a (dev_no dk = 1)) (unat lba + unat secs_done) (unat n)) x' \<and>
    drv_free view base c t (locked_by t) a' x' \<and> phase a' = Idle \<and> sectors a' = sectors a \<and> ident a' = ident a"
proof -
  note pc = secs_op_piece[OF n(1), folded n_def]
  have "unat (lba + secs_done) = unat lba + unat secs_done"
    using n(1,2) by (intro unat_add_lt) (simp add: word_less_nat_alt)
  then have l: "lba + secs_done \<le> max_lba" "unat (lba + secs_done) = unat lba + unat secs_done"
    using n(1,2) by (simp_all add: max_lba_small word_less_nat_alt)
  have b: "port_base (chan_of dk x) = base" "view (io x) = a"
    using x(1) dk by (simp_all add: drv_free_def Let_def)
  obtain d where d: "select_sector p dk (lba + secs_done) (ucast n) x = Inr (x\<lparr>io := d\<rparr>)" "view d = selected dk (lba + secs_done) (ucast n) a"
    using select_sector_ok[OF b(1) _ l(1)] b(2) x(2) by auto
  let ?a = "selected dk (lba + secs_done) (ucast n) a" and ?x = "x\<lparr>io := d\<rparr>"
  let ?c = "?a\<lparr>phase := Busy CMD_READ_SECTOR\<rparr>" and ?y = "cmd_out p c CMD_READ_SECTOR ?x"
  have "drv_free view base c t (locked_by t) ?a ?x"
    using x(1) d(2) by (simp add: drv_free_def Let_def)
  then have y: "drv_inv view base c t ?c False ?y" "running_thread (drv_k ?y) = t"
    using cmd_out_ok[of c t ?a ?x] x(2) by auto
  have m: "ata_lba ?c = unat lba + unat secs_done" "ata_slave ?c = (dev_no dk = 1)" "ata_count ?c = unat n"
    using selected_meaning[OF l(1), of dk "ucast n" a] pc(5) n(2) l(2) by simp_all
  have f: "fits blk ?c" "fst (ata_next ?c)"
    using m(3) pc(2,6) n(2,3) by (auto simp: fits_def ata_next_def)
  define bs where "bs = sector_data (sectors a (dev_no dk = 1)) (unat lba + unat secs_done) (unat n)"
  have nx: "snd (ata_next ?c) = ?c\<lparr>phase := Offer bs\<rparr>"
    by (simp add: ata_next_def m[simplified] bs_def)
  note r = rest_inv[OF y(1) f(1)]
  obtain z where z: "disk_wait rest c (rest ?y) = Some (Inr z)" "drv_free view base c t (locked_by t) (?c\<lparr>phase := Offer bs\<rparr>) z"
    using disk_wait_ok[OF r f(2,1)] unfolding nx by auto
  let ?w = "snd (busy_wait p rest dk z)"
  have w: "fst (busy_wait p rest dk z)" "drv_free view base c t (locked_by t) (?c\<lparr>phase := Offer bs\<rparr>) ?w"
    using busy_wait_free[OF z(2) _ dk, of rest] by (simp_all add: is_busy_def has_drq_def)
  have len: "length bs = 2 * (size_in_byte (ucast n) div 2)"
    using size_in_byte_piece[OF n(1)] n(2) x(3) by (simp add: bs_def n_def sector_data_length wf_ata_def)
  have q: "phase (view (io ?w)) = Offer bs" "port_base (chan_of dk ?w) = base" "view (io ?w) = ?c\<lparr>phase := Offer bs\<rparr>"
    using w(2) dk by (simp_all add: drv_free_def Let_def)
  obtain d' where d': "read_from_sector p dk (ucast n) ?w = (bs, ?w\<lparr>io := d'\<rparr>)" "view d' = ?c\<lparr>phase := Idle\<rparr>"
    using read_from_sector_ok[OF q(2,1) len] q(3) by auto
  have "ide_read_loop p rest dk lba cnt secs_done buf x = ide_read_loop p rest dk lba cnt (secs_done + n) (buf @ bs) (?w\<lparr>io := d'\<rparr>)"
    using n(1) d(1) z(1) w(1) d'(1) by (subst ide_read_loop.simps) (simp add: n_def dk)
  moreover have "drv_free view base c t (locked_by t) (?c\<lparr>phase := Idle\<rparr>) (?w\<lparr>io := d'\<rparr>)"
    using w(2) d'(2) by (simp add: drv_free_def Let_def)
  ultimately show ?thesis
    unfolding bs_def by (intro exI[of _ "?w\<lparr>io := d'\<rparr>"] exI[of _ "?c\<lparr>phase := Idle\<rparr>"]) simp
qed

lemma read_loop:
  assumes "drv_free view base c t (locked_by t) a x" "phase a = Idle" "wf_ata a" "my_channel dk = c"
    and "secs_done \<le> cnt" "unat lba + unat cnt \<le> 163840" "min (unat cnt) 256 \<le> blk"
  shows "\<exists>y a'. ide_read_loop p rest dk lba cnt secs_done buf x =
      Some (Inr (buf @ sector_data (sectors a (dev_no dk = 1)) (unat lba + unat secs_done) (unat cnt - unat secs_done), y)) \<and>
    drv_free view base c t (locked_by t) a' y \<and> phase a' = Idle \<and> sectors a' = sectors a \<and> ident a' = ident a"
  using assms
proof (induction "unat cnt - unat secs_done" arbitrary: secs_done buf x a rule: less_induct)
  case less
  show ?case
  proof (cases "secs_done < cnt")
    case False
    then have "secs_done = cnt"
      using less.prems(5) by simp
    then show ?thesis
      using less.prems(1,2) by (subst ide_read_loop.simps) (simp add: sector_data_def; blast)
  next
    case True
    let ?n = "secs_op secs_done cnt" and ?f = "sectors a (dev_no dk = 1)"
    have c: "unat cnt \<le> 163840"
      using less.prems(6) by simp
    note pc = secs_op_piece[OF True c]
    obtain x' a' where x': "ide_read_loop p rest dk lba cnt secs_done buf x =
        ide_read_loop p rest dk lba cnt (secs_done + ?n) (buf @ sector_data ?f (unat lba + unat secs_done) (unat ?n)) x'"
      "drv_free view base c t (locked_by t) a' x'" "phase a' = Idle" "sectors a' = sectors a" "ident a' = ident a"
      using read_round[OF less.prems(1-4) True less.prems(6,7), of buf] by blast
    have "unat cnt - unat (secs_done + ?n) < unat cnt - unat secs_done" "secs_done + ?n \<le> cnt" "wf_ata a'"
      using pc(1,3,4) less.prems(3) x'(4) by (auto simp: word_le_nat_alt wf_ata_def)
    note ih = less.hyps[OF this(1) x'(2,3) this(3) less.prems(4) this(2) less.prems(6,7), of "buf @ sector_data ?f (unat lba + unat secs_done) (unat ?n)"]
    have "sector_data ?f (unat lba + unat secs_done) (unat cnt - unat secs_done) =
        sector_data ?f (unat lba + unat secs_done) (unat ?n) @ sector_data ?f (unat lba + unat (secs_done + ?n)) (unat cnt - unat (secs_done + ?n))"
      using sector_data_add[of ?f "unat lba + unat secs_done" "unat ?n" "unat cnt - unat secs_done - unat ?n"] pc(3,4) by (simp add: add.assoc)
    then show ?thesis
      using ih x'(1,4,5) by simp
  qed
qed

lemma acquire_ok:
  assumes "drv_free view base c t lock_init a x"
  shows "\<exists>y. chan_acquire rest c x = Some (Inr y) \<and> drv_free view base c t (locked_by t) a y"
proof -
  have x: "ch_lock (channels x c) = lock_init" "t \<noteq> NULL" "running_thread (drv_k x) = t"
    using assms sched_inv_running_not_NULL[of "drv_k x"] by (auto simp: drv_free_def kern_ok_def Let_def)
  obtain old k where k: "k_intr_disable (drv_k x) = (old, k)" "k_intr_set_status old k = drv_k x"
    using k_intr_disable_restore[of "drv_k x"] by (metis prod.collapse)
  have "sema_wait rest (\<lambda>x. lock_sema (ch_lock (channels x c))) (\<lambda>s. upd_chan c (\<lambda>ch. ch\<lparr>ch_lock := (ch_lock ch)\<lparr>lock_sema := s\<rparr>\<rparr>)) x =
      Some (Inr (upd_chan c (\<lambda>ch. ch\<lparr>ch_lock := lock_init\<lparr>lock_sema := semaphore_init 0\<rparr>\<rparr>) x))"
    unfolding sema_wait_def k(1) prod.case
    by (subst down_loop.simps) (simp add: x k(2) lock_init_def semaphore_down_iter_def semaphore_init_def upd_chan_def)
  then have "chan_acquire rest c x = Some (Inr (upd_chan c (\<lambda>ch. ch\<lparr>ch_lock := locked_by t\<rparr>) x))"
    using x by (simp add: chan_acquire_def lock_init_def lock_take_def locked_by_def upd_chan_def)
  then show ?thesis
    using assms by (simp add: drv_free_def Let_def upd_chan_def)
qed

lemma release_ok:
  assumes "drv_free view base c t (locked_by t) a x"
  shows "\<exists>y. chan_release c x = Inr y \<and> drv_free view base c t lock_init a y"
  using assms by (auto simp: chan_release_def drv_free_def Let_def lock_release_uncontended upd_chan_def)

lemma read_ok:
  assumes x: "drv_free view base c t lock_init a x" "phase a = Idle" "wf_ata a" "my_channel dk = c"
    and n: "0 < cnt" "unat lba + unat cnt \<le> 163840" "min (unat cnt) 256 \<le> blk"
  shows "\<exists>y a'. ide_read p rest dk lba cnt x = Some (Inr (sector_data (sectors a (dev_no dk = 1)) (unat lba) (unat cnt), y)) \<and>
    drv_free view base c t lock_init a' y \<and> phase a' = Idle \<and> sectors a' = sectors a \<and> ident a' = ident a"
proof -
  obtain x1 where x1: "chan_acquire rest c x = Some (Inr x1)" "drv_free view base c t (locked_by t) a x1"
    using acquire_ok[OF x(1)] by blast
  obtain d v where d: "select_disk p dk x1 = x1\<lparr>io := d\<rparr>" "view d = a\<lparr>r_dev := v\<rparr>"
    using select_disk_ok[of x1 dk] x1(2) x(2,4) by (auto simp: drv_free_def Let_def)
  have x2: "drv_free view base c t (locked_by t) (a\<lparr>r_dev := v\<rparr>) (x1\<lparr>io := d\<rparr>)"
    using x1(2) d(2) by (simp add: drv_free_def Let_def)
  obtain y a' where y: "ide_read_loop p rest dk lba cnt 0 [] (x1\<lparr>io := d\<rparr>) = Some (Inr (sector_data (sectors a (dev_no dk = 1)) (unat lba) (unat cnt), y))"
    "drv_free view base c t (locked_by t) a' y" "phase a' = Idle" "sectors a' = sectors a" "ident a' = ident a"
    using read_loop[OF x2 _ _ x(4) _ n(2,3), of 0 "[]"] x(2,3) by (auto simp: wf_ata_def)
  obtain z where z: "chan_release c y = Inr z" "drv_free view base c t lock_init a' z"
    using release_ok[OF y(2)] by blast
  have "0 < unat cnt"
    using n(1) by (simp add: word_less_nat_alt)
  then have "lba \<le> max_lba"
    using n(2) by (simp add: max_lba_small)
  then have "ide_read p rest dk lba cnt x = Some (Inr (sector_data (sectors a (dev_no dk = 1)) (unat lba) (unat cnt), z))"
    using x1(1) d(1) y(1) z(1) n(1) x(4) by (simp add: ide_read_def)
  then show ?thesis
    using z(2) y(3-5) by blast
qed

end

subsection \<open>Writing\<close>

lemma store_data_append:
  assumes "length bs = n * 512"
  shows "store_data (lba + n) bs' (store_data lba bs f) = store_data lba (bs @ bs') f"
proof (rule ext)
  fix i
  consider "i < lba + n" | "lba + n \<le> i"
    by linarith
  then show "store_data (lba + n) bs' (store_data lba bs f) i = store_data lba (bs @ bs') f i"
  proof cases
    case 1
    then have "512 * (i - lba) + 512 \<le> length bs" if "lba \<le> i"
      using that assms by linarith
    then show ?thesis
      using 1 assms by (auto simp: store_data_def)
  next
    case 2
    then have "512 * (i - lba) = length bs + 512 * (i - (lba + n))"
      using assms by (simp add: algebra_simps diff_mult_distrib2)
    then show ?thesis
      using 2 assms by (auto simp: store_data_def)
  qed
qed

context disk_client begin

lemma poll_ready:
  assumes x: "drv_inv view base c t a False x" "running_thread (drv_k x) = t" "fits blk a" "\<not> fst (ata_next a)" "is_busy (phase a)"
    and dk: "my_channel dk = c" and n: "\<not> is_busy (phase (view (io ((poll p rest c ^^ n) x))))" "n + 1 < unat time_limit"
  shows "\<exists>y. busy_wait_loop p rest dk time_limit x = (has_drq (phase (snd (ata_next a))), y) \<and> drv_inv view base c t a False y \<and>
    running_thread (drv_k y) = t \<and> view (io y) = snd (ata_next a)"
  using x(1,2) n
proof (induction n arbitrary: x time_limit)
  case (0 x)
  then have "view (io x) = snd (ata_next a)" "port_base (chan_of dk x) = base" "time_limit \<noteq> 1"
    using x(5) dk by (auto simp: drv_inv_def Let_def)
  then show ?case
    using busy_wait_loop_ready[of x dk time_limit rest] 0 by (auto simp: drv_inv_def Let_def)
next
  case (Suc n)
  have b: "port_base (chan_of dk x) = base" "time_limit \<noteq> 1"
    using Suc.prems(1,4) dk by (auto simp: drv_inv_def Let_def)
  show ?case
  proof (cases "is_busy (phase (view (io x)))")
    case False
    then have "view (io x) = snd (ata_next a)"
      using x(5) Suc.prems(1) by (auto simp: drv_inv_def Let_def)
    then show ?thesis
      using busy_wait_loop_ready[OF b(1) False b(2), of rest] Suc.prems(1,2) by (auto simp: drv_inv_def Let_def)
  next
    case True
    obtain st d where d: "inb p (reg_status (chan_of dk x)) (io x) = (st, d)"
      by fastforce
    have v: "view d = view (io x)" "st AND BIT_STAT_BSY \<noteq> 0"
      using status_view[of "io x"] status_bsy[of "io x"] b d True by (auto simp: reg_status_def)
    let ?y = "x\<lparr>io := d\<rparr>"
    have y: "drv_inv view base c t a False ?y"
      using Suc.prems(1) v(1) by (simp add: drv_inv_def Let_def)
    have p: "poll p rest c x = rest ?y"
      using d dk by (simp add: poll_def)
    have "time_limit \<noteq> 0"
      using Suc.prems(4) by auto
    then have l: "n + 1 < unat (time_limit - 1)"
      using Suc.prems(4) by (simp add: unat_minus_one)
    have "busy_wait_loop p rest dk time_limit x = busy_wait_loop p rest dk (time_limit - 1) (rest ?y)"
      using b d v(2) by (subst busy_wait_loop.simps) simp
    moreover have "\<not> is_busy (phase (view (io ((poll p rest c ^^ n) (rest ?y)))))"
      using Suc.prems(3) unfolding funpow_Suc_right o_apply p .
    ultimately show ?thesis
      using Suc.IH[OF rest_inv[OF y x(3)] _ l] by simp
  qed
qed

lemma data_wanted:
  "drv_inv view base c t a False x \<Longrightarrow> fits blk a \<Longrightarrow> \<not> fst (ata_next a) \<Longrightarrow> \<exists>n < 29999. \<not> is_busy (phase (view (io ((poll p rest c ^^ n) x))))"
  using relies unfolding rely_def by blast

text \<open>One round of the loop of \<^verbatim>\<open>ide_write\<close>.\<close>

lemma write_round:
  assumes x: "drv_free view base c t (locked_by t) a x" "phase a = Idle" and dk: "my_channel dk = c"
    and n: "secs_done < cnt" "unat lba + unat cnt \<le> 163840" "min (unat cnt) 256 \<le> blk" and buf: "length buf = unat cnt * 512"
  defines "n \<equiv> secs_op secs_done cnt"
  defines "bs \<equiv> take (unat n * 512) (drop (unat secs_done * 512) buf)"
  shows "\<exists>x' a'. ide_write_loop p rest dk lba buf cnt secs_done x = ide_write_loop p rest dk lba buf cnt (secs_done + n) x' \<and>
    drv_free view base c t (locked_by t) a' x' \<and> phase a' = Idle \<and> ident a' = ident a \<and>
    sectors a' = (sectors a)(dev_no dk = 1 := store_data (unat lba + unat secs_done) bs (sectors a (dev_no dk = 1)))"
proof -
  note pc = secs_op_piece[OF n(1), folded n_def]
  have "unat (lba + secs_done) = unat lba + unat secs_done"
    using n(1,2) by (intro unat_add_lt) (simp add: word_less_nat_alt)
  then have l: "lba + secs_done \<le> max_lba" "unat (lba + secs_done) = unat lba + unat secs_done"
    using n(1,2) by (simp_all add: max_lba_small word_less_nat_alt)
  have b: "port_base (chan_of dk x) = base" "view (io x) = a"
    using x(1) dk by (simp_all add: drv_free_def Let_def)
  obtain d where d: "select_sector p dk (lba + secs_done) (ucast n) x = Inr (x\<lparr>io := d\<rparr>)" "view d = selected dk (lba + secs_done) (ucast n) a"
    using select_sector_ok[OF b(1) _ l(1)] b(2) x(2) by auto
  let ?a = "selected dk (lba + secs_done) (ucast n) a" and ?x = "x\<lparr>io := d\<rparr>"
  let ?c = "?a\<lparr>phase := Busy CMD_WRITE_SECTOR\<rparr>" and ?y = "cmd_out p c CMD_WRITE_SECTOR ?x"
  have "drv_free view base c t (locked_by t) ?a ?x"
    using x(1) d(2) by (simp add: drv_free_def Let_def)
  then have y: "drv_inv view base c t ?c False ?y" "running_thread (drv_k ?y) = t"
    using cmd_out_ok[of c t ?a ?x] x(2) by auto
  have m: "ata_lba ?a = unat lba + unat secs_done" "ata_slave ?a = (dev_no dk = 1)" "ata_count ?a = unat n"
    using selected_meaning[OF l(1), of dk "ucast n" a] pc(5) n(2) l(2) by simp_all
  have f: "fits blk ?c" "ata_next ?c = (False, ?c\<lparr>phase := Want (unat n)\<rparr>)" "is_busy (phase ?c)"
    using m(3) pc(2,6) n(2,3) by (auto simp: fits_def ata_next_def is_busy_def CMD_WRITE_SECTOR_def CMD_READ_SECTOR_def)
  obtain k where k: "k < 29999" "\<not> is_busy (phase (view (io ((poll p rest c ^^ k) ?y))))"
    using data_wanted[OF y(1) f(1)] f(2) by auto
  obtain z where z: "busy_wait p rest dk ?y = (True, z)" "drv_inv view base c t ?c False z" "running_thread (drv_k z) = t"
    "view (io z) = ?c\<lparr>phase := Want (unat n)\<rparr>"
    using poll_ready[OF y f(1) _ f(3) dk k(2), of "30 * 1000"] k(1) f(2) by (auto simp: busy_wait_def has_drq_def)
  have len: "length bs = unat n * 512" "size_in_byte (ucast n) = unat n * 512" "length (drop (unat secs_done * 512) buf) \<ge> unat n * 512"
    using size_in_byte_piece[OF n(1)] n(2) buf pc(3) by (auto simp: bs_def n_def)
  let ?s = "?c\<lparr>phase := Storing bs\<rparr>" and ?w = "z\<lparr>io := outsw p base bs (io z)\<rparr>"
  have w: "write2sector p dk (drop (unat secs_done * 512) buf) (ucast n) z = Inr ?w"
    using len z(2) dk by (simp add: write2sector_def reg_data_def drv_inv_def Let_def bs_def)
  have v: "view (io ?w) = ?s"
    using data_out[of "io z" "unat n" bs] z(4) len(1) by simp
  have "expecting_intr (channels z c)" "disk_done (channels z c) = \<lparr>sema_value = 0, waiters = []\<rparr>" "runnable t (drv_k z)"
    using z(2) f(2) by (auto simp: drv_inv_def Let_def)
  then have wi: "drv_inv view base c t ?s False ?w" "running_thread (drv_k ?w) = t"
    using z(2,3) v by (simp_all add: drv_inv_def Let_def)
  have g: "fits blk ?s" "fst (ata_next ?s)"
    by (simp_all add: fits_def ata_next_def)
  obtain u where u: "disk_wait rest c (rest ?w) = Some (Inr u)" "drv_free view base c t (locked_by t) (snd (ata_next ?s)) u"
    using disk_wait_ok[OF rest_inv[OF wi(1) g(1)] g(2,1)] by auto
  have "ide_write_loop p rest dk lba buf cnt secs_done x = ide_write_loop p rest dk lba buf cnt (secs_done + n) u"
    using n(1) d(1) z(1) w u(1) by (subst ide_write_loop.simps) (simp add: n_def dk)
  then show ?thesis
    using u(2) by (intro exI[of _ u] exI[of _ "snd (ata_next ?s)"]) (simp add: ata_next_def m)
qed

lemma write_loop:
  assumes "drv_free view base c t (locked_by t) a x" "phase a = Idle" "my_channel dk = c"
    and "secs_done \<le> cnt" "unat lba + unat cnt \<le> 163840" "min (unat cnt) 256 \<le> blk" "length buf = unat cnt * 512"
  shows "\<exists>y a'. ide_write_loop p rest dk lba buf cnt secs_done x = Some (Inr y) \<and>
    drv_free view base c t (locked_by t) a' y \<and> phase a' = Idle \<and> ident a' = ident a \<and>
    sectors a' = (sectors a)(dev_no dk = 1 := store_data (unat lba + unat secs_done) (drop (unat secs_done * 512) buf) (sectors a (dev_no dk = 1)))"
  using assms
proof (induction "unat cnt - unat secs_done" arbitrary: secs_done x a rule: less_induct)
  case less
  show ?case
  proof (cases "secs_done < cnt")
    case False
    then have "secs_done = cnt"
      using less.prems(4) by simp
    moreover have "store_data l [] g = g" for l g
      by (rule ext) (auto simp: store_data_def)
    ultimately show ?thesis
      using less.prems(1,2,7) by (subst ide_write_loop.simps) (simp; blast)
  next
    case True
    let ?n = "secs_op secs_done cnt" and ?f = "sectors a (dev_no dk = 1)" and ?r = "drop (unat secs_done * 512) buf"
    have c: "unat cnt \<le> 163840"
      using less.prems(5) by simp
    note pc = secs_op_piece[OF True c]
    obtain x' a' where x': "ide_write_loop p rest dk lba buf cnt secs_done x = ide_write_loop p rest dk lba buf cnt (secs_done + ?n) x'"
      "drv_free view base c t (locked_by t) a' x'" "phase a' = Idle" "ident a' = ident a"
      "sectors a' = (sectors a)(dev_no dk = 1 := store_data (unat lba + unat secs_done) (take (unat ?n * 512) ?r) ?f)"
      using write_round[OF less.prems(1-3) True less.prems(5-7)] by blast
    have "unat cnt - unat (secs_done + ?n) < unat cnt - unat secs_done" "secs_done + ?n \<le> cnt"
      using pc(1,3,4) by (auto simp: word_le_nat_alt)
    note ih = less.hyps[OF this(1) x'(2,3) less.prems(3) this(2) less.prems(5-7)]
    have "unat secs_done * 512 + unat ?n * 512 \<le> length buf"
      using pc(3) less.prems(7) by simp
    then have "length (take (unat ?n * 512) ?r) = unat ?n * 512" "take (unat ?n * 512) ?r @ drop (unat (secs_done + ?n) * 512) buf = ?r"
      using pc(4) append_take_drop_id[of "unat ?n * 512" ?r] by (simp_all add: add_mult_distrib add.commute)
    then have "store_data (unat lba + unat (secs_done + ?n)) (drop (unat (secs_done + ?n) * 512) buf) (store_data (unat lba + unat secs_done) (take (unat ?n * 512) ?r) ?f) =
        store_data (unat lba + unat secs_done) ?r ?f"
      using store_data_append[of "take (unat ?n * 512) ?r" "unat ?n" "unat lba + unat secs_done"] pc(4) by (simp add: add.assoc)
    then show ?thesis
      using ih x'(1,4,5) by auto
  qed
qed

lemma write_ok:
  assumes x: "drv_free view base c t lock_init a x" "phase a = Idle" "my_channel dk = c"
    and n: "0 < cnt" "unat lba + unat cnt \<le> 163840" "min (unat cnt) 256 \<le> blk" "length buf = unat cnt * 512"
  shows "\<exists>y a'. ide_write p rest dk lba buf cnt x = Some (Inr y) \<and> drv_free view base c t lock_init a' y \<and> phase a' = Idle \<and> ident a' = ident a \<and>
    sectors a' = (sectors a)(dev_no dk = 1 := store_data (unat lba) buf (sectors a (dev_no dk = 1)))"
proof -
  obtain x1 where x1: "chan_acquire rest c x = Some (Inr x1)" "drv_free view base c t (locked_by t) a x1"
    using acquire_ok[OF x(1)] by blast
  obtain d v where d: "select_disk p dk x1 = x1\<lparr>io := d\<rparr>" "view d = a\<lparr>r_dev := v\<rparr>"
    using select_disk_ok[of x1 dk] x1(2) x(2,3) by (auto simp: drv_free_def Let_def)
  have x2: "drv_free view base c t (locked_by t) (a\<lparr>r_dev := v\<rparr>) (x1\<lparr>io := d\<rparr>)"
    using x1(2) d(2) by (simp add: drv_free_def Let_def)
  obtain y a' where y: "ide_write_loop p rest dk lba buf cnt 0 (x1\<lparr>io := d\<rparr>) = Some (Inr y)"
    "drv_free view base c t (locked_by t) a' y" "phase a' = Idle" "ident a' = ident a"
    "sectors a' = (sectors a)(dev_no dk = 1 := store_data (unat lba) buf (sectors a (dev_no dk = 1)))"
    using write_loop[OF x2 _ x(3) _ n(2,3,4), of 0] x(2) by auto
  obtain z where z: "chan_release c y = Inr z" "drv_free view base c t lock_init a' z"
    using release_ok[OF y(2)] by blast
  have "0 < unat cnt"
    using n(1) by (simp add: word_less_nat_alt)
  then have "lba \<le> max_lba"
    using n(2) by (simp add: max_lba_small)
  then have "ide_write p rest dk lba buf cnt x = Some (Inr z)"
    using x1(1) d(1) y(1) z(1) n(1) x(3) by (simp add: ide_write_def)
  then show ?thesis
    using z(2) y(3-5) by blast
qed

end

subsection \<open>The two channels of a PC\<close>

text \<open>
  A controller that follows the protocol and offers all sectors of a command at once, as emulators do, with the
  primary channel at \<^verbatim>\<open>0x1f0\<close> and the secondary channel at \<^verbatim>\<open>0x170\<close>.
\<close>

definition ata_outb :: "u16 \<Rightarrow> u8 \<Rightarrow> ata \<Rightarrow> ata" where
  "ata_outb r v a =
     (if phase a \<noteq> Idle then a
      else if r = 2 then a\<lparr>r_cnt := v\<rparr> else if r = 3 then a\<lparr>r_low := v\<rparr> else if r = 4 then a\<lparr>r_mid := v\<rparr>
      else if r = 5 then a\<lparr>r_high := v\<rparr> else if r = 6 then a\<lparr>r_dev := v\<rparr>
      else if r = 7 \<and> (v = CMD_IDENTIFY \<or> v = CMD_READ_SECTOR \<or> v = CMD_WRITE_SECTOR) then a\<lparr>phase := Busy v\<rparr> else a)"

definition ata_status :: "ata \<Rightarrow> u8" where
  "ata_status a = (if is_busy (phase a) then BIT_STAT_BSY else if has_drq (phase a) then 0x40 OR BIT_STAT_DRQ else 0x40)"

definition ata_insw :: "nat \<Rightarrow> ata \<Rightarrow> u8 list \<times> ata" where
  "ata_insw n a = (case phase a of
      Offer bs \<Rightarrow> (take (2 * n) bs, a\<lparr>phase := (if length bs \<le> 2 * n then Idle else Offer (drop (2 * n) bs))\<rparr>)
    | _ \<Rightarrow> (replicate (2 * n) 0xff, a))"

definition ata_outsw :: "u8 list \<Rightarrow> ata \<Rightarrow> ata" where
  "ata_outsw bs a = (case phase a of Want n \<Rightarrow> a\<lparr>phase := Storing bs\<rparr> | _ \<Rightarrow> a)"

definition chan_base :: "nat \<Rightarrow> u16" where "chan_base c = (if c = 0 then 0x1f0 else 0x170)"

definition chan_view :: "nat \<Rightarrow> ata \<times> ata \<Rightarrow> ata" where "chan_view c = (if c = 0 then fst else snd)"

text \<open>The channel a port belongs to, and the effect of an access on this channel.\<close>

definition at_port :: "u16 \<Rightarrow> (u16 \<Rightarrow> ata \<Rightarrow> 'r \<times> ata) \<Rightarrow> 'r \<Rightarrow> ata \<times> ata \<Rightarrow> 'r \<times> ata \<times> ata" where
  "at_port port f none d =
     (if port - 0x1f0 < 8 then let (r, a) = f (port - 0x1f0) (fst d) in (r, a, snd d)
      else if port - 0x170 < 8 then let (r, a) = f (port - 0x170) (snd d) in (r, fst d, a)
      else (none, d))"

definition pc_ports :: "(ata \<times> ata) ports" where
  "pc_ports = \<lparr>outb = (\<lambda>port v d. snd (at_port port (\<lambda>r a. ((), ata_outb r v a)) () d)),
     inb = (\<lambda>port. at_port port (\<lambda>r a. (if r = 7 then ata_status a else 0xff, a)) 0xff),
     outsw = (\<lambda>port bs d. snd (at_port port (\<lambda>r a. ((), ata_outsw bs a)) () d)),
     insw = (\<lambda>port n. at_port port (\<lambda>r a. ata_insw n a) (replicate (2 * n) 0xff)),
     work = (\<lambda>port. at_port port (\<lambda>r a. ata_next a) False)\<rparr>"

lemma at_port_chan:
  assumes "c < 2" "r < 8"
  shows "fst (at_port (chan_base c + r) f none d) = fst (f r (chan_view c d))"
    "chan_view c (snd (at_port (chan_base c + r) f none d)) = snd (f r (chan_view c d))"
proof -
  have "\<not> r + 0x170 - 0x1f0 < 8"
    using assms(2) by (simp add: word_less_nat_alt unat_sub_if' unat_word_ariths)
  moreover have "c = 0 \<or> c = 1"
    using assms(1) by auto
  ultimately show "fst (at_port (chan_base c + r) f none d) = fst (f r (chan_view c d))"
    "chan_view c (snd (at_port (chan_base c + r) f none d)) = snd (f r (chan_view c d))"
    using assms(2) by (auto simp: at_port_def chan_base_def chan_view_def add.commute split: prod.splits)
qed

lemma pc_channel:
  assumes "c < 2"
  shows "ata_channel pc_ports (chan_base c) (chan_view c) 256"
proof -
  note at = at_port_chan[OF assms]
  have st: "ata_status a AND BIT_STAT_BSY = 0 \<longleftrightarrow> \<not> is_busy (phase a)" for a
    by (simp add: ata_status_def BIT_STAT_BSY_def BIT_STAT_DRQ_def)
  have dr: "\<not> is_busy (phase a) \<Longrightarrow> ata_status a AND BIT_STAT_DRQ = 0 \<longleftrightarrow> \<not> has_drq (phase a)" for a
    by (simp add: ata_status_def BIT_STAT_DRQ_def)
  have z: "at_port (chan_base c) f none d = at_port (chan_base c + 0) f none d" for f :: "u16 \<Rightarrow> ata \<Rightarrow> 'r \<times> ata" and none d
    by simp
  show ?thesis
    by unfold_locales (auto simp: pc_ports_def at st dr z ata_outb_def ata_insw_def ata_outsw_def simp del: add_0_right)
qed

text \<open>
  One way in which a suspended thread \<open>t\<close> goes on: if it sleeps, the thread that runs turns interrupts on and takes the interrupt of the
  disk; the other threads yield until \<open>t\<close> runs; and a disk that will not interrupt does its work.
\<close>

fun yield_until :: "nat \<Rightarrow> u32 \<Rightarrow> kstate \<Rightarrow> kstate" where
  "yield_until 0 t k = k"
| "yield_until (Suc n) t k =
     (if running_thread k = t then k else case thread_yield k of Inl _ \<Rightarrow> k | Inr k' \<Rightarrow> yield_until n t k')"

definition take_disk_intr :: "nat \<Rightarrow> (ata \<times> ata) drv \<Rightarrow> (ata \<times> ata) drv" where
  "take_disk_intr c x =
     (let x = x\<lparr>drv_k := k_intr_set_status INTR_ON (drv_k x)\<rparr>
      in case disk_interrupt pc_ports c (x\<lparr>io := snd (work pc_ports (port_base (channels x c)) (io x))\<rparr>) of Inl _ \<Rightarrow> x | Inr y \<Rightarrow> y)"

definition resume_pc :: "nat \<Rightarrow> u32 \<Rightarrow> (ata \<times> ata) drv \<Rightarrow> (ata \<times> ata) drv" where
  "resume_pc c t x =
     (let x = (if status_of (drv_k x) t = TASK_BLOCKED then take_disk_intr c x else x)
      in x\<lparr>drv_k := yield_until (length (thread_ready_list (drv_k x))) t (drv_k x)\<rparr>)"

definition rest_pc :: "nat \<Rightarrow> u32 \<Rightarrow> (ata \<times> ata) drv \<Rightarrow> (ata \<times> ata) drv" where
  "rest_pc c t x =
     (let x = resume_pc c t x
      in if fst (ata_next (chan_view c (io x))) then x else x\<lparr>io := snd (work pc_ports (port_base (channels x c)) (io x))\<rparr>)"

lemma yield_until_runs:
  assumes "kern_ok t (drv_k x)" "t \<in> set (take (Suc n) (running_thread (drv_k x) # thread_ready_list (drv_k x)))"
  shows "(env_step p c t)\<^sup>*\<^sup>* x (x\<lparr>drv_k := yield_until n t (drv_k x)\<rparr>) \<and> running_thread (yield_until n t (drv_k x)) = t"
  using assms
proof (induction n arbitrary: x)
  case (Suc n)
  show ?case
  proof (cases "running_thread (drv_k x) = t")
    case False
    obtain k where k: "thread_yield (drv_k x) = Inr k" "running_thread k # thread_ready_list k = thread_ready_list (drv_k x) @ [running_thread (drv_k x)]"
      using thread_yield_spec[of "drv_k x"] Suc.prems(1) by (auto simp: kern_ok_def)
    let ?y = "x\<lparr>drv_k := k\<rparr>"
    have "kern_ok t k"
      using kern_next_yield[OF Suc.prems(1) k(1)] by (simp add: kern_next_def)
    moreover have "t \<in> set (take (Suc n) (running_thread k # thread_ready_list k))"
      using Suc.prems(2) False unfolding k(2) by (auto simp: take_append)
    moreover have "env_step p c t x ?y"
      using env_step.yield[OF False k(1)] by simp
    ultimately show ?thesis
      using Suc.IH[of ?y] False k(1) converse_rtranclp_into_rtranclp[of "env_step p c t" x ?y] by simp
  qed simp
qed simp

lemma runnable_status: "kern_ok t k \<Longrightarrow> runnable t k \<Longrightarrow> status_of k t \<noteq> TASK_BLOCKED"
  using queue_invD(6)[of k t] kern_ok_running[of t k] by (auto simp: kern_ok_def runnable_def sched_inv_def)

lemma pc_work:
  assumes "c < 2" "port_base (channels x c) = chan_base c"
  shows "fst (work pc_ports (port_base (channels x c)) (io x)) = fst (ata_next (chan_view c (io x)))"
    "chan_view c (snd (work pc_ports (port_base (channels x c)) (io x))) = snd (ata_next (chan_view c (io x)))"
  using at_port_chan[OF assms(1), of 0 "\<lambda>r. ata_next" False "io x"] assms(2) by (simp_all add: pc_ports_def)

lemma take_disk_intr_steps:
  assumes inv: "drv_inv (chan_view c) (chan_base c) c t a True x" "fst (ata_next a)" "c < 2" and st: "status_of (drv_k x) t = TASK_BLOCKED"
  shows "(env_step pc_ports c t)\<^sup>*\<^sup>* x (take_disk_intr c x) \<and> kern_ok t (drv_k (take_disk_intr c x)) \<and> runnable t (drv_k (take_disk_intr c x))"
proof -
  let ?x = "x\<lparr>drv_k := k_intr_set_status INTR_ON (drv_k x)\<rparr>"
  let ?d = "snd (work pc_ports (port_base (channels ?x c)) (io ?x))"
  have k: "kern_ok t (drv_k x)" "running_thread (drv_k x) \<noteq> t"
    using inv(1) st kern_ok_running[of t "drv_k x"] by (auto simp: drv_inv_def Let_def)
  have e: "chan_view c (io x) = a" "expecting_intr (channels x c)" "disk_done (channels x c) = \<lparr>sema_value = 0, waiters = [t]\<rparr>"
    "irq_no (channels x c) = 0x2e + word_of_nat c" "port_base (channels x c) = chan_base c"
    using inv(1) runnable_status[OF k(1)] st by (auto simp: drv_inv_def Let_def)
  have w: "work pc_ports (port_base (channels ?x c)) (io ?x) = (True, ?d)"
    using pc_work(1)[OF inv(3), of x] e(1,5) inv(2) by (simp add: prod_eq_iff)
  have s: "kern_ok t (drv_k ?x)" "status_of (drv_k ?x) t = TASK_BLOCKED" "intr_get_status (k_cpu (drv_k ?x)) = INTR_ON"
    using k st by (simp_all add: k_intr_set_status_def)
  obtain y where y: "disk_interrupt pc_ports c (?x\<lparr>io := ?d\<rparr>) = Inr y" "kern_ok t (drv_k y)" "runnable t (drv_k y)"
    using disk_interrupt_spec[of t "?x\<lparr>io := ?d\<rparr>" c True pc_ports] s e inv(3) by auto
  have "env_step pc_ports c t x ?x"
    by (rule env_step.flag[OF k(2)])
  moreover have "env_step pc_ports c t ?x y"
    by (rule env_step.disk_done[OF w s(3) y(1)])
  moreover have "take_disk_intr c x = y"
    using y(1) by (simp add: take_disk_intr_def)
  ultimately show ?thesis
    using y(2,3) by (auto intro: rtranclp_trans)
qed

lemma resume_pc_steps:
  assumes inv: "drv_inv (chan_view c) (chan_base c) c t a b x" "b \<Longrightarrow> fst (ata_next a)" "c < 2"
  shows "(env_step pc_ports c t)\<^sup>*\<^sup>* x (resume_pc c t x) \<and> running_thread (drv_k (resume_pc c t x)) = t"
proof -
  let ?y = "if status_of (drv_k x) t = TASK_BLOCKED then take_disk_intr c x else x"
  have k: "kern_ok t (drv_k x)"
    using inv(1) by (simp add: drv_inv_def Let_def)
  have "b" if "status_of (drv_k x) t = TASK_BLOCKED"
    using that inv(1) runnable_status[OF k] by (auto simp: drv_inv_def Let_def split: if_splits)
  moreover have "runnable t (drv_k x)" if "status_of (drv_k x) t \<noteq> TASK_BLOCKED"
    using that inv(1) by (auto simp: drv_inv_def Let_def split: if_splits)
  ultimately have y: "(env_step pc_ports c t)\<^sup>*\<^sup>* x ?y" "kern_ok t (drv_k ?y)" "runnable t (drv_k ?y)"
    using take_disk_intr_steps[of c t a x] inv k by auto
  then have "t \<in> set (take (Suc (length (thread_ready_list (drv_k ?y)))) (running_thread (drv_k ?y) # thread_ready_list (drv_k ?y)))"
    by (simp add: runnable_def)
  from yield_until_runs[OF y(2) this, of pc_ports c] y(1) show ?thesis
    by (auto simp: resume_pc_def Let_def intro: rtranclp_trans)
qed

lemma rest_pc_steps:
  assumes inv: "drv_inv (chan_view c) (chan_base c) c t a b x" "fits 256 a" "b \<Longrightarrow> fst (ata_next a)" "c < 2"
  shows "(env_step pc_ports c t)\<^sup>*\<^sup>* x (rest_pc c t x)" "running_thread (drv_k (rest_pc c t x)) = t"
    "\<not> fst (ata_next a) \<Longrightarrow> chan_view c (io (rest_pc c t x)) = snd (ata_next a)"
proof -
  let ?y = "resume_pc c t x"
  have y: "(env_step pc_ports c t)\<^sup>*\<^sup>* x ?y" "running_thread (drv_k ?y) = t"
    using resume_pc_steps[OF inv(1,3,4)] by auto
  have d: "drv_inv (chan_view c) (chan_base c) c t a b ?y"
    by (rule ata_channel.env_steps_inv[OF pc_channel[OF inv(4)] y(1) inv(1,2,4,3)])
  then have v: "port_base (channels ?y c) = chan_base c" "chan_view c (io ?y) = a \<or> chan_view c (io ?y) = snd (ata_next a)"
    by (auto simp: drv_inv_def Let_def)
  note w = pc_work[OF inv(4) v(1)]
  let ?z = "?y\<lparr>io := snd (work pc_ports (port_base (channels ?y c)) (io ?y))\<rparr>"
  have "env_step pc_ports c t ?y ?z" if "\<not> fst (ata_next (chan_view c (io ?y)))"
    using env_step.disk_works[of pc_ports ?y c "snd (work pc_ports (port_base (channels ?y c)) (io ?y))" t] w(1) that
    by (simp add: prod_eq_iff)
  then show "(env_step pc_ports c t)\<^sup>*\<^sup>* x (rest_pc c t x)"
    using y(1) by (auto simp: rest_pc_def Let_def)
  show "running_thread (drv_k (rest_pc c t x)) = t"
    using y(2) by (simp add: rest_pc_def Let_def)
  show "chan_view c (io (rest_pc c t x)) = snd (ata_next a)" if "\<not> fst (ata_next a)"
    using v(2) w(2) that by (auto simp: rest_pc_def Let_def ata_next_twice)
qed

lemma ata_next_not_busy: "\<not> is_busy (phase (snd (ata_next a)))"
  by (auto simp: ata_next_def is_busy_def split: ata_phase.splits)

lemma pc_rely:
  assumes "c < 2"
  shows "rely pc_ports (chan_view c) (chan_base c) 256 c t (rest_pc c t)"
proof -
  have "\<not> is_busy (phase (chan_view c (io ((poll pc_ports (rest_pc c t) c ^^ 1) x))))"
    if x: "drv_inv (chan_view c) (chan_base c) c t a False x" "fits 256 a" "\<not> fst (ata_next a)" for x a
  proof -
    let ?x = "x\<lparr>io := snd (inb pc_ports (reg_status (channels x c)) (io x))\<rparr>"
    have "chan_view c (io ?x) = chan_view c (io x)"
      using ata_channel.status_phase[OF pc_channel[OF assms]] x(1) by (simp add: drv_inv_def Let_def)
    then have "drv_inv (chan_view c) (chan_base c) c t a False ?x"
      using x(1) by (simp add: drv_inv_def Let_def)
    then show ?thesis
      using rest_pc_steps(3)[OF _ x(2) _ assms x(3)] ata_next_not_busy by (simp add: poll_def)
  qed
  then have "\<exists>n < 29999. \<not> is_busy (phase (chan_view c (io ((poll pc_ports (rest_pc c t) c ^^ n) x))))"
    if "drv_inv (chan_view c) (chan_base c) c t a False x" "fits 256 a" "\<not> fst (ata_next a)" for x a
    using that by (intro exI[of _ 1]) simp
  then show ?thesis
    using rest_pc_steps(1,2)[OF _ _ _ assms] unfolding rely_def by blast
qed

interpretation ide0: disk_client pc_ports "chan_base 0" "chan_view 0" 256 0 t "rest_pc 0 t" for t
  by (intro disk_client.intro disk_client_axioms.intro pc_channel pc_rely) simp_all

interpretation ide1: disk_client pc_ports "chan_base 1" "chan_view 1" 256 1 t "rest_pc 1 t" for t
  by (intro disk_client.intro disk_client_axioms.intro pc_channel pc_rely) simp_all

subsection \<open>The driver transfers what it was asked to\<close>


definition ata0 :: ata where
  "ata0 = \<lparr>r_cnt = 0, r_low = 0, r_mid = 0, r_high = 0, r_dev = 0, phase = Idle,
     sectors = (\<lambda>s i. replicate 512 (word_of_nat (i mod 256) + (if s then 1 else 0))), ident = (\<lambda>s. replicate 512 0)\<rparr>"

definition drv0 :: "(ata \<times> ata) drv" where
  "drv0 = \<lparr>drv_k = kstate0, channels = (\<lambda>c. \<lparr>port_base = chan_base c, irq_no = 0x2e + word_of_nat c, ch_lock = lock_init,
     expecting_intr = False, disk_done = semaphore_init 0\<rparr>), io = (ata0, ata0)\<rparr>"

definition sdb0 :: hdisk where
  "sdb0 = \<lparr>hd_name = c_string ''sdb'', my_channel = 0, dev_no = 1, prim_parts = [], logic_parts = []\<rparr>"

lemma drv0_free: "drv_free (chan_view 0) (chan_base 0) 0 0x1000 lock_init ata0 drv0" "phase ata0 = Idle" "wf_ata ata0"
proof -
  have "kern_ok 0x1000 kstate0"
    using kstate0_inv by (simp add: kern_ok_def kstate0_def magic_inv_def pcb0_def)
  then show "drv_free (chan_view 0) (chan_base 0) 0 0x1000 lock_init ata0 drv0" "phase ata0 = Idle" "wf_ata ata0"
    by (simp_all add: drv_free_def drv0_def ata0_def wf_ata_def chan_view_def Let_def) (simp add: kstate0_def)
qed


lemma store_data_sectors:
  assumes "length bs = n * 512"
  shows "sector_data (store_data lba bs f) lba n = bs"
  using assms
proof (induction n arbitrary: bs rule: nat_induct)
  case (Suc n)
  let ?b = "take (n * 512) bs" and ?e = "drop (n * 512) bs"
  have l: "length ?b = n * 512" "length ?e = 512"
    using Suc.prems by simp_all
  have "store_data lba bs f = store_data (lba + n) ?e (store_data lba ?b f)"
    using store_data_append[OF l(1), of lba ?e f] by simp
  moreover have "store_data (lba + n) ?e g i = g i" if "i < lba + n" for g i
    using that by (simp add: store_data_def)
  ultimately have "map (store_data lba bs f) [lba..<lba + n] = map (store_data lba ?b f) [lba..<lba + n]" "store_data lba bs f (lba + n) = ?e"
    using l(2) by (simp_all add: store_data_def)
  then have "concat (map (store_data lba bs f) [lba..<lba + Suc n]) = ?b @ ?e"
    using Suc.IH[OF l(1)] unfolding sector_data_def by (simp del: map_eq_conv)
  then show ?case
    unfolding sector_data_def by (simp only: append_take_drop_id)
qed (simp add: sector_data_def)

lemma store_data_wf:
  assumes "length bs = n * 512" "\<And>i. length (f i) = 512"
  shows "length (store_data lba bs f i) = 512"
proof -
  have "512 * (i - lba) + 512 \<le> length bs" if "lba \<le> i" "i < lba + length bs div 512"
    using that assms(1) by simp
  then show ?thesis
    using assms(2) by (auto simp: store_data_def min_def)
qed

text \<open>
  C13. What is written is read back: under the same conditions \<^verbatim>\<open>ide_write\<close> of any number of sectors returns and changes exactly these sectors of
  the selected disk, and a following \<^verbatim>\<open>ide_read\<close> of the same sectors returns exactly the bytes that were written.
\<close>

theorem ide_write_read_roundtrip:
  assumes "ata_channel p base view blk" "rely p view base blk c t rest" "c < 2"
    and "drv_free view base c t lock_init a x" "phase a = Idle" "wf_ata a" "my_channel dk = c"
    and "0 < cnt" "unat lba + unat cnt \<le> 163840" "min (unat cnt) 256 \<le> blk" "length buf = unat cnt * 512"
  shows "\<exists>y a' z. ide_write p rest dk lba buf cnt x = Some (Inr y) \<and> drv_free view base c t lock_init a' y \<and>
    (\<forall>s i. s = (dev_no dk = 1) \<and> unat lba \<le> i \<and> i < unat lba + unat cnt \<or> sectors a' s i = sectors a s i) \<and>
    ide_read p rest dk lba cnt y = Some (Inr (buf, z))"
proof -
  note client = disk_client.intro[OF assms(1) disk_client_axioms.intro[OF assms(3,2)]]
  let ?f = "sectors a (dev_no dk = 1)"
  obtain y a' where y: "ide_write p rest dk lba buf cnt x = Some (Inr y)" "drv_free view base c t lock_init a' y" "phase a' = Idle"
    "sectors a' = (sectors a)(dev_no dk = 1 := store_data (unat lba) buf ?f)"
    using disk_client.write_ok[OF client assms(4,5,7-11)] by blast
  have "wf_ata a'"
    using assms(6) y(4) store_data_wf[OF assms(11), of ?f] by (simp add: wf_ata_def)
  then obtain z where "ide_read p rest dk lba cnt y = Some (Inr (sector_data (sectors a' (dev_no dk = 1)) (unat lba) (unat cnt), z))"
    using disk_client.read_ok[OF client y(2,3) _ assms(7-10)] by blast
  then have z: "ide_read p rest dk lba cnt y = Some (Inr (buf, z))"
    using store_data_sectors[OF assms(11)] by (simp add: y(4))
  have "sectors a' s i = sectors a s i" if "\<not> (s = (dev_no dk = 1) \<and> unat lba \<le> i \<and> i < unat lba + unat cnt)" for s i
    using that assms(11) by (auto simp: y(4) store_data_def)
  then show ?thesis
    using y(1,2) z by blast
qed

theorem ide_write_read_roundtrip_witness:
  "\<exists>y z. ide_write pc_ports (rest_pc 0 0x1000) sdb0 19 (replicate 1024 7) 2 drv0 = Some (Inr y) \<and>
    ide_read pc_ports (rest_pc 0 0x1000) sdb0 19 2 y = Some (Inr (replicate 1024 7, z))"
  using ide_write_read_roundtrip[OF pc_channel pc_rely _ drv0_free, of sdb0 2 19 "replicate 1024 7"] by (auto simp: sdb0_def)

text \<open>
  The time limit of \<^verbatim>\<open>busy_wait\<close>: for a disk that stays busy the loop, whose comment promises 30 seconds, sleeps 10 milliseconds 29999 times, about
  300 seconds, before it reports a failure, because its condition subtracts 1 and not 10 from the limit of 30000.
\<close>

theorem busy_wait_sleeps_30000_times:
  assumes "ata_channel p base view blk" "my_channel dk = c"
    and "\<And>n. is_busy (phase (view (io ((poll p rest c ^^ n) x)))) \<and> port_base (channels ((poll p rest c ^^ n) x) c) = base"
  shows "busy_wait p rest dk x = (False, (poll p rest c ^^ 29999) x)"
proof -
  have "busy_wait_loop p rest dk time_limit ((poll p rest c ^^ k) x) = (False, (poll p rest c ^^ (k + n)) x)" if "unat (time_limit - 1) = n" for time_limit k n
    using that
  proof (induction n arbitrary: time_limit k)
    case 0
    then have "time_limit - 1 = 0"
      by (metis unat_eq_zero)
    then show ?case
      by (subst busy_wait_loop.simps) simp
  next
    case (Suc n)
    let ?y = "(poll p rest c ^^ k) x"
    obtain st d where d: "inb p (reg_status (chan_of dk ?y)) (io ?y) = (st, d)"
      by fastforce
    have "st AND BIT_STAT_BSY \<noteq> 0"
      using ata_channel.status_bsy[OF assms(1), of "io ?y"] assms(2,3) d by (simp add: reg_status_def)
    moreover have "rest (?y\<lparr>io := d\<rparr>) = (poll p rest c ^^ Suc k) x"
      using d assms(2) by (simp add: poll_def)
    moreover have "time_limit - 1 \<noteq> 0"
      using Suc.prems by auto
    moreover from this have t: "unat (time_limit - 1 - 1) = n"
      using Suc.prems by (subst unat_minus_one) simp_all
    ultimately have "busy_wait_loop p rest dk time_limit ?y = busy_wait_loop p rest dk (time_limit - 1) ((poll p rest c ^^ Suc k) x)"
      using d by (subst busy_wait_loop.simps) simp
    then show ?case
      using Suc.IH[OF t, of "Suc k"] by simp
  qed
  from this[of "30 * 1000" 29999 0] show ?thesis
    by (simp add: busy_wait_def)
qed

theorem busy_wait_sleeps_30000_times_witness:
  "fst (busy_wait pc_ports (\<lambda>x. x) sdb0 (drv0\<lparr>io := (ata0\<lparr>phase := Busy CMD_READ_SECTOR\<rparr>, ata0)\<rparr>)) = False"
proof -
  let ?x = "drv0\<lparr>io := (ata0\<lparr>phase := Busy CMD_READ_SECTOR\<rparr>, ata0)\<rparr>"
  have "poll pc_ports (\<lambda>x. x) 0 ?x = ?x"
    by (simp add: poll_def pc_ports_def at_port_def reg_status_def drv0_def chan_base_def)
  then have "(poll pc_ports (\<lambda>x. x) 0 ^^ n) ?x = ?x" for n
    by (induction n) simp_all
  then show ?thesis
    using busy_wait_sleeps_30000_times[OF pc_channel[of 0], of sdb0 0 "\<lambda>x. x" ?x]
    by (simp add: sdb0_def chan_view_def is_busy_def drv0_def)
qed

end
