(* ===== verification/Partition.thy ===== *)
theory Partition
  imports Idexfer Heapinv
begin

text \<open>
  Finding out what disks there are: \<^verbatim>\<open>identify_disk\<close>, \<^verbatim>\<open>partition_scan\<close> and \<^verbatim>\<open>ide_init\<close> of \<^verbatim>\<open>src/device/ide.c\<close>. The four disks are numbered in the
  order of their names, two for each channel; the list of partitions holds, for each, its disk, whether it is a primary one, and its index.
  These functions run before there are other threads, so \<^verbatim>\<open>sys_malloc\<close> and \<^verbatim>\<open>sys_free\<close> do not find their lock taken.
\<close>

record 'd scan =
  sc_drv :: "'d drv"
  sc_heap :: heap
  sc_mem :: mem
  disks :: "nat \<Rightarrow> hdisk"
  p_no :: u8
  l_no :: u8
  ext_lba_base :: u32
  partition_list :: "(nat \<times> bool \<times> nat) list"

subsection \<open>Identifying a disk\<close>

text \<open>\<^verbatim>\<open>swap_pairs_bytes\<close> for an even number of bytes; the result ends with the terminating zero.\<close>

fun swap_pairs_bytes :: "u8 list \<Rightarrow> u8 list" where
  "swap_pairs_bytes (a # b # dst) = b # a # swap_pairs_bytes dst"
| "swap_pairs_bytes dst = [0]"

text \<open>What \<^verbatim>\<open>identify_disk\<close> prints: the serial number, the model, the number of sectors and the capacity in megabytes.\<close>

record disk_info =
  SN :: "u8 list"
  MODULE :: "u8 list"
  SECTORS :: u32
  CAPACITY :: u32

definition disk_info_of :: "u8 list \<Rightarrow> disk_info" where
  "disk_info_of id_info =
     (let sectors = le32 id_info (60 * 2)
      in \<lparr>SN = swap_pairs_bytes (take 20 (drop (10 * 2) id_info)), MODULE = swap_pairs_bytes (take 40 (drop (27 * 2) id_info)),
          SECTORS = sectors, CAPACITY = sectors * 512 div 1024 div 1024\<rparr>)"

definition identify_disk :: "'d ports \<Rightarrow> ('d drv \<Rightarrow> 'd drv) \<Rightarrow> hdisk \<Rightarrow> 'd drv \<Rightarrow> (disk_info \<times> 'd drv) run" where
  "identify_disk p rest dk x =
     bindr (disk_wait rest (my_channel dk) (rest (cmd_out p (my_channel dk) CMD_IDENTIFY (select_disk p dk x)))) (\<lambda>x.
     if \<not> fst (busy_wait p rest dk x) then Some (Inl (Panic ''identify failed''))
     else let (id_info, x) = read_from_sector p dk 1 (snd (busy_wait p rest dk x)) in Some (Inr (disk_info_of id_info, x)))"

subsection \<open>The partition table\<close>

record partition_table_entry =
  fs_type :: u8
  e_start_lba :: u32
  e_sec_cnt :: u32

definition table_entry :: "u8 list \<Rightarrow> nat \<Rightarrow> partition_table_entry" where
  "table_entry bs i = \<lparr>fs_type = bs ! (446 + 16 * i + 4), e_start_lba = le32 bs (446 + 16 * i + 8), e_sec_cnt = le32 bs (446 + 16 * i + 12)\<rparr>"

text \<open>\<^verbatim>\<open>%d\<close> of a number below 100.\<close>

definition decimal :: "nat \<Rightarrow> u8 list" where
  "decimal n = (if n < 10 then [] else [48 + word_of_nat (n div 10)]) @ [48 + word_of_nat (n mod 10)]"

definition new_part :: "nat \<Rightarrow> hdisk \<Rightarrow> u32 \<Rightarrow> partition_table_entry \<Rightarrow> nat \<Rightarrow> partition" where
  "new_part h dk ext_lba e n = \<lparr>start_lba = ext_lba + e_start_lba e, sec_cnt = e_sec_cnt e, my_disk = h, part_name = hd_name dk @ decimal n\<rparr>"

text \<open>A valid entry that is not an extended partition; the result says whether \<^verbatim>\<open>partition_scan\<close> returns at once.\<close>

definition add_partition :: "nat \<Rightarrow> u32 \<Rightarrow> partition_table_entry \<Rightarrow> 'd scan \<Rightarrow> (bool \<times> 'd scan) res" where
  "add_partition h ext_lba e s =
     (let dk = disks s h
      in if ext_lba = 0
         then let i = unat (p_no s)
              in andthen (wr (prim_parts dk) i (new_part h dk ext_lba e (i + 1))) (\<lambda>ps.
                 let s1 = s\<lparr>disks := (disks s)(h := dk\<lparr>prim_parts := ps\<rparr>), partition_list := partition_list s @ [(h, True, i)], p_no := p_no s + 1\<rparr>
                 in andthen (assert_c ''p_no < 4'' (p_no s1 < 4)) (\<lambda>_. Inr (False, s1)))
         else let i = unat (l_no s)
              in andthen (wr (logic_parts dk) i (new_part h dk ext_lba e (i + 5))) (\<lambda>ps.
                 let s1 = s\<lparr>disks := (disks s)(h := dk\<lparr>logic_parts := ps\<rparr>), partition_list := partition_list s @ [(h, False, i)], l_no := l_no s + 1\<rparr>
                 in Inr (l_no s1 \<ge> 8, s1)))"

text \<open>
  The start of \<^verbatim>\<open>partition_scan\<close> gets a block and reads a sector into it; the sector is kept beside the address of the block. A null
  pointer would be written to. The loop over the entries ends with \<^verbatim>\<open>sys_free\<close>, except for the return in the middle.
\<close>

definition scan_begin :: "'d ports \<Rightarrow> ('d drv \<Rightarrow> 'd drv) \<Rightarrow> nat \<Rightarrow> u32 \<Rightarrow> 'd scan \<Rightarrow> ((u32 \<times> u8 list) \<times> 'd scan) run" where
  "scan_begin p rest h ext_lba s =
     bindr (Some (sys_malloc 512 (sc_heap s) (sc_mem s) (drv_k (sc_drv s)))) (\<lambda>r. case r of
       Suspend m k \<Rightarrow> None
     | Return bh m k \<Rightarrow>
         if fst bh = NULL then Some (Inl NullDeref)
         else bindr (ide_read p rest (disks s h) ext_lba 1 ((sc_drv s)\<lparr>drv_k := k\<rparr>)) (\<lambda>(bytes, x).
           Some (Inr ((fst bh, bytes), s\<lparr>sc_heap := snd bh, sc_mem := m, sc_drv := x\<rparr>))))"

definition scan_end :: "u32 \<Rightarrow> 'd scan \<Rightarrow> 'd scan run" where
  "scan_end bs s =
     bindr (Some (sys_free bs (sc_heap s) (sc_mem s) (drv_k (sc_drv s)))) (\<lambda>r. case r of
       Suspend m k \<Rightarrow> None
     | Return hp m k \<Rightarrow> Some (Inr (s\<lparr>sc_heap := hp, sc_mem := m, sc_drv := (sc_drv s)\<lparr>drv_k := k\<rparr>\<rparr>)))"

partial_function (option) scan_loop :: "'d ports \<Rightarrow> ('d drv \<Rightarrow> 'd drv) \<Rightarrow> nat \<Rightarrow> u32 \<Rightarrow> u32 \<Rightarrow> u8 list \<Rightarrow> nat \<Rightarrow> 'd scan \<Rightarrow> 'd scan run" where
  "scan_loop p rest h ext_lba bs bytes part_idx s =
     (if part_idx < 4
      then if fs_type (table_entry bytes part_idx) = 0x5
           then bindr (if ext_lba_base s \<noteq> 0
                       then scan_begin p rest h (e_start_lba (table_entry bytes part_idx) + ext_lba_base s) s
                       else scan_begin p rest h (e_start_lba (table_entry bytes part_idx)) (s\<lparr>ext_lba_base := e_start_lba (table_entry bytes part_idx)\<rparr>)) (\<lambda>r.
                bindr (scan_loop p rest h (if ext_lba_base s \<noteq> 0 then e_start_lba (table_entry bytes part_idx) + ext_lba_base s
                    else e_start_lba (table_entry bytes part_idx)) (fst (fst r)) (snd (fst r)) 0 (snd r)) (\<lambda>s.
                scan_loop p rest h ext_lba bs bytes (part_idx + 1) s))
           else if fs_type (table_entry bytes part_idx) \<noteq> 0
           then bindr (Some (add_partition h ext_lba (table_entry bytes part_idx) s)) (\<lambda>r.
                if fst r then Some (Inr (snd r)) else scan_loop p rest h ext_lba bs bytes (part_idx + 1) (snd r))
           else scan_loop p rest h ext_lba bs bytes (part_idx + 1) s
      else scan_end bs s)"

definition partition_scan :: "'d ports \<Rightarrow> ('d drv \<Rightarrow> 'd drv) \<Rightarrow> nat \<Rightarrow> u32 \<Rightarrow> 'd scan \<Rightarrow> 'd scan run" where
  "partition_scan p rest h ext_lba s =
     bindr (scan_begin p rest h ext_lba s) (\<lambda>((bs, bytes), s). scan_loop p rest h ext_lba bs bytes 0 s)"

text \<open>What \<^verbatim>\<open>partition_info\<close> prints for an entry of the list.\<close>

definition partition_info :: "'d scan \<Rightarrow> nat \<times> bool \<times> nat \<Rightarrow> u8 list \<times> u32 \<times> u32" where
  "partition_info s e = (case e of (h, prim, i) \<Rightarrow>
     let part = (if prim then prim_parts (disks s h) else logic_parts (disks s h)) ! i in (part_name part, start_lba part, sec_cnt part))"

subsection \<open>Initialisation\<close>

definition channel_init :: "nat \<Rightarrow> ide_channel \<Rightarrow> ide_channel" where
  "channel_init c ch =
     (let ch = (if c = 0 then ch\<lparr>port_base := 0x1f0, irq_no := 0x20 + 14\<rparr> else if c = 1 then ch\<lparr>port_base := 0x170, irq_no := 0x20 + 15\<rparr> else ch)
      in ch\<lparr>expecting_intr := False, ch_lock := lock_init, disk_done := semaphore_init 0\<rparr>)"

text \<open>A disk of a channel is identified; the slave is scanned for partitions.\<close>

definition disk_init :: "'d ports \<Rightarrow> ('d drv \<Rightarrow> 'd drv) \<Rightarrow> nat \<Rightarrow> nat \<Rightarrow> 'd scan \<Rightarrow> 'd scan run" where
  "disk_init p rest c d s =
     (let h = 2 * c + d;
          dk = (disks s h)\<lparr>my_channel := c, dev_no := word_of_nat d, hd_name := c_string ''sd'' @ [97 + word_of_nat h]\<rparr>;
          s = s\<lparr>disks := (disks s)(h := dk)\<rparr>
      in bindr (identify_disk p rest dk (sc_drv s)) (\<lambda>(info, x).
         let s = s\<lparr>sc_drv := x\<rparr>
         in bindr (if d \<noteq> 0 then partition_scan p rest h 0 s else Some (Inr s)) (\<lambda>s.
            Some (Inr (s\<lparr>p_no := 0, l_no := 0\<rparr>)))))"

text \<open>The array \<^verbatim>\<open>channels\<close> has two elements.\<close>

fun ide_init_loop :: "'d ports \<Rightarrow> ('d drv \<Rightarrow> 'd drv) \<Rightarrow> nat \<Rightarrow> nat \<Rightarrow> 'd scan \<Rightarrow> 'd scan run" where
  "ide_init_loop p rest 0 channel_no s = Some (Inr s)"
| "ide_init_loop p rest (Suc n) channel_no s =
     (if channel_no \<ge> 2 then Some (Inl OutOfBounds)
      else bindr (disk_init p rest channel_no 0 (s\<lparr>sc_drv := upd_chan channel_no (channel_init channel_no) (sc_drv s)\<rparr>)) (\<lambda>s.
           bindr (disk_init p rest channel_no 1 s) (\<lambda>s.
           ide_init_loop p rest n (Suc channel_no) s)))"

definition ide_init :: "'d ports \<Rightarrow> ('d drv \<Rightarrow> 'd drv) \<Rightarrow> u8 \<Rightarrow> 'd scan \<Rightarrow> 'd scan run" where
  "ide_init p rest hd_cnt s =
     bindr (Some (assert_c ''hd_cnt > 0'' (hd_cnt > 0))) (\<lambda>_.
     ide_init_loop p rest ((unat hd_cnt + 1) div 2) 0 (s\<lparr>partition_list := []\<rparr>))"

subsection \<open>A table of primary partitions\<close>

text \<open>The valid entries of a table, and the entries entered one after the other.\<close>

definition used_entries :: "u8 list \<Rightarrow> partition_table_entry list" where
  "used_entries bytes = filter (\<lambda>e. fs_type e \<noteq> 0) (map (table_entry bytes) [0..<4])"

primrec add_partitions :: "nat \<Rightarrow> partition_table_entry list \<Rightarrow> 'd scan \<Rightarrow> 'd scan res" where
  "add_partitions h [] s = Inr s"
| "add_partitions h (e # es) s = andthen (add_partition h 0 e s) (\<lambda>r. add_partitions h es (snd r))"

lemma add_primary:
  assumes "add_partition h 0 e s = Inr r"
  shows "\<not> fst r"
  using assms by (auto simp: add_partition_def Let_def andthen_Inr_iff)

lemma scan_loop_entry:
  assumes "i < 4" "fs_type (table_entry bytes i) \<noteq> 5"
  shows "scan_loop p rest h 0 bs bytes i s =
    bindr (Some (add_partitions h (filter (\<lambda>e. fs_type e \<noteq> 0) [table_entry bytes i]) s)) (scan_loop p rest h 0 bs bytes (i + 1))"
proof (cases "add_partition h 0 (table_entry bytes i) s")
  case (Inr r)
  then show ?thesis
    using assms add_primary[OF Inr] by (subst scan_loop.simps) simp
qed (use assms in \<open>subst scan_loop.simps, simp\<close>)

lemma add_partitions_append: "add_partitions h (es @ fs) s = andthen (add_partitions h es s) (add_partitions h fs)"
  by (induction es arbitrary: s) (simp_all add: andthen_assoc)

lemma scan_loop_primary:
  assumes "i \<le> 4" "\<And>j. j < 4 \<Longrightarrow> fs_type (table_entry bytes j) \<noteq> 5"
  shows "scan_loop p rest h 0 bs bytes i s =
    bindr (Some (add_partitions h (filter (\<lambda>e. fs_type e \<noteq> 0) (map (table_entry bytes) [i..<4])) s)) (scan_end bs)"
  using assms(1)
proof (induction "4 - i" arbitrary: i s)
  case 0
  then show ?case
    by (subst scan_loop.simps) simp
next
  case (Suc n)
  have i: "i < 4" "[i..<4] = i # [i + 1..<4]"
    using Suc.hyps(2) by (auto simp: upt_conv_Cons)
  have "scan_loop p rest h 0 bs bytes (i + 1) s' =
      bindr (Some (add_partitions h (filter (\<lambda>e. fs_type e \<noteq> 0) (map (table_entry bytes) [i + 1..<4])) s')) (scan_end bs)" for s'
    using Suc.hyps(2) by (intro Suc.hyps(1)) auto
  then show ?case
    unfolding scan_loop_entry[OF i(1) assms(2)[OF i(1)]] i(2)
    using add_partitions_append[of h "filter (\<lambda>e. fs_type e \<noteq> 0) [table_entry bytes i]" "filter (\<lambda>e. fs_type e \<noteq> 0) (map (table_entry bytes) [i + 1..<4])" s]
    by (cases "add_partitions h (filter (\<lambda>e. fs_type e \<noteq> 0) [table_entry bytes i]) s") (auto split: if_splits)
qed

lemma add_partition_primary:
  assumes "p_no s = word_of_nat n" "n < 4" "length (prim_parts (disks s h)) = 4"
  shows "add_partition h 0 e s =
    (if n < 3
     then Inr (False, s\<lparr>disks := (disks s)(h := (disks s h)\<lparr>prim_parts := (prim_parts (disks s h))[n := new_part h (disks s h) 0 e (n + 1)]\<rparr>),
       partition_list := partition_list s @ [(h, True, n)], p_no := word_of_nat (Suc n)\<rparr>)
     else Inl (Panic ''p_no < 4''))"
proof -
  have u: "unat (p_no s) = n"
    using assms(1,2) by (simp add: unat_of_nat)
  have "n \<in> {0, 1, 2, 3}"
    using assms(2) by auto
  then have nx: "p_no s + 1 = word_of_nat (Suc n)" "(word_of_nat (Suc n) :: u8) < 4 \<longleftrightarrow> n < 3"
    using assms(1) by auto
  show ?thesis
    using assms(2,3) by (simp add: add_partition_def Let_def u nx del: of_nat_Suc)
qed

lemma add_partitions_ok:
  assumes "p_no s = word_of_nat n" "n + length es \<le> 3" "length (prim_parts (disks s h)) = 4"
  shows "\<exists>s'. add_partitions h es s = Inr s' \<and> p_no s' = word_of_nat (n + length es) \<and> length (prim_parts (disks s' h)) = 4 \<and>
    hd_name (disks s' h) = hd_name (disks s h) \<and>
    (\<forall>i < n. prim_parts (disks s' h) ! i = prim_parts (disks s h) ! i) \<and>
    (\<forall>i < length es. prim_parts (disks s' h) ! (n + i) = new_part h (disks s h) 0 (es ! i) (n + i + 1)) \<and>
    partition_list s' = partition_list s @ map (\<lambda>i. (h, True, n + i)) [0..<length es] \<and>
    sc_drv s' = sc_drv s \<and> sc_heap s' = sc_heap s \<and> sc_mem s' = sc_mem s"
  using assms
proof (induction es arbitrary: n s)
  case (Cons e es)
  let ?dk = "(disks s h)\<lparr>prim_parts := (prim_parts (disks s h))[n := new_part h (disks s h) 0 e (n + 1)]\<rparr>"
  let ?s = "s\<lparr>disks := (disks s)(h := ?dk), partition_list := partition_list s @ [(h, True, n)], p_no := word_of_nat (Suc n)\<rparr>"
  have "n < 3"
    using Cons.prems(2) by simp
  then have a: "add_partitions h (e # es) s = add_partitions h es ?s"
    using add_partition_primary[OF Cons.prems(1) _ Cons.prems(3), of e] by simp
  have p: "new_part h ?dk 0 f m = new_part h (disks s h) 0 f m" for f m
    by (simp add: new_part_def)
  obtain s' where s': "add_partitions h es ?s = Inr s'" "p_no s' = word_of_nat (Suc n + length es)" "length (prim_parts (disks s' h)) = 4"
    "hd_name (disks s' h) = hd_name (disks s h)" "\<forall>i < Suc n. prim_parts (disks s' h) ! i = prim_parts ?dk ! i"
    "\<forall>i < length es. prim_parts (disks s' h) ! (Suc n + i) = new_part h (disks s h) 0 (es ! i) (Suc n + i + 1)"
    "partition_list s' = (partition_list s @ [(h, True, n)]) @ map (\<lambda>i. (h, True, Suc n + i)) [0..<length es]"
    "sc_drv s' = sc_drv s" "sc_heap s' = sc_heap s" "sc_mem s' = sc_mem s"
    using Cons.IH[of ?s "Suc n"] Cons.prems p by (auto simp del: of_nat_Suc of_nat_add)
  have "prim_parts (disks s' h) ! (n + i) = new_part h (disks s h) 0 ((e # es) ! i) (n + i + 1)" if "i < length (e # es)" for i
  proof (cases i)
    case 0
    then show ?thesis
      using s'(5) \<open>n < 3\<close> Cons.prems(3) by simp
  next
    case (Suc j)
    then show ?thesis
      using s'(6) that by simp
  qed
  moreover have "map (\<lambda>i. (h, True, n + i)) [0..<length (e # es)] = (h, True, n) # map (\<lambda>i. (h, True, Suc n + i)) [0..<length es]"
    by (simp add: upt_conv_Cons map_Suc_upt[symmetric] del: upt_Suc)
  ultimately show ?case
    using s' a by (intro exI[of _ s']) (simp del: upt_Suc)
qed simp

lemma add_partitions_panics:
  assumes "p_no s = word_of_nat n" "n < 4" "4 \<le> n + length es" "length (prim_parts (disks s h)) = 4"
  shows "add_partitions h es s = Inl (Panic ''p_no < 4'')"
  using assms
proof (induction es arbitrary: n s)
  case (Cons e es)
  show ?case
  proof (cases "n < 3")
    case True
    then show ?thesis
      using add_partition_primary[OF Cons.prems(1,2,4), of e] Cons.prems Cons.IH[where n = "Suc n"] by (simp del: of_nat_Suc)
  next
    case False
    then show ?thesis
      using add_partition_primary[OF Cons.prems(1,2,4), of e] by simp
  qed
qed simp

text \<open>The kernel when a disk is scanned: the heap and the driver are in order, and no primary partition has been counted.\<close>

definition scan_ok :: "('d \<Rightarrow> ata) \<Rightarrow> u16 \<Rightarrow> nat \<Rightarrow> u32 \<Rightarrow> ata \<Rightarrow> u32 set \<Rightarrow> (u32 \<Rightarrow> nat option) \<Rightarrow> 'd scan \<Rightarrow> bool" where
  "scan_ok view base c t a P L s \<longleftrightarrow> heap_inv PF_KERNEL kernel_pages P L (sc_heap s) (sc_mem s) \<and> now_pg_dir (sc_mem s) = NULL \<and>
     pool_lock (kernel_pool (sc_mem s)) = lock_init \<and> 512 < pool_size (kernel_pool (sc_mem s)) \<and>
     drv_free view base c t lock_init a (sc_drv s) \<and> phase a = Idle \<and> wf_ata a"

lemma scan_ok_running: "scan_ok view base c t a P L s \<Longrightarrow> running_thread (drv_k (sc_drv s)) \<noteq> NULL"
  using sched_inv_running_not_NULL by (auto simp: scan_ok_def drv_free_def kern_ok_def Let_def)

lemma scan_begin_cases:
  assumes ctl: "ata_channel p base view sect" "rely p view base sect c t rest" "c < 2" "1 \<le> sect"
    and s: "scan_ok view base c t a P L s" "my_channel (disks s h) = c" and lba: "unat lba < 163840"
  obtains (full) "scan_begin p rest h lba s = Some (Inl NullDeref)"
  | (got) b hp m y a' P' L' where
      "scan_begin p rest h lba s = Some (Inr ((b, sectors a (dev_no (disks s h) = 1) (unat lba)), s\<lparr>sc_heap := hp, sc_mem := m, sc_drv := y\<rparr>))"
      "heap_inv PF_KERNEL kernel_pages P' L' hp m" "now_pg_dir m = NULL" "pool_lock (kernel_pool m) = lock_init"
      "b \<notin> allocated PF_KERNEL L (sc_heap s)" "allocated PF_KERNEL L' hp = insert b (allocated PF_KERNEL L (sc_heap s))"
      "drv_free view base c t lock_init a' y" "phase a' = Idle" "sectors a' = sectors a"
proof -
  have m: "heap_inv PF_KERNEL kernel_pages P L (sc_heap s) (sc_mem s)" "own_pool (sc_mem s) = PF_KERNEL"
    "pool_lock (pool_of PF_KERNEL (sc_mem s)) = lock_init" "512 < pool_size (pool_of PF_KERNEL (sc_mem s))"
    "drv_free view base c t lock_init a (sc_drv s)" "phase a = Idle" "wf_ata a"
    using s(1) by (auto simp: scan_ok_def own_pool_def)
  obtain b hp m' where r: "sys_malloc 512 (sc_heap s) (sc_mem s) (drv_k (sc_drv s)) = Inr (Return (b, hp) m' (drv_k (sc_drv s)))"
    "own_pool m' = PF_KERNEL" "pool_lock (pool_of PF_KERNEL m') = lock_init"
    "b \<noteq> NULL \<Longrightarrow> granted PF_KERNEL kernel_pages 512 P L (sc_heap s) (sc_mem s) b hp m'"
    using kpool.sys_malloc_small[OF m(1-3) scan_ok_running[OF s(1)] _ _ m(4)] by (auto split: if_splits)
  obtain y a' where y: "ide_read p rest (disks s h) lba 1 (sc_drv s) = Some (Inr (sectors a (dev_no (disks s h) = 1) (unat lba), y))"
    "drv_free view base c t lock_init a' y" "phase a' = Idle" "sectors a' = sectors a"
    using disk_client.read_ok[OF disk_client.intro[OF ctl(1) disk_client_axioms.intro[OF ctl(3,2)]] m(5-7) s(2), of 1 lba] lba ctl(4)
    by (auto simp: sector_data_def)
  show thesis
  proof (cases "b = NULL")
    case True
    then show thesis
      using full r(1) by (simp add: scan_begin_def)
  next
    case False
    from r(4)[OF False] obtain P' L' where g: "heap_inv PF_KERNEL kernel_pages P' L' hp m'" "b \<notin> allocated PF_KERNEL L (sc_heap s)"
      "allocated PF_KERNEL L' hp = insert b (allocated PF_KERNEL L (sc_heap s))"
      unfolding granted_def by (elim exE conjE) (rule that)
    have "scan_begin p rest h lba s = Some (Inr ((b, sectors a (dev_no (disks s h) = 1) (unat lba)), s\<lparr>sc_heap := hp, sc_mem := m', sc_drv := y\<rparr>))"
      using r(1) y(1) False by (simp add: scan_begin_def)
    moreover have "now_pg_dir m' = NULL" "pool_lock (kernel_pool m') = lock_init"
      using r(2,3) by (auto simp: own_pool_def split: if_splits)
    ultimately show thesis
      using got[OF _ g(1) _ _ g(2,3) y(2-4)] by blast
  qed
qed

definition scan0 :: "u8 list \<Rightarrow> (ata \<times> ata) scan" where
  "scan0 bytes = \<lparr>sc_drv = drv0\<lparr>io := (ata0\<lparr>sectors := (\<lambda>s i. if i = 0 then bytes else replicate 512 0)\<rparr>, ata0)\<rparr>, sc_heap = heapk, sc_mem = memk,
     disks = (\<lambda>h. sdb0\<lparr>prim_parts := replicate 4 \<lparr>start_lba = 0, sec_cnt = 0, my_disk = 0, part_name = []\<rparr>\<rparr>), p_no = 0, l_no = 0,
     ext_lba_base = 0, partition_list = []\<rparr>"

lemma scan0_ok:
  assumes "length bytes = 512"
  shows "scan_ok (chan_view 0) (chan_base 0) 0 0x1000 (ata0\<lparr>sectors := (\<lambda>s i. if i = 0 then bytes else replicate 512 0)\<rparr>) {} Map.empty (scan0 bytes)"
    "my_channel (disks (scan0 bytes) 1) = 0" "p_no (scan0 bytes) = 0" "length (prim_parts (disks (scan0 bytes) 1)) = 4" "dev_no (disks (scan0 bytes) 1) = 1"
proof -
  have "now_pg_dir memk = NULL" "pool_lock (kernel_pool memk) = lock_init" "512 < pool_size (kernel_pool memk)"
    by (simp_all add: memk_def mem0_def)
  moreover have "drv_free (chan_view 0) (chan_base 0) 0 0x1000 lock_init (ata0\<lparr>sectors := f\<rparr>) (drv0\<lparr>io := (ata0\<lparr>sectors := f\<rparr>, ata0)\<rparr>)" for f
    using drv0_free(1) by (simp add: drv_free_def Let_def chan_view_def)
  ultimately show "scan_ok (chan_view 0) (chan_base 0) 0 0x1000 (ata0\<lparr>sectors := (\<lambda>s i. if i = 0 then bytes else replicate 512 0)\<rparr>) {} Map.empty (scan0 bytes)"
    using heapk_inv drv0_free(2) assms by (simp add: scan_ok_def scan0_def wf_ata_def)
qed (simp_all add: scan0_def sdb0_def)



text \<open>
  A table with four primary partitions stops the kernel: \<^verbatim>\<open>partition_scan\<close> counts the partition first and then asserts that the count is below 4, so
  the fourth one, for which the array has room, fails the assertion.
\<close>

theorem partition_scan_four_primary_panics:
  assumes "ata_channel p base view sect" "rely p view base sect c t rest" "c < 2" "1 \<le> sect"
    and s: "scan_ok view base c t a P L s" "my_channel (disks s h) = c" "p_no s = 0" "length (prim_parts (disks s h)) = 4"
    and es: "\<And>j. j < 4 \<Longrightarrow> fs_type (table_entry (sectors a (dev_no (disks s h) = 1) 0) j) \<notin> {0, 5}"
  shows "partition_scan p rest h 0 s \<in> {Some (Inl NullDeref), Some (Inl (Panic ''p_no < 4''))}"
proof (cases rule: scan_begin_cases[OF assms(1-4) s(1,2), of 0, simplified, case_names full got])
  case full
  then show ?thesis
    by (simp add: partition_scan_def)
next
  case (got b hp m y a' P' L')
  let ?s = "s\<lparr>sc_heap := hp, sc_mem := m, sc_drv := y\<rparr>" and ?b = "sectors a (dev_no (disks s h) = 1) 0"
  have "filter (\<lambda>e. fs_type e \<noteq> 0) (map (table_entry ?b) [0..<4]) = map (table_entry ?b) [0..<4]"
    using es by (auto simp: filter_id_conv)
  then have "scan_loop p rest h 0 b ?b 0 ?s = Some (Inl (Panic ''p_no < 4''))"
    using scan_loop_primary[of 0 ?b p rest h b ?s] es add_partitions_panics[of ?s 0 "map (table_entry ?b) [0..<4]" h] s(3,4) by simp
  then show ?thesis
    using got(1) by (simp add: partition_scan_def)
qed

theorem partition_scan_four_primary_panics_witness:
  "partition_scan pc_ports (rest_pc 0 0x1000) 1 0 (scan0 (replicate 512 1)) \<in> {Some (Inl NullDeref), Some (Inl (Panic ''p_no < 4''))}"
proof -
  have "fs_type (table_entry (replicate 512 1) j) \<notin> {0, 5}" if "j < 4" for j
    using that by (simp add: table_entry_def)
  then show ?thesis
    using partition_scan_four_primary_panics[OF pc_channel pc_rely _ _ scan0_ok(1-4)[of "replicate 512 1"]] by simp
qed

end
