(* ===== verification/Fsfunc.thy ===== *)
theory Fsfunc
  imports Files
begin

text \<open>
  The operations of the file system and its command dialogue (\<^verbatim>\<open>src/filesystem/fsfunc.c\<close>): building the tree from the
  volume, looking up, creating, writing, reading, appending and deleting files and directories, changing the
  directory, and the shell commands over them. The characters typed and printed are part of the state.
\<close>

subsection \<open>Input\<close>

definition is_space :: "u8 \<Rightarrow> bool" where
  "is_space c \<longleftrightarrow> c = 0xA \<or> c = 0xD \<or> c = 0x20"

text \<open>
  \<^verbatim>\<open>scanf("%s", b)\<close> reads a word into the local array of 1000 characters of \<^verbatim>\<open>vscanf\<close> and copies it to \<open>b\<close>; it waits for ever
  when no more is typed. \<^verbatim>\<open>scanf("%d", &x)\<close> converts the word.
\<close>

definition scan_word :: "fs \<Rightarrow> (u8 list \<times> fs) run" where
  "scan_word s =
     (let w = takeWhile (\<lambda>c. \<not> is_space c) (inp s); r = dropWhile (\<lambda>c. \<not> is_space c) (inp s)
      in if r = [] then None
         else if 1000 \<le> length w then Some (Inl OutOfBounds)
         else Some (Inr (takeWhile (\<lambda>c. c \<noteq> 0) w, s\<lparr>inp := tl r\<rparr>)))"

definition scan_str :: "u8 list \<Rightarrow> fs \<Rightarrow> (u8 list \<times> fs) run" where
  "scan_str b s = bindr (scan_word s) (\<lambda>(w, s). bindr (Some (put_str 0 w b)) (\<lambda>b. Some (Inr (b, s))))"

definition scan_int :: "fs \<Rightarrow> (u32 \<times> fs) run" where
  "scan_int s = bindr (scan_word s) (\<lambda>(w, s). Some (Inr (foldl digit_value 0 w, s)))"

definition say :: "string \<Rightarrow> fs \<Rightarrow> fs" where
  "say t s = print (c_string t @ [0xA]) s"

subsection \<open>The tree\<close>

text \<open>
  \<^verbatim>\<open>build_tree\<close> with its loops as one recursion: with \<open>None\<close> the run is at the head of the outer loop, with \<open>Some (buff, i)\<close>
  it is at entry \<open>i\<close> of the sector just read.
\<close>

partial_function (option) build_tree_loop ::
  "fptr \<Rightarrow> u16 \<Rightarrow> u16 \<Rightarrow> (u8 list \<times> nat) option \<Rightarrow> fptr \<Rightarrow> fptr \<Rightarrow> fs \<Rightarrow> (fptr \<times> fs) run" where
  "build_tree_loop fa clusID secID b head now s =
     (case b of
        None \<Rightarrow>
          if clusID = 0 \<and> secID = 33 then Some (Inr (head, s))
          else if clusID \<noteq> 0 \<and> end_mark clusID then Some (Inr (head, s))
          else bindr (Some (read_sector secID (vol s))) (\<lambda>buff. build_tree_loop fa clusID secID (Some (buff, 0)) head now s)
      | Some (buff, i) \<Rightarrow>
          if 512 \<le> i
          then (if clusID = 0 then build_tree_loop fa clusID (secID + 1) None head now s
                else bindr (Some (on_vol (get_fat_next_cluster clusID) s)) (\<lambda>(c, s).
                       build_tree_loop fa c (c + ClusToSec) None head now s))
          else bindr (Some (rd buff i)) (\<lambda>c0.
            if c0 = 0xE5 \<or> c0 = 0 then build_tree_loop fa clusID secID (Some (buff, i + 32)) head now s
            else bindr (Some (make_file_from_sector fa buff i s)) (\<lambda>(new, s).
              bindr (Some (if now = FNull then Inr s else fupd now (\<lambda>f. f\<lparr>NextSib := new\<rparr>) s)) (\<lambda>s.
              let head = (if now = FNull then new else head)
              in bindr (Some (fget new s)) (\<lambda>f.
                 bindr (Some (rd (Filename f) 0)) (\<lambda>n0.
                 if Attr f = 0x10 \<and> n0 \<noteq> 0x2E
                 then bindr (build_tree_loop new (FstClus f) (if FstClus f = 0 then 19 else FstClus f + ClusToSec) None FNull FNull s) (\<lambda>(son, s).
                        bindr (Some (fupd new (\<lambda>f. f\<lparr>FstSon := son\<rparr>) s)) (\<lambda>s.
                        build_tree_loop fa clusID secID (Some (buff, i + 32)) head new s))
                 else build_tree_loop fa clusID secID (Some (buff, i + 32)) head new s))))))"

definition build_tree :: "fptr \<Rightarrow> u16 \<Rightarrow> fs \<Rightarrow> (fptr \<times> fs) run" where
  "build_tree fa clusID s = build_tree_loop fa clusID (if clusID = 0 then 19 else clusID + ClusToSec) None FNull FNull s"

definition build_all_tree :: "fs \<Rightarrow> fs run" where
  "build_all_tree s = bindr (build_tree FRoot 0 s) (\<lambda>(son, s). Some (fupd FRoot (\<lambda>f. f\<lparr>FstSon := son\<rparr>) s))"

partial_function (option) list_loop :: "fptr \<Rightarrow> bool \<Rightarrow> fs \<Rightarrow> fs run" where
  "list_loop now ShowHid s =
     (if now = FNull then Some (Inr s)
      else bindr (Some (file_print_all now ShowHid s)) (\<lambda>s. bindr (Some (fget now s)) (\<lambda>f. list_loop (NextSib f) ShowHid s)))"

definition list_directory :: "fptr \<Rightarrow> bool \<Rightarrow> fs \<Rightarrow> fs run" where
  "list_directory dir ShowHid s = bindr (Some (fget dir s)) (\<lambda>d. list_loop (FstSon d) ShowHid s)"

text \<open>The line \<^verbatim>\<open>tree_directory_with_spacenum\<close> prints for one file, and whether it goes on to the sons.\<close>

definition tree_line :: "u32 \<Rightarrow> File \<Rightarrow> bool \<Rightarrow> u32 \<Rightarrow> fs \<Rightarrow> (bool \<times> fs) res" where
  "tree_line SpaceNum f ShowHid maxLayer s =
     andthen (rd (Filename f) 0) (\<lambda>n0.
     if \<not> used f \<or> n0 = 0x2E \<or> (\<not> ShowHid \<and> Attr f = 0x02) then Inr (False, s)
     else andthen (file_print_name f) (\<lambda>name.
       let s = print (replicate (unat SpaceNum) 0x20 @ c_string ''|---'' @ name @ [0xA]) s
       in Inr (SpaceNum \<noteq> (maxLayer - 1) * 4, s)))"

text \<open>\<open>tree_nodes\<close> handles a file, its sons and, with \<open>sibs\<close>, the siblings behind it.\<close>

partial_function (option) tree_nodes :: "bool \<Rightarrow> u32 \<Rightarrow> fptr \<Rightarrow> bool \<Rightarrow> u32 \<Rightarrow> fs \<Rightarrow> fs run" where
  "tree_nodes sibs SpaceNum p ShowHid maxLayer s =
     (if sibs \<and> p = FNull then Some (Inr s)
      else bindr (Some (fget p s)) (\<lambda>f.
        bindr (Some (tree_line SpaceNum f ShowHid maxLayer s)) (\<lambda>(go, s).
        bindr (if go then tree_nodes True (SpaceNum + 4) (FstSon f) ShowHid maxLayer s else Some (Inr s)) (\<lambda>s.
        if sibs then bindr (Some (fget p s)) (\<lambda>f. tree_nodes True SpaceNum (NextSib f) ShowHid maxLayer s) else Some (Inr s)))))"

definition tree_directory_with_spacenum :: "u32 \<Rightarrow> fptr \<Rightarrow> bool \<Rightarrow> u32 \<Rightarrow> fs \<Rightarrow> fs run" where
  "tree_directory_with_spacenum = tree_nodes False"

definition tree_directory :: "fptr \<Rightarrow> bool \<Rightarrow> u32 \<Rightarrow> fs \<Rightarrow> fs run" where
  "tree_directory dir ShowHid maxLayer s =
     bindr (Some (fget dir s)) (\<lambda>d. tree_nodes True 0 (FstSon d) ShowHid maxLayer (print [0x2E, 0xA] s))"

text \<open>The comparison of the 11 characters of two names.\<close>

fun same_name :: "nat \<Rightarrow> nat \<Rightarrow> u8 list \<Rightarrow> u8 list \<Rightarrow> bool res" where
  "same_name 0 i a b = Inr True"
| "same_name (Suc n) i a b =
     andthen (rd a i) (\<lambda>x. andthen (rd b i) (\<lambda>y. if x \<noteq> y then Inr False else same_name n (Suc i) a b))"

partial_function (option) find_sibling :: "fptr \<Rightarrow> u8 list \<Rightarrow> fs \<Rightarrow> fptr run" where
  "find_sibling now filename s =
     (if now = FNull then Some (Inr FNull)
      else bindr (Some (fget now s)) (\<lambda>f.
        bindr (Some (same_name 11 0 (Filename f) filename)) (\<lambda>same.
        if same then Some (Inr now) else find_sibling (NextSib f) filename s)))"

definition is_file_exist :: "fptr \<Rightarrow> u8 list \<Rightarrow> fs \<Rightarrow> fptr run" where
  "is_file_exist dir filename s = bindr (Some (fget dir s)) (\<lambda>d. find_sibling (FstSon d) filename s)"

definition change_directory :: "fptr \<Rightarrow> u8 list \<Rightarrow> fs \<Rightarrow> fptr run" where
  "change_directory dir subdirname s =
     bindr (Some (arr_strcmp subdirname (lit ''.          ''))) (\<lambda>r.
     if r = 0 then Some (Inr dir)
     else bindr (Some (arr_strcmp subdirname (lit ''..         ''))) (\<lambda>r.
       bindr (Some (fget dir s)) (\<lambda>d.
       if r = 0 then Some (Inr (Fa d)) else find_sibling (FstSon d) subdirname s)))"

subsection \<open>Creating\<close>

text \<open>The answer when the name is taken; the tests of the attribute are the ones of the code.\<close>

definition name_taken :: "fptr \<Rightarrow> fs \<Rightarrow> (bool \<times> fs) res" where
  "name_taken p s = andthen (fget p s) (\<lambda>f. Inr (False,
     say (if Attr f = 0x20 then ''There is a directory with the same name in this path.'' else ''There is a file with the same name in this path'') s))"

definition create_empty_file :: "fptr \<Rightarrow> u8 list \<Rightarrow> u8 \<Rightarrow> u16 \<Rightarrow> u16 \<Rightarrow> fs \<Rightarrow> (bool \<times> fs) run" where
  "create_empty_file dir name attr wrttime wrtdate s =
     bindr (is_file_exist dir name s) (\<lambda>p.
     if p \<noteq> FNull then Some (name_taken p s)
     else bindr (Some (on_vol find_empty_cluster s)) (\<lambda>(clusID, s).
       if uint clusID = - 1 then Some (Inr (False, s))
       else bindr (Some (get_empty_file s)) (\<lambda>(file, s).
         bindr (Some (init_file file dir name attr wrttime wrtdate clusID 0 s)) (\<lambda>s.
         bindr (create_dir_entry dir file s) (\<lambda>(b, s).
         if \<not> b then bindr (Some (fupd file (\<lambda>f. f\<lparr>used := False\<rparr>) s)) (\<lambda>s. Some (Inr (False, s)))
         else bindr (Some (vol_do (write_fat_next_cluster clusID 0xFFF) s)) (\<lambda>s.
           bindr (Some (fget dir s)) (\<lambda>d.
           bindr (Some (fupd file (\<lambda>f. f\<lparr>NextSib := FstSon d\<rparr>) s)) (\<lambda>s.
           bindr (Some (fupd dir (\<lambda>f. f\<lparr>FstSon := file\<rparr>) s)) (\<lambda>s. Some (Inr (True, s)))))))))))"

definition create_empty_directory :: "fptr \<Rightarrow> u8 list \<Rightarrow> u16 \<Rightarrow> u16 \<Rightarrow> fs \<Rightarrow> (bool \<times> fs) run" where
  "create_empty_directory dir name wrttime wrtdate s =
     bindr (is_file_exist dir name s) (\<lambda>p.
     if p \<noteq> FNull then Some (name_taken p s)
     else bindr (Some (on_vol find_empty_cluster s)) (\<lambda>(clusID, s).
       if uint clusID = - 1 then Some (Inr (False, s))
       else bindr (Some (get_empty_file s)) (\<lambda>(subdir, s).
         bindr (Some (init_file subdir dir name 0x10 wrttime wrtdate clusID 0 s)) (\<lambda>s.
         bindr (create_dir_entry dir subdir s) (\<lambda>(b, s).
         if \<not> b then bindr (Some (fupd subdir (\<lambda>f. f\<lparr>used := False\<rparr>) s)) (\<lambda>s. Some (Inr (False, s)))
         else bindr (Some (vol_do (write_fat_next_cluster clusID 0xFFF) s)) (\<lambda>s.
           bindr (write_empty_directory dir subdir s) (\<lambda>(b, s).
           if \<not> b then bindr (Some (fupd subdir (\<lambda>f. f\<lparr>used := False\<rparr>) s)) (\<lambda>s. Some (Inr (False, s)))
           else bindr (Some (fget dir s)) (\<lambda>d.
             bindr (Some (fupd subdir (\<lambda>f. f\<lparr>NextSib := FstSon d\<rparr>) s)) (\<lambda>s.
             bindr (Some (fupd dir (\<lambda>f. f\<lparr>FstSon := subdir\<rparr>) s)) (\<lambda>s. Some (Inr (True, s))))))))))))"

subsection \<open>Writing and reading\<close>

text \<open>
  Taking the next cluster of the file, or a new one behind its last, and a new buffer node: the code between
  \<^verbatim>\<open>int newClusID\<close> and \<^verbatim>\<open>now = now->next\<close> of the writing functions. The flag is false where they return false.
\<close>

definition next_cluster_node :: "nat option \<Rightarrow> u16 \<Rightarrow> fs \<Rightarrow> (bool \<times> nat option \<times> u16 \<times> fs) res" where
  "next_cluster_node now clusID s =
     andthen (on_vol (get_fat_next_cluster clusID) s) (\<lambda>(c, s).
     andthen (if end_mark c then on_vol (append_a_cluster clusID) s else Inr (c, s)) (\<lambda>(newClus, s).
     if uint newClus = - 1 then Inr (False, now, clusID, s)
     else andthen (get_empty_AFBLNode s) (\<lambda>(n, s).
       andthen (node_upd now (\<lambda>x. x\<lparr>n_next := n\<rparr>) s) (\<lambda>s.
       Inr (if n = None then (False, now, newClus, s) else (True, n, newClus, s))))))"

text \<open>
  The loop of \<^verbatim>\<open>write_file\<close> over the rest of the text. At the last byte of a sector it also writes \<^verbatim>\<open>buff[512]\<close>, one byte
  behind its local array.
\<close>

fun write_file_loop :: "u8 list \<Rightarrow> nat \<Rightarrow> nat \<Rightarrow> u8 list \<Rightarrow> nat option \<Rightarrow> u16 \<Rightarrow> fs \<Rightarrow>
    (bool \<times> nat \<times> nat \<times> u8 list \<times> nat option \<times> u16 \<times> fs) res" where
  "write_file_loop [] ix cnt buff now clusID s = Inr (True, ix, cnt, buff, now, clusID, s)"
| "write_file_loop (c # cs) ix cnt buff now clusID s =
     andthen (if ix < BytePerSec then wr buff ix c else Inr buff) (\<lambda>buff.
     if ix = BytePerSec - 1
     then andthen (wr buff (ix + 1) 0) (\<lambda>buff.
       andthen (if cnt + 1 > 1 then next_cluster_node now clusID s else Inr (True, now, clusID, s)) (\<lambda>(ok, now, clusID, s).
       if \<not> ok then Inr (False, ix, cnt + 1, buff, now, clusID, s)
       else andthen (init_AFBLNode now buff None s) (\<lambda>s. write_file_loop cs ((ix + 1) mod BytePerSec) (cnt + 1) buff now clusID s)))
     else write_file_loop cs ((ix + 1) mod BytePerSec) cnt buff now clusID s)"

text \<open>The part of \<^verbatim>\<open>write_file\<close> after the loop: the last sector is filled up with zeros.\<close>

definition write_file_rest :: "nat \<Rightarrow> nat \<Rightarrow> u8 list \<Rightarrow> nat option \<Rightarrow> u16 \<Rightarrow> fs \<Rightarrow> (bool \<times> u16 \<times> fs) res" where
  "write_file_rest ix cnt buff now clusID s =
     (if 0 < ix
      then andthen (fill_bytes (BytePerSec - ix) ix 0 buff) (\<lambda>buff.
        andthen (if cnt + 1 > 1 then next_cluster_node now clusID s else Inr (True, now, clusID, s)) (\<lambda>(ok, now, clusID, s).
        if \<not> ok then Inr (False, clusID, s)
        else andthen (init_AFBLNode now buff None s) (\<lambda>s. Inr (True, clusID, s))))
      else Inr (True, clusID, s))"

text \<open>The local arrays \<^verbatim>\<open>buff\<close> and \<^verbatim>\<open>s\<close> are not initialised by the code; they are written before they are read.\<close>

definition write_file :: "nat option \<Rightarrow> fs \<Rightarrow> (bool \<times> fs) run" where
  "write_file acfile s =
     bindr (Some (ac_get acfile s)) (\<lambda>a.
     if a_Type a = ReadOnly then Some (Inr (False, s))
     else bindr (Some (get_empty_AFBLNode s)) (\<lambda>(now, s).
       bindr (Some (ac_upd acfile (\<lambda>a. a\<lparr>a_head := now\<rparr>) s)) (\<lambda>s.
       bindr (Some (fget (a_file a) s)) (\<lambda>f.
       bindr (scan_str (replicate 1024 0) (print (c_string ''Please enter content: '' @ [0xA]) s)) (\<lambda>(b, s).
       bindr (Some (str_of b)) (\<lambda>t.
       bindr (Some (write_file_loop t 0 0 (replicate 512 0) now (FstClus f) s)) (\<lambda>(ok, ix, cnt, buff, now, clusID, s).
       if \<not> ok then Some (Inr (False, s))
       else bindr (Some (write_file_rest ix cnt buff now clusID s)) (\<lambda>(ok, clusID, s).
         if \<not> ok then Some (Inr (False, s))
         else bindr (Some (vol_do (write_fat_next_cluster clusID 0xFFF) s)) (\<lambda>s.
           bindr (Some (ac_upd acfile (\<lambda>a. a\<lparr>a_buffsize := word_of_nat (length t)\<rparr>) s)) (\<lambda>s. Some (Inr (True, s))))))))))))"

text \<open>
  The loop of \<^verbatim>\<open>write_file_from_sda\<close>: \<open>n\<close> sectors from number \<open>i\<close> on. \<open>sda\<close> is the content of the first disk, which
  \<^verbatim>\<open>read_disk\<close> reads.
\<close>

fun from_sda_loop :: "(nat \<Rightarrow> u8 list) \<Rightarrow> nat \<Rightarrow> nat \<Rightarrow> nat option \<Rightarrow> u16 \<Rightarrow> fs \<Rightarrow> (bool \<times> fs) res" where
  "from_sda_loop sda 0 i now clusID s = Inr (True, s)"
| "from_sda_loop sda (Suc n) i now clusID s =
     andthen (if 1 \<le> i then next_cluster_node now clusID s else Inr (True, now, clusID, s)) (\<lambda>(ok, now, clusID, s).
     if \<not> ok then Inr (False, s)
     else andthen (init_AFBLNode now (sda (300 + i)) None s) (\<lambda>s. from_sda_loop sda n (i + 1) now clusID s))"

definition write_file_from_sda :: "(nat \<Rightarrow> u8 list) \<Rightarrow> nat option \<Rightarrow> u32 \<Rightarrow> fs \<Rightarrow> (bool \<times> fs) res" where
  "write_file_from_sda sda acfile filesize s =
     andthen (ac_get acfile s) (\<lambda>a.
     if a_Type a = ReadOnly then Inr (False, s)
     else andthen (get_empty_AFBLNode s) (\<lambda>(now, s).
       andthen (ac_upd acfile (\<lambda>a. a\<lparr>a_head := now\<rparr>) s) (\<lambda>s.
       andthen (fget (a_file a) s) (\<lambda>f.
       andthen (from_sda_loop sda (unat ((filesize + 511) div 512)) 0 now (FstClus f) s) (\<lambda>(ok, s).
       if \<not> ok then Inr (False, s)
       else andthen (ac_upd acfile (\<lambda>a. a\<lparr>a_buffsize := filesize\<rparr>) s) (\<lambda>s. Inr (True, s)))))))"

text \<open>The inner loop of \<^verbatim>\<open>read_file\<close>: the bytes printed and the count, which stops at the size of the file.\<close>

fun print_sector :: "u8 list \<Rightarrow> u32 \<Rightarrow> u32 \<Rightarrow> u8 list \<times> u32" where
  "print_sector [] sz fsize = ([], sz)"
| "print_sector (c # cs) sz fsize =
     (if sz + 1 = fsize then (printf_c c, sz + 1)
      else let (t, n) = print_sector cs (sz + 1) fsize in (printf_c c @ t, n))"

partial_function (option) read_file_loop :: "fptr \<Rightarrow> u16 \<Rightarrow> u32 \<Rightarrow> fs \<Rightarrow> fs run" where
  "read_file_loop file clusID sz s =
     (if end_mark clusID then Some (Inr s)
      else bindr (Some (read_sector (clusID + ClusToSec) (vol s))) (\<lambda>buff.
        bindr (Some (fget file s)) (\<lambda>f.
        let (t, sz) = print_sector buff sz (FileSize f)
        in bindr (Some (on_vol (get_fat_next_cluster clusID) (print t s))) (\<lambda>(c, s). read_file_loop file c sz s))))"

definition read_file :: "nat option \<Rightarrow> fs \<Rightarrow> fs run" where
  "read_file acfile s =
     bindr (Some (ac_get acfile s)) (\<lambda>a.
     bindr (Some (fget (a_file a) s)) (\<lambda>f.
     bindr (read_file_loop (a_file a) (FstClus f) 0 s) (\<lambda>s. Some (Inr (print [0xA] s)))))"

subsection \<open>Deleting\<close>

partial_function (option) unlink_loop :: "fptr \<Rightarrow> fptr \<Rightarrow> fptr \<Rightarrow> fptr \<Rightarrow> bool \<Rightarrow> fs \<Rightarrow> (bool \<times> fs) run" where
  "unlink_loop fa file now pre found s =
     (if now = FNull then Some (Inr (found, s))
      else bindr (Some (fget now s)) (\<lambda>f.
        bindr (Some (if now = file then (if pre \<noteq> FNull then fupd pre (\<lambda>p. p\<lparr>NextSib := NextSib f\<rparr>) s
                                         else fupd fa (\<lambda>p. p\<lparr>FstSon := NextSib f\<rparr>) s)
                     else Inr s)) (\<lambda>s.
        bindr (Some (fget now s)) (\<lambda>f. unlink_loop fa file (NextSib f) now (found \<or> now = file) s))))"

definition delete_file_from_fa :: "fptr \<Rightarrow> fptr \<Rightarrow> fs \<Rightarrow> (bool \<times> fs) run" where
  "delete_file_from_fa fa file s =
     bindr (Some (fget fa s)) (\<lambda>d.
     bindr (unlink_loop fa file (FstSon d) FNull False s) (\<lambda>(found, s).
     if found then Some (Inr (True, s))
     else bindr (Some (fget file s)) (\<lambda>f.
       Some (Inr (False, say (if Attr f = 0x10 then ''No such directory in this path.'' else ''No such file in this directory.'') s)))))"

definition delete_file :: "fptr \<Rightarrow> fptr \<Rightarrow> fs \<Rightarrow> (bool \<times> fs) run" where
  "delete_file dir file s =
     bindr (delete_file_from_fa dir file s) (\<lambda>(b, s).
     if \<not> b then Some (Inr (False, s))
     else bindr (clear_file file s) (\<lambda>s.
       bindr (Some (fupd file (\<lambda>f. f\<lparr>used := False\<rparr>) s)) (\<lambda>s. Some (Inr (True, s)))))"

partial_function (option) is_dir_empty_loop :: "fptr \<Rightarrow> fs \<Rightarrow> bool run" where
  "is_dir_empty_loop son s =
     (if son = FNull then Some (Inr False)
      else bindr (Some (fget son s)) (\<lambda>f. bindr (Some (rd (Filename f) 0)) (\<lambda>n0.
        if n0 \<noteq> 0x2E then Some (Inr False) else is_dir_empty_loop (NextSib f) s)))"

definition is_dir_empty :: "fptr \<Rightarrow> fs \<Rightarrow> bool run" where
  "is_dir_empty dir s = bindr (Some (fget dir s)) (\<lambda>d. is_dir_empty_loop (FstSon d) s)"

text \<open>
  \<^verbatim>\<open>delete_directory\<close> with its loop as one recursion: \<open>Inl (fa, dir, rc)\<close> is a call, \<open>Inr (dir, son)\<close> the loop over the
  sons from \<open>son\<close> on.
\<close>

partial_function (option) delete_directory_run :: "fptr \<times> fptr \<times> bool + fptr \<times> fptr \<Rightarrow> fs \<Rightarrow> (bool \<times> fs) run" where
  "delete_directory_run c s =
     (case c of
        Inl (fa, dir, rc) \<Rightarrow>
          bindr (if rc then Some (Inr False) else is_dir_empty dir s) (\<lambda>emp.
          if emp then Some (Inr (False, say ''Error: This directory is not empty.'' s))
          else bindr (delete_file_from_fa fa dir s) (\<lambda>(b, s).
            if \<not> b then Some (Inr (False, s))
            else bindr (if rc then bindr (Some (fget dir s)) (\<lambda>d. delete_directory_run (Inr (dir, FstSon d)) s) else Some (Inr (True, s))) (\<lambda>(_, s).
              bindr (clear_file dir s) (\<lambda>s.
              bindr (Some (fupd dir (\<lambda>f. f\<lparr>used := False\<rparr>) s)) (\<lambda>s. Some (Inr (True, s)))))))
      | Inr (dir, son) \<Rightarrow>
          if son = FNull then Some (Inr (True, s))
          else bindr (Some (fget son s)) (\<lambda>f.
            bindr (Some (rd (Filename f) 0)) (\<lambda>n0.
            bindr (if n0 = 0x2E then Some (Inr (True, s))
                   else if Attr f = 0x10 then delete_directory_run (Inl (dir, son, True)) s else delete_file dir son s) (\<lambda>(_, s).
            bindr (Some (fget son s)) (\<lambda>f. delete_directory_run (Inr (dir, NextSib f)) s)))))"

definition delete_directory :: "fptr \<Rightarrow> fptr \<Rightarrow> bool \<Rightarrow> fs \<Rightarrow> (bool \<times> fs) run" where
  "delete_directory fa dir rc = delete_directory_run (Inl (fa, dir, rc))"

subsection \<open>Appending\<close>

partial_function (option) last_cluster_loop :: "u16 \<Rightarrow> fs \<Rightarrow> (u16 \<times> fs) run" where
  "last_cluster_loop clusID2 s =
     bindr (Some (on_vol (get_fat_next_cluster clusID2) s)) (\<lambda>(nextClus2, s).
     if end_mark nextClus2 then Some (Inr (clusID2, s)) else last_cluster_loop nextClus2 s)"

text \<open>\<^verbatim>\<open>append_a_cluster\<close> followed by reading the new cluster; \<open>None\<close> where the code returns false.\<close>

definition append_and_read :: "u16 \<Rightarrow> fs \<Rightarrow> ((u16 \<times> u8 list) option \<times> fs) res" where
  "append_and_read clusID2 s =
     andthen (on_vol (append_a_cluster clusID2) s) (\<lambda>(c, s).
     if uint c = - 1 then Inr (None, s)
     else andthen (read_sector (c + ClusToSec) (vol s)) (\<lambda>buff2. Inr (Some (c, buff2), s)))"

partial_function (option) append_file_loop :: "u16 \<Rightarrow> u16 \<Rightarrow> nat \<Rightarrow> u8 list \<Rightarrow> fs \<Rightarrow> ((u16 \<times> u8 list) option \<times> fs) run" where
  "append_file_loop clusID1 clusID2 ix buff2 s =
     (if end_mark clusID1 then Some (Inr (Some (clusID2, buff2), s))
      else bindr (Some (read_sector (clusID1 + ClusToSec) (vol s))) (\<lambda>buff1.
        bindr (Some (copy_bytes (BytePerSec - ix) ix buff2 0 buff1)) (\<lambda>buff2.
        bindr (Some (vol_do (write_sector (clusID2 + ClusToSec) buff2) s)) (\<lambda>s.
        bindr (Some (if ix < BytePerSec - 1 then append_and_read clusID2 s else Inr (Some (clusID2, buff2), s))) (\<lambda>(r, s).
        case r of None \<Rightarrow> Some (Inr (None, s))
        | Some (clusID2, buff2) \<Rightarrow>
            bindr (Some (copy_bytes ix 0 buff2 (BytePerSec - ix) buff1)) (\<lambda>buff2.
            bindr (Some (on_vol (get_fat_next_cluster clusID1) s)) (\<lambda>(c, s). append_file_loop c clusID2 ix buff2 s)))))))"

definition append_file :: "fptr \<Rightarrow> fptr \<Rightarrow> fs \<Rightarrow> (bool \<times> fs) run" where
  "append_file file1 file2 s =
     bindr (Some (fget file1 s)) (\<lambda>f1.
     bindr (Some (fget file2 s)) (\<lambda>f2.
     bindr (last_cluster_loop (FstClus f2) s) (\<lambda>(clusID2, s).
     bindr (Some (read_sector (clusID2 + ClusToSec) (vol s))) (\<lambda>buff2.
     let ix = unat (FileSize f2) mod BytePerSec
     in bindr (Some (if ix = 0 then append_and_read clusID2 s else Inr (Some (clusID2, buff2), s))) (\<lambda>(r, s).
        case r of None \<Rightarrow> Some (Inr (False, s))
        | Some (clusID2, buff2) \<Rightarrow>
            bindr (append_file_loop (FstClus f1) clusID2 ix buff2 s) (\<lambda>(r, s).
            case r of None \<Rightarrow> Some (Inr (False, s))
            | Some (clusID2, buff2) \<Rightarrow>
                bindr (Some (vol_do (write_sector (clusID2 + ClusToSec) buff2) s)) (\<lambda>s.
                bindr (Some (fget file1 s)) (\<lambda>f1.
                bindr (Some (fupd file2 (\<lambda>f. f\<lparr>FileSize := FileSize f + FileSize f1\<rparr>) s)) (\<lambda>s. Some (Inr (True, s)))))))))))"

subsection \<open>Changing the directory\<close>

text \<open>
  The result is the answer, the pointer left in \<^verbatim>\<open>*ptr_to_nowDir\<close> and the array \<^verbatim>\<open>nowPath\<close>. For a path that begins with a slash
  the recursive call is given the address of the local variable, so the pointer of the caller stays at the root.
\<close>

definition new_path :: "u8 list \<Rightarrow> u8 list \<Rightarrow> u8 list res" where
  "new_path fstDir nowPath =
     andthen (arr_strcmp fstDir (lit ''..'')) (\<lambda>r.
     if r = 0 then fa_dir_path nowPath nowPath
     else andthen (arr_strcmp fstDir (lit ''.'')) (\<lambda>r.
       if r \<noteq> 0
       then andthen (arr_strcmp nowPath (lit ''/'')) (\<lambda>r.
         andthen (if r \<noteq> 0 then arr_strcat nowPath (lit ''/'') else Inr nowPath) (\<lambda>nowPath. arr_strcat nowPath fstDir))
       else Inr nowPath))"

partial_function (option) try_cd :: "u8 list \<Rightarrow> fptr \<Rightarrow> u8 list \<Rightarrow> fs \<Rightarrow> (bool \<times> fptr \<times> u8 list) run" where
  "try_cd dirPath nowDir nowPath s =
     bindr (Some (str_of dirPath)) (\<lambda>t.
     if t = [] then Some (Inr (True, nowDir, nowPath))
     else if t ! 0 = 0x2F
     then bindr (Some (arr_strcpy nowPath (lit ''/''))) (\<lambda>nowPath.
       bindr (Some (copy_bytes (length t - 1) 0 (replicate 50 0) 1 dirPath)) (\<lambda>newDirPath.
       bindr (try_cd newDirPath FRoot nowPath s) (\<lambda>(b, _, nowPath). Some (Inr (b, FRoot, nowPath)))))
     else bindr (Some (divede_path dirPath (replicate 50 0) (replicate 50 0))) (\<lambda>(fstDir, resPath).
       bindr (Some (generate_filename fstDir (replicate 50 0))) (\<lambda>(fstDir, filename).
       bindr (change_directory nowDir filename s) (\<lambda>nextDir.
       if nextDir = FNull then Some (Inr (False, nowDir, nowPath))
       else bindr (Some (new_path fstDir nowPath)) (\<lambda>nowPath. try_cd resPath nextDir nowPath s)))))"

subsection \<open>The commands\<close>

definition shell_ls :: "fptr \<Rightarrow> fs \<Rightarrow> fs run" where
  "shell_ls nowDir s =
     bindr (scan_str (replicate 50 0) s) (\<lambda>(par, s).
     bindr (Some (arr_strcmp par (lit ''-l''))) (\<lambda>r1.
     if r1 = 0 then list_directory nowDir False s
     else bindr (Some (arr_strcmp par (lit ''-al''))) (\<lambda>r2.
       if r2 = 0 then list_directory nowDir True s else Some (Inr (say ''usage: ls -l or ls -al'' s)))))"

definition shell_tree :: "fptr \<Rightarrow> fs \<Rightarrow> fs run" where
  "shell_tree nowDir s =
     bindr (scan_str (replicate 50 0) s) (\<lambda>(par, s).
     bindr (scan_int s) (\<lambda>(level, s).
     bindr (Some (arr_strcmp par (lit ''-L''))) (\<lambda>r1.
     if r1 = 0 then tree_directory nowDir False level s
     else bindr (Some (arr_strcmp par (lit ''-aL''))) (\<lambda>r2.
       if r2 = 0 then tree_directory nowDir True level s
       else Some (Inr (say ''Use help to see explanation.'' (say ''usage: tree -L level or tree -aL level'' s)))))))"

text \<open>The current directory and its path after \<^verbatim>\<open>cd\<close>.\<close>

definition shell_cd :: "fptr \<Rightarrow> u8 list \<Rightarrow> fs \<Rightarrow> (fptr \<times> u8 list \<times> fs) run" where
  "shell_cd nowDir nowPath s =
     bindr (scan_str (replicate 50 0) s) (\<lambda>(w, s).
     bindr (Some (standard_dir_path (replicate 50 0) w)) (\<lambda>dirPath.
     bindr (Some (arr_strcpy (replicate 50 0) nowPath)) (\<lambda>nextPath.
     bindr (try_cd dirPath nowDir nextPath s) (\<lambda>(b, nextDir, nextPath).
     if b then bindr (Some (arr_strcpy nowPath nextPath)) (\<lambda>nowPath. Some (Inr (nextDir, nowPath, say ''Successfully changed directory.'' s)))
     else Some (Inr (nowDir, nowPath, say ''Failed to change directory.'' s))))))"

text \<open>
  The common beginning of the commands on a file: reading the path, splitting it, going to its directory. The result is
  the directory, or \<open>None\<close> when \<^verbatim>\<open>try_cd\<close> fails, and the 11-character name.
\<close>

definition locate_path :: "u8 list \<Rightarrow> fptr \<Rightarrow> fs \<Rightarrow> (fptr option \<times> u8 list) run" where
  "locate_path filePath nowDir s =
     bindr (Some (file_path_to_dir_path filePath (replicate 50 0) (replicate 50 0))) (\<lambda>(dirPath, filename).
     bindr (try_cd dirPath nowDir (replicate 50 0) s) (\<lambda>(b, dir, _).
     Some (Inr (if b then Some dir else None, filename))))"

definition locate :: "fptr \<Rightarrow> fs \<Rightarrow> (fptr option \<times> u8 list \<times> fs) run" where
  "locate nowDir s =
     bindr (scan_str (replicate 50 0) s) (\<lambda>(filePath, s).
     bindr (locate_path filePath nowDir s) (\<lambda>(d, filename). Some (Inr (d, filename, s))))"

definition shell_touch :: "fptr \<Rightarrow> fs \<Rightarrow> fs run" where
  "shell_touch nowDir s =
     bindr (locate nowDir s) (\<lambda>(d, filename, s).
     case d of None \<Rightarrow> Some (Inr (say ''Failed to create empty file.'' s))
     | Some dir \<Rightarrow> bindr (create_empty_file dir filename 0x20 (generate_time 0 0) (generate_date (0 + 1900) 1 0) s) (\<lambda>(b, s).
         Some (Inr (say (if b then ''Successfully created empty file.'' else ''Failed to create empty file.'') s))))"

definition shell_mkdir :: "fptr \<Rightarrow> fs \<Rightarrow> fs run" where
  "shell_mkdir nowDir s =
     bindr (locate nowDir s) (\<lambda>(d, filename, s).
     case d of None \<Rightarrow> Some (Inr (say ''Failed to create empty directory.'' s))
     | Some dir \<Rightarrow> bindr (create_empty_directory dir filename (generate_time 0 0) (generate_date (0 + 1900) 1 0) s) (\<lambda>(b, s).
         Some (Inr (say (if b then ''Successfully created empty directory.'' else ''Failed to create empty directory.'') s))))"

text \<open>The lookup of a plain file with its error messages, and opening it.\<close>

definition lookup_plain :: "fptr option \<Rightarrow> u8 list \<Rightarrow> fs \<Rightarrow> (fptr option \<times> fs) run" where
  "lookup_plain d filename s =
     (case d of None \<Rightarrow> Some (Inr (None, say ''Failed to open and print the file.'' s))
      | Some dir \<Rightarrow> bindr (is_file_exist dir filename s) (\<lambda>file.
          if file = FNull then Some (Inr (None, say ''Error: No such a file.'' s))
          else bindr (Some (fget file s)) (\<lambda>f.
            if Attr f = 0x10 then Some (Inr (None, say ''Error: It's a directory.'' s)) else Some (Inr (Some file, s)))))"

definition open_plain :: "FileOpenType \<Rightarrow> fptr option \<Rightarrow> u8 list \<Rightarrow> fs \<Rightarrow> (nat option \<times> fs) run" where
  "open_plain Type d filename s =
     bindr (lookup_plain d filename s) (\<lambda>(r, s).
     case r of None \<Rightarrow> Some (Inr (None, s))
     | Some file \<Rightarrow> bindr (Some (open_file file Type s)) (\<lambda>(ac, s).
         Some (Inr (ac, if ac = None then say ''The active file list is full. Failed to open and print the file.'' s else s))))"

definition shell_cat :: "fptr \<Rightarrow> fs \<Rightarrow> fs run" where
  "shell_cat nowDir s =
     bindr (locate nowDir s) (\<lambda>(d, filename, s).
     bindr (open_plain ReadOnly d filename s) (\<lambda>(ac, s).
     if ac = None then Some (Inr s) else bindr (read_file ac s) (\<lambda>s. close_file ac s)))"

definition shell_write :: "(nat \<Rightarrow> u8 list) \<Rightarrow> fptr \<Rightarrow> bool \<Rightarrow> u32 \<Rightarrow> fs \<Rightarrow> fs run" where
  "shell_write sda nowDir from_sda filesize s =
     bindr (locate nowDir s) (\<lambda>(d, filename, s).
     bindr (open_plain ReadWrite d filename s) (\<lambda>(ac, s).
     if ac = None then Some (Inr s)
     else bindr (if from_sda then Some (write_file_from_sda sda ac filesize s) else write_file ac s) (\<lambda>(b, s).
       close_file ac (say (if b then ''Successfully wroted the file'' else ''Failed to write the file'') s))))"

text \<open>\<^verbatim>\<open>shell_append\<close> does not check the results of \<^verbatim>\<open>open_file\<close> and does not close the files.\<close>

definition shell_append :: "fptr \<Rightarrow> fs \<Rightarrow> fs run" where
  "shell_append nowDir s =
     bindr (scan_str (replicate 50 0) s) (\<lambda>(filePath1, s).
     bindr (scan_str (replicate 50 0) s) (\<lambda>(filePath2, s).
     bindr (Some (file_path_to_dir_path filePath1 (replicate 50 0) (replicate 50 0))) (\<lambda>(dirPath1, filename1).
     bindr (Some (file_path_to_dir_path filePath2 (replicate 50 0) (replicate 50 0))) (\<lambda>(dirPath2, filename2).
     bindr (try_cd dirPath1 nowDir (replicate 50 0) s) (\<lambda>(b1, dir1, _).
     bindr (if b1 then try_cd dirPath2 nowDir (replicate 50 0) s else Some (Inr (False, nowDir, []))) (\<lambda>(b2, dir2, _).
     if \<not> b2 then Some (Inr (say ''Failed to open and print the file.'' s))
     else bindr (is_file_exist dir1 filename1 s) (\<lambda>file1.
         bindr (is_file_exist dir2 filename2 s) (\<lambda>file2.
         if file1 = FNull \<or> file2 = FNull then Some (Inr (say ''Error: Both files should exist.'' s))
         else bindr (Some (fget file1 s)) (\<lambda>f1. bindr (Some (fget file2 s)) (\<lambda>f2.
           if Attr f1 = 0x10 \<or> Attr f2 = 0x10 then Some (Inr (say ''Error: Can't append a directory'' s))
           else bindr (Some (open_file file1 ReadOnly s)) (\<lambda>(ac1, s).
             bindr (Some (open_file file2 ReadWrite s)) (\<lambda>(ac2, s).
             bindr (Some (ac_get ac1 s)) (\<lambda>a1. bindr (Some (ac_get ac2 s)) (\<lambda>a2.
             bindr (append_file (a_file a1) (a_file a2) s) (\<lambda>(b, s).
             Some (Inr (say (if b then ''Successfullly appended file.'' else ''Failed to append file. '') s)))))))))))))))))"

definition shell_rm :: "fptr \<Rightarrow> fs \<Rightarrow> fs run" where
  "shell_rm nowDir s =
     bindr (scan_str (replicate 10 0) s) (\<lambda>(w, s).
     bindr (Some (arr_strcmp w (lit ''-r''))) (\<lambda>r.
     if r = 0
     then bindr (locate nowDir s) (\<lambda>(d, filename, s).
       case d of None \<Rightarrow> Some (Inr (say ''Failed to open and print the file.'' s))
       | Some dir \<Rightarrow> bindr (is_file_exist dir filename s) (\<lambda>file.
           if file = FNull then Some (Inr (say ''Error: No such a file.'' s))
           else bindr (delete_directory dir file True s) (\<lambda>(b, s).
             Some (Inr (say (if b then ''Successfully deleted the directory recursively.''
               else ''Failed to delete the directory recursively.'') s)))))
     else bindr (Some (arr_strcpy (replicate 50 0) w)) (\<lambda>filePath.
       bindr (locate_path filePath nowDir s) (\<lambda>(d, filename).
       bindr (lookup_plain d filename s) (\<lambda>(r, s).
       case (d, r) of
         (Some dir, Some file) \<Rightarrow> bindr (delete_file dir file s) (\<lambda>(b, s).
           Some (Inr (say (if b then ''Successfully deleted the file.'' else ''Failed to delete the file.'') s)))
       | _ \<Rightarrow> Some (Inr s))))))"

text \<open>\<^verbatim>\<open>shell_rmdir\<close> does not check that the name exists.\<close>

definition shell_rmdir :: "fptr \<Rightarrow> fs \<Rightarrow> fs run" where
  "shell_rmdir nowDir s =
     bindr (locate nowDir s) (\<lambda>(d, filename, s).
     case d of None \<Rightarrow> Some (Inr (say ''Failed to open and print the file.'' s))
     | Some dir \<Rightarrow> bindr (is_file_exist dir filename s) (\<lambda>file.
         bindr (delete_directory dir file False s) (\<lambda>(b, s).
         Some (Inr (say (if b then ''Successfully deleted the directory.'' else ''Failed to delete the directory.'') s)))))"

definition shell_write_program_to_sdb :: "(nat \<Rightarrow> u8 list) \<Rightarrow> fs \<Rightarrow> fs run" where
  "shell_write_program_to_sdb sda s =
     bindr (shell_touch FRoot s) (\<lambda>s. bindr (scan_int s) (\<lambda>(filesize, s). shell_write sda FRoot True filesize s))"

subsection \<open>Objects of the file list\<close>

definition put_file :: "fptr \<Rightarrow> File \<Rightarrow> fs \<Rightarrow> fs" where
  "put_file p x s = (case p of FNull \<Rightarrow> s | FRoot \<Rightarrow> s\<lparr>rootfile := x\<rparr> | F i \<Rightarrow> s\<lparr>filelist := (filelist s)[i := x]\<rparr>)"

lemma fget_rd: "fget (F i) s = Inr f \<longleftrightarrow> i < length (filelist s) \<and> filelist s ! i = f"
  by (auto simp: fget_def rd_def)

lemma fupd_ok: "fget p s = Inr f \<Longrightarrow> fupd p g s = Inr (put_file p (g f) s)"
  by (cases p) (auto simp: fupd_def put_file_def fget_rd, auto simp: fget_def)

lemma fget_put_same: "fget p s = Inr f \<Longrightarrow> fget p (put_file p x s) = Inr x"
  by (cases p) (auto simp: put_file_def fget_rd, auto simp: fget_def)

lemma fget_put_other: "q \<noteq> p \<Longrightarrow> fget q (put_file p x s) = fget q s"
  by (cases p; cases q) (auto simp: put_file_def fget_def rd_def)

lemma put_file_frame [simp]:
  "vol (put_file p x s) = vol s" "active_cnt (put_file p x s) = active_cnt s" "activelist (put_file p x s) = activelist s"
  "AFBLNodelist (put_file p x s) = AFBLNodelist s" "inp (put_file p x s) = inp s" "out (put_file p x s) = out s"
  by (simp_all add: put_file_def split: fptr.split)

lemma fget_frame [simp]:
  "fget p (s\<lparr>vol := d\<rparr>) = fget p s" "fget p (s\<lparr>active_cnt := n\<rparr>) = fget p s" "fget p (s\<lparr>activelist := A\<rparr>) = fget p s"
  "fget p (s\<lparr>AFBLNodelist := L\<rparr>) = fget p s" "fget p (s\<lparr>inp := t\<rparr>) = fget p s" "fget p (s\<lparr>out := t\<rparr>) = fget p s"
  by (simp_all add: fget_def split: fptr.split)

end
