(* ===== verification/Fscontent.thy ===== *)
theory Fscontent
  imports Fsfunc
begin

text \<open>
  The content of files: what \<^verbatim>\<open>write_file\<close> buffers, \<^verbatim>\<open>close_file\<close> brings to the volume and \<^verbatim>\<open>read_file\<close> prints, on the operations of
  \<open>Fsfunc\<close>.
\<close>

subsection \<open>Buffer nodes and open files\<close>

definition unused_node :: "fs \<Rightarrow> nat option" where
  "unused_node s = find (\<lambda>i. \<not> n_used (AFBLNodelist s ! i)) [0..<100]"

lemma unused_node_Some: "unused_node s = Some k \<Longrightarrow> k < 100 \<and> \<not> n_used (AFBLNodelist s ! k)"
  unfolding unused_node_def by (auto simp: find_Some_iff)

lemma AFBLNode_all: "(n :: AFBLNode)\<lparr>n_buff := b, n_next := p, n_used := u\<rparr> = \<lparr>n_buff = b, n_next = p, n_used = u\<rparr>"
  by (cases n) simp

lemma empty_AFBLNode_from_find:
  assumes "length (AFBLNodelist s) = 100"
  shows "m + k = 100 \<Longrightarrow> empty_AFBLNode_from m k s = Inr (case find (\<lambda>i. \<not> n_used (AFBLNodelist s ! i)) [k..<100] of None \<Rightarrow> (None, s)
    | Some i \<Rightarrow> (Some i, s\<lparr>AFBLNodelist := (AFBLNodelist s)[i := \<lparr>n_buff = replicate 512 0, n_next = None, n_used = True\<rparr>]\<rparr>))"
proof (induction m arbitrary: k)
  case (Suc m)
  then have "[k..<100] = k # [Suc k..<100]"
    by (simp add: upt_conv_Cons)
  then show ?case
    using Suc.IH[of "Suc k"] Suc.prems assms by (simp add: init_new_AFBLNode_def node_upd_def AFBLNode_all)
qed simp

lemma get_empty_AFBLNode_eq:
  "length (AFBLNodelist s) = 100 \<Longrightarrow> get_empty_AFBLNode s = Inr (case unused_node s of None \<Rightarrow> (None, s)
    | Some i \<Rightarrow> (Some i, s\<lparr>AFBLNodelist := (AFBLNodelist s)[i := \<lparr>n_buff = replicate 512 0, n_next = None, n_used = True\<rparr>]\<rparr>))"
  using empty_AFBLNode_from_find[of s 100 0] by (simp add: get_empty_AFBLNode_def MAX_NODE_CNT_def unused_node_def)

lemma init_AFBLNode_ok:
  assumes "k < length (AFBLNodelist s)" "length (n_buff (AFBLNodelist s ! k)) = 512" "length b = 512"
  shows "init_AFBLNode (Some k) b None s = Inr (s\<lparr>AFBLNodelist := (AFBLNodelist s)[k := (AFBLNodelist s ! k)\<lparr>n_next := None, n_buff := b\<rparr>]\<rparr>)"
  using assms copy_whole[of "n_buff (AFBLNodelist s ! k)" 512 0 b] by (simp add: init_AFBLNode_def node_upd_def node_get_def BytePerSec_def)

subsection \<open>Writing a text and reading it back\<close>

lemma write_file_loop_short:
  "ix + length t < 512 \<Longrightarrow> length b = 512 \<Longrightarrow>
    write_file_loop t ix cnt b now c s = Inr (True, ix + length t, cnt, take ix b @ t @ drop (ix + length t) b, now, c, s)"
proof (induction t arbitrary: ix b)
  case (Cons x t)
  have "take (Suc ix) (b[ix := x]) = take ix b @ [x]"
    using Cons.prems by (simp add: take_Suc_conv_app_nth)
  moreover have "ix \<noteq> 511" "ix < 512" "Suc ix mod 512 = Suc ix"
    using Cons.prems by simp_all
  ultimately show ?case
    using Cons.IH[of "Suc ix" "b[ix := x]"] Cons.prems by (simp add: BytePerSec_def)
qed simp

text \<open>A typed word: what stands before the next blank or line end.\<close>

definition typed :: "u8 list \<Rightarrow> u8 list \<Rightarrow> fs \<Rightarrow> bool" where
  "typed w rest s \<longleftrightarrow> (\<exists>c. inp s = w @ c # rest \<and> is_space c) \<and> (\<forall>x \<in> set w. \<not> is_space x \<and> x \<noteq> 0)"

lemma scan_word_typed: "typed w rest s \<Longrightarrow> length w < 1000 \<Longrightarrow> scan_word s = Some (Inr (w, s\<lparr>inp := rest\<rparr>))"
  by (auto simp: typed_def scan_word_def Let_def takeWhile_tail dropWhile_append3 takeWhile_eq_all_conv[THEN iffD2])

lemma scan_str_typed:
  "typed w rest s \<Longrightarrow> length w < 1000 \<Longrightarrow> length w < length b \<Longrightarrow> scan_str b s = Some (Inr (w @ 0 # drop (length w + 1) b, s\<lparr>inp := rest\<rparr>))"
  by (simp add: scan_str_def scan_word_typed put_str_def)


definition written :: "u8 list \<Rightarrow> u8 list" where
  "written w = w @ replicate (512 - length w) 0"

text \<open>The state after \<^verbatim>\<open>write_file\<close> of a short text \<open>w\<close>, with node \<open>k\<close> as its buffer.\<close>

definition after_write :: "nat \<Rightarrow> nat \<Rightarrow> u8 list \<Rightarrow> u8 list \<Rightarrow> disk \<Rightarrow> fs \<Rightarrow> fs" where
  "after_write i k w rest d s = s\<lparr>AFBLNodelist := (AFBLNodelist s)[k := \<lparr>n_buff = written w, n_next = None, n_used = True\<rparr>],
     activelist := (activelist s)[i := (activelist s ! i)\<lparr>a_head := Some k, a_buffsize := word_of_nat (length w)\<rparr>],
     out := out s @ c_string ''Please enter content: '' @ [0xA], inp := rest, vol := d\<rparr>"

lemma write_file_short:
  assumes s: "wf_fs s" "unused_node s = Some k" and i: "i < 10" "a_Type (activelist s ! i) \<noteq> ReadOnly"
    and f: "fget (a_file (activelist s ! i)) s = Inr f" and w: "typed w rest s" "0 < length w" "length w < 512"
    and d: "write_fat_next_cluster (FstClus f) 0xFFF (vol s) = Inr d"
  shows "write_file (Some i) s = Some (Inr (True, after_write i k w rest d s))"
proof -
  let ?n0 = "\<lparr>n_buff = replicate 512 0, n_next = None, n_used = True\<rparr>"
  let ?s1 = "s\<lparr>AFBLNodelist := (AFBLNodelist s)[k := ?n0]\<rparr>"
  let ?s2 = "?s1\<lparr>activelist := (activelist s)[i := (activelist s ! i)\<lparr>a_head := Some k\<rparr>]\<rparr>"
  let ?s3 = "?s2\<lparr>out := out s @ c_string ''Please enter content: '' @ [0xA], inp := rest\<rparr>"
  have len: "length (AFBLNodelist s) = 100" "length (activelist s) = 10" "k < 100"
    using s unused_node_Some[OF s(2)] by (simp_all add: wf_fs_def)
  have g: "get_empty_AFBLNode s = Inr (Some k, ?s1)"
    using get_empty_AFBLNode_eq[OF len(1)] s(2) by simp
  have f2: "fget (a_file (activelist s ! i)) ?s2 = Inr f"
    using f by (simp add: fget_def split: fptr.splits)
  have "typed w rest (print (c_string ''Please enter content: '' @ [0xA]) ?s2)"
    using w(1) by (simp add: typed_def print_def)
  from scan_str_typed[OF this, of "replicate 1024 0"] w(3)
  have sc: "scan_str (replicate 1024 0) (print (c_string ''Please enter content: '' @ [0xA]) ?s2) = Some (Inr (w @ 0 # replicate (1023 - length w) 0, ?s3))"
    by (simp add: print_def)
  have st: "str_of (w @ 0 # replicate (1023 - length w) 0) = Inr w"
    using w(1) by (auto simp: typed_def)
  have lp: "write_file_loop w 0 0 (replicate 512 0) (Some k) (FstClus f) ?s3 = Inr (True, length w, 0, w @ replicate (512 - length w) 0, Some k, FstClus f, ?s3)"
    using write_file_loop_short[of 0 w "replicate 512 0"] w(3) by simp
  have fill: "fill_bytes (512 - length w) (length w) 0 (w @ replicate (512 - length w) 0) = Inr (written w)"
    using fill_behind[of "512 - length w" "replicate (512 - length w) 0" w 0] by (simp add: written_def)
  have "length (written w) = 512"
    using w(3) by (simp add: written_def)
  then have rest: "write_file_rest (length w) 0 (w @ replicate (512 - length w) 0) (Some k) (FstClus f) ?s3 =
      Inr (True, FstClus f, ?s3\<lparr>AFBLNodelist := (AFBLNodelist s)[k := ?n0\<lparr>n_buff := written w\<rparr>]\<rparr>)"
    using init_AFBLNode_ok[of k ?s3 "written w"] fill len w(2) by (simp add: write_file_rest_def BytePerSec_def)
  have "write_file (Some i) s = Some (Inr (True, ?s3\<lparr>AFBLNodelist := (AFBLNodelist s)[k := ?n0\<lparr>n_buff := written w\<rparr>], vol := d,
      activelist := (activelist s)[i := (activelist s ! i)\<lparr>a_head := Some k, a_buffsize := word_of_nat (length w)\<rparr>]\<rparr>))"
    using i len g f2 sc st lp rest d by (simp add: write_file_def ac_get_def ac_upd_def vol_do_def)
  then show ?thesis
    by (simp add: after_write_def)
qed

lemma data_sector: "unat c \<le> 2849 \<Longrightarrow> c + ClusToSec = sno (unat c + 31)"
  by (simp add: sno_def ClusToSec_def)

lemma data_write_keeps_fat:
  assumes "wf_disk d" "unat c \<le> 2849" "length b = 512"
  shows "\<exists>d'. write_sector (c + ClusToSec) b d = Inr d' \<and> wf_disk d' \<and> (mirrored d \<longrightarrow> mirrored d') \<and>
    (\<forall>k < fat_len. fat_entry d' k = fat_entry d k) \<and> (\<forall>s. sdb d' s = (if s = sno (unat c + 31) then b else sdb d s))"
proof -
  let ?d = "d\<lparr>sdb := (sdb d)(sno (unat c + 31) := b)\<rparr>"
  have ne: "sno k \<noteq> sno (unat c + 31)" if "k \<le> 30" for k
    using sno_inj[of k "unat c + 31"] that assms(2) by simp
  have "fat_entry ?d k = fat_entry d k" if "k < fat_len" for k
    using ne that by (intro fat_entry_cong) simp_all
  then show ?thesis
    using assms ne write_sector_ok[of "unat c + 31" b d] by (auto simp: data_sector wf_disk_def mirrored_def)
qed

text \<open>The state after \<^verbatim>\<open>close_file\<close> of the only user of open file \<open>i\<close>, with the buffered sector \<open>k\<close>, if any, written to the volume \<open>d\<close>.\<close>

definition closed :: "nat \<Rightarrow> nat option \<Rightarrow> disk \<Rightarrow> File \<Rightarrow> fs \<Rightarrow> fs" where
  "closed i k d f s = (let a = activelist s ! i
     in (put_file (a_file a) (f\<lparr>FileSize := a_buffsize a\<rparr>) s)\<lparr>active_cnt := active_cnt s - 1, vol := d,
       AFBLNodelist := (case k of None \<Rightarrow> AFBLNodelist s | Some k \<Rightarrow> (AFBLNodelist s)[k := (AFBLNodelist s ! k)\<lparr>n_used := False\<rparr>]),
       activelist := (activelist s)[i := a\<lparr>a_file := FNull, a_RefCnt := 0, a_Type := ReadOnly, a_head := None, a_buffsize := 0\<rparr>]\<rparr>)"

lemma close_file_flushed:
  assumes s: "i < length (activelist s)" "a_RefCnt (activelist s ! i) = 1" and f: "fget (a_file (activelist s ! i)) s = Inr f"
    and fl: "flush_nodes (a_head (activelist s ! i)) (FstClus f) ((put_file (a_file (activelist s ! i)) (f\<lparr>FileSize := a_buffsize (activelist s ! i)\<rparr>) s)\<lparr>active_cnt := active_cnt s - 1,
       activelist := (activelist s)[i := (activelist s ! i)\<lparr>a_RefCnt := 0\<rparr>]\<rparr>) = Some (Inr s')"
    and al: "activelist s' = (activelist s)[i := (activelist s ! i)\<lparr>a_RefCnt := 0\<rparr>]"
  shows "close_file (Some i) s = Some (Inr (s'\<lparr>activelist := (activelist s)[i := (activelist s ! i)\<lparr>a_file := FNull, a_RefCnt := 0, a_Type := ReadOnly, a_head := None, a_buffsize := 0\<rparr>]\<rparr>))"
proof -
  let ?a = "activelist s ! i"
  let ?s1 = "s\<lparr>activelist := (activelist s)[i := ?a\<lparr>a_RefCnt := 0\<rparr>], active_cnt := active_cnt s - 1\<rparr>" and ?f = "f\<lparr>FileSize := a_buffsize ?a\<rparr>"
  have e: "put_file (a_file ?a) ?f ?s1 = (put_file (a_file ?a) ?f s)\<lparr>active_cnt := active_cnt s - 1, activelist := (activelist s)[i := ?a\<lparr>a_RefCnt := 0\<rparr>]\<rparr>"
    by (simp add: put_file_def split: fptr.splits)
  have g: "fget (a_file ?a) ?s1 = Inr f"
    using f by (simp add: fget_def split: fptr.splits)
  show ?thesis
    using s fl al fupd_ok[OF g, of "\<lambda>f. f\<lparr>FileSize := a_buffsize ?a\<rparr>"] fget_put_same[OF g, of ?f] 
    by (simp add: close_file_def ac_get_def ac_upd_def active_file_close_def e)
qed


lemma put_file_fields [simp]:
  "vol (put_file p f s) = vol s" "activelist (put_file p f s) = activelist s" "AFBLNodelist (put_file p f s) = AFBLNodelist s" "active_cnt (put_file p f s) = active_cnt s"
  "inp (put_file p f s) = inp s" "out (put_file p f s) = out s"
  by (simp_all add: put_file_def split: fptr.splits)

lemma fget_closed: "fget p (closed i k d f s) = fget p (put_file (a_file (activelist s ! i)) (f\<lparr>FileSize := a_buffsize (activelist s ! i)\<rparr>) s)"
  by (cases p) (simp_all add: closed_def Let_def fget_def)

lemma close_without_buffers:
  assumes "i < length (activelist s)" "a_RefCnt (activelist s ! i) = 1" "a_head (activelist s ! i) = None" "fget (a_file (activelist s ! i)) s = Inr f"
  shows "close_file (Some i) s = Some (Inr (closed i None (vol s) f s))"
  using close_file_flushed[OF assms(1,2,4)] assms(3) by (simp add: flush_nodes.simps[of None] closed_def Let_def)

lemma close_with_buffer:
  assumes s: "wf_disk (vol s)" "i < length (activelist s)" "a_RefCnt (activelist s ! i) = 1" "a_head (activelist s ! i) = Some k"
    and n: "k < length (AFBLNodelist s)" "AFBLNodelist s ! k = \<lparr>n_buff = b, n_next = None, n_used = True\<rparr>" "length b = 512"
    and f: "fget (a_file (activelist s ! i)) s = Inr f" "unat (FstClus f) \<le> 2849"
  shows "\<exists>d. close_file (Some i) s = Some (Inr (closed i (Some k) d f s)) \<and> wf_disk d \<and> (\<forall>k < fat_len. fat_entry d k = fat_entry (vol s) k) \<and>
    (\<forall>t. sdb d t = (if t = sno (unat (FstClus f) + 31) then b else sdb (vol s) t))"
proof -
  let ?c = "FstClus f"
  obtain d1 where d1: "write_sector (?c + ClusToSec) b (vol s) = Inr d1" "wf_disk d1" "\<forall>k < fat_len. fat_entry d1 k = fat_entry (vol s) k"
    "\<forall>t. sdb d1 t = (if t = sno (unat ?c + 31) then b else sdb (vol s) t)"
    using data_write_keeps_fat[OF s(1) f(2) n(3)] by auto
  obtain x where x: "get_fat_next_cluster ?c d1 = Inr (x, d1\<lparr>img := fresh_img d1\<rparr>)"
    using get_fat_next_cluster_returns[OF d1(2), of ?c] f(2) by auto
  have "flush_nodes (Some k) ?c t = Some (Inr (t\<lparr>vol := d1\<lparr>img := fresh_img d1\<rparr>, AFBLNodelist := (AFBLNodelist t)[k := (AFBLNodelist t ! k)\<lparr>n_used := False\<rparr>]\<rparr>))"
    if "vol t = vol s" "AFBLNodelist t = AFBLNodelist s" for t
    using n d1(1) x that by (subst flush_nodes.simps) (simp add: node_get_def node_upd_def vol_do_def on_vol_def flush_nodes.simps[of None])
  note fl = this
  have "close_file (Some i) s = Some (Inr (closed i (Some k) (d1\<lparr>img := fresh_img d1\<rparr>) f s))"
    using close_file_flushed[OF s(2,3) f(1)] s(4) by (simp add: fl closed_def Let_def)
  then show ?thesis
    using d1 fresh_img_props(2)[OF d1(2)] by fastforce
qed

lemma close_file_short:
  assumes s: "wf_disk (vol s)" "length (activelist s) = 10" "i < 10" "a_RefCnt (activelist s ! i) = 1" "a_head (activelist s ! i) = Some k"
    and n: "k < length (AFBLNodelist s)" "AFBLNodelist s ! k = \<lparr>n_buff = b, n_next = None, n_used = True\<rparr>" "length b = 512"
    and f: "fget (a_file (activelist s ! i)) s = Inr f" "unat (FstClus f) \<le> 2849"
  shows "\<exists>s' d'. close_file (Some i) s = Some (Inr s') \<and> fget (a_file (activelist s ! i)) s' = Inr (f\<lparr>FileSize := a_buffsize (activelist s ! i)\<rparr>) \<and>
    vol s' = d' \<and> wf_disk d' \<and> (\<forall>k < fat_len. fat_entry d' k = fat_entry (vol s) k) \<and> sdb d' (sno (unat (FstClus f) + 31)) = b \<and>
    length (activelist s') = 10 \<and> a_RefCnt (activelist s' ! i) = 0 \<and> out s' = out s"
proof -
  obtain d where d: "close_file (Some i) s = Some (Inr (closed i (Some k) d f s))" "wf_disk d" "\<forall>k < fat_len. fat_entry d k = fat_entry (vol s) k"
      "\<forall>t. sdb d t = (if t = sno (unat (FstClus f) + 31) then b else sdb (vol s) t)"
    using close_with_buffer[OF s(1) _ s(4,5) n f] s(2,3) by auto
  have "fget (a_file (activelist s ! i)) (closed i (Some k) d f s) = Inr (f\<lparr>FileSize := a_buffsize (activelist s ! i)\<rparr>)"
    using fget_put_same[OF f(1)] by (simp add: fget_closed)
  then show ?thesis
    using d s(2,3) by (simp add: closed_def Let_def)
qed

lemma print_sector_text:
  "0 \<notin> set w \<Longrightarrow> w \<noteq> [] \<Longrightarrow> unat n + length w < 2 ^ 32 \<Longrightarrow> print_sector (w @ r) n (n + word_of_nat (length w)) = (w, n + word_of_nat (length w))"
proof (induction w arbitrary: n)
  case (Cons c w)
  show ?case
  proof (cases "w = []")
    case True
    then show ?thesis using Cons.prems by (simp add: printf_c_def)
  next
    case False
    have "unat (n + 1) = unat n + 1"
      using Cons.prems by (simp add: unat_word_ariths)
    then have "print_sector (w @ r) (n + 1) (n + 1 + word_of_nat (length w)) = (w, n + 1 + word_of_nat (length w))"
      using Cons.IH[of "n + 1"] Cons.prems False by simp
    moreover have "n + 1 \<noteq> n + 1 + word_of_nat (length w)"
      using False Cons.prems of_nat_inj32[of "length w" 0] by simp
    moreover have e: "n + word_of_nat (length (c # w)) = n + 1 + word_of_nat (length w)"
      by simp
    ultimately show ?thesis
      unfolding e using Cons.prems by (simp add: printf_c_def)
  qed
qed simp

lemma read_file_text:
  assumes d: "wf_disk (vol s)" and a: "ac_get j s = Inr a" "fget (a_file a) s = Inr f"
    and c: "unat (FstClus f) \<le> 2849" "fat_chain (vol s) [unat (FstClus f)]" "sdb (vol s) (sno (unat (FstClus f) + 31)) = w @ r"
    and w: "0 \<notin> set w" "w \<noteq> []" "length w < 512" "FileSize f = word_of_nat (length w)"
  shows "read_file j s = Some (Inr (print (w @ [0xA]) (s\<lparr>vol := (vol s)\<lparr>img := fresh_img (vol s)\<rparr>\<rparr>)))"
proof -
  let ?c = "FstClus f"
  have "print_sector (w @ r) 0 (FileSize f) = (w, FileSize f)"
    using print_sector_text[of w 0 r] w by simp
  moreover have "\<not> end_mark ?c" "end_mark (fat_entry (vol s) (unat ?c))"
    using not_end_mark[of ?c] c(2) end_mark_entry[of "vol s" "unat ?c"] by simp_all
  moreover have "get_fat_next_cluster ?c (vol s) = Inr (fat_entry (vol s) (unat ?c), (vol s)\<lparr>img := fresh_img (vol s)\<rparr>)"
    using get_fat_next_cluster_ok[OF d] c(2) by simp
  moreover have "read_sector (?c + ClusToSec) (vol s) = Inr (w @ r)"
    using c by (simp add: data_sector read_sector_ok)
  ultimately have "read_file_loop (a_file a) ?c 0 s = Some (Inr ((print w s)\<lparr>vol := (vol s)\<lparr>img := fresh_img (vol s)\<rparr>\<rparr>))"
    using a(2) by (subst read_file_loop.simps) (simp add: on_vol_def print_def read_file_loop.simps[of _ "fat_entry (vol s) (unat ?c)"])
  then show ?thesis
    using a by (simp add: read_file_def print_def)
qed

lemma read_file_one_cluster:
  assumes d: "wf_disk (vol s)" and a: "ac_get j s = Inr a" "fget (a_file a) s = Inr f"
    and c: "unat (FstClus f) \<le> 2849" "fat_chain (vol s) [unat (FstClus f)]" "sdb (vol s) (sno (unat (FstClus f) + 31)) = w @ r"
    and w: "0 \<notin> set w" "w \<noteq> []" "length w < 512" "FileSize f = word_of_nat (length w)"
  shows "\<exists>s'. read_file j s = Some (Inr s') \<and> out s' = out s @ w @ [0xA]"
  using read_file_text[OF assms] by (simp add: print_def)


lemma open_shared_Some:
  "open_shared n i p Type s = Inr (Some j, s') \<Longrightarrow> a_file (activelist s' ! j) = p \<and> j < length (activelist s') \<and>
    s' = s\<lparr>active_cnt := active_cnt s', activelist := activelist s'\<rparr>"
  by (induction n arbitrary: i) (auto simp: andthen_Inr_iff ac_upd_def rd_def split: if_splits)

lemma open_fresh_Some:
  "open_fresh n i p Type s = Inr (Some j, s') \<Longrightarrow> a_file (activelist s' ! j) = p \<and> j < length (activelist s') \<and>
    s' = s\<lparr>active_cnt := active_cnt s', activelist := activelist s'\<rparr>"
  by (induction n arbitrary: i) (auto simp: andthen_Inr_iff ac_upd_def active_file_open_def rd_def split: if_splits)

lemma open_shared_returns: "i + n \<le> length (activelist s) \<Longrightarrow> \<exists>r s'. open_shared n i p Type s = Inr (r, s') \<and> (r = None \<longrightarrow> s' = s)"
  by (induction n arbitrary: i) (auto simp: ac_upd_def)

lemma open_fresh_returns:
  "i + n \<le> length (activelist s) \<Longrightarrow> i \<le> k \<Longrightarrow> k < i + n \<Longrightarrow> a_RefCnt (activelist s ! k) = 0 \<Longrightarrow> \<exists>j s'. open_fresh n i p Type s = Inr (Some j, s')"
proof (induction n arbitrary: i)
  case (Suc n)
  then show ?case
    by (cases "k = i") (auto simp: ac_upd_def active_file_open_def)
qed simp

lemma open_file_ok:
  assumes "length (activelist s) = 10" "k < 10" "a_RefCnt (activelist s ! k) = 0"
  shows "\<exists>j s' a. open_file p Type s = Inr (Some j, s') \<and> a_file a = p \<and> ac_get (Some j) s' = Inr a \<and> vol s' = vol s \<and> out s' = out s \<and> fget q s' = fget q s"
proof -
  obtain r s1 where r: "open_shared 10 0 p Type s = Inr (r, s1)" "r = None \<longrightarrow> s1 = s"
    using open_shared_returns[of 0 10 s p Type] assms(1) by auto
  have open_state: "vol s' = vol s \<and> out s' = out s \<and> fget q s' = fget q s"
    if "s' = s\<lparr>active_cnt := active_cnt s', activelist := activelist s'\<rparr>" for s'
    using arg_cong[OF that, of vol] arg_cong[OF that, of out] arg_cong[OF that, of "fget q"] by simp
  show ?thesis
  proof (cases r)
    case None
    obtain j s2 where j: "open_fresh 10 0 p Type s = Inr (Some j, s2)"
      using open_fresh_returns[of 0 10 s k p Type] assms by auto
    then show ?thesis
      using r None open_state[of s2] open_fresh_Some[OF j] by (simp add: open_file_def MAX_ACTIVE_CNT_def ac_get_def)
  next
    case (Some j)
    then show ?thesis
      using r open_state[of s1] open_shared_Some[of 10 0 p Type s j s1] by (simp add: open_file_def MAX_ACTIVE_CNT_def ac_get_def)
  qed
qed

text \<open>
  A text written to a file is read back. For an open file with a data cluster, when the user types a word of 1 to 511
  characters, \<^verbatim>\<open>write_file\<close> followed by \<^verbatim>\<open>close_file\<close> succeeds, sets the size of the file to the length of the word and leaves
  it with a chain of one cluster; opening the file again and \<^verbatim>\<open>read_file\<close> then prints exactly the word and a line end.
\<close>

theorem write_close_read:
  assumes "wf_fs s" "unused_node s = Some k" and "i < 10" "a_Type (activelist s ! i) \<noteq> ReadOnly" "a_RefCnt (activelist s ! i) = 1"
    and "a_file (activelist s ! i) = p" "fget p s = Inr f" "unat (FstClus f) \<le> 2849"
    and "typed w rest s" "0 < length w" "length w < 512"
  shows "\<exists>s1 s2 j s3 s4. write_file (Some i) s = Some (Inr (True, s1)) \<and> close_file (Some i) s1 = Some (Inr s2) \<and>
    fget p s2 = Inr (f\<lparr>FileSize := word_of_nat (length w)\<rparr>) \<and> fat_chain (vol s2) [unat (FstClus f)] \<and> wf_disk (vol s2) \<and>
    open_file p ReadOnly s2 = Inr (Some j, s3) \<and> read_file (Some j) s3 = Some (Inr s4) \<and> out s4 = out s1 @ w @ [0xA]"
proof -
  have c: "unat (FstClus f) < fat_len"
    using assms(8) by (simp add: fat_len_def)
  obtain d where d: "write_fat_next_cluster (FstClus f) 0xFFF (vol s) = Inr d" "wf_disk d"
    "\<forall>k < fat_len. fat_entry d k = (if k = unat (FstClus f) then 0xFFF else fat_entry (vol s) k)"
    using write_fat_spec[OF _ c, of "vol s" "0xFFF"] assms(1) by (auto simp: wf_fs_def word_less_nat_alt)
  let ?s1 = "after_write i k w rest d s"
  let ?a = "(activelist s ! i)\<lparr>a_head := Some k, a_buffsize := word_of_nat (length w)\<rparr>"
  have w1: "write_file (Some i) s = Some (Inr (True, ?s1))"
    using write_file_short[OF assms(1-4) _ assms(9-11) d(1)] assms(6,7) by simp
  have len: "length (activelist s) = 10" "length (AFBLNodelist s) = 100" "k < 100"
    using assms(1) unused_node_Some[OF assms(2)] by (simp_all add: wf_fs_def)
  have a1: "activelist ?s1 ! i = ?a" "length (activelist ?s1) = 10" "vol ?s1 = d" "k < length (AFBLNodelist ?s1)"
    "AFBLNodelist ?s1 ! k = \<lparr>n_buff = written w, n_next = None, n_used = True\<rparr>" "fget p ?s1 = Inr f"
    using len assms(3,7) by (simp_all add: after_write_def)
  obtain s2 d2 where s2: "close_file (Some i) ?s1 = Some (Inr s2)" "fget p s2 = Inr (f\<lparr>FileSize := word_of_nat (length w)\<rparr>)"
    "vol s2 = d2" "wf_disk d2" "\<forall>k < fat_len. fat_entry d2 k = fat_entry d k" "sdb d2 (sno (unat (FstClus f) + 31)) = written w"
    "length (activelist s2) = 10" "a_RefCnt (activelist s2 ! i) = 0" "out s2 = out ?s1"
    using close_file_short[of ?s1 i k "written w" f] a1 d(2) assms(3,5,6,8,11) by (auto simp: written_def)
  have ch: "fat_chain (vol s2) [unat (FstClus f)]"
    using s2(3,5) d(3) c by (simp add: word_le_nat_alt)
  obtain j s3 a where j: "open_file p ReadOnly s2 = Inr (Some j, s3)" "a_file a = p" "ac_get (Some j) s3 = Inr a" "vol s3 = vol s2" "out s3 = out s2" "fget p s3 = fget p s2"
    using open_file_ok[OF s2(7) assms(3) s2(8)] by blast
  have "0 \<notin> set w"
    using assms(9) by (auto simp: typed_def)
  then obtain s4 where "read_file (Some j) s3 = Some (Inr s4)" "out s4 = out s3 @ w @ [0xA]"
    using read_file_one_cluster[of s3 "Some j" a "f\<lparr>FileSize := word_of_nat (length w)\<rparr>" w "replicate (512 - length w) 0"] j s2 ch assms(8,10,11)
    by (auto simp: written_def)
  then show ?thesis
    using w1 s2 ch j by auto
qed

definition fs_open :: fs where
  "fs_open = (fs_on disk1)\<lparr>filelist := (replicate 100 File0)[0 := File0\<lparr>FstClus := 2, used := True\<rparr>], inp := c_string ''hi'' @ [0xA],
     activelist := (activelist (fs_on disk1))[0 := \<lparr>a_file = F 0, a_RefCnt = 1, a_Type = ReadWrite, a_head = None, a_buffsize = 0, a_used = False\<rparr>]\<rparr>"

lemma fs_open_ok: "wf_fs fs_open" "unused_node fs_open = Some 0" "typed (c_string ''hi'') [] fs_open"
proof -
  show "wf_fs fs_open"
    using disk1_wf(1) by (auto simp: wf_fs_def fs_open_def fs_on_def wf_File_def File0_def set_update_subset_insert[THEN subsetD] dest!: set_update_subset_insert[THEN subsetD])
  show "unused_node fs_open = Some 0"
    by (simp add: unused_node_def fs_open_def fs_on_def upt_conv_Cons)
  show "typed (c_string ''hi'') [] fs_open"
    by (simp add: typed_def fs_open_def is_space_def c_string_def c_char_def)
qed

theorem write_close_read_witness:
  "\<exists>s1 s2 j s3 s4. write_file (Some 0) fs_open = Some (Inr (True, s1)) \<and> close_file (Some 0) s1 = Some (Inr s2) \<and>
     open_file (F 0) ReadOnly s2 = Inr (Some j, s3) \<and> read_file (Some j) s3 = Some (Inr s4) \<and> out s4 = out s1 @ c_string ''hi'' @ [0xA]"
  using write_close_read[OF fs_open_ok(1,2), of 0 "F 0" "File0\<lparr>FstClus := 2, used := True\<rparr>" "c_string ''hi''" "[]"] fs_open_ok(3)
  by (fastforce simp: fs_open_def fs_on_def fget_def c_string_def)

subsection \<open>Texts of a sector and more\<close>

lemma write_file_loop_overrun:
  "ix < 512 \<Longrightarrow> 512 \<le> ix + length t \<Longrightarrow> length b = 512 \<Longrightarrow> write_file_loop t ix cnt b now c s = Inl OutOfBounds"
proof (induction t arbitrary: ix b)
  case (Cons x t)
  show ?case
  proof (cases "ix = 511")
    case False
    then show ?thesis
      using Cons.IH[of "Suc ix" "b[ix := x]"] Cons.prems by (simp add: BytePerSec_def)
  qed (use Cons.prems in \<open>simp add: BytePerSec_def\<close>)
qed simp

text \<open>
  A text of 512 to 999 characters makes \<^verbatim>\<open>write_file\<close> write behind its local array: at the last byte of the first sector
  it sets \<^verbatim>\<open>buff[id + 1]\<close>, which is \<^verbatim>\<open>buff[512]\<close>. So only texts of less than one sector are written safely.
\<close>

theorem write_file_overruns_buffer:
  assumes "wf_fs s" "i < 10" "a_Type (activelist s ! i) \<noteq> ReadOnly" "fget (a_file (activelist s ! i)) s = Inr f"
    and "typed w rest s" "512 \<le> length w" "length w < 1000"
  shows "write_file (Some i) s = Some (Inl OutOfBounds)"
proof -
  obtain k s1 where g: "get_empty_AFBLNode s = Inr (k, s1)" "inp s1 = inp s" "activelist s1 = activelist s" "\<And>p. fget p s1 = fget p s"
    using get_empty_AFBLNode_eq[of s] assms(1) by (cases "unused_node s") (auto simp: wf_fs_def)
  let ?s2 = "s1\<lparr>activelist := (activelist s)[i := (activelist s ! i)\<lparr>a_head := k\<rparr>]\<rparr>"
  have len: "i < length (activelist s)"
    using assms(1,2) by (simp add: wf_fs_def)
  have "typed w rest (print (c_string ''Please enter content: '' @ [0xA]) ?s2)"
    using assms(5) g(2) by (simp add: typed_def print_def)
  from scan_str_typed[OF this, of "replicate 1024 0"] assms(7)
  obtain s3 where sc: "scan_str (replicate 1024 0) (print (c_string ''Please enter content: '' @ [0xA]) ?s2) = Some (Inr (w @ 0 # replicate (1023 - length w) 0, s3))"
    by auto
  have "str_of (w @ 0 # replicate (1023 - length w) 0) = Inr w"
    using assms(5) by (auto simp: typed_def)
  then show ?thesis
    using assms(3,4,6) len g sc write_file_loop_overrun[of 0 w "replicate 512 0"] by (simp add: write_file_def ac_get_def ac_upd_def)
qed

theorem write_file_overruns_buffer_witness:
  "write_file (Some 0) (fs_open\<lparr>inp := replicate 600 0x61 @ [0xA]\<rparr>) = Some (Inl OutOfBounds)"
proof -
  have "wf_fs (fs_open\<lparr>inp := replicate 600 0x61 @ [0xA]\<rparr>)"
    using fs_open_ok(1) by (simp add: wf_fs_def)
  moreover have "typed (replicate 600 0x61) [] (fs_open\<lparr>inp := replicate 600 0x61 @ [0xA]\<rparr>)"
    by (simp add: typed_def is_space_def)
  ultimately show ?thesis
    using write_file_overruns_buffer[of "fs_open\<lparr>inp := replicate 600 0x61 @ [0xA]\<rparr>" 0 "File0\<lparr>FstClus := 2, used := True\<rparr>" "replicate 600 0x61" "[]"]
    by (simp add: fs_open_def fs_on_def fget_def)
qed

end
