(* ===== verification/Fstree.thy ===== *)
theory Fstree
  imports Fsfunc
begin

text \<open>
  The tree of files as a structure: lookups over lists of siblings, \<^verbatim>\<open>try_cd\<close> against a walk over the components of a path, the
  creation of a file in the root directory and the deletion of a file, on the operations of \<open>Fsfunc\<close>.
\<close>

subsection \<open>Looking up and walking the tree\<close>

text \<open>The list of siblings that starts at \<open>p\<close>.\<close>

fun sib_list :: "fs \<Rightarrow> fptr \<Rightarrow> fptr list \<Rightarrow> bool" where
  "sib_list s p [] \<longleftrightarrow> p = FNull"
| "sib_list s p (x # xs) \<longleftrightarrow> p = x \<and> x \<noteq> FNull \<and> (\<exists>f. fget x s = Inr f \<and> length (Filename f) = 11 \<and> sib_list s (NextSib f) xs)"

definition file_at :: "fs \<Rightarrow> fptr \<Rightarrow> File" where
  "file_at s p = (case fget p s of Inr f \<Rightarrow> f | Inl _ \<Rightarrow> rootfile s)"

definition find_name :: "fs \<Rightarrow> fptr list \<Rightarrow> u8 list \<Rightarrow> fptr" where
  "find_name s xs name = (case find (\<lambda>x. Filename (file_at s x) = name) xs of None \<Rightarrow> FNull | Some x \<Rightarrow> x)"

lemma same_name_eq:
  "i + n \<le> length a \<Longrightarrow> i + n \<le> length b \<Longrightarrow> same_name n i a b = Inr (take n (drop i a) = take n (drop i b))"
proof (induction n arbitrary: i)
  case (Suc n)
  then have "take (Suc n) (drop i a) = a ! i # take n (drop (Suc i) a)" "take (Suc n) (drop i b) = b ! i # take n (drop (Suc i) b)"
    by (simp_all add: Cons_nth_drop_Suc[symmetric])
  then show ?case
    using Suc by simp
qed simp

lemma find_sibling_find:
  assumes "sib_list s p xs" "11 \<le> length name"
  shows "find_sibling p name s = Some (Inr (find_name s xs (take 11 name)))"
  using assms
proof (induction xs arbitrary: p)
  case Nil
  then show ?case by (simp add: find_sibling.simps find_name_def)
next
  case (Cons x xs)
  then obtain f where f: "p = x" "x \<noteq> FNull" "fget x s = Inr f" "length (Filename f) = 11" "sib_list s (NextSib f) xs"
    by auto
  have "same_name 11 0 (Filename f) name = Inr (Filename f = take 11 name)"
    using same_name_eq[of 0 11 "Filename f" name] f(4) Cons.prems(2) by simp
  then show ?case
    using Cons.IH[OF f(5) Cons.prems(2)] f by (subst find_sibling.simps) (simp add: find_name_def file_at_def)
qed

text \<open>A set of files closed under taking sons and fathers; \<open>ch\<close> gives the list of sons of each.\<close>

definition tree_on :: "fs \<Rightarrow> fptr set \<Rightarrow> (fptr \<Rightarrow> fptr list) \<Rightarrow> bool" where
  "tree_on s D ch \<longleftrightarrow> (\<forall>p \<in> D. \<exists>f. fget p s = Inr f \<and> sib_list s (FstSon f) (ch p) \<and> set (ch p) \<subseteq> D \<and> (Fa f = FNull \<or> Fa f \<in> D))"

text \<open>The reference: one step for one component of a path, and a whole path.\<close>

definition cd_step :: "fs \<Rightarrow> (fptr \<Rightarrow> fptr list) \<Rightarrow> u8 list \<Rightarrow> fptr \<Rightarrow> fptr" where
  "cd_step s ch c p = (if c = [0x2E] then p else if c = [0x2E, 0x2E] then Fa (file_at s p) else find_name s (ch p) (name83 c))"

fun cd_walk :: "fs \<Rightarrow> (fptr \<Rightarrow> fptr list) \<Rightarrow> u8 list list \<Rightarrow> fptr \<Rightarrow> fptr option" where
  "cd_walk s ch [] p = Some p"
| "cd_walk s ch (c # cs) p = (if cd_step s ch c p = FNull then None else cd_walk s ch cs (cd_step s ch c p))"

definition path_step :: "u8 list \<Rightarrow> u8 list \<Rightarrow> u8 list" where
  "path_step np c = (if c = [0x2E, 0x2E] then parent_path np else if c = [0x2E] then np
     else (if np = [0x2F] then np else np @ [0x2F]) @ upcase c)"

fun path_of :: "u8 list list \<Rightarrow> u8 list" where
  "path_of [] = []"
| "path_of [c] = c"
| "path_of (c # cs) = c @ 0x2F # path_of cs"

lemma name83_dot: "name83 c ! 0 = 0x2E \<longleftrightarrow> c = [0x2E] \<or> c = [0x2E, 0x2E]"
proof (cases "c = [0x2E] \<or> c = [0x2E, 0x2E]")
  case True
  then show ?thesis by (auto simp: name83_def padded_def)
next
  case False
  have "padded 8 (name_base c) ! 0 \<noteq> 0x2E"
  proof (cases "name_base c")
    case Nil
    then show ?thesis by (simp add: padded_def)
  next
    case (Cons x xs)
    then have "x \<noteq> 0x2E"
      by (cases c) (auto simp: name_base_def to_upper_props split: if_splits)
    then show ?thesis
      using Cons by (simp add: padded_def)
  qed
  then show ?thesis
    using False by (simp add: name83_def nth_append)
qed

lemma find_name_in: "find_name s xs m = FNull \<or> find_name s xs m \<in> set xs"
  by (induction xs) (auto simp: find_name_def)

lemma dots_differ: "name83 [0x2E] \<noteq> name83 [0x2E, 0x2E]"
  by code_simp

lemma change_directory_step:
  assumes s: "tree_on s D ch" "p \<in> D" and n: "str_of name = Inr (name83 c)"
  shows "change_directory p name s = Some (Inr (cd_step s ch c p)) \<and> (cd_step s ch c p = FNull \<or> cd_step s ch c p \<in> D)"
proof -
  obtain f where f: "fget p s = Inr f" "sib_list s (FstSon f) (ch p)" "set (ch p) \<subseteq> D" "Fa f = FNull \<or> Fa f \<in> D"
    using s by (auto simp: tree_on_def)
  have z: "str_of (lit ''.          '') = Inr (name83 [0x2E])" "str_of (lit ''..         '') = Inr (name83 [0x2E, 0x2E])"
    unfolding name83_dots by (rule str_of_lit; simp add: c_string_def c_char_def)+
  obtain r r' where r: "arr_strcmp name (lit ''.          '') = Inr r" "r = 0 \<longleftrightarrow> name83 c = name83 [0x2E]"
    "arr_strcmp name (lit ''..         '') = Inr r'" "r' = 0 \<longleftrightarrow> name83 c = name83 [0x2E, 0x2E]"
    using arr_strcmp_eq[OF n z(1)] arr_strcmp_eq[OF n z(2)] by auto
  have inj: "name83 c = name83 [0x2E] \<longleftrightarrow> c = [0x2E]" "name83 c = name83 [0x2E, 0x2E] \<longleftrightarrow> c = [0x2E, 0x2E]"
    using name83_dot[of c] name83_dot[of "[0x2E]"] name83_dot[of "[0x2E, 0x2E]"] dots_differ by auto
  have "11 \<le> length name" "take 11 name = name83 c"
    using str_of_bounds[OF n] by auto
  then have fs: "find_sibling (FstSon f) name s = Some (Inr (find_name s (ch p) (name83 c)))"
    using find_sibling_find[OF f(2), of name] by simp
  have "find_name s (ch p) m = FNull \<or> find_name s (ch p) m \<in> D" for m
    using f(3) find_name_in[of s "ch p" m] by auto
  then show ?thesis
    using r inj f fs s(2) by (auto simp: change_directory_def cd_step_def file_at_def)
qed

lemma upname_dots: "upname c = [0x2E, 0x2E] \<longleftrightarrow> c = [0x2E, 0x2E]" "upname c = [0x2E] \<longleftrightarrow> c = [0x2E]"
  by (auto simp: upname_def upcase_def to_upper_props map_eq_Cons_conv)

lemma path_step_length: "length (path_step t c) \<le> length t + 1 + length c"
  using slash_len_le[of t] by (auto simp: path_step_def parent_path_def upcase_def)

lemma new_path_ok:
  assumes fd: "str_of fd = Inr (upname c)" and np: "str_of np = Inr t" "2 \<le> length np" "length t + 1 + length c < length np"
  shows "\<exists>np'. new_path fd np = Inr np' \<and> str_of np' = Inr (path_step t c) \<and> length np' = length np"
proof -
  obtain r1 r2 r3 where r: "arr_strcmp fd (lit ''..'') = Inr r1" "r1 = 0 \<longleftrightarrow> c = [0x2E, 0x2E]" "arr_strcmp fd (lit ''.'') = Inr r2" "r2 = 0 \<longleftrightarrow> c = [0x2E]"
    "arr_strcmp np (lit ''/'') = Inr r3" "r3 = 0 \<longleftrightarrow> t = [0x2F]"
    using arr_strcmp_eq[OF fd, of "lit ''..''"] arr_strcmp_eq[OF fd, of "lit ''.''"] arr_strcmp_eq[OF np(1), of "lit ''/''"] by (fastforce simp: upname_dots)
  show ?thesis
  proof (cases "c = [0x2E, 0x2E] \<or> c = [0x2E]")
    case True
    then show ?thesis
      using r np fa_dir_path_ok[OF np(1,2)] by (auto simp: new_path_def path_step_def)
  next
    case False
    have l: "length (upname c) = length c" "upname c = upcase c"
      using False by (simp_all add: upname_def upcase_def)
    obtain np1 where np1: "(if r3 \<noteq> 0 then arr_strcat np (lit ''/'') else Inr np) = Inr np1" "str_of np1 = Inr (if t = [0x2F] then t else t @ [0x2F])"
      "length np1 = length np"
      using r(6) np arr_strcat_ok[OF np(1), of "lit ''/''" "[0x2F]"] by auto
    have "length (if t = [0x2F] then t else t @ [0x2F]) + length (upname c) < length np1"
      using np(3) np1(3) l(1) by simp
    then obtain np2 where "arr_strcat np1 fd = Inr np2" "str_of np2 = Inr ((if t = [0x2F] then t else t @ [0x2F]) @ upname c)" "length np2 = length np1"
      using arr_strcat_ok[OF np1(2) fd] by blast
    then show ?thesis
      using r False np1 l(2) by (simp add: new_path_def path_step_def)
  qed
qed

definition plain_path :: "u8 list list \<Rightarrow> bool" where
  "plain_path cs \<longleftrightarrow> (\<forall>c \<in> set cs. c \<noteq> [] \<and> 0x2F \<notin> set c)"

lemma path_parts:
  assumes "plain_path (c # cs)"
  shows "path_head (path_of (c # cs)) = c" "path_tail (path_of (c # cs)) = path_of cs" "path_of (c # cs) \<noteq> []" "path_of (c # cs) ! 0 \<noteq> 0x2F"
    "length c + length (path_of cs) \<le> length (path_of (c # cs))" "cs \<noteq> [] \<Longrightarrow> length c + length (path_of cs) + 1 = length (path_of (c # cs))"
proof -
  have c: "c \<noteq> []" "takeWhile (\<lambda>x. x \<noteq> 0x2F) c = c" "dropWhile (\<lambda>x. x \<noteq> 0x2F) c = []" "c ! 0 \<noteq> 0x2F" "\<forall>x \<in> set c. x \<noteq> 0x2F"
    using assms by (cases c; auto simp: plain_path_def takeWhile_eq_all_conv)+
  have p: "path_of (c # cs) = (if cs = [] then c else c @ 0x2F # path_of cs)"
    by (cases cs) simp_all
  show "path_head (path_of (c # cs)) = c" "path_tail (path_of (c # cs)) = path_of cs"
    unfolding p path_head_def path_tail_def using c(1,5) by (simp_all add: c(2,3) takeWhile_append2 dropWhile_append2)
  show "path_of (c # cs) \<noteq> []" "path_of (c # cs) ! 0 \<noteq> 0x2F"
    "length c + length (path_of cs) \<le> length (path_of (c # cs))" "cs \<noteq> [] \<Longrightarrow> length c + length (path_of cs) + 1 = length (path_of (c # cs))"
    unfolding p using c by (simp_all add: nth_append)
qed

lemma try_cd_relative:
  assumes "tree_on s D ch" "p \<in> D" "plain_path cs" "str_of dirPath = Inr (path_of cs)" "length (path_of cs) \<le> 30"
    and "str_of np = Inr t" "2 \<le> length np" "length t + length (path_of cs) + 1 < length np"
  shows "\<exists>q np'. try_cd dirPath p np s = Some (Inr (cd_walk s ch cs p \<noteq> None, q, np')) \<and>
    (\<forall>q'. cd_walk s ch cs p = Some q' \<longrightarrow> q = q' \<and> q \<in> D \<and> str_of np' = Inr (foldl path_step t cs))"
  using assms
proof (induction cs arbitrary: p dirPath np t)
  case Nil
  then show ?case by (subst try_cd.simps) simp
next
  case (Cons c cs)
  note pp = path_parts[OF Cons.prems(3)]
  obtain fd rp where fr: "divede_path dirPath (replicate 50 0) (replicate 50 0) = Inr (fd, rp)" "str_of fd = Inr c" "str_of rp = Inr (path_of cs)"
    using divede_path_ok[OF Cons.prems(4), of "replicate 50 0" "replicate 50 0"] Cons.prems(5) pp by auto
  have "length c \<le> 30"
    using pp(5) Cons.prems(5) by linarith
  then have nl: "length (name_base c) \<le> 30" "length (name_ext c) \<le> 30"
    using length_takeWhile_le[of "\<lambda>x. x \<noteq> 0x2E" c] length_filter_le[of "\<lambda>x. x \<noteq> 0x2E" "dropWhile (\<lambda>x. x \<noteq> 0x2E) c"] length_dropWhile_le[of "\<lambda>x. x \<noteq> 0x2E" c]
    unfolding name_base_def name_ext_def length_map by linarith+
  obtain fd' name where g: "generate_filename fd (replicate 50 0) = Inr (fd', name)" "str_of name = Inr (name83 c)" "str_of fd' = Inr (upname c)"
    using generate_filename_ok[OF fr(2) _ nl, of "replicate 50 0"] by auto
  let ?q = "cd_step s ch c p"
  note step = change_directory_step[OF Cons.prems(1,2) g(2)]
  have tr: "try_cd dirPath p np s = (if ?q = FNull then Some (Inr (False, p, np)) else bindr (Some (new_path fd' np)) (\<lambda>np. try_cd rp ?q np s))"
    using Cons.prems(4) pp fr g step by (subst try_cd.simps) simp
  show ?case
  proof (cases "?q = FNull")
    case True
    then show ?thesis using tr by simp
  next
    case False
    obtain np1 where n1: "new_path fd' np = Inr np1" "str_of np1 = Inr (path_step t c)" "length np1 = length np"
      using new_path_ok[OF g(3) Cons.prems(6,7)] Cons.prems(8) pp(5) by fastforce
    have "length (path_step t c) + length (path_of cs) + 1 < length np1 \<or> cs = []"
      using path_step_length[of t c] pp(6) Cons.prems(8) n1(3) by (cases "cs = []") auto
    then show ?thesis
    proof
      assume l: "length (path_step t c) + length (path_of cs) + 1 < length np1"
      have "plain_path cs" "length (path_of cs) \<le> 30"
        using Cons.prems(3,5) pp(5) by (auto simp: plain_path_def)
      then show ?thesis
        using Cons.IH[of ?q rp np1 "path_step t c"] Cons.prems(1,7) step False fr(3) n1 l tr by auto
    next
      assume "cs = []"
      then show ?thesis
        using tr n1 False fr(3) step by (auto simp: try_cd.simps[of rp])
    qed
  qed
qed

text \<open>
  C21. \<^verbatim>\<open>try_cd\<close> on a finite tree. For a relative path of non-empty components it ends, answers whether every component can be
  followed, and on success leaves the directory that the components lead to in \<^verbatim>\<open>*ptr_to_nowDir\<close> and its path in \<^verbatim>\<open>nowPath\<close>. For the
  same components behind a slash the answer and the path are those of the walk from the root, but the pointer
  of the caller is left at the root directory.
\<close>

theorem try_cd_follows_path:
  assumes "tree_on s D ch" "p \<in> D" "FRoot \<in> D" "plain_path cs" "length (path_of cs) \<le> 30"
    and "str_of dirPath = Inr (path_of cs)" "str_of absPath = Inr (0x2F # path_of cs)"
    and "str_of nowPath = Inr t" "length nowPath = 50" "length t + length (path_of cs) < 49"
  shows "(\<exists>q np. try_cd dirPath p nowPath s = Some (Inr (cd_walk s ch cs p \<noteq> None, q, np)) \<and>
      (\<forall>q'. cd_walk s ch cs p = Some q' \<longrightarrow> q = q' \<and> str_of np = Inr (foldl path_step t cs))) \<and>
    (\<exists>np. try_cd absPath p nowPath s = Some (Inr (cd_walk s ch cs FRoot \<noteq> None, FRoot, np)) \<and>
      (\<forall>q'. cd_walk s ch cs FRoot = Some q' \<longrightarrow> str_of np = Inr (foldl path_step [0x2F] cs)))"
proof -
  have rel: "\<exists>q np. try_cd dirPath p nowPath s = Some (Inr (cd_walk s ch cs p \<noteq> None, q, np)) \<and>
      (\<forall>q'. cd_walk s ch cs p = Some q' \<longrightarrow> q = q' \<and> str_of np = Inr (foldl path_step t cs))"
    using try_cd_relative[OF assms(1,2,4,6,5,8)] assms(9,10) by fastforce
  obtain np1 where np1: "arr_strcpy nowPath (lit ''/'') = Inr np1" "str_of np1 = Inr [0x2F]" "length np1 = 50"
    using arr_strcpy_ok[of "lit ''/''" "[0x2F]" nowPath] assms(9) by auto
  obtain r where r: "absPath = (0x2F # path_of cs) @ 0 # r" "0 \<notin> set (path_of cs)"
    using assms(7) by (auto simp: str_of_eq)
  let ?new = "path_of cs @ 0 # replicate (49 - length (path_of cs)) 0"
  have "replicate (50 - length (path_of cs)) (0 :: u8) = 0 # replicate (49 - length (path_of cs)) 0"
    using assms(5) by (simp add: Suc_diff_le flip: replicate_Suc)
  then have new: "copy_bytes (length (path_of cs)) 0 (replicate 50 0) 1 absPath = Inr ?new" "str_of ?new = Inr (path_of cs)"
    using copy_bytes_ok[of 1 "length (path_of cs)" absPath 0 "replicate 50 0"] r assms(5) by simp_all
  obtain q np where "try_cd ?new FRoot np1 s = Some (Inr (cd_walk s ch cs FRoot \<noteq> None, q, np))"
    "\<forall>q'. cd_walk s ch cs FRoot = Some q' \<longrightarrow> q = q' \<and> str_of np = Inr (foldl path_step [0x2F] cs)"
    using try_cd_relative[OF assms(1,3,4) new(2) assms(5) np1(2)] np1(3) assms(5) by fastforce
  moreover from this(1) have "try_cd absPath p nowPath s = Some (Inr (cd_walk s ch cs FRoot \<noteq> None, FRoot, np))"
    using assms(7) np1(1) new(1) by (subst try_cd.simps) (simp del: One_nat_def)
  ultimately show ?thesis
    using rel by blast
qed

definition fs_bin :: fs where
  "fs_bin = (fs_on disk0)\<lparr>rootfile := File0\<lparr>FstSon := F 0\<rparr>,
     filelist := (replicate 100 File0)[0 := File0\<lparr>Filename := c_string ''BIN        '', Attr := 0x10, Fa := FRoot, used := True\<rparr>]\<rparr>"

lemma fs_bin_tree: "tree_on fs_bin {FRoot, F 0} (\<lambda>p. if p = FRoot then [F 0] else [])"
  by (simp add: tree_on_def fs_bin_def fget_def c_string_def File0_def)

lemma fs_bin_walk: "cd_walk fs_bin (\<lambda>p. if p = FRoot then [F 0] else []) [c_string ''bin''] FRoot = Some (F 0)"
proof -
  have "name83 (c_string ''bin'') = c_string ''BIN        ''" "c_string ''bin'' \<noteq> [0x2E]" "c_string ''bin'' \<noteq> [0x2E, 0x2E]"
    by code_simp+
  moreover have "Filename (file_at fs_bin (F 0)) = c_string ''BIN        ''"
    by (simp add: file_at_def fs_bin_def fget_def)
  ultimately show ?thesis
    by (simp add: cd_step_def find_name_def)
qed

lemma bin_strings: "str_of (lit ''bin'') = Inr (path_of [c_string ''bin''])" "str_of (lit ''/bin'') = Inr (0x2F # path_of [c_string ''bin''])"
  "str_of (0x2F # replicate 49 0) = Inr [0x2F]" "plain_path [c_string ''bin'']" "length (path_of [c_string ''bin'']) = 3"
  by code_simp+

theorem try_cd_follows_path_witness:
  "\<exists>np. try_cd (lit ''bin'') FRoot (0x2F # replicate 49 0) fs_bin = Some (Inr (True, F 0, np)) \<and> str_of np = Inr (c_string ''/BIN'')"
proof -
  have "foldl path_step [0x2F] [c_string ''bin''] = c_string ''/BIN''"
    by code_simp
  then show ?thesis
    using try_cd_follows_path[OF fs_bin_tree, of FRoot "[c_string ''bin'']" "lit ''bin''" "lit ''/bin''" "0x2F # replicate 49 0" "[0x2F]"]
      fs_bin_walk bin_strings by auto
qed

subsection \<open>Creating a file in the root directory\<close>

definition root_sector :: "disk \<Rightarrow> nat option" where
  "root_sector d = find (\<lambda>n. free_slot (sdb d (sno n)) \<noteq> None) [19..<33]"

definition put_dir_entry :: "nat \<Rightarrow> File \<Rightarrow> disk \<Rightarrow> disk" where
  "put_dir_entry n f d = d\<lparr>sdb := (sdb d)(sno n := put_entry (the (free_slot (sdb d (sno n)))) f (sdb d (sno n)))\<rparr>"

lemma create_dir_entry_loop_root:
  assumes "wf_disk (vol s)" "fget file s = Inr f" "length (Filename f) = 11"
  shows "19 \<le> n \<Longrightarrow> n \<le> 33 \<Longrightarrow> create_dir_entry_loop 0 (sno n) file s = Some (Inr (case find (\<lambda>n. free_slot (sdb (vol s) (sno n)) \<noteq> None) [n..<33] of
    None \<Rightarrow> (Some 0, s) | Some n \<Rightarrow> (None, s\<lparr>vol := put_dir_entry n f (vol s)\<rparr>)))"
proof (induction "33 - n" arbitrary: n)
  case 0
  then have "n = 33" by simp
  moreover have "sno 33 = 33"
    by (simp add: sno_def)
  ultimately show ?case
    by (subst create_dir_entry_loop.simps) simp
next
  case (Suc k)
  then have n: "n < 33" "n \<le> 2880" by simp_all
  have "sno n \<noteq> sno 33" "sno 33 = 33"
    using sno_inj[of n 33] n by (simp_all add: sno_def)
  then have ne: "sno n \<noteq> 33" by simp
  have up: "[n..<33] = n # [Suc n..<33]"
    using n by (simp add: upt_conv_Cons)
  have nx: "sno n + 1 = sno (Suc n)"
    by (simp add: sno_def)
  note ce = create_dir_entry_in_sector_eq[OF assms(1,3) n(2)]
  show ?case
  proof (cases "free_slot (sdb (vol s) (sno n))")
    case None
    have "create_dir_entry_loop 0 (sno n) file s = create_dir_entry_loop 0 (sno (Suc n)) file s"
      using assms(2) ne ce None nx by (subst create_dir_entry_loop.simps) (simp add: on_vol_def)
    then show ?thesis
      using Suc.hyps(1)[of "Suc n"] Suc.hyps(2) Suc.prems n up None by simp
  next
    case (Some j)
    then show ?thesis
      using assms(2) ne ce up by (subst create_dir_entry_loop.simps) (simp add: on_vol_def put_dir_entry_def)
  qed
qed

lemma create_dir_entry_root:
  assumes "wf_disk (vol s)" "fget file s = Inr f" "length (Filename f) = 11"
  shows "create_dir_entry FRoot file s = Some (Inr (case root_sector (vol s) of None \<Rightarrow> (False, s) | Some n \<Rightarrow> (True, s\<lparr>vol := put_dir_entry n f (vol s)\<rparr>)))"
proof -
  have "sno 19 = 19"
    by (simp add: sno_def)
  then show ?thesis
    using create_dir_entry_loop_root[OF assms, of 19] by (auto simp: create_dir_entry_def fget_def root_sector_def split: option.splits)
qed

lemma find_upt: "find P [a..<b] = Some n \<Longrightarrow> a \<le> n \<and> n < b \<and> P n"
  by (auto simp: find_Some_iff)

lemma root_sector_Some: "root_sector d = Some n \<Longrightarrow> 19 \<le> n \<and> n \<le> 32 \<and> (\<exists>k < 16. free_slot (sdb d (sno n)) = Some k)"
proof -
  assume "root_sector d = Some n"
  from find_upt[OF this[unfolded root_sector_def]] show ?thesis
    using free_slot_Some by auto
qed

lemma put_dir_entry_props:
  assumes d: "wf_disk d" "root_sector d = Some n" and f: "length (Filename f) = 11"
  shows "wf_disk (put_dir_entry n f d)" "mirrored d \<Longrightarrow> mirrored (put_dir_entry n f d)"
    "k < fat_len \<Longrightarrow> fat_entry (put_dir_entry n f d) k = fat_entry d k"
    "\<exists>k < 16. slot_bytes (sdb (put_dir_entry n f d) (sno n)) k = entry_bytes f (slot_bytes (sdb d (sno n)) k)"
    "s \<noteq> sno n \<Longrightarrow> sdb (put_dir_entry n f d) s = sdb d s"
proof -
  obtain k where n: "19 \<le> n" "n \<le> 32" and k: "k < 16" "free_slot (sdb d (sno n)) = Some k"
    using root_sector_Some[OF d(2)] by auto
  have l: "length (sdb d (sno n)) = 512"
    using wf_sector[OF d(1)] n by simp
  have ne: "sno j \<noteq> sno n" if "j \<le> 18" for j
    using sno_inj[of j n] that n by simp
  show "wf_disk (put_dir_entry n f d)"
    using d(1) put_entry_length[OF l k(1) f] k(2) by (simp add: wf_disk_def put_dir_entry_def)
  show "mirrored d \<Longrightarrow> mirrored (put_dir_entry n f d)"
    using ne by (simp add: mirrored_def put_dir_entry_def)
  show "k < fat_len \<Longrightarrow> fat_entry (put_dir_entry n f d) k = fat_entry d k" for k
    using ne by (intro fat_entry_cong) (simp_all add: put_dir_entry_def)
  show "\<exists>k < 16. slot_bytes (sdb (put_dir_entry n f d) (sno n)) k = entry_bytes f (slot_bytes (sdb d (sno n)) k)"
    using put_entry_slot_bytes[OF l k(1) f k(1)] k by (auto simp: put_dir_entry_def)
  show "s \<noteq> sno n \<Longrightarrow> sdb (put_dir_entry n f d) s = sdb d s"
    by (simp add: put_dir_entry_def)
qed

text \<open>The object of a new file as \<^verbatim>\<open>init_file\<close> fills it.\<close>

definition fresh_File :: "fptr \<Rightarrow> u8 list \<Rightarrow> u8 \<Rightarrow> u16 \<Rightarrow> u16 \<Rightarrow> u16 \<Rightarrow> File \<Rightarrow> File" where
  "fresh_File fa name attr tm dt c x = (new_File x)\<lparr>Fa := fa, Filename := take 11 name, Attr := attr, WrtTime := tm, WrtDate := dt,
     FstClus := c, FileSize := 0, FstSon := FNull, NextSib := FNull\<rparr>"

lemma fresh_object:
  assumes "wf_fs s" "unused_file s = Some i" "11 \<le> length name"
  shows "\<exists>s1. get_empty_file s = Inr (F i, s1) \<and>
    init_file (F i) dir name attr tm dt c 0 s1 = Inr (put_file (F i) (fresh_File dir name attr tm dt c (filelist s ! i)) s)"
proof -
  let ?s1 = "s\<lparr>filelist := (filelist s)[i := new_File (filelist s ! i)]\<rparr>"
  have l: "length (filelist s) = 100" "i < 100"
    using assms(1) unused_file_Some[OF assms(2)] by (simp_all add: wf_fs_def)
  have "fget (F i) ?s1 = Inr (new_File (filelist s ! i))"
    using l by (simp add: fget_def)
  moreover have "copy_bytes 11 0 (Filename (new_File (filelist s ! i))) 0 name = Inr (take 11 name)"
    using copy_whole[of "Filename (new_File (filelist s ! i))" 11 0 name] assms(3) by (simp add: new_File_def)
  ultimately have "init_file (F i) dir name attr tm dt c 0 ?s1 = Inr (put_file (F i) (fresh_File dir name attr tm dt c (filelist s ! i)) s)"
    using fupd_ok[of "F i" ?s1 "new_File (filelist s ! i)"] by (simp add: init_file_def put_file_def fresh_File_def)
  then show ?thesis
    using get_empty_file_eq[OF l(1)] assms(2) by simp
qed

lemma sib_list_put:
  "sib_list s p xs \<Longrightarrow> q \<notin> set xs \<Longrightarrow> sib_list (put_file q x s) p xs"
  by (induction xs arbitrary: p) (auto simp: fget_put_other)

lemma sib_list_valid: "sib_list s p xs \<Longrightarrow> x \<in> set xs \<Longrightarrow> \<exists>f. fget x s = Inr f"
  by (induction xs arbitrary: p) auto

lemma sib_list_vol: "sib_list (s\<lparr>vol := d\<rparr>) p xs = sib_list s p xs"
  by (induction xs arbitrary: p) auto

text \<open>What the volume is after a file with first cluster \<open>e\<close> was entered into the root directory.\<close>

definition entered :: "File \<Rightarrow> nat \<Rightarrow> disk \<Rightarrow> disk \<Rightarrow> bool" where
  "entered f e d d' \<longleftrightarrow> wf_disk d' \<and> (mirrored d \<longrightarrow> mirrored d') \<and>
     (\<forall>k < fat_len. fat_entry d' k = (if k = e then 0xFFF else fat_entry d k)) \<and> sdb d' (sno (e + 31)) = replicate 512 0 \<and>
     (\<exists>n k. 19 \<le> n \<and> n \<le> 32 \<and> k < 16 \<and> slot_free (sdb d (sno n)) k \<and> slot_bytes (sdb d' (sno n)) k = entry_bytes f (slot_bytes (sdb d (sno n)) k) \<and>
       (\<forall>s. 18 < s \<and> s \<noteq> sno n \<and> s \<noteq> sno (e + 31) \<longrightarrow> sdb d' s = sdb d s))"

lemma enter_in_root:
  assumes d: "wf_disk d" "first_free d = Some e" "2 \<le> e" "e \<le> 2849" "root_sector d = Some n" and f: "length (Filename f) = 11"
  shows "\<exists>d1 d2. find_empty_cluster d = Inr (word_of_nat e, d1) \<and> wf_disk d1 \<and> root_sector d1 = Some n \<and>
    write_fat_next_cluster (word_of_nat e) 0xFFF (put_dir_entry n f d1) = Inr d2 \<and> entered f e d d2"
proof -
  have el: "e < fat_len" "unat (word_of_nat e :: u16) = e"
    using first_free_Some[OF d(2)] unat_of_nat_lt[of e, where 'a = 16] by (simp_all add: fat_len_def)
  let ?d1 = "d\<lparr>img := fresh_img d, sdb := (sdb d)(sno (e + 31) := replicate 512 0)\<rparr>"
  have ne: "sno k \<noteq> sno (e + 31)" if "k \<le> 32" for k
    using sno_inj[of k "e + 31"] that d(3,4) by simp
  have d1: "find_empty_cluster d = Inr (word_of_nat e, ?d1)" "wf_disk ?d1" "mirrored d \<longrightarrow> mirrored ?d1"
    using find_empty_cluster_ok[OF d(1,2,4)] fresh_img_props(2)[OF d(1)] ne by (auto simp: wf_disk_def mirrored_def)
  have "root_sector ?d1 = root_sector d"
    unfolding root_sector_def
  proof (rule find_cong[OF refl])
    fix k assume "k \<in> set [19..<33]"
    then show "free_slot (sdb ?d1 (sno k)) \<noteq> None \<longleftrightarrow> free_slot (sdb d (sno k)) \<noteq> None"
      using ne[of k] by (simp add: set_upt del: upt_rec_numeral)
  qed
  then have rs: "root_sector ?d1 = Some n"
    using d(5) by simp
  obtain k where n: "19 \<le> n" "n \<le> 32" and k: "k < 16" "free_slot (sdb ?d1 (sno n)) = Some k"
    using root_sector_Some[OF rs] by auto
  let ?d2 = "put_dir_entry n f ?d1"
  note p = put_dir_entry_props[OF d1(2) rs f]
  have f1: "fat_entry ?d2 j = fat_entry d j" if "j < fat_len" for j
    using p(3)[OF that] ne that fat_entry_cong[of ?d1 d j] by simp
  obtain d3 where d3: "write_fat_next_cluster (word_of_nat e) 0xFFF ?d2 = Inr d3" "wf_disk d3" "mirrored ?d2 \<longrightarrow> mirrored d3"
    "\<forall>j < fat_len. fat_entry d3 j = (if j = e then 0xFFF else fat_entry ?d2 j)" "\<forall>s. 18 < s \<or> s = 0 \<longrightarrow> sdb d3 s = sdb ?d2 s"
    using write_fat_spec[OF p(1), of "word_of_nat e" "0xFFF"] el by (auto simp: word_less_nat_alt)
  have big: "18 < sno (e + 31)" "18 < sno n" "sno n \<noteq> sno (e + 31)"
    using n d(3,4) ne[OF n(2)] by (simp_all add: word_less_nat_alt unat_sno)
  have same: "sdb ?d1 (sno n) = sdb d (sno n)"
    using big(3) by simp
  have "slot_bytes (sdb d3 (sno n)) k = entry_bytes f (slot_bytes (sdb d (sno n)) k)" "slot_free (sdb d (sno n)) k"
    using put_entry_slot_bytes[OF wf_sector[OF d1(2), of n] k(1) f k(1)] k d3(5) big n same free_slot_Some[OF k(2)]
    by (auto simp: put_dir_entry_def)
  moreover have "sdb d3 s = (if s = sno (e + 31) then replicate 512 0 else sdb d s)" if "18 < s" "s \<noteq> sno n" for s
    using d3(5) p(5)[OF that(2)] that by simp
  ultimately have "entered f e d d3"
    unfolding entered_def using d3(2,3,4) f1 n k(1) big p(2) d1(3) by (intro conjI exI[of _ n] exI[of _ k]) simp_all
  then show ?thesis
    using d1(1,2) rs d3(1) by blast
qed

text \<open>\<^verbatim>\<open>create_empty_file\<close> in the root directory, with the state it leaves.\<close>

lemma create_in_root:
  fixes attr :: u8 and tm dt :: u16
  assumes "wf_fs s" "11 \<le> length name" "fget FRoot s = Inr r" "sib_list s (FstSon r) xs"
    and "first_free (vol s) = Some e" "2 \<le> e" "e \<le> 2849" "root_sector (vol s) = Some n" "unused_file s = Some i" "find_name s xs (take 11 name) = FNull"
  defines "f \<equiv> (fresh_File FRoot name attr tm dt (word_of_nat e) (filelist s ! i))\<lparr>NextSib := FstSon r\<rparr>"
  shows "\<exists>d. create_empty_file FRoot name attr tm dt s = Some (Inr (True, put_file FRoot (r\<lparr>FstSon := F i\<rparr>) (put_file (F i) f (s\<lparr>vol := d\<rparr>)))) \<and>
    entered f e (vol s) d"
proof -
  let ?ff = "fresh_File FRoot name attr tm dt (word_of_nat e) (filelist s ! i)"
  have ff: "length (Filename ?ff) = 11"
    using assms(2) by (simp_all add: fresh_File_def)
  obtain d1 d2 where d: "find_empty_cluster (vol s) = Inr (word_of_nat e, d1)" "wf_disk d1" "root_sector d1 = Some n"
    "write_fat_next_cluster (word_of_nat e) 0xFFF (put_dir_entry n ?ff d1) = Inr d2" "entered ?ff e (vol s) d2"
    using enter_in_root[OF _ assms(5-8) ff(1)] assms(1) by (auto simp: wf_fs_def)
  let ?s1 = "s\<lparr>vol := d1\<rparr>" and ?s2 = "put_file (F i) ?ff (s\<lparr>vol := d1\<rparr>)"
  have s1: "wf_fs ?s1" "unused_file ?s1 = Some i"
    using assms(1,9) d(2) by (simp_all add: wf_fs_def unused_file_def)
  then have i: "i < length (filelist s)"
    using unused_file_Some[OF s1(2)] by (simp add: wf_fs_def)
  obtain s1' where o: "get_empty_file ?s1 = Inr (F i, s1')" "init_file (F i) FRoot name attr tm dt (word_of_nat e) 0 s1' = Inr ?s2"
    using fresh_object[OF s1 assms(2), of FRoot attr tm dt "word_of_nat e"] by auto
  have g2: "fget (F i) ?s2 = Inr ?ff" "fget FRoot ?s2 = Inr r"
    using fget_put_same[of "F i" ?s1] fget_put_other[of FRoot "F i"] i assms(3) by (simp_all add: fget_rd)
  have ce: "create_dir_entry FRoot (F i) ?s2 = Some (Inr (True, ?s2\<lparr>vol := put_dir_entry n ?ff d1\<rparr>))"
    using create_dir_entry_root[OF _ g2(1) ff(1)] d(2,3) by simp
  let ?s3 = "?s2\<lparr>vol := d2\<rparr>" let ?s4 = "put_file (F i) f ?s3" let ?s5 = "put_file FRoot (r\<lparr>FstSon := F i\<rparr>) ?s4"
  have g4: "fget FRoot ?s4 = Inr r"
    using fget_put_other[of FRoot "F i" f ?s3] g2 by simp
  have "is_file_exist FRoot name s = Some (Inr FNull)"
    using find_sibling_find[OF assms(4,2)] assms(3,10) by (simp add: is_file_exist_def)
  then have "create_empty_file FRoot name attr tm dt s = Some (Inr (True, ?s5))"
    using d(1,4) uint_not_neg1 o ce g2 fupd_ok[of "F i" ?s3 ?ff] fupd_ok[OF g4(1)] by (simp add: create_empty_file_def on_vol_def vol_do_def f_def)
  moreover have "?s4 = put_file (F i) f (s\<lparr>vol := d2\<rparr>)"
    by (simp add: put_file_def)
  moreover have "entered f e (vol s) d2"
    using d(5) by (simp add: entered_def entry_bytes_def f_def)
  ultimately show ?thesis
    by auto
qed



lemma disk1_root_sector: "root_sector disk1 = Some 19"
proof -
  have "free_slot (replicate 512 0) = Some 0"
    by (simp add: free_slot_def slot_free_def upt_conv_Cons)
  moreover have "sdb disk1 (sno 19) = replicate 512 0"
    by (simp add: disk1_def disk0_def sno_def)
  ultimately show ?thesis
    by (simp add: root_sector_def upt_conv_Cons)
qed


subsection \<open>Deleting a file\<close>

lemma unlink_loop_absent: "sib_list s now zs \<Longrightarrow> file \<notin> set zs \<Longrightarrow> unlink_loop fa file now pre found s = Some (Inr (found, s))"
proof (induction zs arbitrary: now pre)
  case Nil
  then show ?case by (subst unlink_loop.simps) simp
next
  case (Cons z zs)
  then show ?case by (subst unlink_loop.simps) auto
qed

text \<open>The state after \<open>file\<close>, whose successor is \<open>nxt\<close>, was taken out behind \<open>pre\<close> or from the head of the list of \<open>fa\<close>.\<close>

definition unlinked :: "fptr \<Rightarrow> fptr \<Rightarrow> fptr \<Rightarrow> fs \<Rightarrow> fs" where
  "unlinked fa pre nxt s = (if pre = FNull then put_file fa ((file_at s fa)\<lparr>FstSon := nxt\<rparr>) s
     else put_file pre ((file_at s pre)\<lparr>NextSib := nxt\<rparr>) s)"

lemma fget_file_at: "fget p s = Inr f \<Longrightarrow> file_at s p = f"
  by (simp add: file_at_def)

lemma unlink_loop_found:
  assumes "sib_list s now (zs @ file # ys)" "distinct (zs @ file # ys)" "fa \<notin> set (zs @ file # ys)" "fget fa s = Inr d" "fget file s = Inr f"
    and "pre = FNull \<or> (pre \<notin> set (zs @ file # ys) \<and> (\<exists>g. fget pre s = Inr g))"
  shows "unlink_loop fa file now pre found s = Some (Inr (True, unlinked fa (if zs = [] then pre else last zs) (NextSib f) s))"
  using assms
proof (induction zs arbitrary: now pre found)
  case Nil
  let ?s = "unlinked fa pre (NextSib f) s"
  have now: "now = file" "file \<noteq> FNull" "sib_list s (NextSib f) ys"
    using Nil by auto
  have upd: "(if pre \<noteq> FNull then fupd pre (\<lambda>p. p\<lparr>NextSib := NextSib f\<rparr>) s else fupd fa (\<lambda>p. p\<lparr>FstSon := NextSib f\<rparr>) s) = Inr ?s"
    using Nil fupd_ok[of fa s d] fupd_ok[of pre s] by (auto simp: unlinked_def fget_file_at)
  have "fget file ?s = Inr f" "sib_list ?s (NextSib f) ys"
    using Nil now(3) by (auto simp: unlinked_def fget_put_other sib_list_put)
  then show ?case
    using now upd Nil.prems(2,5) unlink_loop_absent[of ?s "NextSib f" ys "file"] by (subst unlink_loop.simps) simp
next
  case (Cons z zs)
  then obtain g where g: "now = z" "z \<noteq> FNull" "fget z s = Inr g" "sib_list s (NextSib g) (zs @ file # ys)" "z \<noteq> file"
    by auto
  have "unlink_loop fa file now pre found s = unlink_loop fa file (NextSib g) z found s"
    using g by (subst unlink_loop.simps) simp
  then show ?case
    using Cons.IH[OF g(4), of z found] Cons.prems g by auto
qed

lemma sib_list_unlink:
  assumes "sib_list s p (zs @ l # file # ys)" "distinct (zs @ l # file # ys)" "fget file s = Inr f" "fget l s = Inr g"
  shows "sib_list (put_file l (g\<lparr>NextSib := NextSib f\<rparr>) s) p (zs @ l # ys)"
  using assms
proof (induction zs arbitrary: p)
  case Nil
  then show ?case
    using fget_put_same[of l s g] by (auto simp: sib_list_put)
next
  case (Cons z zs)
  then show ?case
    by (auto simp: fget_put_other)
qed

lemma unlinked_sib_list:
  assumes "fget fa s = Inr d" "sib_list s (FstSon d) (zs @ file # ys)" "distinct (zs @ file # ys)" "fa \<notin> set (zs @ file # ys)" "fget file s = Inr f"
  shows "\<exists>d'. fget fa (unlinked fa (if zs = [] then FNull else last zs) (NextSib f) s) = Inr d' \<and>
    sib_list (unlinked fa (if zs = [] then FNull else last zs) (NextSib f) s) (FstSon d') (zs @ ys) \<and>
    fget file (unlinked fa (if zs = [] then FNull else last zs) (NextSib f) s) = Inr f"
proof (cases zs rule: rev_cases)
  case Nil
  then show ?thesis
    using assms fget_put_same[OF assms(1)] by (auto simp: unlinked_def fget_file_at sib_list_put fget_put_other)
next
  case (snoc zs' l)
  then have l: "l \<in> set (zs @ file # ys)" "sib_list s (FstSon d) (zs' @ l # file # ys)"
    using assms(2) by simp_all
  obtain g where g: "fget l s = Inr g" "l \<noteq> FNull"
    using sib_list_valid[OF assms(2) l(1)] by (cases "l = FNull") (auto simp: fget_def)
  have "unlinked fa (last zs) (NextSib f) s = put_file l (g\<lparr>NextSib := NextSib f\<rparr>) s"
    using snoc g by (simp add: unlinked_def fget_file_at)
  then show ?thesis
    using snoc sib_list_unlink[OF l(2) _ assms(5) g(1)] assms l fget_put_other[of fa l] fget_put_other[of "file" l] by (auto)
qed

text \<open>
  C23. \<^verbatim>\<open>delete_file\<close>: for a file in the list of sons of a directory whose clusters form a chain of data clusters, it ends and
  answers true; the list then has the same sons in the same order without the file, its object is free, and exactly its clusters
  are free and zero-filled. The sectors of the root directory are not written, so the entry of the file stays on the volume.
\<close>

theorem delete_file_unlinks:
  assumes "wf_fs s" "fget dir s = Inr d" "sib_list s (FstSon d) (zs @ file # ys)" "distinct (zs @ file # ys)" "dir \<notin> set (zs @ file # ys)"
    and "fget file s = Inr f" "fat_chain (vol s) cs" "distinct cs" "\<forall>c \<in> set cs. 2 \<le> c \<and> c \<le> 2849" "hd cs = unat (FstClus f)"
  shows "\<exists>s' d'. delete_file dir file s = Some (Inr (True, s')) \<and> fget dir s' = Inr d' \<and> sib_list s' (FstSon d') (zs @ ys) \<and>
    fget file s' = Inr (f\<lparr>used := False\<rparr>) \<and> released cs (vol s) (vol s') \<and> (\<forall>n. 19 \<le> n \<and> n \<le> 32 \<longrightarrow> sdb (vol s') (sno n) = sdb (vol s) (sno n))"
proof -
  let ?s1 = "unlinked dir (if zs = [] then FNull else last zs) (NextSib f) s"
  have del: "delete_file_from_fa dir file s = Some (Inr (True, ?s1))"
    using unlink_loop_found[OF assms(3-5,2,6), of FNull False] assms(2) by (simp add: delete_file_from_fa_def)
  obtain d' where d': "fget dir ?s1 = Inr d'" "sib_list ?s1 (FstSon d') (zs @ ys)" "fget file ?s1 = Inr f"
    using unlinked_sib_list[OF assms(2-6)] by blast
  have wf: "wf_disk (vol s)" "vol ?s1 = vol s"
    using assms(1) by (simp_all add: wf_fs_def unlinked_def)
  obtain v where v: "clear_file file ?s1 = Some (Inr (?s1\<lparr>vol := v\<rparr>))" "released cs (vol s) v"
    using clear_file_chain[of ?s1 "file" f cs] assms(7-10) wf d'(3) by auto
  let ?s2 = "put_file file (f\<lparr>used := False\<rparr>) (?s1\<lparr>vol := v\<rparr>)"
  have run: "delete_file dir file s = Some (Inr (True, ?s2))"
    using del v(1) fupd_ok[of "file" "?s1\<lparr>vol := v\<rparr>" f] d'(3) by (simp add: delete_file_def)
  have "file \<noteq> dir" "file \<notin> set (zs @ ys)"
    using assms(4,5) by auto
  then have "fget dir ?s2 = Inr d'" "sib_list ?s2 (FstSon d') (zs @ ys)" "fget file ?s2 = Inr (f\<lparr>used := False\<rparr>)"
    using d' fget_put_other[of dir "file"] fget_put_same[of "file" "?s1\<lparr>vol := v\<rparr>" f] by (auto simp: sib_list_put sib_list_vol)
  moreover have "sdb v (sno n) = sdb (vol s) (sno n)" if "19 \<le> n \<and> n \<le> 32" for n
  proof -
    have "sno n \<noteq> sno (c + 31)" if "c \<in> set cs" for c
      using sno_inj[of n "c + 31"] assms(9) that \<open>19 \<le> n \<and> n \<le> 32\<close> by force
    moreover have "18 < sno n"
      using that by (simp add: word_less_nat_alt unat_sno)
    ultimately show ?thesis
      using v(2) by (auto simp: released_def)
  qed
  ultimately show ?thesis
    using run v(2) by auto
qed

definition fs_son :: fs where
  "fs_son = (fs_on disk1)\<lparr>rootfile := File0\<lparr>FstSon := F 0\<rparr>, filelist := (replicate 100 File0)[0 := File0\<lparr>FstClus := 2, used := True\<rparr>]\<rparr>"

lemma fs_son_wf: "wf_fs fs_son"
  using disk1_wf(1) by (auto simp: wf_fs_def fs_son_def fs_on_def wf_File_def File0_def dest!: set_update_subset_insert[THEN subsetD])

theorem delete_file_unlinks_witness:
  "\<exists>s' d'. delete_file FRoot (F 0) fs_son = Some (Inr (True, s')) \<and> fget FRoot s' = Inr d' \<and> FstSon d' = FNull \<and> fat_entry (vol s') 2 = 0"
  using delete_file_unlinks[OF fs_son_wf, of FRoot "File0\<lparr>FstSon := F 0\<rparr>" "[]" "F 0" "[]" "File0\<lparr>FstClus := 2, used := True\<rparr>" "[2]"]
  by (auto simp: fs_son_def fget_def File0_def disk1_entries fat_len_def released_def)

end
