(* ===== verification/Shell.thy ===== *)
theory Shell
  imports Fscontent Fstree
begin

text \<open>
  The shell of \<^verbatim>\<open>src/kernel/shell.c\<close> with \<^verbatim>\<open>shell_help\<close> and \<^verbatim>\<open>shell_exec\<close> of \<^verbatim>\<open>src/filesystem/fsfunc.c\<close> and the information on the boot sector of
  \<^verbatim>\<open>src/filesystem/disk.c\<close> and \<^verbatim>\<open>filesystem_init\<close> of \<^verbatim>\<open>src/filesystem/filesystem.c\<close>: it reads a word, runs the command of this name and prints the prompt. One round of its endless loop is a definition; a session is a
  number of rounds. The state of the shell is the current directory, the array with its path and the file system.

  \<^verbatim>\<open>shell_exec\<close> runs a program of the user in a new process: what this does to the state of the file system until \<^verbatim>\<open>wait\<close> returns is an argument.
\<close>

subsection \<open>The commands and the loop\<close>

definition filesystem_init :: "fs \<Rightarrow> fs run" where
  "filesystem_init s = bindr (Some (file_init s)) build_all_tree"

type_synonym shell_state = "fptr \<times> u8 list \<times> fs"

text \<open>\<^verbatim>\<open>printf\<close> formats into an array of 1000 bytes.\<close>

definition printf_text :: "u8 list \<Rightarrow> fs \<Rightarrow> fs res" where
  "printf_text t s = (if length t < 1000 then Inr (print t s) else Inl OutOfBounds)"

definition msg_help :: "u8 list" where
  "msg_help = concat (map (\<lambda>l. c_string l @ [0xA, 0xD])
     [''help: print the instructions and their usage'',
      '''',
      ''        usage: help '',
      '''',
      ''ls: list directory contents '',
      '''',
      ''        usage: ls -l                list information of unhidden files in the directory'',
      ''               ls -al               list information of all files in the directory'',
      '''',
      ''tree: list contents of directories in a tree-like format.'',
      '''',
      ''        usage: tree -L level        level is the max display depth of the directory tree.'',
      ''                                    For example, 'tree -L 3'' @ [CHR 0x27],
      ''                                    By default, hidden files are not shown'',
      ''               tree -aL level       Also show the hidden files'' @ [CHR 0x27],
      '''',
      ''cd: change directory'',
      '''',
      ''        usage: cd relative_path     For example, 'cd subdir/subsubdir' '',
      ''               cd absolute_path     Absolute path is begin with '/'' @ [CHR 0x27],
      ''                                    For example, 'cd /dir/subdir' '',
      '''',
      ''touch: create a new empty file'',
      '''',
      ''        usage: touch filename'',
      '''',
      ''mkdir: create a new empty directory'',
      '''',
      ''        usage: mkdir dirname'',
      '''',
      ''cat: print the content of the file'',
      '''',
      ''        usage: cat filename'',
      '''',
      ''write: write the content of the file'',
      '''',
      ''        usage : write filename'',
      '''',
      ''append: copy the contentt of a file and paste it in the tail of another file'',
      '''',
      ''        usage : append file1 file2 The content of file1 is appended to file2'',
      '''',
      ''rm: delete files'',
      '''',
      ''        usage : rm filename Delete a file'',
      ''                 rm -r dirname Delete the entire directory recursively'',
      '''',
      ''rmdir: delete a empty directory'',
      '''',
      ''        usage : rmdir dirname'',
      ''''])"

definition shell_help :: "fs \<Rightarrow> fs res" where
  "shell_help = printf_text (msg_help @ [0xA])"

definition shell_exec :: "(nat option \<Rightarrow> fs \<Rightarrow> fs run) \<Rightarrow> fptr \<Rightarrow> fs \<Rightarrow> fs run" where
  "shell_exec program nowDir s =
     bindr (locate nowDir s) (\<lambda>(d, filename, s).
     bindr (open_plain ReadOnly d filename s) (\<lambda>(ac, s).
     if ac = None then Some (Inr s) else bindr (program ac s) (\<lambda>s. close_file ac s)))"

definition show_boot_sector_info :: "BootSector \<Rightarrow> fs \<Rightarrow> fs" where
  "show_boot_sector_info b s =
     print (c_string ''--End of Boot Sector Information.--'' @ [0xA, 0xA]) (fold (\<lambda>(t, x) s. print (c_string t @ printf_d x @ [0xA]) s)
       [(''Bytes per sector:  '', ucast (BPB_BytsPerSec b)), (''Sectors per cluster:  '', ucast (BPB_SecPerClus b)),
        (''Number of reserved sectors:  '', ucast (BPB_ResvdSecCnt b)), (''Number of FATs: '', ucast (BPB_NumFATs b)),
        (''Maximum number of root directory entries: '', ucast (BPB_RootEntCnt b)), (''Total sector count(16): '', ucast (BPB_TotSec16 b)),
        (''Media: '', ucast (BPB_Media b)), (''Sectors per FAT: '', ucast (BPB_FATSz16 b)), (''Sectors per track: '', ucast (BPB_SecPerTrk b)),
        (''Number of heads: '', ucast (BPB_NumHeads b)), (''Number of hidden sectors: '', BPB_HiddSec b),
        (''Total sector count for FAT32 (0 for FAT12 and FAT16): '', BPB_TotSec32 b), (''DrvNum: '', ucast (BPB_DrvNum b)),
        (''Boot signature: '', ucast (BS_BootSig b)), (''Volume id: '', BS_VolID b)] s)"

datatype command = Help | Ls | TreeCmd | Cd | Touch | Mkdir | Cat | WriteCmd | Append | Rm | Rmdir | ExecCmd | SdbCmd

text \<open>The chain of comparisons.\<close>

fun match_command :: "u8 list \<Rightarrow> (string \<times> command) list \<Rightarrow> command option res" where
  "match_command inst [] = Inr None"
| "match_command inst ((w, c) # cs) = andthen (arr_strcmp inst (lit w)) (\<lambda>r. if r = 0 then Inr (Some c) else match_command inst cs)"

definition commands :: "(string \<times> command) list" where
  "commands = [(''help'', Help), (''ls'', Ls), (''tree'', TreeCmd), (''cd'', Cd), (''touch'', Touch), (''mkdir'', Mkdir), (''cat'', Cat), (''write'', WriteCmd),
     (''append'', Append), (''rm'', Rm), (''rmdir'', Rmdir), (''exec'', ExecCmd), (''sdb'', SdbCmd)]"

definition keep_dir :: "fptr \<Rightarrow> u8 list \<Rightarrow> fs run \<Rightarrow> shell_state run" where
  "keep_dir nowDir nowPath r = bindr r (\<lambda>s. Some (Inr (nowDir, nowPath, s)))"

definition run_command :: "(nat \<Rightarrow> u8 list) \<Rightarrow> (nat option \<Rightarrow> fs \<Rightarrow> fs run) \<Rightarrow> command option \<Rightarrow> shell_state \<Rightarrow> shell_state run" where
  "run_command sda program c st =
     (case st of (nowDir, nowPath, s) \<Rightarrow>
        case c of
          None \<Rightarrow> Some (Inr (nowDir, nowPath, say ''Invalid command.'' s))
        | Some Help \<Rightarrow> keep_dir nowDir nowPath (Some (shell_help s))
        | Some Ls \<Rightarrow> keep_dir nowDir nowPath (shell_ls nowDir s)
        | Some TreeCmd \<Rightarrow> keep_dir nowDir nowPath (shell_tree nowDir s)
        | Some Cd \<Rightarrow> shell_cd nowDir nowPath s
        | Some Touch \<Rightarrow> keep_dir nowDir nowPath (shell_touch nowDir s)
        | Some Mkdir \<Rightarrow> keep_dir nowDir nowPath (shell_mkdir nowDir s)
        | Some Cat \<Rightarrow> keep_dir nowDir nowPath (shell_cat nowDir s)
        | Some WriteCmd \<Rightarrow> keep_dir nowDir nowPath (shell_write sda nowDir False 0 s)
        | Some Append \<Rightarrow> keep_dir nowDir nowPath (shell_append nowDir s)
        | Some Rm \<Rightarrow> keep_dir nowDir nowPath (shell_rm nowDir s)
        | Some Rmdir \<Rightarrow> keep_dir nowDir nowPath (shell_rmdir nowDir s)
        | Some ExecCmd \<Rightarrow> keep_dir nowDir nowPath (shell_exec program nowDir s)
        | Some SdbCmd \<Rightarrow> keep_dir nowDir nowPath (shell_write_program_to_sdb sda s))"

text \<open>The prompt is the path and a colon, behind a line end after a command.\<close>

definition prompt :: "u8 list \<Rightarrow> u8 list \<Rightarrow> fs \<Rightarrow> fs res" where
  "prompt before nowPath s = andthen (str_of nowPath) (\<lambda>t. Inr (print (before @ t @ [0x3A]) s))"

text \<open>One round of the loop; the array \<^verbatim>\<open>inst\<close> keeps what earlier words left behind their end, which no string function reads.\<close>

definition shell_round :: "(nat \<Rightarrow> u8 list) \<Rightarrow> (nat option \<Rightarrow> fs \<Rightarrow> fs run) \<Rightarrow> shell_state \<Rightarrow> shell_state run" where
  "shell_round sda program st =
     (case st of (nowDir, nowPath, s) \<Rightarrow>
        bindr (scan_str (replicate 50 0) s) (\<lambda>(inst, s).
        bindr (Some (match_command inst commands)) (\<lambda>c.
        bindr (run_command sda program c (nowDir, nowPath, s)) (\<lambda>(nowDir, nowPath, s).
        bindr (Some (prompt [0xA] nowPath s)) (\<lambda>s. Some (Inr (nowDir, nowPath, s)))))))"

primrec shell_rounds :: "(nat \<Rightarrow> u8 list) \<Rightarrow> (nat option \<Rightarrow> fs \<Rightarrow> fs run) \<Rightarrow> nat \<Rightarrow> shell_state \<Rightarrow> shell_state run" where
  "shell_rounds sda program 0 st = Some (Inr st)"
| "shell_rounds sda program (Suc n) st = bindr (shell_round sda program st) (shell_rounds sda program n)"

definition shell_start :: "fs \<Rightarrow> shell_state run" where
  "shell_start s =
     bindr (Some (boot_sector_init (vol s))) (\<lambda>(ok, b).
     let s = (case (ok, b) of (True, Some bs) \<Rightarrow>
            show_boot_sector_info bs (print (c_string ''Successfully read boot sector. Now show the information of boot sector: '' @ [0xA]) s)
          | _ \<Rightarrow> s)
     in bindr (Some (arr_strcpy (replicate 50 0) (lit ''/''))) (\<lambda>nowPath.
        bindr (Some (prompt [] nowPath s)) (\<lambda>s. Some (Inr (FRoot, nowPath, s)))))"

subsection \<open>A session\<close>

text \<open>No file is open.\<close>

definition none_open :: "fs \<Rightarrow> bool" where
  "none_open s \<longleftrightarrow> length (activelist s) = 10 \<and> (\<forall>a \<in> set (activelist s). a_file a = FNull \<and> a_RefCnt a = 0)"

definition opened :: "fptr \<Rightarrow> FileOpenType \<Rightarrow> fs \<Rightarrow> fs" where
  "opened p Type s = s\<lparr>active_cnt := active_cnt s + 1,
     activelist := (activelist s)[0 := (activelist s ! 0)\<lparr>a_file := p, a_RefCnt := 1, a_Type := Type, a_head := None, a_buffsize := 0\<rparr>]\<rparr>"

lemma open_shared_none: "none_open s \<Longrightarrow> p \<noteq> FNull \<Longrightarrow> i + n \<le> 10 \<Longrightarrow> open_shared n i p Type s = Inr (None, s)"
  by (induction n arbitrary: i) (auto simp: none_open_def)

lemma open_file_first:
  assumes "none_open s" "p \<noteq> FNull"
  shows "open_file p Type s = Inr (Some 0, opened p Type s)"
proof -
  have "0 < length (activelist s)" "a_RefCnt (activelist s ! 0) = 0"
    using assms(1) by (auto simp: none_open_def)
  then have "open_fresh (Suc n) 0 p Type s = Inr (Some 0, opened p Type s)" for n
    by (simp add: active_file_open_def ac_upd_def opened_def)
  from this[of 9] show ?thesis
    using open_shared_none[OF assms, of 0 10] by (simp add: open_file_def MAX_ACTIVE_CNT_def)
qed

text \<open>The chain of comparisons looks the word up.\<close>

lemma match_command_lookup:
  assumes "str_of inst = Inr t"
  shows "\<forall>(w, c) \<in> set cs. 0 \<notin> set (c_string w) \<Longrightarrow> match_command inst cs = Inr (map_of (map (\<lambda>(w, c). (c_string w, c)) cs) t)"
proof (induction cs)
  case (Cons p cs)
  obtain w c where p: "p = (w, c)"
    by (cases p)
  then obtain r where "arr_strcmp inst (lit w) = Inr r" "r = 0 \<longleftrightarrow> t = c_string w"
    using arr_strcmp_eq[OF assms str_of_lit] Cons.prems by auto
  then show ?case
    using Cons p by auto
qed simp

lemma commands_nonzero: "\<forall>(w, c) \<in> set commands. 0 \<notin> set (c_string w)"
  by (simp add: commands_def c_string_def c_char_def)

lemma shell_round_typed:
  assumes "typed w rest s" "length w < 50" "str_of np = Inr t"
    and "run_command sda prog (map_of (map (\<lambda>(w, c). (c_string w, c)) commands) w) (dir, np, s\<lparr>inp := rest\<rparr>) = Some (Inr (dir, np, s'))"
  shows "shell_round sda prog (dir, np, s) = Some (Inr (dir, np, print (0xA # t @ [0x3A]) s'))"
proof -
  have "scan_str (replicate 50 0) s = Some (Inr (w @ 0 # replicate (49 - length w) 0, s\<lparr>inp := rest\<rparr>))"
    using scan_str_typed[OF assms(1), of "replicate 50 0"] assms(2) by simp
  moreover have "str_of (w @ 0 # replicate (49 - length w) 0) = Inr w"
    using assms(1) by (intro str_of_mk) (auto simp: typed_def)
  ultimately show ?thesis
    using assms(3,4) match_command_lookup[OF _ commands_nonzero] by (simp add: shell_round_def prompt_def)
qed

text \<open>A name without a directory in front of it.\<close>

definition plain_name :: "u8 list \<Rightarrow> bool" where
  "plain_name t \<longleftrightarrow> length t < 50 \<and> (\<forall>c \<in> set t. \<not> is_space c \<and> c \<noteq> 0 \<and> c \<noteq> 0x2F) \<and> length (name_base t) \<le> 30 \<and> length (name_ext t) \<le> 30"

lemma last_slash_None: "n \<le> length t \<Longrightarrow> 0x2F \<notin> set t \<Longrightarrow> last_slash n t = None"
  by (induction n) (auto simp: in_set_conv_nth)

lemma file_path_plain:
  assumes "plain_name t" "str_of p = Inr t"
  shows "\<exists>d fn. file_path_to_dir_path p (replicate 50 0) (replicate 50 0) = Inr (d, fn) \<and> str_of d = Inr [] \<and> take 11 fn = name83 t \<and> 11 \<le> length fn"
proof -
  have t: "length t < 50" "0 \<notin> set t" "last_slash (length t) t = None"
    using assms(1) last_slash_None[of "length t" t] by (auto simp: plain_name_def)
  have fill: "fill_bytes 4 0 0 (replicate 50 0 :: u8 list) = Inr (replicate 50 0)"
    using fill_behind[of 4 "replicate 50 0" "[]" 0] by (simp add: replicate_append_same[symmetric] flip: replicate_add)
  have s0: "wr (replicate 50 (0 :: u8)) 0 0 = Inr (replicate 50 0)" "str_of (replicate 50 (0 :: u8)) = Inr []"
    using list_update_id[of "replicate 50 (0 :: u8)" 0] by (simp_all add: str_of_def)
  obtain d where d: "standard_dir_path (replicate 50 0) (replicate 50 0) = Inr d" "str_of d = Inr []"
    using standard_dir_path_ok[OF s0(2), of "replicate 50 0"] by (auto simp: std_path_def strip_slash_def)
  let ?s = "t @ replicate (50 - length t) (0 :: u8)"
  have s1: "copy_bytes (length t) 0 (replicate 50 0) 0 t = Inr ?s" "wr ?s (length t) 0 = Inr (t @ 0 # replicate (49 - length t) 0)"
    using copy_bytes_ok[of 0 "length t" t 0 "replicate 50 0"] str_of_terminated[of t ?s] t by (simp_all add: drop_replicate)
  obtain n' fn where g: "generate_filename (t @ 0 # replicate (49 - length t) 0) (replicate 50 0) = Inr (n', fn)" "str_of fn = Inr (name83 t)" "length fn = 50"
    using generate_filename_ok[of "t @ 0 # replicate (49 - length t) 0" t "replicate 50 0"] t assms(1) by (auto simp: plain_name_def)
  then have "take 11 fn = name83 t"
    using str_of_bounds[OF g(2)] by simp
  then show ?thesis
    using assms(2) fill s0 d s1 g t by (simp add: file_path_to_dir_path_def slash_len_def)
qed

lemma locate_plain:
  assumes "plain_name t" "typed t rest s"
  shows "\<exists>fn. locate dir s = Some (Inr (Some dir, fn, s\<lparr>inp := rest\<rparr>)) \<and> take 11 fn = name83 t \<and> 11 \<le> length fn"
proof -
  have t: "length t < 50" "0 \<notin> set t"
    using assms(1) by (auto simp: plain_name_def)
  have sc: "scan_str (replicate 50 0) s = Some (Inr (t @ 0 # replicate (49 - length t) 0, s\<lparr>inp := rest\<rparr>))"
    using scan_str_typed[OF assms(2), of "replicate 50 0"] t by simp
  obtain d fn where d: "file_path_to_dir_path (t @ 0 # replicate (49 - length t) 0) (replicate 50 0) (replicate 50 0) = Inr (d, fn)" "str_of d = Inr []"
    "take 11 fn = name83 t" "11 \<le> length fn"
    using file_path_plain[OF assms(1), of "t @ 0 # replicate (49 - length t) 0"] t by auto
  have "try_cd d dir (replicate 50 0) (s\<lparr>inp := rest\<rparr>) = Some (Inr (True, dir, replicate 50 0))"
    using d(2) by (subst try_cd.simps) simp
  then show ?thesis
    using sc d by (simp add: locate_def locate_path_def)
qed

text \<open>The file the session works on: the first son of the root, in object \<open>i\<close>.\<close>

definition first_son :: "nat \<Rightarrow> File \<Rightarrow> fs \<Rightarrow> bool" where
  "first_son i f s \<longleftrightarrow> FstSon (rootfile s) = F i \<and> i < length (filelist s) \<and> filelist s ! i = f \<and> length (Filename f) = 11 \<and> Attr f = 0x20"

lemma first_son_found:
  assumes "first_son i f s" "take 11 fn = Filename f" "11 \<le> length fn"
  shows "is_file_exist FRoot fn s = Some (Inr (F i))" "fget (F i) s = Inr f"
proof -
  show "fget (F i) s = Inr f"
    using assms(1) by (simp add: first_son_def fget_def)
  moreover have "same_name 11 0 (Filename f) fn = Inr True"
    using same_name_eq[of 0 11 "Filename f" fn] assms by (simp add: first_son_def)
  ultimately show "is_file_exist FRoot fn s = Some (Inr (F i))"
    using assms(1) by (simp add: is_file_exist_def first_son_def fget_def find_sibling.simps[of "F i"])
qed

lemma open_first_son:
  assumes "first_son i f s" "none_open s" "take 11 fn = Filename f" "11 \<le> length fn"
  shows "open_plain Type (Some FRoot) fn s = Some (Inr (Some 0, opened (F i) Type s))"
  using first_son_found[OF assms(1,3,4)] open_file_first[OF assms(2), of "F i"] assms(1) by (simp add: open_plain_def lookup_plain_def first_son_def)

lemma print_fields [simp]:
  "vol (print t s) = vol s" "rootfile (print t s) = rootfile s" "filelist (print t s) = filelist s" "activelist (print t s) = activelist s"
  "AFBLNodelist (print t s) = AFBLNodelist s" "inp (print t s) = inp s" "out (print t s) = out s @ t" "active_cnt (print t s) = active_cnt s"
  by (simp_all add: print_def)

lemma touch_round:
  assumes "wf_fs s" "none_open s" "unused_node s = Some k" "sib_list s (FstSon (rootfile s)) xs"
    and "first_free (vol s) = Some e" "2 \<le> e" "e \<le> 2849" "root_sector (vol s) = Some n" "unused_file s = Some i"
    and nm: "plain_name t" "find_name s xs (name83 t) = FNull" and inp: "typed (c_string ''touch'') r1 s" "typed t r2 (s\<lparr>inp := r1\<rparr>)" and np: "str_of np = Inr p"
  shows "\<exists>s' f. shell_round sda prog (FRoot, np, s) = Some (Inr (FRoot, np, s')) \<and> wf_fs s' \<and> none_open s' \<and> unused_node s' = Some k \<and> inp s' = r2 \<and>
    first_son i f s' \<and> Filename f = name83 t \<and> unat (FstClus f) = e \<and> out s' = out s @ c_string ''Successfully created empty file.'' @ 0xA # 0xA # p @ [0x3A]"
proof -
  let ?s = "s\<lparr>inp := r2\<rparr>"
  obtain fn where fn: "locate FRoot (s\<lparr>inp := r1\<rparr>) = Some (Inr (Some FRoot, fn, ?s))" "take 11 fn = name83 t" "11 \<le> length fn"
    using locate_plain[OF nm(1) inp(2), of FRoot] by auto
  let ?f = "(fresh_File FRoot fn 0x20 (generate_time 0 0) (generate_date (0 + 1900) 1 0) (word_of_nat e) (filelist s ! i))\<lparr>NextSib := FstSon (rootfile s)\<rparr>"
  have fg: "fget q ?s = fget q s" for q
    by (cases q) (simp_all add: fget_def)
  then have sl: "sib_list ?s q xs = sib_list s q xs" "file_at ?s q = file_at s q" for q
    by (induction xs arbitrary: q) (simp_all add: file_at_def split: sum.splits)
  have "find_name ?s xs (take 11 fn) = FNull"
    using nm(2) fn(2) by (simp add: find_name_def sl)
  then obtain d where d: "create_empty_file FRoot fn 0x20 (generate_time 0 0) (generate_date (0 + 1900) 1 0) ?s =
      Some (Inr (True, put_file FRoot ((rootfile s)\<lparr>FstSon := F i\<rparr>) (put_file (F i) ?f (?s\<lparr>vol := d\<rparr>))))" "entered ?f e (vol s) d"
    using create_in_root[of ?s fn "rootfile s" xs e n i "0x20" "generate_time 0 0" "generate_date (0 + 1900) 1 0"] assms(1,4-9) fn(3)
    by (auto simp: wf_fs_def unused_file_def sl fget_def)
  let ?s1 = "put_file FRoot ((rootfile s)\<lparr>FstSon := F i\<rparr>) (put_file (F i) ?f (?s\<lparr>vol := d\<rparr>))"
  have i: "i < 100" "length (filelist s) = 100"
    using unused_file_Some[OF assms(9)] assms(1) by (simp_all add: wf_fs_def)
  have wd: "wf_disk d" "wf_File ?f"
    using d(2) fn(2) i assms(1) by (auto simp: entered_def wf_File_def fresh_File_def new_File_def wf_fs_def)
  have "shell_touch FRoot (s\<lparr>inp := r1\<rparr>) = Some (Inr (say ''Successfully created empty file.'' ?s1))"
    using fn(1) d(1) by (simp add: shell_touch_def)
  then have "shell_round sda prog (FRoot, np, s) = Some (Inr (FRoot, np, print (0xA # p @ [0x3A]) (say ''Successfully created empty file.'' ?s1)))"
    by (intro shell_round_typed[OF inp(1) _ np]) (simp_all add: run_command_def keep_dir_def commands_def c_string_def c_char_def)
  moreover have "wf_fs (print x ?s1)" for x
    using assms(1) wd i by (auto simp: wf_fs_def put_file_def wf_File_def dest!: set_update_subset_insert[THEN subsetD])
  moreover have "first_son i ?f (print x ?s1)" for x
    using i wd(2) by (simp add: first_son_def put_file_def wf_File_def fresh_File_def)
  moreover have "Filename ?f = name83 t" "unat (FstClus ?f) = e"
    using fn(2) assms(7) unat_of_nat_lt[of e, where 'a = 16] by (simp_all add: fresh_File_def)
  ultimately show ?thesis
    using assms(2,3) by (intro exI[of _ "print (0xA # p @ [0x3A]) (say ''Successfully created empty file.'' ?s1)"] exI[of _ ?f])
      (simp add: say_def none_open_def unused_node_def wf_fs_def first_son_def)
qed

lemma opened_fields [simp]:
  "vol (opened p Type s) = vol s" "rootfile (opened p Type s) = rootfile s" "filelist (opened p Type s) = filelist s" "AFBLNodelist (opened p Type s) = AFBLNodelist s"
  "inp (opened p Type s) = inp s" "out (opened p Type s) = out s"
  by (simp_all add: opened_def)

lemma opened_active:
  assumes "none_open s"
  shows "activelist (opened p Type s) ! 0 = (activelist s ! 0)\<lparr>a_file := p, a_RefCnt := 1, a_Type := Type, a_head := None, a_buffsize := 0\<rparr>" "length (activelist (opened p Type s)) = 10"
  using assms by (simp_all add: opened_def none_open_def)

text \<open>Closing the only open file; its size becomes the number of bytes buffered for it.\<close>

lemma closed_first_son:
  assumes "none_open s0" "activelist s = (activelist (opened (F i) Type s0))[0 := a]" "a_file a = F i" "first_son i f s"
  shows "none_open (closed 0 k d f s)" "first_son i (f\<lparr>FileSize := a_buffsize a\<rparr>) (closed 0 k d f s)" "vol (closed 0 k d f s) = d"
    "inp (closed 0 k d f s) = inp s" "out (closed 0 k d f s) = out s"
proof -
  have a: "activelist s ! 0 = a" "0 < length (activelist s)" "activelist s = (activelist s0)[0 := a]"
    using assms(1,2) by (simp_all add: opened_def none_open_def)
  then show "none_open (closed 0 k d f s)"
    using assms(1) by (auto simp: closed_def Let_def none_open_def dest!: set_update_subset_insert[THEN subsetD])
  show "first_son i (f\<lparr>FileSize := a_buffsize a\<rparr>) (closed 0 k d f s)"
    using a assms(3,4) by (simp add: closed_def Let_def first_son_def put_file_def)
qed (simp_all add: closed_def Let_def)

lemma shell_write_round:
  assumes s: "wf_fs s" "none_open s" "unused_node s = Some k" and f: "first_son i f s" "Filename f = name83 t" "unat (FstClus f) = e" "e \<le> 2849"
    and nm: "plain_name t" and inp: "typed (c_string ''write'') r1 s" "typed t r2 (s\<lparr>inp := r1\<rparr>)" "typed w r3 (s\<lparr>inp := r2\<rparr>)" and w: "0 < length w" "length w < 512"
    and np: "str_of np = Inr p"
  shows "\<exists>s'. shell_round sda prog (FRoot, np, s) = Some (Inr (FRoot, np, s')) \<and> wf_disk (vol s') \<and> none_open s' \<and> inp s' = r3 \<and>
    first_son i (f\<lparr>FileSize := word_of_nat (length w)\<rparr>) s' \<and> fat_chain (vol s') [e] \<and> sdb (vol s') (sno (e + 31)) = written w \<and>
    out s' = out s @ c_string ''Please enter content: '' @ 0xA # c_string ''Successfully wroted the file'' @ 0xA # 0xA # p @ [0x3A]"
proof -
  let ?s = "s\<lparr>inp := r2\<rparr>"
  obtain fn where fn: "locate FRoot (s\<lparr>inp := r1\<rparr>) = Some (Inr (Some FRoot, fn, ?s))" "take 11 fn = name83 t" "11 \<le> length fn"
    using locate_plain[OF nm inp(2), of FRoot] by auto
  have no: "none_open ?s" "first_son i f ?s"
    using s(2) f(1) by (simp_all add: none_open_def first_son_def)
  let ?o = "opened (F i) ReadWrite ?s"
  note ac = opened_active[OF no(1), of "F i" ReadWrite]
  have o: "open_plain ReadWrite (Some FRoot) fn ?s = Some (Inr (Some 0, ?o))"
    using open_first_son[OF no(2,1)] fn f(2) by simp
  have wo: "wf_fs ?o" "unused_node ?o = Some k" "typed w r3 ?o" "fget (F i) ?o = Inr f"
    using s(1,3) inp(3) no(2) ac(2) by (simp_all add: wf_fs_def unused_node_def typed_def fget_def first_son_def)
  obtain d where d: "write_fat_next_cluster (FstClus f) 0xFFF (vol s) = Inr d" "wf_disk d"
    "\<forall>k < fat_len. fat_entry d k = (if k = unat (FstClus f) then 0xFFF else fat_entry (vol s) k)"
    using write_fat_spec[of "vol s" "FstClus f" "0xFFF"] s(1) f(3,4) by (auto simp: wf_fs_def word_less_nat_alt fat_len_def)
  let ?s1 = "say ''Successfully wroted the file'' (after_write 0 k w r3 d ?o)"
  have w1: "write_file (Some 0) ?o = Some (Inr (True, after_write 0 k w r3 d ?o))"
    using write_file_short[OF wo(1,2) _ _ _ wo(3) w, of 0 f d] ac wo(4) d(1) by simp
  let ?a = "(activelist ?o ! 0)\<lparr>a_head := Some k, a_buffsize := word_of_nat (length w)\<rparr>"
  have k: "k < 100" "length (AFBLNodelist s) = 100"
    using unused_node_Some[OF s(3)] s(1) by (simp_all add: wf_fs_def)
  have a1: "activelist ?s1 = (activelist ?o)[0 := ?a]" "first_son i f ?s1" "vol ?s1 = d" "fget (F i) ?s1 = Inr f" "activelist ?s1 ! 0 = ?a" "a_file ?a = F i"
    using no(2) ac wo(4) by (simp_all add: say_def after_write_def first_son_def fget_def)
  obtain d2 where d2: "close_file (Some 0) ?s1 = Some (Inr (closed 0 (Some k) d2 f ?s1))" "wf_disk d2" "\<forall>k < fat_len. fat_entry d2 k = fat_entry d k"
      "\<forall>t. sdb d2 t = (if t = sno (unat (FstClus f) + 31) then written w else sdb d t)"
    using close_with_buffer[of ?s1 0 k "written w" f] a1 ac k w(2) d(2) f(3,4) by (auto simp: say_def after_write_def written_def)
  note cl = closed_first_son[OF no(1) a1(1,6,2), of "Some k" d2]
  have "shell_write sda FRoot False 0 (s\<lparr>inp := r1\<rparr>) = Some (Inr (closed 0 (Some k) d2 f ?s1))"
    using fn(1) o w1 d2(1) by (simp add: shell_write_def)
  then have r: "shell_round sda prog (FRoot, np, s) = Some (Inr (FRoot, np, print (0xA # p @ [0x3A]) (closed 0 (Some k) d2 f ?s1)))"
    by (intro shell_round_typed[OF inp(1) _ np]) (simp_all add: run_command_def keep_dir_def commands_def c_string_def c_char_def)
  have "fat_chain d2 [e]"
    using d2(3) d(3) f(3,4) by (simp add: word_le_nat_alt fat_len_def)
  moreover have "out ?s1 = out s @ c_string ''Please enter content: '' @ 0xA # c_string ''Successfully wroted the file'' @ [0xA]" "inp ?s1 = r3"
    by (simp_all add: say_def after_write_def)
  ultimately show ?thesis
    using cl d2(2,4) f(3) by (intro exI[of _ "print (0xA # p @ [0x3A]) (closed 0 (Some k) d2 f ?s1)"]) (simp add: r none_open_def first_son_def)
qed

lemma cat_round:
  assumes s: "wf_disk (vol s)" "none_open s" and f: "first_son i f s" "Filename f = name83 t" "unat (FstClus f) = e" "e \<le> 2849" "FileSize f = word_of_nat (length w)"
    and nm: "plain_name t" and inp: "typed (c_string ''cat'') r1 s" "typed t r2 (s\<lparr>inp := r1\<rparr>)"
    and w: "w \<noteq> []" "length w < 512" "0 \<notin> set w" "fat_chain (vol s) [e]" "sdb (vol s) (sno (e + 31)) = written w" and np: "str_of np = Inr p"
  shows "\<exists>s'. shell_round sda prog (FRoot, np, s) = Some (Inr (FRoot, np, s')) \<and> inp s' = r2 \<and> first_son i (f\<lparr>FileSize := 0\<rparr>) s' \<and> sdb (vol s') = sdb (vol s) \<and>
    out s' = out s @ w @ 0xA # 0xA # p @ [0x3A]"
proof -
  let ?s = "s\<lparr>inp := r2\<rparr>"
  obtain fn where fn: "locate FRoot (s\<lparr>inp := r1\<rparr>) = Some (Inr (Some FRoot, fn, ?s))" "take 11 fn = name83 t" "11 \<le> length fn"
    using locate_plain[OF nm inp(2), of FRoot] by auto
  have no: "none_open ?s" "first_son i f ?s"
    using s(2) f(1) by (simp_all add: none_open_def first_son_def)
  let ?o = "opened (F i) ReadOnly ?s"
  note ac = opened_active[OF no(1), of "F i" ReadOnly]
  have o: "open_plain ReadOnly (Some FRoot) fn ?s = Some (Inr (Some 0, ?o))"
    using open_first_son[OF no(2,1)] fn f(2) by simp
  let ?s1 = "print (w @ [0xA]) (?o\<lparr>vol := (vol s)\<lparr>img := fresh_img (vol s)\<rparr>\<rparr>)" and ?a = "activelist ?o ! 0"
  have g: "fget (F i) ?o = Inr f" "fget (F i) ?s1 = Inr f"
    using no(2) by (simp_all add: fget_def first_son_def)
  have rd: "read_file (Some 0) ?o = Some (Inr ?s1)"
    using read_file_text[of ?o "Some 0" ?a f w "replicate (512 - length w) 0"] s(1) ac g f w by (simp add: ac_get_def written_def)
  have "activelist ?s1 = (activelist ?o)[0 := ?a]"
    by simp
  moreover have "first_son i f ?s1" "activelist ?s1 ! 0 = ?a" "a_file ?a = F i"
    using no(2) ac by (simp_all add: first_son_def)
  ultimately have a1: "activelist ?s1 = (activelist ?o)[0 := ?a]" "first_son i f ?s1" "activelist ?s1 ! 0 = ?a" "a_file ?a = F i"
    by blast+
  note cl = closed_first_son[OF no(1) a1(1,4,2), of None "vol ?s1"]
  have "close_file (Some 0) ?s1 = Some (Inr (closed 0 None (vol ?s1) f ?s1))"
    using close_without_buffers[of 0 ?s1 f] a1 ac g by simp
  then have "shell_cat FRoot (s\<lparr>inp := r1\<rparr>) = Some (Inr (closed 0 None (vol ?s1) f ?s1))"
    using fn(1) o rd by (simp add: shell_cat_def)
  then have r: "shell_round sda prog (FRoot, np, s) = Some (Inr (FRoot, np, print (0xA # p @ [0x3A]) (closed 0 None (vol ?s1) f ?s1)))"
    by (intro shell_round_typed[OF inp(1) _ np]) (simp_all add: run_command_def keep_dir_def commands_def c_string_def c_char_def)
  show ?thesis
    using cl ac by (intro exI[of _ "print (0xA # p @ [0x3A]) (closed 0 None (vol ?s1) f ?s1)"]) (simp add: r first_son_def)
qed

text \<open>What the user types, and a state in which the session can start.\<close>

definition typed_session :: "u8 list \<Rightarrow> u8 list \<Rightarrow> u8 list" where
  "typed_session t w = c_string ''touch '' @ t @ c_string '' write '' @ t @ [0x20] @ w @ c_string '' cat '' @ t @ [0xA]"

definition session_output :: "u8 list \<Rightarrow> u8 list \<Rightarrow> u8 list" where
  "session_output p w = c_string ''Successfully created empty file.'' @ 0xA # 0xA # p @ 0x3A #
     c_string ''Please enter content: '' @ 0xA # c_string ''Successfully wroted the file'' @ 0xA # 0xA # p @ 0x3A # w @ 0xA # 0xA # p @ [0x3A]"

definition session_ready :: "u8 list \<Rightarrow> fptr list \<Rightarrow> nat \<Rightarrow> nat \<Rightarrow> fs \<Rightarrow> bool" where
  "session_ready t xs e i s \<longleftrightarrow> wf_fs s \<and> none_open s \<and> unused_node s \<noteq> None \<and> sib_list s (FstSon (rootfile s)) xs \<and> find_name s xs (name83 t) = FNull \<and>
     first_free (vol s) = Some e \<and> 2 \<le> e \<and> e \<le> 2849 \<and> root_sector (vol s) \<noteq> None \<and> unused_file s = Some i"


definition fs_session :: fs where
  "fs_session = (fs_on disk1)\<lparr>inp := typed_session (c_string ''a.txt'') (c_string ''hello'')\<rparr>"

lemma fs_session_ready: "session_ready (c_string ''a.txt'') [] 3 0 fs_session"
proof -
  have "unused_file fs_session = Some 0"
    using fs_on_unused[of disk1] by (simp add: fs_session_def unused_file_def)
  moreover have "wf_fs fs_session"
    using fs_on_wf[OF disk1_wf(1)] by (simp add: fs_session_def wf_fs_def)
  moreover have "root_sector disk1 \<noteq> None"
    by (simp add: disk1_root_sector)
  ultimately show ?thesis
    using disk1_first_free by (simp add: session_ready_def none_open_def unused_node_def find_name_def fs_session_def fs_on_def File0_def upt_conv_Cons)
qed


text \<open>The text of \<^verbatim>\<open>help\<close> has 1518 characters: formatting it writes outside of the array of \<^verbatim>\<open>printf\<close>.\<close>

lemma shell_help_overruns: "shell_help s = Inl OutOfBounds"
proof -
  have "length msg_help = 1518"
    by (simp add: msg_help_def c_string_def)
  then show ?thesis
    by (simp add: shell_help_def printf_text_def)
qed

end
