(* ===== verification/Readers.thy ===== *)
theory Readers
  imports Sync
begin

text \<open>
  The readers and writers of \<^verbatim>\<open>src/userprog/actualuserprogs/readerwriter.c\<close>: three writers and three readers share a variable; they synchronise with five locks and two
  counters. The functions \<^verbatim>\<open>reader\<close> and \<^verbatim>\<open>writer\<close> are lists of instructions, one for each call of a lock function and each access to a shared variable, and a step relation
  interleaves the processes with each other and with the program that creates them.

  A call of \<^verbatim>\<open>acquire_lock\<close> or \<^verbatim>\<open>release_lock\<close> is one step, possible when the function of \<open>Sync\<close> returns; \<open>lock_acquire_try\<close> and \<open>lock_release_give\<close> relate the two.
\<close>

subsection \<open>Locks as a process sees them\<close>

definition without_waiters :: "lock \<Rightarrow> lock" where
  "without_waiters l = l\<lparr>lock_sema := (lock_sema l)\<lparr>waiters := []\<rparr>\<rparr>"

definition try_acquire :: "u32 \<Rightarrow> lock \<Rightarrow> lock option" where
  "try_acquire t l =
     (if holder l = t then Some (l\<lparr>holder_repeat_cnt := holder_repeat_cnt l + 1\<rparr>)
      else if sema_value (lock_sema l) = 0 then None
      else Some (l\<lparr>holder := t, lock_sema := (lock_sema l)\<lparr>sema_value := sema_value (lock_sema l) - 1\<rparr>, holder_repeat_cnt := 1\<rparr>))"

definition give_back :: "lock \<Rightarrow> lock res" where
  "give_back l =
     (if holder_repeat_cnt l > 1 then Inr (l\<lparr>holder_repeat_cnt := holder_repeat_cnt l - 1\<rparr>)
      else andthen (assert_c ''lock->holder_repeat_cnt == 1'' (holder_repeat_cnt l = 1)) (\<lambda>_.
        Inr (l\<lparr>holder := NULL, holder_repeat_cnt := 0, lock_sema := (lock_sema l)\<lparr>sema_value := sema_value (lock_sema l) + 1\<rparr>\<rparr>)))"

lemma lock_acquire_free:
  assumes "holder l \<noteq> running_thread k" "sema_value (lock_sema l) \<noteq> 0" "lock_acquire l k = Inr r"
  shows "\<exists>l'. r = Done (l', k) \<and> try_acquire (running_thread k) (without_waiters l) = Some (without_waiters l')"
  using assms by (auto simp: lock_acquire_def semaphore_down_def semaphore_down_iter_def k_intr_disable_def k_intr_set_status_def lock_take_def assert_c_def
      try_acquire_def without_waiters_def Let_def split: if_splits)

lemma lock_acquire_try:
  assumes "lock_acquire l k = Inr r"
  shows "case r of Done (l', k') \<Rightarrow> try_acquire (running_thread k) (without_waiters l) = Some (without_waiters l')
     | Blocked (l', k') \<Rightarrow> try_acquire (running_thread k) (without_waiters l) = None \<and> without_waiters l' = without_waiters l"
proof (cases "holder l \<noteq> running_thread k \<and> sema_value (lock_sema l) \<noteq> 0")
  case True
  then show ?thesis
    using lock_acquire_free[OF _ _ assms] by auto
next
  case False
  then show ?thesis
    using assms by (auto simp: lock_acquire_def semaphore_down_def semaphore_down_iter_def k_intr_disable_def andthen_Inr_iff try_acquire_def without_waiters_def split: if_splits)
qed

lemma lock_release_give: "lock_release l k = Inr (l', k') \<Longrightarrow> give_back (without_waiters l) = Inr (without_waiters l')"
  by (auto simp: lock_release_def semaphore_up_def k_intr_disable_def give_back_def without_waiters_def andthen_Inr_iff Let_def assert_c_def split: if_splits list.splits)

subsection \<open>The program\<close>

datatype lockname = RDR | WRT | M | X | Y

text \<open>\<open>UnlessR n j\<close> is the test \<^verbatim>\<open>if (reader_counter == n)\<close>: unless it holds, the instruction number \<open>j\<close> is next.\<close>

datatype instr = Acq lockname | Rel lockname | AddR int | AddW int | UnlessR int nat | UnlessW int nat | ReadData | WriteData | PrintData

definition reader :: "instr list" where
  "reader =
     [Acq RDR, Rel RDR, Acq X, AddR 1, UnlessR 1 7, Acq WRT, Acq M, Rel X,
      ReadData, Acq X, AddR (-1), UnlessR 0 14, Rel WRT, Rel M, Rel X]"

definition writer :: "instr list" where
  "writer =
     [Acq WRT, Rel WRT, Acq Y, AddW 1, UnlessW 1 6, Acq RDR, Rel Y, Acq M,
      WriteData, PrintData, Rel M, Acq Y, AddW (-1), UnlessW 0 15, Rel RDR, Rel Y]"

record rwproc =
  is_reader :: bool
  rw_pid :: int
  rw_at :: nat

text \<open>The shared variables, how many processes were created, and the processes by the addresses of their control blocks. The counters are at most 6.\<close>

record rw =
  reader_counter :: int
  writer_counter :: int
  data :: u8
  locks :: "lockname \<Rightarrow> lock"
  created :: nat
  procs :: "u32 \<rightharpoonup> rwproc"

definition code_of :: "rwproc \<Rightarrow> instr list" where
  "code_of p = (if is_reader p then reader else writer)"

text \<open>The effect of an instruction: the number of the next one, when it is not the one behind, and the state; \<open>None\<close> when the process has to wait.\<close>

definition exec_instr :: "u32 \<Rightarrow> rwproc \<Rightarrow> instr \<Rightarrow> rw \<Rightarrow> (nat option \<times> rw) option res" where
  "exec_instr t p i s =
     (case i of
        Acq l \<Rightarrow> Inr (case try_acquire t (locks s l) of None \<Rightarrow> None | Some l' \<Rightarrow> Some (None, s\<lparr>locks := (locks s)(l := l')\<rparr>))
      | Rel l \<Rightarrow> andthen (give_back (locks s l)) (\<lambda>l'. Inr (Some (None, s\<lparr>locks := (locks s)(l := l')\<rparr>)))
      | AddR n \<Rightarrow> Inr (Some (None, s\<lparr>reader_counter := reader_counter s + n\<rparr>))
      | AddW n \<Rightarrow> Inr (Some (None, s\<lparr>writer_counter := writer_counter s + n\<rparr>))
      | UnlessR n j \<Rightarrow> Inr (Some (if reader_counter s = n then None else Some j, s))
      | UnlessW n j \<Rightarrow> Inr (Some (if writer_counter s = n then None else Some j, s))
      | ReadData \<Rightarrow> Inr (Some (None, s))
      | WriteData \<Rightarrow> Inr (Some (None, s\<lparr>data := 0x61 + word_of_int (rw_pid p mod 26)\<rparr>))
      | PrintData \<Rightarrow> Inr (Some (None, s)))"

text \<open>A move of process \<open>t\<close>; behind the last instruction the loop of the process starts again.\<close>

definition rw_move :: "u32 \<Rightarrow> rw \<Rightarrow> rw option res" where
  "rw_move t s =
     (case procs s t of
        None \<Rightarrow> Inr None
      | Some p \<Rightarrow> andthen (exec_instr t p (code_of p ! rw_at p) s) (\<lambda>r. case r of
          None \<Rightarrow> Inr None
        | Some (j, s') \<Rightarrow> Inr (Some (s'\<lparr>procs := (procs s')(t \<mapsto> p\<lparr>rw_at := (case j of None \<Rightarrow> Suc (rw_at p) | Some j \<Rightarrow> j) mod length (code_of p)\<rparr>)\<rparr>))))"

text \<open>\<^verbatim>\<open>readerwriter\<close> initialises the locks and creates three writers, then three readers.\<close>

definition readerwriter_start :: rw where
  "readerwriter_start = \<lparr>reader_counter = 0, writer_counter = 0, data = 0x61, locks = (\<lambda>_. lock_init), created = 0, procs = Map.empty\<rparr>"

definition rw_fork :: "u32 \<Rightarrow> int \<Rightarrow> rw \<Rightarrow> rw" where
  "rw_fork t n s = s\<lparr>created := Suc (created s), procs := (procs s)(t \<mapsto> \<lparr>is_reader = 3 \<le> created s, rw_pid = n, rw_at = 0\<rparr>)\<rparr>"

inductive rw_step :: "rw \<Rightarrow> rw \<Rightarrow> bool" where
  fork: "created s < 6 \<Longrightarrow> t \<noteq> NULL \<Longrightarrow> procs s t = None \<Longrightarrow> 0 \<le> n \<Longrightarrow> rw_step s (rw_fork t n s)"
| move: "rw_move t s = Inr (Some s') \<Longrightarrow> rw_step s s'"

subsection \<open>The invariant\<close>

text \<open>
  A lock that single processes take (those in \<open>P\<close>) and that a group of processes (among those in \<open>R\<close>) holds together when \<open>G\<close> is true: the first of the group takes it
  and the last one gives it back.
\<close>

definition shared_ok :: "(u32 \<Rightarrow> bool) \<Rightarrow> bool \<Rightarrow> (u32 \<Rightarrow> bool) \<Rightarrow> lock \<Rightarrow> bool" where
  "shared_ok P G R l \<longleftrightarrow> (\<forall>t. P t \<longrightarrow> l = locked_by t) \<and> (G \<longrightarrow> (\<exists>u. R u \<and> l = locked_by u)) \<and> (\<not> G \<and> (\<forall>t. \<not> P t) \<longrightarrow> l = lock_init)"

lemma locked_by_simps [simp]:
  "locked_by t = locked_by u \<longleftrightarrow> t = u" "give_back (locked_by t) = Inr lock_init" "try_acquire t (locked_by u) = (if t = u then Some ((locked_by u)\<lparr>holder_repeat_cnt := 2\<rparr>) else None)"
  "t \<noteq> NULL \<Longrightarrow> try_acquire t lock_init = Some (locked_by t)"
  "locked_by t \<noteq> lock_init" "lock_init \<noteq> locked_by t"
  by (auto simp: locked_by_def lock_init_def semaphore_init_def give_back_def try_acquire_def)

lemma shared_take_single:
  assumes "shared_ok P G R l" "try_acquire t l = Some l'" "t \<noteq> NULL" "\<not> P t" "\<not> R t"
  shows "shared_ok (\<lambda>u. P u \<or> u = t) G R l'"
  using assms by (auto simp: shared_ok_def split: if_splits)

lemma shared_give_single:
  assumes "shared_ok P G R l" "P t" "\<not> R t"
  shows "give_back l = Inr lock_init" "shared_ok (\<lambda>u. P u \<and> u \<noteq> t) G R lock_init"
proof -
  have l: "l = locked_by t" "\<not> G" "\<forall>u. P u \<longrightarrow> u = t"
    using assms unfolding shared_ok_def by (blast, force, metis locked_by_simps(1))
  then show "give_back l = Inr lock_init" "shared_ok (\<lambda>u. P u \<and> u \<noteq> t) G R lock_init"
    by (simp_all add: shared_ok_def)
qed

lemma shared_take_group:
  assumes "shared_ok P False R l" "try_acquire t l = Some l'" "t \<noteq> NULL" "\<not> P t" "R t"
  shows "shared_ok P True R l'"
  using assms by (auto simp: shared_ok_def split: if_splits)

lemma shared_give_group:
  assumes "shared_ok P True R l" "\<forall>u. R u \<longrightarrow> \<not> P u"
  shows "give_back l = Inr lock_init" "shared_ok P False R lock_init"
  using assms by (auto simp: shared_ok_def)

text \<open>Where the processes are: for a reader \<open>True\<close> and the number of its next instruction, for a writer \<open>False\<close>.\<close>

type_synonym places = "u32 \<rightharpoonup> bool \<times> nat"

definition pos :: "rw \<Rightarrow> places" where
  "pos s = (\<lambda>t. map_option (\<lambda>p. (is_reader p, rw_at p)) (procs s t))"

definition among :: "bool \<Rightarrow> nat set \<Rightarrow> places \<Rightarrow> u32 \<Rightarrow> bool" where
  "among b A Q t \<longleftrightarrow> (\<exists>a \<in> A. Q t = Some (b, a))"

text \<open>A lock that one process at a time of kind \<open>b\<close> has, exactly while its place is in \<open>A\<close>.\<close>

definition owner_ok :: "bool \<Rightarrow> nat set \<Rightarrow> (u32 \<times> nat) option \<Rightarrow> lock \<Rightarrow> places \<Rightarrow> bool" where
  "owner_ok b A o1 l Q \<longleftrightarrow>
     (case o1 of None \<Rightarrow> l = lock_init \<and> (\<forall>u. \<not> among b A Q u)
      | Some (t, a) \<Rightarrow> l = locked_by t \<and> Q t = Some (b, a) \<and> a \<in> A \<and> (\<forall>u. among b A Q u \<longrightarrow> u = t))"

lemma owner_is:
  assumes "owner_ok b A o1 l Q" "Q t = Some (b, a)" "a \<in> A"
  shows "o1 = Some (t, a) \<and> l = locked_by t \<and> (\<forall>u. among b A Q u \<longrightarrow> u = t)"
proof -
  have "among b A Q t"
    using assms(2,3) by (auto simp: among_def)
  then show ?thesis
    using assms by (auto simp: owner_ok_def split: option.splits)
qed

lemma among_move:
  assumes "Q t = Some (b, a)"
  shows "among c A (Q(t \<mapsto> (b, a'))) = (if c \<noteq> b then among c A Q else if a' \<in> A then (\<lambda>u. among b A Q u \<or> u = t) else (\<lambda>u. among b A Q u \<and> u \<noteq> t))"
  using assms by (intro ext) (auto simp: among_def)

lemma owner_stays_out: "owner_ok b A o1 l Q \<Longrightarrow> Q t = Some (b, a) \<Longrightarrow> a \<notin> A \<Longrightarrow> a' \<notin> A \<Longrightarrow> owner_ok b A o1 l (Q(t \<mapsto> (b, a')))"
  by (auto simp: owner_ok_def among_move split: option.splits)

lemma owner_other: "owner_ok b A o1 l Q \<Longrightarrow> Q t = Some (c, a) \<Longrightarrow> c \<noteq> b \<Longrightarrow> owner_ok b A o1 l (Q(t \<mapsto> (c, a')))"
  by (auto simp: owner_ok_def among_move split: option.splits)

lemma owner_within:
  assumes "owner_ok b A o1 l Q" "Q t = Some (b, a)" "a \<in> A" "a' \<in> A"
  shows "o1 = Some (t, a)" "owner_ok b A (Some (t, a')) l (Q(t \<mapsto> (b, a')))"
  using owner_is[OF assms(1-3)] assms(2,4) by (auto simp: owner_ok_def among_move)

lemma owner_enters:
  assumes "owner_ok b A o1 l Q" "Q t = Some (b, a)" "a \<notin> A" "a' \<in> A" "try_acquire t l = Some l'" "t \<noteq> NULL"
  shows "o1 = None" "owner_ok b A (Some (t, a')) l' (Q(t \<mapsto> (b, a')))"
proof -
  show "o1 = None"
    using assms by (cases o1) (auto simp: owner_ok_def split: if_splits)
  then show "owner_ok b A (Some (t, a')) l' (Q(t \<mapsto> (b, a')))"
    using assms by (auto simp: owner_ok_def among_move)
qed

lemma owner_leaves:
  assumes "owner_ok b A o1 l Q" "Q t = Some (b, a)" "a \<in> A" "a' \<notin> A"
  shows "o1 = Some (t, a)" "give_back l = Inr lock_init" "owner_ok b A None lock_init (Q(t \<mapsto> (b, a')))"
  using owner_is[OF assms(1-3)] assms(2,4) by (auto simp: owner_ok_def among_move)

lemma among_count:
  assumes "finite (dom Q)" "Q t = Some (b, a)"
  shows "int (card {u. among c A (Q(t \<mapsto> (b, a'))) u}) = int (card {u. among c A Q u}) + (if c = b then (if a' \<in> A then 1 else 0) - (if a \<in> A then 1 else 0) else 0)"
proof (cases "c = b")
  case True
  let ?S = "{u. among b A Q u}"
  have f: "finite ?S"
    by (rule finite_subset[OF _ assms(1)]) (auto simp: among_def)
  have t: "t \<in> ?S \<longleftrightarrow> a \<in> A"
    using assms(2) by (auto simp: among_def)
  have e: "{u. among b A (Q(t \<mapsto> (b, a'))) u} = (if a' \<in> A then insert t ?S else ?S - {t})"
    unfolding among_move[of Q, OF assms(2)] by auto
  have "int (card (insert t ?S)) = int (card ?S) + (if t \<in> ?S then 0 else 1)"
    using card_insert_if[OF f, of t] by simp
  moreover have "int (card (?S - {t})) = int (card ?S) - (if t \<in> ?S then 1 else 0)"
    using card_Diff_singleton_if[of ?S t] card_gt_0_iff[of ?S] f by (auto simp: of_nat_diff)
  ultimately show ?thesis
    unfolding True e t by simp
next
  case False
  then show ?thesis
    unfolding among_move[of Q, OF assms(2)] by simp
qed

text \<open>When a group holds its lock, from the place of the process that has the lock of its counter, and the counter.\<close>

definition group_wrt :: "nat option \<Rightarrow> int \<Rightarrow> bool" where
  "group_wrt o1 c = (case o1 of None \<Rightarrow> 1 \<le> c | Some a \<Rightarrow> if a \<in> {5, 13} then False else if a \<in> {6, 7, 10, 11, 12} then True else if a = 4 then 2 \<le> c else 1 \<le> c)"

definition group_m :: "nat option \<Rightarrow> int \<Rightarrow> bool" where
  "group_m o1 c = (case o1 of None \<Rightarrow> 1 \<le> c | Some a \<Rightarrow> if a \<in> {5, 6} then False else if a \<in> {7, 10, 11, 12, 13} then True else if a = 4 then 2 \<le> c else 1 \<le> c)"

definition group_rdr :: "nat option \<Rightarrow> int \<Rightarrow> bool" where
  "group_rdr o1 c = (case o1 of None \<Rightarrow> 1 \<le> c | Some a \<Rightarrow> if a = 5 then False else if a \<in> {6, 12, 13, 14} then True else if a = 4 then 2 \<le> c else 1 \<le> c)"

definition in_x :: "nat set" where "in_x = {3, 4, 5, 6, 7, 10, 11, 12, 13, 14}"
definition in_y :: "nat set" where "in_y = {3, 4, 5, 6, 12, 13, 14, 15}"
definition counted_r :: "nat set" where "counted_r = {4, 5, 6, 7, 8, 9, 10}"
definition counted_w :: "nat set" where "counted_w = {4, 5, 6, 7, 8, 9, 10, 11, 12}"

definition rw_ok :: "(u32 \<times> nat) option \<Rightarrow> (u32 \<times> nat) option \<Rightarrow> places \<Rightarrow> int \<Rightarrow> int \<Rightarrow> (lockname \<Rightarrow> lock) \<Rightarrow> bool" where
  "rw_ok xo yo Q rc wc L \<longleftrightarrow>
     finite (dom Q) \<and> NULL \<notin> dom Q \<and> (\<forall>t b a. Q t = Some (b, a) \<longrightarrow> a < (if b then 15 else 16)) \<and>
     owner_ok True in_x xo (L X) Q \<and> owner_ok False in_y yo (L Y) Q \<and>
     rc = int (card {t. among True counted_r Q t}) \<and> wc = int (card {t. among False counted_w Q t}) \<and>
     (\<forall>t a. xo = Some (t, a) \<longrightarrow> (a \<in> {5, 6} \<longrightarrow> rc = 1) \<and> (a \<in> {12, 13} \<longrightarrow> rc = 0)) \<and>
     (\<forall>t a. yo = Some (t, a) \<longrightarrow> (a = 5 \<longrightarrow> wc = 1) \<and> (a = 14 \<longrightarrow> wc = 0)) \<and>
     shared_ok (among False {1} Q) (group_wrt (map_option snd xo) rc) (among True UNIV Q) (L WRT) \<and>
     shared_ok (among False {8, 9, 10} Q) (group_m (map_option snd xo) rc) (among True UNIV Q) (L M) \<and>
     shared_ok (among True {1} Q) (group_rdr (map_option snd yo) wc) (among False UNIV Q) (L RDR)"

subsection \<open>Every move keeps the invariant\<close>

lemma rw_okD:
  assumes "rw_ok xo yo Q rc wc L"
  shows "finite (dom Q)" "Q t = Some (b, a) \<Longrightarrow> t \<noteq> NULL" "Q t = Some (True, a) \<Longrightarrow> a < 15" "Q t = Some (False, a) \<Longrightarrow> a < 16"
    "owner_ok True in_x xo (L X) Q" "owner_ok False in_y yo (L Y) Q" "rc = int (card {t. among True counted_r Q t})" "wc = int (card {t. among False counted_w Q t})"
    "shared_ok (among False {1} Q) (group_wrt (map_option snd xo) rc) (among True UNIV Q) (L WRT)"
    "shared_ok (among False {8, 9, 10} Q) (group_m (map_option snd xo) rc) (among True UNIV Q) (L M)"
    "shared_ok (among True {1} Q) (group_rdr (map_option snd yo) wc) (among False UNIV Q) (L RDR)"
    "xo = Some (t, 5) \<Longrightarrow> rc = 1" "xo = Some (t, 6) \<Longrightarrow> rc = 1" "xo = Some (t, 12) \<Longrightarrow> rc = 0" "xo = Some (t, 13) \<Longrightarrow> rc = 0"
    "yo = Some (t, 5) \<Longrightarrow> wc = 1" "yo = Some (t, 14) \<Longrightarrow> wc = 0"
  using assms by (auto simp: rw_ok_def split: if_splits)

lemma among_everywhere: "Q t = Some (b, a) \<Longrightarrow> among c UNIV Q t \<longleftrightarrow> c = b"
  by (auto simp: among_def)

lemma reader_moved:
  assumes ok: "rw_ok xo yo Q rc wc L" and t: "Q t = Some (True, a)" "a' < 15"
    and x: "owner_ok True in_x xo' (L' X) (Q(t \<mapsto> (True, a')))" and y: "L' Y = L Y"
    and c: "rc' = rc + (if a' \<in> counted_r then 1 else 0) - (if a \<in> counted_r then 1 else 0)"
    and f: "\<forall>u b. xo' = Some (u, b) \<longrightarrow> (b \<in> {5, 6} \<longrightarrow> rc' = 1) \<and> (b \<in> {12, 13} \<longrightarrow> rc' = 0)"
    and w: "shared_ok (among False {1} Q) (group_wrt (map_option snd xo') rc') (among True UNIV Q) (L' WRT)"
    and m: "shared_ok (among False {8, 9, 10} Q) (group_m (map_option snd xo') rc') (among True UNIV Q) (L' M)"
    and r: "shared_ok (among True {1} (Q(t \<mapsto> (True, a')))) (group_rdr (map_option snd yo) wc) (among False UNIV Q) (L' RDR)"
  shows "rw_ok xo' yo (Q(t \<mapsto> (True, a'))) rc' wc L'"
proof -
  have d: "among False A (Q(t \<mapsto> (True, a'))) = among False A Q" "among True UNIV (Q(t \<mapsto> (True, a'))) = among True UNIV Q" for A
    using t(1) by (auto simp: among_def fun_eq_iff)
  have "\<forall>u b k. (Q(t \<mapsto> (True, a'))) u = Some (b, k) \<longrightarrow> k < (if b then 15 else 16)" "NULL \<notin> dom (Q(t \<mapsto> (True, a')))"
    using ok t by (auto simp: rw_ok_def)
  moreover have "rc' = int (card {u. among True counted_r (Q(t \<mapsto> (True, a'))) u})"
    using among_count[OF rw_okD(1)[OF ok] t(1), of True counted_r a'] rw_okD(7)[OF ok] c by simp
  moreover have "owner_ok False in_y yo (L' Y) (Q(t \<mapsto> (True, a')))"
    using owner_other[OF rw_okD(6)[OF ok] t(1)] y by simp
  moreover note ok[unfolded rw_ok_def]
  ultimately show ?thesis
    unfolding rw_ok_def d using x f w m r by (elim conjE) (intro conjI, simp, assumption+)
qed

lemma writer_moved:
  assumes ok: "rw_ok xo yo Q rc wc L" and t: "Q t = Some (False, a)" "a' < 16"
    and y: "owner_ok False in_y yo' (L' Y) (Q(t \<mapsto> (False, a')))" and x: "L' X = L X"
    and c: "wc' = wc + (if a' \<in> counted_w then 1 else 0) - (if a \<in> counted_w then 1 else 0)"
    and f: "\<forall>u b. yo' = Some (u, b) \<longrightarrow> (b = 5 \<longrightarrow> wc' = 1) \<and> (b = 14 \<longrightarrow> wc' = 0)"
    and w: "shared_ok (among False {1} (Q(t \<mapsto> (False, a')))) (group_wrt (map_option snd xo) rc) (among True UNIV Q) (L' WRT)"
    and m: "shared_ok (among False {8, 9, 10} (Q(t \<mapsto> (False, a')))) (group_m (map_option snd xo) rc) (among True UNIV Q) (L' M)"
    and r: "shared_ok (among True {1} Q) (group_rdr (map_option snd yo') wc') (among False UNIV Q) (L' RDR)"
  shows "rw_ok xo yo' (Q(t \<mapsto> (False, a'))) rc wc' L'"
proof -
  have d: "among True A (Q(t \<mapsto> (False, a'))) = among True A Q" "among False UNIV (Q(t \<mapsto> (False, a'))) = among False UNIV Q" for A
    using t(1) by (auto simp: among_def fun_eq_iff)
  have "\<forall>u b k. (Q(t \<mapsto> (False, a'))) u = Some (b, k) \<longrightarrow> k < (if b then 15 else 16)" "NULL \<notin> dom (Q(t \<mapsto> (False, a')))"
    using ok t by (auto simp: rw_ok_def)
  moreover have "wc' = int (card {u. among False counted_w (Q(t \<mapsto> (False, a'))) u})"
    using among_count[OF rw_okD(1)[OF ok] t(1), of False counted_w a'] rw_okD(8)[OF ok] c by simp
  moreover have "owner_ok True in_x xo (L' X) (Q(t \<mapsto> (False, a')))"
    using owner_other[OF rw_okD(5)[OF ok] t(1)] x by simp
  moreover note ok[unfolded rw_ok_def]
  ultimately show ?thesis
    unfolding rw_ok_def d using y f w m r by (elim conjE) (intro conjI, simp, assumption+)
qed

lemma disjoint_kinds: "among True UNIV Q u \<Longrightarrow> \<not> among False A Q u" "among False UNIV Q u \<Longrightarrow> \<not> among True A Q u"
  by (auto simp: among_def)

lemma some_inside:
  assumes "finite (dom Q)" "among b A Q t" "c = int (card {t. among b A Q t})"
  shows "1 \<le> c" "among b A Q u \<Longrightarrow> u \<noteq> t \<Longrightarrow> 2 \<le> c"
proof -
  have f: "finite {t. among b A Q t}"
    by (rule finite_subset[OF _ assms(1)]) (auto simp: among_def)
  show "1 \<le> c"
    using f assms(2,3) card_gt_0_iff[of "{t. among b A Q t}"] by (auto simp: Suc_le_eq)
  assume "among b A Q u" "u \<noteq> t"
  then have "card {t, u} \<le> card {t. among b A Q t}"
    using f assms(2) by (intro card_mono) auto
  then show "2 \<le> c"
    using \<open>u \<noteq> t\<close> assms(3) by simp
qed

lemmas places_defs = in_x_def in_y_def counted_r_def counted_w_def group_wrt_def group_m_def group_rdr_def

lemma reader_takes_rdr:
  assumes ok: "rw_ok xo yo Q rc wc L" and t: "Q t = Some (True, 0)" and l: "try_acquire t (L RDR) = Some l'"
  shows "rw_ok xo yo (Q(t \<mapsto> (True, 1))) rc wc (L(RDR := l'))"
proof (rule reader_moved[OF ok t])
  show "owner_ok True in_x xo ((L(RDR := l')) X) (Q(t \<mapsto> (True, 1)))"
    using owner_stays_out[OF rw_okD(5)[OF ok] t] by (simp add: in_x_def)
  show "shared_ok (among True {1} (Q(t \<mapsto> (True, 1)))) (group_rdr (map_option snd yo) wc) (among False UNIV Q) ((L(RDR := l')) RDR)"
    using shared_take_single[OF rw_okD(11)[OF ok] l rw_okD(2)[OF ok t]] t by (simp add: among_move[of Q, OF t]) (simp add: among_def)
qed (use ok in \<open>auto simp: rw_ok_def counted_r_def\<close>)

lemma reader_gives_rdr:
  assumes ok: "rw_ok xo yo Q rc wc L" and t: "Q t = Some (True, 1)"
  shows "give_back (L RDR) = Inr lock_init" "rw_ok xo yo (Q(t \<mapsto> (True, 2))) rc wc (L(RDR := lock_init))"
proof -
  note g = shared_give_single[OF rw_okD(11)[OF ok], of t]
  show "give_back (L RDR) = Inr lock_init"
    using g(1) t by (simp add: among_def)
  show "rw_ok xo yo (Q(t \<mapsto> (True, 2))) rc wc (L(RDR := lock_init))"
  proof (rule reader_moved[OF ok t])
    show "owner_ok True in_x xo ((L(RDR := lock_init)) X) (Q(t \<mapsto> (True, 2)))"
      using owner_stays_out[OF rw_okD(5)[OF ok] t] by (simp add: in_x_def)
    show "shared_ok (among True {1} (Q(t \<mapsto> (True, 2)))) (group_rdr (map_option snd yo) wc) (among False UNIV Q) ((L(RDR := lock_init)) RDR)"
      using g(2) t by (simp add: among_move[of Q, OF t]) (simp add: among_def)
  qed (use ok in \<open>auto simp: rw_ok_def counted_r_def\<close>)
qed

text \<open>A reader takes the lock of the counter: on the way in and on the way out.\<close>

lemma reader_enters:
  assumes ok: "rw_ok xo yo Q rc wc L" and t: "Q t = Some (True, a)" "a = 2 \<or> a = 9" and l: "try_acquire t (L X) = Some l'"
  shows "rw_ok (Some (t, Suc a)) yo (Q(t \<mapsto> (True, Suc a))) rc wc (L(X := l'))"
proof -
  have in_out: "a \<notin> in_x" "Suc a \<in> in_x" "Suc a \<in> counted_r \<longleftrightarrow> a \<in> counted_r" "Suc a < 15" "Suc a \<noteq> 1" "a \<noteq> 1"
    using t(2) by (auto simp: in_x_def counted_r_def)
  note e = owner_enters[OF rw_okD(5)[OF ok] t(1) in_out(1,2) l rw_okD(2)[OF ok t(1)]]
  have rc: "1 \<le> rc" if "a = 9"
    using some_inside(1)[OF rw_okD(1)[OF ok] _ rw_okD(7)[OF ok], of t] t(1) that by (simp add: among_def counted_r_def)
  have g: "group_wrt (Some (Suc a)) rc = group_wrt None rc" "group_m (Some (Suc a)) rc = group_m None rc"
    using t(2) rc by (auto simp: group_wrt_def group_m_def)
  show ?thesis
  proof (rule reader_moved[OF ok t(1) in_out(4)])
    show "shared_ok (among True {1} (Q(t \<mapsto> (True, Suc a)))) (group_rdr (map_option snd yo) wc) (among False UNIV Q) ((L(X := l')) RDR)"
      using rw_okD(11)[OF ok] in_out t(1) by (simp add: among_move[of Q, OF t(1)]) (auto simp: among_def shared_ok_def)
  qed (use ok e g in_out t(2) in \<open>auto simp: rw_ok_def\<close>)
qed

text \<open>A step of the reader that has the lock of the counter.\<close>

lemma reader_within:
  assumes ok: "rw_ok xo yo Q rc wc L" and t: "Q t = Some (True, a)" "a \<in> in_x" "a' \<in> in_x" "a' < 15" and L: "L' X = L X" "L' Y = L Y" "L' RDR = L RDR"
    and c: "rc' = rc + (if a' \<in> counted_r then 1 else 0) - (if a \<in> counted_r then 1 else 0)"
    and f: "(a' \<in> {5, 6} \<longrightarrow> rc' = 1) \<and> (a' \<in> {12, 13} \<longrightarrow> rc' = 0)"
    and w: "shared_ok (among False {1} Q) (group_wrt (Some a') rc') (among True UNIV Q) (L' WRT)"
    and m: "shared_ok (among False {8, 9, 10} Q) (group_m (Some a') rc') (among True UNIV Q) (L' M)"
  shows "rw_ok (Some (t, a')) yo (Q(t \<mapsto> (True, a'))) rc' wc L'"
proof (rule reader_moved[OF ok t(1,4)])
  show "owner_ok True in_x (Some (t, a')) (L' X) (Q(t \<mapsto> (True, a')))"
    using owner_within(2)[OF rw_okD(5)[OF ok] t(1-3)] L(1) by simp
  have "a \<noteq> 1" "a' \<noteq> 1"
    using t(2,3) by (auto simp: in_x_def)
  then show "shared_ok (among True {1} (Q(t \<mapsto> (True, a')))) (group_rdr (map_option snd yo) wc) (among False UNIV Q) (L' RDR)"
    using rw_okD(11)[OF ok] t(1) L(3) by (simp add: among_move[of Q, OF t(1)]) (auto simp: among_def shared_ok_def)
qed (use f w m L(2) c in auto)

lemma reader_owns:
  assumes "rw_ok xo yo Q rc wc L" "Q t = Some (True, a)" "a \<in> in_x"
  shows "xo = Some (t, a)"
  using owner_is[OF rw_okD(5)[OF assms(1)] assms(2,3)] by simp

lemma reader_counts:
  assumes ok: "rw_ok xo yo Q rc wc L" and t: "Q t = Some (True, a)" "(a = 3 \<and> n = 1) \<or> (a = 10 \<and> n = -1)"
  shows "rw_ok (Some (t, Suc a)) yo (Q(t \<mapsto> (True, Suc a))) (rc + n) wc L"
proof -
  have "xo = Some (t, a)"
    using reader_owns[OF ok t(1)] t(2) by (auto simp: in_x_def)
  then show ?thesis
    using rw_okD(9,10)[OF ok] t by (intro reader_within[OF ok t(1)]) (auto simp: places_defs)
qed

lemma reader_tests:
  assumes ok: "rw_ok xo yo Q rc wc L" and t: "Q t = Some (True, a)" "(a = 4 \<and> a' = (if rc = 1 then 5 else 7)) \<or> (a = 11 \<and> a' = (if rc = 0 then 12 else 14))"
  shows "rw_ok (Some (t, a')) yo (Q(t \<mapsto> (True, a'))) rc wc L"
proof -
  have o: "xo = Some (t, a)"
    using reader_owns[OF ok t(1)] t(2) by (auto simp: in_x_def)
  have "1 \<le> rc" if "a = 4"
    using some_inside(1)[OF rw_okD(1)[OF ok] _ rw_okD(7)[OF ok], of t] t(1) that by (simp add: among_def counted_r_def)
  moreover have "0 \<le> rc"
    using rw_okD(7)[OF ok] by simp
  ultimately consider "a = 4" "a' = 5" "rc = 1" | "a = 4" "a' = 7" "2 \<le> rc" | "a = 11" "a' = 12" "rc = 0" | "a = 11" "a' = 14" "1 \<le> rc"
    using t(2) by (cases "rc = 1"; cases "rc = 0") (auto split: if_splits)
  then show ?thesis
    using rw_okD(9,10)[OF ok] o by cases (intro reader_within[OF ok t(1)]; simp add: places_defs)+
qed

lemma reader_takes_wrt:
  assumes ok: "rw_ok xo yo Q rc wc L" and t: "Q t = Some (True, 5)" and l: "try_acquire t (L WRT) = Some l'"
  shows "rw_ok (Some (t, 6)) yo (Q(t \<mapsto> (True, 6))) rc wc (L(WRT := l'))"
proof -
  have o: "xo = Some (t, 5)"
    using reader_owns[OF ok t] by (simp add: in_x_def)
  have "shared_ok (among False {1} Q) False (among True UNIV Q) (L WRT)"
    using rw_okD(9)[OF ok] o by (simp add: group_wrt_def)
  then have "shared_ok (among False {1} Q) True (among True UNIV Q) l'"
    using shared_take_group[OF _ l rw_okD(2)[OF ok t]] t by (simp add: among_def)
  then show ?thesis
    using rw_okD(10)[OF ok] rw_okD(12)[OF ok] t o by (intro reader_within[OF ok t]) (auto simp: places_defs)
qed

lemma reader_takes_m:
  assumes ok: "rw_ok xo yo Q rc wc L" and t: "Q t = Some (True, 6)" and l: "try_acquire t (L M) = Some l'"
  shows "rw_ok (Some (t, 7)) yo (Q(t \<mapsto> (True, 7))) rc wc (L(M := l'))"
proof -
  have o: "xo = Some (t, 6)"
    using reader_owns[OF ok t] by (simp add: in_x_def)
  have "shared_ok (among False {8, 9, 10} Q) False (among True UNIV Q) (L M)"
    using rw_okD(10)[OF ok] o by (simp add: group_m_def)
  then have "shared_ok (among False {8, 9, 10} Q) True (among True UNIV Q) l'"
    using shared_take_group[OF _ l rw_okD(2)[OF ok t]] t by (simp add: among_def)
  then show ?thesis
    using rw_okD(9)[OF ok] t o by (intro reader_within[OF ok t]) (auto simp: places_defs)
qed

lemma reader_gives_wrt:
  assumes ok: "rw_ok xo yo Q rc wc L" and t: "Q t = Some (True, 12)"
  shows "give_back (L WRT) = Inr lock_init" "rw_ok (Some (t, 13)) yo (Q(t \<mapsto> (True, 13))) rc wc (L(WRT := lock_init))"
proof -
  have o: "xo = Some (t, 12)"
    using reader_owns[OF ok t] by (simp add: in_x_def)
  have "shared_ok (among False {1} Q) True (among True UNIV Q) (L WRT)"
    using rw_okD(9)[OF ok] o by (simp add: group_wrt_def)
  note g = shared_give_group[OF this]
  show "give_back (L WRT) = Inr lock_init"
    using g(1) disjoint_kinds(1) by blast
  have "shared_ok (among False {1} Q) False (among True UNIV Q) lock_init"
    using g(2) disjoint_kinds(1) by blast
  then show "rw_ok (Some (t, 13)) yo (Q(t \<mapsto> (True, 13))) rc wc (L(WRT := lock_init))"
    using rw_okD(10)[OF ok] rw_okD(14)[OF ok] t o by (intro reader_within[OF ok t]) (auto simp: places_defs)
qed

lemma reader_gives_m:
  assumes ok: "rw_ok xo yo Q rc wc L" and t: "Q t = Some (True, 13)"
  shows "give_back (L M) = Inr lock_init" "rw_ok (Some (t, 14)) yo (Q(t \<mapsto> (True, 14))) rc wc (L(M := lock_init))"
proof -
  have o: "xo = Some (t, 13)"
    using reader_owns[OF ok t] by (simp add: in_x_def)
  have "shared_ok (among False {8, 9, 10} Q) True (among True UNIV Q) (L M)"
    using rw_okD(10)[OF ok] o by (simp add: group_m_def)
  note g = shared_give_group[OF this]
  show "give_back (L M) = Inr lock_init"
    using g(1) disjoint_kinds(1) by blast
  have "shared_ok (among False {8, 9, 10} Q) False (among True UNIV Q) lock_init"
    using g(2) disjoint_kinds(1) by blast
  then show "rw_ok (Some (t, 14)) yo (Q(t \<mapsto> (True, 14))) rc wc (L(M := lock_init))"
    using rw_okD(9)[OF ok] rw_okD(15)[OF ok] t o by (intro reader_within[OF ok t]) (auto simp: places_defs)
qed

lemma reader_leaves:
  assumes ok: "rw_ok xo yo Q rc wc L" and t: "Q t = Some (True, a)" "(a = 7 \<and> a' = 8) \<or> (a = 14 \<and> a' = 0)"
  shows "give_back (L X) = Inr lock_init" "rw_ok None yo (Q(t \<mapsto> (True, a'))) rc wc (L(X := lock_init))"
proof -
  have in_out: "a \<in> in_x" "a' \<notin> in_x" "a' \<in> counted_r \<longleftrightarrow> a \<in> counted_r" "a' < 15" "a' \<noteq> 1" "a \<noteq> 1"
    using t(2) by (auto simp: in_x_def counted_r_def)
  note e = owner_leaves[OF rw_okD(5)[OF ok] t(1) in_out(1,2)]
  show "give_back (L X) = Inr lock_init"
    by (rule e(2))
  have rc: "1 \<le> rc" if "a = 7"
    using some_inside(1)[OF rw_okD(1)[OF ok] _ rw_okD(7)[OF ok], of t] t(1) that by (simp add: among_def counted_r_def)
  have g: "group_wrt (Some a) rc = group_wrt None rc" "group_m (Some a) rc = group_m None rc"
    using t(2) rc by (auto simp: group_wrt_def group_m_def)
  show "rw_ok None yo (Q(t \<mapsto> (True, a'))) rc wc (L(X := lock_init))"
  proof (rule reader_moved[OF ok t(1) in_out(4)])
    show "shared_ok (among True {1} (Q(t \<mapsto> (True, a')))) (group_rdr (map_option snd yo) wc) (among False UNIV Q) ((L(X := lock_init)) RDR)"
      using rw_okD(11)[OF ok] in_out t(1) by (simp add: among_move[of Q, OF t(1)]) (auto simp: among_def shared_ok_def)
  qed (use ok e g in_out t(2) in \<open>auto simp: rw_ok_def\<close>)
qed

lemma reader_reads:
  assumes ok: "rw_ok xo yo Q rc wc L" and t: "Q t = Some (True, 8)"
  shows "rw_ok xo yo (Q(t \<mapsto> (True, 9))) rc wc L"
proof (rule reader_moved[OF ok t])
  show "owner_ok True in_x xo (L X) (Q(t \<mapsto> (True, 9)))"
    using owner_stays_out[OF rw_okD(5)[OF ok] t] by (simp add: in_x_def)
  show "shared_ok (among True {1} (Q(t \<mapsto> (True, 9)))) (group_rdr (map_option snd yo) wc) (among False UNIV Q) (L RDR)"
    using rw_okD(11)[OF ok] t by (simp add: among_move[of Q, OF t]) (auto simp: among_def shared_ok_def)
qed (use ok in \<open>auto simp: rw_ok_def counted_r_def\<close>)

text \<open>The moves of a writer. Its two locks for single processes are kept when it does not pass their places.\<close>

lemma writer_singles:
  assumes ok: "rw_ok xo yo Q rc wc L" and t: "Q t = Some (False, a)"
  shows "a \<noteq> 1 \<Longrightarrow> a' \<noteq> 1 \<Longrightarrow> shared_ok (among False {1} (Q(t \<mapsto> (False, a')))) (group_wrt (map_option snd xo) rc) (among True UNIV Q) (L WRT)"
    "a' \<in> {8, 9, 10} \<longleftrightarrow> a \<in> {8, 9, 10} \<Longrightarrow> shared_ok (among False {8, 9, 10} (Q(t \<mapsto> (False, a')))) (group_m (map_option snd xo) rc) (among True UNIV Q) (L M)"
proof -
  have "among False A (Q(t \<mapsto> (False, a'))) = among False A Q" if "a' \<in> A \<longleftrightarrow> a \<in> A" for A
    using t that by (auto simp: among_def fun_eq_iff)
  then show "a \<noteq> 1 \<Longrightarrow> a' \<noteq> 1 \<Longrightarrow> shared_ok (among False {1} (Q(t \<mapsto> (False, a')))) (group_wrt (map_option snd xo) rc) (among True UNIV Q) (L WRT)"
    "a' \<in> {8, 9, 10} \<longleftrightarrow> a \<in> {8, 9, 10} \<Longrightarrow> shared_ok (among False {8, 9, 10} (Q(t \<mapsto> (False, a')))) (group_m (map_option snd xo) rc) (among True UNIV Q) (L M)"
    using rw_okD(9,10)[OF ok] by simp_all
qed

lemma writer_takes_wrt:
  assumes ok: "rw_ok xo yo Q rc wc L" and t: "Q t = Some (False, 0)" and l: "try_acquire t (L WRT) = Some l'"
  shows "rw_ok xo yo (Q(t \<mapsto> (False, 1))) rc wc (L(WRT := l'))"
proof (rule writer_moved[OF ok t])
  show "owner_ok False in_y yo ((L(WRT := l')) Y) (Q(t \<mapsto> (False, 1)))"
    using owner_stays_out[OF rw_okD(6)[OF ok] t] by (simp add: in_y_def)
  show "shared_ok (among False {1} (Q(t \<mapsto> (False, 1)))) (group_wrt (map_option snd xo) rc) (among True UNIV Q) ((L(WRT := l')) WRT)"
    using shared_take_single[OF rw_okD(9)[OF ok] l rw_okD(2)[OF ok t]] t by (simp add: among_move[of Q, OF t]) (simp add: among_def)
  show "shared_ok (among False {8, 9, 10} (Q(t \<mapsto> (False, 1)))) (group_m (map_option snd xo) rc) (among True UNIV Q) ((L(WRT := l')) M)"
    using writer_singles(2)[OF ok t] by simp
qed (use ok in \<open>auto simp: rw_ok_def counted_w_def\<close>)

lemma writer_gives_wrt:
  assumes ok: "rw_ok xo yo Q rc wc L" and t: "Q t = Some (False, 1)"
  shows "give_back (L WRT) = Inr lock_init" "rw_ok xo yo (Q(t \<mapsto> (False, 2))) rc wc (L(WRT := lock_init))"
proof -
  note g = shared_give_single[OF rw_okD(9)[OF ok], of t]
  show "give_back (L WRT) = Inr lock_init"
    using g(1) t by (simp add: among_def)
  show "rw_ok xo yo (Q(t \<mapsto> (False, 2))) rc wc (L(WRT := lock_init))"
  proof (rule writer_moved[OF ok t])
    show "owner_ok False in_y yo ((L(WRT := lock_init)) Y) (Q(t \<mapsto> (False, 2)))"
      using owner_stays_out[OF rw_okD(6)[OF ok] t] by (simp add: in_y_def)
    show "shared_ok (among False {1} (Q(t \<mapsto> (False, 2)))) (group_wrt (map_option snd xo) rc) (among True UNIV Q) ((L(WRT := lock_init)) WRT)"
      using g(2) t by (simp add: among_move[of Q, OF t]) (simp add: among_def)
    show "shared_ok (among False {8, 9, 10} (Q(t \<mapsto> (False, 2)))) (group_m (map_option snd xo) rc) (among True UNIV Q) ((L(WRT := lock_init)) M)"
      using writer_singles(2)[OF ok t] by simp
  qed (use ok in \<open>auto simp: rw_ok_def counted_w_def\<close>)
qed

lemma writer_takes_m:
  assumes ok: "rw_ok xo yo Q rc wc L" and t: "Q t = Some (False, 7)" and l: "try_acquire t (L M) = Some l'"
  shows "rw_ok xo yo (Q(t \<mapsto> (False, 8))) rc wc (L(M := l'))"
proof (rule writer_moved[OF ok t])
  show "owner_ok False in_y yo ((L(M := l')) Y) (Q(t \<mapsto> (False, 8)))"
    using owner_stays_out[OF rw_okD(6)[OF ok] t] by (simp add: in_y_def)
  show "shared_ok (among False {8, 9, 10} (Q(t \<mapsto> (False, 8)))) (group_m (map_option snd xo) rc) (among True UNIV Q) ((L(M := l')) M)"
    using shared_take_single[OF rw_okD(10)[OF ok] l rw_okD(2)[OF ok t]] t by (simp add: among_move[of Q, OF t]) (simp add: among_def)
  show "shared_ok (among False {1} (Q(t \<mapsto> (False, 8)))) (group_wrt (map_option snd xo) rc) (among True UNIV Q) ((L(M := l')) WRT)"
    using writer_singles(1)[OF ok t] by simp
qed (use ok in \<open>auto simp: rw_ok_def counted_w_def\<close>)

lemma writer_gives_m:
  assumes ok: "rw_ok xo yo Q rc wc L" and t: "Q t = Some (False, 10)"
  shows "give_back (L M) = Inr lock_init" "rw_ok xo yo (Q(t \<mapsto> (False, 11))) rc wc (L(M := lock_init))"
proof -
  note g = shared_give_single[OF rw_okD(10)[OF ok], of t]
  show "give_back (L M) = Inr lock_init"
    using g(1) t by (simp add: among_def)
  show "rw_ok xo yo (Q(t \<mapsto> (False, 11))) rc wc (L(M := lock_init))"
  proof (rule writer_moved[OF ok t])
    show "owner_ok False in_y yo ((L(M := lock_init)) Y) (Q(t \<mapsto> (False, 11)))"
      using owner_stays_out[OF rw_okD(6)[OF ok] t] by (simp add: in_y_def)
    show "shared_ok (among False {8, 9, 10} (Q(t \<mapsto> (False, 11)))) (group_m (map_option snd xo) rc) (among True UNIV Q) ((L(M := lock_init)) M)"
      using g(2) t by (simp add: among_move[of Q, OF t]) (simp add: among_def)
    show "shared_ok (among False {1} (Q(t \<mapsto> (False, 11)))) (group_wrt (map_option snd xo) rc) (among True UNIV Q) ((L(M := lock_init)) WRT)"
      using writer_singles(1)[OF ok t] by simp
  qed (use ok in \<open>auto simp: rw_ok_def counted_w_def\<close>)
qed

lemma writer_writes:
  assumes ok: "rw_ok xo yo Q rc wc L" and t: "Q t = Some (False, a)" "a = 8 \<or> a = 9"
  shows "rw_ok xo yo (Q(t \<mapsto> (False, Suc a))) rc wc L"
proof (rule writer_moved[OF ok t(1)])
  show "owner_ok False in_y yo (L Y) (Q(t \<mapsto> (False, Suc a)))"
    using owner_stays_out[OF rw_okD(6)[OF ok] t(1)] t(2) by (auto simp: in_y_def)
qed (use ok writer_singles[OF ok t(1), of "Suc a"] t(2) in \<open>auto simp: rw_ok_def counted_w_def\<close>)

lemma writer_enters:
  assumes ok: "rw_ok xo yo Q rc wc L" and t: "Q t = Some (False, a)" "a = 2 \<or> a = 11" and l: "try_acquire t (L Y) = Some l'"
  shows "rw_ok xo (Some (t, Suc a)) (Q(t \<mapsto> (False, Suc a))) rc wc (L(Y := l'))"
proof -
  have in_out: "a \<notin> in_y" "Suc a \<in> in_y" "Suc a \<in> counted_w \<longleftrightarrow> a \<in> counted_w" "Suc a < 16"
    using t(2) by (auto simp: in_y_def counted_w_def)
  note e = owner_enters[OF rw_okD(6)[OF ok] t(1) in_out(1,2) l rw_okD(2)[OF ok t(1)]]
  have wc: "1 \<le> wc" if "a = 11"
    using some_inside(1)[OF rw_okD(1)[OF ok] _ rw_okD(8)[OF ok], of t] t(1) that by (simp add: among_def counted_w_def)
  have g: "group_rdr (Some (Suc a)) wc = group_rdr None wc"
    using t(2) wc by (auto simp: group_rdr_def)
  show ?thesis
    by (rule writer_moved[OF ok t(1) in_out(4)]) (use ok e g in_out writer_singles[OF ok t(1), of "Suc a"] t(2) in \<open>auto simp: rw_ok_def\<close>)
qed

lemma writer_owns:
  assumes "rw_ok xo yo Q rc wc L" "Q t = Some (False, a)" "a \<in> in_y"
  shows "yo = Some (t, a)"
  using owner_is[OF rw_okD(6)[OF assms(1)] assms(2,3)] by simp

lemma writer_within:
  assumes ok: "rw_ok xo yo Q rc wc L" and t: "Q t = Some (False, a)" "a \<in> in_y" "a' \<in> in_y" "a' < 16" and L: "L' X = L X" "L' Y = L Y" "L' WRT = L WRT" "L' M = L M"
    and c: "wc' = wc + (if a' \<in> counted_w then 1 else 0) - (if a \<in> counted_w then 1 else 0)"
    and f: "(a' = 5 \<longrightarrow> wc' = 1) \<and> (a' = 14 \<longrightarrow> wc' = 0)"
    and r: "shared_ok (among True {1} Q) (group_rdr (Some a') wc') (among False UNIV Q) (L' RDR)"
  shows "rw_ok xo (Some (t, a')) (Q(t \<mapsto> (False, a'))) rc wc' L'"
proof (rule writer_moved[OF ok t(1,4)])
  show "owner_ok False in_y (Some (t, a')) (L' Y) (Q(t \<mapsto> (False, a')))"
    using owner_within(2)[OF rw_okD(6)[OF ok] t(1-3)] L(2) by simp
  have "a \<noteq> 1" "a' \<noteq> 1" "a' \<in> {8, 9, 10} \<longleftrightarrow> a \<in> {8, 9, 10}"
    using t(2,3) by (auto simp: in_y_def)
  then show "shared_ok (among False {1} (Q(t \<mapsto> (False, a')))) (group_wrt (map_option snd xo) rc) (among True UNIV Q) (L' WRT)"
    "shared_ok (among False {8, 9, 10} (Q(t \<mapsto> (False, a')))) (group_m (map_option snd xo) rc) (among True UNIV Q) (L' M)"
    using writer_singles[OF ok t(1)] L(3,4) by simp_all
qed (use f r L(1) c in auto)

lemma writer_counts:
  assumes ok: "rw_ok xo yo Q rc wc L" and t: "Q t = Some (False, a)" "(a = 3 \<and> n = 1) \<or> (a = 12 \<and> n = -1)"
  shows "rw_ok xo (Some (t, Suc a)) (Q(t \<mapsto> (False, Suc a))) rc (wc + n) L"
proof -
  have "yo = Some (t, a)"
    using writer_owns[OF ok t(1)] t(2) by (auto simp: in_y_def)
  then show ?thesis
    using rw_okD(11)[OF ok] t by (intro writer_within[OF ok t(1)]) (auto simp: places_defs)
qed

lemma writer_tests:
  assumes ok: "rw_ok xo yo Q rc wc L" and t: "Q t = Some (False, a)" "(a = 4 \<and> a' = (if wc = 1 then 5 else 6)) \<or> (a = 13 \<and> a' = (if wc = 0 then 14 else 15))"
  shows "rw_ok xo (Some (t, a')) (Q(t \<mapsto> (False, a'))) rc wc L"
proof -
  have o: "yo = Some (t, a)"
    using writer_owns[OF ok t(1)] t(2) by (auto simp: in_y_def)
  have "1 \<le> wc" if "a = 4"
    using some_inside(1)[OF rw_okD(1)[OF ok] _ rw_okD(8)[OF ok], of t] t(1) that by (simp add: among_def counted_w_def)
  moreover have "0 \<le> wc"
    using rw_okD(8)[OF ok] by simp
  ultimately consider "a = 4" "a' = 5" "wc = 1" | "a = 4" "a' = 6" "2 \<le> wc" | "a = 13" "a' = 14" "wc = 0" | "a = 13" "a' = 15" "1 \<le> wc"
    using t(2) by (cases "wc = 1"; cases "wc = 0") (auto split: if_splits)
  then show ?thesis
    using rw_okD(11)[OF ok] o by cases (intro writer_within[OF ok t(1)]; simp add: places_defs)+
qed

lemma writer_takes_rdr:
  assumes ok: "rw_ok xo yo Q rc wc L" and t: "Q t = Some (False, 5)" and l: "try_acquire t (L RDR) = Some l'"
  shows "rw_ok xo (Some (t, 6)) (Q(t \<mapsto> (False, 6))) rc wc (L(RDR := l'))"
proof -
  have o: "yo = Some (t, 5)"
    using writer_owns[OF ok t] by (simp add: in_y_def)
  have "shared_ok (among True {1} Q) False (among False UNIV Q) (L RDR)"
    using rw_okD(11)[OF ok] o by (simp add: group_rdr_def)
  then have "shared_ok (among True {1} Q) True (among False UNIV Q) l'"
    using shared_take_group[OF _ l rw_okD(2)[OF ok t]] t by (simp add: among_def)
  then show ?thesis
    using t o by (intro writer_within[OF ok t]) (auto simp: places_defs)
qed

lemma writer_gives_rdr:
  assumes ok: "rw_ok xo yo Q rc wc L" and t: "Q t = Some (False, 14)"
  shows "give_back (L RDR) = Inr lock_init" "rw_ok xo (Some (t, 15)) (Q(t \<mapsto> (False, 15))) rc wc (L(RDR := lock_init))"
proof -
  have o: "yo = Some (t, 14)"
    using writer_owns[OF ok t] by (simp add: in_y_def)
  have "shared_ok (among True {1} Q) True (among False UNIV Q) (L RDR)"
    using rw_okD(11)[OF ok] o by (simp add: group_rdr_def)
  note g = shared_give_group[OF this]
  show "give_back (L RDR) = Inr lock_init"
    using g(1) disjoint_kinds(2) by blast
  have "shared_ok (among True {1} Q) False (among False UNIV Q) lock_init"
    using g(2) disjoint_kinds(2) by blast
  then show "rw_ok xo (Some (t, 15)) (Q(t \<mapsto> (False, 15))) rc wc (L(RDR := lock_init))"
    using rw_okD(17)[OF ok] t o by (intro writer_within[OF ok t]) (auto simp: places_defs)
qed

lemma writer_leaves:
  assumes ok: "rw_ok xo yo Q rc wc L" and t: "Q t = Some (False, a)" "(a = 6 \<and> a' = 7) \<or> (a = 15 \<and> a' = 0)"
  shows "give_back (L Y) = Inr lock_init" "rw_ok xo None (Q(t \<mapsto> (False, a'))) rc wc (L(Y := lock_init))"
proof -
  have in_out: "a \<in> in_y" "a' \<notin> in_y" "a' \<in> counted_w \<longleftrightarrow> a \<in> counted_w" "a' < 16"
    using t(2) by (auto simp: in_y_def counted_w_def)
  note e = owner_leaves[OF rw_okD(6)[OF ok] t(1) in_out(1,2)]
  show "give_back (L Y) = Inr lock_init"
    by (rule e(2))
  have wc: "1 \<le> wc" if "a = 6"
    using some_inside(1)[OF rw_okD(1)[OF ok] _ rw_okD(8)[OF ok], of t] t(1) that by (simp add: among_def counted_w_def)
  have g: "group_rdr (Some a) wc = group_rdr None wc"
    using t(2) wc by (auto simp: group_rdr_def)
  show "rw_ok xo None (Q(t \<mapsto> (False, a'))) rc wc (L(Y := lock_init))"
    by (rule writer_moved[OF ok t(1) in_out(4)]) (use ok e g in_out writer_singles[OF ok t(1), of a'] t(2) in \<open>auto simp: rw_ok_def\<close>)
qed

end
