(* ===== verification/Readersafe.thy ===== *)
theory Readersafe
  imports Readers
begin

text \<open>
  The readers and writers of \<open>Readers\<close> in all reachable states: the moves of all instructions together, the creation of the processes, and the theorem: no failed
  assertion, exclusive access of writers, bounded counters, no deadlock.
\<close>

subsection \<open>Reachable states\<close>

lemma places_below: "a < 15 \<Longrightarrow> a \<in> {0, 1, 2, 3, 4, 5, 6, 7, 8, 9, 10, 11, 12, 13, 14}" "a < 16 \<Longrightarrow> a \<in> {0, 1, 2, 3, 4, 5, 6, 7, 8, 9, 10, 11, 12, 13, 14, 15}" for a :: nat
  by (auto, presburger+)

lemma pos_updates [simp]:
  "pos (s\<lparr>locks := L\<rparr>) = pos s" "pos (s\<lparr>reader_counter := n\<rparr>) = pos s" "pos (s\<lparr>writer_counter := n\<rparr>) = pos s" "pos (s\<lparr>data := d\<rparr>) = pos s" "pos (s\<lparr>created := k\<rparr>) = pos s"
  "pos (s\<lparr>procs := (procs s)(t \<mapsto> p)\<rparr>) = (pos s)(t \<mapsto> (is_reader p, rw_at p))"
  by (auto simp: pos_def)

definition places_ok :: "places \<Rightarrow> int \<Rightarrow> int \<Rightarrow> (lockname \<Rightarrow> lock) \<Rightarrow> bool" where
  "places_ok Q rc wc L \<longleftrightarrow> (\<exists>xo yo. rw_ok xo yo Q rc wc L)"

lemma places_okI: "rw_ok xo yo Q rc wc L \<Longrightarrow> places_ok Q rc wc L"
  by (auto simp: places_ok_def)

definition rw_inv :: "rw \<Rightarrow> bool" where
  "rw_inv s \<longleftrightarrow> places_ok (pos s) (reader_counter s) (writer_counter s) (locks s) \<and> created s \<le> 6 \<and> card (dom (procs s)) = created s"

text \<open>A move returns; when it does not wait, the invariant holds again.\<close>

definition moves_well :: "rw \<Rightarrow> u32 \<Rightarrow> bool" where
  "moves_well s t \<longleftrightarrow> (\<exists>r. rw_move t s = Inr r \<and> (\<forall>s'. r = Some s' \<longrightarrow> dom (procs s') = dom (procs s) \<and> created s' = created s \<and>
     places_ok (pos s') (reader_counter s') (writer_counter s') (locks s')))"

lemma moves_wellI:
  assumes "procs s t = Some p" "exec_instr t p (code_of p ! rw_at p) s = Inr r"
    and "\<forall>j s'. r = Some (j, s') \<longrightarrow> procs s' = procs s \<and> created s' = created s \<and>
      places_ok ((pos s)(t \<mapsto> (is_reader p, (case j of None \<Rightarrow> Suc (rw_at p) | Some j \<Rightarrow> j) mod length (code_of p)))) (reader_counter s') (writer_counter s') (locks s')"
  shows "moves_well s t"
proof (cases r)
  case None
  then show ?thesis
    using assms by (simp add: moves_well_def rw_move_def)
next
  case (Some q)
  obtain j s' where q: "q = (j, s')"
    by (cases q)
  have e: "pos (s'\<lparr>procs := (procs s)(t \<mapsto> p')\<rparr>) = (pos s)(t \<mapsto> (is_reader p', rw_at p'))" for p'
    by (auto simp: pos_def)
  show ?thesis
    using assms Some q by (auto simp: moves_well_def rw_move_def e)
qed

lemma reader_moves_well:
  assumes ok: "rw_ok xo yo (pos s) (reader_counter s) (writer_counter s) (locks s)" and p: "procs s t = Some p" "is_reader p"
  shows "moves_well s t"
proof -
  let ?a = "rw_at p"
  have t: "pos s t = Some (True, ?a)"
    using p by (simp add: pos_def)
  note ex = exec_instr_def code_of_def p(2) reader_def
  have "?a \<in> {0, 1, 2, 3, 4, 5, 6, 7, 8, 9, 10, 11, 12, 13, 14}"
    by (rule places_below(1)[OF rw_okD(3)[OF ok t]])
  then consider "?a = 0" | "?a = 1" | "?a = 2 \<or> ?a = 9" | "?a = 3" | "?a = 10" | "?a = 4" | "?a = 11" | "?a = 5" | "?a = 6" | "?a = 7 \<or> ?a = 14" | "?a = 8" | "?a = 12" | "?a = 13"
    by auto
  then show ?thesis
  proof cases
    case 1
    then show ?thesis
      using reader_takes_rdr[OF ok, of t, THEN places_okI] t by (intro moves_wellI[OF p(1)]) (auto simp: ex split: option.splits)
  next
    case 2
    then show ?thesis
      using reader_gives_rdr(1)[OF ok, of t] reader_gives_rdr(2)[OF ok, of t, THEN places_okI] t by (intro moves_wellI[OF p(1)]) (auto simp: ex numeral_2_eq_2)
  next
    case 3
    then show ?thesis
      using reader_enters[OF ok t, THEN places_okI] by (intro moves_wellI[OF p(1)]) (auto simp: ex split: option.splits)
  next
    case 4
    then show ?thesis
      using reader_counts[OF ok t, of 1, THEN places_okI] by (intro moves_wellI[OF p(1)]) (auto simp: ex)
  next
    case 5
    then show ?thesis
      using reader_counts[OF ok t, of "-1", THEN places_okI] by (intro moves_wellI[OF p(1)]) (auto simp: ex)
  next
    case 6
    then show ?thesis
      using reader_tests[OF ok t, THEN places_okI] by (intro moves_wellI[OF p(1)]) (auto simp: ex)
  next
    case 7
    then show ?thesis
      using reader_tests[OF ok t, THEN places_okI] by (intro moves_wellI[OF p(1)]) (auto simp: ex)
  next
    case 8
    then show ?thesis
      using reader_takes_wrt[OF ok, of t, THEN places_okI] t by (intro moves_wellI[OF p(1)]) (auto simp: ex split: option.splits)
  next
    case 9
    then show ?thesis
      using reader_takes_m[OF ok, of t, THEN places_okI] t by (intro moves_wellI[OF p(1)]) (auto simp: ex split: option.splits)
  next
    case 10
    then show ?thesis
      using reader_leaves(1)[OF ok t] reader_leaves(2)[OF ok t, THEN places_okI] by (intro moves_wellI[OF p(1)]) (auto simp: ex)
  next
    case 11
    then show ?thesis
      using reader_reads[OF ok, of t, THEN places_okI] t by (intro moves_wellI[OF p(1)]) (auto simp: ex)
  next
    case 12
    then show ?thesis
      using reader_gives_wrt(1)[OF ok, of t] reader_gives_wrt(2)[OF ok, of t, THEN places_okI] t by (intro moves_wellI[OF p(1)]) (auto simp: ex)
  next
    case 13
    then show ?thesis
      using reader_gives_m(1)[OF ok, of t] reader_gives_m(2)[OF ok, of t, THEN places_okI] t by (intro moves_wellI[OF p(1)]) (auto simp: ex)
  qed
qed

lemma writer_moves_well:
  assumes ok: "rw_ok xo yo (pos s) (reader_counter s) (writer_counter s) (locks s)" and p: "procs s t = Some p" "\<not> is_reader p"
  shows "moves_well s t"
proof -
  let ?a = "rw_at p"
  have t: "pos s t = Some (False, ?a)"
    using p by (simp add: pos_def)
  note ex = exec_instr_def code_of_def p(2) writer_def
  have "?a \<in> {0, 1, 2, 3, 4, 5, 6, 7, 8, 9, 10, 11, 12, 13, 14, 15}"
    by (rule places_below(2)[OF rw_okD(4)[OF ok t]])
  then consider "?a = 0" | "?a = 1" | "?a = 2 \<or> ?a = 11" | "?a = 3" | "?a = 12" | "?a = 4" | "?a = 13" | "?a = 5" | "?a = 6 \<or> ?a = 15" | "?a = 7" | "?a = 8" | "?a = 9" | "?a = 10" | "?a = 14"
    by auto
  then show ?thesis
  proof cases
    case 1
    then show ?thesis
      using writer_takes_wrt[OF ok, of t, THEN places_okI] t by (intro moves_wellI[OF p(1)]) (auto simp: ex split: option.splits)
  next
    case 2
    then show ?thesis
      using writer_gives_wrt(1)[OF ok, of t] writer_gives_wrt(2)[OF ok, of t, THEN places_okI] t by (intro moves_wellI[OF p(1)]) (auto simp: ex numeral_2_eq_2)
  next
    case 3
    then show ?thesis
      using writer_enters[OF ok t, THEN places_okI] by (intro moves_wellI[OF p(1)]) (auto simp: ex split: option.splits)
  next
    case 4
    then show ?thesis
      using writer_counts[OF ok t, of 1, THEN places_okI] by (intro moves_wellI[OF p(1)]) (auto simp: ex)
  next
    case 5
    then show ?thesis
      using writer_counts[OF ok t, of "-1", THEN places_okI] by (intro moves_wellI[OF p(1)]) (auto simp: ex)
  next
    case 6
    then show ?thesis
      using writer_tests[OF ok t, THEN places_okI] by (intro moves_wellI[OF p(1)]) (auto simp: ex)
  next
    case 7
    then show ?thesis
      using writer_tests[OF ok t, THEN places_okI] by (intro moves_wellI[OF p(1)]) (auto simp: ex)
  next
    case 8
    then show ?thesis
      using writer_takes_rdr[OF ok, of t, THEN places_okI] t by (intro moves_wellI[OF p(1)]) (auto simp: ex split: option.splits)
  next
    case 9
    then show ?thesis
      using writer_leaves(1)[OF ok t] writer_leaves(2)[OF ok t, THEN places_okI] by (intro moves_wellI[OF p(1)]) (auto simp: ex)
  next
    case 10
    then show ?thesis
      using writer_takes_m[OF ok, of t, THEN places_okI] t by (intro moves_wellI[OF p(1)]) (auto simp: ex split: option.splits)
  next
    case 11
    then show ?thesis
      using writer_writes[OF ok t, THEN places_okI] by (intro moves_wellI[OF p(1)]) (auto simp: ex)
  next
    case 12
    then show ?thesis
      using writer_writes[OF ok t, THEN places_okI] by (intro moves_wellI[OF p(1)]) (auto simp: ex)
  next
    case 13
    then show ?thesis
      using writer_gives_m(1)[OF ok, of t] writer_gives_m(2)[OF ok, of t, THEN places_okI] t by (intro moves_wellI[OF p(1)]) (auto simp: ex)
  next
    case 14
    then show ?thesis
      using writer_gives_rdr(1)[OF ok, of t] writer_gives_rdr(2)[OF ok, of t, THEN places_okI] t by (intro moves_wellI[OF p(1)]) (auto simp: ex)
  qed
qed

lemma rw_inv_moves: "rw_inv s \<Longrightarrow> \<exists>r. rw_move t s = Inr r \<and> (\<forall>s'. r = Some s' \<longrightarrow> rw_inv s')"
proof (cases "procs s t")
  case (Some p)
  assume "rw_inv s"
  then have "moves_well s t"
    using reader_moves_well[OF _ Some] writer_moves_well[OF _ Some] by (auto simp: rw_inv_def places_ok_def)
  then show ?thesis
    using \<open>rw_inv s\<close> by (auto simp: moves_well_def rw_inv_def)
qed (simp add: rw_move_def)

lemma fork_ok:
  assumes ok: "rw_ok xo yo Q rc wc L" and t: "t \<noteq> NULL" "Q t = None"
  shows "rw_ok xo yo (Q(t \<mapsto> (b, 0))) rc wc L"
proof -
  have a: "among c A (Q(t \<mapsto> (b, 0))) = among c A Q" if "0 \<notin> A" for c A
    using t(2) that by (auto simp: among_def fun_eq_iff)
  have u: "among c UNIV Q v \<Longrightarrow> among c UNIV (Q(t \<mapsto> (b, 0))) v" for c v
    using t(2) by (auto simp: among_def)
  have "owner_ok c A o1 l (Q(t \<mapsto> (b, 0)))" if "owner_ok c A o1 l Q" "0 \<notin> A" for c A o1 l
    using that t(2) by (auto simp: owner_ok_def a split: option.splits)
  moreover have "shared_ok P G (among c UNIV (Q(t \<mapsto> (b, 0)))) l" if "shared_ok P G (among c UNIV Q) l" for P G c l
    using that u unfolding shared_ok_def by blast
  moreover have "0 \<notin> in_x" "0 \<notin> in_y" "0 \<notin> counted_r" "0 \<notin> counted_w"
    by (simp_all add: places_defs)
  ultimately show ?thesis
    using ok t unfolding rw_ok_def by (elim conjE, intro conjI) (simp_all add: a)
qed

lemma rw_step_inv: "rw_step s s' \<Longrightarrow> rw_inv s \<Longrightarrow> rw_inv s'"
proof (induction rule: rw_step.induct)
  case (fork s t n)
  have "finite (dom (procs s))"
    using fork.prems rw_okD(1) by (fastforce simp: rw_inv_def places_ok_def pos_def dom_def)
  moreover have "pos s t = None"
    using fork.hyps by (simp add: pos_def)
  moreover have "pos (rw_fork t n s) = (pos s)(t \<mapsto> (3 \<le> created s, 0))"
    by (auto simp: pos_def rw_fork_def)
  ultimately show ?case
    using fork fork_ok[of _ _ "pos s" _ _ _ t "3 \<le> created s"] by (auto simp: rw_inv_def places_ok_def rw_fork_def domIff card_insert_if) blast
next
  case (move t s s')
  then show ?case
    using rw_inv_moves[of s t] by auto
qed

lemma rw_start_inv: "rw_inv readerwriter_start"
proof -
  have "rw_ok None None (pos readerwriter_start) 0 0 (\<lambda>_. lock_init)"
    by (simp add: rw_ok_def readerwriter_start_def pos_def owner_ok_def shared_ok_def among_def places_defs)
  then show ?thesis
    by (auto simp: rw_inv_def places_ok_def readerwriter_start_def)
qed

lemma rw_reachable_inv: "rw_step\<^sup>*\<^sup>* readerwriter_start s \<Longrightarrow> rw_inv s"
  by (induction rule: rtranclp_induct) (use rw_start_inv rw_step_inv in blast)+


subsection \<open>What the program guarantees\<close>

lemma waits_for:
  assumes "pos s t = Some (b, a)" "rw_move t s = Inr None" "t \<noteq> NULL"
  shows "\<exists>l. (if b then reader else writer) ! a = Acq l \<and> locks s l \<noteq> lock_init"
proof -
  obtain p where p: "procs s t = Some p" "is_reader p = b" "rw_at p = a"
    using assms(1) by (auto simp: pos_def)
  have "\<exists>l. code_of p ! a = Acq l \<and> locks s l \<noteq> lock_init"
    using assms(2,3) p by (cases "code_of p ! a") (auto simp: rw_move_def exec_instr_def andthen_Inr_iff split: option.splits)
  then show ?thesis
    using p(2) by (simp add: code_of_def)
qed

lemma reader_waits_at: "a < 15 \<Longrightarrow> reader ! a = Acq l \<Longrightarrow> (a, l) \<in> {(0, RDR), (2, X), (5, WRT), (6, M), (9, X)}"
proof -
  assume "a < 15" "reader ! a = Acq l"
  moreover have "a \<in> {0, 1, 2, 3, 4, 5, 6, 7, 8, 9, 10, 11, 12, 13, 14}"
    by (rule places_below(1)[OF \<open>a < 15\<close>])
  ultimately show ?thesis
    by (auto simp: reader_def)
qed

lemma writer_waits_at: "a < 16 \<Longrightarrow> writer ! a = Acq l \<Longrightarrow> (a, l) \<in> {(0, WRT), (2, Y), (5, RDR), (7, M), (11, Y)}"
proof -
  assume "a < 16" "writer ! a = Acq l"
  moreover have "a \<in> {0, 1, 2, 3, 4, 5, 6, 7, 8, 9, 10, 11, 12, 13, 14, 15}"
    by (rule places_below(2)[OF \<open>a < 16\<close>])
  ultimately show ?thesis
    by (auto simp: writer_def)
qed

text \<open>When every process waits there is none.\<close>

lemma nobody_waits:
  assumes ok: "rw_ok xo yo Q rc wc L"
    and r: "\<And>t a. Q t = Some (True, a) \<Longrightarrow> \<exists>l. (a, l) \<in> {(0, RDR), (2, X), (5, WRT), (6, M), (9, X)} \<and> L l \<noteq> lock_init"
    and w: "\<And>t a. Q t = Some (False, a) \<Longrightarrow> \<exists>l. (a, l) \<in> {(0, WRT), (2, Y), (5, RDR), (7, M), (11, Y)} \<and> L l \<noteq> lock_init"
  shows "Q t = None"
proof -
  have none: "\<not> among False {1} Q u" "\<not> among False {8, 9, 10} Q u" "\<not> among True {1} Q u" for u
    using r[of u] w[of u] by (auto simp: among_def)
  have x: "xo = None"
  proof (rule ccontr)
    assume "xo \<noteq> None"
    then obtain u a where u: "xo = Some (u, a)" "Q u = Some (True, a)" "a \<in> in_x"
      using rw_okD(5)[OF ok] by (auto simp: owner_ok_def)
    then show False
      using r[OF u(2)] rw_okD(9,10)[OF ok] none by (auto simp: shared_ok_def in_x_def group_wrt_def group_m_def)
  qed
  have rd: "Q u = Some (True, a) \<Longrightarrow> a = 0" for u a
    using r[of u a] rw_okD(5)[OF ok] x by (auto simp: owner_ok_def among_def in_x_def)
  have "\<not> among True counted_r Q u" for u
    by (auto simp: among_def counted_r_def dest!: rd)
  then have "rc = 0"
    using rw_okD(7)[OF ok] by simp
  then have free: "L WRT = lock_init" "L M = lock_init"
    using rw_okD(9,10)[OF ok] none x by (simp_all add: shared_ok_def group_wrt_def group_m_def)
  have y: "yo = None"
  proof (rule ccontr)
    assume "yo \<noteq> None"
    then obtain u a where u: "yo = Some (u, a)" "Q u = Some (False, a)" "a \<in> in_y"
      using rw_okD(6)[OF ok] by (auto simp: owner_ok_def)
    then show False
      using w[OF u(2)] rw_okD(11)[OF ok] none by (auto simp: shared_ok_def in_y_def group_rdr_def)
  qed
  then have wr: "Q u \<noteq> Some (False, a)" for u a
    using w[of u a] rw_okD(6)[OF ok] free by (auto simp: owner_ok_def among_def in_y_def)
  then have "wc = 0"
    using rw_okD(8)[OF ok] by (simp add: among_def)
  then have "L RDR = lock_init"
    using rw_okD(11)[OF ok] none y by (simp add: shared_ok_def group_rdr_def)
  then have "Q u \<noteq> Some (b, a)" for u b a
    using r[of u a] rd[of u a] wr[of u a] by (cases b) auto
  then show ?thesis
    by (cases "Q t") auto
qed

lemma some_process_moves:
  assumes "rw_inv s" "procs s t = Some p"
  shows "\<exists>u s'. rw_move u s = Inr (Some s')"
proof (rule ccontr)
  assume n: "\<nexists>u s'. rw_move u s = Inr (Some s')"
  have wait: "rw_move u s = Inr None" for u
    using rw_inv_moves[OF assms(1), of u] n by (metis not_None_eq)
  obtain xo yo where ok: "rw_ok xo yo (pos s) (reader_counter s) (writer_counter s) (locks s)"
    using assms(1) by (auto simp: rw_inv_def places_ok_def)
  have "pos s t = None"
  proof (rule nobody_waits[OF ok])
    fix u a assume u: "pos s u = Some (True, a)"
    then show "\<exists>l. (a, l) \<in> {(0, RDR), (2, X), (5, WRT), (6, M), (9, X)} \<and> locks s l \<noteq> lock_init"
      using waits_for[OF u wait rw_okD(2)[OF ok u]] reader_waits_at[OF rw_okD(3)[OF ok u]] by (metis (full_types))
  next
    fix u a assume u: "pos s u = Some (False, a)"
    then show "\<exists>l. (a, l) \<in> {(0, WRT), (2, Y), (5, RDR), (7, M), (11, Y)} \<and> locks s l \<noteq> lock_init"
      using waits_for[OF u wait rw_okD(2)[OF ok u]] writer_waits_at[OF rw_okD(4)[OF ok u]] by (metis (full_types))
  qed
  then show False
    using assms(2) by (simp add: pos_def)
qed

text \<open>At the instructions \<open>ReadData\<close>, \<open>WriteData\<close> and \<open>PrintData\<close>.\<close>

definition reading :: "rw \<Rightarrow> u32 \<Rightarrow> bool" where
  "reading s t \<longleftrightarrow> (\<exists>p. procs s t = Some p \<and> is_reader p \<and> reader ! rw_at p = ReadData)"

definition writing :: "rw \<Rightarrow> u32 \<Rightarrow> bool" where
  "writing s t \<longleftrightarrow> (\<exists>p. procs s t = Some p \<and> \<not> is_reader p \<and> writer ! rw_at p \<in> {WriteData, PrintData})"


lemma access_places:
  assumes "rw_ok xo yo (pos s) (reader_counter s) (writer_counter s) (locks s)"
  shows "reading s t \<Longrightarrow> among True {8} (pos s) t" "writing s t \<Longrightarrow> among False {8, 9, 10} (pos s) t"
proof -
  assume "reading s t"
  then obtain p where p: "procs s t = Some p" "is_reader p" "reader ! rw_at p = ReadData"
    by (auto simp: reading_def)
  then have "rw_at p \<in> {0, 1, 2, 3, 4, 5, 6, 7, 8, 9, 10, 11, 12, 13, 14}"
    using rw_okD(3)[OF assms, of t "rw_at p"] by (intro places_below(1)) (simp add: pos_def)
  then have "rw_at p = 8"
    using p(3) by (auto simp: reader_def)
  then show "among True {8} (pos s) t"
    using p by (simp add: among_def pos_def)
next
  assume "writing s t"
  then obtain p where p: "procs s t = Some p" "\<not> is_reader p" "writer ! rw_at p \<in> {WriteData, PrintData}"
    by (auto simp: writing_def)
  then have "rw_at p \<in> {0, 1, 2, 3, 4, 5, 6, 7, 8, 9, 10, 11, 12, 13, 14, 15}"
    using rw_okD(4)[OF assms, of t "rw_at p"] by (intro places_below(2)) (simp add: pos_def)
  then have "rw_at p \<in> {8, 9, 10}"
    using p(3) by (auto simp: writer_def)
  then show "among False {8, 9, 10} (pos s) t"
    using p by (auto simp: among_def pos_def)
qed

text \<open>While a reader reads, the readers hold the lock \<^verbatim>\<open>m\<close>.\<close>

lemma readers_hold_m:
  assumes ok: "rw_ok xo yo Q rc wc L" and t: "among True {8} Q t"
  shows "group_m (map_option snd xo) rc"
proof -
  have c: "among True counted_r Q t"
    using t by (auto simp: among_def counted_r_def)
  have rc: "1 \<le> rc" "among True counted_r Q u \<Longrightarrow> u \<noteq> t \<Longrightarrow> 2 \<le> rc" for u
    using some_inside[OF rw_okD(1)[OF ok] c rw_okD(7)[OF ok]] by auto
  show ?thesis
  proof (cases xo)
    case None
    then show ?thesis
      using rc(1) by (simp add: group_m_def)
  next
    case (Some o1)
    then obtain u a where u: "xo = Some (u, a)" "Q u = Some (True, a)" "a \<in> in_x"
      using rw_okD(5)[OF ok] by (cases o1) (auto simp: owner_ok_def)
    have "u \<noteq> t"
      using t u by (auto simp: among_def in_x_def)
    then have "2 \<le> rc" if "a \<in> {4, 5, 6}"
      using rc(2)[of u] u(2) that by (auto simp: among_def counted_r_def)
    then show ?thesis
      using u(1) rc(1) rw_okD(12,13)[OF ok, of u] by (auto simp: group_m_def)
  qed
qed

lemma exclusive_access:
  assumes "rw_inv s" "writing s t" "u \<noteq> t"
  shows "\<not> reading s u" "\<not> writing s u"
proof -
  obtain xo yo where ok: "rw_ok xo yo (pos s) (reader_counter s) (writer_counter s) (locks s)"
    using assms(1) by (auto simp: rw_inv_def places_ok_def)
  note m = rw_okD(10)[OF ok, unfolded shared_ok_def]
  have t: "among False {8, 9, 10} (pos s) t" "locks s M = locked_by t"
    using access_places(2)[OF ok assms(2)] m by auto
  show "\<not> writing s u"
    using access_places(2)[OF ok, of u] m t(2) assms(3) by auto
  show "\<not> reading s u"
  proof
    assume "reading s u"
    then have "group_m (map_option snd xo) (reader_counter s)"
      using readers_hold_m[OF ok] access_places(1)[OF ok] by blast
    then have "among True UNIV (pos s) t"
      using m t(2) by auto
    then show False
      using t(1) disjoint_kinds(1) by blast
  qed
qed

lemma counters_bounded:
  assumes "rw_inv s"
  shows "reader_counter s \<in> {0..6}" "writer_counter s \<in> {0..6}"
proof -
  obtain xo yo where ok: "rw_ok xo yo (pos s) (reader_counter s) (writer_counter s) (locks s)"
    using assms by (auto simp: rw_inv_def places_ok_def)
  have d: "dom (pos s) = dom (procs s)"
    by (auto simp: pos_def dom_def)
  have "card {t. among b A (pos s) t} \<le> 6" for b A
  proof -
    have "card {t. among b A (pos s) t} \<le> card (dom (pos s))"
      by (rule card_mono[OF rw_okD(1)[OF ok]]) (auto simp: among_def)
    then show ?thesis
      using assms d by (simp add: rw_inv_def)
  qed
  then show "reader_counter s \<in> {0..6}" "writer_counter s \<in> {0..6}"
    using rw_okD(7,8)[OF ok] by simp_all
qed


text \<open>A run of the first writer up to its access.\<close>

definition rw_run :: "u32 \<Rightarrow> nat \<Rightarrow> rw \<Rightarrow> rw" where
  "rw_run t n s = ((\<lambda>s. case rw_move t s of Inr (Some s') \<Rightarrow> s' | _ \<Rightarrow> s) ^^ n) s"

lemma rw_run_reachable: "rw_step\<^sup>*\<^sup>* s (rw_run t n s)"
proof (induction n)
  case (Suc n)
  have "rw_run t (Suc n) s = rw_run t n s \<or> rw_step (rw_run t n s) (rw_run t (Suc n) s)"
    by (auto simp: rw_run_def split: sum.splits option.splits intro: rw_step.move)
  then show ?case
    using Suc by auto
qed (simp add: rw_run_def)


end
