(* ===== verification/Programs.thy ===== *)
theory Programs
  imports Stdio Readers
begin

text \<open>
  The other demonstration programs of \<^verbatim>\<open>src/userprog/actualuserprogs/\<close>: the four programs that move letters in a quarter of the screen (\<^verbatim>\<open>prog1.c\<close> to \<^verbatim>\<open>prog4.c\<close> with
  \<^verbatim>\<open>common.c\<close>), the bank account that two processes share (\<^verbatim>\<open>bank.c\<close>), the counting of letters and digits (\<^verbatim>\<open>multiproc.c\<close>) and the words of \<^verbatim>\<open>enjoy.c\<close>.
  The programs are linked into the kernel, so that their global variables are shared by the processes they create.
\<close>

subsection \<open>Moving letters\<close>

record running_node =
  pos_x :: u32
  pos_y :: u32
  v_x :: u32
  v_y :: u32
  node_c :: u8

definition node_init :: "char \<Rightarrow> u32 \<Rightarrow> u32 \<Rightarrow> u32 \<Rightarrow> u32 \<Rightarrow> running_node" where
  "node_init c px py vx vy = \<lparr>pos_x = px, pos_y = py, v_x = vx, v_y = vy, node_c = c_char c\<rparr>"

definition node_update :: "u32 \<Rightarrow> u32 \<Rightarrow> u32 \<Rightarrow> u32 \<Rightarrow> running_node \<Rightarrow> running_node" where
  "node_update min_x min_y max_x max_y obj =
     (let obj = obj\<lparr>pos_x := pos_x obj + v_x obj\<rparr>;
          obj = obj\<lparr>pos_y := pos_y obj + v_y obj\<rparr>;
          obj = (if pos_x obj = min_x then obj\<lparr>v_x := 1\<rparr> else obj);
          obj = (if pos_x obj = max_x - 1 then obj\<lparr>v_x := -1\<rparr> else obj);
          obj = (if pos_y obj = min_y then obj\<lparr>v_y := 1\<rparr> else obj)
      in if pos_y obj = max_y - 1 then obj\<lparr>v_y := -1\<rparr> else obj)"

text \<open>A program: its part of the screen, its letters and its colour. A round moves every letter and writes it: the first character, the colour and the position of
  each call of \<^verbatim>\<open>write_in_pos\<close>. The delay loops and the call of interrupt 0x2a change none of these variables; the string that is passed goes on behind its first character with whatever follows the structure.\<close>

record moving =
  min_x :: u32
  min_y :: u32
  max_x :: u32
  max_y :: u32
  nodes :: "running_node list"
  color :: u32
  changes_color :: bool

definition prog1 :: moving where
  "prog1 = \<lparr>min_x = 0, min_y = 0, max_x = 12, max_y = 40,
     nodes = [node_init CHR ''A'' 6 0 1 1, node_init CHR ''B'' 6 39 1 (-1), node_init CHR ''C'' 0 0 1 1, node_init CHR ''D'' 0 39 1 (-1)], color = 0, changes_color = True\<rparr>"

definition prog2 :: moving where
  "prog2 = \<lparr>min_x = 0, min_y = 40, max_x = 12, max_y = 80, nodes = [node_init CHR ''A'' 0 40 1 1, node_init CHR ''B'' 0 79 1 (-1)], color = 0x0E, changes_color = False\<rparr>"

definition prog3 :: moving where
  "prog3 = \<lparr>min_x = 12, min_y = 0, max_x = 25, max_y = 40, nodes = [node_init CHR ''A'' 18 0 1 1, node_init CHR ''B'' 18 39 1 (-1)], color = 0x0A, changes_color = False\<rparr>"

definition prog4 :: moving where
  "prog4 = \<lparr>min_x = 12, min_y = 40, max_x = 25, max_y = 80,
     nodes = [node_init CHR ''A'' 18 40 1 1, node_init CHR ''B'' 18 79 1 (-1), node_init CHR ''C'' 12 40 1 1, node_init CHR ''D'' 12 79 1 (-1)], color = 0x03, changes_color = False\<rparr>"

definition prog_round :: "moving \<Rightarrow> (u8 \<times> u32 \<times> u32) list \<times> moving" where
  "prog_round m =
     (let m = (if changes_color m then m\<lparr>color := if color m = 0xFF then 0 else color m + 1\<rparr> else m);
          m = m\<lparr>nodes := map (node_update (min_x m) (min_y m) (max_x m) (max_y m)) (nodes m)\<rparr>
      in (map (\<lambda>n. (node_c n, color m, pos_x n * 80 + pos_y n)) (nodes m), m))"

primrec prog_rounds :: "nat \<Rightarrow> moving \<Rightarrow> (u8 \<times> u32 \<times> u32) list \<times> moving" where
  "prog_rounds 0 m = ([], m)"
| "prog_rounds (Suc n) m = (let (w, m') = prog_round m; (ws, m'') = prog_rounds n m' in (w @ ws, m''))"

text \<open>One coordinate: inside its range, and going on into the range.\<close>

definition inward :: "u32 \<Rightarrow> u32 \<Rightarrow> u32 \<Rightarrow> u32 \<Rightarrow> bool" where
  "inward lo hi p v \<longleftrightarrow> lo \<le> p \<and> p < hi \<and> (v = 1 \<and> p \<noteq> hi - 1 \<or> v = -1 \<and> p \<noteq> lo)"

lemma inward_step:
  assumes "inward lo hi p v" "lo < hi - 1" "unat hi < 1000"
  shows "inward lo hi (p + v) (if p + v = hi - 1 then -1 else if p + v = lo then 1 else v)"
proof -
  have p: "unat lo \<le> unat p" "unat p < unat hi" "hi \<noteq> 0"
    using assms(1) by (auto simp: inward_def word_le_nat_alt word_less_nat_alt)
  have h: "unat (hi - 1) = unat hi - 1"
    using p(3) by (rule unat_minus_one)
  have l: "unat lo < unat hi - 1"
    using assms(2) h by (simp add: word_less_nat_alt)
  note nat = inward_def word_le_nat_alt word_less_nat_alt word_unat_eq_iff h
  show ?thesis
  proof (cases "v = 1")
    case True
    have "(1 :: u32) \<noteq> -1"
      by simp
    then have "p \<noteq> hi - 1"
      using assms(1) True by (auto simp: inward_def)
    then have u: "unat p \<noteq> unat hi - 1"
      using h by (metis word_unat_eq_iff)
    have "unat (p + 1) = unat p + 1"
      using p(2) assms(3) unat_add_lt[of p 1] by simp
    then show ?thesis
      unfolding True using p l u by (auto simp: nat)
  next
    case False
    then have v: "v = -1" "p \<noteq> lo"
      using assms(1) by (auto simp: inward_def)
    then have u: "unat lo \<noteq> unat p" "p \<noteq> 0"
      using p(1) by (auto simp: word_unat_eq_iff)
    have "unat (p + -1) = unat p - 1"
      using unat_minus_one[OF u(2)] by simp
    then show ?thesis
      unfolding v(1) using p l u by (auto simp: nat)
  qed
qed

definition node_ok :: "moving \<Rightarrow> running_node \<Rightarrow> bool" where
  "node_ok m n \<longleftrightarrow> inward (min_x m) (max_x m) (pos_x n) (v_x n) \<and> inward (min_y m) (max_y m) (pos_y n) (v_y n)"

definition moving_ok :: "moving \<Rightarrow> bool" where
  "moving_ok m \<longleftrightarrow> min_x m < max_x m - 1 \<and> min_y m < max_y m - 1 \<and> unat (max_x m) \<le> 25 \<and> unat (max_y m) \<le> 80 \<and> color m \<le> 0xFF \<and> (\<forall>n \<in> set (nodes m). node_ok m n)"

text \<open>A write is inside: its colour is a byte and its position is one of the part of the screen.\<close>

definition write_inside :: "moving \<Rightarrow> u8 \<times> u32 \<times> u32 \<Rightarrow> bool" where
  "write_inside m w = (case w of (c, col, p) \<Rightarrow> col \<le> 0xFF \<and> unat (min_x m) \<le> unat p div 80 \<and> unat p div 80 < unat (max_x m) \<and>
     unat (min_y m) \<le> unat p mod 80 \<and> unat p mod 80 < unat (max_y m))"

lemma node_update_ok:
  assumes "node_ok m n" "min_x m < max_x m - 1" "min_y m < max_y m - 1" "unat (max_x m) \<le> 25" "unat (max_y m) \<le> 80"
  shows "node_ok m (node_update (min_x m) (min_y m) (max_x m) (max_y m) n)"
proof -
  have x: "inward (min_x m) (max_x m) (pos_x n + v_x n) (if pos_x n + v_x n = max_x m - 1 then -1 else if pos_x n + v_x n = min_x m then 1 else v_x n)"
    using assms by (intro inward_step) (simp_all add: node_ok_def)
  have y: "inward (min_y m) (max_y m) (pos_y n + v_y n) (if pos_y n + v_y n = max_y m - 1 then -1 else if pos_y n + v_y n = min_y m then 1 else v_y n)"
    using assms by (intro inward_step) (simp_all add: node_ok_def)
  have "pos_x (node_update (min_x m) (min_y m) (max_x m) (max_y m) n) = pos_x n + v_x n" "pos_y (node_update (min_x m) (min_y m) (max_x m) (max_y m) n) = pos_y n + v_y n"
    "v_x (node_update (min_x m) (min_y m) (max_x m) (max_y m) n) = (if pos_x n + v_x n = max_x m - 1 then -1 else if pos_x n + v_x n = min_x m then 1 else v_x n)"
    "v_y (node_update (min_x m) (min_y m) (max_x m) (max_y m) n) = (if pos_y n + v_y n = max_y m - 1 then -1 else if pos_y n + v_y n = min_y m then 1 else v_y n)"
    by (simp_all add: node_update_def Let_def)
  then show ?thesis
    using x y by (simp only: node_ok_def)
qed

lemma node_inside:
  assumes "node_ok m n" "unat (max_x m) \<le> 25" "unat (max_y m) \<le> 80" "col \<le> 0xFF"
  shows "write_inside m (node_c n, col, pos_x n * 80 + pos_y n)"
proof -
  have b: "unat (min_x m) \<le> unat (pos_x n)" "unat (pos_x n) < unat (max_x m)" "unat (min_y m) \<le> unat (pos_y n)" "unat (pos_y n) < unat (max_y m)"
    using assms(1) by (auto simp: node_ok_def inward_def word_le_nat_alt word_less_nat_alt)
  have "unat (pos_x n * 80 + pos_y n) = unat (pos_x n) * 80 + unat (pos_y n)"
    using b assms(2,3) by (simp add: unat_word_ariths)
  moreover have "(unat (pos_x n) * 80 + unat (pos_y n)) div 80 = unat (pos_x n)" "(unat (pos_x n) * 80 + unat (pos_y n)) mod 80 = unat (pos_y n)"
    using b assms(3) by (simp_all add: div_mult_self3)
  ultimately show ?thesis
    using b assms(4) by (simp add: write_inside_def)
qed

lemma prog_round_ok:
  assumes "moving_ok m" "prog_round m = (ws, m')"
  shows "moving_ok m'" "\<forall>w \<in> set ws. write_inside m w" "\<And>w. write_inside m' w = write_inside m w"
proof -
  let ?c = "if changes_color m then if color m = 0xFF then 0 else color m + 1 else color m"
  have c: "?c \<le> 0xFF"
  proof (cases "color m = 0xFF")
    case False
    then have "color m < 0xFF"
      using assms(1) by (auto simp: moving_ok_def order_le_less)
    then show ?thesis
      using inc_le[of "color m" "0xFF"] by auto
  qed simp
  have m': "m' = m\<lparr>color := ?c, nodes := map (node_update (min_x m) (min_y m) (max_x m) (max_y m)) (nodes m)\<rparr>"
      "ws = map (\<lambda>n. (node_c n, ?c, pos_x n * 80 + pos_y n)) (nodes m')"
    using assms(2) by (auto simp: prog_round_def Let_def)
  have n: "node_ok m n" if "n \<in> set (nodes m')" for n
    using that assms(1) node_update_ok by (auto simp: m'(1) moving_ok_def)
  show "\<And>w. write_inside m' w = write_inside m w"
    by (simp add: m'(1) write_inside_def)
  show "moving_ok m'"
    using assms(1) n c by (auto simp: moving_ok_def m'(1) node_ok_def)
  show "\<forall>w \<in> set ws. write_inside m w"
    using assms(1) n c node_inside by (auto simp: m'(2) moving_ok_def)
qed

lemma prog_rounds_ok: "moving_ok m \<Longrightarrow> \<forall>w \<in> set (fst (prog_rounds n m)). write_inside m w"
proof (induction n arbitrary: m)
  case (Suc n)
  obtain ws m' where r: "prog_round m = (ws, m')"
    by (cases "prog_round m")
  note ok = prog_round_ok[OF Suc.prems r]
  show ?case
    using Suc.IH[OF ok(1)] ok(2,3) r by (auto split: prod.splits)
qed simp

lemma progs_ok: "moving_ok prog1" "moving_ok prog2" "moving_ok prog3" "moving_ok prog4"
  by (simp_all add: moving_ok_def node_ok_def inward_def prog1_def prog2_def prog3_def prog4_def node_init_def)

text \<open>
  The four programs that move letters only ever write inside of their own quarter of the screen, with a colour that is a byte: whatever the number of rounds, the
  line of a written position is one of lines 0 to 11 or 12 to 24 and its column one of columns 0 to 39 or 40 to 79, as the program says.
\<close>

theorem letters_stay_in_quarter:
  "m \<in> {prog1, prog2, prog3, prog4} \<longrightarrow> (\<forall>(c, col, p) \<in> set (fst (prog_rounds n m)). col \<le> 0xFF \<and> unat (min_x m) \<le> unat p div 80 \<and> unat p div 80 < unat (max_x m) \<and>
     unat (min_y m) \<le> unat p mod 80 \<and> unat p mod 80 < unat (max_y m))"
  using prog_rounds_ok[of m n] progs_ok by (fastforce simp: write_inside_def)

theorem letters_stay_in_quarter_witness:
  "(0x44, 1, 118) \<in> set (fst (prog_rounds 1 prog1)) \<and> unat (118 :: u32) div 80 < unat (max_x prog1) \<and> unat (118 :: u32) mod 80 < unat (max_y prog1)"
proof -
  have m: "(0x44, 1, 118) \<in> set (fst (prog_rounds 1 prog1))"
    by (simp add: prog_round_def prog1_def node_init_def node_update_def c_char_def)
  then show ?thesis
    using letters_stay_in_quarter[of prog1 1] by fastforce
qed

subsection \<open>The bank account\<close>

text \<open>The father (\<open>True\<close>) saves 10, the child (\<open>False\<close>) draws 20; both through a local copy of the balance. A place is the number of the next statement of the loop;
  counting and printing are one statement, and what is printed is left out. A call of a lock function is one step, as in theory \<open>Readers\<close>.\<close>

record teller =
  at_stmt :: nat
  t_copy :: u32
  total :: u32

record bank =
  bankbalance :: u32
  banklock :: lock
  teller :: "bool \<Rightarrow> teller"

definition bank_start :: bank where
  "bank_start = \<lparr>bankbalance = 1000, banklock = lock_init, teller = (\<lambda>_. \<lparr>at_stmt = 0, t_copy = 0, total = 0\<rparr>)\<rparr>"

definition teller_stmt :: "u32 \<Rightarrow> bool \<Rightarrow> bank \<Rightarrow> bank option res" where
  "teller_stmt thread father b =
     (let w = teller b father; goto = (\<lambda>w b. Inr (Some (b\<lparr>teller := (teller b)(father := w\<lparr>at_stmt := Suc (at_stmt w) mod 6\<rparr>)\<rparr>)))
      in if at_stmt w = 0 then (case try_acquire thread (banklock b) of None \<Rightarrow> Inr None | Some l \<Rightarrow> goto w (b\<lparr>banklock := l\<rparr>))
         else if at_stmt w = 1 then goto (w\<lparr>t_copy := bankbalance b\<rparr>) b
         else if at_stmt w = 2 then goto (w\<lparr>t_copy := if father then t_copy w + 10 else t_copy w - 20\<rparr>) b
         else if at_stmt w = 3 then goto w (b\<lparr>bankbalance := t_copy w\<rparr>)
         else if at_stmt w = 4 then andthen (give_back (banklock b)) (\<lambda>l. goto w (b\<lparr>banklock := l\<rparr>))
         else goto (w\<lparr>total := total w + (if father then 10 else 20)\<rparr>) b)"

inductive bank_step :: "(bool \<Rightarrow> u32) \<Rightarrow> bank \<Rightarrow> bank \<Rightarrow> bool" for thread where
  stmt: "teller_stmt (thread who) who b = Inr (Some b') \<Longrightarrow> bank_step thread b b'"

text \<open>What a teller has changed in the balance and not yet counted.\<close>

definition uncounted :: "teller \<Rightarrow> u32 \<Rightarrow> u32" where
  "uncounted w n = (if at_stmt w \<in> {4, 5} then n else 0)"

text \<open>The teller in the critical section, if any, has the lock; only it has a copy of the balance in use.\<close>

definition bank_ok :: "(bool \<Rightarrow> u32) \<Rightarrow> bool option \<Rightarrow> bank \<Rightarrow> bool" where
  "bank_ok thread o1 b \<longleftrightarrow> banklock b = (case o1 of None \<Rightarrow> lock_init | Some who \<Rightarrow> locked_by (thread who)) \<and>
     (\<forall>who. at_stmt (teller b who) < 6 \<and> (at_stmt (teller b who) \<in> {1, 2, 3, 4} \<longleftrightarrow> o1 = Some who) \<and>
       (at_stmt (teller b who) = 2 \<longrightarrow> t_copy (teller b who) = bankbalance b) \<and>
       (at_stmt (teller b who) = 3 \<longrightarrow> t_copy (teller b who) = (if who then bankbalance b + 10 else bankbalance b - 20))) \<and>
     bankbalance b = 1000 + total (teller b True) + uncounted (teller b True) 10 - total (teller b False) - uncounted (teller b False) 20"

lemma bank_move:
  assumes ok: "bank_ok thread o1 b" and o: "o2 = (if a' \<in> {1, 2, 3, 4} then Some who else if at_stmt (teller b who) \<in> {1, 2, 3, 4} then None else o1)"
    and a: "a' < 6" "a' \<in> {1, 2, 3, 4} \<longrightarrow> o1 = None \<or> o1 = Some who" and l: "l = (case o2 of None \<Rightarrow> lock_init | Some u \<Rightarrow> locked_by (thread u))"
    and w: "at_stmt w = a'" "a' = 2 \<longrightarrow> t_copy w = bal" "a' = 3 \<longrightarrow> t_copy w = (if who then bal + 10 else bal - 20)"
    and bal: "bal = bankbalance b \<or> o1 = Some who" "bal - bankbalance b = (if who then 1 else -1) * (total w + uncounted w (if who then 10 else 20) - total (teller b who) - uncounted (teller b who) (if who then 10 else 20))"
  shows "bank_ok thread o2 (b\<lparr>bankbalance := bal, banklock := l, teller := (teller b)(who := w)\<rparr>)"
proof -
  have other: "at_stmt (teller b (\<not> who)) < 6" "at_stmt (teller b (\<not> who)) \<in> {1, 2, 3, 4} \<longleftrightarrow> o1 = Some (\<not> who)"
    "at_stmt (teller b (\<not> who)) = 2 \<longrightarrow> t_copy (teller b (\<not> who)) = bankbalance b"
    "at_stmt (teller b (\<not> who)) = 3 \<longrightarrow> t_copy (teller b (\<not> who)) = (if \<not> who then bankbalance b + 10 else bankbalance b - 20)"
    using ok unfolding bank_ok_def by blast+
  have this_one: "at_stmt (teller b who) \<in> {1, 2, 3, 4} \<longleftrightarrow> o1 = Some who"
    using ok unfolding bank_ok_def by blast
  have old: "bankbalance b = 1000 + total (teller b True) + uncounted (teller b True) 10 - total (teller b False) - uncounted (teller b False) 20"
    using ok unfolding bank_ok_def by blast
  have "bal = (if who then 1 else -1) * (total w + uncounted w (if who then 10 else 20) - total (teller b who) - uncounted (teller b who) (if who then 10 else 20)) + bankbalance b"
    using bal(2) by (simp only: diff_eq_eq)
  then have sum: "bal = 1000 + total (((teller b)(who := w)) True) + uncounted (((teller b)(who := w)) True) 10 - total (((teller b)(who := w)) False) - uncounted (((teller b)(who := w)) False) 20"
    unfolding old by (cases who) simp_all
  have o2: "o2 = Some (\<not> who) \<longleftrightarrow> o1 = Some (\<not> who)"
    using o a(2) this_one by (auto split: if_splits)
  have o3: "a' \<in> {1, 2, 3, 4} \<longleftrightarrow> o2 = Some who"
    using o this_one by auto
  have each: "at_stmt (((teller b)(who := w)) u) < 6 \<and> (at_stmt (((teller b)(who := w)) u) \<in> {1, 2, 3, 4} \<longleftrightarrow> o2 = Some u) \<and>
       (at_stmt (((teller b)(who := w)) u) = 2 \<longrightarrow> t_copy (((teller b)(who := w)) u) = bal) \<and>
       (at_stmt (((teller b)(who := w)) u) = 3 \<longrightarrow> t_copy (((teller b)(who := w)) u) = (if u then bal + 10 else bal - 20))" for u
  proof (cases "u = who")
    case True
    then show ?thesis
      using a(1) w o3 by simp
  next
    case False
    then have "u = (\<not> who)"
      by auto
    then show ?thesis
      using False other o2 bal(1) by auto
  qed
  show ?thesis
    unfolding bank_ok_def using l sum each by simp
qed

lemma teller_stmt_ok:
  assumes ok: "bank_ok thread o1 b" and th: "thread True \<noteq> thread False" "\<forall>w. thread w \<noteq> NULL"
  shows "\<exists>r. teller_stmt (thread who) who b = Inr r \<and> (\<forall>b'. r = Some b' \<longrightarrow> (\<exists>o2. bank_ok thread o2 b'))"
proof -
  let ?w = "teller b who" let ?a = "at_stmt ?w"
  have w: "?a < 6" "?a \<in> {1, 2, 3, 4} \<longleftrightarrow> o1 = Some who" "?a = 2 \<longrightarrow> t_copy ?w = bankbalance b" "?a = 3 \<longrightarrow> t_copy ?w = (if who then bankbalance b + 10 else bankbalance b - 20)"
    using ok unfolding bank_ok_def by blast+
  have l: "banklock b = (case o1 of None \<Rightarrow> lock_init | Some who \<Rightarrow> locked_by (thread who))"
    using ok unfolding bank_ok_def by blast
  have ot: "thread (\<not> who) \<noteq> thread who"
    using th(1) by (cases who) auto
  consider "?a = 0" | "?a = 1" | "?a = 2" | "?a = 3" | "?a = 4" | "?a = 5"
    using w(1) by linarith
  then show ?thesis
  proof cases
    case 1
    show ?thesis
    proof (cases o1)
      case None
      have "bank_ok thread (Some who) (b\<lparr>bankbalance := bankbalance b, banklock := locked_by (thread who), teller := (teller b)(who := ?w\<lparr>at_stmt := 1\<rparr>)\<rparr>)"
        by (rule bank_move[OF ok, where a' = 1]) (use None 1 in \<open>simp_all add: uncounted_def\<close>)
      then show ?thesis
        using None 1 l th(2) by (auto simp: teller_stmt_def Let_def)
    next
      case (Some u)
      then have "u = (\<not> who)"
        using w(2) 1 by auto
      then show ?thesis
        using Some 1 l ot by (auto simp: teller_stmt_def Let_def)
    qed
  next
    case 2
    have "bank_ok thread (Some who) (b\<lparr>bankbalance := bankbalance b, banklock := banklock b, teller := (teller b)(who := ?w\<lparr>t_copy := bankbalance b, at_stmt := 2\<rparr>)\<rparr>)"
      by (rule bank_move[OF ok, where a' = 2]) (use 2 w l in \<open>simp_all add: uncounted_def\<close>)
    then show ?thesis
      using 2 by (auto simp: teller_stmt_def Let_def numeral_2_eq_2)
  next
    case 3
    have "bank_ok thread (Some who) (b\<lparr>bankbalance := bankbalance b, banklock := banklock b, teller := (teller b)(who := ?w\<lparr>t_copy := if who then t_copy ?w + 10 else t_copy ?w - 20, at_stmt := 3\<rparr>)\<rparr>)"
      by (rule bank_move[OF ok, where a' = 3]) (use 3 w l in \<open>auto simp: uncounted_def\<close>)
    then show ?thesis
      using 3 by (auto simp: teller_stmt_def Let_def)
  next
    case 4
    have "bank_ok thread (Some who) (b\<lparr>bankbalance := t_copy ?w, banklock := banklock b, teller := (teller b)(who := ?w\<lparr>at_stmt := 4\<rparr>)\<rparr>)"
      by (rule bank_move[OF ok, where a' = 4]) (use 4 w l in \<open>simp_all add: uncounted_def\<close>)
    then show ?thesis
      using 4 by (auto simp: teller_stmt_def Let_def)
  next
    case 5
    have "bank_ok thread None (b\<lparr>bankbalance := bankbalance b, banklock := lock_init, teller := (teller b)(who := ?w\<lparr>at_stmt := 5\<rparr>)\<rparr>)"
      by (rule bank_move[OF ok, where a' = 5]) (use 5 w l in \<open>simp_all add: uncounted_def\<close>)
    then show ?thesis
      using 5 w(2) l by (auto simp: teller_stmt_def Let_def)
  next
    case 6
    have "bank_ok thread o1 (b\<lparr>bankbalance := bankbalance b, banklock := banklock b, teller := (teller b)(who := ?w\<lparr>total := total ?w + (if who then 10 else 20), at_stmt := 0\<rparr>)\<rparr>)"
      by (rule bank_move[OF ok, where a' = 0]) (use 6 w l in \<open>simp_all add: uncounted_def\<close>)
    then show ?thesis
      using 6 by (auto simp: teller_stmt_def Let_def)
  qed
qed

text \<open>An interleaving, given by who goes next.\<close>

primrec bank_run :: "(bool \<Rightarrow> u32) \<Rightarrow> bool list \<Rightarrow> bank \<Rightarrow> bank option" where
  "bank_run thread [] b = Some b"
| "bank_run thread (who # ws) b = (case teller_stmt (thread who) who b of Inr (Some b) \<Rightarrow> bank_run thread ws b | _ \<Rightarrow> None)"

lemma bank_run_steps: "bank_run thread ws b = Some b' \<Longrightarrow> (bank_step thread)\<^sup>*\<^sup>* b b'"
proof (induction ws arbitrary: b)
  case (Cons who ws)
  then obtain b1 where "teller_stmt (thread who) who b = Inr (Some b1)" "bank_run thread ws b1 = Some b'"
    by (auto split: sum.splits option.splits)
  then show ?case
    using Cons.IH bank_step.stmt by (metis converse_rtranclp_into_rtranclp)
qed simp



subsection \<open>Counting letters and digits\<close>

definition chararray :: "u8 list" where "chararray = c_string ''abcdabc12345''"

definition is_letter :: "u8 \<Rightarrow> bool" where
  "is_letter c \<longleftrightarrow> 0x61 \<le>s c \<and> c \<le>s 0x7A \<or> 0x41 \<le>s c \<and> c \<le>s 0x5A"

definition is_digit :: "u8 \<Rightarrow> bool" where
  "is_digit c \<longleftrightarrow> 0x30 \<le>s c \<and> c \<le>s 0x39"

definition count_chars :: "(u8 \<Rightarrow> bool) \<Rightarrow> u8 list \<Rightarrow> u32" where
  "count_chars P cs = foldl (\<lambda>sum c. if P c then sum + 1 else sum) 0 cs"

text \<open>What is printed, in this order since the father waits for each child: \<open>p1\<close> and \<open>p2\<close> are the identifiers of the children; a child returns its sum as its status.\<close>

definition multiproc :: "u32 \<Rightarrow> u32 \<Rightarrow> u8 list list" where
  "multiproc p1 p2 =
     (let sum1 = count_chars is_letter chararray; sum2 = count_chars is_digit chararray; finalsum = 0 + sum1 + sum2; d = (\<lambda>x. num_text 10 (unat x))
      in [c_string ''Begin multi-process program ... '' @ [0xA],
          c_string ''I am child counting letters, my pid is '' @ d p1 @ c_string '', I found '' @ d sum1 @ c_string '' letters'' @ [0xA],
          c_string ''I am child counting numbers, my pid is '' @ d p2 @ c_string '', I found '' @ d sum2 @ c_string '' numbers'' @ [0xA],
          c_string ''Final sum = '' @ d finalsum @ [0xA]])"

lemma count_chars_length: "length cs < 2 ^ 32 \<Longrightarrow> unat (count_chars P cs) = length (filter P cs)"
proof -
  assume l: "length cs < 2 ^ 32"
  have "foldl (\<lambda>sum c. if P c then sum + 1 else sum) n cs = n + word_of_nat (length (filter P cs))" for n :: u32
    by (induction cs arbitrary: n) (simp_all add: algebra_simps)
  moreover have "length (filter P cs) < 2 ^ 32"
    using l length_filter_le[of P cs] by linarith
  ultimately show ?thesis
    by (simp add: count_chars_def unat_of_nat_lt)
qed

text \<open>Every character of the array is a letter or a digit, so that the final sum is the number of its characters.\<close>

lemma multiproc_final: "last (multiproc p1 p2) = c_string ''Final sum = '' @ num_text 10 (length chararray) @ [0xA]"
proof -
  have "filter is_letter chararray = take 7 chararray" "filter is_digit chararray = drop 7 chararray"
    by (simp_all add: chararray_def c_string_def c_char_def is_letter_def is_digit_def)
  then have "unat (count_chars is_letter chararray) = 7" "unat (count_chars is_digit chararray) = 5"
    by (simp_all add: count_chars_length chararray_def c_string_def)
  then have "unat (0 + count_chars is_letter chararray + count_chars is_digit chararray) = 12"
    by (simp add: unat_word_ariths)
  moreover have "length chararray = 12"
    by (simp add: chararray_def c_string_def)
  ultimately show ?thesis
    by (simp add: multiproc_def Let_def)
qed

subsection \<open>The words and the fruit\<close>

definition put_letter :: "nat \<Rightarrow> nat \<Rightarrow> u8 \<Rightarrow> u8 list list \<Rightarrow> u8 list list res" where
  "put_letter cnt idx c words = andthen (rd words cnt) (\<lambda>row. andthen (wr row idx c) (\<lambda>row. wr words cnt row))"

fun putwords_loop :: "u8 list \<Rightarrow> nat \<Rightarrow> nat \<Rightarrow> u8 list list \<Rightarrow> u8 list list res" where
  "putwords_loop [] cnt idx words = Inr words"
| "putwords_loop (c # cs) cnt idx words =
     (if c = 0x20 \<or> c = 0x21 then andthen (put_letter cnt idx 0 words) (putwords_loop cs (Suc cnt) 0)
      else andthen (put_letter cnt idx c words) (putwords_loop cs cnt (Suc idx)))"

definition putwords :: "u8 list \<Rightarrow> u8 list list \<Rightarrow> u8 list list res" where
  "putwords s words = putwords_loop s 0 0 words"

fun print_words :: "nat \<Rightarrow> nat \<Rightarrow> u8 list list \<Rightarrow> (u8 list \<times> u8 list list) res" where
  "print_words 0 i words = Inr ([], words)"
| "print_words (Suc n) i words =
     andthen (rd words i) (\<lambda>row.
     if 0 \<notin> set row then Inl OutOfBounds
     else andthen (print_words n (Suc i) (words[i := replicate (length row) 0])) (\<lambda>(t, words). Inr (takeWhile (\<lambda>c. c \<noteq> 0) row @ 0x20 # t, words)))"

definition myprintf :: "u8 list list \<Rightarrow> (u8 list \<times> u8 list list) res" where
  "myprintf words = andthen (print_words 9 0 words) (\<lambda>(t, words). Inr (t @ [0x21, 0xA], words))"

text \<open>A round of the father, which has both locks: what is printed, the plate and the words. The second half of its test, \<^verbatim>\<open>sizeof(words[0]) != 0\<close>, is always true.\<close>

definition enjoy_round :: "u8 \<times> u8 list list \<Rightarrow> (u8 list \<times> u8 \<times> u8 list list) res" where
  "enjoy_round st =
     (case st of (fruit_disk, words) \<Rightarrow>
        if fruit_disk \<noteq> 0 then andthen (myprintf words) (\<lambda>(t, words). Inr (t, 0, words)) else Inr ([], fruit_disk, words))"

definition no_words :: "u8 list list" where "no_words = replicate 15 (replicate 15 0)"

text \<open>With a fruit and the words the sentence is printed; with a fruit and no words nine blanks are printed.\<close>

lemma enjoy_sentence:
  "andthen (putwords (c_string ''Father will live one year after anther for ever!'') no_words) (\<lambda>words. enjoy_round (1, words)) =
     Inr (c_string ''Father will live one year after anther for ever '' @ [0x21, 0xA], 0, no_words)"
  by code_simp

lemma enjoy_without_words: "enjoy_round (1, no_words) = Inr (replicate 9 0x20 @ [0x21, 0xA], 0, no_words)"
  by code_simp

end
