(* ===== verification/Screen.thy ===== *)
theory Screen
  imports Stdio Sync
begin

text \<open>
  The screen and the console: the character output of \<^verbatim>\<open>src/lib/kernel/print_asm.asm\<close>, \<^verbatim>\<open>src/lib/kernel/print_c.c\<close> on top of it and the console of
  \<^verbatim>\<open>src/device/console.c\<close>, which serialises it with a lock, the output calls of \<^verbatim>\<open>src/userprog/syscall-init.c\<close> and \<^verbatim>\<open>panic_spin\<close> of \<^verbatim>\<open>src/kernel/debug.c\<close>.

  The state of the screen is the video segment, addressed with 16 bits, two bytes (character and attribute) for each of the 25 * 80 positions, and the cursor
  register of the controller. Strings are the bytes in front of the terminating zero. A caller that has to wait for the lock has the outcome \<open>CWait\<close>.
\<close>

subsection \<open>The screen\<close>

record screen =
  vram :: "u16 \<Rightarrow> u8"
  cursor :: u16

definition set_cursor :: "u16 \<Rightarrow> screen \<Rightarrow> screen" where
  "set_cursor pos s = s\<lparr>cursor := pos\<rparr>"

text \<open>The two bytes of a position: \<^verbatim>\<open>shl bx, 1\<close>, then \<^verbatim>\<open>inc bx\<close>.\<close>

definition put_cell :: "u16 \<Rightarrow> u8 \<Rightarrow> u8 \<Rightarrow> screen \<Rightarrow> screen" where
  "put_cell pos c attr s = s\<lparr>vram := (vram s)(push_bit 1 pos := c, push_bit 1 pos + 1 := attr)\<rparr>"

text \<open>Lines 1 to 24 are moved up and the last one is filled with blanks.\<close>

definition roll_screen :: "screen \<Rightarrow> screen" where
  "roll_screen s = s\<lparr>vram := (\<lambda>a. if a < 3840 then vram s (a + 160) else if a < 4000 then (if even (unat a) then 0x20 else 0x07) else vram s a), cursor := 1920\<rparr>"

text \<open>\<^verbatim>\<open>jl\<close> compares signed words.\<close>

definition next_line :: "u16 \<Rightarrow> screen \<Rightarrow> screen" where
  "next_line bx s =
     (let bx = bx - bx mod 80 + 80
      in if bx <s 2000 then s\<lparr>cursor := bx\<rparr> else roll_screen s)"

definition put_char :: "u8 \<Rightarrow> u8 \<Rightarrow> screen \<Rightarrow> screen" where
  "put_char c attr s =
     (let bx = cursor s
      in if c = 0xd \<or> c = 0xa then next_line bx s
         else if c = 0x8 then let bx = bx - 1; s = put_cell bx 0x20 0x07 s in s\<lparr>cursor := drop_bit 1 (push_bit 1 bx + 1)\<rparr>
         else let s = put_cell bx c attr s; bx = drop_bit 1 (push_bit 1 bx + 1) + 1
           in if bx <s 2000 then s\<lparr>cursor := bx\<rparr> else next_line bx s)"

definition put_str :: "u8 list \<Rightarrow> u8 \<Rightarrow> screen \<Rightarrow> screen" where
  "put_str str attr s = fold (\<lambda>c. put_char c attr) str s"

definition put_char_pos :: "u8 \<Rightarrow> u8 \<Rightarrow> u16 \<Rightarrow> screen \<Rightarrow> screen" where
  "put_char_pos c attr pos s = put_cell pos c attr s"

text \<open>The character is in the upper byte of the result, the attribute in the lower one.\<close>

definition get_char_pos :: "u16 \<Rightarrow> screen \<Rightarrow> u32" where
  "get_char_pos pos s = push_bit 8 (ucast (vram s (push_bit 1 pos))) OR ucast (vram s (push_bit 1 pos + 1))"

definition put_char_in_pos :: "u8 \<Rightarrow> u8 \<Rightarrow> u8 \<Rightarrow> u8 \<Rightarrow> screen \<Rightarrow> screen" where
  "put_char_in_pos c attr pos_x pos_y = put_char_pos c attr (ucast pos_x * 80 + ucast pos_y)"

definition set_cursor_in_pos :: "u32 \<Rightarrow> u32 \<Rightarrow> screen \<Rightarrow> screen" where
  "set_cursor_in_pos pos_x pos_y = set_cursor (ucast (pos_x * 80 + pos_y))"

definition clear :: "screen \<Rightarrow> screen" where
  "clear s = set_cursor_in_pos 0 0 ((put_char 0 0x07 ^^ 2000) (set_cursor_in_pos 0 0 s))"

text \<open>\<^verbatim>\<open>put_uint\<close> and \<^verbatim>\<open>put_int\<close> with the text of theory \<open>Stdio\<close>.\<close>

definition print_num :: "u8 list res option \<Rightarrow> u8 \<Rightarrow> screen \<Rightarrow> screen run" where
  "print_num r attr s = bindr r (\<lambda>t. Some (Inr (put_str t attr s)))"

definition debug_printf_s :: "u8 list \<Rightarrow> u8 list \<Rightarrow> screen \<Rightarrow> screen" where
  "debug_printf_s str c s = put_char 0xa 0x07 (put_str c 0x07 (put_str str 0x07 (put_char 0xa 0x07 s)))"

definition debug_printf_uint :: "u8 list \<Rightarrow> u32 \<Rightarrow> u32 \<Rightarrow> screen \<Rightarrow> screen run" where
  "debug_printf_uint str x b s =
     bindr (print_num (put_uint x b) 0x07 (put_str str 0x07 (put_char 0xa 0x07 s))) (\<lambda>s. Some (Inr (put_char 0xa 0x07 s)))"

subsection \<open>The console\<close>

record console =
  con_lock :: lock
  con_screen :: screen

datatype 'a ccall = CRet 'a console kstate | CWait console kstate

definition console_init :: "console \<Rightarrow> console" where
  "console_init c = c\<lparr>con_lock := lock_init\<rparr>"

definition console_acquire :: "console \<Rightarrow> kstate \<Rightarrow> unit ccall res" where
  "console_acquire c k = andthen (lock_acquire (con_lock c) k) (\<lambda>r. case r of
     Done (l, k) \<Rightarrow> Inr (CRet () (c\<lparr>con_lock := l\<rparr>) k) | Blocked (l, k) \<Rightarrow> Inr (CWait (c\<lparr>con_lock := l\<rparr>) k))"

definition console_release :: "console \<Rightarrow> kstate \<Rightarrow> (console \<times> kstate) res" where
  "console_release c k = andthen (lock_release (con_lock c) k) (\<lambda>(l, k). Inr (c\<lparr>con_lock := l\<rparr>, k))"

text \<open>Every output function of the console has this form.\<close>

definition with_console :: "(screen \<Rightarrow> ('a \<times> screen) run) \<Rightarrow> console \<Rightarrow> kstate \<Rightarrow> 'a ccall run" where
  "with_console f c k =
     bindr (Some (console_acquire c k)) (\<lambda>r. case r of
       CWait c k \<Rightarrow> Some (Inr (CWait c k))
     | CRet _ c k \<Rightarrow> bindr (f (con_screen c)) (\<lambda>(x, s).
         bindr (Some (console_release (c\<lparr>con_screen := s\<rparr>) k)) (\<lambda>(c, k). Some (Inr (CRet x c k)))))"

abbreviation emit :: "(screen \<Rightarrow> screen) \<Rightarrow> screen \<Rightarrow> (unit \<times> screen) run" where
  "emit f \<equiv> (\<lambda>s. Some (Inr ((), f s)))"

definition console_put_str :: "u8 list \<Rightarrow> u8 \<Rightarrow> console \<Rightarrow> kstate \<Rightarrow> unit ccall run" where
  "console_put_str str attr = with_console (emit (put_str str attr))"

definition console_put_char :: "u8 \<Rightarrow> u8 \<Rightarrow> console \<Rightarrow> kstate \<Rightarrow> unit ccall run" where
  "console_put_char c attr = with_console (emit (put_char c attr))"

definition console_get_char_pos :: "u16 \<Rightarrow> console \<Rightarrow> kstate \<Rightarrow> u32 ccall run" where
  "console_get_char_pos pos = with_console (\<lambda>s. Some (Inr (get_char_pos pos s, s)))"

definition console_put_int :: "u32 \<Rightarrow> u32 \<Rightarrow> u8 \<Rightarrow> console \<Rightarrow> kstate \<Rightarrow> unit ccall run" where
  "console_put_int x b attr = with_console (\<lambda>s. bindr (print_num (put_int x b) attr s) (\<lambda>s. Some (Inr ((), s))))"

definition console_put_char_in_pos :: "u8 \<Rightarrow> u8 \<Rightarrow> u8 \<Rightarrow> u8 \<Rightarrow> console \<Rightarrow> kstate \<Rightarrow> unit ccall run" where
  "console_put_char_in_pos c attr pos_x pos_y = with_console (emit (put_char_in_pos c attr pos_x pos_y))"

fun put_str_from :: "u8 list \<Rightarrow> u8 \<Rightarrow> u32 \<Rightarrow> screen \<Rightarrow> screen" where
  "put_str_from [] attr pos s = s"
| "put_str_from (c # cs) attr pos s = put_str_from cs attr (pos + 1) (put_char_pos c attr (ucast pos) s)"

definition console_put_str_in_pos :: "u8 list \<Rightarrow> u8 \<Rightarrow> u8 \<Rightarrow> u8 \<Rightarrow> console \<Rightarrow> kstate \<Rightarrow> unit ccall run" where
  "console_put_str_in_pos str attr pos_x pos_y = with_console (emit (put_str_from str attr (ucast pos_x * 80 + ucast pos_y)))"

definition console_clear :: "console \<Rightarrow> kstate \<Rightarrow> unit ccall run" where
  "console_clear = with_console (emit clear)"

definition console_debug_printf_str :: "u8 list \<Rightarrow> u8 list \<Rightarrow> console \<Rightarrow> kstate \<Rightarrow> unit ccall run" where
  "console_debug_printf_str str c = with_console (emit (debug_printf_s str c))"

definition console_debug_printf_uint :: "u8 list \<Rightarrow> u32 \<Rightarrow> u32 \<Rightarrow> console \<Rightarrow> kstate \<Rightarrow> unit ccall run" where
  "console_debug_printf_uint str x b = with_console (\<lambda>s. bindr (debug_printf_uint str x b s) (\<lambda>s. Some (Inr ((), s))))"

subsection \<open>Output calls\<close>

definition sys_write :: "u8 list \<Rightarrow> u32 \<Rightarrow> console \<Rightarrow> kstate \<Rightarrow> u32 ccall run" where
  "sys_write str attr c k = bindr (console_put_str str (ucast attr) c k) (\<lambda>r. case r of
     CRet _ c k \<Rightarrow> Some (Inr (CRet (word_of_nat (length str)) c k)) | CWait c k \<Rightarrow> Some (Inr (CWait c k)))"

definition sys_write_in_pos :: "u8 list \<Rightarrow> u32 \<Rightarrow> u32 \<Rightarrow> console \<Rightarrow> kstate \<Rightarrow> unit ccall run" where
  "sys_write_in_pos str attr pos = console_put_str_in_pos str (ucast attr) (ucast (pos div 80)) (ucast (pos mod 80))"

text \<open>\<^verbatim>\<open>panic_spin\<close> turns interrupts off, prints and stops; the result is the state in which it spins.\<close>

definition panic_spin :: "u8 list \<Rightarrow> u32 \<Rightarrow> u8 list \<Rightarrow> u8 list \<Rightarrow> screen \<Rightarrow> cpu \<Rightarrow> (screen \<times> cpu) run" where
  "panic_spin filename line func condition s c =
     bindr (print_num (put_int line 10) 0x07 (put_str (c_string [CHR 0x0A, CHR 0x0A, CHR 0x0A] @ c_string ''!!!!! error !!!!!'' @ [0xa] @ c_string ''filename:'' @ filename @ [0xa] @ c_string ''line:'') 0x07 s)) (\<lambda>s.
     Some (Inr (put_str ([0xa] @ c_string ''function:'' @ func @ [0xa] @ c_string ''condition:'' @ condition @ [0xa]) 0x07 s, snd (intr_disable c))))"

subsection \<open>The screen is a terminal of 25 lines\<close>

text \<open>The cells of the screen, and what a terminal does with them.\<close>

definition cells :: "screen \<Rightarrow> (u8 \<times> u8) list" where
  "cells s = map (\<lambda>p. (vram s (word_of_nat (2 * p)), vram s (word_of_nat (2 * p + 1)))) [0..<2000]"

type_synonym terminal = "(u8 \<times> u8) list \<times> nat"

definition terminal_of :: "screen \<Rightarrow> terminal" where
  "terminal_of s = (cells s, unat (cursor s))"

definition t_line :: "(u8 \<times> u8) list \<Rightarrow> nat \<Rightarrow> terminal" where
  "t_line g row = (if Suc row < 25 then (g, Suc row * 80) else (drop 80 g @ replicate 80 (0x20, 0x07), 24 * 80))"

definition t_put :: "u8 \<Rightarrow> u8 \<Rightarrow> terminal \<Rightarrow> terminal" where
  "t_put attr c t =
     (case t of (g, p) \<Rightarrow>
        if c = 0xd \<or> c = 0xa then t_line g (p div 80)
        else if c = 0x8 then (g[p - 1 := (0x20, 0x07)], p - 1)
        else if Suc p < 2000 then (g[p := (c, attr)], Suc p) else t_line (g[p := (c, attr)]) 24)"

lemma cells_simps [simp]: "length (cells s) = 2000" "cells (s\<lparr>cursor := p\<rparr>) = cells s"
  by (simp_all add: cells_def)

lemma word_of_nat_u16_eq: "i < 65536 \<Longrightarrow> j < 65536 \<Longrightarrow> (word_of_nat i :: u16) = word_of_nat j \<longleftrightarrow> i = j"
  by (simp add: word_unat_eq_iff unsigned_of_nat take_bit_nat_eq_self)

lemma double_pos:
  assumes "unat pos < 2000"
  shows "push_bit 1 pos = (word_of_nat (2 * unat pos) :: u16)" "push_bit 1 pos + 1 = (word_of_nat (2 * unat pos + 1) :: u16)" "drop_bit 1 (push_bit 1 pos + 1) = (pos :: u16)"
proof -
  show d: "push_bit 1 pos = (word_of_nat (2 * unat pos) :: u16)"
    by (simp add: push_bit_eq_mult)
  show e: "push_bit 1 pos + 1 = (word_of_nat (2 * unat pos + 1) :: u16)"
    using d by simp
  have "unat (word_of_nat (2 * unat pos + 1) :: u16) = 2 * unat pos + 1"
    using assms by (intro unat_of_nat_lt) simp
  then show "drop_bit 1 (push_bit 1 pos + 1) = (pos :: u16)"
    unfolding e word_unat_eq_iff unat_drop_bit_eq by (simp only: drop_bit_eq_div) simp
qed

lemma cells_put_cell:
  assumes "unat pos < 2000"
  shows "cells (put_cell pos c attr s) = (cells s)[unat pos := (c, attr)]"
proof (rule nth_equalityI)
  fix p assume "p < length (cells (put_cell pos c attr s))"
  then have p: "p < 2000"
    by simp
  have "2 * p \<noteq> 2 * unat pos + 1" "2 * p + 1 \<noteq> 2 * unat pos"
    by presburger+
  then have "(word_of_nat (2 * p) :: u16) = word_of_nat (2 * unat pos) \<longleftrightarrow> p = unat pos" "(word_of_nat (2 * p + 1) :: u16) = word_of_nat (2 * unat pos + 1) \<longleftrightarrow> p = unat pos"
    "(word_of_nat (2 * p) :: u16) \<noteq> word_of_nat (2 * unat pos + 1)" "(word_of_nat (2 * p + 1) :: u16) \<noteq> word_of_nat (2 * unat pos)"
    using p assms by (subst word_of_nat_u16_eq; simp)+
  then show "cells (put_cell pos c attr s) ! p = (cells s)[unat pos := (c, attr)] ! p"
    using p assms unfolding put_cell_def double_pos(1,2)[OF assms] by (simp add: cells_def nth_list_update add.commute)
qed simp

lemma roll_at:
  assumes "n < 4000"
  shows "vram (roll_screen s) (word_of_nat n) = (if n < 3840 then vram s (word_of_nat (n + 160)) else if even n then 0x20 else 0x07)"
proof -
  have u: "unat (word_of_nat n :: u16) = n"
    using assms by (intro unat_of_nat_lt) simp
  have "(word_of_nat n :: u16) < 3840 \<longleftrightarrow> n < 3840" "(word_of_nat n :: u16) < 4000"
    unfolding word_less_nat_alt u using assms by simp_all
  then show ?thesis
    using assms u by (simp add: roll_screen_def)
qed

lemma cells_roll: "cells (roll_screen s) = drop 80 (cells s) @ replicate 80 (0x20, 0x07)"
proof (rule nth_equalityI)
  fix p assume "p < length (cells (roll_screen s))"
  then have p: "p < 2000"
    by simp
  have e: "2 * p + 160 = 2 * (80 + p)" "2 * p + 1 + 160 = 2 * (80 + p) + 1" "2 * p < 4000" "2 * p + 1 < 4000"
    using p by simp_all
  show "cells (roll_screen s) ! p = (drop 80 (cells s) @ replicate 80 (0x20, 0x07)) ! p"
    using p roll_at[OF e(3), of s] roll_at[OF e(4), of s] unfolding e(1,2)
    by (cases "p < 1920") (simp_all add: cells_def nth_append del: of_nat_mult of_nat_add of_nat_Suc of_nat_numeral)
qed simp

lemma sless_2000: "unat x < 32768 \<Longrightarrow> x <s 2000 \<longleftrightarrow> unat x < 2000" for x :: u16
proof -
  assume x: "unat x < 32768"
  have u: "uint x = int (unat x)"
    by simp
  have "uint x < 32768"
    unfolding u of_nat_less_numeral_iff using x .
  then have "sint x = int (unat x)"
    unfolding u[symmetric] sint_uint by (intro signed_take_bit_int_eq_self order_trans[OF _ uint_ge_0]) simp_all
  moreover have "int (unat x) < 2000 \<longleftrightarrow> unat x < 2000"
    unfolding of_nat_less_numeral_iff ..
  ultimately show ?thesis
    unfolding word_sless_alt by (simp only:) simp
qed

lemma next_line_terminal:
  assumes "unat bx \<le> 2000"
  shows "terminal_of (next_line bx s) = t_line (cells s) (unat bx div 80)" "unat (cursor (next_line bx s)) < 2000"
proof -
  have u: "unat (bx - bx mod 80 + 80) = unat bx div 80 * 80 + 80"
  proof -
    have "unat (bx - bx mod 80) = unat bx - unat bx mod 80"
      by (subst unat_sub) (simp_all add: word_le_nat_alt unat_mod_distrib)
    then have "unat (bx - bx mod 80) = unat bx div 80 * 80"
      by (simp add: minus_mod_eq_div_mult)
    then show ?thesis
      using assms by (subst unat_add_lt) simp_all
  qed
  then have j: "bx - bx mod 80 + 80 <s 2000 \<longleftrightarrow> Suc (unat bx div 80) < 25"
    using assms by (subst sless_2000) auto
  show "terminal_of (next_line bx s) = t_line (cells s) (unat bx div 80)"
    using u cells_roll[of s] unfolding next_line_def Let_def j t_line_def terminal_of_def by (simp add: roll_screen_def[of s])
  show "unat (cursor (next_line bx s)) < 2000"
    using u j unfolding next_line_def Let_def by (simp add: roll_screen_def)
qed

lemma put_char_terminal:
  assumes p: "unat (cursor s) < 2000" "c = 0x8 \<longrightarrow> 0 < unat (cursor s)"
  shows "terminal_of (put_char c attr s) = t_put attr c (terminal_of s) \<and> unat (cursor (put_char c attr s)) < 2000"
proof -
  consider (line) "c = 0xd \<or> c = 0xa" | (erase) "c = 0x8" | (other) "c \<noteq> 0xd" "c \<noteq> 0xa" "c \<noteq> 0x8"
    by blast
  then show ?thesis
  proof cases
    case line
    then have "put_char c attr s = next_line (cursor s) s" "t_put attr c (terminal_of s) = t_line (cells s) (unat (cursor s) div 80)"
      by (auto simp: put_char_def Let_def t_put_def terminal_of_def)
    then show ?thesis
      using next_line_terminal[of "cursor s" s] p(1) by simp
  next
    case erase
    have u: "unat (cursor s - 1) = unat (cursor s) - 1"
      using p(2) erase by (intro unat_minus_one) auto
    then have d: "unat (cursor s - 1) < 2000"
      using p(1) by simp
    have "put_char c attr s = (put_cell (cursor s - 1) 0x20 0x07 s)\<lparr>cursor := cursor s - 1\<rparr>"
      using erase double_pos(3)[OF d] by (simp add: put_char_def Let_def)
    then show ?thesis
      using erase u d cells_put_cell[OF d] by (simp add: t_put_def terminal_of_def)
  next
    case other
    let ?s = "put_cell (cursor s) c attr s"
    have u: "unat (cursor s + 1) = Suc (unat (cursor s))"
      using p(1) by (subst unat_add_lt) simp_all
    then have j: "cursor s + 1 <s 2000 \<longleftrightarrow> Suc (unat (cursor s)) < 2000"
      using p(1) by (subst sless_2000) simp_all
    have r: "put_char c attr s = (if cursor s + 1 <s 2000 then ?s\<lparr>cursor := cursor s + 1\<rparr> else next_line (cursor s + 1) ?s)"
      using other double_pos(3)[OF p(1)] by (simp add: put_char_def Let_def)
    show ?thesis
    proof (cases "Suc (unat (cursor s)) < 2000")
      case True
      then show ?thesis
        using other r j u cells_put_cell[OF p(1)] by (simp add: t_put_def terminal_of_def)
    next
      case False
      then have "unat (cursor s + 1) = 2000"
        using u p(1) by simp
      then show ?thesis
        using other r j False next_line_terminal[of "cursor s + 1" ?s] cells_put_cell[OF p(1)] by (simp add: t_put_def terminal_of_def t_line_def)
    qed
  qed
qed

text \<open>
  The screen is a terminal: as long as no backspace is sent, \<^verbatim>\<open>put_str\<close> from a cursor on the screen has the effect on the 25 lines of 80 cells that a terminal has,
  which writes characters one after the other, starts a new line at the end of a line and at a line feed or carriage return, and scrolls at the last line. The cursor stays
  on the screen.
\<close>

theorem put_str_refines_terminal:
  assumes "unat (cursor s) < 2000" "0x8 \<notin> set str"
  shows "terminal_of (put_str str attr s) = fold (t_put attr) str (terminal_of s) \<and> unat (cursor (put_str str attr s)) < 2000"
  using assms
proof (induction str arbitrary: s)
  case (Cons c str)
  then show ?case
    using put_char_terminal[of s c attr] by (auto simp: put_str_def)
qed (simp add: put_str_def)

definition screen0 :: screen where
  "screen0 = \<lparr>vram = (\<lambda>_. 0), cursor = 0\<rparr>"

theorem put_str_refines_terminal_witness:
  "terminal_of (put_str (c_string ''ok'') 0x07 screen0) = ((cells screen0)[0 := (0x6f, 0x07), 1 := (0x6b, 0x07)], 2)"
  using put_str_refines_terminal[of screen0 "c_string ''ok''" "0x07"] by (simp add: screen0_def c_string_def c_char_def terminal_of_def t_put_def)

subsection \<open>Output under the lock\<close>

lemma with_console_free:
  assumes "con_lock c = lock_init" "running_thread k \<noteq> NULL" "f (con_screen c) = Some (Inr (x, s))"
  shows "with_console f c k = Some (Inr (CRet x (c\<lparr>con_screen := s\<rparr>) k))"
proof -
  have "c\<lparr>con_lock := lock_init\<rparr> = c"
    using assms(1) by (metis console.surjective console.update_convs(1) console.select_convs(1))
  then show ?thesis
    using assms by (simp add: with_console_def console_acquire_def console_release_def lock_acquire_uncontended lock_release_uncontended)
qed

text \<open>Blanks written from the first position on.\<close>

lemma put_blanks:
  assumes "cursor s = 0" "n < 2000"
  shows "terminal_of ((put_char 0 0x07 ^^ n) s) = (replicate n (0, 0x07) @ drop n (cells s), n)"
  using assms(2)
proof (induction n)
  case 0
  then show ?case
    using assms(1) by (simp add: terminal_of_def)
next
  case (Suc n)
  let ?s = "(put_char 0 0x07 ^^ n) s"
  have i: "cells ?s = replicate n (0, 0x07) @ drop n (cells s)" "unat (cursor ?s) = n"
    using Suc by (simp_all add: terminal_of_def)
  have "drop n (cells s) = cells s ! n # drop (Suc n) (cells s)"
    using Suc.prems by (intro Cons_nth_drop_Suc[symmetric]) simp
  then have "(replicate n (0, 0x07) @ drop n (cells s))[n := (0, 0x07)] = replicate (Suc n) (0, 0x07) @ drop (Suc n) (cells s)"
    by (simp add: list_update_append replicate_append_same)
  then show ?case
    using put_char_terminal[of ?s 0 "0x07"] i Suc.prems by (simp add: terminal_of_def t_put_def)
qed

lemma clear_cells: "cells (clear s) = replicate 1920 (0, 0x07) @ replicate 80 (0x20, 0x07)" "cursor (clear s) = 0"
proof -
  let ?s = "set_cursor_in_pos 0 0 s"
  have c: "cursor ?s = 0"
    by (simp add: set_cursor_in_pos_def set_cursor_def)
  let ?t = "(put_char 0 0x07 ^^ 1999) ?s"
  have n: "Suc 1999 = 2000"
    by simp
  have t: "cells ?t = replicate 1999 (0, 0x07) @ drop 1999 (cells ?s)" "unat (cursor ?t) = 1999"
    using put_blanks[OF c, of 1999] by (simp_all add: terminal_of_def)
  have "drop 1999 (cells ?s) = [cells ?s ! 1999]"
    using Cons_nth_drop_Suc[of 1999 "cells ?s"] by simp
  then have "(cells ?t)[1999 := (0, 0x07)] = replicate 1999 (0, 0x07) @ [(0, 0x07)]"
    unfolding t(1) by (simp add: list_update_append)
  then have u: "(cells ?t)[1999 := (0, 0x07)] = replicate 2000 (0, 0x07)"
    by (simp only: replicate_append_same replicate_Suc[symmetric] n)
  have "(put_char 0 0x07 ^^ Suc 1999) ?s = put_char 0 0x07 ?t"
    by (simp only: funpow.simps comp_apply)
  then have "(put_char 0 0x07 ^^ 2000) ?s = put_char 0 0x07 ?t"
    by (simp only: n)
  moreover have "terminal_of (put_char 0 0x07 ?t) = (replicate 1920 (0, 0x07) @ replicate 80 (0x20, 0x07), 1920)"
    using put_char_terminal[of ?t 0 "0x07"] t(2) u by (simp add: terminal_of_def t_put_def t_line_def)
  ultimately show "cells (clear s) = replicate 1920 (0, 0x07) @ replicate 80 (0x20, 0x07)" "cursor (clear s) = 0"
    by (simp_all add: clear_def set_cursor_in_pos_def set_cursor_def terminal_of_def)
qed

text \<open>
  C29. Output on the console is serialised: when nobody holds the lock, \<^verbatim>\<open>console_put_str\<close> writes the whole text and gives the lock back, and \<^verbatim>\<open>console_clear\<close>
  leaves blank cells and the cursor in the first one. When another thread holds it, the caller is suspended behind the other waiters and not
  a cell of the screen is changed.
\<close>

theorem console_output_serialised:
  assumes inv: "sched_inv k" "running_thread k \<noteq> NULL" "running_thread k \<noteq> idle_thread k"
  shows "(con_lock c = lock_init \<longrightarrow>
      console_put_str str attr c k = Some (Inr (CRet () (c\<lparr>con_screen := put_str str attr (con_screen c)\<rparr>) k)) \<and>
      (\<exists>c'. console_clear c k = Some (Inr (CRet () c' k)) \<and> con_lock c' = lock_init \<and> cursor (con_screen c') = 0 \<and>
        cells (con_screen c') = replicate 1920 (0, 0x07) @ replicate 80 (0x20, 0x07))) \<and>
    (holder (con_lock c) \<noteq> running_thread k \<and> sema_value (lock_sema (con_lock c)) = 0 \<and> running_thread k \<notin> set (waiters (lock_sema (con_lock c))) \<longrightarrow>
      (\<exists>c' k'. console_put_str str attr c k = Some (Inr (CWait c' k')) \<and> con_screen c' = con_screen c \<and> status_of k' (running_thread k) = TASK_BLOCKED \<and>
        waiters (lock_sema (con_lock c')) = waiters (lock_sema (con_lock c)) @ [running_thread k]))"
proof (intro conjI impI)
  assume l: "con_lock c = lock_init"
  show "console_put_str str attr c k = Some (Inr (CRet () (c\<lparr>con_screen := put_str str attr (con_screen c)\<rparr>) k))"
    unfolding console_put_str_def using l inv(2) by (intro with_console_free) simp_all
  have "console_clear c k = Some (Inr (CRet () (c\<lparr>con_screen := clear (con_screen c)\<rparr>) k))"
    unfolding console_clear_def using l inv(2) by (intro with_console_free) simp_all
  then show "\<exists>c'. console_clear c k = Some (Inr (CRet () c' k)) \<and> con_lock c' = lock_init \<and> cursor (con_screen c') = 0 \<and>
      cells (con_screen c') = replicate 1920 (0, 0x07) @ replicate 80 (0x20, 0x07)"
    using l clear_cells[of "con_screen c"] by (intro exI[of _ "c\<lparr>con_screen := clear (con_screen c)\<rparr>"]) simp
next
  assume h: "holder (con_lock c) \<noteq> running_thread k \<and> sema_value (lock_sema (con_lock c)) = 0 \<and> running_thread k \<notin> set (waiters (lock_sema (con_lock c)))"
  let ?k = "snd (k_intr_disable k)" and ?sm = "(lock_sema (con_lock c))\<lparr>waiters := waiters (lock_sema (con_lock c)) @ [running_thread k]\<rparr>"
  have d: "sched_inv ?k" "running_thread ?k = running_thread k" "idle_thread ?k = idle_thread k"
    using inv(1) by (simp_all add: k_intr_disable_def split_beta)
  obtain k' where b: "thread_block TASK_BLOCKED ?k = Inr k'"
    using thread_block_spec[OF d(1), of TASK_BLOCKED] by auto
  have "status_of k' (running_thread k) = TASK_BLOCKED"
    using thread_block_suspends[OF d(1) _ b] inv(3) d(2,3) by simp
  moreover have "console_put_str str attr c k = Some (Inr (CWait (c\<lparr>con_lock := (con_lock c)\<lparr>lock_sema := ?sm\<rparr>\<rparr>) k'))"
    using h b d(2) by (simp add: console_put_str_def with_console_def console_acquire_def lock_acquire_def semaphore_down_def semaphore_down_iter_def split_beta Let_def)
  ultimately show "\<exists>c' k'. console_put_str str attr c k = Some (Inr (CWait c' k')) \<and> con_screen c' = con_screen c \<and> status_of k' (running_thread k) = TASK_BLOCKED \<and>
      waiters (lock_sema (con_lock c')) = waiters (lock_sema (con_lock c)) @ [running_thread k]"
    by (intro exI[of _ "c\<lparr>con_lock := (con_lock c)\<lparr>lock_sema := ?sm\<rparr>\<rparr>"] exI[of _ k']) simp
qed

theorem console_output_serialised_witness:
  "console_put_str (c_string ''ok'') 0x07 \<lparr>con_lock = lock_init, con_screen = screen0\<rparr> kstate0 =
     Some (Inr (CRet () \<lparr>con_lock = lock_init, con_screen = put_str (c_string ''ok'') 0x07 screen0\<rparr> kstate0)) \<and>
   (\<exists>c' k'. console_put_str (c_string ''ok'') 0x07 \<lparr>con_lock = locked_by 0x2000, con_screen = screen0\<rparr> kstate0 = Some (Inr (CWait c' k')) \<and>
     con_screen c' = screen0 \<and> waiters (lock_sema (con_lock c')) = [running_thread kstate0])"
proof -
  have r: "running_thread kstate0 \<noteq> NULL" "running_thread kstate0 \<noteq> idle_thread kstate0" "running_thread kstate0 \<noteq> 0x2000"
    by (simp_all add: kstate0_def NULL_def)
  show ?thesis
    using console_output_serialised[OF kstate0_inv r(1,2), of "\<lparr>con_lock = lock_init, con_screen = screen0\<rparr>" "c_string ''ok''" "0x07"]
      console_output_serialised[OF kstate0_inv r(1,2), of "\<lparr>con_lock = locked_by 0x2000, con_screen = screen0\<rparr>" "c_string ''ok''" "0x07"] r(3)
    by (auto simp: locked_by_def lock_init_def semaphore_init_def)
qed

end
