(* ===== verification/Dispatch.thy ===== *)
theory Dispatch
  imports Ide Ioqueue Screen
begin

text \<open>
  How interrupts and system calls reach their functions: the rest of \<^verbatim>\<open>src/kernel/interrupt.c\<close> (interrupt controller, tables of handlers, the handler of unexpected
  interrupts), the table of system calls of \<^verbatim>\<open>src/userprog/syscall-init.c\<close> and the user side of the calls in \<^verbatim>\<open>src/lib/user/syscall.c\<close>. Addresses of functions are arguments.
  The interrupt controllers are hardware: the locale \<open>pic_pair\<close> states what their initialisation does, and a model of the two chips interprets it.
\<close>

subsection \<open>Tables of handlers\<close>

record intr_tables =
  intr_function_table :: "u32 list"
  intr_name :: "u8 list list"

definition intr_function_init :: "u32 \<Rightarrow> intr_tables" where
  "intr_function_init general_intr_handler_addr =
     \<lparr>intr_function_table = replicate IDT_DESC_CNT general_intr_handler_addr,
      intr_name = (replicate IDT_DESC_CNT (c_string ''unknown''))
        [0 := c_string ''#DE Divide Error'', 1 := c_string ''#DB Debug Exception'', 2 := c_string ''NMI Interrupt'', 3 := c_string ''#BP Breakpoint Exception'',
         4 := c_string ''#OF Overflow Exception'', 5 := c_string ''#BR BOUND Range Exceeded Exception'', 6 := c_string ''#UD Invalid Opcode Exception'',
         7 := c_string ''#NM Device Not Available Exception'', 8 := c_string ''#DF Double Fault Exception'', 9 := c_string ''Coprocessor Segment Overrun'',
         10 := c_string ''#TS Invalid TSS Exception'', 11 := c_string ''#NP Segment Not Present'', 12 := c_string ''#SS Stack Fault Exception'',
         13 := c_string ''#GP General Protection Exception'', 14 := c_string ''#PF Page-Fault Exception'', 16 := c_string ''#MF x87 FPU Floating-Point Error'',
         17 := c_string ''#AC Alignment Check Exception'', 18 := c_string ''#MC Machine-Check Exception'', 19 := c_string ''#XF SIMD Floating-Point Exception'']\<rparr>"

definition register_handler :: "u8 \<Rightarrow> u32 \<Rightarrow> intr_tables \<Rightarrow> intr_tables res" where
  "register_handler vector_id function t =
     andthen (wr (intr_function_table t) (unat vector_id) function) (\<lambda>tab. Inr (t\<lparr>intr_function_table := tab\<rparr>))"

text \<open>
  \<^verbatim>\<open>general_intr_handler\<close> returns for the spurious interrupts of the two chips, and otherwise prints what happened and stops: the result is whether it stops, and the screen.
\<close>

definition general_intr_handler :: "u8 \<Rightarrow> u32 \<Rightarrow> intr_tables \<Rightarrow> screen \<Rightarrow> (bool \<times> screen) run" where
  "general_intr_handler vector_id cr2 t s =
     (if vector_id = 0x27 \<or> vector_id = 0x2f then Some (Inr (False, s))
      else let s = (put_char 0x20 0x07 ^^ 320) s;
               s = put_str (c_string ''--- excetion message begin ---'' @ [0xa]) 0x07 s
        in bindr (if vector_id = 14
             then print_num (put_uint cr2 16) 0x07 (put_str ([0xa] @ c_string ''page fault addr is '') 0x07 s)
             else bindr (print_num (put_int (ucast vector_id) 16) 0x07 (put_str (c_string ''int vector: 0x'') 0x07 s)) (\<lambda>s.
                  bindr (Some (rd (intr_name t) (unat vector_id))) (\<lambda>nm.
                  Some (Inr (put_char 0xa 0x07 (put_str nm 0x07 (put_char 0xa 0x07 s))))))) (\<lambda>s.
           Some (Inr (True, put_str ([0xa] @ c_string ''--- excetion message end ---'' @ [0xa]) 0x07 s))))"

subsection \<open>The interrupt controllers\<close>

definition PIC_M_CTRL :: u16 where "PIC_M_CTRL = 0x20"
definition PIC_M_DATA :: u16 where "PIC_M_DATA = 0x21"
definition PIC_S_CTRL :: u16 where "PIC_S_CTRL = 0xa0"
definition PIC_S_DATA :: u16 where "PIC_S_DATA = 0xa1"

text \<open>The bytes that \<^verbatim>\<open>pic_init\<close> sends, with their ports.\<close>

definition pic_init :: "(u16 \<times> u8) list" where
  "pic_init =
     [(PIC_M_CTRL, 0x11), (PIC_M_DATA, 0x20), (PIC_M_DATA, 0x04), (PIC_M_DATA, 0x01),
      (PIC_S_CTRL, 0x11), (PIC_S_DATA, 0x28), (PIC_S_DATA, 0x02), (PIC_S_DATA, 0x01),
      (PIC_M_DATA, 0xf8), (PIC_S_DATA, 0xbf)]"

text \<open>The state after \<^verbatim>\<open>interrupt_init\<close>: the descriptor table and the operand of \<^verbatim>\<open>lidt\<close>, the tables of handlers, and what was sent to the controllers.\<close>

record intr_setup =
  idt :: "gate_desc list"
  idt_operand :: "64 word"
  tables_of_intr :: intr_tables
  pic_writes :: "(u16 \<times> u8) list"

definition interrupt_init :: "(nat \<Rightarrow> u32) \<Rightarrow> u32 \<Rightarrow> u32 \<Rightarrow> u32 \<Rightarrow> intr_setup" where
  "interrupt_init intr_entry_table syscall_handler general_intr_handler_addr idt_addr =
     \<lparr>idt = idt_init intr_entry_table syscall_handler, idt_operand = (word_of_nat (8 * IDT_DESC_CNT) - 1) OR push_bit 16 (ucast idt_addr),
      tables_of_intr = intr_function_init general_intr_handler_addr, pic_writes = pic_init\<rparr>"

text \<open>
  What the pair of controllers promises: after the four words of initialisation and a mask were sent to both chips, line \<open>n\<close> is delivered on the vector
  counted from the second word, unless its bit in the mask of its chip is set; lines of the slave also need line 2 of the master.
\<close>

locale pic_pair =
  fixes send :: "u16 \<times> u8 \<Rightarrow> 'p \<Rightarrow> 'p" and vector :: "'p \<Rightarrow> nat \<Rightarrow> u8 option"
  assumes delivery: "n < 16 \<Longrightarrow> bm AND 7 = 0 \<Longrightarrow> bs AND 7 = 0 \<Longrightarrow>
    vector (fold send [(0x20, 0x11), (0x21, bm), (0x21, 0x04), (0x21, 0x01), (0xa0, 0x11), (0xa1, bs), (0xa1, 0x02), (0xa1, 0x01), (0x21, km), (0xa1, ks)] p) n =
      (if n < 8 then if bit km n then None else Some (bm + word_of_nat n)
       else if bit km 2 \<or> bit ks (n - 8) then None else Some (bs + word_of_nat (n - 8)))"
begin

lemma lines_after_init:
  assumes "n < 16"
  shows "vector (fold send pic_init p) n = (if n \<in> {0, 1, 2, 14} then Some (0x20 + word_of_nat n) else None)"
proof -
  have "vector (fold send pic_init p) n = (if n < 8 then if bit (0xf8 :: u8) n then None else Some (0x20 + word_of_nat n)
      else if bit (0xf8 :: u8) 2 \<or> bit (0xbf :: u8) (n - 8) then None else Some (0x28 + word_of_nat (n - 8)))"
    unfolding pic_init_def PIC_M_CTRL_def PIC_M_DATA_def PIC_S_CTRL_def PIC_S_DATA_def by (rule delivery) (use assms in simp_all)
  moreover have "n \<in> {0, 1, 2, 3, 4, 5, 6, 7, 8, 9, 10, 11, 12, 13, 14, 15}"
    using assms by auto presburger
  ultimately show ?thesis
    by auto
qed

end

text \<open>One chip: which word of an initialisation it expects next, the vector of its first line, its mask.\<close>

record pic =
  pic_expects :: nat
  pic_base :: u8
  pic_mask :: u8

definition pic_ctrl :: "u8 \<Rightarrow> pic \<Rightarrow> pic" where
  "pic_ctrl v p = (if bit v 4 then p\<lparr>pic_expects := 2\<rparr> else p)"

definition pic_data :: "u8 \<Rightarrow> pic \<Rightarrow> pic" where
  "pic_data v p =
     (if pic_expects p = 2 then p\<lparr>pic_base := v AND 0xf8, pic_expects := 3\<rparr>
      else if pic_expects p = 3 then p\<lparr>pic_expects := 4\<rparr>
      else if pic_expects p = 4 then p\<lparr>pic_expects := 0\<rparr>
      else p\<lparr>pic_mask := v\<rparr>)"

definition pic_send :: "u16 \<times> u8 \<Rightarrow> pic \<times> pic \<Rightarrow> pic \<times> pic" where
  "pic_send w p =
     (case w of (port, v) \<Rightarrow> case p of (m, s) \<Rightarrow>
        if port = 0x20 then (pic_ctrl v m, s) else if port = 0x21 then (pic_data v m, s)
        else if port = 0xa0 then (m, pic_ctrl v s) else if port = 0xa1 then (m, pic_data v s) else (m, s))"

definition pic_vector :: "pic \<times> pic \<Rightarrow> nat \<Rightarrow> u8 option" where
  "pic_vector p n =
     (case p of (m, s) \<Rightarrow>
        if n < 8 then if bit (pic_mask m) n then None else Some (pic_base m + word_of_nat n)
        else if bit (pic_mask m) 2 \<or> bit (pic_mask s) (n - 8) then None else Some (pic_base s + word_of_nat (n - 8)))"

lemma base_bits: "v AND 7 = 0 \<Longrightarrow> v AND 0xf8 = v" for v :: u8
proof -
  assume v: "v AND 7 = 0"
  have "(0xf8 OR 7 :: u8) = - 1"
    by simp
  then have "v = v AND (0xf8 OR 7)"
    by (simp only: and.right_neutral)
  also have "\<dots> = (v AND 0xf8) OR (v AND 7)"
    by (rule bit_word_eqI) (auto simp only: bit_and_iff bit_or_iff)
  finally show "v AND 0xf8 = v"
    using v by simp
qed

lemma pic_send_simps:
  "pic_send (0x20, v) (m, s) = (pic_ctrl v m, s)" "pic_send (0x21, v) (m, s) = (pic_data v m, s)"
  "pic_send (0xa0, v) (m, s) = (m, pic_ctrl v s)" "pic_send (0xa1, v) (m, s) = (m, pic_data v s)"
  by (simp_all add: pic_send_def)

lemma pic_initialised: "pic_data imr (pic_data 0x01 (pic_data w (pic_data b (pic_ctrl 0x11 p)))) = p\<lparr>pic_base := b AND 0xf8, pic_expects := 0, pic_mask := imr\<rparr>"
  by (simp add: pic_ctrl_def pic_data_def)

interpretation pics: pic_pair pic_send pic_vector
proof
  fix n and bm bs km ks :: u8 and p :: "pic \<times> pic"
  assume b: "bm AND 7 = 0" "bs AND 7 = 0"
  obtain m s where p: "p = (m, s)"
    by (cases p)
  show "pic_vector (fold pic_send [(0x20, 0x11), (0x21, bm), (0x21, 0x04), (0x21, 0x01), (0xa0, 0x11), (0xa1, bs), (0xa1, 0x02), (0xa1, 0x01), (0x21, km), (0xa1, ks)] p) n =
      (if n < 8 then if bit km n then None else Some (bm + word_of_nat n)
       else if bit km 2 \<or> bit ks (n - 8) then None else Some (bs + word_of_nat (n - 8)))"
    unfolding p fold.simps comp_apply id_apply pic_send_simps pic_initialised pic_vector_def prod.case base_bits[OF b(1)] base_bits[OF b(2)] by simp
qed

lemma register_handler_ok:
  assumes "unat v < length (intr_function_table t)"
  shows "register_handler v f t = Inr (t\<lparr>intr_function_table := (intr_function_table t)[unat v := f]\<rparr>)"
  using assms by (simp add: register_handler_def wr_def)

lemma lidt_operand:
  assumes "drop_bit 16 x = (0 :: 64 word)"
  shows "(ucast (x OR push_bit 16 (ucast a)) :: u16) = ucast x" "(ucast (drop_bit 16 (x OR push_bit 16 (ucast a))) :: u32) = a"
proof -
  have "\<not> bit x (16 + n)" for n
    using arg_cong[OF assms, of "\<lambda>y. bit y n"] by (simp add: bit_simps)
  then show "(ucast (drop_bit 16 (x OR push_bit 16 (ucast a))) :: u32) = a"
    by (intro bit_word_eqI) (auto simp: bit_simps)
  show "(ucast (x OR push_bit 16 (ucast a)) :: u16) = ucast x"
    by (rule bit_word_eqI) (auto simp: bit_simps)
qed



subsection \<open>System calls\<close>

datatype SYSCALL_FUNC = SYS_GET_PID | SYS_WRITE | SYS_READ | SYS_READ_CHAR | SYS_WRITE_IN_POS | SYS_CALL_2A | SYS_MALLOC | SYS_FREE | SYS_FORK | SYS_WAIT | SYS_EXIT | SYS_SLEEP
  | SYS_WAIT_WITHOUT_PID | SYS_ACQUIRE_LOCK | SYS_RELEASE_LOCK | SYS_INITIAL_LOCK | SYS_READ_DISK | SYS_WRITE_DISK | SYS_EXECV

fun sysno :: "SYSCALL_FUNC \<Rightarrow> nat" where
  "sysno SYS_GET_PID = 0" | "sysno SYS_WRITE = 1" | "sysno SYS_READ = 2" | "sysno SYS_READ_CHAR = 3" | "sysno SYS_WRITE_IN_POS = 4" | "sysno SYS_CALL_2A = 5"
| "sysno SYS_MALLOC = 6" | "sysno SYS_FREE = 7" | "sysno SYS_FORK = 8" | "sysno SYS_WAIT = 9" | "sysno SYS_EXIT = 10" | "sysno SYS_SLEEP = 11"
| "sysno SYS_WAIT_WITHOUT_PID = 12" | "sysno SYS_ACQUIRE_LOCK = 13" | "sysno SYS_RELEASE_LOCK = 14" | "sysno SYS_INITIAL_LOCK = 15" | "sysno SYS_READ_DISK = 16"
| "sysno SYS_WRITE_DISK = 17" | "sysno SYS_EXECV = 18"

definition syscall_cnt :: nat where "syscall_cnt = 32"

text \<open>The functions whose addresses are entered in the table.\<close>

datatype kfun = K_sys_get_pid | K_sys_write | K_sys_read | K_sys_read_char | K_sys_write_in_pos | K_sys_call_intr2a | K_sys_malloc | K_sys_free | K_sys_fork | K_sys_wait | K_sys_exit
  | K_ms_sleep | K_sys_wait_without_pid | K_lock_acquire | K_lock_release | K_lock_init | K_sys_read_disk | K_sys_write_disk | K_sys_execv

definition syscall_init :: "kfun option list \<Rightarrow> kfun option list" where
  "syscall_init syscall_table =
     syscall_table[sysno SYS_GET_PID := Some K_sys_get_pid, sysno SYS_WRITE := Some K_sys_write, sysno SYS_READ := Some K_sys_read, sysno SYS_READ_CHAR := Some K_sys_read_char,
       sysno SYS_WRITE_IN_POS := Some K_sys_write_in_pos, sysno SYS_CALL_2A := Some K_sys_call_intr2a, sysno SYS_MALLOC := Some K_sys_malloc, sysno SYS_FREE := Some K_sys_free,
       sysno SYS_FORK := Some K_sys_fork, sysno SYS_WAIT := Some K_sys_wait, sysno SYS_EXIT := Some K_sys_exit, sysno SYS_SLEEP := Some K_ms_sleep,
       sysno SYS_WAIT_WITHOUT_PID := Some K_sys_wait_without_pid, sysno SYS_ACQUIRE_LOCK := Some K_lock_acquire, sysno SYS_RELEASE_LOCK := Some K_lock_release,
       sysno SYS_INITIAL_LOCK := Some K_lock_init, sysno SYS_READ_DISK := Some K_sys_read_disk, sysno SYS_WRITE_DISK := Some K_sys_write_disk, sysno SYS_EXECV := Some K_sys_execv]"

text \<open>A system call: the number in \<^verbatim>\<open>eax\<close> and the arguments in \<^verbatim>\<open>ebx\<close>, \<^verbatim>\<open>ecx\<close> and \<^verbatim>\<open>edx\<close>. The entry point calls the function of the table with the three registers.\<close>

type_synonym request = "SYSCALL_FUNC \<times> u32 list"

definition get_pid :: request where "get_pid = (SYS_GET_PID, [])"
definition write_call :: "u32 \<Rightarrow> u32 \<Rightarrow> request" where "write_call s attr = (SYS_WRITE, [s, attr])"
definition read_call :: "u32 \<Rightarrow> request" where "read_call s = (SYS_READ, [s])"
definition read_char :: request where "read_char = (SYS_READ_CHAR, [])"
definition write_in_pos :: "u32 \<Rightarrow> u32 \<Rightarrow> u32 \<Rightarrow> request" where "write_in_pos s attr pos = (SYS_WRITE_IN_POS, [s, attr, pos])"
definition call_2a :: request where "call_2a = (SYS_CALL_2A, [])"
definition malloc :: "u32 \<Rightarrow> request" where "malloc sz = (SYS_MALLOC, [sz])"
definition free_call :: "u32 \<Rightarrow> request" where "free_call ptr = (SYS_FREE, [ptr])"
definition fork_call :: request where "fork_call = (SYS_FORK, [])"
definition wait_call :: "u32 \<Rightarrow> u32 \<Rightarrow> request" where "wait_call p child_exit_status = (SYS_WAIT, [p, child_exit_status])"
definition wait_without_pid :: "u32 \<Rightarrow> request" where "wait_without_pid child_exit_status = (SYS_WAIT, [child_exit_status])"
definition exit_call :: "u32 \<Rightarrow> request" where "exit_call st = (SYS_EXIT, [st])"
definition sleep :: "u32 \<Rightarrow> request" where "sleep ms = (SYS_SLEEP, [ms])"
definition acquire_lock :: "u32 \<Rightarrow> request" where "acquire_lock l = (SYS_ACQUIRE_LOCK, [l])"
definition release_lock :: "u32 \<Rightarrow> request" where "release_lock l = (SYS_RELEASE_LOCK, [l])"
definition initial_lock :: "u32 \<Rightarrow> request" where "initial_lock l = (SYS_INITIAL_LOCK, [l])"
definition read_disk_call :: "u32 \<Rightarrow> u32 \<Rightarrow> u32 \<Rightarrow> request" where "read_disk_call b secID is_sdb = (SYS_READ_DISK, [b, secID, is_sdb])"
definition write_disk_call :: "u32 \<Rightarrow> u32 \<Rightarrow> u32 \<Rightarrow> request" where "write_disk_call b secID is_sdb = (SYS_WRITE_DISK, [b, secID, is_sdb])"
definition execv :: "u32 \<Rightarrow> u32 \<Rightarrow> request" where "execv acfile argv = (SYS_EXECV, [acfile, argv])"

definition serves :: "kfun option list \<Rightarrow> request \<Rightarrow> (kfun \<times> u32 list) option" where
  "serves syscall_table r =
     (if sysno (fst r) < length syscall_table then map_option (\<lambda>f. (f, snd r)) (syscall_table ! sysno (fst r)) else None)"

text \<open>The functions of \<^verbatim>\<open>syscall-init.c\<close> that are not modelled with their components.\<close>

definition sys_get_pid :: "kstate \<Rightarrow> u32" where
  "sys_get_pid k = scast (pid (pcbs k (running_thread k)))"

definition sys_read_char :: "ioqueue \<Rightarrow> kstate \<Rightarrow> u8 ioq_outcome res" where
  "sys_read_char q k = ioq_getchar q k"

definition sys_read_disk :: "'d ports \<Rightarrow> ('d drv \<Rightarrow> 'd drv) \<Rightarrow> hdisk \<Rightarrow> hdisk \<Rightarrow> u32 \<Rightarrow> bool \<Rightarrow> 'd drv \<Rightarrow> (u8 list \<times> 'd drv) run" where
  "sys_read_disk p rest sda sdb secID is_sdb = ide_read p rest (if is_sdb then sdb else sda) secID 1"

definition sys_write_disk :: "'d ports \<Rightarrow> ('d drv \<Rightarrow> 'd drv) \<Rightarrow> hdisk \<Rightarrow> hdisk \<Rightarrow> u8 list \<Rightarrow> u32 \<Rightarrow> bool \<Rightarrow> 'd drv \<Rightarrow> 'd drv run" where
  "sys_write_disk p rest sda sdb b secID is_sdb = ide_write p rest (if is_sdb then sdb else sda) secID b 1"



end
