(* ===== verification/Printf.thy ===== *)
theory Printf
  imports Dispatch
begin

text \<open>
  The functions of \<^verbatim>\<open>src/lib/stdio.c\<close> that user programs call: formatting in a buffer on the stack, then the system call. \<open>buffer\<close> and \<open>value\<close> are the addresses of the local
  buffers, \<open>format_addr\<close> the address of the parameter \<^verbatim>\<open>format\<close>, behind which the variable arguments are.
\<close>

subsection \<open>Output\<close>

definition string_at :: "u32 \<Rightarrow> bmem \<Rightarrow> u8 list option" where
  "string_at p m = map_option (\<lambda>n. map (\<lambda>i. m (p + word_of_nat i)) [0..<unat n]) (strlen p m)"

text \<open>The system call reads the string from the memory of the caller.\<close>

definition write_at :: "u32 \<Rightarrow> u32 \<Rightarrow> bmem \<Rightarrow> console \<Rightarrow> kstate \<Rightarrow> u32 ccall run" where
  "write_at s attr m c k = Option.bind (string_at s m) (\<lambda>t. sys_write t attr c k)"

definition printf :: "u32 \<Rightarrow> u32 \<Rightarrow> u32 \<Rightarrow> bmem \<Rightarrow> console \<Rightarrow> kstate \<Rightarrow> (bmem \<times> u32 ccall) run" where
  "printf buffer format format_addr m c k =
     Option.bind (vsprintf buffer format format_addr (memset buffer 0 1000 m)) (\<lambda>(_, m).
     bindr (write_at buffer 0x07 m c k) (\<lambda>r. Some (Inr (m, r))))"

definition putchar :: "u32 \<Rightarrow> u8 \<Rightarrow> bmem \<Rightarrow> console \<Rightarrow> kstate \<Rightarrow> (bmem \<times> u8 ccall) run" where
  "putchar buffer ch m c k =
     (let m = (memset buffer 0 2 m)(buffer := ch)
      in bindr (write_at buffer 0x07 m c k) (\<lambda>r. Some (Inr (m, case r of CRet _ c k \<Rightarrow> CRet ch c k | CWait c k \<Rightarrow> CWait c k))))"

definition puts :: "u32 \<Rightarrow> bmem \<Rightarrow> console \<Rightarrow> kstate \<Rightarrow> u32 ccall run" where
  "puts s m c k = write_at s 0x07 m c k"

text \<open>\<^verbatim>\<open>kprintf\<close> formats and, with the call of the console commented out, shows nothing.\<close>

definition kprintf :: "u32 \<Rightarrow> u32 \<Rightarrow> u32 \<Rightarrow> bmem \<Rightarrow> bmem option" where
  "kprintf buffer format format_addr m = map_option snd (vsprintf buffer format format_addr (memset buffer 0 1024 m))"

subsection \<open>Input\<close>

definition scanf :: "u32 \<Rightarrow> u32 \<Rightarrow> u32 \<Rightarrow> u8 list \<Rightarrow> bmem \<Rightarrow> (u8 list \<times> bmem) option" where
  "scanf value format format_addr inp m = vscanf value format format_addr inp m"

definition getchar :: "ioqueue \<Rightarrow> kstate \<Rightarrow> u8 ioq_outcome res" where
  "getchar q k = sys_read_char q k"

definition gets :: "u32 \<Rightarrow> u8 list \<Rightarrow> bmem \<Rightarrow> (u8 list \<times> bmem) option" where
  "gets s inp m = sys_read s 0 inp m"

subsection \<open>From the format to the terminal\<close>

lemma string_at_cstr: "cstr m p s \<Longrightarrow> length s < 2 ^ 32 \<Longrightarrow> string_at p m = Some s"
  by (auto simp: string_at_def strlen_cstr unat_nat32 cstr_nth intro!: nth_equalityI)

text \<open>What is outside of a buffer does not change when the buffer is filled.\<close>

lemma memset_outside: "\<not> in_region buffer n a \<Longrightarrow> n < 2 ^ 32 \<Longrightarrow> memset buffer x (word_of_nat n) m a = m a"
  by (simp add: memset_apply in_region_def word_less_nat_alt unat_nat32)

lemma in_region_mono: "in_region p n a \<Longrightarrow> n \<le> n' \<Longrightarrow> in_region p n' a"
  by (simp add: in_region_def)

lemma word_at_frame: "word_at W m a v \<Longrightarrow> (\<And>x. \<not> W x \<Longrightarrow> m' x = m x) \<Longrightarrow> (\<And>x. W' x \<Longrightarrow> W x) \<Longrightarrow> word_at W' m' a v"
  using rd32_frame[of W m a v m'] by (auto simp: word_at_def)

lemma fmt_args_frame:
  assumes "fmt_args W m ap fs" "length (concat (map fmt_out fs)) < 2 ^ 32" and eq: "\<And>a. \<not> W a \<Longrightarrow> m' a = m a" and sub: "\<And>a. W' a \<Longrightarrow> W a"
  shows "fmt_args W' m' ap fs"
  using assms(1,2)
proof (induction fs arbitrary: ap)
  case (Cons f fs)
  have word_at_sub: "word_at W' m' a v" if "word_at W m a v" for a v
    using that eq sub by (rule word_at_frame)
  from Cons show ?case
  proof (cases f)
    case (FStr p t)
    then have "cstr m' p t = cstr m p t"
      using Cons.prems eq by (intro cstr_frame) auto
    then show ?thesis
      using Cons FStr sub word_at_sub by auto
  qed (use word_at_sub eq sub in auto)
qed simp

text \<open>
  C28. Formatted output appears on the screen: for a format of literal characters and directives whose arguments are in the argument words, with a text of less than 1000 characters without a backspace, and
  with the console free, \<^verbatim>\<open>printf\<close> returns the length of the text, the terminal of 25 lines shows it in light grey from the cursor on, the lock of the console is free again
  and of the memory only the buffer has changed.
\<close>

theorem printf_reaches_terminal:
  assumes "cstr m format (concat (map fmt_src fs))" "\<forall>f \<in> set fs. fmt_ok f" and out: "out = concat (map fmt_out fs)"
    and "length out < 1000" "length (concat (map fmt_src fs)) < 2 ^ 32"
    and "disjoint_regions format (Suc (length (concat (map fmt_src fs)))) buffer 1000" "fmt_args (in_region buffer 1000) m format_addr fs"
    and "con_lock c = lock_init" "running_thread k \<noteq> NULL" "unat (cursor (con_screen c)) < 2000" "0x8 \<notin> set out"
  shows "\<exists>m' c'. printf buffer format format_addr m c k = Some (Inr (m', CRet (word_of_nat (length out)) c' k)) \<and>
    terminal_of (con_screen c') = fold (t_put 0x07) out (terminal_of (con_screen c)) \<and> unat (cursor (con_screen c')) < 2000 \<and>
    con_lock c' = lock_init \<and> (\<forall>a. \<not> in_region buffer 1000 a \<longrightarrow> m' a = m a)"
proof -
  let ?m = "memset buffer 0 1000 m"
  have eq: "?m a = m a" if "\<not> in_region buffer 1000 a" for a
    using memset_outside[OF that] by simp
  have sub: "in_region buffer 1000 a" if "in_region buffer (Suc (length out)) a" for a
    using in_region_mono[OF that] assms(4) by simp
  have "cstr ?m format (concat (map fmt_src fs)) = cstr m format (concat (map fmt_src fs))"
    using assms(5,6) eq by (intro cstr_frame) (auto simp: disjoint_regions_def)
  moreover have "fmt_args (in_region buffer (Suc (length out))) ?m format_addr fs"
    using assms(4) out by (intro fmt_args_frame[OF assms(7) _ eq sub]) auto
  moreover have "disjoint_regions format (Suc (length (concat (map fmt_src fs)))) buffer (Suc (length out))"
    using assms(6) sub by (auto simp: disjoint_regions_def)
  ultimately obtain m' where m': "vsprintf buffer format format_addr ?m = Some (word_of_nat (length out), m')" "cstr m' buffer out"
    "\<forall>a. \<not> in_region buffer (Suc (length out)) a \<longrightarrow> m' a = ?m a"
    using vsprintf_correct[of ?m format fs "Suc (length out)" buffer format_addr] assms(1,2,4,5) out by auto
  have "string_at buffer m' = Some out"
    using m'(2) assms(4) by (intro string_at_cstr) simp_all
  moreover have "sys_write out 0x07 c k = Some (Inr (CRet (word_of_nat (length out)) (c\<lparr>con_screen := put_str out 0x07 (con_screen c)\<rparr>) k))"
    using assms(8,9) by (simp add: sys_write_def console_put_str_def with_console_free)
  moreover have "m' a = m a" if "\<not> in_region buffer 1000 a" for a
    using m'(3) sub eq that by metis
  ultimately show ?thesis
    using m'(1) assms(8) put_str_refines_terminal[OF assms(10,11)] by (auto simp: printf_def write_at_def)
qed

theorem printf_reaches_terminal_witness:
  "\<exists>m' c'. printf 0x1000 0x100 0x200 fmt_example \<lparr>con_lock = lock_init, con_screen = screen0\<rparr> kstate0 = Some (Inr (m', CRet 3 c' kstate0)) \<and>
    terminal_of (con_screen c') = ((cells screen0)[0 := (0x34, 0x07), 1 := (0x32, 0x07), 2 := (0x21, 0x07)], 3)"
proof -
  let ?fs = "[FDec 42, FLit 0x21]"
  have "\<not> (unat (x + 0xF00) < 4 \<and> unat x < 1000)" for x :: u32
    by (auto simp: unat_word_ariths)
  then have "\<not> (unat (a - 0x1000 + 0xF00) < 4 \<and> unat (a - 0x1000) < 1000)" for a :: u32 .
  then have d: "disjoint_regions 0x100 (Suc (length (concat (map fmt_src ?fs)))) 0x1000 1000"
    by (auto simp: disjoint_regions_def in_region_def)
  have a: "fmt_args (in_region 0x1000 1000) fmt_example 0x200 ?fs"
    by (simp add: word_at_def all_less_4 rd32_def fmt_example_def in_region_def)
  have c: "cstr fmt_example 0x100 (concat (map fmt_src ?fs))" "\<forall>f \<in> set ?fs. fmt_ok f"
    by (simp_all add: fmt_example_def)
  have out: "[0x34, 0x32, 0x21] = concat (map fmt_out ?fs)"
    by (simp add: num_text_42)
  have s: "unat (cursor (con_screen \<lparr>con_lock = lock_init, con_screen = screen0\<rparr>)) < 2000" "running_thread kstate0 \<noteq> NULL"
    by (simp_all add: screen0_def kstate0_def NULL_def)
  from printf_reaches_terminal[OF c out _ _ d a _ s(2,1)] obtain m' c' where
    "printf 0x1000 0x100 0x200 fmt_example \<lparr>con_lock = lock_init, con_screen = screen0\<rparr> kstate0 = Some (Inr (m', CRet 3 c' kstate0))"
    "terminal_of (con_screen c') = fold (t_put 0x07) [0x34, 0x32, 0x21] (terminal_of screen0)"
    by auto
  moreover have "fold (t_put 0x07) [0x34, 0x32, 0x21] (terminal_of screen0) = ((cells screen0)[0 := (0x34, 0x07), 1 := (0x32, 0x07), 2 := (0x21, 0x07)], 3)"
    by (simp add: terminal_of_def t_put_def screen0_def) (simp add: numeral_2_eq_2 numeral_3_eq_3)
  ultimately show ?thesis
    by metis
qed

subsection \<open>From the keyboard to a variable\<close>

definition separator :: "u8 \<Rightarrow> bool" where
  "separator c \<longleftrightarrow> c = 0xA \<or> c = 0xD \<or> c = 0x20"

lemma sys_read_spec:
  assumes "printed s N m0 out m" "\<forall>c \<in> set t. \<not> separator c \<and> c \<noteq> 0" "separator e" "length out + length t < N" "N \<le> 2 ^ 32"
  shows "\<exists>m'. sys_read s (word_of_nat (length out)) (t @ e # inp) m = Some (inp, m') \<and> cstr m' s (out @ t) \<and> (\<forall>a. \<not> in_region s N a \<longrightarrow> m' a = m0 a)"
  using assms(1,2,4)
proof (induction t arbitrary: out m)
  case Nil
  let ?a = "s + word_of_nat (length out) :: u32"
  have r: "\<not> in_region s (length out) ?a" "in_region s N ?a"
    using Nil assms(5) in_region_nth[of "length out" N s] by (auto simp: in_region_def unat_nat32)
  have "bytes_at (m(?a := 0)) s out"
    by (rule bytes_at_frame[of m]) (use Nil r assms(5) in \<open>auto simp: printed_def\<close>)
  then have "cstr (m(?a := 0)) s out"
    using Nil(1) by (simp add: cstr_bytes bytes_at_append bytes_at_Cons printed_def) (simp add: bytes_at_def)
  then show ?case
    using Nil(1) r(2) assms(3) by (auto simp: separator_def printed_def)
next
  case (Cons c t)
  have "printed s N m0 (out @ [c]) (m(s + word_of_nat (length out) := c))"
    using Cons.prems assms(5) by (intro printed_char) auto
  then show ?case
    using Cons.IH[of "out @ [c]"] Cons.prems by (auto simp: separator_def ac_simps)
qed

lemma rd32_wr32: "rd32 (wr32 a v m) a = v"
proof -
  have "a \<noteq> a + 1" "a \<noteq> a + 2" "a \<noteq> a + 3" "a + 1 \<noteq> a + 2" "a + 1 \<noteq> a + 3" "a + 2 \<noteq> a + 3"
    by simp_all
  then have "rd32 (wr32 a v m) a = ucast (ucast v :: u8) OR push_bit 8 (ucast (ucast (drop_bit 8 v) :: u8)) OR
      push_bit 16 (ucast (ucast (drop_bit 16 v) :: u8)) OR push_bit 24 (ucast (ucast (drop_bit 24 v) :: u8))"
    by (simp add: rd32_def wr32_def)
  also have "\<dots> = v"
  proof (rule bit_word_eqI)
    fix n
    show "bit (ucast (ucast v :: u8) OR push_bit 8 (ucast (ucast (drop_bit 8 v) :: u8)) OR push_bit 16 (ucast (ucast (drop_bit 16 v) :: u8)) OR
        push_bit 24 (ucast (ucast (drop_bit 24 v) :: u8)) :: u32) n = bit v n" if "n < LENGTH(32)"
      using that by (cases "n < 24"; cases "n < 16") (auto simp: bit_simps not_less)
  qed
  finally show ?thesis .
qed

lemma wr32_outside: "\<not> in_region a 4 x \<Longrightarrow> wr32 a v m x = m x"
  by (auto simp: wr32_def in_region_def)

lemma vscanf_single:
  assumes f: "cstr m format [0x25, d]" and d: "vscanf_directive value d ap inp m = Some (ap', inp', m')" and f': "cstr m' format [0x25, d]"
  shows "vscanf value format ap inp m = Some (inp', m')"
proof -
  note step = vscanf_loop.simps
  have "vscanf_loop value format ap' 2 inp' m' = Some (inp', m')"
    using strlen_cstr[OF f'] by (subst step) simp
  then show ?thesis
    using strlen_cstr[OF f] f d by (subst vscanf_def, subst step) simp
qed

lemma num_text_chars: "c \<in> set (num_text 10 n) \<Longrightarrow> \<not> separator c \<and> c \<noteq> 0"
proof -
  have "\<not> separator (digit_char (word_of_nat d)) \<and> digit_char (word_of_nat d) \<noteq> 0" if "d < 10" for d
  proof -
    have "d \<in> {0, 1, 2, 3, 4, 5, 6, 7, 8, 9}"
      using that by auto
    then show ?thesis
      by (auto simp: digit_char_def separator_def)
  qed
  from this this[of 0] show "c \<in> set (num_text 10 n) \<Longrightarrow> \<not> separator c \<and> c \<noteq> 0"
    by (auto simp: num_text_def dest!: rdigits_lt split: if_splits)
qed

text \<open>\<^verbatim>\<open>scanf("%d", &x)\<close> stores the number whose decimal text is typed, \<^verbatim>\<open>scanf("%s", s)\<close> the word that is typed; both leave the rest of the input for the next call.\<close>

lemma read_word:
  assumes "\<forall>c \<in> set t. \<not> separator c \<and> c \<noteq> 0" "separator e" "length t < 1000"
  obtains m' where "sys_read s 0 (t @ e # inp) m = Some (inp, m')" "cstr m' s t" "\<forall>a. \<not> in_region s 1000 a \<longrightarrow> m' a = m a"
  using sys_read_spec[of s 1000 m "[]" m t e inp] assms by (auto simp: printed_def bytes_at_def)

lemma scanf_number:
  assumes "cstr m format [0x25, 0x64]" "rd32 m (format_addr + 4) = p" "separator e"
    and "disjoint_regions format 3 value 1000" "disjoint_regions format 3 p 4"
  shows "\<exists>m'. scanf value format format_addr (num_text 10 (unat x) @ e # inp) m = Some (inp, m') \<and> rd32 m' p = x \<and>
    (\<forall>a. \<not> in_region value 1000 a \<and> \<not> in_region p 4 a \<longrightarrow> m' a = m a)"
proof -
  have l: "length (num_text 10 (unat x)) \<le> 32"
    by (rule num_text_length) simp
  have t: "\<forall>c \<in> set (num_text 10 (unat x)). \<not> separator c \<and> c \<noteq> 0" "length (num_text 10 (unat x)) < 1000"
    using num_text_chars l by auto
  obtain m1 where m1: "sys_read value 0 (num_text 10 (unat x) @ e # inp) m = Some (inp, m1)" "cstr m1 value (num_text 10 (unat x))"
    "\<forall>a. \<not> in_region value 1000 a \<longrightarrow> m1 a = m a"
    using read_word[OF t(1) assms(3) t(2)] .
  have "s_to_uint value m1 = Some x"
    using s_to_uint_loop_cstr[of m1 "value" "[]" "num_text 10 (unat x)" 0] m1(2) l by (simp add: s_to_uint_def decimal_value)
  then have d: "vscanf_directive value 0x64 format_addr (num_text 10 (unat x) @ e # inp) m = Some (format_addr + 4, inp, wr32 p x m1)"
    using m1(1) assms(2) by (simp add: vscanf_directive_def)
  have fr: "wr32 p x m1 a = m a" if "\<not> in_region value 1000 a" "\<not> in_region p 4 a" for a
    using that m1(3) wr32_outside by simp
  have "cstr (wr32 p x m1) format [0x25, 0x64] = cstr m format [0x25, 0x64]"
    using assms(4,5) fr by (intro cstr_frame) (auto simp: disjoint_regions_def numeral_3_eq_3)
  then show ?thesis
    using vscanf_single[OF assms(1) d] assms(1) fr rd32_wr32 by (auto simp: scanf_def)
qed

lemma scanf_word:
  assumes "cstr m format [0x25, 0x73]" "rd32 m (format_addr + 4) = p" "separator e" "\<forall>c \<in> set t. \<not> separator c \<and> c \<noteq> 0" "length t < 1000"
    and "disjoint_regions format 3 value 1000" "disjoint_regions format 3 p (Suc (length t))" "disjoint_regions p (Suc (length t)) value (Suc (length t))"
  shows "\<exists>m'. scanf value format format_addr (t @ e # inp) m = Some (inp, m') \<and> cstr m' p t \<and>
    (\<forall>a. \<not> in_region value 1000 a \<and> \<not> in_region p (Suc (length t)) a \<longrightarrow> m' a = m a)"
proof -
  obtain m1 where m1: "sys_read value 0 (t @ e # inp) m = Some (inp, m1)" "cstr m1 value t" "\<forall>a. \<not> in_region value 1000 a \<longrightarrow> m1 a = m a"
    using read_word[OF assms(4,3,5)] .
  obtain m2 where m2: "strcpy p value m1 = Some (p, m2)" "cstr m2 p t" "\<forall>a. \<not> in_region p (Suc (length t)) a \<longrightarrow> m2 a = m1 a"
    using strlen_strcpy_correct[OF m1(2) _ assms(8)] assms(5) by auto
  have d: "vscanf_directive value 0x73 format_addr (t @ e # inp) m = Some (format_addr + 4, inp, m2)"
    using m1(1) m2(1) assms(2) by (simp add: vscanf_directive_def)
  have fr: "m2 a = m a" if "\<not> in_region value 1000 a" "\<not> in_region p (Suc (length t)) a" for a
    using that m1(3) m2(3) by simp
  have "cstr m2 format [0x25, 0x73] = cstr m format [0x25, 0x73]"
    using assms(6,7) fr by (intro cstr_frame) (auto simp: disjoint_regions_def numeral_3_eq_3)
  then show ?thesis
    using vscanf_single[OF assms(1) d] assms(1) fr m2(2) by (auto simp: scanf_def)
qed

end
