(* ===== verification/Spec2Isabelle.thy ===== *)
theory Spec2Isabelle
  imports Bitmap Klist Cstring Interrupt Sched Timer Sync Ioqueue Keyboard Paging Memory Heaplarge Thread Exec Forkmem Partition Stdio Shell Readersafe Programs Printf
begin

text \<open>
  A verification library for GwOS, a teaching kernel for the 32-bit x86 written in C (\<^verbatim>\<open>src/\<close>). The kernel has a
  round-robin scheduler driven by the timer interrupt, semaphores and locks, paged memory with a recursive page
  directory, a heap, processes with fork and exec, a keyboard and its input queue, a console, a disk driver, and a FAT12 file system on a second disk
  with a command dialogue.

  \<^bold>\<open>Parts and their theories.\<close> Every theory opens with a description of what it models; definitions keep the names of the C
  functions, and a loop of a function is a definition of its own named after it.

  \<^item> \<open>Prelude\<close>: fixed-width integers as words, the faults of C code (failed assertion, access outside of an array, null
    pointer, page fault, overwritten allocator data) as values of a sum type, and the sequencing of fallible code (\<open>andthen\<close>) and of code whose loops
    may not end (\<open>bindr\<close>, where \<open>None\<close> is a run that does not return).
  \<^item> \<open>Bitmap\<close> (\<^verbatim>\<open>lib/kernel/bitmap.c\<close>): the first-fit search for runs of free bits against a reference; the locale \<open>slot_pool\<close>
    states what the page pools and the identifier pool rely on.
  \<^item> \<open>Klist\<close> (\<^verbatim>\<open>lib/kernel/list.c\<close>): the doubly linked lists on an explicit pointer memory refine lists of nodes; locale \<open>node_queue\<close>.
  \<^item> \<open>Cstring\<close>, \<open>Stdio\<close> (\<^verbatim>\<open>lib/string.c\<close>, \<^verbatim>\<open>lib/stdio.c\<close>, \<^verbatim>\<open>lib/kernel/print_c.c\<close>): string and memory functions and formatted output on a
    byte memory with 32-bit addresses.
  \<^item> \<open>Interrupt\<close> (\<^verbatim>\<open>kernel/interrupt.c\<close>, \<^verbatim>\<open>kernel/include/global.h\<close>, \<^verbatim>\<open>userprog/tss.c\<close>): the interrupt flag, the descriptor tables
    and the task state segment.
  \<^item> \<open>Sched\<close>, \<open>Timer\<close>, \<open>Sync\<close>, \<open>Thread\<close> (\<^verbatim>\<open>thread/thread.c\<close>, \<^verbatim>\<open>device/timer.c\<close>, \<^verbatim>\<open>thread/sync.c\<close>, \<^verbatim>\<open>userprog/process.c\<close>): control
    blocks, ready and all lists, scheduling, time slices, blocking and waking, semaphores and locks run to completion and as an
    interleaved step relation, identifiers, creation and termination of threads.
  \<^item> \<open>Ioqueue\<close>, \<open>Keyboard\<close> (\<^verbatim>\<open>device/ioqueue.c\<close>, \<^verbatim>\<open>device/keyboard.c\<close>): the ring buffer as a bounded queue (locale \<open>bounded_fifo\<close>),
    with its waiting and waking, and the keyboard handler that fills it.
  \<^item> \<open>Paging\<close>, \<open>Memory\<close> (\<^verbatim>\<open>kernel/memory.c\<close>): the recursive page directory against the walk of the processor, the pools of
    frames and of virtual pages, allocation and release of pages.
  \<^item> \<open>Pages\<close>, \<open>Heap\<close>, \<open>Heapinv\<close>, \<open>Heaplarge\<close> (\<^verbatim>\<open>kernel/memory.c\<close>): the block allocator \<^verbatim>\<open>sys_malloc\<close> and \<^verbatim>\<open>sys_free\<close> on top of the
    pages. The locale \<open>page_pool\<close> states what the allocator relies on, and is interpreted on the kernel pages; \<open>Heap\<close> holds the
    operations, \<open>Heapinv\<close> the invariant of arenas and free lists, \<open>Heaplarge\<close> the requests of whole pages.
  \<^item> \<open>Process\<close>, \<open>Fork\<close>, \<open>Forkmem\<close>, \<open>Exec\<close> (\<^verbatim>\<open>userprog/process.c\<close>, \<^verbatim>\<open>wait.c\<close>, \<^verbatim>\<open>exit.c\<close>, \<^verbatim>\<open>fork.c\<close>, \<^verbatim>\<open>exec.c\<close>): the address space of a new process,
    how a process ends and its parent collects it, the copy of a process (operations in \<open>Fork\<close>, the invariant of the two address spaces and the theorem
    in \<open>Forkmem\<close>), and the loading of an executable file.
  \<^item> \<open>Screen\<close> (\<^verbatim>\<open>lib/kernel/print_asm.asm\<close>, \<^verbatim>\<open>lib/kernel/print_c.c\<close>, \<^verbatim>\<open>device/console.c\<close>, \<^verbatim>\<open>kernel/debug.c\<close>): the video memory with its cursor and the
    console under its lock, against an abstract terminal.
  \<^item> \<open>Dispatch\<close> (\<^verbatim>\<open>kernel/interrupt.c\<close>, \<^verbatim>\<open>userprog/syscall-init.c\<close>, \<^verbatim>\<open>lib/user/syscall.c\<close>): the tables of interrupt handlers and of system calls, the
    programming of the interrupt controllers (locale \<open>pic_pair\<close>) and the user side of the calls.
  \<^item> \<open>Ide\<close>, \<open>Idexfer\<close>, \<open>Partition\<close> (\<^verbatim>\<open>device/ide.c\<close>): the disk driver; the controller is a parameter. The locale \<open>ata_channel\<close> states what the controller
    does with the registers, \<open>disk_client\<close> what the other threads may do meanwhile; a model of a channel with two disks interprets them.
  \<^item> \<open>Disk\<close>, \<open>Fspath\<close>, \<open>Files\<close>, \<open>Fsfunc\<close>, \<open>Fstree\<close>, \<open>Fscontent\<close> (\<^verbatim>\<open>filesystem/\<close>): the FAT12 volume, paths and names, file objects,
    directory entries and open files, the operations and commands, and the theorems on the tree and on the content.
  \<^item> \<open>Shell\<close> (\<^verbatim>\<open>kernel/shell.c\<close>, the commands \<^verbatim>\<open>help\<close> and \<^verbatim>\<open>exec\<close> of \<^verbatim>\<open>filesystem/fsfunc.c\<close>): the dialogue that reads a word, runs the command of this name and prints the prompt.
  \<^item> \<open>Printf\<close> (\<^verbatim>\<open>lib/stdio.c\<close>): the functions programs call for input and output, on top of \<open>Stdio\<close>, the console of \<open>Screen\<close> and the calls of \<open>Dispatch\<close>.
  \<^item> \<open>Readers\<close>, \<open>Readersafe\<close>, \<open>Programs\<close> (\<^verbatim>\<open>userprog/actualuserprogs/\<close>): programs that are linked with the kernel and use its locks and processes: readers and writers, a bank
    account, moving letters, the counting of characters, words and fruit. Processes that share variables are step relations over the calls of the lock functions.

  \<^bold>\<open>How the parts interact.\<close> The bitmap serves the page pools and the identifier pool; the scheduler is called by the timer
  handler, by semaphores and by threads that block or end; locks protect the memory pools, the identifier pool and the
  input queue; the keyboard handler feeds the queue and wakes its reader; the file system reads and writes sectors and talks to
  the user through the formatted input and output. The models compose the same way: \<open>Sync\<close> calls \<open>Sched\<close>, \<open>Ioqueue\<close> calls
  \<open>Sync\<close>, \<open>Keyboard\<close> calls \<open>Ioqueue\<close>, \<open>Memory\<close> and \<open>Thread\<close> call \<open>Bitmap\<close> and the locks,
  \<open>Heap\<close> calls \<open>Memory\<close>, \<open>Process\<close> calls \<open>Thread\<close> and \<open>Heap\<close>, \<open>Fork\<close> calls \<open>Process\<close>, \<open>Exec\<close> calls \<open>Memory\<close> and the sectors of the disk,
  \<open>Shell\<close> calls \<open>Fsfunc\<close>, \<open>Printf\<close> calls \<open>Stdio\<close> and \<open>Screen\<close>, \<open>Readers\<close> and \<open>Programs\<close> call the locks of \<open>Sync\<close>,
  \<open>Ide\<close> waits on the semaphores of \<open>Sync\<close>, \<open>Screen\<close> prints under a lock of \<open>Sync\<close>, \<open>Dispatch\<close> enters the functions of the other theories in the table of
  system calls, \<open>Fsfunc\<close> calls \<open>Files\<close> and \<open>Disk\<close>.

  \<^bold>\<open>What is shown.\<close> Invariants: every sequence of timer interrupts, yields, blocks and wake-ups keeps the lists of threads, their
  states and the stack marks consistent and fails no assertion; a lock has at most one owner under every interleaving;
  every allocation and release keeps the arenas consistent, so that allocated blocks never overlap; in the program of readers and writers a writer is alone, no lock function
  fails and the processes never all wait for each other; the balance of the shared account is exact.
  Functional behaviour and refinement: lists, ring buffer, page allocation, address translation, formatted output from the format to a scrolling terminal, the allocation
  table, directory entries, paths, a session at the prompt of the shell, the dispatch of interrupts and system calls, the memory of a forked process as a copy
  of its parent's, a program loaded where its headers say. Round trips: pages and blocks allocated and freed, table entries, directory entries, sectors and texts written
  and read. Liveness: round robin, preemption, a process that ends wakes its waiting parent.
  Termination of the loops over lists and cluster chains is part of these statements: they say that the run returns. Error
  behaviour: the theorems of kind error and the findings of the manifest show where the code faults or deviates from its intention.

  \<^bold>\<open>Bounds.\<close> Words have the width of the C types. There is no fuel: loops are structural, have a termination proof, or are
  partial functions into an option type.

  \<^bold>\<open>Page directories.\<close> The theorems on page tables are about a directory whose entries point to different tables (\<open>wf_pd\<close>). Every directory that \<^verbatim>\<open>create_page_dir\<close> fills for a process has this
  property; the directory of the loader, in which the kernel threads run, has not, because its entries 0 and 768 share a table. What also holds there is stated for \<open>kernel_pd\<close>: the recursive mapping and the
  creation of the directory of a process.

  \<^bold>\<open>Not modelled.\<close> Assembly other than the character output and the page tables of the loader (boot sector, interrupt entries, \<^verbatim>\<open>switch_to\<close>), whose effect enters as the state change
  the C code relies on; the disk and the interrupt controllers, which are parameters with their documented behaviour as hypotheses; the sequence of calls in \<^verbatim>\<open>init_all\<close>, \<^verbatim>\<open>main\<close> and \<^verbatim>\<open>init\<close>, because the
  functions they call work on the states of their own theories; programs that only print (\<^verbatim>\<open>prog5.c\<close>, \<^verbatim>\<open>command/helloworld.c\<close>). Pages taken by the kernel while it runs on the directory of the loader are outside of the theorems
  on page tables. Stack depth of recursive C functions is not bounded in the models.
\<close>

end
